(* ===== verification/Prelude.thy ===== *)
theory Prelude
  imports Main "HOL-Library.Word" "HOL-Library.Char_ord" "HOL-Library.List_Lexorder"
    "HOL-Library.Code_Target_Nat"
begin

text \<open>
  Shared material of the development: the conversions between \<^verbatim>\<open>char\<close> and \<^verbatim>\<open>int\<close> that
  \<^verbatim>\<open>std::char_traits<char>\<close> performs, the result type of operations that may throw, decimal
  and hexadecimal printing as the C++ standard library does it (\<^verbatim>\<open>std::to_string\<close>,
  \<^verbatim>\<open>snprintf\<close> with a hexadecimal conversion), reading of decimal digits, and the generic lemmas on bytes,
  bit operations and lists that the component theories use.
\<close>

unbundle bit_operations_syntax

named_theorems byte_simps \<open>bytes, characters and their numeric values\<close>
named_theorems throw_simps \<open>sequencing of operations that may throw\<close>

section \<open>Operations that may throw\<close>

text \<open>An operation that may throw returns \<open>Inl e\<close> for the exception \<open>e\<close> and \<open>Inr r\<close> for a
  normal return.\<close>

definition try_bind :: "'e + 'a \<Rightarrow> ('a \<Rightarrow> 'e + 'b) \<Rightarrow> 'e + 'b" where
  "try_bind m f = (case m of Inl e \<Rightarrow> Inl e | Inr x \<Rightarrow> f x)"

lemma try_bind_simps [simp, throw_simps]:
  "try_bind (Inl e) f = Inl e"
  "try_bind (Inr x) f = f x"
  by (simp_all add: try_bind_def)

lemma try_bind_eq_Inr [throw_simps]:
  "try_bind m f = Inr y \<longleftrightarrow> (\<exists>x. m = Inr x \<and> f x = Inr y)"
  by (cases m) auto

lemma try_bind_eq_Inl [throw_simps]:
  "try_bind m f = Inl e \<longleftrightarrow> m = Inl e \<or> (\<exists>x. m = Inr x \<and> f x = Inl e)"
  by (cases m) auto

lemma try_bind_cong [fundef_cong]:
  "m = m' \<Longrightarrow> (\<And>x. m' = Inr x \<Longrightarrow> f x = g x) \<Longrightarrow> try_bind m f = try_bind m' g"
  by (cases m') auto

section \<open>Characters as integers\<close>

text \<open>
  \<^verbatim>\<open>std::char_traits<char>::to_int_type\<close> reads a \<^verbatim>\<open>char\<close> as an \<^verbatim>\<open>unsigned char\<close>, \<^verbatim>\<open>eof()\<close> is
  \<open>-1\<close>, and \<^verbatim>\<open>to_char_type\<close> (like any conversion to \<^verbatim>\<open>char\<close>) keeps the low eight bits.
\<close>

abbreviation ic :: "char \<Rightarrow> int" where "ic c \<equiv> of_char c"

abbreviation eof :: int where "eof \<equiv> - 1"

definition to_char_type :: "int \<Rightarrow> char" where
  "to_char_type i = char_of i"

lemma ic_nonneg [simp, byte_simps]: "0 \<le> ic c"
  by (metis of_char_of of_nat_0_le_iff of_nat_of_char)

lemma ic_less [simp, byte_simps]: "ic c < 256"
  by (metis char_of_mod_256 mod_pos_pos_trivial of_char_mod_256 pos_mod_bound zero_less_numeral)

lemma ic_neq_eof [simp, byte_simps]: "ic c \<noteq> - 1"
  using ic_nonneg [of c] by linarith

lemma ic_inject: "ic c = ic d \<longleftrightarrow> c = d"
  by (metis char_of_char)

lemma to_char_type_ic [simp, byte_simps]: "to_char_type (ic c) = c"
  by (simp add: to_char_type_def)

lemma ic_to_char_type [byte_simps]: "0 \<le> i \<Longrightarrow> i < 256 \<Longrightarrow> ic (to_char_type i) = i"
  by (simp add: to_char_type_def of_char_of)


section \<open>Decimal numbers\<close>

definition is_digit :: "char \<Rightarrow> bool" where
  "is_digit c \<longleftrightarrow> 48 \<le> ic c \<and> ic c \<le> 57"

definition digit_val :: "char \<Rightarrow> nat" where
  "digit_val c = nat (ic c - 48)"

definition digit_char :: "nat \<Rightarrow> char" where
  "digit_char d = to_char_type (48 + int d)"

text \<open>The value of a string of decimal digits, most significant digit first.\<close>

definition digits_value :: "string \<Rightarrow> nat" where
  "digits_value s = foldl (\<lambda>n c. 10 * n + digit_val c) 0 s"

text \<open>\<^verbatim>\<open>std::to_string\<close> on an unsigned integer.\<close>

fun to_string :: "nat \<Rightarrow> string" where
  "to_string n = (if n < 10 then [digit_char n] else to_string (n div 10) @ [digit_char (n mod 10)])"

declare to_string.simps [simp del]

text \<open>\<^verbatim>\<open>std::to_string\<close> on a signed integer.\<close>

definition to_string_int :: "int \<Rightarrow> string" where
  "to_string_int i = (if i < 0 then CHR ''-'' # to_string (nat (- i)) else to_string (nat i))"

lemma digit_char_facts:
  assumes "d < 10"
  shows ic_digit_char: "ic (digit_char d) = 48 + int d"
    and is_digit_digit_char: "is_digit (digit_char d)"
    and digit_val_digit_char: "digit_val (digit_char d) = d"
proof -
  show *: "ic (digit_char d) = 48 + int d"
    using assms by (simp add: digit_char_def ic_to_char_type)
  show "is_digit (digit_char d)" "digit_val (digit_char d) = d"
    using assms by (simp_all add: is_digit_def digit_val_def *)
qed

lemma digit_char_digit_val: "is_digit c \<Longrightarrow> digit_char (digit_val c) = c"
  by (simp add: is_digit_def digit_val_def digit_char_def)

lemma digit_val_less: "is_digit c \<Longrightarrow> digit_val c < 10"
  unfolding is_digit_def digit_val_def by linarith

lemma digits_value_Nil [simp]: "digits_value [] = 0"
  by (simp add: digits_value_def)

lemma digits_value_snoc [simp]: "digits_value (s @ [c]) = 10 * digits_value s + digit_val c"
  by (simp add: digits_value_def)

lemma digits_value_append:
  "digits_value (s @ t) = digits_value s * 10 ^ length t + digits_value t"
  by (induction t rule: rev_induct) (simp_all add: algebra_simps flip: append_assoc)

lemma to_string_nonempty [simp]: "to_string n \<noteq> []"
  by (subst to_string.simps) simp

lemma to_string_digits: "list_all is_digit (to_string n)"
proof (induction n rule: to_string.induct)
  case (1 n)
  then show ?case
    by (subst to_string.simps) (simp add: is_digit_digit_char)
qed

lemma digits_value_to_string [simp]: "digits_value (to_string n) = n"
proof (induction n rule: to_string.induct)
  case (1 n)
  show ?case
  proof (cases "n < 10")
    case True
    then show ?thesis
      by (subst to_string.simps) (simp add: digit_val_digit_char digits_value_def)
  next
    case False
    with 1 have "digits_value (to_string (n div 10)) = n div 10" by simp
    with False show ?thesis
      by (subst to_string.simps) (simp add: digit_val_digit_char)
  qed
qed

lemma to_string_inject [simp]: "to_string m = to_string n \<longleftrightarrow> m = n"
  by (metis digits_value_to_string)

text \<open>No leading zero is printed.\<close>

lemma hd_to_string_eq_zero: "hd (to_string n) = CHR ''0'' \<longleftrightarrow> n = 0"
proof (induction n rule: to_string.induct)
  case (1 n)
  show ?case
  proof (cases "n < 10")
    case True
    have "digit_char n = CHR ''0'' \<longleftrightarrow> n = 0"
      using ic_digit_char [OF True] by (auto simp: digit_char_def to_char_type_def char_of_def)
    with True show ?thesis by (subst to_string.simps) simp
  next
    case False
    with 1 have "hd (to_string (n div 10)) = CHR ''0'' \<longleftrightarrow> n div 10 = 0" by simp
    with False show ?thesis by (subst to_string.simps) (simp add: hd_append)
  qed
qed

lemma to_string_zero: "to_string 0 = ''0''"
  by (subst to_string.simps) (simp add: digit_char_def to_char_type_def char_of_def)

section \<open>Hexadecimal numbers\<close>

text \<open>One digit of \<^verbatim>\<open>%x\<close> (lower case) and of \<^verbatim>\<open>%X\<close> (upper case).\<close>

definition hex_lower :: "nat \<Rightarrow> char" where
  "hex_lower d = to_char_type (if d < 10 then 48 + int d else 87 + int d)"

definition hex_upper :: "nat \<Rightarrow> char" where
  "hex_upper d = to_char_type (if d < 10 then 48 + int d else 55 + int d)"

text \<open>\<^verbatim>\<open>%04x\<close>, \<^verbatim>\<open>%.4X\<close> and \<^verbatim>\<open>%.2X\<close> on values that fit in four, four and two digits.\<close>

definition hex4_lower :: "nat \<Rightarrow> string" where
  "hex4_lower n = map hex_lower [n div 4096 mod 16, n div 256 mod 16, n div 16 mod 16, n mod 16]"

definition hex4_upper :: "nat \<Rightarrow> string" where
  "hex4_upper n = map hex_upper [n div 4096 mod 16, n div 256 mod 16, n div 16 mod 16, n mod 16]"

definition hex2_upper :: "nat \<Rightarrow> string" where
  "hex2_upper n = map hex_upper [n div 16 mod 16, n mod 16]"

lemma ic_hex_lower: "d < 16 \<Longrightarrow> ic (hex_lower d) = (if d < 10 then 48 + int d else 87 + int d)"
  by (simp add: hex_lower_def ic_to_char_type)

section \<open>Bit operations as arithmetic\<close>

text \<open>Joining a low part and a shifted high part with \<^verbatim>\<open>|\<close> is addition.\<close>

lemma or_low_high_nat:
  fixes a b :: nat
  assumes "a < 2 ^ n"
  shows "a OR b * 2 ^ n = a + b * 2 ^ n"
proof -
  have "a AND push_bit n b = 0"
  proof (rule bit_eqI)
    fix k
    show "bit (a AND push_bit n b) k \<longleftrightarrow> bit (0 :: nat) k"
    proof (cases "k < n")
      case True
      then show ?thesis by (simp add: bit_and_iff bit_push_bit_iff)
    next
      case False
      then have "\<not> bit a k"
        using assms by (metis bit_take_bit_iff take_bit_nat_eq_self)
      then show ?thesis by (simp add: bit_and_iff)
    qed
  qed
  then have "a + push_bit n b = a OR push_bit n b"
    by (rule disjunctive_add_eq_or)
  then show ?thesis by (simp add: push_bit_eq_mult)
qed

lemma or_high_low_nat:
  fixes a b :: nat
  assumes "a < 2 ^ n"
  shows "b * 2 ^ n OR a = b * 2 ^ n + a"
  using or_low_high_nat [OF assms, of b] by (simp add: ac_simps or.commute)

lemma and_mask_nat: "(a::nat) AND (2 ^ n - 1) = a mod 2 ^ n"
  by (metis mask_eq_exp_minus_1 take_bit_eq_mask take_bit_eq_mod)

lemma unat_less_64: "unat (x :: 64 word) < 2 ^ 64"
  using unsigned_less [of x, where 'a = nat] by simp

end
