(* ===== verification/Cstdlib.thy ===== *)
theory Cstdlib
  imports Prelude
begin

text \<open>
  The conversions of the C standard library that the sources call: \<^verbatim>\<open>strtoull\<close>, \<^verbatim>\<open>strtoll\<close>,
  \<^verbatim>\<open>strtod\<close> (binary64, round to nearest with ties to even, as glibc computes it) and \<^verbatim>\<open>atoi\<close>
  (as glibc computes it, through \<^verbatim>\<open>strtol\<close> and a conversion to \<^verbatim>\<open>int\<close>). A converter returns the
  value, whether \<^verbatim>\<open>errno\<close> was set to \<^verbatim>\<open>ERANGE\<close>, and how many characters it consumed
  (\<^verbatim>\<open>endptr - str\<close>). Only decimal subject sequences without leading white space are covered by
  the three \<^verbatim>\<open>strto\<close> functions, since the lexer passes nothing else to them.
  A \<^verbatim>\<open>double\<close> is its IEEE-754 bit pattern, a \<open>64 word\<close>.
\<close>

section \<open>Integers\<close>

definition strtoull :: "string \<Rightarrow> 64 word \<times> bool \<times> nat" where
  "strtoull s =
     (let ds = takeWhile is_digit s; v = digits_value ds
      in if v < 2 ^ 64 then (of_nat v, False, length ds) else (- 1, True, length ds))"

definition strtoll :: "string \<Rightarrow> 64 word \<times> bool \<times> nat" where
  "strtoll s =
     (let neg = (s \<noteq> [] \<and> hd s = CHR ''-'');
          ds = takeWhile is_digit (if neg then tl s else s);
          n = length ds + (if neg then 1 else 0);
          v = digits_value ds
      in if neg then (if v \<le> 2 ^ 63 then (- of_nat v, False, n) else (2 ^ 63, True, n))
         else (if v < 2 ^ 63 then (of_nat v, False, n) else (2 ^ 63 - 1, True, n)))"

definition isspace :: "char \<Rightarrow> bool" where
  "isspace c \<longleftrightarrow> ic c = 32 \<or> (9 \<le> ic c \<and> ic c \<le> 13)"

definition atoi :: "string \<Rightarrow> 32 word" where
  "atoi s =
     (let t = dropWhile isspace s;
          neg = (t \<noteq> [] \<and> hd t = CHR ''-'');
          u = (if t \<noteq> [] \<and> (hd t = CHR ''-'' \<or> hd t = CHR ''+'') then tl t else t);
          v = int (digits_value (takeWhile is_digit u));
          l = (if neg then max (- (2 ^ 63)) (- v) else min (2 ^ 63 - 1) v)
      in word_of_int l)"

section \<open>Floating point\<close>

fun bit_length :: "nat \<Rightarrow> nat" where
  "bit_length n = (if n = 0 then 0 else Suc (bit_length (n div 2)))"

declare bit_length.simps [simp del]

definition double_inf :: "64 word" where
  "double_inf = 0x7FF0000000000000"

definition sign_bit :: "bool \<Rightarrow> 64 word" where
  "sign_bit neg = (if neg then 0x8000000000000000 else 0)"

text \<open>
  The bit pattern of the double nearest to \<open>num / den\<close>: the exponent \<open>k\<close> of the unit in the last
  place is chosen so that the quotient has 53 bits (fewer for a subnormal number), the quotient is
  rounded to nearest with ties to even, and a carry out of the significand moves into the exponent
  field by itself.
\<close>

definition round_to_double :: "nat \<Rightarrow> nat \<Rightarrow> 64 word" where
  "round_to_double num den =
     (let k0 = int (bit_length num) - int (bit_length den) - 53;
          k1 = (if num * 2 ^ nat (- k0) \<ge> 2 ^ 53 * den * 2 ^ nat k0 then k0 + 1 else k0);
          k = max (- 1074) k1;
          n = num * 2 ^ nat (- k);
          d = den * 2 ^ nat k;
          q = n div d; r = n mod d;
          q' = (if 2 * r > d \<or> (2 * r = d \<and> odd q) then q + 1 else q);
          bits = nat (k + 1074) * 2 ^ 52 + q'
      in if num = 0 then 0
         else if 0x7FF0000000000000 \<le> bits then double_inf else of_nat bits)"

definition dec_to_double :: "bool \<Rightarrow> nat \<Rightarrow> int \<Rightarrow> 64 word" where
  "dec_to_double neg m e =
     sign_bit neg OR
       (if 0 \<le> e then round_to_double (m * 10 ^ nat e) 1 else round_to_double m (10 ^ nat (- e)))"

text \<open>
  \<^verbatim>\<open>strtod\<close> in a locale whose decimal point is the single byte \<open>dp\<close>. In no locale that is a letter; so that the
  function is total, an \<^verbatim>\<open>e\<close> as decimal point counts as one in front of a digit only.
\<close>

definition decimal_point_at :: "char \<Rightarrow> string \<Rightarrow> bool" where
  "decimal_point_at dp t \<longleftrightarrow>
     t \<noteq> [] \<and> hd t = dp \<and> (dp = CHR ''e'' \<or> dp = CHR ''E'' \<longrightarrow> tl t \<noteq> [] \<and> is_digit (hd (tl t)))"

definition strtod :: "char \<Rightarrow> string \<Rightarrow> 64 word \<times> nat" where
  "strtod dp s =
     (let neg = (s \<noteq> [] \<and> hd s = CHR ''-'');
          t = (if neg then tl s else s);
          ip = takeWhile is_digit t;
          t1 = dropWhile is_digit t;
          fp = (if decimal_point_at dp t1 then takeWhile is_digit (tl t1) else []);
          t2 = (if decimal_point_at dp t1 then dropWhile is_digit (tl t1) else t1);
          hasexp = (t2 \<noteq> [] \<and> (hd t2 = CHR ''e'' \<or> hd t2 = CHR ''E''));
          x = (if hasexp then tl t2 else []);
          xneg = (x \<noteq> [] \<and> hd x = CHR ''-'');
          x' = (if x \<noteq> [] \<and> (hd x = CHR ''-'' \<or> hd x = CHR ''+'') then tl x else x);
          ep = takeWhile is_digit x';
          e = (if xneg then - int (digits_value ep) else int (digits_value ep));
          rest = (if hasexp \<and> ep \<noteq> [] then dropWhile is_digit x' else t2)
      in if ip = [] \<and> fp = [] then (0, 0)
         else (dec_to_double neg (digits_value (ip @ fp)) (e - int (length fp)),
               length s - length rest))"

lemma decimal_point_at_Nil [simp]: "\<not> decimal_point_at dp []"
  by (simp add: decimal_point_at_def)

definition isfinite :: "64 word \<Rightarrow> bool" where
  "isfinite x \<longleftrightarrow> x AND double_inf \<noteq> double_inf"

end
