(* ===== verification/Json_Lexer.thy ===== *)
theory Json_Lexer
  imports Cstdlib
begin

text \<open>
  The lexical analyser of the JSON library, class \<^verbatim>\<open>lexer\<close> of \<^verbatim>\<open>src/libwebrtc/json.hpp\<close>, for
  input taken from a \<^verbatim>\<open>std::string\<close> (\<^verbatim>\<open>iterator_input_adapter\<close>). The data members of the class
  are the fields of the record \<open>lexer\<close>; every member function is one definition that takes the
  lexer and returns it updated. The counters of \<^verbatim>\<open>position_t\<close> are natural numbers: they count
  characters of the input, which has fewer than \<open>2 ^ 64\<close> of them. The locale's decimal point is the
  field \<open>decimal_point_char\<close>, chosen when the lexer is constructed; a locale whose decimal point has more
  than one byte, of which the source keeps the first, is outside the model.

  A failing \<^verbatim>\<open>JSON_ASSERT\<close> ends the program. \<open>asserts_hold\<close> remembers whether one has failed; the
  parser looks at it after every token, before it does anything else.

  The loops (\<open>scan_string_loop\<close>, the digit loops of \<open>scan_number\<close>, the comment loops, white space
  skipping) are defined by well-founded recursion on \<open>remaining\<close>, the number of characters that
  can still be read, so the definitions contain the proof that every loop of the class ends.
\<close>

named_theorems lexer_frame \<open>fields of the lexer an operation leaves alone\<close>

section \<open>Tokens and state\<close>

datatype token_type =
    tok_uninitialized | tok_literal_true | tok_literal_false | tok_literal_null
  | tok_value_string | tok_value_unsigned | tok_value_integer | tok_value_float
  | tok_begin_array | tok_begin_object | tok_end_array | tok_end_object
  | tok_name_separator | tok_value_separator | tok_parse_error | tok_end_of_input
  | tok_literal_or_value

fun token_type_name :: "token_type \<Rightarrow> string" where
  "token_type_name tok_uninitialized = ''<uninitialized>''"
| "token_type_name tok_literal_true = ''true literal''"
| "token_type_name tok_literal_false = ''false literal''"
| "token_type_name tok_literal_null = ''null literal''"
| "token_type_name tok_value_string = ''string literal''"
| "token_type_name tok_value_unsigned = ''number literal''"
| "token_type_name tok_value_integer = ''number literal''"
| "token_type_name tok_value_float = ''number literal''"
| "token_type_name tok_begin_array = [CHR 0x27, CHR ''['', CHR 0x27]"
| "token_type_name tok_begin_object = [CHR 0x27, CHR ''{'', CHR 0x27]"
| "token_type_name tok_end_array = [CHR 0x27, CHR '']'', CHR 0x27]"
| "token_type_name tok_end_object = [CHR 0x27, CHR ''}'', CHR 0x27]"
| "token_type_name tok_name_separator = [CHR 0x27, CHR '':'', CHR 0x27]"
| "token_type_name tok_value_separator = [CHR 0x27, CHR '','', CHR 0x27]"
| "token_type_name tok_parse_error = ''<parse error>''"
| "token_type_name tok_end_of_input = ''end of input''"
| "token_type_name tok_literal_or_value =
     [CHR 0x27, CHR ''['', CHR 0x27] @ '', '' @ [CHR 0x27, CHR ''{'', CHR 0x27] @ '', or a literal''"

record position_t =
  chars_read_total :: nat
  chars_read_current_line :: nat
  lines_read :: nat

record lexer =
  ia :: string
  ignore_comments :: bool
  current :: int
  next_unget :: bool
  position :: position_t
  token_string :: string
  token_buffer :: string
  error_message :: string
  value_integer :: "64 word"
  value_unsigned :: "64 word"
  value_float :: "64 word"
  decimal_point_char :: int
  asserts_hold :: bool

definition lexer_init :: "string \<Rightarrow> bool \<Rightarrow> char \<Rightarrow> lexer" where
  "lexer_init input ignore_comments' decimal_point =
     \<lparr>ia = input, ignore_comments = ignore_comments', current = eof, next_unget = False,
      position = \<lparr>chars_read_total = 0, chars_read_current_line = 0, lines_read = 0\<rparr>,
      token_string = [], token_buffer = [], error_message = [],
      value_integer = 0, value_unsigned = 0, value_float = 0,
      decimal_point_char = ic decimal_point, asserts_hold = True\<rparr>"

text \<open>\<^verbatim>\<open>JSON_ASSERT(c)\<close>.\<close>

definition json_assert :: "bool \<Rightarrow> lexer \<Rightarrow> lexer" where
  "json_assert c l = l\<lparr>asserts_hold := asserts_hold l \<and> c\<rparr>"

section \<open>Input management\<close>

text \<open>\<open>get_character\<close> is the input adapter's function: the next character and the adapter advanced.\<close>

definition get_character :: "string \<Rightarrow> int \<times> string" where
  "get_character s = (case s of [] \<Rightarrow> (eof, []) | c # cs \<Rightarrow> (ic c, cs))"

definition reset :: "lexer \<Rightarrow> lexer" where
  "reset l = l\<lparr>token_buffer := [], token_string := [to_char_type (current l)]\<rparr>"

definition get :: "lexer \<Rightarrow> lexer" where
  "get l =
     (let p = position l;
          p1 = p\<lparr>chars_read_total := chars_read_total p + 1,
                 chars_read_current_line := chars_read_current_line p + 1\<rparr>;
          l1 = l\<lparr>position := p1\<rparr>;
          l2 = (if next_unget l1 then l1\<lparr>next_unget := False\<rparr>
                else (case get_character (ia l1) of (c, s) \<Rightarrow> l1\<lparr>current := c, ia := s\<rparr>));
          l3 = (if current l2 \<noteq> eof
                then l2\<lparr>token_string := token_string l2 @ [to_char_type (current l2)]\<rparr> else l2)
      in if current l3 = 10
         then l3\<lparr>position := (position l3)\<lparr>lines_read := lines_read (position l3) + 1,
                                            chars_read_current_line := 0\<rparr>\<rparr>
         else l3)"

definition unget :: "lexer \<Rightarrow> lexer" where
  "unget l =
     (let p = position l;
          p1 = p\<lparr>chars_read_total := chars_read_total p - 1\<rparr>;
          p2 = (if chars_read_current_line p1 = 0
                then (if lines_read p1 > 0 then p1\<lparr>lines_read := lines_read p1 - 1\<rparr> else p1)
                else p1\<lparr>chars_read_current_line := chars_read_current_line p1 - 1\<rparr>);
          l1 = l\<lparr>next_unget := True, position := p2\<rparr>
      in if current l1 \<noteq> eof
         then (let l2 = json_assert (token_string l1 \<noteq> []) l1 in l2\<lparr>token_string := butlast (token_string l2)\<rparr>)
         else l1)"

definition add :: "int \<Rightarrow> lexer \<Rightarrow> lexer" where
  "add c l = l\<lparr>token_buffer := token_buffer l @ [to_char_type c]\<rparr>"

definition lex_error :: "string \<Rightarrow> lexer \<Rightarrow> lexer" where
  "lex_error m l = l\<lparr>error_message := m\<rparr>"

text \<open>The number of characters the lexer can still read.\<close>

definition remaining :: "lexer \<Rightarrow> nat" where
  "remaining l = length (ia l) + (if next_unget l \<and> current l \<noteq> eof then 1 else 0)"

lemma remaining_get_le: "remaining (get l) \<le> remaining l"
  by (auto simp: remaining_def get_def Let_def get_character_def split: list.splits)

lemma remaining_get_leI: "remaining l \<le> n \<Longrightarrow> remaining (get l) \<le> n"
  using remaining_get_le order_trans by blast

lemma remaining_get_less: "current (get l) \<noteq> eof \<Longrightarrow> remaining (get l) < remaining l"
  by (auto simp: remaining_def get_def Let_def get_character_def split: list.splits if_splits)

lemma next_unget_get [simp]: "\<not> next_unget (get l)"
  by (auto simp: get_def Let_def get_character_def split: list.splits)

lemma remaining_updates [simp]:
  "remaining (add c l) = remaining l"
  "remaining (lex_error m l) = remaining l"
  "remaining (reset l) = remaining l"
  "remaining (json_assert c' l) = remaining l"
  by (simp_all add: remaining_def add_def lex_error_def reset_def json_assert_def)

lemma json_assert_holds [simp]: "json_assert True l = l"
  by (simp add: json_assert_def)

lemma current_json_assert [simp]: "current (json_assert c l) = current l"
  by (simp add: json_assert_def)

lemma remaining_unget:
  "\<not> next_unget l \<Longrightarrow> remaining (unget l) = remaining l + (if current l = eof then 0 else 1)"
  by (simp add: remaining_def unget_def Let_def json_assert_def)

text \<open>Reading a character and putting it back leaves at most what there was before.\<close>

lemma remaining_unget_get: "remaining (unget (get l)) \<le> remaining l"
  using remaining_get_le [of l] remaining_get_less [of l]
  by (auto simp: remaining_unget Suc_leI)

section \<open>Strings\<close>

fun get_codepoint_loop :: "nat list \<Rightarrow> int \<Rightarrow> lexer \<Rightarrow> int \<times> lexer" where
  "get_codepoint_loop [] codepoint l = (codepoint, l)"
| "get_codepoint_loop (factor # factors) codepoint l =
     (let l1 = get l; c = current l1
      in if ic CHR ''0'' \<le> c \<and> c \<le> ic CHR ''9''
         then get_codepoint_loop factors (codepoint + push_bit factor (c - 0x30)) l1
         else if ic CHR ''A'' \<le> c \<and> c \<le> ic CHR ''F''
         then get_codepoint_loop factors (codepoint + push_bit factor (c - 0x37)) l1
         else if ic CHR ''a'' \<le> c \<and> c \<le> ic CHR ''f''
         then get_codepoint_loop factors (codepoint + push_bit factor (c - 0x57)) l1
         else (- 1, l1))"

definition get_codepoint :: "lexer \<Rightarrow> int \<times> lexer" where
  "get_codepoint l =
     (case get_codepoint_loop [12, 8, 4, 0] 0 (json_assert (current l = ic CHR ''u'') l) of (codepoint, l1) \<Rightarrow>
        if codepoint = - 1 then (- 1, l1)
        else (codepoint, json_assert (0x0000 \<le> codepoint \<and> codepoint \<le> 0xFFFF) l1))"

definition ill_formed_message :: string where
  "ill_formed_message = ''invalid string: ill-formed UTF-8 byte''"

fun next_byte_in_range_loop :: "(int \<times> int) list \<Rightarrow> lexer \<Rightarrow> bool \<times> lexer" where
  "next_byte_in_range_loop [] l = (True, l)"
| "next_byte_in_range_loop ((lo, hi) # ranges) l =
     (let l1 = get l
      in if lo \<le> current l1 \<and> current l1 \<le> hi
         then next_byte_in_range_loop ranges (add (current l1) l1)
         else (False, lex_error ill_formed_message l1))"

text \<open>The source has the bounds in one list, two numbers for each range.\<close>

definition next_byte_in_range :: "(int \<times> int) list \<Rightarrow> lexer \<Rightarrow> bool \<times> lexer" where
  "next_byte_in_range ranges l =
     (let l1 = json_assert (2 * length ranges = 2 \<or> 2 * length ranges = 4 \<or> 2 * length ranges = 6) l
      in next_byte_in_range_loop ranges (add (current l1) l1))"

text \<open>Translation of a code point into its UTF-8 bytes, added to the token buffer one by one.\<close>

definition add_codepoint :: "int \<Rightarrow> lexer \<Rightarrow> lexer" where
  "add_codepoint codepoint l0 =
     (let l = json_assert (0x00 \<le> codepoint \<and> codepoint \<le> 0x10FFFF) l0 in
      if codepoint < 0x80 then add codepoint l
      else if codepoint \<le> 0x7FF then
        add (0x80 OR (codepoint AND 0x3F))
          (add (0xC0 OR drop_bit 6 codepoint) l)
      else if codepoint \<le> 0xFFFF then
        add (0x80 OR (codepoint AND 0x3F))
          (add (0x80 OR (drop_bit 6 codepoint AND 0x3F))
            (add (0xE0 OR drop_bit 12 codepoint) l))
      else
        add (0x80 OR (codepoint AND 0x3F))
          (add (0x80 OR (drop_bit 6 codepoint AND 0x3F))
            (add (0x80 OR (drop_bit 12 codepoint AND 0x3F))
              (add (0xF0 OR drop_bit 18 codepoint) l))))"

definition hex_digits_message :: string where
  "hex_digits_message =
     ''invalid string: '' @ [CHR 0x27, CHR 0x5C, CHR ''u'', CHR 0x27] @
     '' must be followed by 4 hex digits''"

definition high_surrogate_message :: string where
  "high_surrogate_message =
     ''invalid string: surrogate U+D800..U+DBFF must be followed by U+DC00..U+DFFF''"

definition low_surrogate_message :: string where
  "low_surrogate_message =
     ''invalid string: surrogate U+DC00..U+DFFF must follow U+D800..U+DBFF''"

text \<open>
  The escape \<^verbatim>\<open>\u\<close>: one code unit, or a high surrogate followed by an escaped low surrogate. The
  second \<^verbatim>\<open>get()\<close> of the test for that escape is performed only when the first one read a backslash.
  The surrogate arithmetic is on \<^verbatim>\<open>unsigned int\<close>, so it is reduced modulo \<open>2 ^ 32\<close>.
\<close>

definition scan_unicode_escape :: "lexer \<Rightarrow> bool \<times> lexer" where
  "scan_unicode_escape l =
     (case get_codepoint l of (codepoint1, l1) \<Rightarrow>
        if codepoint1 = - 1 then (False, lex_error hex_digits_message l1)
        else if 0xD800 \<le> codepoint1 \<and> codepoint1 \<le> 0xDBFF then
          (let l2 = get l1 in
           if current l2 = ic CHR 0x5C then
             (let l3 = get l2 in
              if current l3 = ic CHR ''u'' then
                (case get_codepoint l3 of (codepoint2, l4) \<Rightarrow>
                   if codepoint2 = - 1 then (False, lex_error hex_digits_message l4)
                   else if 0xDC00 \<le> codepoint2 \<and> codepoint2 \<le> 0xDFFF then
                     (True, add_codepoint
                              ((push_bit 10 codepoint1 + codepoint2 - 0x35FDC00) mod 2 ^ 32) l4)
                   else (False, lex_error high_surrogate_message l4))
              else (False, lex_error high_surrogate_message l3))
           else (False, lex_error high_surrogate_message l2))
        else if 0xDC00 \<le> codepoint1 \<and> codepoint1 \<le> 0xDFFF
        then (False, lex_error low_surrogate_message l1)
        else (True, add_codepoint codepoint1 l1))"

definition scan_escape :: "lexer \<Rightarrow> bool \<times> lexer" where
  "scan_escape l =
     (let l1 = get l; c = current l1
      in if c = ic CHR 0x22 then (True, add 0x22 l1)
         else if c = ic CHR 0x5C then (True, add 0x5C l1)
         else if c = ic CHR ''/'' then (True, add 0x2F l1)
         else if c = ic CHR ''b'' then (True, add 0x08 l1)
         else if c = ic CHR ''f'' then (True, add 0x0C l1)
         else if c = ic CHR ''n'' then (True, add 0x0A l1)
         else if c = ic CHR ''r'' then (True, add 0x0D l1)
         else if c = ic CHR ''t'' then (True, add 0x09 l1)
         else if c = ic CHR ''u'' then scan_unicode_escape l1
         else (False, lex_error ''invalid string: forbidden character after backslash'' l1))"

definition control_names :: "string list" where
  "control_names =
     [''NUL'', ''SOH'', ''STX'', ''ETX'', ''EOT'', ''ENQ'', ''ACK'', ''BEL'',
      ''BS'', ''HT'', ''LF'', ''VT'', ''FF'', ''CR'', ''SO'', ''SI'',
      ''DLE'', ''DC1'', ''DC2'', ''DC3'', ''DC4'', ''NAK'', ''SYN'', ''ETB'',
      ''CAN'', ''EM'', ''SUB'', ''ESC'', ''FS'', ''GS'', ''RS'', ''US'']"

text \<open>The message for an unescaped control character; five of them name the short escape too.\<close>

definition control_message :: "int \<Rightarrow> string" where
  "control_message c =
     ''invalid string: control character U+00'' @ hex2_upper (nat c) @ '' ('' @
     control_names ! nat c @ '') must be escaped to '' @ [CHR 0x5C] @ ''u00'' @ hex2_upper (nat c) @
     (if c = 0x08 then '' or '' @ [CHR 0x5C] @ ''b''
      else if c = 0x09 then '' or '' @ [CHR 0x5C] @ ''t''
      else if c = 0x0A then '' or '' @ [CHR 0x5C] @ ''n''
      else if c = 0x0C then '' or '' @ [CHR 0x5C] @ ''f''
      else if c = 0x0D then '' or '' @ [CHR 0x5C] @ ''r'' else [])"

text \<open>The byte ranges that must follow a lead byte of a multi-byte sequence; none for a byte that
  cannot start one.\<close>

definition utf8_ranges :: "int \<Rightarrow> (int \<times> int) list option" where
  "utf8_ranges c =
     (if 0xC2 \<le> c \<and> c \<le> 0xDF then Some [(0x80, 0xBF)]
      else if c = 0xE0 then Some [(0xA0, 0xBF), (0x80, 0xBF)]
      else if (0xE1 \<le> c \<and> c \<le> 0xEC) \<or> c = 0xEE \<or> c = 0xEF then Some [(0x80, 0xBF), (0x80, 0xBF)]
      else if c = 0xED then Some [(0x80, 0x9F), (0x80, 0xBF)]
      else if c = 0xF0 then Some [(0x90, 0xBF), (0x80, 0xBF), (0x80, 0xBF)]
      else if 0xF1 \<le> c \<and> c \<le> 0xF3 then Some [(0x80, 0xBF), (0x80, 0xBF), (0x80, 0xBF)]
      else if c = 0xF4 then Some [(0x80, 0x8F), (0x80, 0xBF), (0x80, 0xBF)]
      else None)"

text \<open>None of these functions gives characters back.\<close>

lemma remaining_get_codepoint_loop:
  "get_codepoint_loop fs cp l = (r, l') \<Longrightarrow> remaining l' \<le> remaining l"
proof (induction fs cp l arbitrary: r l' rule: get_codepoint_loop.induct)
  case (2 f fs cp l)
  from 2(4) show ?case
    by (auto simp: Let_def split: if_splits dest!: 2(1-3) [OF refl refl, rotated -1]
        intro: order_trans [OF _ remaining_get_le] remaining_get_le)
qed simp

lemma remaining_get_codepoint:
  "get_codepoint l = (r, l') \<Longrightarrow> remaining l' \<le> remaining l"
  unfolding get_codepoint_def
  by (auto simp del: get_codepoint_loop.simps split: prod.splits if_splits
      dest!: remaining_get_codepoint_loop)

lemma remaining_next_byte_in_range:
  "next_byte_in_range rs l = (r, l') \<Longrightarrow> remaining l' \<le> remaining l"
proof -
  have "next_byte_in_range_loop rs l = (r, l') \<Longrightarrow> remaining l' \<le> remaining l" for rs l
  proof (induction rs l arbitrary: r l' rule: next_byte_in_range_loop.induct)
    case (2 lo hi rs l)
    then show ?case
      using remaining_get_le [of l] by (fastforce simp: Let_def split: if_splits)
  qed simp
  then show "next_byte_in_range rs l = (r, l') \<Longrightarrow> remaining l' \<le> remaining l"
    unfolding next_byte_in_range_def Let_def by fastforce
qed

lemma remaining_add_codepoint [simp]: "remaining (add_codepoint cp l) = remaining l"
  by (simp add: add_codepoint_def Let_def)

lemma remaining_scan_unicode_escape:
  "scan_unicode_escape l = (r, l') \<Longrightarrow> remaining l' \<le> remaining l"
  unfolding scan_unicode_escape_def Let_def
  by (auto split: prod.splits if_splits dest!: remaining_get_codepoint
      intro: remaining_get_leI order_trans [OF _ remaining_get_leI [OF remaining_get_leI]])

lemma remaining_scan_escape: "scan_escape l = (r, l') \<Longrightarrow> remaining l' \<le> remaining l"
  unfolding scan_escape_def Let_def
  using remaining_get_le [of l]
  by (auto split: if_splits dest!: remaining_scan_unicode_escape)

function scan_string_loop :: "lexer \<Rightarrow> token_type \<times> lexer" where
  "scan_string_loop l0 =
     (let l = get l0; c = current l
      in if c = eof
         then (tok_parse_error, lex_error ''invalid string: missing closing quote'' l)
         else if c = ic CHR 0x22 then (tok_value_string, l)
         else if c = ic CHR 0x5C then
           (case scan_escape l of (ok, l1) \<Rightarrow>
              if ok then scan_string_loop l1 else (tok_parse_error, l1))
         else if 0x00 \<le> c \<and> c \<le> 0x1F then (tok_parse_error, lex_error (control_message c) l)
         else if 0x20 \<le> c \<and> c \<le> 0x7F then scan_string_loop (add c l)
         else (case utf8_ranges c of
                 None \<Rightarrow> (tok_parse_error, lex_error ill_formed_message l)
               | Some ranges \<Rightarrow>
                   (case next_byte_in_range ranges l of (ok, l1) \<Rightarrow>
                      if ok then scan_string_loop l1 else (tok_parse_error, l1))))"
  by pat_completeness auto
termination
proof (relation "measure remaining", goal_cases)
  case (2 l0 l c ok l1)
  then show ?case
    using remaining_get_less [of l0] remaining_scan_escape [of l ok l1] by simp
next
  case (3 l0 l c)
  then show ?case using remaining_get_less [of l0] by simp
next
  case (4 l0 l c ranges ok l1)
  then show ?case
    using remaining_get_less [of l0] remaining_next_byte_in_range [of ranges l ok l1] by simp
qed simp

declare scan_string_loop.simps [simp del]

definition scan_string :: "lexer \<Rightarrow> token_type \<times> lexer" where
  "scan_string l0 = (let l = reset l0 in scan_string_loop (json_assert (current l = ic CHR 0x22) l))"

section \<open>Comments\<close>

function scan_line_comment :: "lexer \<Rightarrow> lexer" where
  "scan_line_comment l0 =
     (let l = get l0; c = current l
      in if c = 10 \<or> c = 13 \<or> c = eof \<or> c = 0 then l else scan_line_comment l)"
  by pat_completeness auto
termination
  by (relation "measure remaining") (simp_all add: remaining_get_less)

declare scan_line_comment.simps [simp del]

function scan_block_comment :: "lexer \<Rightarrow> bool \<times> lexer" where
  "scan_block_comment l0 =
     (let l = get l0; c = current l
      in if c = eof \<or> c = 0
         then (False, lex_error (''invalid comment; missing closing '' @
                                 [CHR 0x27, CHR ''*'', CHR ''/'', CHR 0x27]) l)
         else if c = ic CHR ''*'' then
           (let l1 = get l
            in if current l1 = ic CHR ''/'' then (True, l1) else scan_block_comment (unget l1))
         else scan_block_comment l)"
  by pat_completeness auto
termination
proof (relation "measure remaining", goal_cases)
  case (2 l0 l c l1)
  then show ?case
    using remaining_get_less [of l0] remaining_unget_get [of l] by simp
next
  case (3 l0 l c)
  then show ?case by (simp add: remaining_get_less)
qed simp

declare scan_block_comment.simps [simp del]

definition scan_comment :: "lexer \<Rightarrow> bool \<times> lexer" where
  "scan_comment l =
     (let l1 = get l; c = current l1
      in if c = ic CHR ''/'' then (True, scan_line_comment l1)
         else if c = ic CHR ''*'' then scan_block_comment l1
         else (False, lex_error (''invalid comment; expecting '' @ [CHR 0x27, CHR ''/'', CHR 0x27] @
                '' or '' @ [CHR 0x27, CHR ''*'', CHR 0x27] @ '' after '' @
                [CHR 0x27, CHR ''/'', CHR 0x27]) l1))"

section \<open>Numbers\<close>

definition digit_1_9 :: "int \<Rightarrow> bool" where
  "digit_1_9 c \<longleftrightarrow> ic CHR ''1'' \<le> c \<and> c \<le> ic CHR ''9''"

definition digit_0_9 :: "int \<Rightarrow> bool" where
  "digit_0_9 c \<longleftrightarrow> ic CHR ''0'' \<le> c \<and> c \<le> ic CHR ''9''"

text \<open>
  One definition per label of the state machine, in the order in which they can be defined: the
  labels jump only to themselves and to labels defined before them. \<open>nt\<close> is the local
  \<^verbatim>\<open>number_type\<close>.
\<close>

definition number_as_float :: "lexer \<Rightarrow> token_type \<times> lexer" where
  "number_as_float l =
     (case strtod (to_char_type (decimal_point_char l)) (token_buffer l) of (x, endptr) \<Rightarrow>
        (tok_value_float, json_assert (endptr = length (token_buffer l)) (l\<lparr>value_float := x\<rparr>)))"

definition scan_number_done :: "token_type \<Rightarrow> lexer \<Rightarrow> token_type \<times> lexer" where
  "scan_number_done nt l0 =
     (let l = unget l0
      in if nt = tok_value_unsigned then
           (case strtoull (token_buffer l) of (x, erange, endptr) \<Rightarrow>
              let l1 = json_assert (endptr = length (token_buffer l)) l
              in if \<not> erange then (tok_value_unsigned, l1\<lparr>value_unsigned := x\<rparr>) else number_as_float l1)
         else if nt = tok_value_integer then
           (case strtoll (token_buffer l) of (x, erange, endptr) \<Rightarrow>
              let l1 = json_assert (endptr = length (token_buffer l)) l
              in if \<not> erange then (tok_value_integer, l1\<lparr>value_integer := x\<rparr>) else number_as_float l1)
         else number_as_float l)"

function scan_number_any2 :: "token_type \<Rightarrow> lexer \<Rightarrow> token_type \<times> lexer" where
  "scan_number_any2 nt l0 =
     (let l = get l0; c = current l
      in if digit_0_9 c then scan_number_any2 nt (add c l) else scan_number_done nt l)"
  by pat_completeness auto
termination
  by (relation "measure (\<lambda>(nt, l). remaining l)")
     (auto simp: digit_0_9_def intro!: remaining_get_less)

declare scan_number_any2.simps [simp del]

definition scan_number_sign :: "token_type \<Rightarrow> lexer \<Rightarrow> token_type \<times> lexer" where
  "scan_number_sign nt l0 =
     (let l = get l0; c = current l
      in if digit_0_9 c then scan_number_any2 nt (add c l)
         else (tok_parse_error,
               lex_error ''invalid number; expected digit after exponent sign'' l))"

definition scan_number_exponent :: "lexer \<Rightarrow> token_type \<times> lexer" where
  "scan_number_exponent l0 =
     (let nt = tok_value_float; l = get l0; c = current l
      in if c = ic CHR ''+'' \<or> c = ic CHR ''-'' then scan_number_sign nt (add c l)
         else if digit_0_9 c then scan_number_any2 nt (add c l)
         else (tok_parse_error,
               lex_error (''invalid number; expected '' @ [CHR 0x27, CHR ''+'', CHR 0x27] @ '', '' @
                 [CHR 0x27, CHR ''-'', CHR 0x27] @ '', or digit after exponent'') l))"

function scan_number_decimal2 :: "token_type \<Rightarrow> lexer \<Rightarrow> token_type \<times> lexer" where
  "scan_number_decimal2 nt l0 =
     (let l = get l0; c = current l
      in if digit_0_9 c then scan_number_decimal2 nt (add c l)
         else if c = ic CHR ''e'' \<or> c = ic CHR ''E'' then scan_number_exponent (add c l)
         else scan_number_done nt l)"
  by pat_completeness auto
termination
  by (relation "measure (\<lambda>(nt, l). remaining l)")
     (auto simp: digit_0_9_def intro!: remaining_get_less)

declare scan_number_decimal2.simps [simp del]

definition scan_number_decimal1 :: "lexer \<Rightarrow> token_type \<times> lexer" where
  "scan_number_decimal1 l0 =
     (let nt = tok_value_float; l = get l0; c = current l
      in if digit_0_9 c then scan_number_decimal2 nt (add c l)
         else (tok_parse_error,
               lex_error (''invalid number; expected digit after '' @
                 [CHR 0x27, CHR ''.'', CHR 0x27]) l))"

function scan_number_any1 :: "token_type \<Rightarrow> lexer \<Rightarrow> token_type \<times> lexer" where
  "scan_number_any1 nt l0 =
     (let l = get l0; c = current l
      in if digit_0_9 c then scan_number_any1 nt (add c l)
         else if c = ic CHR ''.'' then scan_number_decimal1 (add (decimal_point_char l) l)
         else if c = ic CHR ''e'' \<or> c = ic CHR ''E'' then scan_number_exponent (add c l)
         else scan_number_done nt l)"
  by pat_completeness auto
termination
  by (relation "measure (\<lambda>(nt, l). remaining l)")
     (auto simp: digit_0_9_def intro!: remaining_get_less)

declare scan_number_any1.simps [simp del]

definition scan_number_zero :: "token_type \<Rightarrow> lexer \<Rightarrow> token_type \<times> lexer" where
  "scan_number_zero nt l0 =
     (let l = get l0; c = current l
      in if c = ic CHR ''.'' then scan_number_decimal1 (add (decimal_point_char l) l)
         else if c = ic CHR ''e'' \<or> c = ic CHR ''E'' then scan_number_exponent (add c l)
         else scan_number_done nt l)"

definition scan_number_minus :: "lexer \<Rightarrow> token_type \<times> lexer" where
  "scan_number_minus l0 =
     (let nt = tok_value_integer; l = get l0; c = current l
      in if c = ic CHR ''0'' then scan_number_zero nt (add c l)
         else if digit_1_9 c then scan_number_any1 nt (add c l)
         else (tok_parse_error,
               lex_error (''invalid number; expected digit after '' @
                 [CHR 0x27, CHR ''-'', CHR 0x27]) l))"

text \<open>\<open>scan\<close> calls \<open>scan_number\<close> only on a minus sign or a digit.\<close>

definition scan_number :: "lexer \<Rightarrow> token_type \<times> lexer" where
  "scan_number l0 =
     (let l = reset l0; nt = tok_value_unsigned; c = current l
      in if c = ic CHR ''-'' then scan_number_minus (add c l)
         else if c = ic CHR ''0'' then scan_number_zero nt (add c l)
         else if digit_1_9 c then scan_number_any1 nt (add c l)
         else (tok_uninitialized, json_assert False l))"

section \<open>Literals and the scanner\<close>

fun scan_literal_loop :: "string \<Rightarrow> lexer \<Rightarrow> bool \<times> lexer" where
  "scan_literal_loop [] l = (True, l)"
| "scan_literal_loop (x # xs) l =
     (let l1 = get l
      in if to_char_type (current l1) \<noteq> x then (False, lex_error ''invalid literal'' l1)
         else scan_literal_loop xs l1)"

definition scan_literal :: "string \<Rightarrow> token_type \<Rightarrow> lexer \<Rightarrow> token_type \<times> lexer" where
  "scan_literal literal_text return_type l =
     (case scan_literal_loop (tl literal_text)
             (json_assert (to_char_type (current l) = hd literal_text) l) of (ok, l1) \<Rightarrow>
        if ok then (return_type, l1) else (tok_parse_error, l1))"

definition skip_bom :: "lexer \<Rightarrow> bool \<times> lexer" where
  "skip_bom l =
     (let l1 = get l
      in if current l1 = 0xEF then
           (let l2 = get l1
            in if current l2 = 0xBB then (let l3 = get l2 in (current l3 = 0xBF, l3))
               else (False, l2))
         else (True, unget l1))"

function skip_whitespace :: "lexer \<Rightarrow> lexer" where
  "skip_whitespace l0 =
     (let l = get l0; c = current l
      in if c = ic CHR '' '' \<or> c = 9 \<or> c = 10 \<or> c = 13 then skip_whitespace l else l)"
  by pat_completeness auto
termination
  by (relation "measure remaining") (auto intro!: remaining_get_less)

declare skip_whitespace.simps [simp del]

lemma next_unget_scan_line_comment [simp]: "\<not> next_unget (scan_line_comment l)"
proof (induction l rule: scan_line_comment.induct)
  case (1 l0)
  then show ?case by (subst scan_line_comment.simps) (simp add: Let_def)
qed

lemma remaining_scan_line_comment: "remaining (scan_line_comment l) \<le> remaining l"
proof (induction l rule: scan_line_comment.induct)
  case (1 l0)
  then show ?case
    by (subst scan_line_comment.simps)
       (auto simp: Let_def remaining_get_le intro: order_trans [OF _ remaining_get_le])
qed

lemma remaining_scan_block_comment:
  "scan_block_comment l = (r, l') \<Longrightarrow> remaining l' \<le> remaining l"
proof (induction l arbitrary: r l' rule: scan_block_comment.induct)
  case (1 l0)
  let ?l = "get l0" and ?l1 = "get (get l0)"
  have un: "remaining (unget ?l1) \<le> remaining l0"
    using remaining_unget_get [of ?l] remaining_get_le [of l0] by simp
  show ?case
  proof (cases "current ?l = eof \<or> current ?l = 0 \<or> current ?l = ic CHR ''*''")
    case True
    then show ?thesis
      using 1(1) [OF refl refl, of ?l1 r l'] 1(3) un remaining_get_le [of l0]
      by (auto simp: scan_block_comment.simps [of l0] Let_def split: if_splits
          intro: remaining_get_leI)
  next
    case False
    with 1(3) have "scan_block_comment ?l = (r, l')"
      by (simp add: scan_block_comment.simps [of l0] Let_def)
    with False 1(2) [OF refl refl] have "remaining l' \<le> remaining ?l" by auto
    then show ?thesis using remaining_get_le [of l0] by simp
  qed
qed

lemma remaining_scan_comment: "scan_comment l = (r, l') \<Longrightarrow> remaining l' \<le> remaining l"
  using remaining_get_le [of l] remaining_scan_line_comment [of "get l"]
    remaining_scan_block_comment [of "get l" r l']
  by (auto simp: scan_comment_def Let_def split: if_splits)

lemma next_unget_skip_whitespace [simp]: "\<not> next_unget (skip_whitespace l)"
proof (induction l rule: skip_whitespace.induct)
  case (1 l0)
  then show ?case by (subst skip_whitespace.simps) (auto simp: Let_def)
qed

lemma remaining_skip_whitespace: "remaining (skip_whitespace l) \<le> remaining l"
proof (induction l rule: skip_whitespace.induct)
  case (1 l0)
  then show ?case
    by (subst skip_whitespace.simps)
       (auto simp: Let_def remaining_get_le intro: order_trans [OF _ remaining_get_le])
qed

lemma remaining_skip_whitespace_less:
  "current (skip_whitespace l) \<noteq> eof \<Longrightarrow> remaining (skip_whitespace l) < remaining l"
proof (induction l rule: skip_whitespace.induct)
  case (1 l0)
  then show ?case
    by (auto simp: skip_whitespace.simps [of l0] Let_def split: if_splits
        intro: remaining_get_less order_less_le_trans [OF _ remaining_get_le])
qed

lemma remaining_scan_comment_less:
  "scan_comment l = (True, l') \<Longrightarrow> remaining l' < remaining l"
  using remaining_get_less [of l] remaining_scan_line_comment [of "get l"]
    remaining_scan_block_comment [of "get l" True l']
  by (auto simp: scan_comment_def Let_def split: if_splits)

function scan_comments :: "lexer \<Rightarrow> bool \<times> lexer" where
  "scan_comments l =
     (if ignore_comments l \<and> current l = ic CHR ''/'' then
        (case scan_comment l of (ok, l1) \<Rightarrow>
           if ok then scan_comments (skip_whitespace l1) else (False, l1))
      else (True, l))"
  by pat_completeness auto
termination
proof (relation "measure remaining", goal_cases)
  case (2 l ok l1)
  then show ?case
    using remaining_scan_comment_less [of l l1] remaining_skip_whitespace [of l1] by simp
qed simp

declare scan_comments.simps [simp del]

text \<open>The final switch of \<open>scan\<close> on the first character of the token.\<close>

definition scan_token :: "lexer \<Rightarrow> token_type \<times> lexer" where
  "scan_token l =
     (let c = current l
      in if c = ic CHR ''['' then (tok_begin_array, l)
         else if c = ic CHR '']'' then (tok_end_array, l)
         else if c = ic CHR ''{'' then (tok_begin_object, l)
         else if c = ic CHR ''}'' then (tok_end_object, l)
         else if c = ic CHR '':'' then (tok_name_separator, l)
         else if c = ic CHR '','' then (tok_value_separator, l)
         else if c = ic CHR ''t'' then scan_literal ''true'' tok_literal_true l
         else if c = ic CHR ''f'' then scan_literal ''false'' tok_literal_false l
         else if c = ic CHR ''n'' then scan_literal ''null'' tok_literal_null l
         else if c = ic CHR 0x22 then scan_string l
         else if c = ic CHR ''-'' \<or> digit_0_9 c then scan_number l
         else if c = 0 \<or> c = eof then (tok_end_of_input, l)
         else (tok_parse_error, lex_error ''invalid literal'' l))"

definition scan :: "lexer \<Rightarrow> token_type \<times> lexer" where
  "scan l =
     (case (if chars_read_total (position l) = 0 then skip_bom l else (True, l)) of (bom_ok, l1) \<Rightarrow>
        if \<not> bom_ok
        then (tok_parse_error,
              lex_error ''invalid BOM; must be 0xEF 0xBB 0xBF if given'' l1)
        else (case scan_comments (skip_whitespace l1) of (ok, l2) \<Rightarrow>
                if \<not> ok then (tok_parse_error, l2) else scan_token l2))"

section \<open>Values and diagnostics\<close>

text \<open>\<^verbatim>\<open>get_number_integer\<close>, \<^verbatim>\<open>get_number_unsigned\<close>, \<^verbatim>\<open>get_number_float\<close>, \<^verbatim>\<open>get_string\<close>,
  \<^verbatim>\<open>get_position\<close> and \<^verbatim>\<open>get_error_message\<close> are the record's selectors.\<close>

definition get_token_string :: "lexer \<Rightarrow> string" where
  "get_token_string l =
     concat (map (\<lambda>c. if ic c \<le> 0x1F then ''<U+'' @ hex4_upper (nat (ic c)) @ ''>'' else [c])
               (token_string l))"

section \<open>Every token consumes input\<close>

lemma remaining_number_as_float: "number_as_float l = (t, l') \<Longrightarrow> remaining l' = remaining l"
  by (auto simp: number_as_float_def remaining_def json_assert_def split: prod.splits)

lemma remaining_scan_number_done:
  "scan_number_done nt (get l) = (t, l') \<Longrightarrow> remaining l' \<le> remaining l"
  using remaining_unget_get [of l]
  by (auto simp: scan_number_done_def Let_def split: prod.splits if_splits dest!: remaining_number_as_float)
     (simp_all add: remaining_def json_assert_def)

lemma remaining_scan_number_any2:
  "scan_number_any2 nt l = (t, l') \<Longrightarrow> remaining l' \<le> remaining l"
proof (induction nt l arbitrary: t l' rule: scan_number_any2.induct)
  case (1 nt l0)
  then show ?case
    by (auto simp: scan_number_any2.simps [of nt l0] Let_def split: if_splits
        dest!: remaining_scan_number_done intro: order_trans [OF _ remaining_get_le])
qed

lemma remaining_scan_number_sign:
  "scan_number_sign nt l = (t, l') \<Longrightarrow> remaining l' \<le> remaining l"
  by (auto simp: scan_number_sign_def Let_def remaining_get_le split: if_splits
      dest!: remaining_scan_number_any2 intro: order_trans [OF _ remaining_get_le])

lemma remaining_scan_number_exponent:
  "scan_number_exponent l = (t, l') \<Longrightarrow> remaining l' \<le> remaining l"
  by (auto simp: scan_number_exponent_def Let_def remaining_get_le split: if_splits
      dest!: remaining_scan_number_any2 remaining_scan_number_sign
      intro: order_trans [OF _ remaining_get_le])

lemma remaining_scan_number_decimal2:
  "scan_number_decimal2 nt l = (t, l') \<Longrightarrow> remaining l' \<le> remaining l"
proof (induction nt l arbitrary: t l' rule: scan_number_decimal2.induct)
  case (1 nt l0)
  then show ?case
    by (auto simp: scan_number_decimal2.simps [of nt l0] Let_def split: if_splits
        dest!: remaining_scan_number_done remaining_scan_number_exponent
        intro: order_trans [OF _ remaining_get_le])
qed

lemma remaining_scan_number_decimal1:
  "scan_number_decimal1 l = (t, l') \<Longrightarrow> remaining l' \<le> remaining l"
  by (auto simp: scan_number_decimal1_def Let_def remaining_get_le split: if_splits
      dest!: remaining_scan_number_decimal2 intro: order_trans [OF _ remaining_get_le])

lemma remaining_scan_number_any1:
  "scan_number_any1 nt l = (t, l') \<Longrightarrow> remaining l' \<le> remaining l"
proof (induction nt l arbitrary: t l' rule: scan_number_any1.induct)
  case (1 nt l0)
  then show ?case
    by (auto simp: scan_number_any1.simps [of nt l0] Let_def split: if_splits
        dest!: remaining_scan_number_done remaining_scan_number_exponent
          remaining_scan_number_decimal1
        intro: order_trans [OF _ remaining_get_le])
qed

lemma remaining_scan_number_zero:
  "scan_number_zero nt l = (t, l') \<Longrightarrow> remaining l' \<le> remaining l"
  by (auto simp: scan_number_zero_def Let_def split: if_splits
      dest!: remaining_scan_number_done remaining_scan_number_exponent
        remaining_scan_number_decimal1
      intro: order_trans [OF _ remaining_get_le])

lemma remaining_scan_number_minus:
  "scan_number_minus l = (t, l') \<Longrightarrow> remaining l' \<le> remaining l"
  by (auto simp: scan_number_minus_def Let_def remaining_get_le split: if_splits
      dest!: remaining_scan_number_zero remaining_scan_number_any1
      intro: order_trans [OF _ remaining_get_le])

lemma remaining_scan_number: "scan_number l = (t, l') \<Longrightarrow> remaining l' \<le> remaining l"
  by (auto simp: scan_number_def Let_def split: if_splits
      dest!: remaining_scan_number_zero remaining_scan_number_any1 remaining_scan_number_minus)

lemma scan_string_loop_iter:
  assumes "scan_string_loop l = (t, l')"
  obtains (stop) "remaining l' \<le> remaining (get l)"
    | (iter) l1 where "scan_string_loop l1 = (t, l')" "remaining l1 \<le> remaining (get l)"
        "current (get l) \<noteq> eof"
  using assms
  by (auto simp: scan_string_loop.simps [of l] Let_def split: if_splits prod.splits option.splits
      dest: remaining_scan_escape remaining_next_byte_in_range)

lemma remaining_scan_string_loop:
  "scan_string_loop l = (t, l') \<Longrightarrow> remaining l' \<le> remaining l"
proof (induction "remaining l" arbitrary: l rule: less_induct)
  case less
  from less.prems show ?case
  proof (cases rule: scan_string_loop_iter)
    case stop
    then show ?thesis using remaining_get_le [of l] by simp
  next
    case (iter l1)
    then show ?thesis using less.hyps [of l1] remaining_get_less [of l] by simp
  qed
qed

lemma remaining_scan_literal: "scan_literal s r l = (t, l') \<Longrightarrow> remaining l' \<le> remaining l"
proof -
  have "scan_literal_loop xs l = (ok, l') \<Longrightarrow> remaining l' \<le> remaining l" for xs ok l
    by (induction xs arbitrary: l)
       (auto simp: Let_def remaining_get_le split: if_splits intro: order_trans [OF _ remaining_get_le])
  then show "scan_literal s r l = (t, l') \<Longrightarrow> remaining l' \<le> remaining l"
    by (fastforce simp: scan_literal_def split: prod.splits if_splits)
qed

lemma remaining_scan_token: "scan_token l = (t, l') \<Longrightarrow> remaining l' \<le> remaining l"
  by (auto simp: scan_token_def Let_def scan_string_def split: if_splits
      dest!: remaining_scan_literal remaining_scan_number remaining_scan_string_loop)

lemma remaining_scan_comments:
  "scan_comments l = (r, l') \<Longrightarrow> l' = l \<or> remaining l' < remaining l \<or> \<not> r"
  "scan_comments l = (r, l') \<Longrightarrow> remaining l' \<le> remaining l"
proof (induction "remaining l" arbitrary: l rule: less_induct)
  case less
  obtain ok l1 where sc: "scan_comment l = (ok, l1)" by (cases "scan_comment l")
  have step: "remaining (skip_whitespace l1) < remaining l" if ok
    using remaining_scan_comment_less [of l l1] remaining_skip_whitespace [of l1] that sc by simp
  { case 1
    then show ?case
      using less(1) [of "skip_whitespace l1"] step sc
      by (auto simp: scan_comments.simps [of l] split: if_splits)
  next
    case 2
    then show ?case
      using less(2) [of "skip_whitespace l1"] step sc remaining_scan_comment [of l ok l1]
      by (auto simp: scan_comments.simps [of l] split: if_splits) }
qed

text \<open>A token that is neither an error nor the end of the input starts with a character read.\<close>

definition stopping :: "token_type \<Rightarrow> bool" where
  "stopping t \<longleftrightarrow> t = tok_parse_error \<or> t = tok_end_of_input"

lemma remaining_skip_bom: "skip_bom l = (r, l') \<Longrightarrow> remaining l' \<le> remaining l"
  using remaining_unget_get [of l]
  by (auto simp: skip_bom_def Let_def split: if_splits
      intro: remaining_get_leI order_refl)

lemma scan_remaining_le: "scan l = (t, l') \<Longrightarrow> remaining l' \<le> remaining l"
proof -
  assume scan: "scan l = (t, l')"
  obtain ok l1 where l1: "(if chars_read_total (position l) = 0 then skip_bom l else (True, l)) = (ok, l1)"
    by (cases "if chars_read_total (position l) = 0 then skip_bom l else (True, l)")
  obtain ok' l2 where l2: "scan_comments (skip_whitespace l1) = (ok', l2)"
    by (cases "scan_comments (skip_whitespace l1)")
  have "remaining l1 \<le> remaining l"
    using l1 remaining_skip_bom [of l ok l1] by (auto split: if_splits)
  moreover have "remaining l2 \<le> remaining l1"
    using remaining_scan_comments(2) [OF l2] remaining_skip_whitespace [of l1] by simp
  ultimately show ?thesis
    using scan l1 l2 remaining_scan_token [of l2 t l'] by (auto simp: scan_def split: if_splits)
qed

lemma scan_remaining_less:
  assumes scan: "scan l = (t, l')" and t: "\<not> stopping t"
  shows "remaining l' < remaining l"
proof -
  obtain ok l1 where l1: "(if chars_read_total (position l) = 0 then skip_bom l else (True, l)) = (ok, l1)"
    by (cases "if chars_read_total (position l) = 0 then skip_bom l else (True, l)")
  obtain ok' l2 where l2: "scan_comments (skip_whitespace l1) = (ok', l2)"
    by (cases "scan_comments (skip_whitespace l1)")
  from scan l1 l2 t have tok: "scan_token l2 = (t, l')" and ok'
    by (auto simp: scan_def stopping_def split: if_splits)
  have "current l2 \<noteq> eof"
    using tok t by (auto simp: scan_token_def stopping_def digit_0_9_def Let_def)
  with remaining_scan_comments(1) [OF l2] \<open>ok'\<close>
  have "remaining l2 < remaining l1"
    using remaining_skip_whitespace_less [of l1] remaining_skip_whitespace [of l1] by auto
  moreover have "remaining l1 \<le> remaining l"
    using l1 remaining_skip_bom [of l ok l1] by (auto split: if_splits)
  ultimately show ?thesis using remaining_scan_token [OF tok] by simp
qed

end
