(* ===== verification/Json_Lexer_View.thy ===== *)
theory Json_Lexer_View
  imports Json_Lexer
begin

text \<open>
  The lexer seen from its input: \<open>lexer_at cfg l s\<close> says that \<open>s\<close> is what the lexer still has to
  read (a character put back by \<open>unget\<close> included), with the configuration \<open>cfg\<close> (whether comments
  are skipped, and the decimal point). On top of it, what each scanning function does on a text
  of the JSON grammar: the token, the decoded buffer and the text that is left.
\<close>

section \<open>Reading\<close>

type_synonym lexer_config = "bool \<times> char"

definition lexer_at :: "lexer_config \<Rightarrow> lexer \<Rightarrow> string \<Rightarrow> bool" where
  "lexer_at cfg l s \<longleftrightarrow>
     (if next_unget l
      then (case s of [] \<Rightarrow> current l = eof \<and> ia l = [] | c # cs \<Rightarrow> current l = ic c \<and> ia l = cs)
      else ia l = s) \<and>
     ignore_comments l = fst cfg \<and> decimal_point_char l = ic (snd cfg)"

lemma lexer_fields [simp]:
  "token_buffer (get l) = token_buffer l" "token_buffer (unget l) = token_buffer l"
  "token_buffer (add c l) = token_buffer l @ [to_char_type c]" "token_buffer (reset l) = []"
  "current (add c l) = current l" "current (reset l) = current l" "current (unget l) = current l"
  "token_buffer (json_assert b l) = token_buffer l"
  by (auto simp: get_def unget_def add_def reset_def get_character_def json_assert_def Let_def split: list.splits)

lemma json_assert_fields [simp]:
  "value_unsigned (json_assert b l) = value_unsigned l" "value_integer (json_assert b l) = value_integer l"
  "value_float (json_assert b l) = value_float l" "decimal_point_char (json_assert b l) = decimal_point_char l"
  by (simp_all add: json_assert_def)

lemma lexer_at_assert [simp]: "lexer_at cfg (json_assert b l) s \<longleftrightarrow> lexer_at cfg l s"
  by (simp add: lexer_at_def json_assert_def split: list.splits)

lemma lexer_at_add [simp]: "lexer_at cfg (add c l) s \<longleftrightarrow> lexer_at cfg l s"
  by (simp add: lexer_at_def add_def split: list.splits)

lemma lexer_at_reset [simp]: "lexer_at cfg (reset l) s \<longleftrightarrow> lexer_at cfg l s"
  by (simp add: lexer_at_def reset_def split: list.splits)

lemma get_Cons:
  assumes "lexer_at cfg l (c # s)"
  shows "current (get l) = ic c" and "lexer_at cfg (get l) s"
  using assms
  by (auto simp: lexer_at_def get_def get_character_def Let_def split: if_splits)

lemma get_Nil:
  assumes "lexer_at cfg l []"
  shows "current (get l) = eof" and "lexer_at cfg (get l) []"
  using assms
  by (auto simp: lexer_at_def get_def get_character_def Let_def split: if_splits)

lemma unget_frame:
  "ia (unget l) = ia l" "next_unget (unget l)" "ignore_comments (unget l) = ignore_comments l"
  "decimal_point_char (unget l) = decimal_point_char l"
  by (simp_all add: unget_def json_assert_def Let_def)

lemma unget_get:
  assumes "lexer_at cfg l s"
  shows "lexer_at cfg (unget (get l)) s"
proof (cases s)
  case Nil
  with assms get_Nil [of cfg l] have "current (get l) = eof" "lexer_at cfg (get l) []" by simp_all
  with assms show ?thesis by (simp add: Nil lexer_at_def unget_frame)
next
  case (Cons c cs)
  with assms get_Cons [of cfg l c cs] have "current (get l) = ic c" "lexer_at cfg (get l) cs" by simp_all
  with assms show ?thesis by (simp add: Cons lexer_at_def unget_frame)
qed

lemma current_get: "lexer_at cfg l s \<Longrightarrow> current (get l) = (case s of [] \<Rightarrow> eof | c # _ \<Rightarrow> ic c)"
  by (cases s) (simp_all add: get_Cons get_Nil)

lemma get_tl: "lexer_at cfg l s \<Longrightarrow> lexer_at cfg (get l) (tl s)"
  by (cases s) (simp_all add: get_Cons get_Nil)

lemma char_eq_ic: "c = d \<longleftrightarrow> ic c = ic d"
  by (simp add: ic_inject)

section \<open>White space\<close>

definition is_ws :: "char \<Rightarrow> bool" where
  "is_ws c \<longleftrightarrow> c = CHR '' '' \<or> c = CHR 0x09 \<or> c = CHR 0x0A \<or> c = CHR 0x0D"

lemma ic_is_ws:
  "is_ws c \<longleftrightarrow> ic c = ic CHR '' '' \<or> ic c = 9 \<or> ic c = 10 \<or> ic c = 13"
  by (simp add: is_ws_def char_eq_ic)

lemma skip_whitespace_ws:
  assumes "lexer_at cfg l (w @ c # s)" "list_all is_ws w" "\<not> is_ws c"
  shows "current (skip_whitespace l) = ic c \<and> lexer_at cfg (skip_whitespace l) s"
  using assms
proof (induction w arbitrary: l)
  case Nil
  then show ?case
    using get_Cons [of cfg l c s] by (subst (1 2) skip_whitespace.simps) (simp add: Let_def ic_is_ws)
next
  case (Cons d w)
  then have "lexer_at cfg (get l) (w @ c # s)" "current (get l) = ic d"
    using get_Cons [of cfg l d "w @ c # s"] by simp_all
  with Cons show ?case
    by (subst (1 2) skip_whitespace.simps) (auto simp: Let_def ic_is_ws)
qed

lemma skip_whitespace_end:
  assumes "lexer_at cfg l w" "list_all is_ws w"
  shows "current (skip_whitespace l) = eof \<and> lexer_at cfg (skip_whitespace l) []"
  using assms
proof (induction w arbitrary: l)
  case Nil
  then show ?case
    using get_Nil [of cfg l] by (subst (1 2) skip_whitespace.simps) (simp add: Let_def)
next
  case (Cons d w)
  then have "lexer_at cfg (get l) w" "current (get l) = ic d"
    using get_Cons [of cfg l d w] by simp_all
  with Cons show ?case
    by (subst (1 2) skip_whitespace.simps) (auto simp: Let_def ic_is_ws)
qed

text \<open>Scanning a token starts at its first character, behind white space. The check for a byte order
  mark at the very beginning reads one character and puts it back.\<close>

lemma skip_bom_none:
  assumes "lexer_at cfg l s" "s = [] \<or> hd s \<noteq> CHR 0xEF"
  shows "\<exists>l'. skip_bom l = (True, l') \<and> lexer_at cfg l' s"
  using assms unget_get [OF assms(1)] current_get [OF assms(1)]
  by (cases s) (auto simp: skip_bom_def Let_def char_eq_ic)

lemma hd_ws: "list_all is_ws w \<Longrightarrow> c \<noteq> CHR 0xEF \<Longrightarrow> hd (w @ c # s) \<noteq> CHR 0xEF"
  by (cases w) (auto simp: is_ws_def)

lemma scan_start:
  assumes "lexer_at cfg l s" "s = [] \<or> hd s \<noteq> CHR 0xEF"
  shows "\<exists>l'. lexer_at cfg l' s \<and>
    scan l = (case scan_comments (skip_whitespace l') of (ok, l2) \<Rightarrow>
                if \<not> ok then (tok_parse_error, l2) else scan_token l2)"
  using skip_bom_none [OF assms] assms(1) by (auto simp: scan_def)

lemma scan_at:
  assumes at: "lexer_at cfg l (w @ c # s)" and w: "list_all is_ws w"
    and c: "\<not> is_ws c" "c \<noteq> CHR ''/''" "c \<noteq> CHR 0xEF"
  shows "\<exists>l'. scan l = scan_token l' \<and> current l' = ic c \<and> lexer_at cfg l' s"
proof -
  obtain l1 where l1: "lexer_at cfg l1 (w @ c # s)"
    "scan l = (case scan_comments (skip_whitespace l1) of (ok, l2) \<Rightarrow>
                if \<not> ok then (tok_parse_error, l2) else scan_token l2)"
    using scan_start [OF at] hd_ws [OF w c(3)] by blast
  have "scan_comments (skip_whitespace l1) = (True, skip_whitespace l1)"
    using skip_whitespace_ws [OF l1(1) w c(1)] c(2)
    by (subst scan_comments.simps) (simp add: char_eq_ic)
  with l1(2) show ?thesis using skip_whitespace_ws [OF l1(1) w c(1)] by auto
qed

lemma scan_at_end:
  assumes at: "lexer_at cfg l w" and w: "list_all is_ws w"
  shows "fst (scan l) = tok_end_of_input"
proof -
  have "w = [] \<or> hd w \<noteq> CHR 0xEF" using w by (cases w) (auto simp: is_ws_def)
  from scan_start [OF at this] obtain l1 where l1: "lexer_at cfg l1 w"
    "scan l = (case scan_comments (skip_whitespace l1) of (ok, l2) \<Rightarrow>
                if \<not> ok then (tok_parse_error, l2) else scan_token l2)" by blast
  have "scan_comments (skip_whitespace l1) = (True, skip_whitespace l1)"
    using skip_whitespace_end [OF l1(1) w] by (subst scan_comments.simps) simp
  with l1(2) skip_whitespace_end [OF l1(1) w] show ?thesis
    by (simp add: scan_token_def digit_0_9_def Let_def)
qed

lemma lexer_at_init: "lexer_at (ig, dp) (lexer_init s ig dp) s"
  by (simp add: lexer_at_def lexer_init_def)

text \<open>A byte order mark is skipped.\<close>

lemma scan_bom:
  assumes "lexer_at cfg l (CHR 0xEF # CHR 0xBB # CHR 0xBF # s)" "chars_read_total (position l) = 0"
  shows "\<exists>l'. lexer_at cfg l' s \<and>
    scan l = (case scan_comments (skip_whitespace l') of (ok, l2) \<Rightarrow>
                if \<not> ok then (tok_parse_error, l2) else scan_token l2)"
proof -
  note g1 = get_Cons [OF assms(1)] note g2 = get_Cons [OF g1(2)] note g3 = get_Cons [OF g2(2)]
  have "skip_bom l = (True, get (get (get l)))"
    using g1 g2 g3 by (simp add: skip_bom_def Let_def)
  with assms(2) g3(2) show ?thesis by (auto simp: scan_def)
qed

end
