(* ===== verification/Json_Utf8.thy ===== *)
theory Json_Utf8
  imports Prelude
begin

text \<open>
  The UTF-8 decoder of the serializer of \<^verbatim>\<open>src/libwebrtc/json.hpp\<close> (function \<^verbatim>\<open>decode\<close>, the
  table-driven automaton of B. Hoehrmann), and what it accepts: exactly the well-formed byte
  sequences of Table 3-7 of the Unicode standard, with the code point they encode.
  Bytes, states and code points are natural numbers; the code point register has 32 bits.
\<close>

section \<open>The automaton\<close>

definition UTF8_ACCEPT :: nat where "UTF8_ACCEPT = 0"
definition UTF8_REJECT :: nat where "UTF8_REJECT = 1"

definition utf8d :: "nat list" where
  "utf8d =
     [0, 0, 0, 0, 0, 0, 0, 0, 0, 0, 0, 0, 0, 0, 0, 0, 0, 0, 0, 0, 0, 0, 0, 0, 0, 0, 0, 0, 0, 0, 0, 0,
      0, 0, 0, 0, 0, 0, 0, 0, 0, 0, 0, 0, 0, 0, 0, 0, 0, 0, 0, 0, 0, 0, 0, 0, 0, 0, 0, 0, 0, 0, 0, 0,
      0, 0, 0, 0, 0, 0, 0, 0, 0, 0, 0, 0, 0, 0, 0, 0, 0, 0, 0, 0, 0, 0, 0, 0, 0, 0, 0, 0, 0, 0, 0, 0,
      0, 0, 0, 0, 0, 0, 0, 0, 0, 0, 0, 0, 0, 0, 0, 0, 0, 0, 0, 0, 0, 0, 0, 0, 0, 0, 0, 0, 0, 0, 0, 0,
      1, 1, 1, 1, 1, 1, 1, 1, 1, 1, 1, 1, 1, 1, 1, 1, 9, 9, 9, 9, 9, 9, 9, 9, 9, 9, 9, 9, 9, 9, 9, 9,
      7, 7, 7, 7, 7, 7, 7, 7, 7, 7, 7, 7, 7, 7, 7, 7, 7, 7, 7, 7, 7, 7, 7, 7, 7, 7, 7, 7, 7, 7, 7, 7,
      8, 8, 2, 2, 2, 2, 2, 2, 2, 2, 2, 2, 2, 2, 2, 2, 2, 2, 2, 2, 2, 2, 2, 2, 2, 2, 2, 2, 2, 2, 2, 2,
      10, 3, 3, 3, 3, 3, 3, 3, 3, 3, 3, 3, 3, 4, 3, 3,
      11, 6, 6, 6, 5, 8, 8, 8, 8, 8, 8, 8, 8, 8, 8, 8,
      0, 1, 2, 3, 5, 8, 7, 1, 1, 1, 4, 6, 1, 1, 1, 1,
      1, 1, 1, 1, 1, 1, 1, 1, 1, 1, 1, 1, 1, 1, 1, 1, 1, 0, 1, 1, 1, 1, 1, 0, 1, 0, 1, 1, 1, 1, 1, 1,
      1, 2, 1, 1, 1, 1, 1, 2, 1, 2, 1, 1, 1, 1, 1, 1, 1, 1, 1, 1, 1, 1, 1, 2, 1, 1, 1, 1, 1, 1, 1, 1,
      1, 2, 1, 1, 1, 1, 1, 1, 1, 2, 1, 1, 1, 1, 1, 1, 1, 1, 1, 1, 1, 1, 1, 3, 1, 3, 1, 1, 1, 1, 1, 1,
      1, 3, 1, 1, 1, 1, 1, 3, 1, 3, 1, 1, 1, 1, 1, 1, 1, 3, 1, 1, 1, 1, 1, 1, 1, 1, 1, 1, 1, 1, 1, 1]"

definition decode :: "nat \<Rightarrow> nat \<Rightarrow> nat \<Rightarrow> nat \<times> nat" where
  "decode state codep byte =
     (let type = utf8d ! byte;
          codep' = (if state \<noteq> UTF8_ACCEPT then (byte AND 0x3F) OR (push_bit 6 codep mod 2 ^ 32)
                    else drop_bit type 0xFF AND byte);
          index = 256 + state * 16 + type
      in (utf8d ! index, codep'))"

section \<open>Well-formed UTF-8\<close>

text \<open>A Unicode scalar value and its UTF-8 encoding (Unicode standard, tables 3-6 and 3-7).\<close>

definition scalar_value :: "nat \<Rightarrow> bool" where
  "scalar_value cp \<longleftrightarrow> cp < 0xD800 \<or> (0xE000 \<le> cp \<and> cp < 0x110000)"

definition byte :: "nat \<Rightarrow> char" where
  "byte n = to_char_type (int n)"

definition utf8 :: "nat \<Rightarrow> string" where
  "utf8 cp =
     (if cp < 0x80 then [byte cp]
      else if cp < 0x800 then [byte (0xC0 + cp div 64), byte (0x80 + cp mod 64)]
      else if cp < 0x10000 then
        [byte (0xE0 + cp div 4096), byte (0x80 + cp div 64 mod 64), byte (0x80 + cp mod 64)]
      else
        [byte (0xF0 + cp div 262144), byte (0x80 + cp div 4096 mod 64),
         byte (0x80 + cp div 64 mod 64), byte (0x80 + cp mod 64)])"

definition utf8_text :: "nat list \<Rightarrow> string" where
  "utf8_text cps = concat (map utf8 cps)"

lemma ic_byte: "n < 256 \<Longrightarrow> ic (byte n) = int n"
  by (simp add: byte_def ic_to_char_type)

lemma byte_of_char [simp]: "byte (of_char c) = c"
  unfolding byte_def by (metis of_nat_of_char to_char_type_ic)

lemma utf8_nonempty [simp]: "utf8 cp \<noteq> []"
  by (simp add: utf8_def)

section \<open>The automaton reads UTF-8\<close>

text \<open>The classes of bytes and the transitions between states that the table encodes.\<close>

definition byte_class :: "nat \<Rightarrow> nat" where
  "byte_class b =
     (if b < 0x80 then 0 else if b < 0x90 then 1 else if b < 0xA0 then 9 else if b < 0xC0 then 7
      else if b < 0xC2 then 8 else if b < 0xE0 then 2 else if b = 0xE0 then 10
      else if b = 0xED then 4 else if b < 0xF0 then 3 else if b = 0xF0 then 11
      else if b < 0xF4 then 6 else if b = 0xF4 then 5 else 8)"

definition class_state :: "nat \<Rightarrow> nat \<Rightarrow> nat" where
  "class_state s c =
     (if s = 0 then
        (if c = 0 then 0 else if c = 2 then 2 else if c = 3 then 3 else if c = 4 then 5
         else if c = 5 then 8 else if c = 6 then 7 else if c = 10 then 4 else if c = 11 then 6 else 1)
      else if s = 2 \<and> c \<in> {1, 7, 9} then 0
      else if s = 3 \<and> c \<in> {1, 7, 9} \<or> s = 4 \<and> c = 7 \<or> s = 5 \<and> c \<in> {1, 9} then 2
      else if s = 6 \<and> c \<in> {7, 9} \<or> s = 7 \<and> c \<in> {1, 7, 9} \<or> s = 8 \<and> c = 1 then 3 else 1)"

lemma utf8d_table:
  "utf8d = map byte_class [0..<256] @ map (\<lambda>i. class_state (i div 16) (i mod 16)) [0..<144]"
  by code_simp

lemma utf8d_class: "b < 256 \<Longrightarrow> utf8d ! b = byte_class b"
  by (simp add: utf8d_table nth_append)

lemma utf8d_state: "s < 9 \<Longrightarrow> c < 16 \<Longrightarrow> utf8d ! (256 + s * 16 + c) = class_state s c"
  by (simp add: utf8d_table nth_append)

lemma byte_class_less: "byte_class b < 12"
  by (simp add: byte_class_def)

definition lead_bits :: "nat \<Rightarrow> nat" where
  "lead_bits b = (if b < 0x80 then b else if b < 0xE0 then b - 0xC0 else if b < 0xF0 then b - 0xE0
                  else b - 0xF0)"

lemma mod_in_block:
  fixes k d b :: nat
  assumes "k * d \<le> b" "b < k * d + d"
  shows "b mod d = b - k * d"
  using assms by (intro mod_nat_eqI) auto

lemma and_masks:
  "255 AND b = b mod 256" "63 AND b = b mod 64" "31 AND b = b mod 32" "15 AND b = b mod 16"
  "7 AND b = b mod 8" "3 AND b = b mod 4" for b :: nat
  using and_mask_nat [of b 8] and_mask_nat [of b 6] and_mask_nat [of b 5] and_mask_nat [of b 4]
    and_mask_nat [of b 3] and_mask_nat [of b 2] by (simp_all add: and.commute)

lemma lead_bits_mask:
  "b < 0x80 \<Longrightarrow> drop_bit (byte_class b) 0xFF AND b = lead_bits b"
  "0xC2 \<le> b \<Longrightarrow> b < 0xE0 \<Longrightarrow> drop_bit (byte_class b) 0xFF AND b = lead_bits b"
  "0xE0 \<le> b \<Longrightarrow> b < 0xF0 \<Longrightarrow> drop_bit (byte_class b) 0xFF AND b = lead_bits b"
  "0xF0 \<le> b \<Longrightarrow> b < 0xF5 \<Longrightarrow> drop_bit (byte_class b) 0xFF AND b = lead_bits b"
proof -
  show "drop_bit (byte_class b) 0xFF AND b = lead_bits b" if "b < 0x80"
    using that by (simp add: byte_class_def lead_bits_def and_masks)
  show "drop_bit (byte_class b) 0xFF AND b = lead_bits b" if "0xC2 \<le> b" "b < 0xE0"
    using that mod_in_block [of 3 64 b]
    by (simp add: byte_class_def lead_bits_def and_masks drop_bit_eq_div)
  show "drop_bit (byte_class b) 0xFF AND b = lead_bits b" if "0xE0 \<le> b" "b < 0xF0"
    using that mod_in_block [of 7 32 b]
    by (cases "b = 0xE0"; cases "b = 0xED"; simp add: byte_class_def lead_bits_def and_masks drop_bit_eq_div)
  show "drop_bit (byte_class b) 0xFF AND b = lead_bits b" if "0xF0 \<le> b" "b < 0xF5"
    using that mod_in_block [of 60 4 b]
    by (cases "b = 0xF0"; cases "b = 0xF4"; simp add: byte_class_def lead_bits_def and_masks drop_bit_eq_div)
qed

text \<open>The first byte of a sequence, and the bytes that continue one.\<close>

lemma decode_lead:
  assumes "b < 256"
  shows "fst (decode 0 cp b) =
      (if b < 0x80 then 0 else if 0xC2 \<le> b \<and> b < 0xE0 then 2 else if b = 0xE0 then 4
       else if b = 0xED then 5 else if 0xE0 \<le> b \<and> b < 0xF0 then 3 else if b = 0xF0 then 6
       else if 0xF0 \<le> b \<and> b < 0xF4 then 7 else if b = 0xF4 then 8 else 1)"
    and "b < 0x80 \<or> 0xC2 \<le> b \<and> b < 0xF5 \<Longrightarrow> snd (decode 0 cp b) = lead_bits b"
proof -
  show "fst (decode 0 cp b) =
      (if b < 0x80 then 0 else if 0xC2 \<le> b \<and> b < 0xE0 then 2 else if b = 0xE0 then 4
       else if b = 0xED then 5 else if 0xE0 \<le> b \<and> b < 0xF0 then 3 else if b = 0xF0 then 6
       else if 0xF0 \<le> b \<and> b < 0xF4 then 7 else if b = 0xF4 then 8 else 1)"
    using assms utf8d_state [of 0 "byte_class b"] byte_class_less [of b]
    by (simp add: decode_def UTF8_ACCEPT_def Let_def utf8d_class class_state_def byte_class_def)
  have "snd (decode 0 cp b) = drop_bit (byte_class b) 0xFF AND b"
    using assms by (simp add: decode_def UTF8_ACCEPT_def Let_def utf8d_class)
  then show "b < 0x80 \<or> 0xC2 \<le> b \<and> b < 0xF5 \<Longrightarrow> snd (decode 0 cp b) = lead_bits b"
    using lead_bits_mask [of b] by linarith
qed

lemma byte_class_ranges:
  "byte_class b \<in> {1, 7, 9} \<longleftrightarrow> 0x80 \<le> b \<and> b < 0xC0" "byte_class b = 7 \<longleftrightarrow> 0xA0 \<le> b \<and> b < 0xC0"
  "byte_class b \<in> {1, 9} \<longleftrightarrow> 0x80 \<le> b \<and> b < 0xA0" "byte_class b \<in> {7, 9} \<longleftrightarrow> 0x90 \<le> b \<and> b < 0xC0"
  "byte_class b = 1 \<longleftrightarrow> 0x80 \<le> b \<and> b < 0x90"
  by (auto simp: byte_class_def)

lemma decode_continuation:
  assumes "b < 256" "s < 9" "s \<noteq> 0" "cp < 2 ^ 26"
  shows "decode s cp b =
      (if s = 2 \<and> 0x80 \<le> b \<and> b < 0xC0 then 0
       else if s = 3 \<and> 0x80 \<le> b \<and> b < 0xC0 \<or> s = 4 \<and> 0xA0 \<le> b \<and> b < 0xC0 \<or>
               s = 5 \<and> 0x80 \<le> b \<and> b < 0xA0 then 2
       else if s = 6 \<and> 0x90 \<le> b \<and> b < 0xC0 \<or> s = 7 \<and> 0x80 \<le> b \<and> b < 0xC0 \<or>
               s = 8 \<and> 0x80 \<le> b \<and> b < 0x90 then 3 else 1, cp * 64 + b mod 64)"
proof -
  have "cp * 64 mod 2 ^ 32 = cp * 64" using assms(4) by simp
  moreover have "b AND 0x3F = b mod 64" using and_mask_nat [of b 6] by simp
  moreover have "b mod 64 OR cp * 64 = b mod 64 + cp * 64" using or_low_high_nat [of "b mod 64" 6 cp] by simp
  ultimately show ?thesis
    using assms utf8d_state [of s "byte_class b"] byte_class_less [of b]
    by (simp only: decode_def UTF8_ACCEPT_def Let_def utf8d_class push_bit_eq_mult class_state_def
        byte_class_ranges if_False if_True simp_thms add.commute [of "cp * 64"] power_numeral) simp
qed

section \<open>Sequences of bytes\<close>

text \<open>The encodings with the code point written in base 64.\<close>

lemma utf8_two: "2 \<le> a \<Longrightarrow> a < 32 \<Longrightarrow> x < 64 \<Longrightarrow> utf8 (a * 64 + x) = [byte (0xC0 + a), byte (0x80 + x)]"
  by (simp add: utf8_def)

lemma div_base64: "x < 64 \<Longrightarrow> (a * 64 + x) div 64 = a" "x < 64 \<Longrightarrow> (a * 64 + x) mod 64 = x" for a x :: nat
  by simp_all

lemma utf8_three:
  assumes "a < 16" "x < 64" "y < 64" "a = 0 \<Longrightarrow> 32 \<le> x"
  shows "utf8 ((a * 64 + x) * 64 + y) = [byte (0xE0 + a), byte (0x80 + x), byte (0x80 + y)]"
proof -
  let ?cp = "(a * 64 + x) * 64 + y"
  have "?cp div 4096 = ?cp div 64 div 64" by (simp flip: div_mult2_eq)
  also have "\<dots> = a" using assms by (simp add: div_base64)
  finally have "?cp div 4096 = a" .
  moreover have "0x800 \<le> ?cp" "?cp < 0x10000" using assms by (cases "a = 0"; simp)+
  ultimately show ?thesis using assms by (simp add: utf8_def div_base64 del: distrib_right_numeral)
qed

lemma utf8_four:
  assumes "a < 5" "x < 64" "y < 64" "z < 64" "a = 0 \<Longrightarrow> 16 \<le> x"
  shows "utf8 (((a * 64 + x) * 64 + y) * 64 + z) =
    [byte (0xF0 + a), byte (0x80 + x), byte (0x80 + y), byte (0x80 + z)]"
proof -
  let ?cp = "((a * 64 + x) * 64 + y) * 64 + z"
  have "?cp div 262144 = ?cp div 64 div 64 div 64" "?cp div 4096 = ?cp div 64 div 64"
    by (simp_all flip: div_mult2_eq)
  moreover have "?cp div 64 div 64 div 64 = a" "?cp div 64 div 64 = a * 64 + x" "?cp div 64 = (a * 64 + x) * 64 + y"
    using assms by (simp_all add: div_base64)
  moreover have "0x10000 \<le> ?cp" using assms by (cases "a = 0"; simp)
  ultimately show ?thesis using assms by (simp add: utf8_def div_base64 del: distrib_right_numeral)
qed

lemma utf8_cases [case_names one two three four]:
  assumes "scalar_value cp"
  obtains "cp < 0x80" "utf8 cp = [byte cp]"
    | a x where "cp = a * 64 + x" "2 \<le> a" "a < 32" "x < 64"
    | a x y where "cp = (a * 64 + x) * 64 + y" "a < 16" "x < 64" "y < 64" "a = 0 \<Longrightarrow> 32 \<le> x"
        "a = 13 \<Longrightarrow> x < 32"
    | a x y z where "cp = ((a * 64 + x) * 64 + y) * 64 + z" "a < 5" "x < 64" "y < 64" "z < 64"
        "a = 0 \<Longrightarrow> 16 \<le> x" "a = 4 \<Longrightarrow> x < 16"
proof -
  let ?a = "cp div 64" and ?b = "cp div 64 div 64" and ?c = "cp div 64 div 64 div 64"
  have eqs: "cp = ?a * 64 + cp mod 64" "?a = ?b * 64 + ?a mod 64" "?b = ?c * 64 + ?b mod 64" by simp_all
  consider "cp < 0x80" | "0x80 \<le> cp" "cp < 0x800" | "0x800 \<le> cp" "cp < 0x10000" | "0x10000 \<le> cp"
    by linarith
  then show thesis
  proof cases
    case 1
    then show ?thesis by (intro that(1)) (simp_all add: utf8_def)
  next
    case 2
    then show ?thesis by (intro that(2) [of ?a "cp mod 64"]) auto
  next
    case 3
    have "?b = 13 \<Longrightarrow> ?a mod 64 < 32"
      using eqs assms 3 unfolding scalar_value_def by linarith
    moreover have "?b = 0 \<Longrightarrow> 32 \<le> ?a mod 64"
      using eqs 3 by linarith
    ultimately show ?thesis using 3 by (intro that(3) [of ?b "?a mod 64" "cp mod 64"]) auto
  next
    case 4
    have "cp < 0x110000" using assms by (auto simp: scalar_value_def)
    then have "?c = 4 \<Longrightarrow> ?b mod 64 < 16" "?c < 5" using eqs by linarith+
    moreover have "?c = 0 \<Longrightarrow> 16 \<le> ?b mod 64" using eqs 4 by linarith
    ultimately show ?thesis
      by (intro that(4) [of ?c "?b mod 64" "?a mod 64" "cp mod 64"]) auto
  qed
qed

text \<open>\<open>reads s c bs cp\<close>: from state \<open>s\<close> with the bits \<open>c\<close> the automaton reads all of \<open>bs\<close>, and comes
  to the accepting state, with code point \<open>cp\<close>, at the last byte only.\<close>

fun reads :: "nat \<Rightarrow> nat \<Rightarrow> string \<Rightarrow> nat \<Rightarrow> bool" where
  "reads s c [] cp \<longleftrightarrow> False"
| "reads s c (b # bs) cp \<longleftrightarrow>
     (case decode s c (nat (ic b)) of (s', c') \<Rightarrow>
        if bs = [] then s' = 0 \<and> c' = cp else s' \<noteq> 0 \<and> s' \<noteq> 1 \<and> reads s' c' bs cp)"

lemma decode_lead_byte:
  "2 \<le> a \<Longrightarrow> a < 32 \<Longrightarrow> decode 0 c (0xC0 + a) = (2, a)"
  "a < 16 \<Longrightarrow> decode 0 c (0xE0 + a) = (if a = 0 then 4 else if a = 13 then 5 else 3, a)"
  "a < 5 \<Longrightarrow> decode 0 c (0xF0 + a) = (if a = 0 then 6 else if a = 4 then 8 else 7, a)"
  "a < 0x80 \<Longrightarrow> decode 0 c a = (0, a)"
  using decode_lead [of "0xC0 + a" c] decode_lead [of "0xE0 + a" c] decode_lead [of "0xF0 + a" c]
    decode_lead [of a c]
  by (simp_all add: prod_eq_iff lead_bits_def)

lemma decode_next_byte:
  assumes "x < 64" "c < 2 ^ 26"
  shows "decode 2 c (0x80 + x) = (0, c * 64 + x)"
    and "decode 3 c (0x80 + x) = (2, c * 64 + x)"
    and "32 \<le> x \<Longrightarrow> decode 4 c (0x80 + x) = (2, c * 64 + x)"
    and "x < 32 \<Longrightarrow> decode 5 c (0x80 + x) = (2, c * 64 + x)"
    and "16 \<le> x \<Longrightarrow> decode 6 c (0x80 + x) = (3, c * 64 + x)"
    and "decode 7 c (0x80 + x) = (3, c * 64 + x)"
    and "x < 16 \<Longrightarrow> decode 8 c (0x80 + x) = (3, c * 64 + x)"
  using assms mod_in_block [of 2 64 "0x80 + x"] by (simp_all add: decode_continuation)

lemma nat_ic_byte: "n < 256 \<Longrightarrow> nat (ic (byte n)) = n"
  by (simp add: ic_byte)

lemma reads_utf8:
  assumes "scalar_value cp"
  shows "reads 0 c (utf8 cp) cp"
  using assms
proof (cases rule: utf8_cases)
  case one
  then show ?thesis by (simp add: nat_ic_byte decode_lead_byte del: nat_of_char)
next
  case (two a x)
  then show ?thesis
    by (simp add: utf8_two nat_ic_byte decode_lead_byte decode_next_byte
        del: nat_of_char distrib_right_numeral)
next
  case (three a x y)
  then show ?thesis
    by (simp add: utf8_three nat_ic_byte decode_lead_byte decode_next_byte
        del: nat_of_char distrib_right_numeral)
next
  case (four a x y z)
  then have "(a * 64 + x) * 64 + y < 2 ^ 26" "(256 + x) * 64 + y < 2 ^ 26" by simp_all
  with four show ?thesis
    by (simp add: utf8_four nat_ic_byte decode_lead_byte decode_next_byte
        del: nat_of_char distrib_right_numeral)
qed

text \<open>Conversely, whatever the automaton has read without rejecting it is the beginning of an
  encoding: \<open>incomplete s c bs\<close> says so of the bytes \<open>bs\<close> read since the last complete code point.\<close>

definition one_to_come :: "nat \<Rightarrow> string \<Rightarrow> bool" where
  "one_to_come c bs \<longleftrightarrow>
     (\<forall>x < 64. scalar_value (c * 64 + x) \<and> utf8 (c * 64 + x) = bs @ [byte (0x80 + x)])"

definition two_to_come :: "nat \<Rightarrow> nat \<Rightarrow> nat \<Rightarrow> string \<Rightarrow> bool" where
  "two_to_come lo hi c bs \<longleftrightarrow> (\<forall>x. lo \<le> x \<and> x < hi \<longrightarrow> one_to_come (c * 64 + x) (bs @ [byte (0x80 + x)]))"

definition three_to_come :: "nat \<Rightarrow> nat \<Rightarrow> nat \<Rightarrow> string \<Rightarrow> bool" where
  "three_to_come lo hi c bs \<longleftrightarrow>
     (\<forall>x. lo \<le> x \<and> x < hi \<longrightarrow> two_to_come 0 64 (c * 64 + x) (bs @ [byte (0x80 + x)]))"

definition incomplete :: "nat \<Rightarrow> nat \<Rightarrow> string \<Rightarrow> bool" where
  "incomplete s c bs \<longleftrightarrow>
     (s = 2 \<and> c < 2 ^ 18 \<and> one_to_come c bs \<or>
      s = 3 \<and> c < 2 ^ 12 \<and> two_to_come 0 64 c bs \<or> s = 4 \<and> c < 2 ^ 12 \<and> two_to_come 32 64 c bs \<or>
      s = 5 \<and> c < 2 ^ 12 \<and> two_to_come 0 32 c bs \<or> s = 6 \<and> c < 2 ^ 6 \<and> three_to_come 16 64 c bs \<or>
      s = 7 \<and> c < 2 ^ 6 \<and> three_to_come 0 64 c bs \<or> s = 8 \<and> c < 2 ^ 6 \<and> three_to_come 0 16 c bs)"

lemmas to_come_defs = one_to_come_def two_to_come_def three_to_come_def

lemma scalar_base64:
  "a < 32 \<Longrightarrow> x < 64 \<Longrightarrow> scalar_value (a * 64 + x)"
  "a < 16 \<Longrightarrow> x < 64 \<Longrightarrow> y < 64 \<Longrightarrow> (a = 13 \<Longrightarrow> x < 32) \<Longrightarrow> scalar_value ((a * 64 + x) * 64 + y)"
  "a < 5 \<Longrightarrow> x < 64 \<Longrightarrow> y < 64 \<Longrightarrow> z < 64 \<Longrightarrow> (a = 0 \<Longrightarrow> 16 \<le> x) \<Longrightarrow> (a = 4 \<Longrightarrow> x < 16) \<Longrightarrow>
     scalar_value (((a * 64 + x) * 64 + y) * 64 + z)"
proof -
  show "scalar_value (a * 64 + x)" if "a < 32" "x < 64"
    using that by (simp add: scalar_value_def)
  show "scalar_value ((a * 64 + x) * 64 + y)" if "a < 16" "x < 64" "y < 64" "a = 13 \<Longrightarrow> x < 32"
    using that by (cases "a < 13"; cases "a = 13"; simp add: scalar_value_def)
  show "scalar_value (((a * 64 + x) * 64 + y) * 64 + z)"
    if "a < 5" "x < 64" "y < 64" "z < 64" "a = 0 \<Longrightarrow> 16 \<le> x" "a = 4 \<Longrightarrow> x < 16"
    using that by (cases "a = 0"; cases "a = 4"; simp add: scalar_value_def)
qed

lemma incomplete_lead:
  "2 \<le> a \<Longrightarrow> a < 32 \<Longrightarrow> incomplete 2 a [byte (0xC0 + a)]"
  "a < 16 \<Longrightarrow> incomplete (if a = 0 then 4 else if a = 13 then 5 else 3) a [byte (0xE0 + a)]"
  "a < 5 \<Longrightarrow> incomplete (if a = 0 then 6 else if a = 4 then 8 else 7) a [byte (0xF0 + a)]"
  by (auto simp: incomplete_def to_come_defs utf8_two utf8_three utf8_four scalar_base64
      scalar_base64(2,3) [of 0, unfolded mult_zero_left add_0]
      simp del: distrib_right_numeral)

lemma decode_0_step:
  assumes "b < 256" "decode 0 c b = (s', c')" "s' \<noteq> 1"
  shows "s' = 0 \<Longrightarrow> scalar_value c' \<and> utf8 c' = [byte b]"
    and "s' \<noteq> 0 \<Longrightarrow> incomplete s' c' [byte b]"
proof -
  consider (ascii) "b < 0x80" | (bad) "0x80 \<le> b" "b < 0xC2" | (two) a where "b = 0xC0 + a" "2 \<le> a" "a < 32"
    | (three) a where "b = 0xE0 + a" "a < 16" | (four) a where "b = 0xF0 + a" "a < 5" | (high) "0xF5 \<le> b"
  proof -
    have "b < 0x80 \<or> 0x80 \<le> b \<and> b < 0xC2 \<or> 0xC2 \<le> b \<and> b < 0xE0 \<or> 0xE0 \<le> b \<and> b < 0xF0 \<or>
        0xF0 \<le> b \<and> b < 0xF5 \<or> 0xF5 \<le> b" by linarith
    then show thesis
      using ascii bad high two [of "b - 0xC0"] three [of "b - 0xE0"] four [of "b - 0xF0"] by fastforce
  qed
  then have "(s' = 0 \<longrightarrow> scalar_value c' \<and> utf8 c' = [byte b]) \<and> (s' \<noteq> 0 \<longrightarrow> incomplete s' c' [byte b])"
  proof cases
    case ascii
    then show ?thesis using assms by (simp add: decode_lead_byte scalar_value_def utf8_def)
  next
    case bad
    then show ?thesis using assms decode_lead(1) [of b c] by simp
  next
    case (two a)
    then show ?thesis using assms incomplete_lead(1) [of a] by (simp add: decode_lead_byte)
  next
    case (three a)
    then show ?thesis using assms incomplete_lead(2) [of a] by (simp add: decode_lead_byte split: if_splits)
  next
    case (four a)
    then show ?thesis using assms incomplete_lead(3) [of a] by (simp add: decode_lead_byte split: if_splits)
  next
    case high
    then show ?thesis using assms decode_lead(1) [of b c] by simp
  qed
  then show "s' = 0 \<Longrightarrow> scalar_value c' \<and> utf8 c' = [byte b]"
    and "s' \<noteq> 0 \<Longrightarrow> incomplete s' c' [byte b]" by blast+
qed

lemma decode_incomplete_step:
  assumes inc: "incomplete s c bs" and dec: "decode s c b = (s', c')" and s': "s' \<noteq> 1" and b: "b < 256"
  shows "s' = 0 \<Longrightarrow> scalar_value c' \<and> utf8 c' = bs @ [byte b]"
    and "s' \<noteq> 0 \<Longrightarrow> incomplete s' c' (bs @ [byte b])"
proof -
  have "s < 9" "s \<noteq> 0" "c < 2 ^ 26" using inc by (auto simp: incomplete_def)
  note d = decode_continuation [OF b this]
  have "0x80 \<le> b \<and> b < 0xC0" using d dec s' by (auto split: if_splits)
  then obtain x where x: "b = 0x80 + x" "x < 64" using less_eqE [of "0x80" b] by auto
  then have "b mod 64 = x" using mod_in_block [of 2 64 b] by simp
  with d dec have c': "c' = c * 64 + x" by simp
  from d dec x inc s' show "s' = 0 \<Longrightarrow> scalar_value c' \<and> utf8 c' = bs @ [byte b]"
    by (auto simp: incomplete_def one_to_come_def c' split: if_splits)
  from d dec x inc s' show "s' \<noteq> 0 \<Longrightarrow> incomplete s' c' (bs @ [byte b])"
    by (auto simp: incomplete_def two_to_come_def three_to_come_def c' split: if_splits)
qed

end
