(* ===== verification/Json_Value.thy ===== *)
theory Json_Value
  imports Prelude
begin

text \<open>
  JSON values (\<^verbatim>\<open>basic_json\<close> with its default template arguments) and the exceptions of
  \<^verbatim>\<open>src/libwebrtc/json.hpp\<close>. An object is a \<^verbatim>\<open>std::map\<close>: an association list whose keys are
  strictly increasing in the order of \<^verbatim>\<open>std::less<std::string>\<close>, which compares bytes as unsigned
  characters (the lexicographic order of the library theories \<open>Char_ord\<close> and \<open>List_Lexorder\<close>).
  \<open>json_wf\<close> says so for every object inside a value. The integer alternatives hold 64-bit words,
  the float alternative the bit pattern of a double.

  The locale \<open>object_container\<close> is the contract the library expects from its \<^verbatim>\<open>ObjectType\<close>
  template argument; it is interpreted for \<^verbatim>\<open>std::map\<close> and for \<^verbatim>\<open>nlohmann::ordered_map\<close>.
\<close>

section \<open>Exceptions\<close>

text \<open>
  The exception classes with their \<^verbatim>\<open>id\<close>, for \<^verbatim>\<open>parse_error\<close> the \<^verbatim>\<open>byte\<close> position, and \<^verbatim>\<open>what()\<close>.
  \<open>Assertion_failure\<close> stands for a failing \<^verbatim>\<open>JSON_ASSERT\<close>, which ends the program.
\<close>

datatype json_exception =
    Parse_error nat nat string
  | Type_error nat string
  | Out_of_range nat string
  | Assertion_failure

text \<open>\<^verbatim>\<open>what()\<close> goes through a C string, so it ends at the first NUL.\<close>

definition c_str :: "string \<Rightarrow> string" where
  "c_str s = takeWhile (\<lambda>c. c \<noteq> CHR 0x00) s"

definition exception_name :: "string \<Rightarrow> nat \<Rightarrow> string" where
  "exception_name ename ident = ''[json.exception.'' @ ename @ ''.'' @ to_string ident @ ''] ''"

definition type_error_create :: "nat \<Rightarrow> string \<Rightarrow> json_exception" where
  "type_error_create ident what_arg =
     Type_error ident (c_str (exception_name ''type_error'' ident @ what_arg))"

definition out_of_range_create :: "nat \<Rightarrow> string \<Rightarrow> json_exception" where
  "out_of_range_create ident what_arg =
     Out_of_range ident (c_str (exception_name ''out_of_range'' ident @ what_arg))"

section \<open>Values\<close>

datatype value_t =
    vt_null | vt_object | vt_array | vt_string | vt_boolean | vt_number_integer
  | vt_number_unsigned | vt_number_float | vt_binary | vt_discarded

datatype json =
    Jnull
  | Jobject "(string \<times> json) list"
  | Jarray "json list"
  | Jstring string
  | Jboolean bool
  | Jnumber_integer "64 word"
  | Jnumber_unsigned "64 word"
  | Jnumber_float "64 word"
  | Jbinary "8 word list" "8 word option"
  | Jdiscarded

fun m_type :: "json \<Rightarrow> value_t" where
  "m_type Jnull = vt_null"
| "m_type (Jobject _) = vt_object"
| "m_type (Jarray _) = vt_array"
| "m_type (Jstring _) = vt_string"
| "m_type (Jboolean _) = vt_boolean"
| "m_type (Jnumber_integer _) = vt_number_integer"
| "m_type (Jnumber_unsigned _) = vt_number_unsigned"
| "m_type (Jnumber_float _) = vt_number_float"
| "m_type (Jbinary _ _) = vt_binary"
| "m_type Jdiscarded = vt_discarded"

definition type_name :: "json \<Rightarrow> string" where
  "type_name j =
     (case m_type j of vt_null \<Rightarrow> ''null'' | vt_object \<Rightarrow> ''object'' | vt_array \<Rightarrow> ''array''
      | vt_string \<Rightarrow> ''string'' | vt_boolean \<Rightarrow> ''boolean'' | vt_binary \<Rightarrow> ''binary''
      | vt_discarded \<Rightarrow> ''discarded'' | _ \<Rightarrow> ''number'')"

text \<open>The position of each type in the order of values of different types.\<close>

definition value_t_order :: "value_t \<Rightarrow> nat option" where
  "value_t_order t =
     (case t of vt_null \<Rightarrow> Some 0 | vt_object \<Rightarrow> Some 3 | vt_array \<Rightarrow> Some 4 | vt_string \<Rightarrow> Some 5
      | vt_boolean \<Rightarrow> Some 1 | vt_number_integer \<Rightarrow> Some 2 | vt_number_unsigned \<Rightarrow> Some 2
      | vt_number_float \<Rightarrow> Some 2 | vt_binary \<Rightarrow> Some 6 | vt_discarded \<Rightarrow> None)"

definition value_t_less :: "value_t \<Rightarrow> value_t \<Rightarrow> bool" where
  "value_t_less lhs rhs =
     (case (value_t_order lhs, value_t_order rhs) of (Some l, Some r) \<Rightarrow> l < r | _ \<Rightarrow> False)"

section \<open>Object containers\<close>

subsection \<open>\<^verbatim>\<open>std::map\<close>\<close>

fun map_find :: "('k::linorder \<times> 'v) list \<Rightarrow> 'k \<Rightarrow> 'v option" where
  "map_find [] k = None"
| "map_find ((a, v) # m) k = (if k = a then Some v else map_find m k)"

text \<open>\<open>emplace\<close>: adds a binding at its place in the order unless the key is present.\<close>

fun map_emplace :: "'k::linorder \<Rightarrow> 'v \<Rightarrow> ('k \<times> 'v) list \<Rightarrow> ('k \<times> 'v) list" where
  "map_emplace k v [] = [(k, v)]"
| "map_emplace k v ((a, w) # m) =
     (if k < a then (k, v) # (a, w) # m else if k = a then (a, w) # m
      else (a, w) # map_emplace k v m)"

text \<open>Assignment through a reference to the value bound to a key that is present.\<close>

fun map_assign :: "'k::linorder \<Rightarrow> 'v \<Rightarrow> ('k \<times> 'v) list \<Rightarrow> ('k \<times> 'v) list" where
  "map_assign k v [] = []"
| "map_assign k v ((a, w) # m) = (if k = a then (a, v) # m else (a, w) # map_assign k v m)"

fun map_erase :: "'k::linorder \<Rightarrow> ('k \<times> 'v) list \<Rightarrow> ('k \<times> 'v) list" where
  "map_erase k [] = []"
| "map_erase k ((a, w) # m) = (if k = a then m else (a, w) # map_erase k m)"

definition map_inv :: "('k::linorder \<times> 'v) list \<Rightarrow> bool" where
  "map_inv m \<longleftrightarrow> sorted_wrt (<) (map fst m)"

subsection \<open>\<^verbatim>\<open>nlohmann::ordered_map\<close>\<close>

text \<open>A vector of pairs in insertion order, searched from the front.\<close>

fun ordered_map_find :: "('k \<times> 'v) list \<Rightarrow> 'k \<Rightarrow> 'v option" where
  "ordered_map_find [] k = None"
| "ordered_map_find ((a, v) # m) k = (if a = k then Some v else ordered_map_find m k)"

definition ordered_map_emplace :: "'k \<Rightarrow> 'v \<Rightarrow> ('k \<times> 'v) list \<Rightarrow> ('k \<times> 'v) list" where
  "ordered_map_emplace k v m =
     (case ordered_map_find m k of Some _ \<Rightarrow> m | None \<Rightarrow> m @ [(k, v)])"

fun ordered_map_assign :: "'k \<Rightarrow> 'v \<Rightarrow> ('k \<times> 'v) list \<Rightarrow> ('k \<times> 'v) list" where
  "ordered_map_assign k v [] = []"
| "ordered_map_assign k v ((a, w) # m) =
     (if a = k then (a, v) # m else (a, w) # ordered_map_assign k v m)"

fun ordered_map_erase :: "'k \<Rightarrow> ('k \<times> 'v) list \<Rightarrow> ('k \<times> 'v) list" where
  "ordered_map_erase k [] = []"
| "ordered_map_erase k ((a, w) # m) = (if a = k then m else (a, w) # ordered_map_erase k m)"

subsection \<open>The contract\<close>

locale object_container =
  fixes empty :: 'c
    and find :: "'c \<Rightarrow> 'k \<Rightarrow> 'v option"
    and emplace :: "'k \<Rightarrow> 'v \<Rightarrow> 'c \<Rightarrow> 'c"
    and assign :: "'k \<Rightarrow> 'v \<Rightarrow> 'c \<Rightarrow> 'c"
    and erase :: "'k \<Rightarrow> 'c \<Rightarrow> 'c"
    and invar :: "'c \<Rightarrow> bool"
  assumes invar_empty: "invar empty"
    and find_empty: "find empty k = None"
    and invar_emplace: "invar c \<Longrightarrow> invar (emplace k v c)"
    and find_emplace:
      "invar c \<Longrightarrow> find (emplace k v c) k' =
         (if k' = k \<and> find c k = None then Some v else find c k')"
    and invar_assign: "invar c \<Longrightarrow> invar (assign k v c)"
    and find_assign:
      "invar c \<Longrightarrow> find c k \<noteq> None \<Longrightarrow> find (assign k v c) k' = (if k' = k then Some v else find c k')"
    and invar_erase: "invar c \<Longrightarrow> invar (erase k c)"
    and find_erase: "invar c \<Longrightarrow> find (erase k c) k' = (if k' = k then None else find c k')"
begin

text \<open>\<^verbatim>\<open>obj[k] = v\<close>: \<^verbatim>\<open>operator[]\<close> emplaces a default value, then the reference is assigned.\<close>

lemma find_store:
  assumes "invar c"
  shows "find (assign k v (emplace k d c)) k' = (if k' = k then Some v else find c k')"
proof -
  have "find (emplace k d c) k \<noteq> None"
    using assms by (auto simp: find_emplace)
  then show ?thesis
    using assms by (auto simp: find_assign invar_emplace find_emplace)
qed

lemma invar_store: "invar c \<Longrightarrow> invar (assign k v (emplace k d c))"
  by (simp add: invar_emplace invar_assign)

lemma invar_stores: "invar c \<Longrightarrow> invar (fold (\<lambda>(k, v) m. assign k v (emplace k d m)) kvs c)"
  by (induction kvs arbitrary: c) (auto simp: invar_store)

text \<open>After a sequence of such assignments the last one to a key is in force.\<close>

lemma find_stores:
  "invar c \<Longrightarrow> find (fold (\<lambda>(k, v) m. assign k v (emplace k d m)) kvs c) k =
     (case map_of (rev kvs) k of Some v \<Rightarrow> Some v | None \<Rightarrow> find c k)"
proof (induction kvs arbitrary: c)
  case (Cons kv kvs)
  obtain k' v' where kv: "kv = (k', v')" by (cases kv)
  show ?case
    using Cons.IH [OF invar_store [OF Cons.prems, of k' v' d]] Cons.prems
    by (auto simp: kv find_store map_add_def split: option.splits)
qed simp

end

lemma map_find_None: "map_inv ((a, v) # m) \<Longrightarrow> k < a \<Longrightarrow> map_find m k = None"
  by (induction m) (auto simp: map_inv_def)

lemma set_map_emplace: "fst ` set (map_emplace k v m) = insert k (fst ` set m)"
proof (induction m)
  case (Cons kv m)
  then show ?case by (cases kv) (simp add: insert_commute)
qed simp

lemma set_map_assign: "map fst (map_assign k v m) = map fst m"
  by (induction m) auto

lemma set_map_erase: "set (map_erase k m) \<subseteq> set m"
  by (induction m) (auto split: if_splits)

lemma map_inv_Cons: "map_inv ((a, v) # m) \<longleftrightarrow> (\<forall>b \<in> fst ` set m. a < b) \<and> map_inv m"
  by (auto simp: map_inv_def)

lemma map_inv_emplace: "map_inv m \<Longrightarrow> map_inv (map_emplace k v m)"
proof (induction m)
  case (Cons kv m)
  then show ?case
    by (cases kv) (auto simp: map_inv_Cons set_map_emplace)
qed (simp add: map_inv_def)

lemma map_inv_erase: "map_inv m \<Longrightarrow> map_inv (map_erase k m)"
proof (induction m)
  case (Cons kv m)
  then show ?case
    using set_map_erase [of k m] by (cases kv) (auto simp: map_inv_Cons)
qed (simp add: map_inv_def)

lemma map_find_assign:
  "map_find m k \<noteq> None \<Longrightarrow>
     map_find (map_assign k v m) k' = (if k' = k then Some v else map_find m k')"
  by (induction m) auto

lemma map_find_emplace:
  "map_inv m \<Longrightarrow> map_find (map_emplace k v m) k' =
     (if k' = k \<and> map_find m k = None then Some v else map_find m k')"
proof (induction m)
  case (Cons kv m)
  then show ?case
    using map_find_None [of "fst kv" "snd kv" m k] by (cases kv) (auto simp: map_inv_def)
qed simp

lemma map_find_erase:
  "map_inv m \<Longrightarrow> map_find (map_erase k m) k' = (if k' = k then None else map_find m k')"
proof (induction m)
  case (Cons kv m)
  have "map_find m a = None" if "a = fst kv" for a
    using Cons.prems that by (cases kv) (induction m; auto simp: map_inv_def)
  with Cons show ?case by (cases kv) (auto simp: map_inv_def)
qed simp

interpretation std_map: object_container "[]" map_find map_emplace map_assign map_erase map_inv
  by unfold_locales
    (simp_all add: map_inv_emplace map_find_emplace map_inv_erase map_find_erase map_find_assign,
     simp_all add: map_inv_def set_map_assign)

lemma ordered_map_find_append:
  "ordered_map_find (m @ m') k =
     (case ordered_map_find m k of Some v \<Rightarrow> Some v | None \<Rightarrow> ordered_map_find m' k)"
  by (induction m k rule: ordered_map_find.induct) auto

lemma ordered_map_find_None: "ordered_map_find m k = None \<longleftrightarrow> k \<notin> fst ` set m"
  by (induction m k rule: ordered_map_find.induct) auto

lemma ordered_map_keys_assign: "map fst (ordered_map_assign k v m) = map fst m"
  by (induction m) auto

lemma set_ordered_map_erase: "set (ordered_map_erase k m) \<subseteq> set m"
  by (induction m) (auto split: if_splits)

lemma ordered_map_inv_erase: "distinct (map fst m) \<Longrightarrow> distinct (map fst (ordered_map_erase k m))"
proof (induction m)
  case (Cons kv m)
  then show ?case using set_ordered_map_erase [of k m] by (cases kv) auto
qed simp

lemma ordered_map_find_assign:
  "ordered_map_find m k \<noteq> None \<Longrightarrow>
     ordered_map_find (ordered_map_assign k v m) k' = (if k' = k then Some v else ordered_map_find m k')"
  by (induction m) auto

lemma ordered_map_find_erase:
  "distinct (map fst m) \<Longrightarrow>
     ordered_map_find (ordered_map_erase k m) k' = (if k' = k then None else ordered_map_find m k')"
proof (induction m)
  case (Cons kv m)
  have "ordered_map_find m (fst kv) = None"
    using Cons.prems by (simp add: ordered_map_find_None)
  with Cons show ?case by (cases kv) auto
qed simp

interpretation ordered_map: object_container "[]" ordered_map_find ordered_map_emplace
  ordered_map_assign ordered_map_erase "\<lambda>m. distinct (map fst m)"
proof (unfold_locales, goal_cases)
  case (3 c k v)
  then show ?case
    by (auto simp: ordered_map_emplace_def ordered_map_find_None split: option.splits)
next
  case (4 c k v k')
  then show ?case
    by (auto simp: ordered_map_emplace_def ordered_map_find_append split: option.splits)
qed (simp_all add: ordered_map_keys_assign ordered_map_inv_erase ordered_map_find_erase
       ordered_map_find_assign)

section \<open>Operations on values\<close>

text \<open>Every object inside the value is a \<^verbatim>\<open>std::map\<close>: its keys are strictly increasing.\<close>

fun json_wf :: "json \<Rightarrow> bool" where
  "json_wf (Jobject m) \<longleftrightarrow> map_inv m \<and> (\<forall>kv \<in> set m. json_wf (snd kv))"
| "json_wf (Jarray xs) \<longleftrightarrow> (\<forall>x \<in> set xs. json_wf x)"
| "json_wf _ \<longleftrightarrow> True"

definition is_null :: "json \<Rightarrow> bool" where "is_null j \<longleftrightarrow> m_type j = vt_null"
definition is_object :: "json \<Rightarrow> bool" where "is_object j \<longleftrightarrow> m_type j = vt_object"
definition is_array :: "json \<Rightarrow> bool" where "is_array j \<longleftrightarrow> m_type j = vt_array"
definition is_string :: "json \<Rightarrow> bool" where "is_string j \<longleftrightarrow> m_type j = vt_string"

text \<open>
  \<^verbatim>\<open>operator[](key)\<close> on a non-constant value: null becomes an empty object, a missing key is added
  with a null value. The result is the value the returned reference denotes and the changed object.
\<close>

definition index_key :: "string \<Rightarrow> json \<Rightarrow> json_exception + (json \<times> json)" where
  "index_key key j0 =
     (let j = (if is_null j0 then Jobject [] else j0)
      in case j of
           Jobject m \<Rightarrow>
             (let m' = map_emplace key Jnull m
              in Inr (case map_find m' key of Some v \<Rightarrow> v | None \<Rightarrow> Jnull, Jobject m'))
         | _ \<Rightarrow> Inl (type_error_create 305
                      (''cannot use operator[] with a string argument with '' @ type_name j)))"

text \<open>\<^verbatim>\<open>j[key] = v\<close>.\<close>

definition set_key :: "string \<Rightarrow> json \<Rightarrow> json \<Rightarrow> json_exception + json" where
  "set_key key v j0 =
     try_bind (index_key key j0) (\<lambda>(r, j).
       case j of Jobject m \<Rightarrow> Inr (Jobject (map_assign key v m)) | _ \<Rightarrow> Inr j)"

text \<open>\<^verbatim>\<open>operator[](idx)\<close>: null becomes an empty array, and the array is filled up with null values.\<close>

definition index_nat :: "nat \<Rightarrow> json \<Rightarrow> json_exception + (json \<times> json)" where
  "index_nat idx j0 =
     (let j = (if is_null j0 then Jarray [] else j0)
      in case j of
           Jarray xs \<Rightarrow>
             (let ys = (if length xs \<le> idx
                        then xs @ replicate (idx - length xs + 1) Jnull else xs)
              in Inr (ys ! idx, Jarray ys))
         | _ \<Rightarrow> Inl (type_error_create 305
                      (''cannot use operator[] with a numeric argument with '' @ type_name j)))"

definition at_key :: "string \<Rightarrow> json \<Rightarrow> json_exception + json" where
  "at_key key j =
     (case j of
        Jobject m \<Rightarrow>
          (case map_find m key of
             Some v \<Rightarrow> Inr v
           | None \<Rightarrow> Inl (out_of_range_create 403
                            (''key '' @ [CHR 0x27] @ key @ [CHR 0x27] @ '' not found'')))
      | _ \<Rightarrow> Inl (type_error_create 304 (''cannot use at() with '' @ type_name j)))"

definition at_nat :: "nat \<Rightarrow> json \<Rightarrow> json_exception + json" where
  "at_nat idx j =
     (case j of
        Jarray xs \<Rightarrow>
          (if idx < length xs then Inr (xs ! idx)
           else Inl (out_of_range_create 401
                       (''array index '' @ to_string idx @ '' is out of range'')))
      | _ \<Rightarrow> Inl (type_error_create 304 (''cannot use at() with '' @ type_name j)))"

text \<open>\<^verbatim>\<open>get<std::string>()\<close>, the conversion \<^verbatim>\<open>from_json(j, s)\<close> to \<^verbatim>\<open>string_t\<close>.\<close>

definition get_string :: "json \<Rightarrow> json_exception + string" where
  "get_string j =
     (case j of
        Jstring s \<Rightarrow> Inr s
      | _ \<Rightarrow> Inl (type_error_create 302 (''type must be string, but is '' @ type_name j)))"

definition push_back :: "json \<Rightarrow> json \<Rightarrow> json_exception + json" where
  "push_back v j =
     (if \<not> (is_null j \<or> is_array j)
      then Inl (type_error_create 308 (''cannot use push_back() with '' @ type_name j))
      else (case j of Jarray xs \<Rightarrow> Inr (Jarray (xs @ [v])) | _ \<Rightarrow> Inr (Jarray [v])))"

definition push_back_pair :: "string \<times> json \<Rightarrow> json \<Rightarrow> json_exception + json" where
  "push_back_pair kv j =
     (if \<not> (is_null j \<or> is_object j)
      then Inl (type_error_create 308 (''cannot use push_back() with '' @ type_name j))
      else (case j of
              Jobject m \<Rightarrow> Inr (Jobject (map_emplace (fst kv) (snd kv) m))
            | _ \<Rightarrow> Inr (Jobject [kv])))"

definition erase_key :: "string \<Rightarrow> json \<Rightarrow> json_exception + (nat \<times> json)" where
  "erase_key key j =
     (case j of
        Jobject m \<Rightarrow> Inr (if map_find m key = None then 0 else 1, Jobject (map_erase key m))
      | _ \<Rightarrow> Inl (type_error_create 307 (''cannot use erase() with '' @ type_name j)))"

definition contains :: "string \<Rightarrow> json \<Rightarrow> bool" where
  "contains key j = (case j of Jobject m \<Rightarrow> map_find m key \<noteq> None | _ \<Rightarrow> False)"

definition count_key :: "string \<Rightarrow> json \<Rightarrow> nat" where
  "count_key key j = (case j of Jobject m \<Rightarrow> (if map_find m key = None then 0 else 1) | _ \<Rightarrow> 0)"

definition json_empty :: "json \<Rightarrow> bool" where
  "json_empty j =
     (case j of Jnull \<Rightarrow> True | Jarray xs \<Rightarrow> xs = [] | Jobject m \<Rightarrow> m = [] | _ \<Rightarrow> False)"

definition json_size :: "json \<Rightarrow> nat" where
  "json_size j =
     (case j of Jnull \<Rightarrow> 0 | Jarray xs \<Rightarrow> length xs | Jobject m \<Rightarrow> length m | _ \<Rightarrow> 1)"

definition json_clear :: "json \<Rightarrow> json" where
  "json_clear j =
     (case j of
        Jnumber_integer _ \<Rightarrow> Jnumber_integer 0 | Jnumber_unsigned _ \<Rightarrow> Jnumber_unsigned 0
      | Jnumber_float _ \<Rightarrow> Jnumber_float 0 | Jboolean _ \<Rightarrow> Jboolean False
      | Jstring _ \<Rightarrow> Jstring [] | Jbinary _ t \<Rightarrow> Jbinary [] t | Jarray _ \<Rightarrow> Jarray []
      | Jobject _ \<Rightarrow> Jobject [] | _ \<Rightarrow> j)"

section \<open>Properties\<close>

text \<open>\<^verbatim>\<open>std::map\<close> and \<^verbatim>\<open>ordered_map\<close> answer lookups alike: after any sequence of assignments
  \<^verbatim>\<open>obj[key] = value\<close> and one \<^verbatim>\<open>erase\<close>, a key is bound in both to the value assigned to it last.\<close>

lemma ordered_map_agrees:
  fixes k ek :: "'k::linorder"
  shows "map_find (map_erase ek (fold (\<lambda>(k, v) m. map_assign k v (map_emplace k d m)) kvs [])) k =
    ordered_map_find
      (ordered_map_erase ek (fold (\<lambda>(k, v) m. ordered_map_assign k v (ordered_map_emplace k d m)) kvs [])) k"
  by (simp add: std_map.find_erase std_map.invar_stores std_map.invar_empty std_map.find_stores
      ordered_map.find_erase ordered_map.invar_stores ordered_map.find_stores split: option.splits)

end
