(* ===== verification/Json_Grammar.thy ===== *)
theory Json_Grammar
  imports Json_Lexer_View Json_Utf8 Json_Value
begin

text \<open>
  The JSON grammar (RFC 8259) as inductive relations between texts and what they denote, and the
  lexer's side of it: on the text of a token the lexer returns that token, its decoded value, and
  stops behind it. A value is related to its text as written: \<open>json_text dp v s\<close>, where the
  members of an object are in the order of the text and may repeat a key.
\<close>

section \<open>Strings\<close>

definition hex_value :: "char \<Rightarrow> nat option" where
  "hex_value c =
     (if 48 \<le> ic c \<and> ic c \<le> 57 then Some (nat (ic c - 48))
      else if 65 \<le> ic c \<and> ic c \<le> 70 then Some (nat (ic c - 55))
      else if 97 \<le> ic c \<and> ic c \<le> 102 then Some (nat (ic c - 87)) else None)"

text \<open>Four hexadecimal digits and their value.\<close>

fun hex_quad :: "string \<Rightarrow> nat \<Rightarrow> bool" where
  "hex_quad [a, b, c, d] u \<longleftrightarrow>
     (case (hex_value a, hex_value b, hex_value c, hex_value d) of
        (Some w, Some x, Some y, Some z) \<Rightarrow> u = w * 4096 + x * 256 + y * 16 + z | _ \<Rightarrow> False)"
| "hex_quad _ u \<longleftrightarrow> False"

text \<open>The escapes of one letter.\<close>

definition letter_escape :: "char \<Rightarrow> nat option" where
  "letter_escape c =
     (if c = CHR 0x22 then Some 0x22 else if c = CHR 0x5C then Some 0x5C
      else if c = CHR ''/'' then Some 0x2F else if c = CHR ''b'' then Some 0x08
      else if c = CHR ''f'' then Some 0x0C else if c = CHR ''n'' then Some 0x0A
      else if c = CHR ''r'' then Some 0x0D else if c = CHR ''t'' then Some 0x09 else None)"

inductive char_text :: "nat \<Rightarrow> string \<Rightarrow> bool" where
  plain: "scalar_value cp \<Longrightarrow> 0x20 \<le> cp \<Longrightarrow> cp \<noteq> 0x22 \<Longrightarrow> cp \<noteq> 0x5C \<Longrightarrow> char_text cp (utf8 cp)"
| letter: "letter_escape c = Some cp \<Longrightarrow> char_text cp [CHR 0x5C, c]"
| unit: "hex_quad hs cp \<Longrightarrow> scalar_value cp \<Longrightarrow> char_text cp (CHR 0x5C # CHR ''u'' # hs)"
| pair: "hex_quad hs hi \<Longrightarrow> 0xD800 \<le> hi \<Longrightarrow> hi < 0xDC00 \<Longrightarrow> hex_quad ls lo \<Longrightarrow>
     0xDC00 \<le> lo \<Longrightarrow> lo < 0xE000 \<Longrightarrow> cp = 0x10000 + (hi - 0xD800) * 0x400 + (lo - 0xDC00) \<Longrightarrow>
     char_text cp ((CHR 0x5C # CHR ''u'' # hs) @ (CHR 0x5C # CHR ''u'' # ls))"

lemma char_text_scalar: "char_text cp t \<Longrightarrow> scalar_value cp"
  by (induction rule: char_text.induct) (auto simp: scalar_value_def letter_escape_def split: if_splits)

definition string_text :: "nat list \<Rightarrow> string \<Rightarrow> bool" where
  "string_text cps s \<longleftrightarrow> (\<exists>ts. list_all2 char_text cps ts \<and> s = concat ts)"

lemma string_text_Nil: "string_text [] s \<longleftrightarrow> s = []"
  by (simp add: string_text_def)

lemma string_text_Cons:
  "string_text (cp # cps) s \<longleftrightarrow> (\<exists>t s'. char_text cp t \<and> string_text cps s' \<and> s = t @ s')"
proof
  assume "\<exists>t s'. char_text cp t \<and> string_text cps s' \<and> s = t @ s'"
  then obtain t ts where "char_text cp t" "list_all2 char_text cps ts" "s = t @ concat ts"
    by (auto simp: string_text_def)
  then show "string_text (cp # cps) s"
    unfolding string_text_def by (intro exI [of _ "t # ts"]) simp
qed (fastforce simp: string_text_def list_all2_Cons1)

subsection \<open>The lexer on strings\<close>

lemma hex_value_less: "hex_value c = Some v \<Longrightarrow> v < 16"
  by (auto simp: hex_value_def split: if_splits)

lemma hex_quad_less: "hex_quad hs u \<Longrightarrow> u < 0x10000"
  by (cases "(hs, u)" rule: hex_quad.cases) (auto split: option.splits dest!: hex_value_less)

lemma get_codepoint_loop_hex:
  assumes "lexer_at cfg l (c # s)" "hex_value c = Some v"
  shows "get_codepoint_loop (f # fs) cp l = get_codepoint_loop fs (cp + int v * 2 ^ f) (get l)"
  using assms get_Cons [OF assms(1)]
  by (auto simp: hex_value_def Let_def push_bit_eq_mult split: if_splits)

lemma get_codepoint_hex:
  assumes at: "lexer_at cfg l (hs @ s)" and hs: "hex_quad hs u"
  shows "\<exists>l'. get_codepoint l = (int u, l') \<and> lexer_at cfg l' s \<and> token_buffer l' = token_buffer l"
proof -
  obtain a b c d w x y z where q: "hs = [a, b, c, d]" "hex_value a = Some w" "hex_value b = Some x"
    "hex_value c = Some y" "hex_value d = Some z" "u = w * 4096 + x * 256 + y * 16 + z"
    using hs by (cases "(hs, u)" rule: hex_quad.cases) (auto split: option.splits)
  let ?l = "json_assert (current l = ic CHR ''u'') l"
  have at1: "lexer_at cfg ?l (a # b # c # d # s)" using at q by simp
  note at2 = get_Cons(2) [OF at1] note at3 = get_Cons(2) [OF at2] note at4 = get_Cons(2) [OF at3]
  note at5 = get_Cons(2) [OF at4]
  have "get_codepoint l =
      (int u, json_assert (0x0000 \<le> int u \<and> int u \<le> 0xFFFF) (get (get (get (get ?l)))))"
    unfolding get_codepoint_def get_codepoint_loop_hex [OF at1 q(2)] get_codepoint_loop_hex [OF at2 q(3)]
      get_codepoint_loop_hex [OF at3 q(4)] get_codepoint_loop_hex [OF at4 q(5)]
    by (simp add: q(6))
  with at5 show ?thesis by simp
qed

lemma int_bit_bytes:
  "0x80 OR (int n AND 0x3F) = int (0x80 + n mod 64)"
  "n < 32 \<Longrightarrow> 0xC0 OR int n = int (0xC0 + n)" "n < 16 \<Longrightarrow> 0xE0 OR int n = int (0xE0 + n)"
  "n < 8 \<Longrightarrow> 0xF0 OR int n = int (0xF0 + n)" "drop_bit k (int n) = int (n div 2 ^ k)"
proof -
  have m: "int n AND 0x3F = int (n mod 64)"
    using and_mask_nat [of n 6] of_nat_and_eq [of n 63, where 'a = int] by simp
  show "0x80 OR (int n AND 0x3F) = int (0x80 + n mod 64)"
    unfolding m using or_high_low_nat [of "n mod 64" 6 2] of_nat_or_eq [of "0x80" "n mod 64", where 'a = int] by simp
  show "n < 32 \<Longrightarrow> 0xC0 OR int n = int (0xC0 + n)"
    using or_high_low_nat [of n 5 6] of_nat_or_eq [of "0xC0" n, where 'a = int] by simp
  show "n < 16 \<Longrightarrow> 0xE0 OR int n = int (0xE0 + n)"
    using or_high_low_nat [of n 4 14] of_nat_or_eq [of "0xE0" n, where 'a = int] by simp
  show "n < 8 \<Longrightarrow> 0xF0 OR int n = int (0xF0 + n)"
    using or_high_low_nat [of n 3 30] of_nat_or_eq [of "0xF0" n, where 'a = int] by simp
  show "drop_bit k (int n) = int (n div 2 ^ k)"
    by (simp add: drop_bit_eq_div zdiv_int)
qed

lemma token_buffer_add_codepoint:
  assumes "scalar_value cp"
  shows "token_buffer (add_codepoint (int cp) l) = token_buffer l @ utf8 cp"
proof -
  have "cp < 0x110000" using assms by (auto simp: scalar_value_def)
  then have "cp div 64 < 32" if "cp < 0x800" using that by simp
  moreover have "cp div 4096 < 16" if "cp < 0x10000" using that by simp
  moreover have "cp div 262144 < 8" using \<open>cp < 0x110000\<close> by simp
  ultimately show ?thesis
    by (auto simp: add_codepoint_def Let_def utf8_def byte_def int_bit_bytes)
qed

lemma lexer_at_add_codepoint [simp]: "lexer_at cfg (add_codepoint cp l) s \<longleftrightarrow> lexer_at cfg l s"
  by (simp add: add_codepoint_def Let_def)

lemma scan_unicode_escape_unit:
  assumes "lexer_at cfg l (hs @ s)" "hex_quad hs cp" "scalar_value cp"
  shows "\<exists>l'. scan_unicode_escape l = (True, l') \<and> lexer_at cfg l' s \<and>
    token_buffer l' = token_buffer l @ utf8 cp"
  using get_codepoint_hex [OF assms(1,2)] assms(3) token_buffer_add_codepoint [OF assms(3)]
  by (auto simp: scan_unicode_escape_def scalar_value_def)

lemma scan_unicode_escape_pair:
  assumes at: "lexer_at cfg l (hs @ CHR 0x5C # CHR ''u'' # ls @ s)"
    and hi: "hex_quad hs hi" "0xD800 \<le> hi" "hi < 0xDC00"
    and lo: "hex_quad ls lo" "0xDC00 \<le> lo" "lo < 0xE000"
    and cp: "cp = 0x10000 + (hi - 0xD800) * 0x400 + (lo - 0xDC00)"
  shows "\<exists>l'. scan_unicode_escape l = (True, l') \<and> lexer_at cfg l' s \<and>
    token_buffer l' = token_buffer l @ utf8 cp"
proof -
  obtain l1 where l1: "get_codepoint l = (int hi, l1)"
    "lexer_at cfg l1 (CHR 0x5C # CHR ''u'' # ls @ s)" "token_buffer l1 = token_buffer l"
    using get_codepoint_hex [OF at hi(1)] by blast
  note l2 = get_Cons [OF l1(2)] note l3 = get_Cons [OF l2(2)]
  obtain l4 where l4: "get_codepoint (get (get l1)) = (int lo, l4)" "lexer_at cfg l4 s"
    "token_buffer l4 = token_buffer l"
    using get_codepoint_hex [OF l3(2) lo(1)] l1(3) by auto
  have sv: "scalar_value cp" using hi lo by (auto simp: scalar_value_def cp)
  have "(push_bit 10 (int hi) + int lo - 0x35FDC00) mod 2 ^ 32 = int cp"
    using hi lo by (simp add: push_bit_eq_mult cp of_nat_diff)
  then have "scan_unicode_escape l = (True, add_codepoint (int cp) l4)"
    using hi lo l1 l2 l3 l4 by (simp add: scan_unicode_escape_def Let_def)
  with l4 token_buffer_add_codepoint [OF sv, of l4] show ?thesis by simp
qed

text \<open>Bytes of a multi-byte sequence that stay in the ranges the lexer allows.\<close>

lemma next_byte_in_range_loop_ok:
  "lexer_at cfg l (bs @ s) \<Longrightarrow> list_all2 (\<lambda>(lo, hi) b. lo \<le> ic b \<and> ic b \<le> hi) rs bs \<Longrightarrow>
     \<exists>l'. next_byte_in_range_loop rs l = (True, l') \<and> lexer_at cfg l' s \<and>
       token_buffer l' = token_buffer l @ bs"
proof (induction rs arbitrary: bs l)
  case (Cons r rs)
  then obtain b bs' where bs: "bs = b # bs'" "fst r \<le> ic b" "ic b \<le> snd r"
    "list_all2 (\<lambda>(lo, hi) b. lo \<le> ic b \<and> ic b \<le> hi) rs bs'"
    by (cases bs) auto
  have "lexer_at cfg l (b # bs' @ s)" using Cons.prems(1) bs by simp
  note g = get_Cons [OF this]
  obtain l' where "next_byte_in_range_loop rs (add (ic b) (get l)) = (True, l')" "lexer_at cfg l' s"
    "token_buffer l' = token_buffer (add (ic b) (get l)) @ bs'"
    using Cons.IH [of "add (ic b) (get l)" bs'] g bs by auto
  then show ?case using g bs by (cases r) (simp add: Let_def)
qed simp

lemma utf8_ranges_utf8:
  assumes "scalar_value cp" "0x80 \<le> cp"
  shows "\<exists>b bs rs. utf8 cp = b # bs \<and> 0x80 \<le> ic b \<and> utf8_ranges (ic b) = Some rs \<and>
    list_all2 (\<lambda>(lo, hi) b. lo \<le> ic b \<and> ic b \<le> hi) rs bs"
  using assms(1)
proof (cases rule: utf8_cases)
  case one
  then show ?thesis using assms(2) by simp
next
  case (two a x)
  then show ?thesis by (simp add: utf8_two ic_byte utf8_ranges_def)
next
  case (three a x y)
  then have u: "utf8 cp = [byte (0xE0 + a), byte (0x80 + x), byte (0x80 + y)]"
    by (simp only: utf8_three)
  have "a = 0 \<or> a = 13 \<or> (1 \<le> a \<and> a \<le> 12) \<or> a = 14 \<or> a = 15" using three by linarith
  then show ?thesis
    unfolding u using three(2-) by (auto simp: ic_byte utf8_ranges_def)
next
  case (four a x y z)
  then have u: "utf8 cp = [byte (0xF0 + a), byte (0x80 + x), byte (0x80 + y), byte (0x80 + z)]"
    by (simp only: utf8_four)
  have "a = 0 \<or> (1 \<le> a \<and> a \<le> 3) \<or> a = 4" using four by linarith
  then show ?thesis
    unfolding u using four(2-) by (auto simp: ic_byte utf8_ranges_def)
qed

text \<open>One character of a string, and a whole string.\<close>

lemma scan_escape_letter:
  assumes at: "lexer_at cfg l (c # s)" and c: "letter_escape c = Some cp"
  shows "\<exists>l'. scan_escape l = (True, l') \<and> lexer_at cfg l' s \<and> token_buffer l' = token_buffer l @ utf8 cp"
proof -
  have "scan_escape l = (True, add (int cp) (get l))"
    using c get_Cons [OF at]
    by (auto simp: scan_escape_def letter_escape_def Let_def char_eq_ic split: if_splits)
  moreover have "cp < 0x80" using c by (auto simp: letter_escape_def split: if_splits)
  ultimately show ?thesis using get_Cons [OF at] by (simp add: utf8_def byte_def)
qed

lemma scan_string_loop_escape:
  assumes at: "lexer_at cfg l (CHR 0x5C # s)" and ok: "scan_escape (get l) = (True, l')"
  shows "scan_string_loop l = scan_string_loop l'"
  using get_Cons [OF at] ok by (subst scan_string_loop.simps) (simp add: Let_def)

lemma scan_escape_u:
  "lexer_at cfg l (CHR ''u'' # s) \<Longrightarrow> scan_escape l = scan_unicode_escape (get l)"
  using get_Cons [of cfg l "CHR ''u''" s] by (simp add: scan_escape_def Let_def)

lemma scan_string_char:
  assumes at: "lexer_at cfg l (t @ s)" and t: "char_text cp t"
  shows "\<exists>l'. scan_string_loop l = scan_string_loop l' \<and> lexer_at cfg l' s \<and>
    token_buffer l' = token_buffer l @ utf8 cp"
  using t
proof cases
  case plain
  show ?thesis
  proof (cases "cp < 0x80")
    case True
    with at plain have at': "lexer_at cfg l (byte cp # s)" by (simp add: utf8_def)
    have "scan_string_loop l = scan_string_loop (add (int cp) (get l))"
      using get_Cons [OF at'] plain True by (subst scan_string_loop.simps) (simp add: Let_def ic_byte)
    with get_Cons [OF at'] True show ?thesis by (auto simp: utf8_def byte_def)
  next
    case False
    with utf8_ranges_utf8 [of cp] plain obtain b bs rs where b: "utf8 cp = b # bs" "0x80 \<le> ic b"
      "utf8_ranges (ic b) = Some rs" "list_all2 (\<lambda>(lo, hi) b. lo \<le> ic b \<and> ic b \<le> hi) rs bs" by auto
    with at plain have at': "lexer_at cfg l (b # bs @ s)" by simp
    note g = get_Cons [OF at']
    let ?l = "json_assert (2 * length rs = 2 \<or> 2 * length rs = 4 \<or> 2 * length rs = 6) (get l)"
    from next_byte_in_range_loop_ok [of cfg "add (ic b) ?l" bs s rs] b g obtain l' where
      "next_byte_in_range rs (get l) = (True, l')" "lexer_at cfg l' s" "token_buffer l' = token_buffer l @ b # bs"
      by (auto simp: next_byte_in_range_def Let_def)
    moreover from this g b have "scan_string_loop l = scan_string_loop l'"
      by (subst scan_string_loop.simps) (simp add: Let_def)
    ultimately show ?thesis using b by auto
  qed
next
  case (letter c)
  with at have at': "lexer_at cfg l (CHR 0x5C # c # s)" by simp
  from scan_escape_letter [OF get_Cons(2) [OF at'] letter(2)] scan_string_loop_escape [OF at']
  show ?thesis by auto
next
  case (unit hs)
  with at have at': "lexer_at cfg l (CHR 0x5C # CHR ''u'' # hs @ s)" by simp
  note g = get_Cons(2) [OF at']
  from scan_unicode_escape_unit [OF get_Cons(2) [OF g] unit(2,3)] scan_escape_u [OF g]
    scan_string_loop_escape [OF at'] show ?thesis by auto
next
  case (pair hs hi ls lo)
  with at have at': "lexer_at cfg l (CHR 0x5C # CHR ''u'' # hs @ CHR 0x5C # CHR ''u'' # ls @ s)" by simp
  note g = get_Cons(2) [OF at']
  from scan_unicode_escape_pair [OF get_Cons(2) [OF g] pair(2-8)] scan_escape_u [OF g]
    scan_string_loop_escape [OF at'] show ?thesis by auto
qed

lemma scan_string_text:
  assumes "lexer_at cfg l (t @ CHR 0x22 # s)" "string_text cps t"
  shows "\<exists>l'. scan_string_loop l = (tok_value_string, l') \<and> lexer_at cfg l' s \<and>
    token_buffer l' = token_buffer l @ utf8_text cps"
  using assms
proof (induction cps arbitrary: l t)
  case Nil
  then have at: "lexer_at cfg l (CHR 0x22 # s)" by (simp add: string_text_Nil)
  with get_Cons [OF this] show ?case
    by (subst scan_string_loop.simps) (simp add: Let_def utf8_text_def)
next
  case (Cons cp cps)
  then obtain t1 t2 where t: "char_text cp t1" "string_text cps t2" "t = t1 @ t2"
    by (auto simp: string_text_Cons)
  with Cons.prems scan_string_char [of cfg l t1 "t2 @ CHR 0x22 # s" cp] obtain l1 where
    l1: "scan_string_loop l = scan_string_loop l1" "lexer_at cfg l1 (t2 @ CHR 0x22 # s)"
      "token_buffer l1 = token_buffer l @ utf8 cp" by auto
  from Cons.IH [OF l1(2) t(2)] l1 show ?case by (auto simp: utf8_text_def)
qed

section \<open>Numbers\<close>

definition digits :: "string \<Rightarrow> bool" where
  "digits ds \<longleftrightarrow> ds \<noteq> [] \<and> list_all is_digit ds"

definition int_text :: "string \<Rightarrow> bool" where
  "int_text ip \<longleftrightarrow> digits ip \<and> (hd ip = CHR ''0'' \<longrightarrow> tl ip = [])"

definition frac_text :: "string \<Rightarrow> bool" where
  "frac_text fr \<longleftrightarrow> fr = [] \<or> (hd fr = CHR ''.'' \<and> digits (tl fr))"

definition exp_text :: "string \<Rightarrow> bool" where
  "exp_text ex \<longleftrightarrow> ex = [] \<or>
     ((hd ex = CHR ''e'' \<or> hd ex = CHR ''E'') \<and>
      (digits (tl ex) \<or>
       tl ex \<noteq> [] \<and> (hd (tl ex) = CHR ''+'' \<or> hd (tl ex) = CHR ''-'') \<and> digits (tl (tl ex))))"

definition sign_text :: "bool \<Rightarrow> string" where
  "sign_text neg = (if neg then ''-'' else [])"

text \<open>The text of a number in the token buffer: the decimal point is the locale's.\<close>

definition number_buffer_text :: "char \<Rightarrow> bool \<Rightarrow> string \<Rightarrow> string \<Rightarrow> string \<Rightarrow> string" where
  "number_buffer_text dp neg ip fr ex =
     sign_text neg @ ip @ (if fr = [] then [] else dp # tl fr) @ ex"

text \<open>What may not follow a number directly.\<close>

definition number_ends :: "string \<Rightarrow> bool" where
  "number_ends s \<longleftrightarrow> s = [] \<or> \<not> (is_digit (hd s) \<or> hd s = CHR ''.'' \<or> hd s = CHR ''e'' \<or> hd s = CHR ''E'')"

subsection \<open>The lexer on numbers\<close>

lemma digit_0_9_ic [simp]: "digit_0_9 (ic c) \<longleftrightarrow> is_digit c"
  by (simp add: digit_0_9_def is_digit_def)

lemma digit_0_9_eof [simp]: "\<not> digit_0_9 eof"
  by (simp add: digit_0_9_def)

text \<open>\<open>scanned cfg r nt l s b\<close>: the result \<open>r\<close> is what \<open>done\<close> gives at the text \<open>s\<close>, with \<open>b\<close> in
  the buffer.\<close>

definition scanned :: "lexer_config \<Rightarrow> token_type \<times> lexer \<Rightarrow> token_type \<Rightarrow> string \<Rightarrow> string \<Rightarrow> bool" where
  "scanned cfg r nt s b \<longleftrightarrow>
     (\<exists>l'. r = scan_number_done nt (get l') \<and> lexer_at cfg l' s \<and> token_buffer l' = b)"

lemma current_get_ends:
  assumes "lexer_at cfg l s" "number_ends s"
  shows "\<not> digit_0_9 (current (get l))" "current (get l) \<noteq> ic CHR ''.''"
    "current (get l) \<noteq> ic CHR ''e''" "current (get l) \<noteq> ic CHR ''E''"
  using assms by (cases s; auto simp: current_get number_ends_def char_eq_ic)+

lemma scan_number_any2_digits:
  assumes "lexer_at cfg l (ds @ s)" "list_all is_digit ds" "number_ends s"
  shows "scanned cfg (scan_number_any2 nt l) nt s (token_buffer l @ ds)"
  using assms
proof (induction ds arbitrary: l)
  case Nil
  then show ?case
    using current_get_ends [of cfg l s] unfolding scanned_def
    by (subst scan_number_any2.simps) (auto simp: Let_def)
next
  case (Cons d ds)
  then have "lexer_at cfg l (d # ds @ s)" by simp
  note g = get_Cons [OF this]
  have "scan_number_any2 nt l = scan_number_any2 nt (add (ic d) (get l))"
    using g Cons.prems by (subst scan_number_any2.simps) (simp add: Let_def)
  with Cons.IH [of "add (ic d) (get l)"] g Cons.prems show ?case by simp
qed

lemma scan_number_exponent_digits:
  assumes at: "lexer_at cfg l (tl ex @ s)" and ex: "exp_text ex" "ex \<noteq> []" and s: "number_ends s"
  shows "scanned cfg (scan_number_exponent l) tok_value_float s (token_buffer l @ tl ex)"
proof (cases "digits (tl ex)")
  case True
  then obtain d ds where d: "tl ex = d # ds" "is_digit d" "list_all is_digit ds"
    by (cases "tl ex") (auto simp: digits_def)
  with at have "lexer_at cfg l (d # ds @ s)" by simp
  note g = get_Cons [OF this]
  have "d \<noteq> CHR ''+'' \<and> d \<noteq> CHR ''-''" using d(2) by (auto simp: is_digit_def)
  then have "scan_number_exponent l = scan_number_any2 tok_value_float (add (ic d) (get l))"
    using g d by (simp add: scan_number_exponent_def Let_def char_eq_ic)
  with scan_number_any2_digits [of cfg "add (ic d) (get l)" ds s] g d s show ?thesis by simp
next
  case False
  with ex obtain c d ds where d: "tl ex = c # d # ds" "c = CHR ''+'' \<or> c = CHR ''-''" "is_digit d"
    "list_all is_digit ds"
    by (cases "tl ex"; cases "tl (tl ex)") (auto simp: exp_text_def digits_def)
  with at have "lexer_at cfg l (c # d # ds @ s)" by simp
  note g = get_Cons [OF this] note g2 = get_Cons [of cfg "add (ic c) (get l)" d "ds @ s"]
  have "scan_number_exponent l =
      scan_number_any2 tok_value_float (add (ic d) (get (add (ic c) (get l))))"
    using g g2 d by (auto simp: scan_number_exponent_def scan_number_sign_def Let_def)
  with scan_number_any2_digits [of cfg "add (ic d) (get (add (ic c) (get l)))" ds s] g g2 d s
  show ?thesis by simp
qed

lemma exp_text_hd: "exp_text ex \<Longrightarrow> ex \<noteq> [] \<Longrightarrow> hd ex = CHR ''e'' \<or> hd ex = CHR ''E''"
  by (auto simp: exp_text_def)

text \<open>Behind the digits: the end of the number or an exponent, which makes it a float.\<close>

lemma at_exponent:
  assumes at: "lexer_at cfg l (ex @ s)" and ex: "exp_text ex" "ex \<noteq> []"
  shows "current (get l) = ic (hd ex)" "lexer_at cfg (get l) (tl ex @ s)" "\<not> digit_0_9 (current (get l))"
    "current (get l) = ic CHR ''e'' \<or> current (get l) = ic CHR ''E''" "current (get l) \<noteq> ic CHR ''.''"
proof -
  have "lexer_at cfg l (hd ex # tl ex @ s)" using at ex(2) by (cases ex) simp_all
  note g = get_Cons [OF this]
  show "current (get l) = ic (hd ex)" "lexer_at cfg (get l) (tl ex @ s)" using g by simp_all
  show "\<not> digit_0_9 (current (get l))" "current (get l) = ic CHR ''e'' \<or> current (get l) = ic CHR ''E''"
    "current (get l) \<noteq> ic CHR ''.''"
    unfolding g(1) using exp_text_hd [OF ex] by (auto simp: is_digit_def)
qed

lemma scan_number_decimal2_digits:
  assumes "lexer_at cfg l (ds @ ex @ s)" "list_all is_digit ds" "exp_text ex" "number_ends s"
  shows "scanned cfg (scan_number_decimal2 tok_value_float l) tok_value_float s (token_buffer l @ ds @ ex)"
  using assms
proof (induction ds arbitrary: l)
  case Nil
  show ?case
  proof (cases "ex = []")
    case True
    then show ?thesis
      using Nil current_get_ends [of cfg l s] unfolding scanned_def
      by (subst scan_number_decimal2.simps) (auto simp: Let_def)
  next
    case False
    note e = at_exponent [of cfg l ex s]
    have "scan_number_decimal2 tok_value_float l = scan_number_exponent (add (ic (hd ex)) (get l))"
      using Nil False e by (subst scan_number_decimal2.simps) (auto simp: Let_def)
    with scan_number_exponent_digits [of cfg "add (ic (hd ex)) (get l)" ex s] Nil False e
    show ?thesis by simp
  qed
next
  case (Cons d ds)
  then have "lexer_at cfg l (d # ds @ ex @ s)" by simp
  note g = get_Cons [OF this]
  have "scan_number_decimal2 tok_value_float l = scan_number_decimal2 tok_value_float (add (ic d) (get l))"
    using g Cons.prems by (subst scan_number_decimal2.simps) (simp add: Let_def)
  with Cons.IH [of "add (ic d) (get l)"] g Cons.prems show ?case by simp
qed

definition number_type :: "token_type \<Rightarrow> string \<Rightarrow> string \<Rightarrow> token_type" where
  "number_type nt fr ex = (if fr = [] \<and> ex = [] then nt else tok_value_float)"

text \<open>What follows the integer part, common to \<open>zero\<close> and \<open>any1\<close>.\<close>

lemma scan_fraction:
  assumes at: "lexer_at cfg l (fr @ ex @ s)" and fr: "frac_text fr" and ex: "exp_text ex" and s: "number_ends s"
  shows "scanned cfg
     (let l1 = get l; c = current l1
      in if c = ic CHR ''.'' then scan_number_decimal1 (add (decimal_point_char l1) l1)
         else if c = ic CHR ''e'' \<or> c = ic CHR ''E'' then scan_number_exponent (add c l1)
         else scan_number_done nt l1)
     (number_type nt fr ex) s (token_buffer l @ (if fr = [] then [] else snd cfg # tl fr) @ ex)"
    and "\<not> digit_0_9 (current (get l))"
proof -
  consider (none) "fr = []" "ex = []" | (exp) "fr = []" "ex \<noteq> []" | (frac) "fr \<noteq> []" by blast
  then have "scanned cfg
     (let l1 = get l; c = current l1
      in if c = ic CHR ''.'' then scan_number_decimal1 (add (decimal_point_char l1) l1)
         else if c = ic CHR ''e'' \<or> c = ic CHR ''E'' then scan_number_exponent (add c l1)
         else scan_number_done nt l1)
     (number_type nt fr ex) s (token_buffer l @ (if fr = [] then [] else snd cfg # tl fr) @ ex) \<and>
     \<not> digit_0_9 (current (get l))"
  proof cases
    case none
    then show ?thesis
      using at s current_get_ends [of cfg l s] by (auto simp: scanned_def Let_def number_type_def)
  next
    case exp
    then have at': "lexer_at cfg l (ex @ s)" using at by simp
    note e = at_exponent [OF at' ex exp(2)]
    from scan_number_exponent_digits [of cfg "add (ic (hd ex)) (get l)" ex s] exp ex e s
    show ?thesis by (simp add: Let_def number_type_def)
  next
    case frac
    then obtain d ds where f: "fr = CHR ''.'' # d # ds" "is_digit d" "list_all is_digit ds"
      using fr by (cases fr; cases "tl fr") (auto simp: frac_text_def digits_def)
    then have at': "lexer_at cfg l (CHR ''.'' # d # ds @ ex @ s)" using at by simp
    note g = get_Cons [OF at']
    have dp: "decimal_point_char (get l) = ic (snd cfg)" using g(2) by (simp add: lexer_at_def)
    define l2 where "l2 = add (ic (snd cfg)) (get l)"
    have at2: "lexer_at cfg l2 (d # ds @ ex @ s)" using g by (simp add: l2_def)
    note g2 = get_Cons [OF at2]
    have "scan_number_decimal1 l2 = scan_number_decimal2 tok_value_float (add (ic d) (get l2))"
      using g2 f by (simp add: scan_number_decimal1_def Let_def)
    with scan_number_decimal2_digits [of cfg "add (ic d) (get l2)" ds ex s] g g2 f ex s dp
    show ?thesis by (simp add: Let_def number_type_def l2_def digit_0_9_def)
  qed
  then show "scanned cfg
     (let l1 = get l; c = current l1
      in if c = ic CHR ''.'' then scan_number_decimal1 (add (decimal_point_char l1) l1)
         else if c = ic CHR ''e'' \<or> c = ic CHR ''E'' then scan_number_exponent (add c l1)
         else scan_number_done nt l1)
     (number_type nt fr ex) s (token_buffer l @ (if fr = [] then [] else snd cfg # tl fr) @ ex)"
    and "\<not> digit_0_9 (current (get l))" by blast+
qed

lemma scan_number_any1_digits:
  assumes "lexer_at cfg l (ds @ fr @ ex @ s)" "list_all is_digit ds" "frac_text fr" "exp_text ex"
    "number_ends s"
  shows "scanned cfg (scan_number_any1 nt l) (number_type nt fr ex) s
    (token_buffer l @ ds @ (if fr = [] then [] else snd cfg # tl fr) @ ex)"
  using assms
proof (induction ds arbitrary: l)
  case Nil
  then show ?case
    using scan_fraction(1) [of cfg l fr ex s nt] scan_fraction(2) [of cfg l fr ex s]
    by (subst scan_number_any1.simps) (simp add: Let_def)
next
  case (Cons d ds)
  then have "lexer_at cfg l (d # ds @ fr @ ex @ s)" by simp
  note g = get_Cons [OF this]
  have "scan_number_any1 nt l = scan_number_any1 nt (add (ic d) (get l))"
    using g Cons.prems by (subst scan_number_any1.simps) (simp add: Let_def)
  with Cons.IH [of "add (ic d) (get l)"] g Cons.prems show ?case by simp
qed

lemma scan_number_zero_text:
  assumes "lexer_at cfg l (fr @ ex @ s)" "frac_text fr" "exp_text ex" "number_ends s"
  shows "scanned cfg (scan_number_zero nt l) (number_type nt fr ex) s
    (token_buffer l @ (if fr = [] then [] else snd cfg # tl fr) @ ex)"
  using scan_fraction(1) [OF assms, of nt] by (simp add: scan_number_zero_def Let_def)

lemma int_text_cases:
  assumes "int_text ip"
  obtains "ip = ''0''" | d ds where "ip = d # ds" "is_digit d" "d \<noteq> CHR ''0''" "list_all is_digit ds"
  using assms by (cases ip) (auto simp: int_text_def digits_def)

lemma digit_1_9_ic: "digit_1_9 (ic d) \<longleftrightarrow> is_digit d \<and> d \<noteq> CHR ''0''"
  by (auto simp: digit_1_9_def is_digit_def char_eq_ic)

text \<open>The two labels after the sign, common to \<open>init\<close> and \<open>minus\<close>; \<open>l\<close> has the first digit in
  \<open>current\<close>.\<close>

lemma scan_int:
  assumes at: "lexer_at cfg l (tl ip @ fr @ ex @ s)" and cur: "current l = ic (hd ip)" and ip: "int_text ip"
    and rest: "frac_text fr" "exp_text ex" "number_ends s"
  shows "scanned cfg
     (let c = current l
      in if c = ic CHR ''0'' then scan_number_zero nt (add c l)
         else if digit_1_9 c then scan_number_any1 nt (add c l) else r)
     (number_type nt fr ex) s (token_buffer l @ ip @ (if fr = [] then [] else snd cfg # tl fr) @ ex)"
  using ip
proof (cases rule: int_text_cases)
  case 1
  then show ?thesis
    using scan_number_zero_text [of cfg "add (ic CHR ''0'') l" fr ex s nt] at cur rest
    by (cases "fr = []") (simp_all add: Let_def to_char_type_def char_of_def)
next
  case (2 d ds)
  then have "ic d \<noteq> ic CHR ''0''" by (simp only: ic_inject not_False_eq_True)
  with 2 show ?thesis
    using scan_number_any1_digits [of cfg "add (ic d) l" ds fr ex s nt] at cur rest digit_1_9_ic [of d]
    by (simp add: Let_def)
qed

lemma scan_number_text:
  assumes at: "lexer_at cfg l (tl (sign_text neg @ ip) @ fr @ ex @ s)"
    and cur: "current l = ic (hd (sign_text neg @ ip))" and ip: "int_text ip"
    and rest: "frac_text fr" "exp_text ex" "number_ends s"
  shows "scanned cfg (scan_number l)
    (number_type (if neg then tok_value_integer else tok_value_unsigned) fr ex) s
    (number_buffer_text (snd cfg) neg ip fr ex)"
proof (cases neg)
  case True
  have ipne: "ip \<noteq> []" using ip by (auto simp: int_text_def digits_def)
  define l1 where "l1 = add (ic CHR ''-'') (reset l)"
  have "lexer_at cfg l1 (hd ip # tl ip @ fr @ ex @ s)" "token_buffer l1 = ''-''"
    using at True ipne
    by (cases ip; simp add: l1_def sign_text_def)
      (simp add: l1_def to_char_type_def char_of_def)
  note g = get_Cons [OF this(1)] and b = this(2)
  have "scan_number l = scan_number_minus l1"
    using cur True by (simp add: scan_number_def l1_def sign_text_def Let_def)
  with scan_int [OF g(2) g(1) ip rest, of tok_value_integer] b True show ?thesis
    by (simp add: scan_number_minus_def Let_def number_buffer_text_def sign_text_def split del: if_split)
next
  case False
  have ne: "hd ip \<noteq> CHR ''-''" using ip by (cases rule: int_text_cases) (auto simp: is_digit_def)
  from False at cur have "lexer_at cfg (reset l) (tl ip @ fr @ ex @ s)" "current (reset l) = ic (hd ip)"
    by (simp_all add: sign_text_def)
  note si = scan_int [OF this ip rest, of tok_value_unsigned "(tok_uninitialized, json_assert False (reset l))"]
  have "scan_number l =
      (let c = current (reset l)
       in if c = ic CHR ''0'' then scan_number_zero tok_value_unsigned (add c (reset l))
          else if digit_1_9 c then scan_number_any1 tok_value_unsigned (add c (reset l))
          else (tok_uninitialized, json_assert False (reset l)))"
    using ne False cur by (simp add: scan_number_def Let_def sign_text_def char_eq_ic)
  with si False show ?thesis
    by (simp add: number_buffer_text_def sign_text_def split del: if_split)
qed

section \<open>Texts\<close>

definition ws :: "string \<Rightarrow> bool" where "ws w \<longleftrightarrow> list_all is_ws w"

text \<open>The value of a number: an integer without sign that fits, a negative integer that fits, or a
  float.\<close>

definition number_value :: "char \<Rightarrow> bool \<Rightarrow> string \<Rightarrow> string \<Rightarrow> string \<Rightarrow> json" where
  "number_value dp neg ip fr ex =
     (let n = digits_value ip
      in if fr = [] \<and> ex = [] \<and> \<not> neg \<and> n < 2 ^ 64 then Jnumber_unsigned (of_nat n)
         else if fr = [] \<and> ex = [] \<and> neg \<and> n \<le> 2 ^ 63 then Jnumber_integer (- of_nat n)
         else Jnumber_float (fst (strtod dp (number_buffer_text dp neg ip fr ex))))"

inductive scalar_text :: "char \<Rightarrow> json \<Rightarrow> string \<Rightarrow> bool" for dp where
  null: "scalar_text dp Jnull ''null''"
| true: "scalar_text dp (Jboolean True) ''true''"
| false: "scalar_text dp (Jboolean False) ''false''"
| string: "string_text cps t \<Longrightarrow> scalar_text dp (Jstring (utf8_text cps)) (CHR 0x22 # t @ [CHR 0x22])"
| number: "int_text ip \<Longrightarrow> frac_text fr \<Longrightarrow> exp_text ex \<Longrightarrow> v = number_value dp neg ip fr ex \<Longrightarrow>
     (\<forall>x. v = Jnumber_float x \<longrightarrow> isfinite x) \<Longrightarrow> scalar_text dp v (sign_text neg @ ip @ fr @ ex)"

inductive json_text :: "char \<Rightarrow> json \<Rightarrow> string \<Rightarrow> bool"
  and elements_text :: "char \<Rightarrow> json list \<Rightarrow> string \<Rightarrow> bool"
  and members_text :: "char \<Rightarrow> (string \<times> json) list \<Rightarrow> string \<Rightarrow> bool" for dp
where
  scalar: "scalar_text dp v s \<Longrightarrow> json_text dp v s"
| empty_array: "ws w \<Longrightarrow> json_text dp (Jarray []) (CHR ''['' # w @ '']'')"
| array: "elements_text dp xs s \<Longrightarrow> json_text dp (Jarray xs) (CHR ''['' # s @ '']'')"
| empty_object: "ws w \<Longrightarrow> json_text dp (Jobject []) (CHR ''{'' # w @ ''}'')"
| object: "members_text dp m s \<Longrightarrow> json_text dp (Jobject m) (CHR ''{'' # s @ ''}'')"
| last_element: "ws w1 \<Longrightarrow> json_text dp v s \<Longrightarrow> ws w2 \<Longrightarrow> elements_text dp [v] (w1 @ s @ w2)"
| element: "ws w1 \<Longrightarrow> json_text dp v s \<Longrightarrow> ws w2 \<Longrightarrow> elements_text dp xs s' \<Longrightarrow>
     elements_text dp (v # xs) (w1 @ s @ w2 @ CHR '','' # s')"
| last_member: "ws w1 \<Longrightarrow> string_text cps k \<Longrightarrow> ws w2 \<Longrightarrow> ws w3 \<Longrightarrow> json_text dp v s \<Longrightarrow> ws w4 \<Longrightarrow>
     members_text dp [(utf8_text cps, v)]
       (w1 @ CHR 0x22 # k @ CHR 0x22 # w2 @ CHR '':'' # w3 @ s @ w4)"
| member: "ws w1 \<Longrightarrow> string_text cps k \<Longrightarrow> ws w2 \<Longrightarrow> ws w3 \<Longrightarrow> json_text dp v s \<Longrightarrow> ws w4 \<Longrightarrow>
     members_text dp m s' \<Longrightarrow>
     members_text dp ((utf8_text cps, v) # m)
       (w1 @ CHR 0x22 # k @ CHR 0x22 # w2 @ CHR '':'' # w3 @ s @ w4 @ CHR '','' # s')"

subsection \<open>Tokens\<close>

text \<open>The value the parser takes from a token.\<close>

fun token_json :: "token_type \<times> lexer \<Rightarrow> json option" where
  "token_json (tok_literal_null, l) = Some Jnull"
| "token_json (tok_literal_true, l) = Some (Jboolean True)"
| "token_json (tok_literal_false, l) = Some (Jboolean False)"
| "token_json (tok_value_string, l) = Some (Jstring (token_buffer l))"
| "token_json (tok_value_unsigned, l) = Some (Jnumber_unsigned (value_unsigned l))"
| "token_json (tok_value_integer, l) = Some (Jnumber_integer (value_integer l))"
| "token_json (tok_value_float, l) = (if isfinite (value_float l) then Some (Jnumber_float (value_float l)) else None)"
| "token_json _ = None"

lemma takeWhile_digits: "list_all is_digit ip \<Longrightarrow> takeWhile is_digit ip = ip"
  by (simp add: list_all_iff)

lemma lexer_at_values [simp]:
  "lexer_at cfg (l\<lparr>value_unsigned := u\<rparr>) s \<longleftrightarrow> lexer_at cfg l s"
  "lexer_at cfg (l\<lparr>value_integer := u\<rparr>) s \<longleftrightarrow> lexer_at cfg l s"
  "lexer_at cfg (l\<lparr>value_float := u\<rparr>) s \<longleftrightarrow> lexer_at cfg l s"
  by (simp_all add: lexer_at_def split: list.splits)

lemma number_as_float_eq:
  "number_as_float l =
     (let x = strtod (to_char_type (decimal_point_char l)) (token_buffer l)
      in (tok_value_float, json_assert (snd x = length (token_buffer l)) (l\<lparr>value_float := fst x\<rparr>)))"
  by (simp add: number_as_float_def split_beta Let_def)

lemma scan_number_done_value:
  assumes r: "scanned cfg r (number_type (if neg then tok_value_integer else tok_value_unsigned) fr ex) s
      (number_buffer_text (snd cfg) neg ip fr ex)"
    and ip: "int_text ip" and v: "v = number_value (snd cfg) neg ip fr ex"
    and fin: "\<forall>x. v = Jnumber_float x \<longrightarrow> isfinite x"
  shows "token_json r = Some v \<and> lexer_at cfg (snd r) s"
proof -
  let ?b = "number_buffer_text (snd cfg) neg ip fr ex"
  obtain l where l: "r = scan_number_done (number_type (if neg then tok_value_integer else tok_value_unsigned) fr ex) (get l)"
    "lexer_at cfg l s" "token_buffer l = ?b" using r by (auto simp: scanned_def)
  note u = unget_get [OF l(2)]
  have dp: "to_char_type (decimal_point_char (unget (get l))) = snd cfg"
    using u by (simp add: lexer_at_def)
  have tw: "list_all is_digit ip" "ip \<noteq> []" "hd ip \<noteq> CHR ''-''"
    using ip by (auto simp: int_text_def digits_def neq_Nil_conv is_digit_def)
  show ?thesis
  proof (cases "fr = [] \<and> ex = []")
    case True
    then show ?thesis
      using l u dp tw v fin
      by (cases neg)
        (auto simp: scan_number_done_def number_as_float_eq number_type_def number_value_def strtoull_def strtoll_def
          number_buffer_text_def sign_text_def takeWhile_digits Let_def)
  next
    case False
    then show ?thesis
      using l u dp v fin
      by (auto simp: scan_number_done_def number_as_float_eq number_type_def number_value_def Let_def)
  qed
qed

lemma scan_literal_loop_ok:
  "lexer_at cfg l (xs @ s) \<Longrightarrow> \<exists>l'. scan_literal_loop xs l = (True, l') \<and> lexer_at cfg l' s"
proof (induction xs arbitrary: l)
  case (Cons x xs)
  then have "lexer_at cfg l (x # xs @ s)" by simp
  from get_Cons [OF this] Cons.IH [of "get l"] show ?case by (simp add: Let_def)
qed simp

lemma scan_token_literal:
  assumes "current l = ic c" "lexer_at cfg l (xs @ s)"
  shows "c = CHR ''n'' \<Longrightarrow> xs = ''ull'' \<Longrightarrow> \<exists>l'. scan_token l = (tok_literal_null, l') \<and> lexer_at cfg l' s"
    and "c = CHR ''t'' \<Longrightarrow> xs = ''rue'' \<Longrightarrow> \<exists>l'. scan_token l = (tok_literal_true, l') \<and> lexer_at cfg l' s"
    and "c = CHR ''f'' \<Longrightarrow> xs = ''alse'' \<Longrightarrow> \<exists>l'. scan_token l = (tok_literal_false, l') \<and> lexer_at cfg l' s"
  using assms scan_literal_loop_ok [of cfg l xs s]
  by (auto simp: scan_token_def scan_literal_def Let_def to_char_type_def char_of_def
      simp del: scan_literal_loop.simps)

lemma scan_token_string:
  assumes "current l = ic CHR 0x22" "lexer_at cfg l (t @ CHR 0x22 # s)" "string_text cps t"
  shows "\<exists>l'. scan_token l = (tok_value_string, l') \<and> token_buffer l' = utf8_text cps \<and> lexer_at cfg l' s"
  using assms scan_string_text [of cfg "reset l" t s cps]
  by (auto simp: scan_token_def scan_string_def Let_def)

lemma scan_token_number:
  "current l = ic c \<Longrightarrow> c = CHR ''-'' \<or> is_digit c \<Longrightarrow> scan_token l = scan_number l"
  by (auto simp: scan_token_def is_digit_def digit_0_9_def Let_def)

text \<open>A string or another scalar behind white space.\<close>

lemma scan_string_key:
  assumes "lexer_at cfg l (w @ CHR 0x22 # t @ CHR 0x22 # s)" "ws w" "string_text cps t"
  shows "\<exists>l'. scan l = (tok_value_string, l') \<and> token_buffer l' = utf8_text cps \<and> lexer_at cfg l' s"
  using scan_at [OF assms(1)] assms(2,3) scan_token_string [of _ cfg t s cps]
  by (auto simp: ws_def is_ws_def)

lemma scan_scalar:
  assumes t: "scalar_text (snd cfg) v t" and at: "lexer_at cfg l (w @ t @ s)" and w: "ws w" and s: "number_ends s"
  shows "token_json (scan l) = Some v \<and> lexer_at cfg (snd (scan l)) s"
  using t
proof cases
  case null
  then show ?thesis
    using scan_at [of cfg l w "CHR ''n''" "''ull'' @ s"] at w scan_token_literal(1) [of _ "CHR ''n''" cfg "''ull''" s]
    by (fastforce simp: ws_def is_ws_def)
next
  case true
  then show ?thesis
    using scan_at [of cfg l w "CHR ''t''" "''rue'' @ s"] at w scan_token_literal(2) [of _ "CHR ''t''" cfg "''rue''" s]
    by (fastforce simp: ws_def is_ws_def)
next
  case false
  then show ?thesis
    using scan_at [of cfg l w "CHR ''f''" "''alse'' @ s"] at w scan_token_literal(3) [of _ "CHR ''f''" cfg "''alse''" s]
    by (fastforce simp: ws_def is_ws_def)
next
  case (string cps t')
  then show ?thesis using scan_string_key [of cfg l w t' s cps] at w by auto
next
  case (number ip fr ex neg)
  let ?c = "hd (sign_text neg @ ip)" and ?r = "tl (sign_text neg @ ip) @ fr @ ex @ s"
  have ne: "ip \<noteq> []" and c: "?c = CHR ''-'' \<or> is_digit ?c"
    using number(2) by (auto simp: int_text_def digits_def sign_text_def list_all_iff)
  have "lexer_at cfg l (w @ ?c # ?r)"
    using at number(1) ne by (cases ip) (auto simp: sign_text_def)
  moreover have "\<not> is_ws ?c \<and> ?c \<noteq> CHR ''/'' \<and> ?c \<noteq> CHR 0xEF" using c by (auto simp: is_ws_def is_digit_def)
  ultimately obtain l' where l': "scan l = scan_token l'" "current l' = ic ?c" "lexer_at cfg l' ?r"
    using scan_at [of cfg l w ?c ?r] w by (auto simp: ws_def)
  have "scanned cfg (scan l) (number_type (if neg then tok_value_integer else tok_value_unsigned) fr ex) s
      (number_buffer_text (snd cfg) neg ip fr ex)"
    using scan_number_text [OF l'(3,2) number(2-4) s] scan_token_number [OF l'(2) c] l'(1) by simp
  from scan_number_done_value [OF this number(2,5,6)] show ?thesis .
qed

text \<open>Punctuation.\<close>

lemma scan_punctuation:
  assumes "lexer_at cfg l (w @ c # s)" "ws w"
    and "(c, t) \<in> {(CHR ''['', tok_begin_array), (CHR '']'', tok_end_array), (CHR ''{'', tok_begin_object),
      (CHR ''}'', tok_end_object), (CHR '':'', tok_name_separator), (CHR '','', tok_value_separator)}"
  shows "\<exists>l'. scan l = (t, l') \<and> lexer_at cfg l' s"
  using scan_at [OF assms(1)] assms(2,3) by (auto simp: ws_def is_ws_def scan_token_def Let_def)

end
