(* ===== verification/Json_Asserts.thy ===== *)
theory Json_Asserts
  imports Json_Grammar
begin

text \<open>
  No \<^verbatim>\<open>JSON_ASSERT\<close> of the lexer fails: scanning a token leaves \<open>asserts_hold\<close> as it was, whatever the
  lexer's state and input. The three assertions behind the conversions of a number say that \<^verbatim>\<open>strtoull\<close>,
  \<^verbatim>\<open>strtoll\<close> and \<^verbatim>\<open>strtod\<close> consume the whole token buffer; for them the state machine of \<open>scan_number\<close> is
  followed label by label, with what the buffer holds there.
\<close>

section \<open>Single steps\<close>

lemma asserts_hold_simps [simp]:
  "asserts_hold (get l) = asserts_hold l" "asserts_hold (add c l) = asserts_hold l"
  "asserts_hold (lex_error m l) = asserts_hold l" "asserts_hold (reset l) = asserts_hold l"
  "asserts_hold (json_assert b l) \<longleftrightarrow> asserts_hold l \<and> b"
  by (auto simp: get_def add_def lex_error_def reset_def json_assert_def get_character_def Let_def
      split: list.splits)

text \<open>A character that was read can be put back.\<close>

lemma token_string_get: "current (get l) \<noteq> eof \<Longrightarrow> token_string (get l) \<noteq> []"
  by (auto simp: get_def get_character_def Let_def split: list.splits if_splits)

lemma asserts_unget_get [simp]: "asserts_hold (unget (get l)) = asserts_hold l"
  using token_string_get [of l] asserts_hold_simps(1) [of l]
  by (auto simp: unget_def json_assert_def Let_def simp del: asserts_hold_simps(1))

section \<open>Strings\<close>

lemma get_codepoint_loop_step:
  assumes "get_codepoint_loop (f # fs) cp l = (r, l')"
  obtains "r = - 1" "l' = get l"
    | d where "get_codepoint_loop fs (cp + d * 2 ^ f) (get l) = (r, l')" "0 \<le> d" "d \<le> 15"
proof -
  let ?c = "current (get l)"
  consider "48 \<le> ?c" "?c \<le> 57" | "65 \<le> ?c" "?c \<le> 70" | "97 \<le> ?c" "?c \<le> 102"
    | "\<not> (48 \<le> ?c \<and> ?c \<le> 57)" "\<not> (65 \<le> ?c \<and> ?c \<le> 70)" "\<not> (97 \<le> ?c \<and> ?c \<le> 102)" by blast
  then show thesis
  proof cases
    case 1
    with assms have "get_codepoint_loop fs (cp + (?c - 0x30) * 2 ^ f) (get l) = (r, l')"
      by (simp add: Let_def push_bit_eq_mult)
    with 1 show thesis by (intro that(2)) auto
  next
    case 2
    with assms have "get_codepoint_loop fs (cp + (?c - 0x37) * 2 ^ f) (get l) = (r, l')"
      by (simp add: Let_def push_bit_eq_mult)
    with 2 show thesis by (intro that(2)) auto
  next
    case 3
    with assms have "get_codepoint_loop fs (cp + (?c - 0x57) * 2 ^ f) (get l) = (r, l')"
      by (simp add: Let_def push_bit_eq_mult)
    with 3 show thesis by (intro that(2)) auto
  next
    case 4
    with assms show thesis by (intro that(1)) (auto simp: Let_def)
  qed
qed

lemma get_codepoint_loop_range:
  "get_codepoint_loop fs cp l = (r, l') \<Longrightarrow>
     asserts_hold l' = asserts_hold l \<and> (r = - 1 \<or> cp \<le> r \<and> r \<le> cp + (\<Sum>f\<leftarrow>fs. 15 * 2 ^ f))"
proof (induction fs arbitrary: cp l)
  case (Cons f fs)
  from Cons.prems show ?case
  proof (cases rule: get_codepoint_loop_step)
    case 1
    then show ?thesis by simp
  next
    case (2 d)
    have "d * 2 ^ f \<le> 15 * 2 ^ f" "0 \<le> d * 2 ^ f" using 2(2,3) by simp_all
    moreover from Cons.IH [OF 2(1)] have "asserts_hold l' = asserts_hold l"
      "r = - 1 \<or> cp + d * 2 ^ f \<le> r \<and> r \<le> cp + d * 2 ^ f + (\<Sum>f\<leftarrow>fs. 15 * 2 ^ f)" by simp_all
    ultimately show ?thesis by (simp only: list.map sum_list.Cons) linarith
  qed
qed simp

lemma asserts_get_codepoint:
  assumes "get_codepoint l = (r, l')" "current l = ic CHR ''u''"
  shows "asserts_hold l' = asserts_hold l \<and> (r = - 1 \<or> 0 \<le> r \<and> r \<le> 0xFFFF)"
  using assms
  by (auto simp: get_codepoint_def simp del: get_codepoint_loop.simps split: prod.splits if_splits
      dest!: get_codepoint_loop_range)

lemma asserts_add_codepoint:
  "0 \<le> cp \<Longrightarrow> cp \<le> 0x10FFFF \<Longrightarrow> asserts_hold (add_codepoint cp l) = asserts_hold l"
  by (simp add: add_codepoint_def Let_def)

lemma asserts_scan_unicode_escape:
  assumes "scan_unicode_escape l = (ok, l')" "current l = ic CHR ''u''"
  shows "asserts_hold l' = asserts_hold l"
proof -
  obtain cp1 l1 where 1: "get_codepoint l = (cp1, l1)" by (cases "get_codepoint l")
  obtain cp2 l4 where 2: "get_codepoint (get (get l1)) = (cp2, l4)" by (cases "get_codepoint (get (get l1))")
  have pair: "(push_bit 10 cp1 + cp2 - 0x35FDC00) mod 2 ^ 32 = push_bit 10 cp1 + cp2 - 0x35FDC00"
      "0 \<le> push_bit 10 cp1 + cp2 - 0x35FDC00" "push_bit 10 cp1 + cp2 - 0x35FDC00 \<le> 0x10FFFF"
    if "0xD800 \<le> cp1" "cp1 \<le> 0xDBFF" "0xDC00 \<le> cp2" "cp2 \<le> 0xDFFF"
    using that by (simp_all add: push_bit_eq_mult mod_pos_pos_trivial)
  note a1 = asserts_get_codepoint [OF 1 assms(2)] note a2 = asserts_get_codepoint [OF 2]
  from assms(1) 1 2 a1 a2 pair show ?thesis
    by (auto simp: scan_unicode_escape_def Let_def asserts_add_codepoint split: if_splits)
qed

lemma asserts_scan_escape: "scan_escape l = (ok, l') \<Longrightarrow> asserts_hold l' = asserts_hold l"
  by (auto simp: scan_escape_def Let_def split: if_splits dest!: asserts_scan_unicode_escape)

lemma asserts_next_byte_in_range:
  assumes "next_byte_in_range rs l = (ok, l')" "rs \<noteq> []" "length rs \<le> 3"
  shows "asserts_hold l' = asserts_hold l"
proof -
  have loop: "next_byte_in_range_loop rs l = (ok, l') \<Longrightarrow> asserts_hold l' = asserts_hold l" for rs l
    by (induction rs l rule: next_byte_in_range_loop.induct) (auto simp: Let_def split: if_splits)
  have "length rs = 1 \<or> length rs = 2 \<or> length rs = 3" using assms(2,3) by (cases "length rs") auto
  with assms(1) show ?thesis by (auto simp: next_byte_in_range_def Let_def dest!: loop)
qed

lemma utf8_ranges_length: "utf8_ranges c = Some rs \<Longrightarrow> rs \<noteq> [] \<and> length rs \<le> 3"
  by (auto simp: utf8_ranges_def split: if_splits)

lemma next_byte_in_range_utf8:
  assumes "utf8_ranges c = Some rs"
  shows "next_byte_in_range rs l = next_byte_in_range_loop rs (add (current l) l)"
proof -
  have "length rs = 1 \<or> length rs = 2 \<or> length rs = 3"
    using utf8_ranges_length [OF assms] by (cases "length rs") auto
  then show ?thesis by (auto simp: next_byte_in_range_def Let_def)
qed

lemma scan_string_loop_step:
  assumes "scan_string_loop l = (t, l')"
  obtains "asserts_hold l' = asserts_hold l"
    | l1 where "scan_string_loop l1 = (t, l')" "remaining l1 < remaining l" "asserts_hold l1 = asserts_hold l"
proof -
  consider "current (get l) = eof" | "current (get l) \<noteq> eof" by blast
  then show thesis
  proof cases
    case 1
    with assms that(1) show ?thesis by (subst (asm) scan_string_loop.simps) (auto simp: Let_def)
  next
    case 2
    then have less: "remaining l1 \<le> remaining (get l) \<Longrightarrow> remaining l1 < remaining l" for l1
      using remaining_get_less [of l] by simp
    obtain ok l1 where e: "scan_escape (get l) = (ok, l1)" by (cases "scan_escape (get l)")
    obtain ok2 l2 where n: "next_byte_in_range (the (utf8_ranges (current (get l)))) (get l) = (ok2, l2)"
      by (cases "next_byte_in_range (the (utf8_ranges (current (get l)))) (get l)")
    have n2: "asserts_hold l2 = asserts_hold l" if "utf8_ranges (current (get l)) = Some rs" for rs
      using asserts_next_byte_in_range [OF n] utf8_ranges_length [OF that] that by simp
    note that2 = that(2) [of l1] that(2) [of l2] that(2) [of "add (current (get l)) (get l)"]
    show ?thesis
      using assms that(1) that2 2 e n n2 asserts_scan_escape [OF e] less remaining_scan_escape [OF e]
        remaining_next_byte_in_range [OF n]
      by (subst (asm) scan_string_loop.simps) (auto simp: Let_def split: if_splits option.splits)
  qed
qed

lemma asserts_scan_string_loop: "scan_string_loop l = (t, l') \<Longrightarrow> asserts_hold l' = asserts_hold l"
proof (induction "remaining l" arbitrary: l rule: less_induct)
  case less
  from less.prems show ?case
    by (cases rule: scan_string_loop_step) (use less.hyps in auto)
qed

section \<open>The conversions consume the whole text of a number\<close>

lemma takeWhile_digits_append:
  "list_all is_digit ds \<Longrightarrow> takeWhile is_digit (ds @ xs) = ds @ takeWhile is_digit xs"
  "list_all is_digit ds \<Longrightarrow> dropWhile is_digit (ds @ xs) = dropWhile is_digit xs"
  by (induction ds) simp_all

lemma digits_all: "list_all is_digit ds \<Longrightarrow> takeWhile is_digit ds = ds \<and> dropWhile is_digit ds = []"
  using takeWhile_digits_append [of ds "[]"] by simp

lemma not_digit_exp: "exp_text ex \<Longrightarrow> takeWhile is_digit ex = [] \<and> dropWhile is_digit ex = ex"
  by (cases ex) (auto simp: exp_text_def is_digit_def)

lemma strtoull_consumes: "list_all is_digit ip \<Longrightarrow> snd (snd (strtoull ip)) = length ip"
  by (simp add: strtoull_def Let_def digits_all)

lemma strtoll_consumes:
  "list_all is_digit ip \<Longrightarrow> snd (snd (strtoll (CHR ''-'' # ip))) = length (CHR ''-'' # ip)"
  by (simp add: strtoll_def Let_def digits_all)

text \<open>The part of \<open>strtod\<close> behind the mantissa.\<close>

definition after_exponent :: "string \<Rightarrow> string" where
  "after_exponent t2 =
     (let hasexp = (t2 \<noteq> [] \<and> (hd t2 = CHR ''e'' \<or> hd t2 = CHR ''E''));
          x = (if hasexp then tl t2 else []);
          x' = (if x \<noteq> [] \<and> (hd x = CHR ''-'' \<or> hd x = CHR ''+'') then tl x else x)
      in if hasexp \<and> takeWhile is_digit x' \<noteq> [] then dropWhile is_digit x' else t2)"

lemma strtod_rest:
  "snd (strtod dp s) =
     (let neg = (s \<noteq> [] \<and> hd s = CHR ''-'');
          t = (if neg then tl s else s);
          t1 = dropWhile is_digit t;
          fp = (if decimal_point_at dp t1 then takeWhile is_digit (tl t1) else []);
          t2 = (if decimal_point_at dp t1 then dropWhile is_digit (tl t1) else t1)
      in if takeWhile is_digit t = [] \<and> fp = [] then 0 else length s - length (after_exponent t2))"
  unfolding strtod_def after_exponent_def Let_def by (simp only: if_distrib [of snd] snd_conv)

lemma sign_not_digit [simp]: "\<not> is_digit CHR ''+''" "\<not> is_digit CHR ''-''" "\<not> is_digit CHR ''e''" "\<not> is_digit CHR ''E''"
  by (simp_all add: is_digit_def)

lemma exp_text_unfold:
  assumes "exp_text ex" "ex \<noteq> []"
  obtains (plain) e ds where "ex = e # ds" "e = CHR ''e'' \<or> e = CHR ''E''" "digits ds"
    | (signed) e c ds where "ex = e # c # ds" "e = CHR ''e'' \<or> e = CHR ''E''" "c = CHR ''+'' \<or> c = CHR ''-''" "digits ds"
  using assms by (cases ex; cases "tl ex") (auto simp: exp_text_def)

lemma digits_hd: "digits ds \<Longrightarrow> hd ds \<noteq> CHR ''+'' \<and> hd ds \<noteq> CHR ''-''"
  by (cases ds) (auto simp: digits_def)

lemma after_exponent_exp:
  assumes "exp_text ex"
  shows "after_exponent ex = []"
proof (cases "ex = []")
  case True
  then show ?thesis by (simp add: after_exponent_def)
next
  case False
  from assms this show ?thesis
  proof (cases rule: exp_text_unfold)
    case (plain e ds)
    then show ?thesis using digits_hd [OF plain(3)] by (simp add: after_exponent_def Let_def digits_def digits_all)
  next
    case (signed e c ds)
    then show ?thesis by (auto simp: after_exponent_def Let_def digits_def digits_all list_all_iff)
  qed
qed

lemma exp_text_decimal:
  assumes "exp_text ex" "decimal_point_at dp ex"
  shows "dropWhile is_digit (tl ex) = []"
proof -
  have "ex \<noteq> []" using assms(2) by auto
  with assms(1) show ?thesis
  proof (cases rule: exp_text_unfold)
    case (plain e ds)
    then show ?thesis by (simp add: digits_def digits_all)
  next
    case (signed e c ds)
    then show ?thesis using assms(2) by (auto simp: decimal_point_at_def)
  qed
qed

lemma strtod_consumes:
  assumes ip: "digits ip" and fr: "frac_text fr" and ex: "exp_text ex"
  shows "snd (strtod dp (number_buffer_text dp neg ip fr ex)) = length (number_buffer_text dp neg ip fr ex)"
proof -
  let ?m = "if fr = [] then [] else dp # tl fr" let ?t = "ip @ ?m @ ex" let ?s = "sign_text neg @ ?t"
  have ip': "ip \<noteq> []" "list_all is_digit ip" "hd ip \<noteq> CHR ''-''"
    using ip by (auto simp: digits_def neq_Nil_conv is_digit_def)
  have t: "(if ?s \<noteq> [] \<and> hd ?s = CHR ''-'' then tl ?s else ?s) = ?t"
    using ip' by (simp add: sign_text_def)
  have ne: "takeWhile is_digit ?t \<noteq> []" using ip' by (simp add: takeWhile_digits_append)
  define t1 where "t1 = dropWhile is_digit ?t"
  have t1: "t1 = dropWhile is_digit (?m @ ex)" using ip' by (simp add: t1_def takeWhile_digits_append)
  have "after_exponent (if decimal_point_at dp t1 then dropWhile is_digit (tl t1) else t1) = []"
  proof (cases "fr = [] \<or> is_digit dp")
    case True
    then have "t1 = ex"
      using fr ex not_digit_exp [OF ex]
      by (auto simp: t1 frac_text_def digits_def takeWhile_digits_append)
    moreover have "dropWhile is_digit (tl ex) = []" if "decimal_point_at dp ex"
      using ex that by (rule exp_text_decimal)
    ultimately show ?thesis using after_exponent_exp [OF ex] by (auto simp: after_exponent_def)
  next
    case False
    then obtain d ds where f: "fr = CHR ''.'' # d # ds" "is_digit d" "list_all is_digit ds"
      using fr by (cases fr; cases "tl fr") (auto simp: frac_text_def digits_def)
    then have "t1 = dp # d # ds @ ex" using False by (simp add: t1)
    then show ?thesis
      using f not_digit_exp [OF ex] after_exponent_exp [OF ex]
      by (simp add: decimal_point_at_def takeWhile_digits_append)
  qed
  then show ?thesis
    unfolding number_buffer_text_def strtod_rest Let_def t t1_def [symmetric] by (simp add: ne)
qed

section \<open>The state machine of numbers\<close>

abbreviation point :: "lexer \<Rightarrow> char" where
  "point l \<equiv> to_char_type (decimal_point_char l)"

lemma decimal_point_char_simps [simp]:
  "decimal_point_char (get l) = decimal_point_char l" "decimal_point_char (add c l) = decimal_point_char l"
  "decimal_point_char (reset l) = decimal_point_char l" "decimal_point_char (unget l) = decimal_point_char l"
  by (auto simp: get_def add_def reset_def unget_def json_assert_def get_character_def Let_def split: list.splits)

text \<open>What the token buffer holds at a label: \<open>number_so_far l nt fr ex\<close> is an integer part, then \<open>fr\<close> and \<open>ex\<close>;
  as long as both are empty the number's type tells its sign.\<close>

definition number_so_far :: "lexer \<Rightarrow> token_type \<Rightarrow> string \<Rightarrow> string \<Rightarrow> bool" where
  "number_so_far l nt fr ex \<longleftrightarrow>
     (\<exists>neg ip. digits ip \<and> token_buffer l = number_buffer_text (point l) neg ip fr ex \<and>
        (fr = [] \<and> ex = [] \<and> nt = (if neg then tok_value_integer else tok_value_unsigned) \<or> nt = tok_value_float))"

lemma number_so_far_get [simp]: "number_so_far (get l) nt fr ex \<longleftrightarrow> number_so_far l nt fr ex"
  by (simp add: number_so_far_def)

lemma number_so_far_float: "number_so_far l nt fr ex \<Longrightarrow> number_so_far l tok_value_float fr ex"
  by (auto simp: number_so_far_def)

lemma number_so_farE:
  assumes "number_so_far l nt fr ex"
  obtains neg ip where "digits ip" "token_buffer l = number_buffer_text (point l) neg ip fr ex"
    "fr = [] \<and> ex = [] \<and> nt = (if neg then tok_value_integer else tok_value_unsigned) \<or> nt = tok_value_float"
  using assms by (auto simp: number_so_far_def)

lemma number_so_farI:
  "digits ip \<Longrightarrow> token_buffer l = number_buffer_text (point l) neg ip fr ex \<Longrightarrow> number_so_far l tok_value_float fr ex"
  by (auto simp: number_so_far_def)

lemma asserts_number_as_float:
  assumes "digits ip" "frac_text fr" "exp_text ex" "token_buffer l = number_buffer_text (point l) neg ip fr ex"
  shows "asserts_hold (snd (number_as_float l)) = asserts_hold l"
  using strtod_consumes [OF assms(1-3), of "point l" neg] assms(4) by (simp add: number_as_float_eq Let_def)

lemma asserts_scan_number_done:
  assumes "number_so_far l nt fr ex" "frac_text fr" "exp_text ex"
  shows "asserts_hold (snd (scan_number_done nt (get l))) = asserts_hold l"
proof -
  from assms(1) obtain neg ip where b: "digits ip" "token_buffer l = number_buffer_text (point l) neg ip fr ex"
    "fr = [] \<and> ex = [] \<and> nt = (if neg then tok_value_integer else tok_value_unsigned) \<or> nt = tok_value_float"
    by (rule number_so_farE)
  let ?l = "unget (get l)"
  have d: "list_all is_digit ip" using b(1) by (simp add: digits_def)
  have f: "asserts_hold (snd (number_as_float ?l)) = asserts_hold l"
    using asserts_number_as_float [OF b(1) assms(2,3), of ?l neg] b(2) by simp
  have n: "nt = tok_value_unsigned \<Longrightarrow> token_buffer ?l = ip"
    "nt = tok_value_integer \<Longrightarrow> token_buffer ?l = CHR ''-'' # ip"
    using b(2,3) by (auto simp: number_buffer_text_def sign_text_def split: if_splits)
  show ?thesis
    using f strtoull_consumes [OF d] strtoll_consumes [OF d] n
    by (auto simp: scan_number_done_def Let_def split_beta)
qed

text \<open>One more character in the buffer.\<close>

lemma digit_to_char: "digit_0_9 c \<Longrightarrow> is_digit (to_char_type c)"
  by (simp add: digit_0_9_def is_digit_def ic_to_char_type)

lemma exp_text_snoc: "exp_text ex \<Longrightarrow> ex \<noteq> [] \<Longrightarrow> is_digit d \<Longrightarrow> exp_text (ex @ [d])"
  by (erule exp_text_unfold, assumption) (auto simp: exp_text_def digits_def)

lemma frac_text_snoc: "frac_text fr \<Longrightarrow> fr \<noteq> [] \<Longrightarrow> is_digit d \<Longrightarrow> frac_text (fr @ [d])"
  by (cases fr) (auto simp: frac_text_def digits_def)

lemma number_so_far_exp:
  "number_so_far l nt fr ex \<Longrightarrow> number_so_far (add c l) tok_value_float fr (ex @ [to_char_type c])"
  by (erule number_so_farE, rule number_so_farI, assumption) (simp add: number_buffer_text_def)

lemma number_so_far_frac:
  "number_so_far l tok_value_float fr [] \<Longrightarrow> fr \<noteq> [] \<Longrightarrow>
     number_so_far (add c l) tok_value_float (fr @ [to_char_type c]) []"
  by (erule number_so_farE, rule number_so_farI, assumption) (simp add: number_buffer_text_def)

lemma number_so_far_point:
  "number_so_far l nt [] [] \<Longrightarrow> number_so_far (add (decimal_point_char l) l) tok_value_float ''.'' []"
  by (erule number_so_farE, rule number_so_farI, assumption) (simp add: number_buffer_text_def)

lemma number_so_far_int:
  assumes "number_so_far l nt [] []" "is_digit (to_char_type c)"
  shows "number_so_far (add c l) nt [] []"
proof -
  from assms(1) obtain neg ip where "digits ip" "token_buffer l = number_buffer_text (point l) neg ip [] []"
    "nt = (if neg then tok_value_integer else tok_value_unsigned) \<or> nt = tok_value_float" by (auto elim: number_so_farE)
  then show ?thesis
    using assms(2) unfolding number_so_far_def
    by (intro exI [of _ neg] exI [of _ "ip @ [to_char_type c]"]) (auto simp: number_buffer_text_def digits_def)
qed

lemma asserts_scan_number_any2:
  "number_so_far l tok_value_float fr ex \<Longrightarrow> frac_text fr \<Longrightarrow> exp_text ex \<Longrightarrow> ex \<noteq> [] \<Longrightarrow>
     asserts_hold (snd (scan_number_any2 tok_value_float l)) = asserts_hold l"
proof (induction "remaining l" arbitrary: l ex rule: less_induct)
  case less
  let ?c = "current (get l)"
  show ?case
  proof (cases "digit_0_9 ?c")
    case True
    note d = digit_to_char [OF True]
    have "remaining (add ?c (get l)) < remaining l"
      using remaining_get_less [of l] True by (auto simp: digit_0_9_def)
    from less.hyps [OF this _ less.prems(2) exp_text_snoc [OF less.prems(3,4) d]]
      number_so_far_exp [of "get l" tok_value_float fr ex ?c] less.prems(1) True
    show ?thesis by (subst scan_number_any2.simps) (simp add: Let_def)
  next
    case False
    then show ?thesis
      using asserts_scan_number_done [OF less.prems(1-3)] by (subst scan_number_any2.simps) (simp add: Let_def)
  qed
qed

lemma asserts_scan_number_exponent:
  assumes n: "number_so_far l tok_value_float fr [e]" and fr: "frac_text fr" and e: "e = CHR ''e'' \<or> e = CHR ''E''"
  shows "asserts_hold (snd (scan_number_exponent l)) = asserts_hold l"
proof -
  let ?c = "current (get l)" let ?l = "add ?c (get l)" let ?d = "current (get ?l)"
  have n1: "number_so_far ?l tok_value_float fr [e, to_char_type ?c]"
    using number_so_far_exp [of "get l" tok_value_float fr "[e]" ?c] n by simp
  have n2: "number_so_far (add ?d (get ?l)) tok_value_float fr [e, to_char_type ?c, to_char_type ?d]"
    using number_so_far_exp [of "get ?l" tok_value_float fr "[e, to_char_type ?c]" ?d] n1 by simp
  consider (sign) "?c = ic CHR ''+'' \<or> ?c = ic CHR ''-''" | (digit) "digit_0_9 ?c" "\<not> (?c = ic CHR ''+'' \<or> ?c = ic CHR ''-'')"
    | (other) "\<not> digit_0_9 ?c" "\<not> (?c = ic CHR ''+'' \<or> ?c = ic CHR ''-'')" by blast
  then show ?thesis
  proof cases
    case sign
    then have s: "to_char_type ?c = CHR ''+'' \<or> to_char_type ?c = CHR ''-''" by (metis to_char_type_ic)
    have "asserts_hold (snd (scan_number_sign tok_value_float ?l)) = asserts_hold l"
    proof (cases "digit_0_9 ?d")
      case True
      have "exp_text [e, to_char_type ?c, to_char_type ?d]"
        using e s digit_to_char [OF True] by (auto simp: exp_text_def digits_def)
      from asserts_scan_number_any2 [OF n2 fr this] True show ?thesis by (simp add: scan_number_sign_def Let_def)
    qed (simp add: scan_number_sign_def Let_def)
    with sign show ?thesis by (auto simp: scan_number_exponent_def Let_def)
  next
    case digit
    have "exp_text [e, to_char_type ?c]"
      using e digit_to_char [OF digit(1)] by (auto simp: exp_text_def digits_def)
    from asserts_scan_number_any2 [OF n1 fr this] digit show ?thesis by (simp add: scan_number_exponent_def Let_def)
  qed (simp add: scan_number_exponent_def Let_def)
qed

lemma asserts_scan_number_decimal2:
  "number_so_far l tok_value_float fr [] \<Longrightarrow> frac_text fr \<Longrightarrow> fr \<noteq> [] \<Longrightarrow>
     asserts_hold (snd (scan_number_decimal2 tok_value_float l)) = asserts_hold l"
proof (induction "remaining l" arbitrary: l fr rule: less_induct)
  case less
  let ?c = "current (get l)"
  consider (digit) "digit_0_9 ?c" | (exp) "\<not> digit_0_9 ?c" "?c = ic CHR ''e'' \<or> ?c = ic CHR ''E''"
    | (stop) "\<not> digit_0_9 ?c" "\<not> (?c = ic CHR ''e'' \<or> ?c = ic CHR ''E'')" by blast
  then show ?case
  proof cases
    case digit
    note d = digit_to_char [OF digit]
    have "remaining (add ?c (get l)) < remaining l"
      using remaining_get_less [of l] digit by (auto simp: digit_0_9_def)
    from less.hyps [OF this _ frac_text_snoc [OF less.prems(2,3) d]]
      number_so_far_frac [of "get l" fr ?c] less.prems(1,3) digit
    show ?thesis by (subst scan_number_decimal2.simps) (simp add: Let_def)
  next
    case exp
    then have "to_char_type ?c = CHR ''e'' \<or> to_char_type ?c = CHR ''E''" by (metis to_char_type_ic)
    from asserts_scan_number_exponent [OF _ less.prems(2) this, of "add ?c (get l)"]
      number_so_far_exp [of "get l" tok_value_float fr "[]" ?c] less.prems(1) exp
    show ?thesis by (subst scan_number_decimal2.simps) (simp add: Let_def)
  next
    case stop
    then show ?thesis
      using asserts_scan_number_done [OF less.prems(1,2)]
      by (subst scan_number_decimal2.simps) (simp add: Let_def exp_text_def)
  qed
qed

text \<open>What \<open>zero\<close> and \<open>any1\<close> do behind the integer part.\<close>

lemma asserts_scan_fraction:
  assumes "number_so_far l nt [] []"
  shows "current (get l) = ic CHR ''.'' \<Longrightarrow>
      asserts_hold (snd (scan_number_decimal1 (add (decimal_point_char l) (get l)))) = asserts_hold l"
    and "current (get l) = ic CHR ''e'' \<or> current (get l) = ic CHR ''E'' \<Longrightarrow>
      asserts_hold (snd (scan_number_exponent (add (current (get l)) (get l)))) = asserts_hold l"
    and "asserts_hold (snd (scan_number_done nt (get l))) = asserts_hold l"
proof -
  let ?c = "current (get l)"
  let ?l = "add (decimal_point_char l) (get l)" let ?d = "current (get ?l)"
  have p: "number_so_far ?l tok_value_float ''.'' []" using number_so_far_point [of "get l" nt] assms by simp
  have "number_so_far (add ?d (get ?l)) tok_value_float [CHR ''.'', to_char_type ?d] []"
    using number_so_far_frac [of "get ?l" "''.''" ?d] p by simp
  moreover have "frac_text [CHR ''.'', to_char_type ?d]" if "digit_0_9 ?d"
    using digit_to_char [OF that] by (simp add: frac_text_def digits_def)
  ultimately have "digit_0_9 ?d \<Longrightarrow>
      asserts_hold (snd (scan_number_decimal2 tok_value_float (add ?d (get ?l)))) = asserts_hold l"
    using asserts_scan_number_decimal2 [of "add ?d (get ?l)" "[CHR ''.'', to_char_type ?d]"] by simp
  then show "asserts_hold (snd (scan_number_decimal1 ?l)) = asserts_hold l"
    by (simp add: scan_number_decimal1_def Let_def)
  show "asserts_hold (snd (scan_number_exponent (add ?c (get l)))) = asserts_hold l"
    if "?c = ic CHR ''e'' \<or> ?c = ic CHR ''E''"
  proof -
    from that have "to_char_type ?c = CHR ''e'' \<or> to_char_type ?c = CHR ''E''" by (metis to_char_type_ic)
    from asserts_scan_number_exponent [OF _ _ this, of "add ?c (get l)" "[]"]
      number_so_far_exp [of "get l" nt "[]" "[]" ?c] assms
    show ?thesis by (simp add: frac_text_def)
  qed
  show "asserts_hold (snd (scan_number_done nt (get l))) = asserts_hold l"
    using asserts_scan_number_done [OF assms] by (simp add: frac_text_def exp_text_def)
qed

lemma asserts_scan_number_zero:
  "number_so_far l nt [] [] \<Longrightarrow> asserts_hold (snd (scan_number_zero nt l)) = asserts_hold l"
  using asserts_scan_fraction [of l nt] by (simp add: scan_number_zero_def Let_def)

lemma asserts_scan_number_any1:
  "number_so_far l nt [] [] \<Longrightarrow> asserts_hold (snd (scan_number_any1 nt l)) = asserts_hold l"
proof (induction "remaining l" arbitrary: l rule: less_induct)
  case less
  let ?c = "current (get l)"
  show ?case
  proof (cases "digit_0_9 ?c")
    case True
    have "remaining (add ?c (get l)) < remaining l"
      using remaining_get_less [of l] True by (auto simp: digit_0_9_def)
    from less.hyps [OF this] number_so_far_int [of "get l" nt ?c] digit_to_char [OF True] less.prems True
    show ?thesis by (subst scan_number_any1.simps) (simp add: Let_def)
  next
    case False
    then show ?thesis
      using asserts_scan_fraction [OF less.prems] by (subst scan_number_any1.simps) (simp add: Let_def)
  qed
qed

lemma asserts_scan_number:
  assumes "current l = ic CHR ''-'' \<or> digit_0_9 (current l)"
  shows "asserts_hold (snd (scan_number l)) = asserts_hold l"
proof -
  have first: "number_so_far (add c l') tok_value_unsigned [] []"
    if "token_buffer l' = []" "is_digit (to_char_type c)" for c l'
    using that unfolding number_so_far_def
    by (intro exI [of _ False] exI [of _ "[to_char_type c]"]) (simp add: number_buffer_text_def sign_text_def digits_def)
  have second: "number_so_far (add c l') tok_value_integer [] []"
    if "token_buffer l' = ''-''" "is_digit (to_char_type c)" for c l'
    using that unfolding number_so_far_def
    by (intro exI [of _ True] exI [of _ "[to_char_type c]"]) (simp add: number_buffer_text_def sign_text_def digits_def)
  have d: "digit_1_9 c \<or> c = ic CHR ''0'' \<longleftrightarrow> digit_0_9 c" for c
    by (auto simp: digit_0_9_def digit_1_9_def)
  let ?l = "add (ic CHR ''-'') (reset l)" let ?c = "current (get ?l)"
  have "asserts_hold (snd (scan_number_minus ?l)) = asserts_hold l"
    using asserts_scan_number_zero [OF second [of "get ?l" ?c]]
      asserts_scan_number_any1 [OF second [of "get ?l" ?c]] digit_to_char [of ?c] d [of ?c]
    by (auto simp: scan_number_minus_def Let_def to_char_type_def char_of_def)
  moreover have "asserts_hold (snd (scan_number_zero tok_value_unsigned (add (current l) (reset l)))) = asserts_hold l"
    "asserts_hold (snd (scan_number_any1 tok_value_unsigned (add (current l) (reset l)))) = asserts_hold l"
    if "digit_0_9 (current l)"
    using asserts_scan_number_zero [OF first [of "reset l" "current l"]]
      asserts_scan_number_any1 [OF first [of "reset l" "current l"]] digit_to_char [OF that] by simp_all
  ultimately show ?thesis
    using assms d [of "current l"] by (auto simp: scan_number_def Let_def)
qed

section \<open>A token\<close>

lemma asserts_scan_literal:
  assumes "to_char_type (current l) = hd s"
  shows "asserts_hold (snd (scan_literal s t l)) = asserts_hold l"
proof -
  have "scan_literal_loop xs l = (ok, l') \<Longrightarrow> asserts_hold l' = asserts_hold l" for xs ok l l'
    by (induction xs arbitrary: l) (auto simp: Let_def split: if_splits)
  with assms show ?thesis by (auto simp: scan_literal_def split: prod.splits)
qed

lemma asserts_scan_token: "asserts_hold (snd (scan_token l)) = asserts_hold l"
proof -
  let ?c = "current l"
  consider (literal) c where "?c = ic c" "c \<in> {CHR ''t'', CHR ''f'', CHR ''n''}"
    | (string) "?c = ic CHR 0x22" | (number) "?c = ic CHR ''-'' \<or> digit_0_9 ?c"
    | (other) "?c \<notin> {ic CHR ''t'', ic CHR ''f'', ic CHR ''n'', ic CHR 0x22, ic CHR ''-''}" "\<not> digit_0_9 ?c" by blast
  then show ?thesis
  proof cases
    case (literal c)
    then show ?thesis
      using asserts_scan_literal [of l]
      by (auto simp: scan_token_def Let_def to_char_type_def char_of_def)
  next
    case string
    obtain t l' where "scan_string_loop (reset l) = (t, l')" by (cases "scan_string_loop (reset l)")
    with asserts_scan_string_loop [OF this] string show ?thesis by (simp add: scan_token_def scan_string_def Let_def)
  next
    case number
    then have "scan_token l = scan_number l" by (auto simp: scan_token_def digit_0_9_def Let_def)
    then show ?thesis using asserts_scan_number [OF number] by simp
  next
    case other
    then show ?thesis by (auto simp: scan_token_def Let_def)
  qed
qed

lemma asserts_skip_whitespace [simp]: "asserts_hold (skip_whitespace l) = asserts_hold l"
proof (induction l rule: skip_whitespace.induct)
  case (1 l0)
  then show ?case by (subst skip_whitespace.simps) (simp add: Let_def)
qed

lemma asserts_scan_line_comment [simp]: "asserts_hold (scan_line_comment l) = asserts_hold l"
proof (induction l rule: scan_line_comment.induct)
  case (1 l0)
  then show ?case by (subst scan_line_comment.simps) (simp add: Let_def)
qed

lemma asserts_scan_block_comment [simp]: "asserts_hold (snd (scan_block_comment l)) = asserts_hold l"
proof (induction l rule: scan_block_comment.induct)
  case (1 l0)
  then show ?case by (subst scan_block_comment.simps) (simp add: Let_def)
qed

lemma asserts_scan_comments: "asserts_hold (snd (scan_comments l)) = asserts_hold l"
proof (induction l rule: scan_comments.induct)
  case (1 l)
  have "asserts_hold (snd (scan_comment l)) = asserts_hold l" by (simp add: scan_comment_def Let_def)
  with 1 show ?case
    by (cases "scan_comment l") (auto simp: scan_comments.simps [of l])
qed

lemma asserts_scan: "asserts_hold (snd (scan l)) = asserts_hold l"
proof -
  have "asserts_hold (snd (skip_bom l)) = asserts_hold l" by (simp add: skip_bom_def Let_def)
  then show ?thesis
    using asserts_scan_comments [of "skip_whitespace (snd (skip_bom l))"] asserts_scan_comments [of "skip_whitespace l"]
    by (auto simp: scan_def asserts_scan_token split_beta)
qed

end
