(* ===== verification/Json_Sax.thy ===== *)
theory Json_Sax
  imports Json_Value
begin

text \<open>
  The SAX interface between the parser and its consumers (\<^verbatim>\<open>json_sax\<close>), and two consumers of
  \<^verbatim>\<open>src/libwebrtc/json.hpp\<close>: \<^verbatim>\<open>json_sax_dom_parser\<close>, which builds a value, and
  \<^verbatim>\<open>json_sax_acceptor\<close>, which only accepts.

  A handler is a record of the interface's member functions; a call returns the boolean result and
  the changed consumer, or throws. The pointers of the DOM parser (\<^verbatim>\<open>ref_stack\<close> and
  \<^verbatim>\<open>object_element\<close>) are paths into the value under construction: \<open>Idx i\<close> is the \<open>i\<close>-th element
  of an array, \<open>Key k\<close> the value at key \<open>k\<close> of an object. The head of the list \<open>ref_stack\<close> is
  \<^verbatim>\<open>ref_stack.back()\<close>. Where the source asserts (or would dereference a pointer that is not
  there), the model returns \<open>Assertion_failure\<close>; the parser theory shows that this never happens.
\<close>

section \<open>The interface\<close>

record 's sax =
  sax_null :: "'s \<Rightarrow> json_exception + (bool \<times> 's)"
  sax_boolean :: "bool \<Rightarrow> 's \<Rightarrow> json_exception + (bool \<times> 's)"
  sax_number_integer :: "64 word \<Rightarrow> 's \<Rightarrow> json_exception + (bool \<times> 's)"
  sax_number_unsigned :: "64 word \<Rightarrow> 's \<Rightarrow> json_exception + (bool \<times> 's)"
  sax_number_float :: "64 word \<Rightarrow> string \<Rightarrow> 's \<Rightarrow> json_exception + (bool \<times> 's)"
  sax_string :: "string \<Rightarrow> 's \<Rightarrow> json_exception + (bool \<times> 's)"
  sax_binary :: "8 word list \<Rightarrow> 8 word option \<Rightarrow> 's \<Rightarrow> json_exception + (bool \<times> 's)"
  sax_start_object :: "nat \<Rightarrow> 's \<Rightarrow> json_exception + (bool \<times> 's)"
  sax_key :: "string \<Rightarrow> 's \<Rightarrow> json_exception + (bool \<times> 's)"
  sax_end_object :: "'s \<Rightarrow> json_exception + (bool \<times> 's)"
  sax_start_array :: "nat \<Rightarrow> 's \<Rightarrow> json_exception + (bool \<times> 's)"
  sax_end_array :: "'s \<Rightarrow> json_exception + (bool \<times> 's)"
  sax_parse_error :: "nat \<Rightarrow> string \<Rightarrow> json_exception \<Rightarrow> 's \<Rightarrow> json_exception + (bool \<times> 's)"

text \<open>\<^verbatim>\<open>std::size_t(-1)\<close>, the length of a container whose size is not known in advance.\<close>

definition unknown_size :: nat where "unknown_size = 2 ^ 64 - 1"

section \<open>Paths into a value\<close>

datatype path_step = Idx nat | Key string

type_synonym ptr = "path_step list"

definition json_child :: "path_step \<Rightarrow> json \<Rightarrow> json option" where
  "json_child s j =
     (case s of
        Idx i \<Rightarrow> (case j of Jarray xs \<Rightarrow> if i < length xs then Some (xs ! i) else None | _ \<Rightarrow> None)
      | Key k \<Rightarrow> (case j of Jobject m \<Rightarrow> map_find m k | _ \<Rightarrow> None))"

definition json_set_child :: "path_step \<Rightarrow> json \<Rightarrow> json \<Rightarrow> json" where
  "json_set_child s v j =
     (case s of
        Idx i \<Rightarrow> (case j of Jarray xs \<Rightarrow> Jarray (xs[i := v]) | _ \<Rightarrow> j)
      | Key k \<Rightarrow> (case j of Jobject m \<Rightarrow> Jobject (map_assign k v m) | _ \<Rightarrow> j))"

fun deref :: "ptr \<Rightarrow> json \<Rightarrow> json option" where
  "deref [] j = Some j"
| "deref (s # p) j = (case json_child s j of Some v \<Rightarrow> deref p v | None \<Rightarrow> None)"

fun assign_at :: "ptr \<Rightarrow> json \<Rightarrow> json \<Rightarrow> json" where
  "assign_at [] v j = v"
| "assign_at (s # p) v j =
     (case json_child s j of Some w \<Rightarrow> json_set_child s (assign_at p v w) j | None \<Rightarrow> j)"

section \<open>The DOM parser\<close>

record dom_parser =
  root :: json
  ref_stack :: "ptr list"
  object_element :: "ptr option"
  errored :: bool
  allow_exceptions :: bool

definition dom_init :: "json \<Rightarrow> bool \<Rightarrow> dom_parser" where
  "dom_init r allow =
     \<lparr>root = r, ref_stack = [], object_element = None, errored = False, allow_exceptions = allow\<rparr>"

definition handle_value :: "json \<Rightarrow> dom_parser \<Rightarrow> json_exception + (ptr \<times> dom_parser)" where
  "handle_value v d =
     (case ref_stack d of
        [] \<Rightarrow> Inr ([], d\<lparr>root := v\<rparr>)
      | back # _ \<Rightarrow>
          (case deref back (root d) of
             Some (Jarray xs) \<Rightarrow>
               Inr (back @ [Idx (length xs)],
                    d\<lparr>root := assign_at back (Jarray (xs @ [v])) (root d)\<rparr>)
           | Some (Jobject _) \<Rightarrow>
               (case object_element d of
                  Some p \<Rightarrow> Inr (p, d\<lparr>root := assign_at p v (root d)\<rparr>)
                | None \<Rightarrow> Inl Assertion_failure)
           | _ \<Rightarrow> Inl Assertion_failure))"

definition dom_value :: "json \<Rightarrow> dom_parser \<Rightarrow> json_exception + (bool \<times> dom_parser)" where
  "dom_value v d = try_bind (handle_value v d) (\<lambda>(_, d'). Inr (True, d'))"

definition dom_start_object ::
    "(json \<Rightarrow> nat) \<Rightarrow> nat \<Rightarrow> dom_parser \<Rightarrow> json_exception + (bool \<times> dom_parser)" where
  "dom_start_object max_size len d =
     try_bind (handle_value (Jobject []) d) (\<lambda>(p, d1).
       if len \<noteq> unknown_size \<and> len > max_size (Jobject [])
       then Inl (out_of_range_create 408 (''excessive object size: '' @ to_string len))
       else Inr (True, d1\<lparr>ref_stack := p # ref_stack d1\<rparr>))"

definition dom_key :: "string \<Rightarrow> dom_parser \<Rightarrow> json_exception + (bool \<times> dom_parser)" where
  "dom_key val d =
     (case ref_stack d of
        [] \<Rightarrow> Inl Assertion_failure
      | back # _ \<Rightarrow>
          (case deref back (root d) of
             Some (Jobject m) \<Rightarrow>
               Inr (True, d\<lparr>root := assign_at back (Jobject (map_emplace val Jnull m)) (root d),
                             object_element := Some (back @ [Key val])\<rparr>)
           | _ \<Rightarrow> Inl Assertion_failure))"

definition dom_end_object :: "dom_parser \<Rightarrow> json_exception + (bool \<times> dom_parser)" where
  "dom_end_object d =
     (case ref_stack d of
        [] \<Rightarrow> Inl Assertion_failure
      | _ # rest \<Rightarrow> Inr (True, d\<lparr>ref_stack := rest\<rparr>))"

definition dom_start_array ::
    "(json \<Rightarrow> nat) \<Rightarrow> nat \<Rightarrow> dom_parser \<Rightarrow> json_exception + (bool \<times> dom_parser)" where
  "dom_start_array max_size len d =
     try_bind (handle_value (Jarray []) d) (\<lambda>(p, d1).
       if len \<noteq> unknown_size \<and> len > max_size (Jarray [])
       then Inl (out_of_range_create 408 (''excessive array size: '' @ to_string len))
       else Inr (True, d1\<lparr>ref_stack := p # ref_stack d1\<rparr>))"

definition dom_end_array :: "dom_parser \<Rightarrow> json_exception + (bool \<times> dom_parser)" where
  "dom_end_array d =
     (case ref_stack d of
        [] \<Rightarrow> Inl Assertion_failure
      | _ # rest \<Rightarrow> Inr (True, d\<lparr>ref_stack := rest\<rparr>))"

definition dom_parse_error ::
    "nat \<Rightarrow> string \<Rightarrow> json_exception \<Rightarrow> dom_parser \<Rightarrow> json_exception + (bool \<times> dom_parser)" where
  "dom_parse_error pos last_token ex d =
     (if allow_exceptions d then Inl ex else Inr (False, d\<lparr>errored := True\<rparr>))"

definition json_sax_dom_parser :: "(json \<Rightarrow> nat) \<Rightarrow> dom_parser sax" where
  "json_sax_dom_parser max_size =
     \<lparr>sax_null = dom_value Jnull,
      sax_boolean = (\<lambda>b. dom_value (Jboolean b)),
      sax_number_integer = (\<lambda>n. dom_value (Jnumber_integer n)),
      sax_number_unsigned = (\<lambda>n. dom_value (Jnumber_unsigned n)),
      sax_number_float = (\<lambda>x _. dom_value (Jnumber_float x)),
      sax_string = (\<lambda>s. dom_value (Jstring s)),
      sax_binary = (\<lambda>bs t. dom_value (Jbinary bs t)),
      sax_start_object = dom_start_object max_size,
      sax_key = dom_key,
      sax_end_object = dom_end_object,
      sax_start_array = dom_start_array max_size,
      sax_end_array = dom_end_array,
      sax_parse_error = dom_parse_error\<rparr>"

section \<open>The acceptor\<close>

definition json_sax_acceptor :: "unit sax" where
  "json_sax_acceptor =
     \<lparr>sax_null = (\<lambda>s. Inr (True, s)),
      sax_boolean = (\<lambda>_ s. Inr (True, s)),
      sax_number_integer = (\<lambda>_ s. Inr (True, s)),
      sax_number_unsigned = (\<lambda>_ s. Inr (True, s)),
      sax_number_float = (\<lambda>_ _ s. Inr (True, s)),
      sax_string = (\<lambda>_ s. Inr (True, s)),
      sax_binary = (\<lambda>_ _ s. Inr (True, s)),
      sax_start_object = (\<lambda>_ s. Inr (True, s)),
      sax_key = (\<lambda>_ s. Inr (True, s)),
      sax_end_object = (\<lambda>s. Inr (True, s)),
      sax_start_array = (\<lambda>_ s. Inr (True, s)),
      sax_end_array = (\<lambda>s. Inr (True, s)),
      sax_parse_error = (\<lambda>_ _ _ s. Inr (False, s))\<rparr>"

end
