(* ===== verification/Json_Parser.thy ===== *)
theory Json_Parser
  imports Json_Asserts Json_Sax
begin

text \<open>
  The parser of the JSON library, class \<^verbatim>\<open>parser\<close> of \<^verbatim>\<open>src/libwebrtc/json.hpp\<close>, and the entry
  points \<^verbatim>\<open>basic_json::parse\<close> and \<^verbatim>\<open>basic_json::accept\<close>. The loop of \<^verbatim>\<open>sax_parse_internal\<close> is
  the function \<open>sax_parse_loop\<close>; one iteration consists of \<open>parse_value\<close> (the switch on the last
  token) and \<open>evaluate_state\<close> (what follows a complete value). The list \<open>states\<close> is the vector of
  that name with its back as the head (\<open>True\<close> for an array). The loop is defined by well-founded
  recursion on the input that is left, so it ends on every input and with every handler.

  An assertion of the lexer that fails while a token is scanned ends the program there: \<open>get_token\<close> then
  returns \<open>Assertion_failure\<close>, and so does everything that called it. The two assertions of the parser
  itself, that \<^verbatim>\<open>states\<close> is not empty before its back is removed, are in \<open>evaluate_array\<close> and
  \<open>evaluate_object\<close>. By the lemmas of \<open>Json_Asserts\<close> no assertion of the lexer fails, so \<open>get_token\<close> is \<open>next_token\<close> with \<open>Inr\<close>; the lemmas \<open>parse_begin_object_eq\<close> to
  \<open>json_accept_eq\<close> restate the definitions with \<open>next_token\<close>.
\<close>

section \<open>Errors\<close>

record parser =
  last_token :: token_type
  m_lexer :: lexer

definition get_token :: "parser \<Rightarrow> json_exception + parser" where
  "get_token p =
     (case scan (m_lexer p) of (t, l) \<Rightarrow>
        if asserts_hold (m_lexer p) \<and> \<not> asserts_hold l then Inl Assertion_failure
        else Inr (p\<lparr>last_token := t, m_lexer := l\<rparr>))"

definition parser_init :: "string \<Rightarrow> bool \<Rightarrow> char \<Rightarrow> json_exception + parser" where
  "parser_init input skip_comments decimal_point =
     get_token \<lparr>last_token = tok_uninitialized, m_lexer = lexer_init input skip_comments decimal_point\<rparr>"

text \<open>The two without the assertions.\<close>

definition next_token :: "parser \<Rightarrow> parser" where
  "next_token p = (case scan (m_lexer p) of (t, l) \<Rightarrow> p\<lparr>last_token := t, m_lexer := l\<rparr>)"

definition parser_start :: "string \<Rightarrow> bool \<Rightarrow> char \<Rightarrow> parser" where
  "parser_start input skip_comments decimal_point =
     next_token \<lparr>last_token = tok_uninitialized, m_lexer = lexer_init input skip_comments decimal_point\<rparr>"

lemma get_token_next [simp]: "get_token p = Inr (next_token p)"
  using asserts_scan [of "m_lexer p"] by (cases "scan (m_lexer p)") (auto simp: get_token_def next_token_def)

lemma parser_init_eq [simp]: "parser_init input skip dp = Inr (parser_start input skip dp)"
  by (simp add: parser_init_def parser_start_def)

definition position_string :: "position_t \<Rightarrow> string" where
  "position_string pos =
     '' at line '' @ to_string (lines_read pos + 1) @
     '', column '' @ to_string (chars_read_current_line pos)"

definition parse_error_create :: "nat \<Rightarrow> position_t \<Rightarrow> string \<Rightarrow> json_exception" where
  "parse_error_create ident pos what_arg =
     Parse_error ident (chars_read_total pos)
       (c_str (exception_name ''parse_error'' ident @ ''parse error'' @ position_string pos @ '': '' @
               what_arg))"

definition exception_message :: "token_type \<Rightarrow> string \<Rightarrow> parser \<Rightarrow> string" where
  "exception_message expected ctxt p =
     ''syntax error '' @
     (if ctxt \<noteq> [] then ''while parsing '' @ ctxt @ '' '' else []) @
     ''- '' @
     (if last_token p = tok_parse_error
      then error_message (m_lexer p) @ ''; last read: '' @ [CHR 0x27] @
           get_token_string (m_lexer p) @ [CHR 0x27]
      else ''unexpected '' @ token_type_name (last_token p)) @
     (if expected \<noteq> tok_uninitialized then ''; expected '' @ token_type_name expected else [])"

text \<open>\<^verbatim>\<open>return sax->parse_error(...)\<close> with \<^verbatim>\<open>parse_error\<close> number 101, as all syntax errors are.\<close>

definition syntax_error ::
    "'s sax \<Rightarrow> token_type \<Rightarrow> string \<Rightarrow> parser \<Rightarrow> 's \<Rightarrow> json_exception + (bool \<times> 's)" where
  "syntax_error sax expected ctxt p s =
     sax_parse_error sax (chars_read_total (position (m_lexer p))) (get_token_string (m_lexer p))
       (parse_error_create 101 (position (m_lexer p)) (exception_message expected ctxt p)) s"

section \<open>One iteration\<close>

datatype outcome = Returned bool | Continue | Evaluate | Skip_to_evaluation

text \<open>A handler call whose result \<open>False\<close> ends the parser; otherwise go on with \<open>f\<close>.\<close>

definition sax_call ::
    "(json_exception + (bool \<times> 's)) \<Rightarrow> parser \<Rightarrow> bool list \<Rightarrow>
     ('s \<Rightarrow> json_exception + (outcome \<times> parser \<times> bool list \<times> 's)) \<Rightarrow>
     json_exception + (outcome \<times> parser \<times> bool list \<times> 's)" where
  "sax_call r p states f =
     try_bind r (\<lambda>(ok, s). if \<not> ok then Inr (Returned False, p, states, s) else f s)"

definition sax_fail ::
    "(json_exception + (bool \<times> 's)) \<Rightarrow> parser \<Rightarrow> bool list \<Rightarrow>
     json_exception + (outcome \<times> parser \<times> bool list \<times> 's)" where
  "sax_fail r p states = try_bind r (\<lambda>(b, s). Inr (Returned b, p, states, s))"

definition parse_begin_object ::
    "'s sax \<Rightarrow> parser \<Rightarrow> bool list \<Rightarrow> 's \<Rightarrow> json_exception + (outcome \<times> parser \<times> bool list \<times> 's)" where
  "parse_begin_object sax p states s =
     sax_call (sax_start_object sax unknown_size s) p states (\<lambda>s1.
       try_bind (get_token p) (\<lambda>p1.
       if last_token p1 = tok_end_object
       then sax_call (sax_end_object sax s1) p1 states (\<lambda>s2. Inr (Evaluate, p1, states, s2))
       else if last_token p1 \<noteq> tok_value_string
       then sax_fail (syntax_error sax tok_value_string ''object key'' p1 s1) p1 states
       else sax_call (sax_key sax (token_buffer (m_lexer p1)) s1) p1 states (\<lambda>s2.
         try_bind (get_token p1) (\<lambda>p2.
         if last_token p2 \<noteq> tok_name_separator
         then sax_fail (syntax_error sax tok_name_separator ''object separator'' p2 s2) p2 states
         else try_bind (get_token p2) (\<lambda>p3. Inr (Continue, p3, False # states, s2))))))"

lemma parse_begin_object_eq:
  "parse_begin_object sax p states s =
     sax_call (sax_start_object sax unknown_size s) p states (\<lambda>s1.
       let p1 = next_token p in
       if last_token p1 = tok_end_object
       then sax_call (sax_end_object sax s1) p1 states (\<lambda>s2. Inr (Evaluate, p1, states, s2))
       else if last_token p1 \<noteq> tok_value_string
       then sax_fail (syntax_error sax tok_value_string ''object key'' p1 s1) p1 states
       else sax_call (sax_key sax (token_buffer (m_lexer p1)) s1) p1 states (\<lambda>s2.
         let p2 = next_token p1 in
         if last_token p2 \<noteq> tok_name_separator
         then sax_fail (syntax_error sax tok_name_separator ''object separator'' p2 s2) p2 states
         else Inr (Continue, next_token p2, False # states, s2)))"
  by (simp add: parse_begin_object_def Let_def cong: if_cong)

definition parse_begin_array ::
    "'s sax \<Rightarrow> parser \<Rightarrow> bool list \<Rightarrow> 's \<Rightarrow> json_exception + (outcome \<times> parser \<times> bool list \<times> 's)" where
  "parse_begin_array sax p states s =
     sax_call (sax_start_array sax unknown_size s) p states (\<lambda>s1.
       try_bind (get_token p) (\<lambda>p1.
       if last_token p1 = tok_end_array
       then sax_call (sax_end_array sax s1) p1 states (\<lambda>s2. Inr (Evaluate, p1, states, s2))
       else Inr (Continue, p1, True # states, s1)))"

lemma parse_begin_array_eq:
  "parse_begin_array sax p states s =
     sax_call (sax_start_array sax unknown_size s) p states (\<lambda>s1.
       let p1 = next_token p in
       if last_token p1 = tok_end_array
       then sax_call (sax_end_array sax s1) p1 states (\<lambda>s2. Inr (Evaluate, p1, states, s2))
       else Inr (Continue, p1, True # states, s1))"
  by (simp add: parse_begin_array_def Let_def cong: if_cong)

definition parse_value ::
    "'s sax \<Rightarrow> parser \<Rightarrow> bool list \<Rightarrow> 's \<Rightarrow> json_exception + (outcome \<times> parser \<times> bool list \<times> 's)" where
  "parse_value sax p states s =
     (let l = m_lexer p; done = (\<lambda>r. sax_call r p states (\<lambda>s1. Inr (Evaluate, p, states, s1)))
      in case last_token p of
           tok_begin_object \<Rightarrow> parse_begin_object sax p states s
         | tok_begin_array \<Rightarrow> parse_begin_array sax p states s
         | tok_value_float \<Rightarrow>
             (if \<not> isfinite (value_float l)
              then sax_fail (sax_parse_error sax (chars_read_total (position l)) (get_token_string l)
                     (out_of_range_create 406
                        (''number overflow parsing '' @ [CHR 0x27] @ get_token_string l @ [CHR 0x27])) s)
                     p states
              else done (sax_number_float sax (value_float l) (token_buffer l) s))
         | tok_literal_false \<Rightarrow> done (sax_boolean sax False s)
         | tok_literal_null \<Rightarrow> done (sax_null sax s)
         | tok_literal_true \<Rightarrow> done (sax_boolean sax True s)
         | tok_value_integer \<Rightarrow> done (sax_number_integer sax (value_integer l) s)
         | tok_value_string \<Rightarrow> done (sax_string sax (token_buffer l) s)
         | tok_value_unsigned \<Rightarrow> done (sax_number_unsigned sax (value_unsigned l) s)
         | tok_parse_error \<Rightarrow>
             sax_fail (syntax_error sax tok_uninitialized ''value'' p s) p states
         | _ \<Rightarrow> sax_fail (syntax_error sax tok_literal_or_value ''value'' p s) p states)"

definition evaluate_array ::
    "'s sax \<Rightarrow> parser \<Rightarrow> bool list \<Rightarrow> 's \<Rightarrow> json_exception + (outcome \<times> parser \<times> bool list \<times> 's)" where
  "evaluate_array sax p states s =
     try_bind (get_token p) (\<lambda>p1.
      if last_token p1 = tok_value_separator
      then try_bind (get_token p1) (\<lambda>p2. Inr (Continue, p2, states, s))
      else if last_token p1 = tok_end_array
      then sax_call (sax_end_array sax s) p1 states (\<lambda>s1.
        if states = [] then Inl Assertion_failure else Inr (Skip_to_evaluation, p1, tl states, s1))
      else sax_fail (syntax_error sax tok_end_array ''array'' p1 s) p1 states)"

lemma evaluate_array_eq:
  "states \<noteq> [] \<Longrightarrow> evaluate_array sax p states s =
     (let p1 = next_token p in
      if last_token p1 = tok_value_separator then Inr (Continue, next_token p1, states, s)
      else if last_token p1 = tok_end_array
      then sax_call (sax_end_array sax s) p1 states (\<lambda>s1. Inr (Skip_to_evaluation, p1, tl states, s1))
      else sax_fail (syntax_error sax tok_end_array ''array'' p1 s) p1 states)"
  by (simp add: evaluate_array_def Let_def cong: if_cong)

definition evaluate_object ::
    "'s sax \<Rightarrow> parser \<Rightarrow> bool list \<Rightarrow> 's \<Rightarrow> json_exception + (outcome \<times> parser \<times> bool list \<times> 's)" where
  "evaluate_object sax p states s =
     try_bind (get_token p) (\<lambda>p1.
      if last_token p1 = tok_value_separator then
        try_bind (get_token p1) (\<lambda>p2.
         if last_token p2 \<noteq> tok_value_string
         then sax_fail (syntax_error sax tok_value_string ''object key'' p2 s) p2 states
         else sax_call (sax_key sax (token_buffer (m_lexer p2)) s) p2 states (\<lambda>s1.
           try_bind (get_token p2) (\<lambda>p3.
           if last_token p3 \<noteq> tok_name_separator
           then sax_fail (syntax_error sax tok_name_separator ''object separator'' p3 s1) p3 states
           else try_bind (get_token p3) (\<lambda>p4. Inr (Continue, p4, states, s1)))))
      else if last_token p1 = tok_end_object
      then sax_call (sax_end_object sax s) p1 states (\<lambda>s1.
        if states = [] then Inl Assertion_failure else Inr (Skip_to_evaluation, p1, tl states, s1))
      else sax_fail (syntax_error sax tok_end_object ''object'' p1 s) p1 states)"

lemma evaluate_object_eq:
  "states \<noteq> [] \<Longrightarrow> evaluate_object sax p states s =
     (let p1 = next_token p in
      if last_token p1 = tok_value_separator then
        (let p2 = next_token p1 in
         if last_token p2 \<noteq> tok_value_string
         then sax_fail (syntax_error sax tok_value_string ''object key'' p2 s) p2 states
         else sax_call (sax_key sax (token_buffer (m_lexer p2)) s) p2 states (\<lambda>s1.
           let p3 = next_token p2 in
           if last_token p3 \<noteq> tok_name_separator
           then sax_fail (syntax_error sax tok_name_separator ''object separator'' p3 s1) p3 states
           else Inr (Continue, next_token p3, states, s1)))
      else if last_token p1 = tok_end_object
      then sax_call (sax_end_object sax s) p1 states (\<lambda>s1. Inr (Skip_to_evaluation, p1, tl states, s1))
      else sax_fail (syntax_error sax tok_end_object ''object'' p1 s) p1 states)"
  by (simp add: evaluate_object_def Let_def cong: if_cong)

definition evaluate_state ::
    "'s sax \<Rightarrow> parser \<Rightarrow> bool list \<Rightarrow> 's \<Rightarrow> json_exception + (outcome \<times> parser \<times> bool list \<times> 's)" where
  "evaluate_state sax p states s =
     (case states of
        [] \<Rightarrow> Inr (Returned True, p, states, s)
      | True # _ \<Rightarrow> evaluate_array sax p states s
      | False # _ \<Rightarrow> evaluate_object sax p states s)"

text \<open>What one iteration leaves of the input.\<close>

definition left :: "parser \<Rightarrow> nat" where
  "left p = remaining (m_lexer p)"

definition loop_measure :: "bool \<Rightarrow> parser \<Rightarrow> nat" where
  "loop_measure skip p = left p + (if skip \<or> \<not> stopping (last_token p) then 1 else 0)"

lemma left_less_loop_measure: "left p < loop_measure True p"
  by (simp add: loop_measure_def)

lemma left_next_token_le: "left (next_token p) \<le> left p"
  using scan_remaining_le [of "m_lexer p"]
  by (auto simp: left_def next_token_def split: prod.splits)

lemma left_next_token_less: "\<not> stopping (last_token (next_token p)) \<Longrightarrow> left (next_token p) < left p"
  using scan_remaining_less [of "m_lexer p"]
  by (auto simp: left_def next_token_def split: prod.splits)

lemma loop_measure_next_token: "loop_measure skip (next_token p) \<le> left p + (if skip then 1 else 0)"
  using left_next_token_le [of p] left_next_token_less [of p]
  by (auto simp: loop_measure_def Suc_leI)

lemmas left_next_tokens = left_next_token_le left_next_token_less loop_measure_next_token

lemma parse_begin_object_left:
  assumes "parse_begin_object sax p states s = Inr (out, p', states', s')"
  shows "out = Continue \<Longrightarrow> loop_measure False p' < Suc (left p)"
    and "out = Evaluate \<Longrightarrow> left p' \<le> left p"
    and "out \<noteq> Skip_to_evaluation"
  using assms left_next_token_le [of p] left_next_token_less [of "next_token p"]
    left_next_token_le [of "next_token p"]
    loop_measure_next_token [of False "next_token (next_token p)"]
  by (auto simp: parse_begin_object_eq sax_call_def sax_fail_def Let_def stopping_def throw_simps
      split: if_splits)

lemma parse_begin_array_left:
  assumes "parse_begin_array sax p states s = Inr (out, p', states', s')"
  shows "out = Continue \<Longrightarrow> loop_measure False p' < Suc (left p)"
    and "out = Evaluate \<Longrightarrow> left p' \<le> left p"
    and "out \<noteq> Skip_to_evaluation"
  using assms left_next_token_le [of p] loop_measure_next_token [of False p]
  by (auto simp: parse_begin_array_eq sax_call_def sax_fail_def Let_def throw_simps
      split: if_splits)

lemma parse_value_left:
  assumes "parse_value sax p states s = Inr (out, p', states', s')"
  shows "out = Continue \<Longrightarrow> loop_measure False p' < loop_measure False p"
    and "out = Evaluate \<Longrightarrow> left p' < loop_measure False p"
    and "out \<noteq> Skip_to_evaluation"
  using assms
  by (cases "last_token p";
      auto simp: parse_value_def Let_def sax_call_def sax_fail_def throw_simps loop_measure_def
        stopping_def split: if_splits dest: parse_begin_object_left parse_begin_array_left)+

lemma evaluate_array_left:
  assumes "evaluate_array sax p states s = Inr (out, p', states', s')"
  shows "out = Continue \<Longrightarrow> loop_measure False p' \<le> left p"
    and "out = Skip_to_evaluation \<Longrightarrow> loop_measure True p' \<le> left p"
    and "out \<noteq> Evaluate"
  using assms left_next_token_less [of p] loop_measure_next_token [of False "next_token p"]
  by (auto simp: evaluate_array_def sax_call_def sax_fail_def Let_def throw_simps stopping_def
      loop_measure_def split: if_splits)

lemma evaluate_object_left:
  assumes "evaluate_object sax p states s = Inr (out, p', states', s')"
  shows "out = Continue \<Longrightarrow> loop_measure False p' \<le> left p"
    and "out = Skip_to_evaluation \<Longrightarrow> loop_measure True p' \<le> left p"
    and "out \<noteq> Evaluate"
  using assms left_next_token_less [of p] left_next_token_le [of "next_token p"]
    left_next_token_le [of "next_token (next_token p)"]
    loop_measure_next_token [of False "next_token (next_token (next_token p))"]
  by (auto simp: evaluate_object_def sax_call_def sax_fail_def Let_def throw_simps stopping_def
      loop_measure_def split: if_splits)

lemma evaluate_state_left:
  assumes "evaluate_state sax p states s = Inr (out, p', states', s')"
  shows "out = Continue \<Longrightarrow> loop_measure False p' \<le> left p"
    and "out = Skip_to_evaluation \<Longrightarrow> loop_measure True p' \<le> left p"
    and "out \<noteq> Evaluate"
  using assms evaluate_array_left [of sax p states s out p' states' s']
    evaluate_object_left [of sax p states s out p' states' s']
  by (auto simp: evaluate_state_def split: list.splits bool.splits)

text \<open>The loop of \<^verbatim>\<open>sax_parse_internal\<close>.\<close>

function sax_parse_loop ::
    "'s sax \<Rightarrow> bool \<Rightarrow> parser \<Rightarrow> bool list \<Rightarrow> 's \<Rightarrow> json_exception + (bool \<times> parser \<times> 's)" where
  "sax_parse_loop sax skip p states s =
     (case (if skip then Inr (Evaluate, p, states, s) else parse_value sax p states s) of
        Inl e \<Rightarrow> Inl e
      | Inr (Returned b, p1, states1, s1) \<Rightarrow> Inr (b, p1, s1)
      | Inr (Evaluate, p1, states1, s1) \<Rightarrow>
          (case evaluate_state sax p1 states1 s1 of
             Inl e \<Rightarrow> Inl e
           | Inr (Returned b, p2, states2, s2) \<Rightarrow> Inr (b, p2, s2)
           | Inr (Skip_to_evaluation, p2, states2, s2) \<Rightarrow> sax_parse_loop sax True p2 states2 s2
           | Inr (_, p2, states2, s2) \<Rightarrow> sax_parse_loop sax False p2 states2 s2)
      | Inr (_, p1, states1, s1) \<Rightarrow> sax_parse_loop sax False p1 states1 s1)"
  by pat_completeness auto
termination
  by (relation "measure (\<lambda>(sax, skip, p, states, s). loop_measure skip p)")
     (auto split: if_splits simp: left_less_loop_measure dest: parse_value_left evaluate_state_left
        intro: order_le_less_trans [OF evaluate_state_left(1) [OF _ refl]]
          order_le_less_trans [OF evaluate_state_left(2) [OF _ refl]])

declare sax_parse_loop.simps [simp del]

definition sax_parse_internal :: "'s sax \<Rightarrow> parser \<Rightarrow> 's \<Rightarrow> json_exception + (bool \<times> parser \<times> 's)" where
  "sax_parse_internal sax p s = sax_parse_loop sax False p [] s"

section \<open>Entry points\<close>

text \<open>\<^verbatim>\<open>sax_parse\<close> of the parser.\<close>

definition sax_parse :: "'s sax \<Rightarrow> bool \<Rightarrow> parser \<Rightarrow> 's \<Rightarrow> json_exception + (bool \<times> 's)" where
  "sax_parse sax strict p s =
     try_bind (sax_parse_internal sax p s) (\<lambda>(result, p1, s1).
       if result \<and> strict then
         try_bind (get_token p1) (\<lambda>p2.
           if last_token p2 \<noteq> tok_end_of_input
           then syntax_error sax tok_end_of_input ''value'' p2 s1 else Inr (result, s1))
       else Inr (result, s1))"

lemma sax_parse_eq:
  "sax_parse sax strict p s =
     try_bind (sax_parse_internal sax p s) (\<lambda>(result, p1, s1).
       if result \<and> strict then
         (let p2 = next_token p1
          in if last_token p2 \<noteq> tok_end_of_input
             then syntax_error sax tok_end_of_input ''value'' p2 s1 else Inr (result, s1))
       else Inr (result, s1))"
  by (simp add: sax_parse_def Let_def cong: if_cong)

text \<open>\<^verbatim>\<open>parser::parse\<close> without a callback, writing to \<^verbatim>\<open>result\<close> (initially null).\<close>

definition parser_parse ::
    "(json \<Rightarrow> nat) \<Rightarrow> bool \<Rightarrow> bool \<Rightarrow> parser \<Rightarrow> json_exception + json" where
  "parser_parse max_size strict allow p =
     (let sax = json_sax_dom_parser max_size
      in try_bind (sax_parse_internal sax p (dom_init Jnull allow)) (\<lambda>(_, p1, d1).
           try_bind
             (if strict then
                try_bind (get_token p1) (\<lambda>p2.
                  if last_token p2 \<noteq> tok_end_of_input
                  then try_bind (syntax_error sax tok_end_of_input ''value'' p2 d1) (\<lambda>(_, d2). Inr d2)
                  else Inr d1)
              else Inr d1)
             (\<lambda>d2. Inr (if errored d2 then Jdiscarded else root d2))))"

lemma parser_parse_eq:
  "parser_parse max_size strict allow p =
     (let sax = json_sax_dom_parser max_size
      in try_bind (sax_parse_internal sax p (dom_init Jnull allow)) (\<lambda>(_, p1, d1).
           try_bind
             (if strict then
                (let p2 = next_token p1
                 in if last_token p2 \<noteq> tok_end_of_input
                    then try_bind (syntax_error sax tok_end_of_input ''value'' p2 d1) (\<lambda>(_, d2). Inr d2)
                    else Inr d1)
              else Inr d1)
             (\<lambda>d2. Inr (if errored d2 then Jdiscarded else root d2))))"
  by (simp add: parser_parse_def Let_def cong: if_cong)

text \<open>
  \<^verbatim>\<open>basic_json::parse(input, nullptr, allow_exceptions, ignore_comments)\<close> and
  \<^verbatim>\<open>basic_json::accept(input, ignore_comments)\<close>. \<open>max_size\<close> is the containers' size limit and
  \<open>decimal_point\<close> the one of the process's locale.
\<close>

definition json_parse ::
    "(json \<Rightarrow> nat) \<Rightarrow> char \<Rightarrow> bool \<Rightarrow> bool \<Rightarrow> string \<Rightarrow> json_exception + json" where
  "json_parse max_size decimal_point allow ignore input =
     try_bind (parser_init input ignore decimal_point) (\<lambda>p. parser_parse max_size True allow p)"

lemma json_parse_eq:
  "json_parse max_size decimal_point allow ignore input =
     parser_parse max_size True allow (parser_start input ignore decimal_point)"
  by (simp add: json_parse_def Let_def cong: if_cong)

definition json_accept :: "char \<Rightarrow> bool \<Rightarrow> string \<Rightarrow> json_exception + bool" where
  "json_accept decimal_point ignore input =
     try_bind (parser_init input ignore decimal_point) (\<lambda>p.
       try_bind (sax_parse json_sax_acceptor True p ()) (\<lambda>(b, _). Inr b))"

lemma json_accept_eq:
  "json_accept decimal_point ignore input =
     try_bind (sax_parse json_sax_acceptor True (parser_start input ignore decimal_point) ())
       (\<lambda>(b, _). Inr b)"
  by (simp add: json_accept_def Let_def cong: if_cong)

end
