(* ===== verification/Json_Events.thy ===== *)
theory Json_Events
  imports Json_Parser
begin

text \<open>
  The parser as a producer of SAX events. \<open>recorder\<close> is a handler that writes down every call made
  to it; its run on an input is the event sequence of that input. The main result says that the
  parser treats all handlers alike: with any handler the calls are those of the event sequence, in
  order, up to the first one that throws or answers \<open>False\<close> (\<open>sax_parse_loop_events\<close>).
  Properties of a consumer can so be proved on event sequences, without the parser.
\<close>

section \<open>Events\<close>

datatype event =
    Ev_null
  | Ev_boolean bool
  | Ev_number_integer "64 word"
  | Ev_number_unsigned "64 word"
  | Ev_number_float "64 word" string
  | Ev_string string
  | Ev_start_object nat
  | Ev_key string
  | Ev_end_object
  | Ev_start_array nat
  | Ev_end_array
  | Ev_parse_error nat string json_exception

fun apply_event :: "'s sax \<Rightarrow> event \<Rightarrow> 's \<Rightarrow> json_exception + (bool \<times> 's)" where
  "apply_event sax Ev_null s = sax_null sax s"
| "apply_event sax (Ev_boolean b) s = sax_boolean sax b s"
| "apply_event sax (Ev_number_integer n) s = sax_number_integer sax n s"
| "apply_event sax (Ev_number_unsigned n) s = sax_number_unsigned sax n s"
| "apply_event sax (Ev_number_float x t) s = sax_number_float sax x t s"
| "apply_event sax (Ev_string t) s = sax_string sax t s"
| "apply_event sax (Ev_start_object n) s = sax_start_object sax n s"
| "apply_event sax (Ev_key k) s = sax_key sax k s"
| "apply_event sax Ev_end_object s = sax_end_object sax s"
| "apply_event sax (Ev_start_array n) s = sax_start_array sax n s"
| "apply_event sax Ev_end_array s = sax_end_array sax s"
| "apply_event sax (Ev_parse_error pos t ex) s = sax_parse_error sax pos t ex s"

text \<open>Feeding events to a handler until one throws or answers \<open>False\<close>; the events not delivered
  are returned.\<close>

fun run_events :: "'s sax \<Rightarrow> event list \<Rightarrow> 's \<Rightarrow> json_exception + (bool \<times> 's \<times> event list)" where
  "run_events sax [] s = Inr (True, s, [])"
| "run_events sax (ev # evs) s =
     try_bind (apply_event sax ev s) (\<lambda>(ok, s1).
       if ok then run_events sax evs s1 else Inr (False, s1, evs))"

definition record_event :: "event \<Rightarrow> event list \<Rightarrow> json_exception + (bool \<times> event list)" where
  "record_event ev evs = Inr (True, evs @ [ev])"

definition recorder :: "event list sax" where
  "recorder =
     \<lparr>sax_null = record_event Ev_null,
      sax_boolean = (\<lambda>b. record_event (Ev_boolean b)),
      sax_number_integer = (\<lambda>n. record_event (Ev_number_integer n)),
      sax_number_unsigned = (\<lambda>n. record_event (Ev_number_unsigned n)),
      sax_number_float = (\<lambda>x t. record_event (Ev_number_float x t)),
      sax_string = (\<lambda>t. record_event (Ev_string t)),
      sax_binary = (\<lambda>bs t evs. Inr (True, evs)),
      sax_start_object = (\<lambda>n. record_event (Ev_start_object n)),
      sax_key = (\<lambda>k. record_event (Ev_key k)),
      sax_end_object = record_event Ev_end_object,
      sax_start_array = (\<lambda>n. record_event (Ev_start_array n)),
      sax_end_array = record_event Ev_end_array,
      sax_parse_error = (\<lambda>pos t ex evs. Inr (False, evs @ [Ev_parse_error pos t ex]))\<rparr>"

lemma recorder_simps [simp]:
  "sax_null recorder evs = Inr (True, evs @ [Ev_null])"
  "sax_boolean recorder b evs = Inr (True, evs @ [Ev_boolean b])"
  "sax_number_integer recorder n evs = Inr (True, evs @ [Ev_number_integer n])"
  "sax_number_unsigned recorder n evs = Inr (True, evs @ [Ev_number_unsigned n])"
  "sax_number_float recorder x t evs = Inr (True, evs @ [Ev_number_float x t])"
  "sax_string recorder t evs = Inr (True, evs @ [Ev_string t])"
  "sax_start_object recorder k evs = Inr (True, evs @ [Ev_start_object k])"
  "sax_key recorder t evs = Inr (True, evs @ [Ev_key t])"
  "sax_end_object recorder evs = Inr (True, evs @ [Ev_end_object])"
  "sax_start_array recorder k evs = Inr (True, evs @ [Ev_start_array k])"
  "sax_end_array recorder evs = Inr (True, evs @ [Ev_end_array])"
  "sax_parse_error recorder pos t ex evs = Inr (False, evs @ [Ev_parse_error pos t ex])"
  by (simp_all add: recorder_def record_event_def)

section \<open>One iteration with any handler\<close>

text \<open>
  \<open>agrees sax s r es out p' st'\<close>: the step result \<open>r\<close> of the handler \<open>sax\<close> in state \<open>s\<close> is what
  delivering the events \<open>es\<close> gives. When all of them are answered \<open>True\<close> the outcome is the
  recorder's \<open>out\<close>, except that a handler which answers \<open>True\<close> to the final error event makes the
  parser return \<open>True\<close>.
\<close>

definition agrees ::
    "'s sax \<Rightarrow> 's \<Rightarrow> (json_exception + (outcome \<times> parser \<times> bool list \<times> 's)) \<Rightarrow> event list \<Rightarrow>
     outcome \<Rightarrow> parser \<Rightarrow> bool list \<Rightarrow> bool" where
  "agrees sax s r es out p' st' \<longleftrightarrow>
     (case run_events sax es s of
        Inl ex \<Rightarrow> r = Inl ex
      | Inr (ok, s1, rest) \<Rightarrow>
          (if ok then r = Inr (if out = Returned False then Returned True else out, p', st', s1)
           else (\<exists>p1 st1. r = Inr (Returned False, p1, st1, s1))))"

lemma run_events_append:
  "run_events sax (es @ es') s =
     try_bind (run_events sax es s) (\<lambda>(ok, s1, rest).
       if ok then run_events sax es' s1 else Inr (False, s1, rest @ es'))"
proof (induction es arbitrary: s)
  case (Cons ev es)
  then show ?case by (cases "apply_event sax ev s") auto
qed simp

lemmas step_defs = sax_call_def sax_fail_def syntax_error_def Let_def

text \<open>The recorder never throws, and only appends.\<close>

lemma recorder_parse_value:
  "\<exists>out p' st' es. parse_value recorder p st evs = Inr (out, p', st', evs @ es)"
  by (cases "last_token p")
     (simp_all add: parse_value_def parse_begin_object_eq parse_begin_array_eq step_defs)

lemma recorder_evaluate_state:
  "\<exists>out p' st' es. evaluate_state recorder p st evs = Inr (out, p', st', evs @ es)"
  by (cases st; cases "hd st") (auto simp: evaluate_state_def evaluate_array_eq evaluate_object_eq step_defs)

lemma parse_begin_object_events:
  "parse_begin_object recorder p st evs = Inr (out, p', st', evs @ es) \<Longrightarrow>
     agrees sax s (parse_begin_object sax p st s) es out p' st'"
  by (auto simp: parse_begin_object_eq step_defs agrees_def try_bind_def
      split: if_splits sum.splits)

lemma parse_begin_array_events:
  "parse_begin_array recorder p st evs = Inr (out, p', st', evs @ es) \<Longrightarrow>
     agrees sax s (parse_begin_array sax p st s) es out p' st'"
  by (auto simp: parse_begin_array_eq step_defs agrees_def try_bind_def
      split: if_splits sum.splits)

lemma parse_value_events:
  "parse_value recorder p st evs = Inr (out, p', st', evs @ es) \<Longrightarrow>
     agrees sax s (parse_value sax p st s) es out p' st'"
  using parse_begin_object_events [of p st evs out p' st' es sax s]
    parse_begin_array_events [of p st evs out p' st' es sax s]
  by (cases "last_token p")
     (auto simp: parse_value_def step_defs agrees_def try_bind_def split: if_splits sum.splits)

lemma evaluate_array_events:
  "evaluate_array recorder p st evs = Inr (out, p', st', evs @ es) \<Longrightarrow>
     agrees sax s (evaluate_array sax p st s) es out p' st'"
  by (auto simp: evaluate_array_def step_defs agrees_def try_bind_def split: if_splits sum.splits)

lemma evaluate_object_events:
  "evaluate_object recorder p st evs = Inr (out, p', st', evs @ es) \<Longrightarrow>
     agrees sax s (evaluate_object sax p st s) es out p' st'"
  by (auto simp: evaluate_object_def step_defs agrees_def try_bind_def split: if_splits sum.splits)

lemma evaluate_state_events:
  assumes "evaluate_state recorder p st evs = Inr (out, p', st', evs @ es)"
  shows "agrees sax s (evaluate_state sax p st s) es out p' st'"
proof (cases st)
  case Nil
  with assms show ?thesis by (simp add: evaluate_state_def agrees_def)
next
  case (Cons b st1)
  with assms show ?thesis
    using evaluate_array_events [of p st evs out p' st' es sax s]
      evaluate_object_events [of p st evs out p' st' es sax s]
    by (cases b) (simp_all add: evaluate_state_def)
qed

section \<open>The whole run\<close>

lemma agrees_cases:
  assumes "agrees sax s r es out p' st'"
  obtains (throws) ex where "run_events sax es s = Inl ex" "r = Inl ex"
    | (stops) s1 rest p1 st1 where "run_events sax es s = Inr (False, s1, rest)"
        "r = Inr (Returned False, p1, st1, s1)"
    | (goes_on) s1 rest where "run_events sax es s = Inr (True, s1, rest)"
        "r = Inr (if out = Returned False then Returned True else out, p', st', s1)"
  using assms by (auto simp: agrees_def split: sum.splits if_splits)

text \<open>The same relation for a whole run of the loop.\<close>

definition loop_agrees ::
    "'s sax \<Rightarrow> 's \<Rightarrow> (json_exception + (bool \<times> parser \<times> 's)) \<Rightarrow> event list \<Rightarrow> parser \<Rightarrow> bool" where
  "loop_agrees sax s r es p' \<longleftrightarrow>
     (case run_events sax es s of
        Inl ex \<Rightarrow> r = Inl ex
      | Inr (ok, s1, rest) \<Rightarrow>
          (if ok then r = Inr (True, p', s1) else (\<exists>p1. r = Inr (False, p1, s1))))"

lemma recorder_returns_False:
  "parse_value recorder p st evs = Inr (Returned b, p', st', evs') \<Longrightarrow> \<not> b"
  by (cases "last_token p")
     (auto simp: parse_value_def parse_begin_object_eq parse_begin_array_eq step_defs split: if_splits)

text \<open>The two halves of an iteration: what the loop does after \<open>evaluate_state\<close> and after
  \<open>parse_value\<close>.\<close>

definition after_evaluation ::
    "'s sax \<Rightarrow> json_exception + (outcome \<times> parser \<times> bool list \<times> 's) \<Rightarrow>
     json_exception + (bool \<times> parser \<times> 's)" where
  "after_evaluation sax r =
     (case r of
        Inl ex \<Rightarrow> Inl ex
      | Inr (out, p, st, s) \<Rightarrow>
          (case out of Returned b \<Rightarrow> Inr (b, p, s)
           | _ \<Rightarrow> sax_parse_loop sax (out = Skip_to_evaluation) p st s))"

definition after_value ::
    "'s sax \<Rightarrow> json_exception + (outcome \<times> parser \<times> bool list \<times> 's) \<Rightarrow>
     json_exception + (bool \<times> parser \<times> 's)" where
  "after_value sax r =
     (case r of
        Inl ex \<Rightarrow> Inl ex
      | Inr (out, p, st, s) \<Rightarrow>
          (case out of Returned b \<Rightarrow> Inr (b, p, s)
           | Evaluate \<Rightarrow> after_evaluation sax (evaluate_state sax p st s)
           | _ \<Rightarrow> sax_parse_loop sax False p st s))"

lemma sax_parse_loop_halves:
  "sax_parse_loop sax False p st s = after_value sax (parse_value sax p st s)"
  "sax_parse_loop sax True p st s = after_evaluation sax (evaluate_state sax p st s)"
  by (subst sax_parse_loop.simps;
      auto simp: after_value_def after_evaluation_def split: sum.splits prod.splits outcome.splits)+

lemma loop_agrees_Returned:
  assumes "agrees sax s r es (Returned b) p' st'"
  shows "b \<Longrightarrow> loop_agrees sax s (after_evaluation sax r) es p'"
    and "\<not> b \<Longrightarrow> loop_agrees sax s (after_evaluation sax r) es p'"
    and "\<not> b \<Longrightarrow> loop_agrees sax s (after_value sax r) es p'"
  using assms
  by (auto elim!: agrees_cases simp: loop_agrees_def after_evaluation_def after_value_def)

lemma loop_agrees_trans:
  assumes ag: "agrees sax s r es out p1 st1"
    and out: "\<And>b. out \<noteq> Returned b"
    and IH: "\<And>s1. loop_agrees sax s1 (k (Inr (out, p1, st1, s1))) es' p'"
    and k: "\<And>ex. k (Inl ex) = Inl ex" "\<And>b p st s. k (Inr (Returned b, p, st, s)) = Inr (b, p, s)"
  shows "loop_agrees sax s (k r) (es @ es') p'"
  using ag
proof (cases rule: agrees_cases)
  case (goes_on s1 rest)
  with IH [of s1] out show ?thesis
    by (simp add: loop_agrees_def run_events_append)
qed (simp_all add: loop_agrees_def run_events_append k)

lemma evaluation_events:
  assumes IH: "\<And>skip p' st evs (s::'s). loop_measure skip p' \<le> left p \<Longrightarrow>
      \<exists>b q es. sax_parse_loop recorder skip p' st evs = Inr (b, q, evs @ es) \<and>
        loop_agrees sax s (sax_parse_loop sax skip p' st s) es q"
  shows "\<exists>b q es. after_evaluation recorder (evaluate_state recorder p st evs) = Inr (b, q, evs @ es) \<and>
     loop_agrees sax (s::'s) (after_evaluation sax (evaluate_state sax p st s)) es q"
proof -
  obtain out p1 st1 es where r: "evaluate_state recorder p st evs = Inr (out, p1, st1, evs @ es)"
    using recorder_evaluate_state by blast
  note ag = evaluate_state_events [OF r, of sax s]
  show ?thesis
  proof (cases "\<exists>b. out = Returned b")
    case True
    then obtain b where b: "out = Returned b" ..
    then have "loop_agrees sax s (after_evaluation sax (evaluate_state sax p st s)) es p1"
      using loop_agrees_Returned(1,2) [of sax s _ es b p1 st1] ag by (cases b) blast+
    then show ?thesis using b by (auto simp: r after_evaluation_def)
  next
    case False
    then have m: "loop_measure (out = Skip_to_evaluation) p1 \<le> left p"
      using evaluate_state_left [OF r] by (cases out) auto
    obtain b q es' where rec: "sax_parse_loop recorder (out = Skip_to_evaluation) p1 st1 (evs @ es)
        = Inr (b, q, evs @ es @ es')"
      using IH [OF m, of st1 "evs @ es" s] by auto
    have "loop_agrees sax s1 (after_evaluation sax (Inr (out, p1, st1, s1))) es' q" for s1
      using IH [OF m, of st1 "evs @ es" s1] rec False
      by (auto simp: after_evaluation_def split: outcome.splits)
    then have "loop_agrees sax s (after_evaluation sax (evaluate_state sax p st s)) (es @ es') q"
      using False by (intro loop_agrees_trans [OF ag]) (auto simp: after_evaluation_def)
    then show ?thesis
      using rec False by (auto simp: r after_evaluation_def split: outcome.splits)
  qed
qed

theorem sax_parse_loop_events:
  "\<exists>b q es. sax_parse_loop recorder skip p st evs = Inr (b, q, evs @ es) \<and>
     loop_agrees sax s (sax_parse_loop sax skip p st s) es q"
proof (induction "loop_measure skip p" arbitrary: skip p st evs s rule: less_induct)
  case less
  show ?case
  proof (cases skip)
    case True
    with less have "\<exists>b q es. after_evaluation recorder (evaluate_state recorder p st evs) = Inr (b, q, evs @ es) \<and>
        loop_agrees sax s (after_evaluation sax (evaluate_state sax p st s)) es q"
      using left_less_loop_measure [of p] by (intro evaluation_events) auto
    with True show ?thesis by (simp add: sax_parse_loop_halves)
  next
    case False
    obtain out p1 st1 es where r: "parse_value recorder p st evs = Inr (out, p1, st1, evs @ es)"
      using recorder_parse_value by blast
    note ag = parse_value_events [OF r, of sax s]
    show ?thesis
    proof (cases "\<exists>b. out = Returned b")
      case True
      then obtain b where b: "out = Returned b" ..
      with r recorder_returns_False [of p st evs b p1 st1] have out: "out = Returned False" by simp
      with ag loop_agrees_Returned(3) [of sax s _ es False p1 st1]
      have "loop_agrees sax s (after_value sax (parse_value sax p st s)) es p1" by blast
      with out False show ?thesis by (auto simp: sax_parse_loop_halves r after_value_def)
    next
      case nret: False
      have sub: "\<exists>b q es'. after_value recorder (Inr (out, p1, st1, evs')) = Inr (b, q, evs' @ es') \<and>
          loop_agrees sax s1 (after_value sax (Inr (out, p1, st1, s1))) es' q" for evs' s1
      proof (cases out)
        case Evaluate
        have "left p1 < loop_measure skip p"
          using parse_value_left(2) [OF r] Evaluate \<open>\<not> skip\<close> by simp
        then show ?thesis
          unfolding after_value_def using Evaluate less
          by (simp add: evaluation_events)
      next
        case Continue
        then show ?thesis
          using parse_value_left(1) [OF r] \<open>\<not> skip\<close> less
          by (simp add: after_value_def)
      qed (use nret parse_value_left(3) [OF r] in auto)
      obtain b q es' where rec: "after_value recorder (Inr (out, p1, st1, evs @ es)) = Inr (b, q, evs @ es @ es')"
        using sub [of "evs @ es" s] by auto
      have "loop_agrees sax s1 (after_value sax (Inr (out, p1, st1, s1))) es' q" for s1
        using sub [of "evs @ es" s1] rec by auto
      then have "loop_agrees sax s (after_value sax (parse_value sax p st s)) (es @ es') q"
        using nret by (intro loop_agrees_trans [OF ag]) (auto simp: after_value_def)
      with rec \<open>\<not> skip\<close> show ?thesis by (auto simp: sax_parse_loop_halves r)
    qed
  qed
qed

end
