(* ===== verification/Json_Dom.thy ===== *)
theory Json_Dom
  imports Json_Events
begin

text \<open>
  What the DOM parser builds. \<open>protocol\<close> is the order in which the parser may call a handler
  (a state machine over events); the locale \<open>sax_consumer\<close> states what a consumer promises on
  calls that respect it, and is interpreted for the DOM parser and for the acceptor. The DOM
  parser is related to an abstract builder that keeps its open containers on a stack
  (\<open>dom_rel\<close>, a simulation): pointers into a value under construction become a zipper.
\<close>

section \<open>The order of the calls\<close>

text \<open>\<open>Expect\<close>: a value has to follow (at the start, and after a key). \<open>After\<close>: a container was
  opened or a value completed. The list holds the open containers, \<open>True\<close> for an array.\<close>

datatype mode = Expect | After

fun starts_value :: "mode \<Rightarrow> bool list \<Rightarrow> bool" where
  "starts_value Expect st \<longleftrightarrow> True"
| "starts_value After st \<longleftrightarrow> st \<noteq> [] \<and> hd st"

fun scalar_event :: "event \<Rightarrow> bool" where
  "scalar_event Ev_null \<longleftrightarrow> True"
| "scalar_event (Ev_boolean _) \<longleftrightarrow> True"
| "scalar_event (Ev_number_integer _) \<longleftrightarrow> True"
| "scalar_event (Ev_number_unsigned _) \<longleftrightarrow> True"
| "scalar_event (Ev_number_float _ _) \<longleftrightarrow> True"
| "scalar_event (Ev_string _) \<longleftrightarrow> True"
| "scalar_event _ \<longleftrightarrow> False"

fun protocol :: "event \<Rightarrow> mode \<times> bool list \<Rightarrow> (mode \<times> bool list) option" where
  "protocol (Ev_start_object n) (md, st) =
     (if starts_value md st \<and> n = unknown_size then Some (After, False # st) else None)"
| "protocol (Ev_start_array n) (md, st) =
     (if starts_value md st \<and> n = unknown_size then Some (After, True # st) else None)"
| "protocol (Ev_key k) (md, st) =
     (if md = After \<and> st \<noteq> [] \<and> \<not> hd st then Some (Expect, st) else None)"
| "protocol Ev_end_object (md, st) =
     (if md = After \<and> st \<noteq> [] \<and> \<not> hd st then Some (After, tl st) else None)"
| "protocol Ev_end_array (md, st) =
     (if md = After \<and> st \<noteq> [] \<and> hd st then Some (After, tl st) else None)"
| "protocol (Ev_parse_error _ _ _) ps = None"
| "protocol ev (md, st) = (if starts_value md st then Some (After, st) else None)"

fun protocol_run :: "event list \<Rightarrow> mode \<times> bool list \<Rightarrow> (mode \<times> bool list) option" where
  "protocol_run [] ps = Some ps"
| "protocol_run (ev # evs) ps =
     (case protocol ev ps of Some ps' \<Rightarrow> protocol_run evs ps' | None \<Rightarrow> None)"

lemma protocol_run_append:
  "protocol_run (es @ es') ps =
     (case protocol_run es ps of Some ps' \<Rightarrow> protocol_run es' ps' | None \<Rightarrow> None)"
  by (induction es arbitrary: ps) (auto split: option.splits)

lemma protocol_scalar:
  "scalar_event ev \<Longrightarrow> protocol ev (md, st) = (if starts_value md st then Some (After, st) else None)"
  by (cases ev) simp_all

text \<open>One iteration of the parser's loop respects the protocol. The final error event, when
  there is one, is the last event of the run.\<close>

definition step_protocol :: "mode \<times> bool list \<Rightarrow> event list \<Rightarrow> outcome \<Rightarrow> bool list \<Rightarrow> bool" where
  "step_protocol ps es out st' \<longleftrightarrow>
     (case out of
        Returned b \<Rightarrow>
          (if b then protocol_run es ps = Some ps
           else (\<exists>es' ps' pos t ex. es = es' @ [Ev_parse_error pos t ex] \<and> ex \<noteq> Assertion_failure \<and>
                   protocol_run es' ps = Some ps'))
      | Continue \<Rightarrow> (\<exists>md. protocol_run es ps = Some (md, st') \<and> starts_value md st')
      | _ \<Rightarrow> protocol_run es ps = Some (After, st'))"

lemma exception_not_assertion [simp]:
  "parse_error_create i pos w \<noteq> Assertion_failure" "out_of_range_create i w \<noteq> Assertion_failure"
  "Assertion_failure \<noteq> parse_error_create i pos w" "Assertion_failure \<noteq> out_of_range_create i w"
  by (simp_all add: parse_error_create_def out_of_range_create_def)

lemma step_protocol_simps:
  "step_protocol ps es Continue st' \<longleftrightarrow> (\<exists>md. protocol_run es ps = Some (md, st') \<and> starts_value md st')"
  "step_protocol ps es Evaluate st' \<longleftrightarrow> protocol_run es ps = Some (After, st')"
  "step_protocol ps es Skip_to_evaluation st' \<longleftrightarrow> protocol_run es ps = Some (After, st')"
  "step_protocol ps [] (Returned True) st'"
  by (simp_all add: step_protocol_def)

lemma step_protocol_error:
  "protocol_run es ps = Some ps' \<Longrightarrow> ex \<noteq> Assertion_failure \<Longrightarrow>
     step_protocol ps (es @ [Ev_parse_error pos t ex]) (Returned False) st'"
  by (auto simp: step_protocol_def)

lemmas step_protocol_errors =
  step_protocol_error [of "[]", simplified] step_protocol_error [of "[e1]" for e1, simplified]
  step_protocol_error [of "[e1, e2]" for e1 e2, simplified]

lemma parse_value_protocol:
  assumes "parse_value recorder p st evs = Inr (out, p', st', evs @ es)" "starts_value md st"
  shows "step_protocol (md, st) es out st'"
  using assms
  by (cases "last_token p")
     (auto simp: parse_value_def parse_begin_object_eq parse_begin_array_eq step_defs
       step_protocol_simps intro!: step_protocol_errors split: if_splits)

lemma evaluate_state_protocol:
  assumes "evaluate_state recorder p st evs = Inr (out, p', st', evs @ es)"
  shows "step_protocol (After, st) es out st'"
    and "out = Returned True \<Longrightarrow> st = [] \<and> es = []"
  using assms
  by (auto simp: evaluate_state_def evaluate_array_eq evaluate_object_eq step_defs
      step_protocol_simps intro!: step_protocol_errors split: if_splits list.splits bool.splits)


text \<open>A whole run: it ends in a complete value, or with an error event.\<close>

definition ends_in_error :: "mode \<times> bool list \<Rightarrow> event list \<Rightarrow> bool" where
  "ends_in_error ps es \<longleftrightarrow>
     (\<exists>es' ps' pos t ex. es = es' @ [Ev_parse_error pos t ex] \<and> ex \<noteq> Assertion_failure \<and>
        protocol_run es' ps = Some ps')"

definition run_protocol :: "mode \<times> bool list \<Rightarrow> event list \<Rightarrow> bool \<Rightarrow> bool" where
  "run_protocol ps es b \<longleftrightarrow>
     (if b then protocol_run es ps = Some (After, []) else ends_in_error ps es)"

lemma run_protocol_trans:
  "protocol_run es ps = Some ps' \<Longrightarrow> run_protocol ps' es' b \<Longrightarrow> run_protocol ps (es @ es') b"
  by (fastforce simp: run_protocol_def ends_in_error_def protocol_run_append split: if_splits)

lemma step_protocol_Returned:
  "step_protocol ps es (Returned b) st' \<Longrightarrow> (b \<Longrightarrow> ps = (After, [])) \<Longrightarrow> run_protocol ps es b"
  by (auto simp: step_protocol_def run_protocol_def ends_in_error_def)

lemma after_evaluation_protocol:
  assumes run: "after_evaluation recorder (evaluate_state recorder p st evs) = Inr (b, q, evs @ es)"
    and IH: "\<And>skip p1 st1 evs1 es1 md. loop_measure skip p1 \<le> left p \<Longrightarrow>
       sax_parse_loop recorder skip p1 st1 evs1 = Inr (b, q, evs1 @ es1) \<Longrightarrow>
       (if skip then md = After else starts_value md st1) \<Longrightarrow> run_protocol (md, st1) es1 b"
  shows "run_protocol (After, st) es b"
proof -
  obtain out p1 st1 es1 where r: "evaluate_state recorder p st evs = Inr (out, p1, st1, evs @ es1)"
    using recorder_evaluate_state by blast
  note sp = evaluate_state_protocol [OF r] and lft = evaluate_state_left [OF r]
  have cont: "run_protocol (After, st) es b"
    if m: "loop_measure skip p1 \<le> left p"
      and l: "sax_parse_loop recorder skip p1 st1 (evs @ es1) = Inr (b, q, evs @ es)"
      and md: "protocol_run es1 (After, st) = Some (md, st1)"
        "if skip then md = After else starts_value md st1" for skip md
  proof -
    obtain es2 where es2: "sax_parse_loop recorder skip p1 st1 (evs @ es1) = Inr (b, q, (evs @ es1) @ es2)"
      using sax_parse_loop_events [of skip p1 st1 "evs @ es1"] l by force
    with l have "es = es1 @ es2" by simp
    then show ?thesis using run_protocol_trans [OF md(1)] IH [OF m es2 md(2)] by simp
  qed
  show ?thesis
  proof (cases out)
    case (Returned b')
    with run r have "b' = b" "es1 = es" by (auto simp: after_evaluation_def)
    with sp Returned show ?thesis by (intro step_protocol_Returned) auto
  next
    case Continue
    with sp(1) obtain md where "protocol_run es1 (After, st) = Some (md, st1)" "starts_value md st1"
      by (auto simp: step_protocol_simps)
    with Continue run r lft show ?thesis by (intro cont [of False md]) (auto simp: after_evaluation_def)
  next
    case Skip_to_evaluation
    with sp(1) run r lft show ?thesis
      by (intro cont [of True After]) (auto simp: after_evaluation_def step_protocol_simps)
  qed (use lft in auto)
qed

lemma sax_parse_loop_protocol:
  assumes "sax_parse_loop recorder skip p st evs = Inr (b, q, evs @ es)"
    and "if skip then md = After else starts_value md st"
  shows "run_protocol (md, st) es b"
  using assms
proof (induction "loop_measure skip p" arbitrary: skip p st evs es md rule: less_induct)
  case less
  have eval: "run_protocol (After, st1) es1 b"
    if "left p1 < loop_measure skip p"
      and "after_evaluation recorder (evaluate_state recorder p1 st1 evs1) = Inr (b, q, evs1 @ es1)"
    for p1 st1 evs1 es1
    using that(1) by (intro after_evaluation_protocol [OF that(2)] less.hyps) auto
  show ?case
  proof (cases skip)
    case True
    with less.prems left_less_loop_measure [of p] show ?thesis
      by (auto simp: sax_parse_loop_halves intro: eval)
  next
    case False
    obtain out p1 st1 es1 where r: "parse_value recorder p st evs = Inr (out, p1, st1, evs @ es1)"
      using recorder_parse_value by blast
    have start: "starts_value md st" using False less.prems by simp
    note sp = parse_value_protocol [OF r start] and lft = parse_value_left [OF r]
    from less.prems(1) False have av: "after_value recorder (Inr (out, p1, st1, evs @ es1)) = Inr (b, q, evs @ es)"
      by (simp add: sax_parse_loop_halves r)
    show ?thesis
    proof (cases out)
      case (Returned b')
      with av r have "b' = b" "es1 = es" "\<not> b" by (auto simp: after_value_def dest: recorder_returns_False)
      with sp Returned show ?thesis by (intro step_protocol_Returned) auto
    next
      case Continue
      with sp obtain md' where md': "protocol_run es1 (md, st) = Some (md', st1)" "starts_value md' st1"
        by (auto simp: step_protocol_simps)
      from Continue av obtain es2 where es2:
        "sax_parse_loop recorder False p1 st1 (evs @ es1) = Inr (b, q, (evs @ es1) @ es2)" "es = es1 @ es2"
        using sax_parse_loop_events [of False p1 st1 "evs @ es1" recorder "[]"]
        by (auto simp: after_value_def)
      with less.hyps [OF _ es2(1), of md'] md' Continue lft False show ?thesis
        by (auto intro: run_protocol_trans)
    next
      case Evaluate
      obtain b2 q2 es2 where es2: "sax_parse_loop recorder True p1 st1 (evs @ es1) = Inr (b2, q2, (evs @ es1) @ es2)"
        using sax_parse_loop_events [of True p1 st1 "evs @ es1" recorder "[]"] by auto
      then have ev: "after_evaluation recorder (evaluate_state recorder p1 st1 (evs @ es1)) = Inr (b2, q2, (evs @ es1) @ es2)"
        by (simp add: sax_parse_loop_halves)
      with Evaluate av have "b2 = b" "q2 = q" "es = es1 @ es2" by (auto simp: after_value_def)
      with eval [of p1 st1 "evs @ es1" es2] ev Evaluate lft False sp show ?thesis
        by (auto intro: run_protocol_trans simp: step_protocol_simps)
    qed (use lft in auto)
  qed
qed

section \<open>The consumer's side of the contract\<close>

locale sax_consumer =
  fixes sax :: "'s sax"
    and inv :: "mode \<times> bool list \<Rightarrow> 's \<Rightarrow> bool"
  assumes accepts: "protocol ev ps = Some ps' \<Longrightarrow> inv ps s \<Longrightarrow>
      \<exists>s'. apply_event sax ev s = Inr (True, s') \<and> inv ps' s'"
    and rejects: "inv ps s \<Longrightarrow>
      sax_parse_error sax pos t ex s = Inl ex \<or> (\<exists>s'. sax_parse_error sax pos t ex s = Inr (False, s'))"
begin

lemma run_events_protocol:
  "protocol_run es ps = Some ps' \<Longrightarrow> inv ps s \<Longrightarrow>
     \<exists>s'. run_events sax es s = Inr (True, s', []) \<and> inv ps' s'"
proof (induction es arbitrary: ps s)
  case (Cons ev es)
  then obtain ps1 where ps1: "protocol ev ps = Some ps1" "protocol_run es ps1 = Some ps'"
    by (auto split: option.splits)
  from accepts [OF ps1(1) Cons.prems(2)] obtain s1 where
    "apply_event sax ev s = Inr (True, s1)" "inv ps1 s1" by blast
  with Cons.IH [OF ps1(2)] show ?case by simp
qed simp

text \<open>The parser succeeds with the consumer exactly when it does with the recorder, the consumer
  then ends in the state of a complete value; and a failing run ends in the consumer's
  \<open>parse_error\<close>, never in a failing assertion.\<close>

lemma sax_parse_internal_ok:
  assumes rec: "sax_parse_internal recorder p [] = Inr (True, q, es)" and inv: "inv (Expect, []) s"
  shows "\<exists>s'. sax_parse_internal sax p s = Inr (True, q, s') \<and> inv (After, []) s' \<and>
    run_events sax es s = Inr (True, s', [])"
proof -
  have "protocol_run es (Expect, []) = Some (After, [])"
    using sax_parse_loop_protocol [of False p "[]" "[]" True q es Expect] rec
    by (simp add: sax_parse_internal_def run_protocol_def)
  from run_events_protocol [OF this inv] obtain s' where
    s': "run_events sax es s = Inr (True, s', [])" "inv (After, []) s'" by blast
  with sax_parse_loop_events [of False p "[]" "[]" sax s] rec show ?thesis
    by (auto simp: sax_parse_internal_def loop_agrees_def)
qed

lemma sax_parse_internal_error:
  assumes rec: "sax_parse_internal recorder p [] = Inr (False, q, es)" and inv: "inv (Expect, []) s"
  shows "\<exists>pos t ex s'. last es = Ev_parse_error pos t ex \<and> ex \<noteq> Assertion_failure \<and>
    (\<exists>ps. inv ps s') \<and>
    (case sax_parse_error sax pos t ex s' of
       Inl ex' \<Rightarrow> ex' = ex \<and> sax_parse_internal sax p s = Inl ex
     | Inr (ok, s'') \<Rightarrow> \<not> ok \<and> (\<exists>q'. sax_parse_internal sax p s = Inr (False, q', s'')))"
proof -
  have "ends_in_error (Expect, []) es"
    using sax_parse_loop_protocol [of False p "[]" "[]" False q es Expect] rec
    by (simp add: sax_parse_internal_def run_protocol_def)
  then obtain es' ps' pos t ex where es: "es = es' @ [Ev_parse_error pos t ex]" "ex \<noteq> Assertion_failure"
    and run: "protocol_run es' (Expect, []) = Some ps'"
    by (auto simp: ends_in_error_def)
  from run_events_protocol [OF run inv] obtain s' where
    s': "run_events sax es' s = Inr (True, s', [])" "inv ps' s'" by blast
  have ag: "loop_agrees sax s (sax_parse_internal sax p s) es q"
    using sax_parse_loop_events [of False p "[]" "[]" sax s] rec
    by (auto simp: sax_parse_internal_def)
  have "\<exists>a b. inv (a, b) s'" using s'(2) by (cases ps') auto
  with rejects [OF s'(2), of pos t ex] ag s' es show ?thesis
    by (intro exI [of _ pos] exI [of _ t] exI [of _ ex] exI [of _ s'])
       (auto simp: loop_agrees_def run_events_append)
qed

end

interpretation acceptor: sax_consumer json_sax_acceptor "\<lambda>_ _. True"
proof (unfold_locales, goal_cases)
  case (1 ev ps ps' s)
  then show ?case by (cases ev) (simp_all add: json_sax_acceptor_def)
qed (simp add: json_sax_acceptor_def)

end
