(* ===== verification/Json_Builder.thy ===== *)
theory Json_Builder
  imports Json_Dom
begin

text \<open>
  The abstract builder: the specification of what the DOM parser does with its events. The open
  containers are a stack of frames, each with the position at which the next inner container
  belongs; \<open>plug\<close> puts a value back into its frames and \<open>path\<close> is the pointer that leads there.
  \<open>dom_rel\<close> is the simulation relation to the DOM parser, whose \<^verbatim>\<open>ref_stack\<close> and
  \<^verbatim>\<open>object_element\<close> are exactly such paths. From it follow the absence of failing assertions,
  the well-formedness of every parsed value, and what value the events of a text denote.
\<close>

section \<open>Pointers into a value\<close>

lemma deref_append:
  "deref (p @ q) j = (case deref p j of Some w \<Rightarrow> deref q w | None \<Rightarrow> None)"
  by (induction p arbitrary: j) (auto split: option.splits)

lemma assign_at_append:
  "deref p j = Some w \<Longrightarrow> assign_at (p @ q) v j = assign_at p (assign_at q v w) j"
  by (induction p arbitrary: j) (auto split: option.splits)

lemma map_assign_map_assign [simp]: "map_assign k v (map_assign k w m) = map_assign k v m"
  by (induction m) auto

lemma map_assign_same: "map_find m k = Some v \<Longrightarrow> map_assign k v m = m"
  by (induction m) (auto split: if_splits)

section \<open>Frames\<close>

datatype frame = Arr_frame "json list" | Obj_frame "(string \<times> json) list" string

fun fill :: "frame \<Rightarrow> json \<Rightarrow> json" where
  "fill (Arr_frame xs) v = Jarray (xs @ [v])"
| "fill (Obj_frame m k) v = Jobject (map_assign k v m)"

fun frame_step :: "frame \<Rightarrow> path_step" where
  "frame_step (Arr_frame xs) = Idx (length xs)"
| "frame_step (Obj_frame m k) = Key k"

fun plug :: "frame list \<Rightarrow> json \<Rightarrow> json" where
  "plug [] v = v"
| "plug (f # fs) v = plug fs (fill f v)"

fun path :: "frame list \<Rightarrow> ptr" where
  "path [] = []"
| "path (f # fs) = path fs @ [frame_step f]"

fun paths :: "frame list \<Rightarrow> ptr list" where
  "paths [] = [[]]"
| "paths (f # fs) = path (f # fs) # paths fs"

fun frame_wf :: "frame \<Rightarrow> bool" where
  "frame_wf (Arr_frame xs) \<longleftrightarrow> json_wf (Jarray xs)"
| "frame_wf (Obj_frame m k) \<longleftrightarrow> json_wf (Jobject m) \<and> map_find m k \<noteq> None"

lemma map_find_assign_same: "map_find m k \<noteq> None \<Longrightarrow> map_find (map_assign k v m) k = Some v"
  by (simp add: map_find_assign)

lemma json_child_fill: "frame_wf f \<Longrightarrow> json_child (frame_step f) (fill f v) = Some v"
  by (cases f) (simp_all add: json_child_def map_find_assign_same)

lemma json_set_child_fill: "json_set_child (frame_step f) w (fill f v) = fill f w"
  by (cases f) (simp_all add: json_set_child_def)

lemma deref_path: "list_all frame_wf fs \<Longrightarrow> deref (path fs) (plug fs v) = Some v"
  by (induction fs arbitrary: v) (simp_all add: deref_append json_child_fill)

lemma assign_at_path: "list_all frame_wf fs \<Longrightarrow> assign_at (path fs) w (plug fs v) = plug fs w"
proof (induction fs arbitrary: v w)
  case (Cons f fs)
  then show ?case
    by (simp add: assign_at_append [OF deref_path] json_child_fill json_set_child_fill)
qed simp

lemma set_map_assign_values: "set (map_assign k v m) \<subseteq> insert (k, v) (set m)"
  by (induction m) (auto split: if_splits)

lemma set_map_emplace_values: "set (map_emplace k v m) \<subseteq> insert (k, v) (set m)"
  by (induction m) (auto split: if_splits)

lemma json_wf_assign: "json_wf (Jobject m) \<Longrightarrow> json_wf v \<Longrightarrow> json_wf (Jobject (map_assign k v m))"
  using set_map_assign_values [of k v m] std_map.invar_assign [of m k v]
  by (force dest: subsetD)

lemma json_wf_emplace: "json_wf (Jobject m) \<Longrightarrow> json_wf v \<Longrightarrow> json_wf (Jobject (map_emplace k v m))"
  using set_map_emplace_values [of k v m] std_map.invar_emplace [of m k v]
  by (force dest: subsetD)

lemma json_wf_fill: "frame_wf f \<Longrightarrow> json_wf v \<Longrightarrow> json_wf (fill f v)"
  by (cases f) (auto simp: json_wf_assign simp del: json_wf.simps(1))

lemma map_find_emplace_same: "map_find (map_emplace k v m) k \<noteq> None"
  by (induction m) auto

section \<open>The builder\<close>

datatype builder = Start | Open "frame list" json "string option" | Done json

text \<open>A complete value arrives; a container is opened.\<close>

fun build_value :: "json \<Rightarrow> builder \<Rightarrow> builder option" where
  "build_value v Start = Some (Done v)"
| "build_value v (Open fs (Jarray xs) None) = Some (Open fs (Jarray (xs @ [v])) None)"
| "build_value v (Open fs (Jobject m) (Some k)) = Some (Open fs (Jobject (map_assign k v m)) None)"
| "build_value v B = None"

fun build_open :: "json \<Rightarrow> builder \<Rightarrow> builder option" where
  "build_open c Start = Some (Open [] c None)"
| "build_open c (Open fs (Jarray xs) None) = Some (Open (Arr_frame xs # fs) c None)"
| "build_open c (Open fs (Jobject m) (Some k)) = Some (Open (Obj_frame m k # fs) c None)"
| "build_open c B = None"

fun build_key :: "string \<Rightarrow> builder \<Rightarrow> builder option" where
  "build_key k (Open fs (Jobject m) None) =
     Some (Open fs (Jobject (map_emplace k Jnull m)) (Some k))"
| "build_key k B = None"

fun build_close :: "builder \<Rightarrow> builder option" where
  "build_close (Open [] c None) = Some (Done c)"
| "build_close (Open (f # fs) c None) = Some (Open fs (fill f c) None)"
| "build_close B = None"

fun build :: "event \<Rightarrow> builder \<Rightarrow> builder option" where
  "build Ev_null B = build_value Jnull B"
| "build (Ev_boolean b) B = build_value (Jboolean b) B"
| "build (Ev_number_integer n) B = build_value (Jnumber_integer n) B"
| "build (Ev_number_unsigned n) B = build_value (Jnumber_unsigned n) B"
| "build (Ev_number_float x t) B = build_value (Jnumber_float x) B"
| "build (Ev_string s) B = build_value (Jstring s) B"
| "build (Ev_start_object n) B = build_open (Jobject []) B"
| "build (Ev_key k) B = build_key k B"
| "build Ev_end_object B = build_close B"
| "build (Ev_start_array n) B = build_open (Jarray []) B"
| "build Ev_end_array B = build_close B"
| "build (Ev_parse_error _ _ _) B = None"

fun builds :: "event list \<Rightarrow> builder \<Rightarrow> builder option" where
  "builds [] B = Some B"
| "builds (ev # evs) B = (case build ev B of Some B' \<Rightarrow> builds evs B' | None \<Rightarrow> None)"

fun is_arr_frame :: "frame \<Rightarrow> bool" where
  "is_arr_frame (Arr_frame _) \<longleftrightarrow> True"
| "is_arr_frame (Obj_frame _ _) \<longleftrightarrow> False"

text \<open>The builder's state is well-formed and in step with the protocol.\<close>

fun builder_inv :: "mode \<times> bool list \<Rightarrow> builder \<Rightarrow> bool" where
  "builder_inv ps Start \<longleftrightarrow> ps = (Expect, [])"
| "builder_inv ps (Done v) \<longleftrightarrow> ps = (After, []) \<and> json_wf v"
| "builder_inv ps (Open fs (Jarray xs) None) \<longleftrightarrow>
     ps = (After, True # map is_arr_frame fs) \<and> list_all frame_wf fs \<and> json_wf (Jarray xs)"
| "builder_inv ps (Open fs (Jobject m) None) \<longleftrightarrow>
     ps = (After, False # map is_arr_frame fs) \<and> list_all frame_wf fs \<and> json_wf (Jobject m)"
| "builder_inv ps (Open fs (Jobject m) (Some k)) \<longleftrightarrow>
     ps = (Expect, False # map is_arr_frame fs) \<and> list_all frame_wf fs \<and> json_wf (Jobject m) \<and>
     map_find m k \<noteq> None"
| "builder_inv ps B \<longleftrightarrow> False"

lemma builder_inv_cases [elim]:
  assumes "builder_inv ps B"
  obtains (Start) "B = Start" "ps = (Expect, [])"
    | (Done) v where "B = Done v" "ps = (After, [])" "json_wf v"
    | (Array) fs xs where "B = Open fs (Jarray xs) None" "ps = (After, True # map is_arr_frame fs)"
        "list_all frame_wf fs" "json_wf (Jarray xs)"
    | (Object) fs m where "B = Open fs (Jobject m) None" "ps = (After, False # map is_arr_frame fs)"
        "list_all frame_wf fs" "json_wf (Jobject m)"
    | (Member) fs m k where "B = Open fs (Jobject m) (Some k)"
        "ps = (Expect, False # map is_arr_frame fs)" "list_all frame_wf fs" "json_wf (Jobject m)"
        "map_find m k \<noteq> None"
  using assms by (cases "(ps, B)" rule: builder_inv.cases) auto

lemma build_value_inv:
  assumes "builder_inv (md, st) B" "starts_value md st" "json_wf v"
  shows "\<exists>B'. build_value v B = Some B' \<and> builder_inv (After, st) B'"
  using assms(1)
proof (cases rule: builder_inv_cases)
  case (Member fs m k)
  then show ?thesis using assms json_wf_assign [of m v k] by (simp del: json_wf.simps)
qed (use assms in auto)

lemma build_open_inv:
  assumes "builder_inv (md, st) B" "starts_value md st"
  shows "\<exists>B'. build_open (Jarray []) B = Some B' \<and> builder_inv (After, True # st) B'"
    and "\<exists>B'. build_open (Jobject []) B = Some B' \<and> builder_inv (After, False # st) B'"
  using assms by (auto simp: std_map.invar_empty)

lemma builder_inv_fill:
  assumes "list_all frame_wf (f # fs)" "json_wf v"
  shows "builder_inv (After, map is_arr_frame (f # fs)) (Open fs (fill f v) None)"
  using assms json_wf_fill [of f v] by (cases f) (simp_all del: json_wf.simps)

lemma build_close_inv:
  assumes "builder_inv (After, b # st) B"
  shows "\<exists>B'. build_close B = Some B' \<and> builder_inv (After, st) B'"
proof -
  obtain fs c where B: "B = Open fs c None" "list_all frame_wf fs" "json_wf c" "st = map is_arr_frame fs"
    using assms by (auto simp del: json_wf.simps)
  then show ?thesis
    using builder_inv_fill [of "hd fs" "tl fs" c] by (cases fs) simp_all
qed

lemma build_key_inv:
  assumes "builder_inv (After, False # st) B"
  shows "\<exists>B'. build_key k B = Some B' \<and> builder_inv (Expect, False # st) B'"
proof -
  obtain fs m where B: "B = Open fs (Jobject m) None" "list_all frame_wf fs" "json_wf (Jobject m)"
      "st = map is_arr_frame fs"
    using assms by (auto simp del: json_wf.simps)
  then show ?thesis
    using json_wf_emplace [of m Jnull k] map_find_emplace_same [of k Jnull m]
    by (simp del: json_wf.simps(1))
qed

lemma build_inv:
  assumes "protocol ev ps = Some ps'" "builder_inv ps B"
  shows "\<exists>B'. build ev B = Some B' \<and> builder_inv ps' B'"
proof (cases ps)
  case (Pair md st)
  then show ?thesis
    using assms build_value_inv [of md st B] build_open_inv [of md st B]
      build_close_inv [of "hd st" "tl st" B] build_key_inv [of "tl st" B]
    by (cases ev) (force split: if_splits)+
qed

section \<open>The DOM parser implements the builder\<close>

definition dom_rel :: "builder \<Rightarrow> dom_parser \<Rightarrow> bool" where
  "dom_rel B d \<longleftrightarrow> \<not> errored d \<and>
     (case B of
        Start \<Rightarrow> ref_stack d = []
      | Done v \<Rightarrow> ref_stack d = [] \<and> root d = v
      | Open fs c k \<Rightarrow> ref_stack d = paths fs \<and> root d = plug fs c \<and>
          (\<forall>k'. k = Some k' \<longrightarrow> object_element d = Some (path fs @ [Key k'])))"

lemma paths_path: "paths fs = path fs # tl (paths fs)"
  by (cases fs) simp_all

lemma assign_at_member:
  "list_all frame_wf fs \<Longrightarrow> map_find m k \<noteq> None \<Longrightarrow>
     assign_at (path fs @ [Key k]) v (plug fs (Jobject m)) = plug fs (Jobject (map_assign k v m))"
  by (auto simp: assign_at_append [OF deref_path] assign_at_path json_child_def json_set_child_def)

text \<open>\<open>handle_value\<close> returns the path of the place the value was put at.\<close>

lemma handle_value_sim:
  assumes rel: "dom_rel B d" and inv: "builder_inv (md, st) B" and start: "starts_value md st"
  shows "\<exists>p d'. handle_value v d = Inr (p, d') \<and>
    (\<forall>B'. build_value v B = Some B' \<longrightarrow> dom_rel B' d') \<and>
    (\<forall>B'. build_open v B = Some B' \<longrightarrow> dom_rel B' (d'\<lparr>ref_stack := p # ref_stack d'\<rparr>)) \<and>
    allow_exceptions d' = allow_exceptions d"
  using inv
proof (cases rule: builder_inv_cases)
  case (Array fs xs)
  then show ?thesis
    using rel paths_path [of fs]
    by (auto simp: dom_rel_def handle_value_def deref_path assign_at_path split: list.splits)
next
  case (Member fs m k)
  then show ?thesis
    using rel paths_path [of fs]
    by (auto simp: dom_rel_def handle_value_def deref_path assign_at_member split: list.splits)
qed (use rel start in \<open>auto simp: dom_rel_def handle_value_def\<close>)

lemma dom_value_sim:
  assumes "dom_rel B d" "builder_inv (md, st) B" "starts_value md st" "build_value v B = Some B'"
  shows "\<exists>d'. dom_value v d = Inr (True, d') \<and> dom_rel B' d' \<and> allow_exceptions d' = allow_exceptions d"
  using handle_value_sim [OF assms(1-3), of v] assms(4) by (auto simp: dom_value_def)

lemma dom_start_sim:
  assumes "dom_rel B d" "builder_inv (md, st) B" "starts_value md st"
  shows "build_open (Jobject []) B = Some B' \<Longrightarrow>
      \<exists>d'. dom_start_object max_size unknown_size d = Inr (True, d') \<and> dom_rel B' d' \<and>
        allow_exceptions d' = allow_exceptions d"
    and "build_open (Jarray []) B = Some B' \<Longrightarrow>
      \<exists>d'. dom_start_array max_size unknown_size d = Inr (True, d') \<and> dom_rel B' d' \<and>
        allow_exceptions d' = allow_exceptions d"
  using handle_value_sim [OF assms, of "Jobject []"] handle_value_sim [OF assms, of "Jarray []"]
  by (auto simp: dom_start_object_def dom_start_array_def)

lemma dom_end_sim:
  assumes "dom_rel B d" "builder_inv (After, b # st) B" "build_close B = Some B'"
  shows "\<exists>d'. dom_end_object d = Inr (True, d') \<and> dom_rel B' d' \<and> allow_exceptions d' = allow_exceptions d"
    and "\<exists>d'. dom_end_array d = Inr (True, d') \<and> dom_rel B' d' \<and> allow_exceptions d' = allow_exceptions d"
proof -
  obtain fs c where "B = Open fs c None" using assms(2) by auto
  then have "ref_stack d \<noteq> [] \<and> dom_rel B' (d\<lparr>ref_stack := tl (ref_stack d)\<rparr>)"
    using assms(1,3) by (cases fs) (auto simp: dom_rel_def)
  then show "\<exists>d'. dom_end_object d = Inr (True, d') \<and> dom_rel B' d' \<and> allow_exceptions d' = allow_exceptions d"
    "\<exists>d'. dom_end_array d = Inr (True, d') \<and> dom_rel B' d' \<and> allow_exceptions d' = allow_exceptions d"
    by (auto simp: dom_end_object_def dom_end_array_def split: list.splits)
qed

lemma dom_key_sim:
  assumes "dom_rel B d" "builder_inv (After, False # st) B" "build_key k B = Some B'"
  shows "\<exists>d'. dom_key k d = Inr (True, d') \<and> dom_rel B' d' \<and> allow_exceptions d' = allow_exceptions d"
  using assms(2)
proof (cases rule: builder_inv_cases)
  case (Object fs m)
  then show ?thesis
    using assms(1,3) paths_path [of fs]
    by (auto simp: dom_rel_def dom_key_def deref_path assign_at_path split: list.splits)
qed simp_all

lemma dom_parser_events [simp]:
  "sax_null (json_sax_dom_parser max_size) = dom_value Jnull"
  "sax_boolean (json_sax_dom_parser max_size) b = dom_value (Jboolean b)"
  "sax_number_integer (json_sax_dom_parser max_size) n = dom_value (Jnumber_integer n)"
  "sax_number_unsigned (json_sax_dom_parser max_size) n = dom_value (Jnumber_unsigned n)"
  "sax_number_float (json_sax_dom_parser max_size) x t = dom_value (Jnumber_float x)"
  "sax_string (json_sax_dom_parser max_size) s = dom_value (Jstring s)"
  "sax_start_object (json_sax_dom_parser max_size) = dom_start_object max_size"
  "sax_key (json_sax_dom_parser max_size) = dom_key"
  "sax_end_object (json_sax_dom_parser max_size) = dom_end_object"
  "sax_start_array (json_sax_dom_parser max_size) = dom_start_array max_size"
  "sax_end_array (json_sax_dom_parser max_size) = dom_end_array"
  "sax_parse_error (json_sax_dom_parser max_size) = dom_parse_error"
  by (simp_all add: json_sax_dom_parser_def)

lemma dom_event_sim:
  assumes ps: "protocol ev (md, st) = Some ps'" and inv: "builder_inv (md, st) B" and rel: "dom_rel B d"
  shows "\<exists>B' d'. build ev B = Some B' \<and> builder_inv ps' B' \<and>
    apply_event (json_sax_dom_parser max_size) ev d = Inr (True, d') \<and> dom_rel B' d' \<and>
    allow_exceptions d' = allow_exceptions d"
proof -
  obtain B' where B': "build ev B = Some B'" "builder_inv ps' B'"
    using build_inv [OF ps inv] by blast
  have "\<exists>d'. apply_event (json_sax_dom_parser max_size) ev d = Inr (True, d') \<and> dom_rel B' d' \<and>
      allow_exceptions d' = allow_exceptions d"
  proof (cases ev)
    case (Ev_start_object n)
    then show ?thesis
      using ps B'(1) dom_start_sim(1) [OF rel inv, of B' max_size] by (simp split: if_splits)
  next
    case (Ev_start_array n)
    then show ?thesis
      using ps B'(1) dom_start_sim(2) [OF rel inv, of B' max_size] by (simp split: if_splits)
  next
    case (Ev_key k)
    then show ?thesis
      using ps B'(1) inv dom_key_sim [OF rel, of "tl st" k B'] by (cases st) (simp_all split: if_splits)
  next
    case Ev_end_object
    then show ?thesis
      using ps B'(1) inv dom_end_sim(1) [OF rel, of "hd st" "tl st" B']
      by (cases st) (simp_all split: if_splits)
  next
    case Ev_end_array
    then show ?thesis
      using ps B'(1) inv dom_end_sim(2) [OF rel, of "hd st" "tl st" B']
      by (cases st) (simp_all split: if_splits)
  qed (use ps B'(1) dom_value_sim [OF rel inv] in \<open>auto split: if_splits\<close>)
  with B' show ?thesis by blast
qed

definition dom_inv :: "bool \<Rightarrow> mode \<times> bool list \<Rightarrow> dom_parser \<Rightarrow> bool" where
  "dom_inv allow ps d \<longleftrightarrow>
     (\<exists>B. builder_inv ps B \<and> dom_rel B d) \<and> allow_exceptions d = allow"

interpretation dom: sax_consumer "json_sax_dom_parser max_size" "dom_inv allow" for max_size allow
proof (unfold_locales, goal_cases)
  case (1 ev ps ps' s)
  then show ?case
    using dom_event_sim [of ev "fst ps" "snd ps" ps' _ s max_size] by (fastforce simp: dom_inv_def)
next
  case (2 ps s pos t ex)
  then show ?case by (simp add: dom_parse_error_def)
qed

text \<open>The value built from a complete run of events is the builder's.\<close>

lemma run_events_builds:
  assumes "protocol_run es ps = Some ps'" "builder_inv ps B" "dom_rel B d"
  shows "\<exists>B' d'. builds es B = Some B' \<and> builder_inv ps' B' \<and> dom_rel B' d' \<and>
    run_events (json_sax_dom_parser max_size) es d = Inr (True, d', []) \<and>
    allow_exceptions d' = allow_exceptions d"
  using assms
proof (induction es arbitrary: ps B d)
  case (Cons ev es)
  then obtain ps1 where ps1: "protocol ev ps = Some ps1" "protocol_run es ps1 = Some ps'"
    by (auto split: option.splits)
  obtain B1 d1 where 1: "build ev B = Some B1" "builder_inv ps1 B1" "dom_rel B1 d1"
    "apply_event (json_sax_dom_parser max_size) ev d = Inr (True, d1)"
    "allow_exceptions d1 = allow_exceptions d"
    using dom_event_sim [of ev "fst ps" "snd ps" ps1 B d max_size] ps1 Cons.prems by auto
  from Cons.IH [OF ps1(2) 1(2,3)] 1 show ?case by auto
qed auto

section \<open>Assignment to a member\<close>

text \<open>\<^verbatim>\<open>j[k] = v\<close> on an object succeeds, keeps the members sorted and distinct, stores \<open>v\<close> under \<open>k\<close>
  and leaves what \<^verbatim>\<open>at\<close> finds, or reports, for every other key.\<close>

lemma object_assignment:
  assumes "json_wf (Jobject m)" "json_wf v"
  shows "\<exists>j. set_key k v (Jobject m) = Inr j \<and> json_wf j \<and> at_key k j = Inr v \<and>
    (\<forall>k'. k' \<noteq> k \<longrightarrow> at_key k' j = at_key k' (Jobject m))"
proof -
  let ?m = "map_assign k v (map_emplace k Jnull m)"
  have "json_wf (Jobject ?m)" using assms by (intro json_wf_assign json_wf_emplace) auto
  moreover have "map_find ?m k' = (if k' = k then Some v else map_find m k')" for k'
    using std_map.find_store [of m k v Jnull k'] assms(1) by simp
  moreover have "set_key k v (Jobject m) = Inr (Jobject ?m)"
    by (simp add: set_key_def index_key_def is_null_def Let_def)
  ultimately show ?thesis by (simp add: at_key_def)
qed

lemma object_assignment_witness:
  "\<exists>j. set_key ''b'' (Jboolean True) (Jobject [(''a'', Jnull)]) = Inr j \<and> at_key ''a'' j = Inr Jnull \<and>
     at_key ''c'' j \<noteq> Inr Jnull"
  using object_assignment [of "[(''a'', Jnull)]" "Jboolean True" "''b''"]
  by (auto simp: map_inv_def at_key_def)

end
