(* ===== verification/Json_Parse_Text.thy ===== *)
theory Json_Parse_Text
  imports Json_Grammar Json_Builder
begin

text \<open>
  The parser is complete for the grammar: on every text of \<open>json_text\<close> it succeeds, and the value
  it builds is \<open>normalise\<close> of the value as written, in which the members of every object have been
  stored one after the other (so that of several members with one key the last is kept, and the
  keys come out in order).
\<close>

section \<open>The value a text denotes\<close>

definition store :: "string \<times> json \<Rightarrow> (string \<times> json) list \<Rightarrow> (string \<times> json) list" where
  "store kv m = map_assign (fst kv) (snd kv) (map_emplace (fst kv) Jnull m)"

fun normalise :: "json \<Rightarrow> json" where
  "normalise (Jarray xs) = Jarray (map normalise xs)"
| "normalise (Jobject m) = Jobject (fold store (map (\<lambda>kv. (fst kv, normalise (snd kv))) m) [])"
| "normalise j = j"

definition normalise_member :: "string \<times> json \<Rightarrow> string \<times> json" where
  "normalise_member kv = (fst kv, normalise (snd kv))"

lemma normalise_object: "normalise (Jobject m) = Jobject (fold store (map normalise_member m) [])"
  by (simp add: normalise_member_def [abs_def])

section \<open>Events of a text\<close>

lemma builds_append:
  "builds (es @ es') B = (case builds es B of Some B' \<Rightarrow> builds es' B' | None \<Rightarrow> None)"
  by (induction es arbitrary: B) (auto split: option.splits)

definition at_text :: "lexer_config \<Rightarrow> parser \<Rightarrow> string \<Rightarrow> bool" where
  "at_text cfg p s \<longleftrightarrow> lexer_at cfg (m_lexer p) s"

lemma next_token_eq: "scan (m_lexer p) = (t, l) \<Longrightarrow> next_token p = p\<lparr>last_token := t, m_lexer := l\<rparr>"
  by (simp add: next_token_def)

lemma next_token_punctuation:
  assumes "at_text cfg p (w @ c # s)" "ws w"
    and "(c, t) \<in> {(CHR ''['', tok_begin_array), (CHR '']'', tok_end_array), (CHR ''{'', tok_begin_object),
      (CHR ''}'', tok_end_object), (CHR '':'', tok_name_separator), (CHR '','', tok_value_separator)}"
  shows "last_token (next_token p) = t \<and> at_text cfg (next_token p) s"
  using scan_punctuation [of cfg "m_lexer p" w c s t] assms by (auto simp: at_text_def next_token_eq)

lemma next_token_key:
  assumes "at_text cfg p (w @ CHR 0x22 # k @ CHR 0x22 # s)" "ws w" "string_text cps k"
  shows "last_token (next_token p) = tok_value_string" "at_text cfg (next_token p) s"
    "token_buffer (m_lexer (next_token p)) = utf8_text cps"
  using scan_string_key [of cfg "m_lexer p" w k s cps] assms by (auto simp: at_text_def next_token_eq)

lemma next_token_scalar:
  assumes "scalar_text (snd cfg) v t" "at_text cfg p (w @ t @ s)" "ws w" "number_ends s"
  shows "token_json (last_token (next_token p), m_lexer (next_token p)) = Some v \<and> at_text cfg (next_token p) s"
  using scan_scalar [of cfg v t "m_lexer p" w s] assms
  by (cases "scan (m_lexer p)") (auto simp: at_text_def next_token_eq)

lemma parse_value_scalar:
  assumes "token_json (last_token p, m_lexer p) = Some v"
  shows "\<exists>ev. parse_value recorder p st evs = Inr (Evaluate, p, st, evs @ [ev]) \<and>
    (\<forall>B. build ev B = build_value v B)"
  using assms
  by (cases "last_token p") (auto simp: parse_value_def sax_call_def Let_def split: if_splits)

lemma loop_after_value:
  "parse_value recorder p st evs = Inr (Evaluate, p', st, evs') \<Longrightarrow>
     sax_parse_loop recorder False p st evs = sax_parse_loop recorder True p' st evs'"
  by (simp add: sax_parse_loop_halves after_value_def)

lemma loop_continue:
  "parse_value recorder p st evs = Inr (Continue, p', st', evs') \<Longrightarrow>
     sax_parse_loop recorder False p st evs = sax_parse_loop recorder False p' st' evs'"
  by (simp add: sax_parse_loop_halves after_value_def)

text \<open>What the loop does with the text of a value, of the elements of an array and of the members of
  an object, up to the point behind it.\<close>

definition value_parsed :: "lexer_config \<Rightarrow> json \<Rightarrow> string \<Rightarrow> bool" where
  "value_parsed cfg v s \<longleftrightarrow>
     (\<forall>p st evs w rest. at_text cfg p (w @ s @ rest) \<longrightarrow> ws w \<longrightarrow> number_ends rest \<longrightarrow>
       last_token (next_token p) \<noteq> tok_end_array \<and>
       (\<exists>p' es. sax_parse_loop recorder False (next_token p) st evs =
            sax_parse_loop recorder True p' st (evs @ es) \<and>
          at_text cfg p' rest \<and> (\<forall>B. builds es B = build_value (normalise v) B)))"

definition elements_parsed :: "lexer_config \<Rightarrow> json list \<Rightarrow> string \<Rightarrow> bool" where
  "elements_parsed cfg xs s \<longleftrightarrow>
     (\<forall>p st evs rest. at_text cfg p (s @ CHR '']'' # rest) \<longrightarrow>
       last_token (next_token p) \<noteq> tok_end_array \<and>
       (\<exists>p' es. sax_parse_loop recorder False (next_token p) (True # st) evs =
            sax_parse_loop recorder True p' st (evs @ es) \<and>
          at_text cfg p' rest \<and>
          (\<forall>fs ys. builds es (Open fs (Jarray ys) None) =
             build_close (Open fs (Jarray (ys @ map normalise xs)) None))))"

text \<open>The loop is entered behind the first key and its colon.\<close>

definition members_parsed :: "lexer_config \<Rightarrow> (string \<times> json) list \<Rightarrow> string \<Rightarrow> bool" where
  "members_parsed cfg m s \<longleftrightarrow>
     (\<forall>p st evs rest. at_text cfg p (s @ CHR ''}'' # rest) \<longrightarrow>
       (let p1 = next_token p; p2 = next_token p1; k = token_buffer (m_lexer p1)
        in last_token p1 = tok_value_string \<and> last_token p2 = tok_name_separator \<and>
          (\<exists>p' es. sax_parse_loop recorder False (next_token p2) (False # st) (evs @ [Ev_key k]) =
              sax_parse_loop recorder True p' st (evs @ Ev_key k # es) \<and>
            at_text cfg p' rest \<and>
            (\<forall>fs m0. builds (Ev_key k # es) (Open fs (Jobject m0) None) =
               build_close (Open fs (Jobject (fold store (map normalise_member m) m0)) None)))))"

lemma number_ends_punctuation: "ws w \<Longrightarrow> c \<in> set '',]}'' \<Longrightarrow> number_ends (w @ c # s)"
  by (cases w) (auto simp: number_ends_def ws_def is_ws_def is_digit_def)

text \<open>Steps of the loop at punctuation.\<close>

lemma loop_array_next:
  assumes "at_text cfg p (w @ CHR '','' # s)" "ws w"
  shows "sax_parse_loop recorder True p (True # st) evs =
      sax_parse_loop recorder False (next_token (next_token p)) (True # st) evs"
    and "at_text cfg (next_token p) s"
  using next_token_punctuation [OF assms, of tok_value_separator]
  by (auto simp: sax_parse_loop_halves after_evaluation_def evaluate_state_def evaluate_array_eq)

lemma loop_array_end:
  assumes "at_text cfg p (w @ CHR '']'' # s)" "ws w"
  shows "sax_parse_loop recorder True p (True # st) evs =
      sax_parse_loop recorder True (next_token p) st (evs @ [Ev_end_array])"
    and "at_text cfg (next_token p) s"
  using next_token_punctuation [OF assms, of tok_end_array]
  by (auto simp: sax_parse_loop_halves after_evaluation_def evaluate_state_def evaluate_array_eq
      sax_call_def)

lemma loop_object_next:
  assumes "at_text cfg p (w @ CHR '','' # s)" "ws w"
    and "last_token (next_token (next_token p)) = tok_value_string"
    and "last_token (next_token (next_token (next_token p))) = tok_name_separator"
  shows "sax_parse_loop recorder True p (False # st) evs =
      sax_parse_loop recorder False (next_token (next_token (next_token (next_token p)))) (False # st)
        (evs @ [Ev_key (token_buffer (m_lexer (next_token (next_token p))))])"
  using next_token_punctuation [OF assms(1,2), of tok_value_separator] assms(3,4)
  by (auto simp: sax_parse_loop_halves after_evaluation_def evaluate_state_def evaluate_object_eq
      sax_call_def Let_def)

lemma loop_object_end:
  assumes "at_text cfg p (w @ CHR ''}'' # s)" "ws w"
  shows "sax_parse_loop recorder True p (False # st) evs =
      sax_parse_loop recorder True (next_token p) st (evs @ [Ev_end_object])"
    and "at_text cfg (next_token p) s"
  using next_token_punctuation [OF assms, of tok_end_object]
  by (auto simp: sax_parse_loop_halves after_evaluation_def evaluate_state_def evaluate_object_eq
      sax_call_def)

lemma value_parsedE:
  assumes "value_parsed cfg v s" "at_text cfg p (w @ s @ rest)" "ws w" "number_ends rest"
  obtains p' es where "sax_parse_loop recorder False (next_token p) st evs =
      sax_parse_loop recorder True p' st (evs @ es)"
    "at_text cfg p' rest" "\<forall>B. builds es B = build_value (normalise v) B"
    "last_token (next_token p) \<noteq> tok_end_array"
  using assms unfolding value_parsed_def by metis

text \<open>Opening and closing a container around its contents.\<close>

lemma builds_container:
  assumes "\<And>fs. builds es (Open fs c None) = build_close (Open fs v None)"
    and "\<And>B. build ev B = build_open c B"
  shows "builds (ev # es) B = build_value v B"
proof -
  have close: "build_close (Open (Arr_frame xs # fs) v None) = Some (Open fs (Jarray (xs @ [v])) None)"
    "build_close (Open (Obj_frame m k # fs) v None) = Some (Open fs (Jobject (map_assign k v m)) None)"
    "build_close (Open [] v None) = Some (Done v)" for xs fs m k by simp_all
  show ?thesis
    by (cases "(v, B)" rule: build_value.cases) (simp_all add: assms close del: build_close.simps)
qed

lemma scalar_parsed: "scalar_text (snd cfg) v s \<Longrightarrow> value_parsed cfg v s"
  unfolding value_parsed_def
proof (intro allI impI)
  fix p st evs w rest
  assume t: "scalar_text (snd cfg) v s" "at_text cfg p (w @ s @ rest)" "ws w" "number_ends rest"
  note tok = next_token_scalar [OF t]
  then obtain ev where ev: "parse_value recorder (next_token p) st evs = Inr (Evaluate, next_token p, st, evs @ [ev])"
    "\<forall>B. build ev B = build_value v B"
    using parse_value_scalar by blast
  have "normalise v = v" using t(1) by cases (auto simp: number_value_def Let_def)
  with loop_after_value [OF ev(1)] ev(2) tok show
    "last_token (next_token p) \<noteq> tok_end_array \<and>
     (\<exists>p' es. sax_parse_loop recorder False (next_token p) st evs = sax_parse_loop recorder True p' st (evs @ es) \<and>
        at_text cfg p' rest \<and> (\<forall>B. builds es B = build_value (normalise v) B))"
    by (intro conjI exI [of _ "next_token p"] exI [of _ "[ev]"]) (auto split: option.splits)
qed

lemma array_parsed:
  assumes elems: "elements_parsed cfg xs s"
  shows "value_parsed cfg (Jarray xs) (CHR ''['' # s @ '']'')"
  unfolding value_parsed_def
proof (intro allI impI)
  fix p st evs w rest
  assume at: "at_text cfg p (w @ (CHR ''['' # s @ '']'') @ rest)" and w: "ws w"
  let ?p = "next_token p" and ?q = "next_token (next_token p)"
  have tok: "last_token ?p = tok_begin_array" "at_text cfg ?p (s @ CHR '']'' # rest)"
    using next_token_punctuation [of cfg p w "CHR ''[''" "s @ CHR '']'' # rest" tok_begin_array] at w by auto
  from elems tok(2) obtain p' es where e: "last_token ?q \<noteq> tok_end_array"
    "sax_parse_loop recorder False ?q (True # st) (evs @ [Ev_start_array unknown_size]) =
       sax_parse_loop recorder True p' st ((evs @ [Ev_start_array unknown_size]) @ es)" "at_text cfg p' rest"
    "\<forall>fs ys. builds es (Open fs (Jarray ys) None) =
       build_close (Open fs (Jarray (ys @ map normalise xs)) None)"
    unfolding elements_parsed_def by metis
  have "parse_value recorder ?p st evs = Inr (Continue, ?q, True # st, evs @ [Ev_start_array unknown_size])"
    using tok e(1) by (simp add: parse_value_def parse_begin_array_eq sax_call_def Let_def)
  from loop_continue [OF this] e tok(1)
    builds_container [of es "Jarray []" "normalise (Jarray xs)" "Ev_start_array unknown_size"]
  show "last_token ?p \<noteq> tok_end_array \<and>
    (\<exists>p' es. sax_parse_loop recorder False ?p st evs = sax_parse_loop recorder True p' st (evs @ es) \<and>
      at_text cfg p' rest \<and> (\<forall>B. builds es B = build_value (normalise (Jarray xs)) B))"
    by (intro conjI exI [of _ p'] exI [of _ "Ev_start_array unknown_size # es"])
      (simp_all del: builds.simps build_close.simps)
qed

lemma empty_array_parsed:
  assumes "ws w'"
  shows "value_parsed cfg (Jarray []) (CHR ''['' # w' @ '']'')"
  unfolding value_parsed_def
proof (intro allI impI)
  fix p st evs w rest
  assume at: "at_text cfg p (w @ (CHR ''['' # w' @ '']'') @ rest)" and w: "ws w"
  let ?p = "next_token p" and ?q = "next_token (next_token p)" and ?ev = "Ev_start_array unknown_size"
  have tok: "last_token ?p = tok_begin_array" "at_text cfg ?p (w' @ CHR '']'' # rest)"
    using next_token_punctuation [of cfg p w "CHR ''[''" "w' @ CHR '']'' # rest" tok_begin_array] at w by auto
  note q = next_token_punctuation [OF tok(2) assms, of tok_end_array]
  have "parse_value recorder ?p st evs = Inr (Evaluate, ?q, st, evs @ [?ev, Ev_end_array])"
    using tok q by (simp add: parse_value_def parse_begin_array_eq sax_call_def Let_def)
  from loop_after_value [OF this] q tok(1) builds_container [of "[Ev_end_array]" "Jarray []" "Jarray []" ?ev]
  show "last_token ?p \<noteq> tok_end_array \<and>
    (\<exists>p' es. sax_parse_loop recorder False ?p st evs = sax_parse_loop recorder True p' st (evs @ es) \<and>
      at_text cfg p' rest \<and> (\<forall>B. builds es B = build_value (normalise (Jarray [])) B))"
    by (intro conjI exI [of _ ?q] exI [of _ "[?ev, Ev_end_array]"]) (auto split: option.splits)
qed

lemma empty_object_parsed:
  assumes "ws w'"
  shows "value_parsed cfg (Jobject []) (CHR ''{'' # w' @ ''}'')"
  unfolding value_parsed_def
proof (intro allI impI)
  fix p st evs w rest
  assume at: "at_text cfg p (w @ (CHR ''{'' # w' @ ''}'') @ rest)" and w: "ws w"
  let ?p = "next_token p" and ?q = "next_token (next_token p)" and ?ev = "Ev_start_object unknown_size"
  have tok: "last_token ?p = tok_begin_object" "at_text cfg ?p (w' @ CHR ''}'' # rest)"
    using next_token_punctuation [of cfg p w "CHR ''{''" "w' @ CHR ''}'' # rest" tok_begin_object] at w by auto
  note q = next_token_punctuation [OF tok(2) assms, of tok_end_object]
  have "parse_value recorder ?p st evs = Inr (Evaluate, ?q, st, evs @ [?ev, Ev_end_object])"
    using tok q by (simp add: parse_value_def parse_begin_object_eq sax_call_def Let_def)
  from loop_after_value [OF this] q tok(1) builds_container [of "[Ev_end_object]" "Jobject []" "Jobject []" ?ev]
  show "last_token ?p \<noteq> tok_end_array \<and>
    (\<exists>p' es. sax_parse_loop recorder False ?p st evs = sax_parse_loop recorder True p' st (evs @ es) \<and>
      at_text cfg p' rest \<and> (\<forall>B. builds es B = build_value (normalise (Jobject [])) B))"
    by (intro conjI exI [of _ ?q] exI [of _ "[?ev, Ev_end_object]"]) (auto split: option.splits)
qed

lemma object_parsed:
  assumes mem: "members_parsed cfg m s"
  shows "value_parsed cfg (Jobject m) (CHR ''{'' # s @ ''}'')"
  unfolding value_parsed_def
proof (intro allI impI)
  fix p st evs w rest
  assume at: "at_text cfg p (w @ (CHR ''{'' # s @ ''}'') @ rest)" and w: "ws w"
  let ?p = "next_token p" and ?ev = "Ev_start_object unknown_size"
  let ?p1 = "next_token ?p" let ?p2 = "next_token ?p1" let ?k = "token_buffer (m_lexer ?p1)"
  have tok: "last_token ?p = tok_begin_object" "at_text cfg ?p (s @ CHR ''}'' # rest)"
    using next_token_punctuation [of cfg p w "CHR ''{''" "s @ CHR ''}'' # rest" tok_begin_object] at w by auto
  from mem tok(2) obtain p' es where e: "last_token ?p1 = tok_value_string" "last_token ?p2 = tok_name_separator"
    "sax_parse_loop recorder False (next_token ?p2) (False # st) ((evs @ [?ev]) @ [Ev_key ?k]) =
       sax_parse_loop recorder True p' st ((evs @ [?ev]) @ Ev_key ?k # es)" "at_text cfg p' rest"
    "\<forall>fs m0. builds (Ev_key ?k # es) (Open fs (Jobject m0) None) =
       build_close (Open fs (Jobject (fold store (map normalise_member m) m0)) None)"
    unfolding members_parsed_def Let_def by metis
  have "parse_value recorder ?p st evs =
      Inr (Continue, next_token ?p2, False # st, (evs @ [?ev]) @ [Ev_key ?k])"
    using tok e(1,2) by (simp add: parse_value_def parse_begin_object_eq sax_call_def Let_def)
  from loop_continue [OF this] e tok(1)
    builds_container [of "Ev_key ?k # es" "Jobject []" "normalise (Jobject m)" ?ev]
  show "last_token ?p \<noteq> tok_end_array \<and>
    (\<exists>p' es. sax_parse_loop recorder False ?p st evs = sax_parse_loop recorder True p' st (evs @ es) \<and>
      at_text cfg p' rest \<and> (\<forall>B. builds es B = build_value (normalise (Jobject m)) B))"
    by (intro conjI exI [of _ p'] exI [of _ "?ev # Ev_key ?k # es"])
      (simp_all add: normalise_object del: builds.simps build_close.simps normalise.simps)
qed

lemma last_element_parsed:
  assumes v: "value_parsed cfg v s" and w: "ws w1" "ws w2"
  shows "elements_parsed cfg [v] (w1 @ s @ w2)"
  unfolding elements_parsed_def
proof (intro allI impI)
  fix p st evs rest
  assume "at_text cfg p ((w1 @ s @ w2) @ CHR '']'' # rest)"
  then have at: "at_text cfg p (w1 @ s @ w2 @ CHR '']'' # rest)" by simp
  have ne: "number_ends (w2 @ CHR '']'' # rest)" using w by (intro number_ends_punctuation) auto
  obtain p1 es where 1: "sax_parse_loop recorder False (next_token p) (True # st) evs =
      sax_parse_loop recorder True p1 (True # st) (evs @ es)"
    "at_text cfg p1 (w2 @ CHR '']'' # rest)" "\<forall>B. builds es B = build_value (normalise v) B"
    "last_token (next_token p) \<noteq> tok_end_array"
    by (rule value_parsedE [OF v at w(1) ne])
  note end' = loop_array_end [OF 1(2) w(2)]
  show "last_token (next_token p) \<noteq> tok_end_array \<and>
    (\<exists>p' es. sax_parse_loop recorder False (next_token p) (True # st) evs =
        sax_parse_loop recorder True p' st (evs @ es) \<and> at_text cfg p' rest \<and>
      (\<forall>fs ys. builds es (Open fs (Jarray ys) None) =
         build_close (Open fs (Jarray (ys @ map normalise [v])) None)))"
    using 1 end' by (intro conjI exI [of _ "next_token p1"] exI [of _ "es @ [Ev_end_array]"])
      (auto simp: builds_append split: option.splits)
qed

lemma element_parsed:
  assumes v: "value_parsed cfg v s" and w: "ws w1" "ws w2" and xs: "elements_parsed cfg xs s'"
  shows "elements_parsed cfg (v # xs) (w1 @ s @ w2 @ CHR '','' # s')"
  unfolding elements_parsed_def
proof (intro allI impI)
  fix p st evs rest
  let ?rest = "w2 @ CHR '','' # s' @ CHR '']'' # rest"
  assume "at_text cfg p ((w1 @ s @ w2 @ CHR '','' # s') @ CHR '']'' # rest)"
  then have at: "at_text cfg p (w1 @ s @ ?rest)" by simp
  have ne: "number_ends ?rest" using w by (intro number_ends_punctuation) auto
  obtain p1 es where 1: "sax_parse_loop recorder False (next_token p) (True # st) evs =
      sax_parse_loop recorder True p1 (True # st) (evs @ es)"
    "at_text cfg p1 ?rest" "\<forall>B. builds es B = build_value (normalise v) B"
    "last_token (next_token p) \<noteq> tok_end_array"
    by (rule value_parsedE [OF v at w(1) ne])
  note nx = loop_array_next [OF 1(2) w(2)]
  from xs nx(2) obtain p' es' where 2:
    "sax_parse_loop recorder False (next_token (next_token p1)) (True # st) (evs @ es) =
       sax_parse_loop recorder True p' st ((evs @ es) @ es')" "at_text cfg p' rest"
    "\<forall>fs ys. builds es' (Open fs (Jarray ys) None) =
       build_close (Open fs (Jarray (ys @ map normalise xs)) None)"
    unfolding elements_parsed_def by metis
  show "last_token (next_token p) \<noteq> tok_end_array \<and>
    (\<exists>p' es. sax_parse_loop recorder False (next_token p) (True # st) evs =
        sax_parse_loop recorder True p' st (evs @ es) \<and> at_text cfg p' rest \<and>
      (\<forall>fs ys. builds es (Open fs (Jarray ys) None) =
         build_close (Open fs (Jarray (ys @ map normalise (v # xs))) None)))"
    using 1 2 nx by (intro conjI exI [of _ p'] exI [of _ "es @ es'"]) (simp_all add: builds_append)
qed

text \<open>A key, its colon and its value, up to what follows the value.\<close>

lemma member_value:
  assumes k: "string_text cps k" and v: "value_parsed cfg v s" and w: "ws w1" "ws w2" "ws w3"
    and at: "at_text cfg p (w1 @ CHR 0x22 # k @ CHR 0x22 # w2 @ CHR '':'' # w3 @ s @ rest)"
    and ne: "number_ends rest"
  obtains p' es where "last_token (next_token p) = tok_value_string"
    "last_token (next_token (next_token p)) = tok_name_separator"
    "token_buffer (m_lexer (next_token p)) = utf8_text cps"
    "sax_parse_loop recorder False (next_token (next_token (next_token p))) (False # st) evs =
       sax_parse_loop recorder True p' (False # st) (evs @ es)"
    "at_text cfg p' rest"
    "\<forall>fs m0. builds (Ev_key (utf8_text cps) # es) (Open fs (Jobject m0) None) =
       Some (Open fs (Jobject (store (utf8_text cps, normalise v) m0)) None)"
proof -
  note key = next_token_key [OF at w(1) k]
  have colon: "last_token (next_token (next_token p)) = tok_name_separator"
    "at_text cfg (next_token (next_token p)) (w3 @ s @ rest)"
    using next_token_punctuation [OF key(2) w(2), of tok_name_separator] by auto
  obtain p' es where 1: "sax_parse_loop recorder False (next_token (next_token (next_token p))) (False # st) evs =
      sax_parse_loop recorder True p' (False # st) (evs @ es)" "at_text cfg p' rest"
    "\<forall>B. builds es B = build_value (normalise v) B"
    by (rule value_parsedE [OF v colon(2) w(3) ne])
  then show thesis
    by (intro that [OF key(1) colon(1) key(3) 1(1,2)]) (simp add: store_def)
qed

lemma last_member_parsed:
  assumes k: "string_text cps k" and v: "value_parsed cfg v s" and w: "ws w1" "ws w2" "ws w3" "ws w4"
  shows "members_parsed cfg [(utf8_text cps, v)]
    (w1 @ CHR 0x22 # k @ CHR 0x22 # w2 @ CHR '':'' # w3 @ s @ w4)"
  unfolding members_parsed_def Let_def
proof (intro allI impI, goal_cases)
  case (1 p st evs rest)
  then have at: "at_text cfg p (w1 @ CHR 0x22 # k @ CHR 0x22 # w2 @ CHR '':'' # w3 @ s @ w4 @ CHR ''}'' # rest)"
    by simp
  have ne: "number_ends (w4 @ CHR ''}'' # rest)" using w by (intro number_ends_punctuation) auto
  obtain p1 es where 2: "last_token (next_token p) = tok_value_string"
    "last_token (next_token (next_token p)) = tok_name_separator"
    "token_buffer (m_lexer (next_token p)) = utf8_text cps"
    "sax_parse_loop recorder False (next_token (next_token (next_token p))) (False # st) (evs @ [Ev_key (utf8_text cps)]) =
       sax_parse_loop recorder True p1 (False # st) ((evs @ [Ev_key (utf8_text cps)]) @ es)"
    "at_text cfg p1 (w4 @ CHR ''}'' # rest)"
    "\<forall>fs m0. builds (Ev_key (utf8_text cps) # es) (Open fs (Jobject m0) None) =
       Some (Open fs (Jobject (store (utf8_text cps, normalise v) m0)) None)"
    by (rule member_value [OF k v w(1-3) at ne])
  note end' = loop_object_end [OF 2(5) w(4)]
  have "builds (Ev_key (utf8_text cps) # es @ [Ev_end_object]) (Open fs (Jobject m0) None) =
      build_close (Open fs (Jobject (store (utf8_text cps, normalise v) m0)) None)" for fs m0
    using 2(6) builds_append [of "Ev_key (utf8_text cps) # es" "[Ev_end_object]" "Open fs (Jobject m0) None"]
    by (simp del: builds.simps(2)) (simp split: option.splits)
  with 2 end' show ?case
    by (intro conjI exI [of _ "next_token p1"] exI [of _ "es @ [Ev_end_object]"])
      (simp_all add: normalise_member_def del: builds.simps)
qed

lemma member_parsed:
  assumes k: "string_text cps k" and v: "value_parsed cfg v s" and w: "ws w1" "ws w2" "ws w3" "ws w4"
    and m: "members_parsed cfg m s'"
  shows "members_parsed cfg ((utf8_text cps, v) # m)
    (w1 @ CHR 0x22 # k @ CHR 0x22 # w2 @ CHR '':'' # w3 @ s @ w4 @ CHR '','' # s')"
  unfolding members_parsed_def Let_def
proof (intro allI impI, goal_cases)
  case (1 p st evs rest)
  let ?rest = "w4 @ CHR '','' # s' @ CHR ''}'' # rest" and ?key = "Ev_key (utf8_text cps)"
  from 1 have at: "at_text cfg p (w1 @ CHR 0x22 # k @ CHR 0x22 # w2 @ CHR '':'' # w3 @ s @ ?rest)" by simp
  have ne: "number_ends ?rest" using w by (intro number_ends_punctuation) auto
  obtain p1 es where 2: "last_token (next_token p) = tok_value_string"
    "last_token (next_token (next_token p)) = tok_name_separator"
    "token_buffer (m_lexer (next_token p)) = utf8_text cps"
    "sax_parse_loop recorder False (next_token (next_token (next_token p))) (False # st) (evs @ [?key]) =
       sax_parse_loop recorder True p1 (False # st) ((evs @ [?key]) @ es)"
    "at_text cfg p1 ?rest"
    "\<forall>fs m0. builds (?key # es) (Open fs (Jobject m0) None) =
       Some (Open fs (Jobject (store (utf8_text cps, normalise v) m0)) None)"
    by (rule member_value [OF k v w(1-3) at ne])
  have q: "at_text cfg (next_token p1) (s' @ CHR ''}'' # rest)"
    using next_token_punctuation [OF 2(5) w(4), of tok_value_separator] by simp
  let ?k2 = "token_buffer (m_lexer (next_token (next_token p1)))"
  from m q obtain p' es' where 3: "last_token (next_token (next_token p1)) = tok_value_string"
    "last_token (next_token (next_token (next_token p1))) = tok_name_separator"
    "sax_parse_loop recorder False (next_token (next_token (next_token (next_token p1)))) (False # st)
         (((evs @ [?key]) @ es) @ [Ev_key ?k2]) =
       sax_parse_loop recorder True p' st (((evs @ [?key]) @ es) @ Ev_key ?k2 # es')" "at_text cfg p' rest"
    "\<forall>fs m0. builds (Ev_key ?k2 # es') (Open fs (Jobject m0) None) =
       build_close (Open fs (Jobject (fold store (map normalise_member m) m0)) None)"
    unfolding members_parsed_def Let_def by metis
  note nx = loop_object_next [OF 2(5) w(4) 3(1,2)]
  have "builds (?key # es @ Ev_key ?k2 # es') (Open fs (Jobject m0) None) =
      build_close (Open fs (Jobject (fold store (map normalise_member m) (store (utf8_text cps, normalise v) m0))) None)"
    for fs m0
    using 2(6) 3(5) builds_append [of "?key # es" "Ev_key ?k2 # es'" "Open fs (Jobject m0) None"]
    by (simp del: builds.simps)
  with 2 3 nx show ?case
    by (intro conjI exI [of _ p'] exI [of _ "es @ Ev_key ?k2 # es'"])
      (simp_all add: normalise_member_def del: builds.simps)
qed

theorem text_parsed:
  "json_text dp v s \<Longrightarrow> value_parsed (ig, dp) v s"
  "elements_text dp xs s \<Longrightarrow> elements_parsed (ig, dp) xs s"
  "members_text dp m s \<Longrightarrow> members_parsed (ig, dp) m s"
proof (induction rule: json_text_elements_text_members_text.inducts)
qed (simp_all add: scalar_parsed array_parsed empty_array_parsed empty_object_parsed object_parsed
      last_element_parsed element_parsed last_member_parsed member_parsed)

end
