(* ===== verification/Json_Parse.thy ===== *)
theory Json_Parse
  imports Json_Parse_Text
begin

text \<open>
  Results on the entry points \<open>json_parse\<close> and \<open>json_accept\<close>, from the event sequence of the input:
  every outcome, agreement of the two, well-formedness of parsed values, and completeness for the
  grammar.
\<close>

section \<open>All outcomes\<close>

lemma dom_inv_init: "dom_inv allow (Expect, []) (dom_init Jnull allow)"
  by (auto simp: dom_inv_def dom_init_def dom_rel_def intro: exI [of _ Start])

lemma recorder_run:
  obtains b q es where "sax_parse_internal recorder p [] = Inr (b, q, es)"
  using sax_parse_loop_events [of False p "[]" "[]" recorder "[]"] that
  by (auto simp: sax_parse_internal_def)

lemma run_protocol_internal:
  "sax_parse_internal recorder p [] = Inr (b, q, es) \<Longrightarrow> run_protocol (Expect, []) es b"
  using sax_parse_loop_protocol [of False p "[]" "[]" b q es Expect]
  by (simp add: sax_parse_internal_def)

text \<open>A run that succeeds builds a well-formed value.\<close>

lemma dom_run_ok:
  assumes rec: "sax_parse_internal recorder p [] = Inr (True, q, es)"
  obtains v d where "builds es Start = Some (Done v)" "json_wf v"
    "sax_parse_internal (json_sax_dom_parser ms) p (dom_init Jnull allow) = Inr (True, q, d)"
    "root d = v" "\<not> errored d" "allow_exceptions d = allow"
proof -
  have run: "protocol_run es (Expect, []) = Some (After, [])"
    using run_protocol_internal [OF rec] by (simp add: run_protocol_def)
  have "builder_inv (Expect, []) Start" "dom_rel Start (dom_init Jnull allow)"
    by (simp_all add: dom_rel_def dom_init_def)
  from run_events_builds [OF run this, of ms] obtain B d where d: "builds es Start = Some B"
    "builder_inv (After, []) B" "dom_rel B d" "allow_exceptions d = allow"
    "run_events (json_sax_dom_parser ms) es (dom_init Jnull allow) = Inr (True, d, [])"
    by (auto simp: dom_init_def)
  obtain v where "B = Done v" "json_wf v" using d(2) by (auto elim: builder_inv_cases)
  moreover have "sax_parse_internal (json_sax_dom_parser ms) p (dom_init Jnull allow) = Inr (True, q, d)"
    using dom.sax_parse_internal_ok [OF rec dom_inv_init, where max_size = ms and allow = allow] d(5) by auto
  ultimately show thesis using that [of v d] d by (simp add: dom_rel_def)
qed

lemma dom_run_error:
  assumes rec: "sax_parse_internal recorder p [] = Inr (False, q, es)"
  shows "if allow
    then \<exists>ex. ex \<noteq> Assertion_failure \<and>
      sax_parse_internal (json_sax_dom_parser ms) p (dom_init Jnull allow) = Inl ex
    else \<exists>q' d. sax_parse_internal (json_sax_dom_parser ms) p (dom_init Jnull allow) = Inr (False, q', d) \<and>
      errored d \<and> \<not> allow_exceptions d"
proof -
  obtain pos t ex d where *: "ex \<noteq> Assertion_failure" "\<exists>ps. dom_inv allow ps d"
    "case dom_parse_error pos t ex d of
       Inl ex' \<Rightarrow> ex' = ex \<and> sax_parse_internal (json_sax_dom_parser ms) p (dom_init Jnull allow) = Inl ex
     | Inr (ok, s'') \<Rightarrow> \<not> ok \<and>
         (\<exists>q'. sax_parse_internal (json_sax_dom_parser ms) p (dom_init Jnull allow) = Inr (False, q', s''))"
    using dom.sax_parse_internal_error [OF rec dom_inv_init, where max_size = ms and allow = allow]
    unfolding dom_parser_events by blast
  then have "allow_exceptions d = allow" by (auto simp: dom_inv_def)
  with * show ?thesis by (auto simp: dom_parse_error_def)
qed

text \<open>The event sequence of a text and whether the text ends behind its value.\<close>

definition accepted :: "char \<Rightarrow> bool \<Rightarrow> string \<Rightarrow> event list \<Rightarrow> bool" where
  "accepted dp ig s es \<longleftrightarrow>
     (\<exists>q. sax_parse_internal recorder (parser_start s ig dp) [] = Inr (True, q, es) \<and>
        last_token (next_token q) = tok_end_of_input)"

lemma json_parse_accepted:
  assumes "accepted dp ig s es"
  shows "\<exists>v. json_parse ms dp allow ig s = Inr v \<and> builds es Start = Some (Done v) \<and> json_wf v"
proof -
  from assms obtain q where q: "sax_parse_internal recorder (parser_start s ig dp) [] = Inr (True, q, es)"
    "last_token (next_token q) = tok_end_of_input" by (auto simp: accepted_def)
  obtain v d where "builds es Start = Some (Done v)" "json_wf v"
    "sax_parse_internal (json_sax_dom_parser ms) (parser_start s ig dp) (dom_init Jnull allow) = Inr (True, q, d)"
    "root d = v" "\<not> errored d" by (rule dom_run_ok [OF q(1)])
  with q(2) show ?thesis by (auto simp: json_parse_eq parser_parse_eq Let_def)
qed

lemma json_parse_not_accepted:
  assumes "\<nexists>es. accepted dp ig s es"
  shows "if allow then \<exists>ex. json_parse ms dp allow ig s = Inl ex \<and> ex \<noteq> Assertion_failure
    else json_parse ms dp allow ig s = Inr Jdiscarded"
proof -
  let ?p = "parser_start s ig dp"
  obtain b q es where q: "sax_parse_internal recorder ?p [] = Inr (b, q, es)" by (rule recorder_run)
  show ?thesis
  proof (cases b)
    case True
    with q assms have tok: "last_token (next_token q) \<noteq> tok_end_of_input" by (auto simp: accepted_def)
    from q True have "sax_parse_internal recorder ?p [] = Inr (True, q, es)" by simp
    then obtain v d where
      "sax_parse_internal (json_sax_dom_parser ms) ?p (dom_init Jnull allow) = Inr (True, q, d)"
      "allow_exceptions d = allow" by (rule dom_run_ok)
    with tok show ?thesis
      by (auto simp: json_parse_eq parser_parse_eq syntax_error_def dom_parse_error_def Let_def)
  next
    case False
    with q have "sax_parse_internal recorder ?p [] = Inr (False, q, es)" by simp
    from dom_run_error [OF this, of allow ms] show ?thesis
      by (auto simp: json_parse_eq parser_parse_eq syntax_error_def dom_parse_error_def Let_def
          split: if_splits)
  qed
qed

lemma json_accept_accepted: "json_accept dp ig s = Inr (\<exists>es. accepted dp ig s es)"
proof -
  let ?p = "parser_start s ig dp"
  obtain b q es where q: "sax_parse_internal recorder ?p [] = Inr (b, q, es)" by (rule recorder_run)
  show ?thesis
  proof (cases b)
    case True
    with q acceptor.sax_parse_internal_ok [of ?p q es "()"]
    have "sax_parse_internal json_sax_acceptor ?p () = Inr (True, q, ())" by simp
    with q True show ?thesis
      by (auto simp: json_accept_eq sax_parse_eq accepted_def syntax_error_def json_sax_acceptor_def Let_def)
  next
    case False
    with q acceptor.sax_parse_internal_error [of ?p q es "()"]
    obtain q' where "sax_parse_internal json_sax_acceptor ?p () = Inr (False, q', ())"
      by (auto simp: json_sax_acceptor_def)
    with q False show ?thesis by (auto simp: json_accept_eq sax_parse_eq accepted_def)
  qed
qed

text \<open>No run of events builds the discarded value, which is so free to mark a failed parse.\<close>

definition keeps_values :: "builder \<Rightarrow> bool" where
  "keeps_values B \<longleftrightarrow> B \<noteq> Done Jdiscarded \<and> (\<forall>fs k. B \<noteq> Open fs Jdiscarded k)"

lemma build_value_keeps: "v \<noteq> Jdiscarded \<Longrightarrow> build_value v B = Some B' \<Longrightarrow> keeps_values B'"
  by (cases "(v, B)" rule: build_value.cases) (auto simp: keeps_values_def)

lemma build_open_keeps: "v \<noteq> Jdiscarded \<Longrightarrow> build_open v B = Some B' \<Longrightarrow> keeps_values B'"
  by (cases "(v, B)" rule: build_open.cases) (auto simp: keeps_values_def)

lemma build_close_keeps: "keeps_values B \<Longrightarrow> build_close B = Some B' \<Longrightarrow> keeps_values B'"
proof (cases B rule: build_close.cases)
  case (2 f fs c)
  assume "build_close B = Some B'"
  with 2 show ?thesis by (cases f) (auto simp: keeps_values_def)
qed (auto simp: keeps_values_def)

lemma build_key_keeps: "build_key k B = Some B' \<Longrightarrow> keeps_values B'"
  by (cases "(k, B)" rule: build_key.cases) (auto simp: keeps_values_def)

lemma build_keeps: "keeps_values B \<Longrightarrow> build ev B = Some B' \<Longrightarrow> keeps_values B'"
  by (cases ev) (auto intro: build_value_keeps build_open_keeps build_close_keeps build_key_keeps)

lemma builds_keeps: "keeps_values B \<Longrightarrow> builds es B = Some B' \<Longrightarrow> keeps_values B'"
  by (induction es arbitrary: B) (auto intro: build_keeps split: option.splits)

lemma builds_not_discarded: "builds es Start = Some (Done v) \<Longrightarrow> v \<noteq> Jdiscarded"
  using builds_keeps [of Start es "Done v"] by (auto simp: keeps_values_def)

lemma json_parse_cases:
  obtains (accepted) v es where "accepted dp ig s es" "builds es Start = Some (Done v)" "json_wf v"
      "v \<noteq> Jdiscarded" "\<And>allow. json_parse ms dp allow ig s = Inr v"
    | (rejected) ex where "\<nexists>es. accepted dp ig s es" "ex \<noteq> Assertion_failure"
      "json_parse ms dp True ig s = Inl ex" "json_parse ms dp False ig s = Inr Jdiscarded"
proof (cases "\<exists>es. accepted dp ig s es")
  case True
  then obtain es where es: "accepted dp ig s es" ..
  obtain v where v: "json_parse ms dp True ig s = Inr v" "builds es Start = Some (Done v)" "json_wf v"
    using json_parse_accepted [OF es, of ms True] by blast
  have "json_parse ms dp allow ig s = Inr v" for allow
    using json_parse_accepted [OF es, of ms allow] v(2) by auto
  with es v show thesis using builds_not_discarded by (intro that(1)) auto
next
  case False
  then show thesis
    using json_parse_not_accepted [of dp ig s True ms] json_parse_not_accepted [of dp ig s False ms]
    by (auto intro: that(2))
qed

section \<open>The grammar\<close>

text \<open>The text of a value may be followed by white space and then by nothing, or by a NUL and anything.\<close>

definition ends_text :: "string \<Rightarrow> bool" where
  "ends_text t \<longleftrightarrow> (\<exists>w rest. ws w \<and> t = w @ rest \<and> (rest = [] \<or> hd rest = CHR 0x00))"

lemma ends_text_ws: "ws w \<Longrightarrow> ends_text w"
  unfolding ends_text_def by (intro exI [of _ w] exI [of _ "[]"]) simp

lemma ends_text_nul: "ws w \<Longrightarrow> ends_text (w @ CHR 0x00 # rest)"
  unfolding ends_text_def by (intro exI [of _ w] exI [of _ "CHR 0x00 # rest"]) simp

lemma number_ends_text: "ends_text t \<Longrightarrow> number_ends t"
proof -
  assume "ends_text t"
  then obtain w rest where t: "ws w" "t = w @ rest" "rest = [] \<or> hd rest = CHR 0x00"
    by (auto simp: ends_text_def)
  show "number_ends t"
  proof (cases w)
    case Nil
    with t show ?thesis by (cases rest) (auto simp: number_ends_def is_digit_def)
  next
    case (Cons c w')
    with t(1,2) show ?thesis by (auto simp: number_ends_def ws_def is_ws_def is_digit_def)
  qed
qed

lemma next_token_ends_text:
  assumes at: "at_text cfg p t" and t: "ends_text t"
  shows "last_token (next_token p) = tok_end_of_input"
proof -
  obtain w rest where t: "ws w" "t = w @ rest" "rest = [] \<or> hd rest = CHR 0x00"
    using t by (auto simp: ends_text_def)
  have "fst (scan (m_lexer p)) = tok_end_of_input"
  proof (cases rest)
    case Nil
    with at t show ?thesis using scan_at_end [of cfg "m_lexer p" w] by (simp add: at_text_def ws_def)
  next
    case (Cons c rest')
    with t have c: "c = CHR 0x00" by simp
    with at t Cons have "lexer_at cfg (m_lexer p) (w @ CHR 0x00 # rest')" by (simp add: at_text_def)
    from scan_at [OF this] t(1) obtain l' where "scan (m_lexer p) = scan_token l'" "current l' = 0"
      by (auto simp: ws_def is_ws_def)
    then show ?thesis by (simp add: scan_token_def digit_0_9_def Let_def)
  qed
  then show ?thesis by (cases "scan (m_lexer p)") (simp add: next_token_eq)
qed

lemma json_text_run:
  assumes t: "json_text dp v s" and at: "at_text (ig, dp) p (w1 @ s @ t2)" and w: "ws w1" "ends_text t2"
  shows "\<exists>p' es. sax_parse_internal recorder (next_token p) [] = Inr (True, p', es) \<and>
    last_token (next_token p') = tok_end_of_input \<and> builds es Start = Some (Done (normalise v))"
proof -
  obtain p' es where 1: "sax_parse_loop recorder False (next_token p) [] [] =
      sax_parse_loop recorder True p' [] ([] @ es)"
    "at_text (ig, dp) p' t2" "\<forall>B. builds es B = build_value (normalise v) B"
    by (rule value_parsedE [OF text_parsed(1) [OF t] at w(1) number_ends_text [OF w(2)]])
  then have "sax_parse_internal recorder (next_token p) [] = Inr (True, p', es)"
    by (simp add: sax_parse_internal_def sax_parse_loop_halves after_evaluation_def evaluate_state_def)
  moreover have "last_token (next_token p') = tok_end_of_input"
    by (rule next_token_ends_text [OF 1(2) w(2)])
  ultimately show ?thesis using 1(3) by auto
qed

lemma json_text_accepted:
  assumes t: "json_text dp v s" and w: "ws w1" "ends_text t2"
  shows "\<exists>es. accepted dp ig (w1 @ s @ t2) es \<and> builds es Start = Some (Done (normalise v))"
proof -
  let ?p = "\<lparr>last_token = tok_uninitialized, m_lexer = lexer_init (w1 @ s @ t2) ig dp\<rparr>"
  have "at_text (ig, dp) ?p (w1 @ s @ t2)" by (simp add: at_text_def lexer_at_init)
  from json_text_run [OF t this w] show ?thesis by (auto simp: accepted_def parser_start_def)
qed

lemma json_parse_text:
  assumes "json_text dp v s" "ws w1" "ends_text t2"
  shows "json_parse ms dp allow ig (w1 @ s @ t2) = Inr (normalise v)"
  using json_text_accepted [OF assms, of ig] json_parse_accepted [of dp ig "w1 @ s @ t2"] by fastforce

section \<open>Properties\<close>

text \<open>A text with a repeated key: \<^verbatim>\<open>{"a":null,"a":true}\<close>.\<close>

definition twice_a :: string where
  "twice_a = [CHR 0x22, CHR ''a'', CHR 0x22] @ '':null,'' @ [CHR 0x22, CHR ''a'', CHR 0x22] @ '':true''"

lemma utf8_a: "utf8 97 = ''a''"
  by code_simp

lemma string_text_a: "string_text [97] ''a''"
  using char_text.plain [of 97] by (simp add: string_text_Cons string_text_Nil utf8_a scalar_value_def)

lemma twice_a_members: "members_text dp [(''a'', Jnull), (''a'', Jboolean True)] twice_a"
proof -
  have a: "utf8_text [97] = ''a''" by (simp add: utf8_text_def utf8_a)
  note true = scalar [OF scalar_text.true, of dp] and null = scalar [OF scalar_text.null, of dp]
  from last_member [OF _ string_text_a _ _ true, of "[]" "[]" "[]" "[]"]
  have "members_text dp [(''a'', Jboolean True)] ([CHR 0x22, CHR ''a'', CHR 0x22] @ '':true'')" by (simp add: a ws_def)
  from member [OF _ string_text_a _ _ null _ this, of "[]" "[]" "[]" "[]"] show ?thesis
    by (simp add: a twice_a_def ws_def)
qed

text \<open>C3. No input makes a \<^verbatim>\<open>JSON_ASSERT\<close> of the lexer, the parser or the tree builder fail,
  whatever the locale's one-byte decimal point is: in particular \<^verbatim>\<open>strtoull\<close>, \<^verbatim>\<open>strtoll\<close> and \<^verbatim>\<open>strtod\<close> consume
  the whole token buffer for every number that is scanned. Without exceptions, parsing always returns.\<close>

theorem parse_never_asserts:
  "json_parse ms dp allow ig s \<noteq> Inl Assertion_failure \<and> (\<exists>v. json_parse ms dp False ig s = Inr v)"
  by (rule json_parse_cases [of dp ig s ms]; cases allow) auto

text \<open>C4. \<^verbatim>\<open>accept\<close> answers true exactly for the inputs that \<^verbatim>\<open>parse\<close> does not reject, by an exception or,
  without exceptions, by a discarded value.\<close>

theorem accept_iff_parse:
  "\<exists>b. json_accept dp ig s = Inr b \<and> (b \<longleftrightarrow> (\<exists>v. json_parse ms dp True ig s = Inr v)) \<and>
     (b \<longleftrightarrow> json_parse ms dp False ig s \<noteq> Inr Jdiscarded)"
  by (rule json_parse_cases [of dp ig s ms]) (auto simp: json_accept_accepted)

text \<open>In whatever is parsed the members of every object are sorted and their keys are distinct.\<close>

lemma parse_wf:
  assumes "json_parse ms dp allow ig s = Inr v"
  shows "json_wf v"
  using assms by (rule_tac json_parse_cases [of dp ig s ms]; cases allow) auto

text \<open>Of members with the same key the last one counts.\<close>

lemma parse_last_key_wins:
  assumes "members_text dp m t"
  shows "\<exists>r. json_parse ms dp allow ig (CHR ''{'' # t @ ''}'') = Inr (Jobject r) \<and>
    (\<forall>k. map_find r k = map_of (rev (map normalise_member m)) k)"
proof -
  have "store = (\<lambda>(k, v) m. map_assign k v (map_emplace k Jnull m))"
    by (auto simp: store_def fun_eq_iff)
  then have "map_find (fold store kvs []) k = map_of (rev kvs) k" for kvs k
    using std_map.find_stores [where c = "[]" and d = Jnull and kvs = kvs and k = k] by (simp add: map_inv_def split: option.splits)
  with json_parse_text [OF object [OF assms], of "[]" "[]" ms allow ig] ends_text_ws [of "[]"]
  show ?thesis by (simp add: ws_def normalise_member_def [abs_def])
qed

lemma parse_last_key_wins_witness:
  "\<exists>r. json_parse (\<lambda>_. 0) CHR ''.'' True False (CHR ''{'' # twice_a @ ''}'') = Inr (Jobject r) \<and>
    map_find r ''a'' = Some (Jboolean True)"
  using parse_last_key_wins [OF twice_a_members, of "\<lambda>_. 0" "CHR ''.''" True False]
  by (auto simp: normalise_member_def)

text \<open>What the parser tells its handler depends on the input only: for every handler it delivers the
  events that a recording handler is told, in the same order, up to the one at which the handler throws
  or answers false.\<close>

lemma sax_handlers_alike:
  "\<exists>b q es. sax_parse_internal recorder p [] = Inr (b, q, es) \<and>
     (case run_events sax es s of
        Inl ex \<Rightarrow> sax_parse_internal sax p s = Inl ex
      | Inr (True, s', _) \<Rightarrow> sax_parse_internal sax p s = Inr (True, q, s')
      | Inr (False, s', _) \<Rightarrow> (\<exists>q'. sax_parse_internal sax p s = Inr (False, q', s')))"
proof -
  obtain b q es where "sax_parse_loop recorder False p [] [] = Inr (b, q, [] @ es)"
    "loop_agrees sax s (sax_parse_loop sax False p [] s) es q"
    using sax_parse_loop_events [of False p "[]" "[]" sax s] by blast
  then show ?thesis
    by (intro exI [of _ b] exI [of _ q] exI [of _ es])
       (auto simp: sax_parse_internal_def loop_agrees_def split: sum.splits bool.splits if_splits)
qed

text \<open>The tree builder of the library, which keeps a stack of pointers into the tree, implements the
  functional builder \<open>builds\<close> on the events of the input.\<close>

lemma parse_builds:
  "json_parse ms dp True ig s = Inr v \<longleftrightarrow>
     (\<exists>es. accepted dp ig s es \<and> builds es Start = Some (Done v))"
proof
  assume "json_parse ms dp True ig s = Inr v"
  then show "\<exists>es. accepted dp ig s es \<and> builds es Start = Some (Done v)"
    by (rule_tac json_parse_cases [of dp ig s ms]) auto
next
  assume "\<exists>es. accepted dp ig s es \<and> builds es Start = Some (Done v)"
  then show "json_parse ms dp True ig s = Inr v" using json_parse_accepted by fastforce
qed

text \<open>A NUL ends the input: what follows it is not read, although the parser is to read the whole
  input.\<close>

lemma parse_stops_at_nul:
  assumes "json_text dp v s" "ws w1" "ws w2"
  shows "json_parse ms dp allow ig (w1 @ s @ w2 @ CHR 0x00 # rest) = Inr (normalise v)"
  using json_parse_text [OF assms(1,2) ends_text_nul [OF assms(3)]] .

lemma parse_stops_at_nul_witness:
  "json_parse (\<lambda>_. 0) CHR ''.'' True False (''null'' @ CHR 0x00 # '']]'') = Inr Jnull"
  using parse_stops_at_nul [OF scalar [OF scalar_text.null], of "[]" "[]" "\<lambda>_. 0" "CHR ''.''" True False "'']]''"]
  by (simp add: ws_def)

end
