(* ===== verification/Json_Token_Sound.thy ===== *)
theory Json_Token_Sound
  imports Json_Parse
begin

text \<open>
  The converse for tokens: whenever the scanner returns a token, what it has read is a text of the grammar
  for that token. Together with the lemmas of \<^verbatim>\<open>Json_Grammar\<close> the scanner accepts exactly the
  tokens of the grammar. Comments are not skipped here.
\<close>

section \<open>Numbers\<close>

lemma scan_number_any2_inv:
  "lexer_at cfg l s \<Longrightarrow> \<exists>ds rest. s = ds @ rest \<and> list_all is_digit ds \<and>
     scanned cfg (scan_number_any2 nt l) nt rest (token_buffer l @ ds)"
proof (induction s arbitrary: l)
  case Nil
  then have "scan_number_any2 nt l = scan_number_done nt (get l)"
    using get_Nil [OF Nil] by (subst scan_number_any2.simps) (simp add: Let_def)
  with Nil show ?case by (intro exI [of _ "[]"]) (auto simp: scanned_def)
next
  case (Cons c s)
  note g = get_Cons [OF Cons.prems]
  show ?case
  proof (cases "is_digit c")
    case True
    then have "scan_number_any2 nt l = scan_number_any2 nt (add (ic c) (get l))"
      using g by (subst scan_number_any2.simps) (simp add: Let_def)
    moreover obtain ds rest where "s = ds @ rest" "list_all is_digit ds"
      "scanned cfg (scan_number_any2 nt (add (ic c) (get l))) nt rest (token_buffer l @ c # ds)"
      using Cons.IH [of "add (ic c) (get l)"] g by auto
    ultimately show ?thesis using True by (intro exI [of _ "c # ds"] exI [of _ rest]) simp
  next
    case False
    then have "scan_number_any2 nt l = scan_number_done nt (get l)"
      using g by (subst scan_number_any2.simps) (simp add: Let_def)
    with Cons.prems show ?thesis by (intro exI [of _ "[]"] exI [of _ "c # s"]) (auto simp: scanned_def)
  qed
qed

lemma digits_Cons: "is_digit d \<Longrightarrow> list_all is_digit ds \<Longrightarrow> digits (d # ds)"
  by (simp add: digits_def)

lemma scan_number_exponent_inv:
  assumes at: "lexer_at cfg l s" and ok: "fst (scan_number_exponent l) \<noteq> tok_parse_error"
    and e: "e = CHR ''e'' \<or> e = CHR ''E''"
  shows "\<exists>t rest. s = t @ rest \<and> exp_text (e # t) \<and>
    scanned cfg (scan_number_exponent l) tok_value_float rest (token_buffer l @ t)"
proof (cases s)
  case Nil
  with at ok get_Nil [of cfg l] show ?thesis by (simp add: scan_number_exponent_def Let_def)
next
  case (Cons c s')
  with at have at': "lexer_at cfg l (c # s')" by simp
  note g = get_Cons [OF at']
  consider (sign) "c = CHR ''+'' \<or> c = CHR ''-''" | (digit) "is_digit c" "c \<noteq> CHR ''+''" "c \<noteq> CHR ''-''"
    using ok g by (auto simp: scan_number_exponent_def Let_def char_eq_ic split: if_splits)
  then show ?thesis
  proof cases
    case digit
    then have eq: "scan_number_exponent l = scan_number_any2 tok_value_float (add (ic c) (get l))"
      using g by (simp add: scan_number_exponent_def Let_def char_eq_ic)
    obtain ds rest where "s' = ds @ rest" "list_all is_digit ds"
      "scanned cfg (scan_number_exponent l) tok_value_float rest (token_buffer l @ c # ds)"
      using scan_number_any2_inv [of cfg "add (ic c) (get l)" s' tok_value_float] g eq by auto
    with digit Cons e show ?thesis
      by (intro exI [of _ "c # ds"] exI [of _ rest]) (auto simp: exp_text_def digits_Cons)
  next
    case sign
    let ?l = "add (ic c) (get l)"
    have eq: "scan_number_exponent l = scan_number_sign tok_value_float ?l"
      using sign g by (auto simp: scan_number_exponent_def Let_def)
    have at2: "lexer_at cfg ?l s'" using g by simp
    then obtain d s'' where s': "s' = d # s''" "is_digit d"
      using ok eq get_Nil [of cfg ?l] get_Cons [of cfg ?l]
      by (cases s') (auto simp: scan_number_sign_def Let_def split: if_splits)
    with at2 have "lexer_at cfg ?l (d # s'')" by simp
    note g2 = get_Cons [OF this]
    have "scan_number_exponent l = scan_number_any2 tok_value_float (add (ic d) (get ?l))"
      using eq s' g2 by (simp add: scan_number_sign_def Let_def)
    then obtain ds rest where "s'' = ds @ rest" "list_all is_digit ds"
      "scanned cfg (scan_number_exponent l) tok_value_float rest (token_buffer l @ c # d # ds)"
      using scan_number_any2_inv [of cfg "add (ic d) (get ?l)" s'' tok_value_float] g2 by auto
    with sign s' Cons e show ?thesis
      by (intro exI [of _ "c # d # ds"] exI [of _ rest]) (auto simp: exp_text_def digits_Cons)
  qed
qed

lemma exp_text_Nil [simp]: "exp_text []"
  by (simp add: exp_text_def)

lemma scan_number_decimal2_inv:
  "lexer_at cfg l s \<Longrightarrow> fst (scan_number_decimal2 tok_value_float l) \<noteq> tok_parse_error \<Longrightarrow>
     \<exists>ds ex rest. s = ds @ ex @ rest \<and> list_all is_digit ds \<and> exp_text ex \<and>
       scanned cfg (scan_number_decimal2 tok_value_float l) tok_value_float rest (token_buffer l @ ds @ ex)"
proof (induction s arbitrary: l)
  case Nil
  then have "scan_number_decimal2 tok_value_float l = scan_number_done tok_value_float (get l)"
    using get_Nil [OF Nil(1)] by (subst scan_number_decimal2.simps) (simp add: Let_def)
  with Nil show ?case by (intro exI [of _ "[]"]) (auto simp: scanned_def)
next
  case (Cons c s)
  note g = get_Cons [OF Cons.prems(1)]
  consider (digit) "is_digit c" | (exp) "\<not> is_digit c" "c = CHR ''e'' \<or> c = CHR ''E''"
    | (ends) "\<not> is_digit c" "c \<noteq> CHR ''e''" "c \<noteq> CHR ''E''" by blast
  then show ?case
  proof cases
    case digit
    then have eq: "scan_number_decimal2 tok_value_float l =
        scan_number_decimal2 tok_value_float (add (ic c) (get l))"
      using g by (subst scan_number_decimal2.simps) (simp add: Let_def)
    with Cons.IH [of "add (ic c) (get l)"] Cons.prems(2) g obtain ds ex rest where
      "s = ds @ ex @ rest" "list_all is_digit ds" "exp_text ex"
      "scanned cfg (scan_number_decimal2 tok_value_float l) tok_value_float rest (token_buffer l @ c # ds @ ex)"
      by auto
    with digit show ?thesis
      by (intro exI [of _ "c # ds"] exI [of _ ex] exI [of _ rest]) simp
  next
    case exp
    then have eq: "scan_number_decimal2 tok_value_float l = scan_number_exponent (add (ic c) (get l))"
      using g by (subst scan_number_decimal2.simps) (auto simp: Let_def)
    with scan_number_exponent_inv [of cfg "add (ic c) (get l)" s c] Cons.prems(2) g exp obtain t rest where
      "s = t @ rest" "exp_text (c # t)"
      "scanned cfg (scan_number_decimal2 tok_value_float l) tok_value_float rest (token_buffer l @ c # t)"
      by auto
    then show ?thesis by (intro exI [of _ "[]"] exI [of _ "c # t"] exI [of _ rest]) simp
  next
    case ends
    then have "scan_number_decimal2 tok_value_float l = scan_number_done tok_value_float (get l)"
      using g by (subst scan_number_decimal2.simps) (simp add: Let_def char_eq_ic)
    with Cons.prems show ?thesis by (intro exI [of _ "[]"] exI [of _ "c # s"]) (auto simp: scanned_def)
  qed
qed

text \<open>Behind the integer part.\<close>

lemma scan_fraction_inv:
  assumes at: "lexer_at cfg l s"
    and r: "r = (let l1 = get l; c = current l1
      in if c = ic CHR ''.'' then scan_number_decimal1 (add (decimal_point_char l1) l1)
         else if c = ic CHR ''e'' \<or> c = ic CHR ''E'' then scan_number_exponent (add c l1)
         else scan_number_done nt l1)"
    and ok: "fst r \<noteq> tok_parse_error"
  shows "\<exists>fr ex rest. s = fr @ ex @ rest \<and> frac_text fr \<and> exp_text ex \<and>
    scanned cfg r (number_type nt fr ex) rest (token_buffer l @ (if fr = [] then [] else snd cfg # tl fr) @ ex)"
proof (cases s)
  case Nil
  with at r get_Nil [of cfg l] have "r = scan_number_done nt (get l)" by (simp add: Let_def)
  with at Nil show ?thesis
    by (intro exI [of _ "[]"]) (auto simp: scanned_def frac_text_def number_type_def)
next
  case (Cons c s')
  with at have at': "lexer_at cfg l (c # s')" by simp
  note g = get_Cons [OF at']
  consider (point) "c = CHR ''.''" | (exp) "c = CHR ''e'' \<or> c = CHR ''E''"
    | (ends) "c \<noteq> CHR ''.''" "c \<noteq> CHR ''e''" "c \<noteq> CHR ''E''" by blast
  then show ?thesis
  proof cases
    case point
    let ?l = "add (decimal_point_char (get l)) (get l)"
    have dp: "decimal_point_char (get l) = ic (snd cfg)" using g(2) by (simp add: lexer_at_def)
    have eq: "r = scan_number_decimal1 ?l" using r point g by (simp add: Let_def)
    have at2: "lexer_at cfg ?l s'" using g by simp
    then obtain d s'' where s': "s' = d # s''" "is_digit d"
      using ok eq get_Nil [of cfg ?l] get_Cons [of cfg ?l]
      by (cases s') (auto simp: scan_number_decimal1_def Let_def split: if_splits)
    with at2 have "lexer_at cfg ?l (d # s'')" by simp
    note g2 = get_Cons [OF this]
    have eq2: "r = scan_number_decimal2 tok_value_float (add (ic d) (get ?l))"
      using eq s' g2 by (simp add: scan_number_decimal1_def Let_def)
    obtain ds ex rest where "s'' = ds @ ex @ rest" "list_all is_digit ds" "exp_text ex"
      "scanned cfg r tok_value_float rest (token_buffer l @ snd cfg # d # ds @ ex)"
      using scan_number_decimal2_inv [of cfg "add (ic d) (get ?l)" s''] g2 ok eq2 dp by auto
    with point s' Cons show ?thesis
      by (intro exI [of _ "CHR ''.'' # d # ds"] exI [of _ ex] exI [of _ rest])
         (auto simp: frac_text_def digits_Cons number_type_def)
  next
    case exp
    then have eq: "r = scan_number_exponent (add (ic c) (get l))" using r g by (auto simp: Let_def)
    with scan_number_exponent_inv [of cfg "add (ic c) (get l)" s' c] ok g exp obtain t rest where
      "s' = t @ rest" "exp_text (c # t)" "scanned cfg r tok_value_float rest (token_buffer l @ c # t)"
      by auto
    with Cons show ?thesis
      by (intro exI [of _ "[]"] exI [of _ "c # t"] exI [of _ rest])
         (auto simp: frac_text_def number_type_def)
  next
    case ends
    then have "r = scan_number_done nt (get l)" using r g by (simp add: Let_def char_eq_ic)
    with at show ?thesis
      by (intro exI [of _ "[]"] exI [of _ s]) (auto simp: scanned_def frac_text_def number_type_def)
  qed
qed

lemma scan_number_any1_inv:
  "lexer_at cfg l s \<Longrightarrow> fst (scan_number_any1 nt l) \<noteq> tok_parse_error \<Longrightarrow>
     \<exists>ds fr ex rest. s = ds @ fr @ ex @ rest \<and> list_all is_digit ds \<and> frac_text fr \<and> exp_text ex \<and>
       scanned cfg (scan_number_any1 nt l) (number_type nt fr ex) rest
         (token_buffer l @ ds @ (if fr = [] then [] else snd cfg # tl fr) @ ex)"
proof (induction s arbitrary: l)
  case Nil
  then have "\<not> digit_0_9 (current (get l))" using get_Nil [of cfg l] by simp
  with scan_fraction_inv [OF Nil(1), of "scan_number_any1 nt l" nt] Nil(2) show ?case
    by (intro exI [of _ "[]"]) (simp add: scan_number_any1.simps [of nt l] Let_def)
next
  case (Cons c s)
  note g = get_Cons [OF Cons.prems(1)]
  show ?case
  proof (cases "is_digit c")
    case True
    then have "scan_number_any1 nt l = scan_number_any1 nt (add (ic c) (get l))"
      using g by (subst scan_number_any1.simps) (simp add: Let_def)
    with Cons.IH [of "add (ic c) (get l)"] Cons.prems(2) g obtain ds fr ex rest where
      "s = ds @ fr @ ex @ rest" "list_all is_digit ds" "frac_text fr" "exp_text ex"
      "scanned cfg (scan_number_any1 nt l) (number_type nt fr ex) rest
         (token_buffer l @ (c # ds) @ (if fr = [] then [] else snd cfg # tl fr) @ ex)"
      by auto
    with True show ?thesis
      by (intro exI [of _ "c # ds"] exI [of _ fr] exI [of _ ex] exI [of _ rest]) simp
  next
    case False
    then have "\<not> digit_0_9 (current (get l))" using g by simp
    with scan_fraction_inv [OF Cons.prems(1), of "scan_number_any1 nt l" nt] Cons.prems(2) show ?thesis
      by (intro exI [where P = "\<lambda>ds. \<exists>fr ex rest. Q ds fr ex rest" and x = "[]" for Q])
         (simp add: scan_number_any1.simps [of nt l] Let_def)
  qed
qed

lemma scan_int_inv:
  assumes at: "lexer_at cfg l s" and cur: "current l = ic d"
    and r: "r = (let c = current l
      in if c = ic CHR ''0'' then scan_number_zero nt (add c l)
         else if digit_1_9 c then scan_number_any1 nt (add c l) else (tok_parse_error, l'))"
    and ok: "fst r \<noteq> tok_parse_error"
  shows "\<exists>ip fr ex rest. d # s = ip @ fr @ ex @ rest \<and> int_text ip \<and> frac_text fr \<and> exp_text ex \<and>
    scanned cfg r (number_type nt fr ex) rest
      (token_buffer l @ ip @ (if fr = [] then [] else snd cfg # tl fr) @ ex)"
proof (cases "d = CHR ''0''")
  case True
  then have eq: "r = scan_number_zero nt (add (ic d) l)" using r cur by (simp add: Let_def)
  moreover have "lexer_at cfg (add (ic d) l) s" using at by simp
  ultimately obtain fr ex rest where "s = fr @ ex @ rest" "frac_text fr" "exp_text ex"
    "scanned cfg r (number_type nt fr ex) rest (token_buffer l @ [d] @ (if fr = [] then [] else snd cfg # tl fr) @ ex)"
    using scan_fraction_inv [of cfg "add (ic d) l" s r nt] ok by (auto simp: scan_number_zero_def Let_def)
  with True show ?thesis
    by (intro exI [of _ "[d]"] exI [of _ fr] exI [of _ ex] exI [of _ rest])
       (simp add: int_text_def digits_def is_digit_def)
next
  case False
  then have "ic d \<noteq> ic CHR ''0''" by (simp only: ic_inject not_False_eq_True)
  with r cur ok have eq: "r = scan_number_any1 nt (add (ic d) l)" "digit_1_9 (ic d)"
    by (auto simp: Let_def split: if_splits)
  with scan_number_any1_inv [of cfg "add (ic d) l" s nt] at ok obtain ds fr ex rest where
    "s = ds @ fr @ ex @ rest" "list_all is_digit ds" "frac_text fr" "exp_text ex"
    "scanned cfg r (number_type nt fr ex) rest
       (token_buffer l @ (d # ds) @ (if fr = [] then [] else snd cfg # tl fr) @ ex)" by auto
  with False eq(2) show ?thesis
    by (intro exI [of _ "d # ds"] exI [of _ fr] exI [of _ ex] exI [of _ rest])
       (simp add: int_text_def digits_Cons digit_1_9_ic)
qed

lemma scan_number_inv:
  assumes at: "lexer_at cfg l s" and cur: "current l = ic c" and c: "c = CHR ''-'' \<or> is_digit c"
    and ok: "fst (scan_number l) \<noteq> tok_parse_error"
  shows "\<exists>neg ip fr ex rest. c # s = sign_text neg @ ip @ fr @ ex @ rest \<and>
    int_text ip \<and> frac_text fr \<and> exp_text ex \<and>
    scanned cfg (scan_number l) (number_type (if neg then tok_value_integer else tok_value_unsigned) fr ex) rest
      (number_buffer_text (snd cfg) neg ip fr ex)"
proof (cases "c = CHR ''-''")
  case True
  define l1 where "l1 = add (ic CHR ''-'') (reset l)"
  have l1: "lexer_at cfg l1 s" "token_buffer l1 = ''-''"
    using at by (simp_all add: l1_def to_char_type_def char_of_def)
  have eq: "scan_number l = scan_number_minus l1"
    using cur True by (simp add: scan_number_def l1_def Let_def)
  obtain d s' where s: "s = d # s'"
    using ok eq l1 get_Nil [of cfg l1] by (cases s) (auto simp: scan_number_minus_def digit_1_9_def Let_def)
  with l1 have "lexer_at cfg l1 (d # s')" by simp
  note g = get_Cons [OF this]
  have "scan_number l =
      (let c = current (get l1)
       in if c = ic CHR ''0'' then scan_number_zero tok_value_integer (add c (get l1))
          else if digit_1_9 c then scan_number_any1 tok_value_integer (add c (get l1))
          else (tok_parse_error, snd (scan_number_minus l1)))"
    unfolding eq by (auto simp: scan_number_minus_def Let_def)
  from scan_int_inv [OF g(2,1) this ok] l1(2) obtain ip fr ex rest where
    "d # s' = ip @ fr @ ex @ rest" "int_text ip" "frac_text fr" "exp_text ex"
    "scanned cfg (scan_number l) (number_type tok_value_integer fr ex) rest
      (''-'' @ ip @ (if fr = [] then [] else snd cfg # tl fr) @ ex)"
    by auto
  with True s show ?thesis
    by (intro exI [of _ True] exI [of _ ip] exI [of _ fr] exI [of _ ex] exI [of _ rest])
       (simp add: sign_text_def number_buffer_text_def)
next
  case False
  with c have c': "is_digit c" by simp
  have "ic c \<noteq> ic CHR ''-''" using False by (simp only: ic_inject not_False_eq_True)
  moreover have "ic c = ic CHR ''0'' \<or> digit_1_9 (ic c)"
    using c' by (auto simp: digit_1_9_def is_digit_def)
  ultimately have eq: "scan_number l =
      (let c = current (reset l)
       in if c = ic CHR ''0'' then scan_number_zero tok_value_unsigned (add c (reset l))
          else if digit_1_9 c then scan_number_any1 tok_value_unsigned (add c (reset l))
          else (tok_parse_error, reset l))"
    using cur by (auto simp: scan_number_def Let_def)
  from scan_int_inv [OF _ _ this ok, of cfg s c] at cur obtain ip fr ex rest where
    "c # s = ip @ fr @ ex @ rest" "int_text ip" "frac_text fr" "exp_text ex"
    "scanned cfg (scan_number l) (number_type tok_value_unsigned fr ex) rest
      (ip @ (if fr = [] then [] else snd cfg # tl fr) @ ex)" by auto
  then show ?thesis
    by (intro exI [of _ False] exI [of _ ip] exI [of _ fr] exI [of _ ex] exI [of _ rest])
       (simp add: sign_text_def number_buffer_text_def)
qed

section \<open>Strings\<close>

lemma get_codepoint_loop_inv:
  "lexer_at cfg l s \<Longrightarrow> fst (get_codepoint_loop fs cp l) \<noteq> - 1 \<Longrightarrow> 0 \<le> cp \<Longrightarrow>
     \<exists>hs rest. s = hs @ rest \<and> length hs = length fs \<and> list_all (\<lambda>c. hex_value c \<noteq> None) hs"
proof (induction fs arbitrary: cp l s)
  case (Cons f fs)
  show ?case
  proof (cases s)
    case Nil
    with Cons.prems get_Nil [of cfg l] show ?thesis by (simp add: Let_def)
  next
    case (Cons c s')
    with Cons.prems(1) have "lexer_at cfg l (c # s')" by simp
    note g = get_Cons [OF this]
    from Cons.prems(2) g have hex: "hex_value c \<noteq> None"
      by (auto simp: Let_def hex_value_def split: if_splits)
    then obtain v where v: "hex_value c = Some v" by blast
    from get_codepoint_loop_hex [OF \<open>lexer_at cfg l (c # s')\<close> v, of f fs cp] Cons.prems
    have "fst (get_codepoint_loop fs (cp + int v * 2 ^ f) (get l)) \<noteq> - 1" by simp
    from Cons.IH [OF g(2) this] Cons.prems(3) obtain hs rest where
      "s' = hs @ rest" "length hs = length fs" "list_all (\<lambda>c. hex_value c \<noteq> None) hs" by auto
    with hex Cons show ?thesis by (intro exI [of _ "c # hs"] exI [of _ rest]) simp
  qed
qed simp

lemma get_codepoint_inv:
  assumes at: "lexer_at cfg l s" and ok: "get_codepoint l = (cp, l')" "cp \<noteq> - 1"
  shows "\<exists>hs rest u. s = hs @ rest \<and> hex_quad hs u \<and> cp = int u \<and> lexer_at cfg l' rest"
proof -
  obtain hs rest where h: "s = hs @ rest" "length hs = 4" "list_all (\<lambda>c. hex_value c \<noteq> None) hs"
    using get_codepoint_loop_inv [of cfg "json_assert (current l = ic CHR ''u'') l" s "[12, 8, 4, 0]" 0] at ok
    by (auto simp: get_codepoint_def simp del: get_codepoint_loop.simps split: prod.splits if_splits)
  then obtain u where u: "hex_quad hs u"
    by (auto simp: numeral_eq_Suc length_Suc_conv)
  with get_codepoint_hex [of cfg l hs rest u] at h(1) ok(1) show ?thesis by auto
qed

lemma scan_unicode_escape_inv:
  assumes at: "lexer_at cfg l s" and ok: "fst (scan_unicode_escape l)"
  shows "\<exists>cp t rest. s = t @ rest \<and> char_text cp (CHR 0x5C # CHR ''u'' # t)"
proof -
  obtain cp1 l1 where 1: "get_codepoint l = (cp1, l1)" by fastforce
  with ok have ne: "cp1 \<noteq> - 1" by (auto simp: scan_unicode_escape_def)
  obtain hs s1 hi where hi: "s = hs @ s1" "hex_quad hs hi" "cp1 = int hi" "lexer_at cfg l1 s1"
    using get_codepoint_inv [OF at 1 ne] by blast
  show ?thesis
  proof (cases "0xD800 \<le> hi \<and> hi < 0xE000")
    case False
    then have "scalar_value hi" using hex_quad_less [OF hi(2)] by (auto simp: scalar_value_def)
    with hi show ?thesis by (blast intro: char_text.unit)
  next
    case True
    with ok 1 hi have surr: "0xD800 \<le> hi" "hi < 0xDC00" by (auto simp: scan_unicode_escape_def split: if_splits)
    let ?l2 = "get l1" and ?l3 = "get (get l1)"
    have cur: "current ?l2 = ic CHR 0x5C" "current ?l3 = ic CHR ''u''"
      using ok 1 hi surr by (auto simp: scan_unicode_escape_def Let_def split: if_splits)
    obtain s2 where s1: "s1 = CHR 0x5C # s2"
      using cur(1) current_get [OF hi(4)] by (cases s1) (auto simp: char_eq_ic)
    with hi(4) have at2: "lexer_at cfg ?l2 s2" using get_Cons(2) by blast
    obtain s3 where s2: "s2 = CHR ''u'' # s3"
      using cur(2) current_get [OF at2] by (cases s2) (auto simp: char_eq_ic)
    with at2 have at3: "lexer_at cfg ?l3 s3" using get_Cons(2) by blast
    obtain cp2 l4 where 2: "get_codepoint ?l3 = (cp2, l4)" by fastforce
    have range: "cp2 \<noteq> - 1" "0xDC00 \<le> cp2" "cp2 \<le> 0xDFFF"
      using ok 1 2 hi surr cur by (auto simp: scan_unicode_escape_def Let_def split: if_splits)
    obtain ls s4 lo where lo: "s3 = ls @ s4" "hex_quad ls lo" "cp2 = int lo"
      using get_codepoint_inv [OF at3 2 range(1)] by blast
    have "char_text (0x10000 + (hi - 0xD800) * 0x400 + (lo - 0xDC00))
        ((CHR 0x5C # CHR ''u'' # hs) @ (CHR 0x5C # CHR ''u'' # ls))"
      using hi(2) surr lo(2,3) range by (intro char_text.pair) auto
    with hi(1) s1 s2 lo(1) show ?thesis
      by (intro exI [of _ "hs @ CHR 0x5C # CHR ''u'' # ls"] exI [of _ s4] exI) auto
  qed
qed

text \<open>Bytes in the ranges the lexer allows are the encoding of a scalar value.\<close>

abbreviation in_range :: "int \<times> int \<Rightarrow> char \<Rightarrow> bool" where
  "in_range \<equiv> \<lambda>(lo, hi) b. lo \<le> ic b \<and> ic b \<le> hi"

lemma next_byte_in_range_loop_inv:
  "lexer_at cfg l s \<Longrightarrow> fst (next_byte_in_range_loop rs l) \<Longrightarrow> list_all (\<lambda>r. 0 \<le> fst r) rs \<Longrightarrow>
     \<exists>bs rest. s = bs @ rest \<and> list_all2 in_range rs bs"
proof (induction rs arbitrary: l s)
  case (Cons r rs)
  obtain lo hi where r: "r = (lo, hi)" by (cases r)
  show ?case
  proof (cases s)
    case Nil
    with Cons.prems r get_Nil [of cfg l] show ?thesis by (simp add: Let_def split: if_splits)
  next
    case (Cons b s')
    with Cons.prems(1) have "lexer_at cfg l (b # s')" by simp
    note g = get_Cons [OF this]
    with Cons.prems r have b: "lo \<le> ic b" "ic b \<le> hi" "fst (next_byte_in_range_loop rs (add (ic b) (get l)))"
      by (auto simp: Let_def split: if_splits)
    with Cons.IH [of "add (ic b) (get l)" s'] g Cons.prems(3) obtain bs rest where
      "s' = bs @ rest" "list_all2 in_range rs bs" by auto
    with Cons b r show ?thesis by (intro exI [of _ "b # bs"] exI [of _ rest]) simp
  qed
qed simp

lemma char_code:
  obtains n where "c = byte n" "ic c = int n"
proof
  show "c = byte (of_char c)" by simp
  show "ic c = int (of_char c)" by (simp only: of_nat_of_char)
qed

lemma utf8_ranges_inv:
  assumes "utf8_ranges (ic b) = Some rs" "list_all2 in_range rs bs"
  shows "\<exists>cp. scalar_value cp \<and> 0x80 \<le> cp \<and> utf8 cp = b # bs"
proof -
  obtain n where b: "b = byte n" "ic b = int n" by (rule char_code)
  consider (two) "rs = [(0x80, 0xBF)]" "0xC2 \<le> n" "n \<le> 0xDF"
    | (three) lo hi where "rs = [(lo, hi), (0x80, 0xBF)]" "0xE0 \<le> n" "n \<le> 0xEF" "0x80 \<le> lo" "hi \<le> 0xBF"
        "n = 0xE0 \<longrightarrow> lo = 0xA0" "n = 0xED \<longrightarrow> hi = 0x9F"
    | (four) lo hi where "rs = [(lo, hi), (0x80, 0xBF), (0x80, 0xBF)]" "0xF0 \<le> n" "n \<le> 0xF4" "0x80 \<le> lo"
        "hi \<le> 0xBF" "n = 0xF0 \<longrightarrow> lo = 0x90" "n = 0xF4 \<longrightarrow> hi = 0x8F"
    using assms(1) by (auto simp: b(2) utf8_ranges_def split: if_splits)
  then show ?thesis
  proof cases
    case two
    then obtain c1 where c: "bs = [c1]" "0x80 \<le> ic c1" "ic c1 \<le> 0xBF"
      using assms(2) by (auto simp: list_all2_Cons1)
    obtain n1 where n1: "c1 = byte n1" "ic c1 = int n1" by (rule char_code)
    let ?a = "n - 0xC0" and ?x = "n1 - 0x80"
    have r: "2 \<le> ?a" "?a < 32" "?x < 64" using two c unfolding n1(2) by simp_all
    then have "scalar_value (?a * 64 + ?x) \<and> 0x80 \<le> ?a * 64 + ?x" by (auto simp: scalar_value_def)
    with utf8_two [OF r] two c show ?thesis
      unfolding n1(2) by (intro exI [of _ "?a * 64 + ?x"]) (simp add: b(1) n1(1))
  next
    case (three lo hi)
    then obtain c1 c2 where c: "bs = [c1, c2]" "lo \<le> ic c1" "ic c1 \<le> hi" "0x80 \<le> ic c2" "ic c2 \<le> 0xBF"
      using assms(2) by (auto simp: list_all2_Cons1)
    obtain n1 n2 where n: "c1 = byte n1" "ic c1 = int n1" "c2 = byte n2" "ic c2 = int n2" using char_code by metis
    let ?a = "n - 0xE0" and ?x = "n1 - 0x80" and ?y = "n2 - 0x80"
    have r: "?a < 16" "?x < 64" "?y < 64" using three c unfolding n(2,4) by simp_all
    have lo: "?a = 0 \<Longrightarrow> 32 \<le> ?x" and hi: "?a = 13 \<Longrightarrow> ?x < 32" using three c unfolding n(2,4) by auto
    have "scalar_value ((?a * 64 + ?x) * 64 + ?y) \<and> 0x80 \<le> (?a * 64 + ?x) * 64 + ?y"
      using r lo hi unfolding scalar_value_def by (cases "?a = 0"; cases "?a < 13"; cases "?a = 13") auto
    with utf8_three [OF r lo] three c show ?thesis
      unfolding n(2,4) by (intro exI [of _ "(?a * 64 + ?x) * 64 + ?y"]) (simp add: b(1) n(1,3))
  next
    case (four lo hi)
    then obtain c1 c2 c3 where c: "bs = [c1, c2, c3]" "lo \<le> ic c1" "ic c1 \<le> hi" "0x80 \<le> ic c2" "ic c2 \<le> 0xBF"
      "0x80 \<le> ic c3" "ic c3 \<le> 0xBF"
      using assms(2) by (auto simp: list_all2_Cons1)
    obtain n1 n2 n3 where n: "c1 = byte n1" "ic c1 = int n1" "c2 = byte n2" "ic c2 = int n2" "c3 = byte n3"
      "ic c3 = int n3" using char_code by metis
    let ?a = "n - 0xF0" and ?x = "n1 - 0x80" and ?y = "n2 - 0x80" and ?z = "n3 - 0x80"
    have r: "?a < 5" "?x < 64" "?y < 64" "?z < 64" using four c unfolding n(2,4,6) by simp_all
    have lo: "?a = 0 \<Longrightarrow> 16 \<le> ?x" and hi: "?a = 4 \<Longrightarrow> ?x < 16" using four c unfolding n(2,4,6) by auto
    have "scalar_value (((?a * 64 + ?x) * 64 + ?y) * 64 + ?z) \<and> 0x80 \<le> ((?a * 64 + ?x) * 64 + ?y) * 64 + ?z"
      using r lo hi unfolding scalar_value_def by (cases "?a = 0"; cases "?a = 4") auto
    with utf8_four [OF r lo] four c show ?thesis
      unfolding n(2,4,6) by (intro exI [of _ "((?a * 64 + ?x) * 64 + ?y) * 64 + ?z"]) (simp add: b(1) n(1,3,5))
  qed
qed

lemma utf8_ranges_nonneg: "utf8_ranges c = Some rs \<Longrightarrow> list_all (\<lambda>r. 0 \<le> fst r) rs"
  by (auto simp: utf8_ranges_def split: if_splits)

lemma scan_escape_inv:
  assumes at: "lexer_at cfg l s" and ok: "fst (scan_escape l)"
  shows "\<exists>cp t rest. s = t @ rest \<and> char_text cp (CHR 0x5C # t)"
proof (cases s)
  case Nil
  with at ok get_Nil [of cfg l] show ?thesis by (simp add: scan_escape_def Let_def)
next
  case (Cons c s')
  with at have "lexer_at cfg l (c # s')" by simp
  note g = get_Cons [OF this]
  show ?thesis
  proof (cases "c = CHR ''u''")
    case True
    with ok g have "fst (scan_unicode_escape (get l))" by (simp add: scan_escape_def Let_def)
    from scan_unicode_escape_inv [OF g(2) this] obtain cp t rest where
      "s' = t @ rest" "char_text cp (CHR 0x5C # CHR ''u'' # t)" by blast
    with Cons True show ?thesis by (intro exI [of _ cp] exI [of _ "CHR ''u'' # t"] exI [of _ rest]) simp
  next
    case False
    with ok g obtain cp where "letter_escape c = Some cp"
      by (auto simp: scan_escape_def letter_escape_def Let_def char_eq_ic split: if_splits)
    then have "char_text cp (CHR 0x5C # [c])" by (rule char_text.letter)
    with Cons show ?thesis by (intro exI [of _ cp] exI [of _ "[c]"] exI [of _ s']) simp
  qed
qed

text \<open>A string goes on with its closing quote or with a character of the grammar.\<close>

lemma scan_string_char_inv:
  assumes at: "lexer_at cfg l s" and ok: "fst (scan_string_loop l) = tok_value_string"
  shows "(\<exists>rest. s = CHR 0x22 # rest) \<or> (\<exists>cp t rest. s = t @ rest \<and> char_text cp t)"
proof (cases s)
  case Nil
  with at ok get_Nil [of cfg l] show ?thesis by (subst (asm) scan_string_loop.simps) (simp add: Let_def)
next
  case (Cons c s')
  with at have "lexer_at cfg l (c # s')" by simp
  note g = get_Cons [OF this]
  have loop: "scan_string_loop l = (let c = ic c; l = get l
      in if c = ic CHR 0x22 then (tok_value_string, l)
         else if c = ic CHR 0x5C then
           (case scan_escape l of (ok, l1) \<Rightarrow>
              if ok then scan_string_loop l1 else (tok_parse_error, l1))
         else if 0x00 \<le> c \<and> c \<le> 0x1F then (tok_parse_error, lex_error (control_message c) l)
         else if 0x20 \<le> c \<and> c \<le> 0x7F then scan_string_loop (add c l)
         else (case utf8_ranges c of
                 None \<Rightarrow> (tok_parse_error, lex_error ill_formed_message l)
               | Some ranges \<Rightarrow>
                   (case next_byte_in_range ranges l of (ok, l1) \<Rightarrow>
                      if ok then scan_string_loop l1 else (tok_parse_error, l1))))"
    using g by (subst scan_string_loop.simps) (simp add: Let_def)
  consider (quote) "c = CHR 0x22" | (escape) "c = CHR 0x5C" | (control) "ic c \<le> 0x1F"
    | (ascii) "0x20 \<le> ic c" "ic c \<le> 0x7F" "c \<noteq> CHR 0x22" "c \<noteq> CHR 0x5C"
    | (multi) "0x80 \<le> ic c" by fastforce
  then show ?thesis
  proof cases
    case quote
    with Cons show ?thesis by simp
  next
    case escape
    with ok loop have "fst (scan_escape (get l))"
      by (auto simp: Let_def split: prod.splits if_splits)
    from scan_escape_inv [OF g(2) this] obtain cp t rest where
      "s' = t @ rest" "char_text cp (CHR 0x5C # t)" by blast
    with Cons escape have "s = (CHR 0x5C # t) @ rest" "char_text cp (CHR 0x5C # t)" by simp_all
    then show ?thesis by blast
  next
    case control
    have "c \<noteq> CHR 0x22" "c \<noteq> CHR 0x5C" using control by auto
    then have "ic c \<noteq> ic CHR 0x22" "ic c \<noteq> ic CHR 0x5C" by (simp_all only: ic_inject not_False_eq_True)
    with ok loop control have False by (simp add: Let_def split: if_splits)
    then show ?thesis ..
  next
    case ascii
    obtain n where n: "c = byte n" "ic c = int n" by (rule char_code)
    have "n \<noteq> 0x22" "n \<noteq> 0x5C" using ascii(3,4) n(2) by (auto simp: char_eq_ic)
    with ascii n have "char_text n (utf8 n)" by (intro char_text.plain) (auto simp: scalar_value_def)
    moreover have "utf8 n = [c]" using ascii n by (simp add: utf8_def)
    ultimately have "s = [c] @ s'" "char_text n [c]" using Cons by simp_all
    then show ?thesis by blast
  next
    case multi
    have "c \<noteq> CHR 0x22" "c \<noteq> CHR 0x5C" using multi by auto
    then have ne: "ic c \<noteq> ic CHR 0x22" "ic c \<noteq> ic CHR 0x5C" by (simp_all only: ic_inject not_False_eq_True)
    obtain rs where rs: "utf8_ranges (ic c) = Some rs" "fst (next_byte_in_range rs (get l))"
      using ok loop multi ne by (auto simp: Let_def split: prod.splits if_splits option.splits)
    obtain bs rest where bs: "s' = bs @ rest" "list_all2 in_range rs bs"
      using next_byte_in_range_loop_inv [of cfg "add (ic c) (get l)" s' rs] rs(2) g
        utf8_ranges_nonneg [OF rs(1)] next_byte_in_range_utf8 [OF rs(1), of "get l"] by auto
    from utf8_ranges_inv [OF rs(1) bs(2)] obtain cp where cp: "scalar_value cp" "0x80 \<le> cp" "utf8 cp = c # bs"
      by blast
    then have "char_text cp (c # bs)" using char_text.plain [of cp] by simp
    moreover have "s = (c # bs) @ rest" using Cons bs by simp
    ultimately show ?thesis by blast
  qed
qed

lemma char_text_nonempty: "char_text cp t \<Longrightarrow> t \<noteq> []"
  by (cases rule: char_text.cases) auto

lemma scan_string_loop_inv:
  "lexer_at cfg l s \<Longrightarrow> fst (scan_string_loop l) = tok_value_string \<Longrightarrow>
     \<exists>cps t rest. s = t @ CHR 0x22 # rest \<and> string_text cps t"
proof (induction "length s" arbitrary: l s rule: less_induct)
  case less
  from scan_string_char_inv [OF less.prems] show ?case
  proof (elim disjE exE conjE)
    fix rest
    assume "s = CHR 0x22 # rest"
    then show ?thesis by (intro exI [of _ "[]"] exI [of _ rest]) (simp add: string_text_Nil)
  next
    fix cp t rest
    assume t: "s = t @ rest" "char_text cp t"
    obtain l' where "scan_string_loop l = scan_string_loop l'" "lexer_at cfg l' rest"
      using scan_string_char [of cfg l t rest cp] less.prems(1) t by blast
    moreover have "length rest < length s" using t char_text_nonempty [of cp t] by simp
    ultimately obtain cps t' rest' where "rest = t' @ CHR 0x22 # rest'" "string_text cps t'"
      using less.hyps [of rest l'] less.prems(2) by auto
    with t have "s = (t @ t') @ CHR 0x22 # rest'" "string_text (cp # cps) (t @ t')"
      by (auto simp: string_text_Cons)
    then show ?thesis by blast
  qed
qed

section \<open>Literals and white space\<close>

lemma scan_literal_loop_inv:
  "lexer_at cfg l s \<Longrightarrow> fst (scan_literal_loop xs l) \<Longrightarrow> CHR 0xFF \<notin> set xs \<Longrightarrow> \<exists>rest. s = xs @ rest"
proof (induction xs arbitrary: l s)
  case (Cons x xs)
  have eof: "to_char_type eof = CHR 0xFF" by code_simp
  show ?case
  proof (cases s)
    case Nil
    with Cons.prems get_Nil [of cfg l] show ?thesis by (auto simp: Let_def eof split: if_splits)
  next
    case (Cons c s')
    with Cons.prems(1) have "lexer_at cfg l (c # s')" by simp
    note g = get_Cons [OF this]
    with Cons.prems have "c = x" "fst (scan_literal_loop xs (get l))" by (auto simp: Let_def split: if_splits)
    with Cons.IH [OF g(2)] Cons.prems(3) Cons show ?thesis by auto
  qed
qed simp

lemma skip_whitespace_inv:
  assumes at: "lexer_at cfg l s"
  shows "(ws s \<and> current (skip_whitespace l) = eof \<and> lexer_at cfg (skip_whitespace l) []) \<or>
    (\<exists>w c rest. s = w @ c # rest \<and> ws w \<and> \<not> is_ws c \<and> current (skip_whitespace l) = ic c \<and>
       lexer_at cfg (skip_whitespace l) rest)"
proof (cases "list_all is_ws s")
  case True
  then show ?thesis using skip_whitespace_end [OF at True] by (simp add: ws_def)
next
  case False
  let ?w = "takeWhile is_ws s" and ?r = "dropWhile is_ws s"
  have ne: "?r \<noteq> []" using False by (auto simp: list_all_iff dropWhile_eq_Nil_conv)
  have w: "list_all is_ws ?w" by (auto simp: list_all_iff dest: set_takeWhileD)
  have s: "s = ?w @ hd ?r # tl ?r" using ne by simp
  have c: "\<not> is_ws (hd ?r)" using hd_dropWhile [OF ne] .
  from skip_whitespace_ws [of cfg l ?w "hd ?r" "tl ?r"] at s w c show ?thesis
    by (intro disjI2 exI [of _ ?w] exI [of _ "hd ?r"] exI [of _ "tl ?r"]) (simp add: ws_def)
qed

section \<open>Characters read\<close>

text \<open>A byte order mark is looked for as long as no character has been read; behind the first token
  there always has.\<close>

abbreviation consumed :: "lexer \<Rightarrow> nat" where "consumed l \<equiv> chars_read_total (position l)"

lemma consumed_simps [simp]:
  "consumed (get l) = Suc (consumed l)" "consumed (unget l) = consumed l - 1" "consumed (add c l) = consumed l"
  "consumed (reset l) = consumed l" "consumed (lex_error m l) = consumed l"
  "consumed (json_assert b l) = consumed l" "consumed (l\<lparr>value_float := x\<rparr>) = consumed l"
  by (auto simp: get_def unget_def add_def reset_def lex_error_def json_assert_def get_character_def Let_def
      split: list.splits)

lemma consumed_get_codepoint_loop: "consumed l \<le> consumed (snd (get_codepoint_loop fs cp l))"
proof (induction fs cp l rule: get_codepoint_loop.induct)
  case (2 f fs cp l)
  show ?case
    using 2(1) [OF refl refl] 2(2) [OF refl refl] 2(3) [OF refl refl] by (auto simp: Let_def)
qed simp

lemma consumed_next_byte_in_range_loop: "consumed l \<le> consumed (snd (next_byte_in_range_loop rs l))"
proof (induction rs l rule: next_byte_in_range_loop.induct)
  case (2 lo hi rs l)
  then show ?case by (auto simp: Let_def)
qed simp

lemma consumed_add_codepoint [simp]: "consumed (add_codepoint cp l) = consumed l"
  by (simp add: add_codepoint_def Let_def)

lemma consumed_get_codepoint: "consumed l \<le> consumed (snd (get_codepoint l))"
  using consumed_get_codepoint_loop [of "json_assert (current l = ic CHR ''u'') l" "[12, 8, 4, 0]" 0]
  by (auto simp: get_codepoint_def simp del: get_codepoint_loop.simps split: prod.splits)

lemma consumed_scan_unicode_escape: "consumed l \<le> consumed (snd (scan_unicode_escape l))"
proof -
  obtain c1 l1 where 1: "get_codepoint l = (c1, l1)" by fastforce
  obtain c2 l2 where 2: "get_codepoint (get (get l1)) = (c2, l2)" by fastforce
  have "consumed l \<le> consumed l1" "consumed l1 \<le> consumed l2"
    using consumed_get_codepoint [of l] consumed_get_codepoint [of "get (get l1)"] 1 2 by auto
  then show ?thesis by (auto simp: scan_unicode_escape_def 1 2 Let_def)
qed

lemma consumed_scan_escape: "consumed l \<le> consumed (snd (scan_escape l))"
  using consumed_scan_unicode_escape [of "get l"] by (auto simp: scan_escape_def Let_def)

lemma consumed_scan_string_loop: "consumed l \<le> consumed (snd (scan_string_loop l))"
proof (induction l rule: scan_string_loop.induct)
  case (1 l)
  let ?l = "get l" and ?c = "current (get l)"
  obtain ok l1 where esc: "scan_escape ?l = (ok, l1)" by fastforce
  have l1: "consumed ?l \<le> consumed l1" using consumed_scan_escape [of ?l] esc by simp
  show ?case
  proof (cases "utf8_ranges ?c")
    case None
    show ?thesis
      using 1(1) [OF refl refl] 1(2) [OF refl refl] esc l1 None
      by (subst scan_string_loop.simps) (auto simp: Let_def intro: order_trans dest: Suc_leD)
  next
    case (Some rs)
    obtain ok' l2 where rng: "next_byte_in_range rs ?l = (ok', l2)" by fastforce
    have l2: "consumed ?l \<le> consumed l2"
      using consumed_next_byte_in_range_loop [of "add ?c ?l" rs] rng next_byte_in_range_utf8 [OF Some, of ?l] by simp
    show ?thesis
      using 1(1) [OF refl refl] 1(2) [OF refl refl] 1(3) [OF refl refl _ _ _ _ _ Some rng [symmetric]] esc l1 l2 rng Some
      by (subst scan_string_loop.simps) (auto simp: Let_def intro: order_trans dest: Suc_leD)
  qed
qed

lemma consumed_scan_number_done: "consumed (snd (scan_number_done nt l)) = consumed l - 1"
  by (simp add: scan_number_done_def number_as_float_eq Let_def split: prod.splits)

lemma consumed_scan_number_any2: "consumed l \<le> consumed (snd (scan_number_any2 nt l))"
proof (induction nt l rule: scan_number_any2.induct)
  case (1 nt l)
  show ?case
    using 1 [OF refl refl] by (subst scan_number_any2.simps) (auto simp: Let_def consumed_scan_number_done)
qed

lemma consumed_scan_number_exponent: "consumed l \<le> consumed (snd (scan_number_exponent l))"
  using consumed_scan_number_any2 [of "add (current (get l)) (get l)" tok_value_float]
    consumed_scan_number_any2 [of "add (current (get (add (current (get l)) (get l)))) (get (add (current (get l)) (get l)))"
      tok_value_float]
  by (auto simp: scan_number_exponent_def scan_number_sign_def Let_def)

lemma consumed_scan_number_decimal2: "consumed l \<le> consumed (snd (scan_number_decimal2 nt l))"
proof (induction nt l rule: scan_number_decimal2.induct)
  case (1 nt l)
  show ?case
    using 1 [OF refl refl] consumed_scan_number_exponent [of "add (current (get l)) (get l)"]
    by (subst scan_number_decimal2.simps) (auto simp: Let_def consumed_scan_number_done)
qed

lemma consumed_scan_number_decimal1: "consumed l \<le> consumed (snd (scan_number_decimal1 l))"
  using consumed_scan_number_decimal2 [of "add (current (get l)) (get l)" tok_value_float]
  by (auto simp: scan_number_decimal1_def Let_def)

lemma consumed_scan_number_any1: "consumed l \<le> consumed (snd (scan_number_any1 nt l))"
proof (induction nt l rule: scan_number_any1.induct)
  case (1 nt l)
  show ?case
    using 1 [OF refl refl] consumed_scan_number_exponent [of "add (current (get l)) (get l)"]
      consumed_scan_number_decimal1 [of "add (decimal_point_char (get l)) (get l)"]
    by (subst scan_number_any1.simps) (auto simp: Let_def consumed_scan_number_done)
qed

lemma consumed_scan_number_zero: "consumed l \<le> consumed (snd (scan_number_zero nt l))"
  using consumed_scan_number_exponent [of "add (current (get l)) (get l)"]
    consumed_scan_number_decimal1 [of "add (decimal_point_char (get l)) (get l)"]
  by (auto simp: scan_number_zero_def Let_def consumed_scan_number_done)

lemma consumed_scan_number: "consumed l \<le> consumed (snd (scan_number l))"
proof -
  have int: "consumed l \<le> consumed (snd (scan_number_zero nt (add c l)))"
    "consumed l \<le> consumed (snd (scan_number_any1 nt (add c l)))" for nt c l
    using consumed_scan_number_zero [of "add c l" nt] consumed_scan_number_any1 [of "add c l" nt] by simp_all
  have "consumed l \<le> consumed (snd (scan_number_minus l))" for l
    using int [of "get l" tok_value_integer] by (auto simp: scan_number_minus_def Let_def dest: Suc_leD)
  from this [of "add (current l) (reset l)"] int [of "reset l"] show ?thesis
    by (auto simp: scan_number_def Let_def)
qed

lemma consumed_scan_literal_loop: "consumed l \<le> consumed (snd (scan_literal_loop xs l))"
  by (induction xs l rule: scan_literal_loop.induct) (auto simp: Let_def)

lemma consumed_skip_whitespace: "consumed l < consumed (skip_whitespace l)"
proof (induction l rule: skip_whitespace.induct)
  case (1 l)
  show ?case using 1 [OF refl refl] by (subst skip_whitespace.simps) (auto simp: Let_def)
qed

lemma consumed_scan_token: "consumed l \<le> consumed (snd (scan_token l))"
  using consumed_scan_number [of l] consumed_scan_string_loop [of "reset l"]
  by (auto simp: scan_token_def scan_literal_def scan_string_def Let_def split_beta
      simp del: scan_literal_loop.simps intro: order_trans [OF _ consumed_scan_literal_loop])

section \<open>Tokens\<close>

lemma scan_string_loop_token: "fst (scan_string_loop l) \<in> {tok_value_string, tok_parse_error}"
proof (induction l rule: scan_string_loop.induct)
  case (1 l)
  let ?l = "get l" and ?c = "current (get l)"
  obtain ok l1 where esc: "scan_escape ?l = (ok, l1)" by fastforce
  show ?case
  proof (cases "utf8_ranges ?c")
    case None
    show ?thesis
      using 1(1) [OF refl refl] 1(2) [OF refl refl] esc None
      by (subst scan_string_loop.simps) (auto simp: Let_def)
  next
    case (Some rs)
    obtain ok' l2 where rng: "next_byte_in_range rs ?l = (ok', l2)" by fastforce
    show ?thesis
      using 1(1) [OF refl refl] 1(2) [OF refl refl] 1(3) [OF refl refl _ _ _ _ _ Some rng [symmetric]] esc rng Some
      by (subst scan_string_loop.simps) (auto simp: Let_def)
  qed
qed

text \<open>A number whose value is not finite.\<close>

lemma scan_number_done_infinite:
  assumes r: "scanned cfg r (number_type (if neg then tok_value_integer else tok_value_unsigned) fr ex) s
      (number_buffer_text (snd cfg) neg ip fr ex)"
    and ip: "int_text ip" and v: "number_value (snd cfg) neg ip fr ex = Jnumber_float x" "\<not> isfinite x"
  shows "token_json r = None \<and> fst r = tok_value_float"
proof -
  let ?b = "number_buffer_text (snd cfg) neg ip fr ex"
  obtain l where l: "r = scan_number_done (number_type (if neg then tok_value_integer else tok_value_unsigned) fr ex) (get l)"
    "lexer_at cfg l s" "token_buffer l = ?b" using r by (auto simp: scanned_def)
  have dp: "to_char_type (decimal_point_char (unget (get l))) = snd cfg"
    using unget_get [OF l(2)] by (simp add: lexer_at_def)
  have tw: "list_all is_digit ip" "ip \<noteq> []" "hd ip \<noteq> CHR ''-''"
    using ip by (auto simp: int_text_def digits_def neq_Nil_conv is_digit_def)
  show ?thesis
  proof (cases "fr = [] \<and> ex = []")
    case True
    then show ?thesis
      using l dp tw v
      by (cases neg)
        (auto simp: scan_number_done_def number_as_float_eq number_type_def number_value_def strtoull_def strtoll_def
          number_buffer_text_def sign_text_def takeWhile_digits Let_def split: if_splits)
  next
    case False
    then show ?thesis
      using l dp v by (auto simp: scan_number_done_def number_as_float_eq number_type_def number_value_def Let_def)
  qed
qed

definition punctuation :: "char \<Rightarrow> token_type \<Rightarrow> bool" where
  "punctuation c t \<longleftrightarrow> (c, t) \<in> {(CHR ''['', tok_begin_array), (CHR '']'', tok_end_array),
     (CHR ''{'', tok_begin_object), (CHR ''}'', tok_end_object), (CHR '':'', tok_name_separator),
     (CHR '','', tok_value_separator)}"

text \<open>What the final switch of the scanner accepts at the character \<open>c\<close>.\<close>

lemma scan_token_number_inv:
  assumes at: "lexer_at cfg l s" and cur: "current l = ic c" and c: "c = CHR ''-'' \<or> is_digit c"
    and ok: "fst (scan_token l) \<noteq> tok_parse_error"
  shows "(\<exists>v t rest. c # s = t @ rest \<and> scalar_text (snd cfg) v t \<and> token_json (scan_token l) = Some v \<and>
      lexer_at cfg (snd (scan_token l)) rest) \<or>
    (token_json (scan_token l) = None \<and> fst (scan_token l) = tok_value_float)"
proof -
  have eq: "scan_token l = scan_number l" using scan_token_number [OF cur c] .
  obtain neg ip fr ex rest where n: "c # s = sign_text neg @ ip @ fr @ ex @ rest" "int_text ip" "frac_text fr"
    "exp_text ex" "scanned cfg (scan_number l)
       (number_type (if neg then tok_value_integer else tok_value_unsigned) fr ex) rest
       (number_buffer_text (snd cfg) neg ip fr ex)"
    using scan_number_inv [OF at cur c] ok eq by auto
  let ?v = "number_value (snd cfg) neg ip fr ex"
  show ?thesis
  proof (cases "\<exists>x. ?v = Jnumber_float x \<and> \<not> isfinite x")
    case True
    with scan_number_done_infinite [OF n(5,2)] eq show ?thesis by auto
  next
    case False
    then have fin: "\<forall>x. ?v = Jnumber_float x \<longrightarrow> isfinite x" by blast
    have "scalar_text (snd cfg) ?v (sign_text neg @ ip @ fr @ ex)"
      using scalar_text.number [OF n(2-4) refl fin] .
    moreover note scan_number_done_value [OF n(5,2) refl fin]
    moreover have "c # s = (sign_text neg @ ip @ fr @ ex) @ rest" using n(1) by simp
    ultimately show ?thesis
      unfolding eq
      by (intro disjI1 exI [of _ ?v] exI [of _ "sign_text neg @ ip @ fr @ ex"] exI [of _ rest] conjI) simp_all
  qed
qed

lemma scan_token_literal_inv:
  assumes at: "lexer_at cfg l s" and cur: "current l = ic c" and c: "c \<in> {CHR ''t'', CHR ''f'', CHR ''n''}"
    and ok: "fst (scan_token l) \<noteq> tok_parse_error"
  shows "\<exists>v t rest. c # s = t @ rest \<and> scalar_text (snd cfg) v t \<and> token_json (scan_token l) = Some v \<and>
    lexer_at cfg (snd (scan_token l)) rest"
proof -
  consider "c = CHR ''t''" | "c = CHR ''f''" | "c = CHR ''n''" using c by blast
  then show ?thesis
  proof cases
    case 1
    then obtain rest where rest: "s = ''rue'' @ rest"
      using scan_literal_loop_inv [OF at, of "''rue''"] ok cur
      by (auto simp: scan_token_def scan_literal_def Let_def to_char_type_def char_of_def
          simp del: scan_literal_loop.simps split: prod.splits if_splits)
    with scan_token_literal(2) [OF cur, of cfg "''rue''" rest] at 1 show ?thesis
      by (intro exI [of _ "Jboolean True"] exI [of _ "''true''"] exI [of _ rest]) (auto intro: scalar_text.true)
  next
    case 2
    then obtain rest where rest: "s = ''alse'' @ rest"
      using scan_literal_loop_inv [OF at, of "''alse''"] ok cur
      by (auto simp: scan_token_def scan_literal_def Let_def to_char_type_def char_of_def
          simp del: scan_literal_loop.simps split: prod.splits if_splits)
    with scan_token_literal(3) [OF cur, of cfg "''alse''" rest] at 2 show ?thesis
      by (intro exI [of _ "Jboolean False"] exI [of _ "''false''"] exI [of _ rest]) (auto intro: scalar_text.false)
  next
    case 3
    then obtain rest where rest: "s = ''ull'' @ rest"
      using scan_literal_loop_inv [OF at, of "''ull''"] ok cur
      by (auto simp: scan_token_def scan_literal_def Let_def to_char_type_def char_of_def
          simp del: scan_literal_loop.simps split: prod.splits if_splits)
    with scan_token_literal(1) [OF cur, of cfg "''ull''" rest] at 3 show ?thesis
      by (intro exI [of _ Jnull] exI [of _ "''null''"] exI [of _ rest]) (auto intro: scalar_text.null)
  qed
qed

lemma scan_token_string_inv:
  assumes at: "lexer_at cfg l s" and cur: "current l = ic CHR 0x22"
    and ok: "fst (scan_token l) \<noteq> tok_parse_error"
  shows "\<exists>cps k rest. s = k @ CHR 0x22 # rest \<and> string_text cps k \<and> fst (scan_token l) = tok_value_string \<and>
    token_json (scan_token l) = Some (Jstring (utf8_text cps)) \<and> lexer_at cfg (snd (scan_token l)) rest"
proof -
  have "scan_token l = scan_string_loop (reset l)"
    using cur by (simp add: scan_token_def scan_string_def Let_def)
  with ok scan_string_loop_token [of "reset l"] scan_string_loop_inv [of cfg "reset l" s] at
  obtain cps k rest where k: "s = k @ CHR 0x22 # rest" "string_text cps k" by auto
  with scan_token_string [OF cur, of cfg k rest cps] at show ?thesis
    by (intro exI [of _ cps] exI [of _ k] exI [of _ rest]) auto
qed

text \<open>Scanning behind a possible byte order mark.\<close>

definition scan_body :: "lexer \<Rightarrow> token_type \<times> lexer" where
  "scan_body l = (case scan_comments (skip_whitespace l) of (ok, l2) \<Rightarrow>
     if \<not> ok then (tok_parse_error, l2) else scan_token l2)"

definition byte_order_mark :: string where
  "byte_order_mark = [CHR 0xEF, CHR 0xBB, CHR 0xBF]"

lemma scan_eq_body: "0 < consumed l \<Longrightarrow> scan l = scan_body l"
  by (simp add: scan_def scan_body_def)

lemma skip_whitespace_no_comments:
  assumes "lexer_at (False, dp) l s"
  shows "scan_body l = scan_token (skip_whitespace l)"
proof -
  have "\<not> ignore_comments (skip_whitespace l)"
    using skip_whitespace_inv [OF assms] by (auto simp: lexer_at_def)
  then have "scan_comments (skip_whitespace l) = (True, skip_whitespace l)" by (subst scan_comments.simps) simp
  then show ?thesis by (simp add: scan_body_def)
qed

lemma consumed_scan_body:
  assumes "lexer_at (False, dp) l s"
  shows "0 < consumed (snd (scan_body l))"
  using consumed_scan_token [of "skip_whitespace l"] consumed_skip_whitespace [of l]
  by (simp add: skip_whitespace_no_comments [OF assms])

lemma ic_neqI: "c \<noteq> d \<Longrightarrow> ic c \<noteq> ic d"
  by (simp add: ic_inject)

lemma scan_token_punctuation:
  assumes cur: "current l = ic c" and c: "c \<in> set ''[]{}:,''"
  shows "\<exists>t. scan_token l = (t, l) \<and> punctuation c t"
proof -
  consider "c = CHR ''[''" | "c = CHR '']''" | "c = CHR ''{''" | "c = CHR ''}''" | "c = CHR '':''" | "c = CHR '',''"
    using c by auto
  then show ?thesis by cases (simp_all add: scan_token_def punctuation_def cur Let_def)
qed

lemma scan_body_inv:
  assumes at: "lexer_at (False, dp) l s" and ok: "scan_body l = (t, l')" "t \<noteq> tok_parse_error"
  obtains (ends) "t = tok_end_of_input" "ends_text s"
    | (punct) w c rest where "s = w @ c # rest" "ws w" "punctuation c t" "lexer_at (False, dp) l' rest"
    | (string) w cps k rest where "s = w @ CHR 0x22 # k @ CHR 0x22 # rest" "ws w" "string_text cps k"
        "t = tok_value_string" "lexer_at (False, dp) l' rest"
    | (scalar) w v tx rest where "s = w @ tx @ rest" "ws w" "scalar_text dp v tx" "token_json (t, l') = Some v"
        "lexer_at (False, dp) l' rest"
    | (infinite) "t = tok_value_float" "token_json (t, l') = None"
proof -
  let ?l = "skip_whitespace l"
  have eq: "scan_token ?l = (t, l')" using ok skip_whitespace_no_comments [OF at] by simp
  from skip_whitespace_inv [OF at] consider (eoi) "ws s" "current ?l = eof"
    | (char) w c rest where "s = w @ c # rest" "ws w" "current ?l = ic c" "lexer_at (False, dp) ?l rest"
    by blast
  then show thesis
  proof cases
    case eoi
    with eq have "t = tok_end_of_input" by (simp add: scan_token_def digit_0_9_def Let_def)
    then show thesis using eoi ends_text_ws by (intro ends) auto
  next
    case (char w c rest)
    have okt: "fst (scan_token ?l) \<noteq> tok_parse_error" using eq ok(2) by simp
    consider (p) "c \<in> set ''[]{}:,''" | (lit) "c \<in> {CHR ''t'', CHR ''f'', CHR ''n''}" | (str) "c = CHR 0x22"
      | (num) "c = CHR ''-'' \<or> is_digit c" | (nul) "c = CHR 0x00"
      | (bad) "c \<notin> set ''[]{}:,''" "c \<notin> {CHR ''t'', CHR ''f'', CHR ''n''}" "c \<noteq> CHR 0x22" "c \<noteq> CHR ''-''"
        "\<not> is_digit c" "c \<noteq> CHR 0x00" by blast
    then show thesis
    proof cases
      case p
      obtain t' where "scan_token ?l = (t', ?l)" "punctuation c t'"
        using scan_token_punctuation [OF char(3) p] by blast
      with eq char show thesis by (intro punct) auto
    next
      case lit
      from scan_token_literal_inv [OF char(4,3) lit okt] eq obtain v tx r where
        "c # rest = tx @ r" "scalar_text dp v tx" "token_json (t, l') = Some v" "lexer_at (False, dp) l' r" by auto
      with char(1,2) show thesis by (intro scalar) auto
    next
      case str
      from scan_token_string_inv [OF char(4) char(3) [unfolded str] okt] eq obtain cps k r where
        "rest = k @ CHR 0x22 # r" "string_text cps k" "t = tok_value_string" "lexer_at (False, dp) l' r" by auto
      with char(1,2) str show thesis by (intro string) auto
    next
      case num
      from scan_token_number_inv [OF char(4,3) num okt] show thesis
      proof (elim disjE exE conjE)
        fix v tx r
        assume "c # rest = tx @ r" "scalar_text (snd (False, dp)) v tx" "token_json (scan_token ?l) = Some v"
          "lexer_at (False, dp) (snd (scan_token ?l)) r"
        with char(1,2) eq show thesis by (intro scalar [of w tx r v]) simp_all
      next
        assume "token_json (scan_token ?l) = None" "fst (scan_token ?l) = tok_value_float"
        with eq show thesis by (intro infinite) simp_all
      qed
    next
      case nul
      with eq char(3) have "t = tok_end_of_input" by (simp add: scan_token_def digit_0_9_def Let_def)
      then show thesis using char(1,2) nul ends_text_nul by (intro ends) auto
    next
      case bad
      then have "c \<noteq> CHR ''[''" "c \<noteq> CHR '']''" "c \<noteq> CHR ''{''" "c \<noteq> CHR ''}''" "c \<noteq> CHR '':''" "c \<noteq> CHR '',''"
        "c \<noteq> CHR ''t''" "c \<noteq> CHR ''f''" "c \<noteq> CHR ''n''" by auto
      note ne = this [THEN ic_neqI] bad(3,4,6) [THEN ic_neqI]
      have "fst (scan_token ?l) = tok_parse_error"
        using ne bad(5) unfolding scan_token_def char(3) Let_def by (simp only: if_False digit_0_9_ic) simp
      with okt show thesis by simp
    qed
  qed
qed

text \<open>The first token: a byte order mark may come before it.\<close>

lemma scan_first:
  assumes at: "lexer_at cfg l s" and 0: "consumed l = 0" and ok: "fst (scan l) \<noteq> tok_parse_error"
  shows "\<exists>bom s1 l1. s = bom @ s1 \<and> (bom = [] \<or> bom = byte_order_mark) \<and> lexer_at cfg l1 s1 \<and> scan l = scan_body l1"
proof (cases "s = [] \<or> hd s \<noteq> CHR 0xEF")
  case True
  from scan_start [OF at True] show ?thesis
    by (intro exI [of _ "[]"] exI [of _ s]) (auto simp: scan_body_def)
next
  case False
  then obtain s1 where s: "s = CHR 0xEF # s1" by (cases s) auto
  with at have "lexer_at cfg l (CHR 0xEF # s1)" by simp
  note g1 = get_Cons [OF this]
  have bom: "current (get (get l)) = 0xBB" "current (get (get (get l))) = 0xBF"
    using ok 0 g1 by (auto simp: scan_def skip_bom_def Let_def split: if_splits)
  obtain s2 where s1: "s1 = CHR 0xBB # s2"
    using current_get [OF g1(2)] bom(1) by (cases s1) (auto simp: char_eq_ic)
  with g1(2) have "lexer_at cfg (get l) (CHR 0xBB # s2)" by simp
  note g2 = get_Cons [OF this]
  obtain s3 where s2: "s2 = CHR 0xBF # s3"
    using current_get [OF g2(2)] bom(2) by (cases s2) (auto simp: char_eq_ic)
  with scan_bom [of cfg l s3] at s s1 0 show ?thesis
    by (intro exI [of _ byte_order_mark] exI [of _ s3]) (auto simp: scan_body_def byte_order_mark_def)
qed

end
