(* ===== verification/Json_Sound.thy ===== *)
theory Json_Sound
  imports Json_Token_Sound
begin

text \<open>
  The parser is sound for the grammar: an input that is accepted consists of an optional byte order mark,
  white space, a text of the grammar and what may end a text. With \<^verbatim>\<open>Json_Parse\<close> this
  characterises the inputs \<^verbatim>\<open>parse\<close> accepts, and the value it gives for each.
\<close>

section \<open>Tokens of the parser\<close>

text \<open>The next token is scanned from the text \<open>s\<close>.\<close>

definition reads_from :: "char \<Rightarrow> parser \<Rightarrow> string \<Rightarrow> bool" where
  "reads_from dp p s \<longleftrightarrow> (\<exists>l. scan (m_lexer p) = scan_body l \<and> lexer_at (False, dp) l s)"

lemma reads_from_next:
  assumes "reads_from dp p s" "lexer_at (False, dp) (m_lexer (next_token p)) rest"
  shows "reads_from dp (next_token p) rest"
proof -
  obtain l where l: "scan (m_lexer p) = scan_body l" "lexer_at (False, dp) l s"
    using assms(1) by (auto simp: reads_from_def)
  have "0 < consumed (m_lexer (next_token p))"
    using consumed_scan_body [OF l(2)] l(1) by (auto simp: next_token_def split: prod.splits)
  with assms(2) show ?thesis by (auto simp: reads_from_def scan_eq_body)
qed

lemma next_token_inv:
  assumes r: "reads_from dp p s" and ok: "last_token (next_token p) \<noteq> tok_parse_error"
  obtains (ends) "last_token (next_token p) = tok_end_of_input" "ends_text s"
    | (punct) w c rest where "s = w @ c # rest" "ws w" "punctuation c (last_token (next_token p))"
        "reads_from dp (next_token p) rest"
    | (string) w cps k rest where "s = w @ CHR 0x22 # k @ CHR 0x22 # rest" "ws w" "string_text cps k"
        "last_token (next_token p) = tok_value_string" "reads_from dp (next_token p) rest"
    | (scalar) w v tx rest where "s = w @ tx @ rest" "ws w" "scalar_text dp v tx"
        "token_json (last_token (next_token p), m_lexer (next_token p)) = Some v" "reads_from dp (next_token p) rest"
    | (infinite) "last_token (next_token p) = tok_value_float"
        "token_json (last_token (next_token p), m_lexer (next_token p)) = None"
proof -
  obtain l where l: "scan (m_lexer p) = scan_body l" "lexer_at (False, dp) l s"
    using r by (auto simp: reads_from_def)
  obtain t l' where t: "scan_body l = (t, l')" by fastforce
  with l have tok: "last_token (next_token p) = t" "m_lexer (next_token p) = l'"
    by (simp_all add: next_token_eq)
  note nxt = reads_from_next [OF r, unfolded tok(2)]
  from l(2) t ok [unfolded tok(1)] show thesis
  proof (cases rule: scan_body_inv)
    case ends
    then show thesis using that(1) tok by simp
  next
    case (punct w c rest)
    then show thesis using that(2) [of w c rest] tok nxt by simp
  next
    case (string w cps k rest)
    then show thesis using that(3) [of w k rest cps] tok nxt by simp
  next
    case (scalar w v tx rest)
    then show thesis using that(4) [of w tx rest v] tok nxt by simp
  next
    case infinite
    then show thesis using that(5) tok by simp
  qed
qed

lemma next_token_punct_inv:
  assumes r: "reads_from dp p s" and t: "last_token (next_token p) = t" and c: "punctuation c t"
  shows "\<exists>w rest. s = w @ c # rest \<and> ws w \<and> reads_from dp (next_token p) rest"
proof -
  have no: "t \<noteq> tok_parse_error" "t \<noteq> tok_end_of_input" "t \<noteq> tok_value_string" "t \<noteq> tok_value_float"
    "token_json (t, l) = None" for l
    using c by (auto simp: punctuation_def)
  then have "last_token (next_token p) \<noteq> tok_parse_error" using t by simp
  with r show ?thesis
  proof (cases rule: next_token_inv)
    case (punct w c' rest)
    with c t have "c' = c" by (auto simp: punctuation_def)
    with punct show ?thesis by blast
  qed (use no t in simp_all)
qed

lemma get_token_string_inv:
  assumes r: "reads_from dp p s" and t: "last_token (next_token p) = tok_value_string"
  shows "\<exists>w cps k rest. s = w @ CHR 0x22 # k @ CHR 0x22 # rest \<and> ws w \<and> string_text cps k \<and>
    reads_from dp (next_token p) rest"
proof -
  have ok: "last_token (next_token p) \<noteq> tok_parse_error" using t by simp
  from r ok show ?thesis
  proof (cases rule: next_token_inv)
    case (scalar w v tx rest)
    then obtain str where "v = Jstring str" using t by auto
    with scalar(3) obtain cps k where "tx = CHR 0x22 # k @ [CHR 0x22]" "string_text cps k"
      by cases (auto simp: number_value_def Let_def split: if_splits)
    with scalar show ?thesis by auto
  qed (use t in \<open>auto simp: punctuation_def\<close>)
qed

section \<open>Values\<close>

text \<open>\<open>goes_on skip p st q\<close>: from \<open>p\<close> with the stack \<open>st\<close> the loop comes to a successful end at \<open>q\<close>.\<close>

definition goes_on :: "bool \<Rightarrow> parser \<Rightarrow> bool list \<Rightarrow> parser \<Rightarrow> bool" where
  "goes_on skip p st q \<longleftrightarrow> (\<exists>evs evs'. sax_parse_loop recorder skip p st evs = Inr (True, q, evs'))"

definition value_read :: "char \<Rightarrow> parser \<Rightarrow> string \<Rightarrow> bool list \<Rightarrow> parser \<Rightarrow> bool" where
  "value_read dp p s st q \<longleftrightarrow>
     (\<exists>w v tx rest p'. s = w @ tx @ rest \<and> ws w \<and> json_text dp v tx \<and> reads_from dp p' rest \<and>
        left p' < left p \<and> goes_on True p' st q)"

definition elements_read :: "char \<Rightarrow> parser \<Rightarrow> string \<Rightarrow> bool list \<Rightarrow> parser \<Rightarrow> bool" where
  "elements_read dp p s st q \<longleftrightarrow>
     (\<exists>xs tx rest p'. s = tx @ CHR '']'' # rest \<and> elements_text dp xs tx \<and> reads_from dp p' rest \<and>
        left p' < left p \<and> goes_on True p' st q)"

definition members_read :: "char \<Rightarrow> parser \<Rightarrow> string \<Rightarrow> bool list \<Rightarrow> parser \<Rightarrow> bool" where
  "members_read dp p s st q \<longleftrightarrow>
     (\<exists>m tx rest p'. s = tx @ CHR ''}'' # rest \<and> members_text dp m tx \<and> reads_from dp p' rest \<and>
        left p' < left p \<and> goes_on True p' st q)"

lemma parse_value_outcome:
  "(\<exists>v ev. token_json (last_token p, m_lexer p) = Some v \<and> parse_value recorder p st evs = Inr (Evaluate, p, st, ev)) \<or>
   (last_token p = tok_begin_array \<and> last_token (next_token p) = tok_end_array \<and>
     (\<exists>ev. parse_value recorder p st evs = Inr (Evaluate, next_token p, st, ev))) \<or>
   (last_token p = tok_begin_array \<and>
     (\<exists>ev. parse_value recorder p st evs = Inr (Continue, next_token p, True # st, ev))) \<or>
   (last_token p = tok_begin_object \<and> last_token (next_token p) = tok_end_object \<and>
     (\<exists>ev. parse_value recorder p st evs = Inr (Evaluate, next_token p, st, ev))) \<or>
   (last_token p = tok_begin_object \<and> last_token (next_token p) = tok_value_string \<and>
     last_token (next_token (next_token p)) = tok_name_separator \<and>
     (\<exists>ev. parse_value recorder p st evs = Inr (Continue, next_token (next_token (next_token p)), False # st, ev))) \<or>
   (\<exists>p' st' ev. parse_value recorder p st evs = Inr (Returned False, p', st', ev))"
  by (cases "last_token p")
     (simp_all add: parse_value_def parse_begin_array_eq parse_begin_object_eq sax_call_def sax_fail_def
       syntax_error_def Let_def)

lemma goes_on_value:
  assumes "goes_on False p st q"
  obtains (scalar) v where "token_json (last_token p, m_lexer p) = Some v" "goes_on True p st q"
    | (empty_array) "last_token p = tok_begin_array" "last_token (next_token p) = tok_end_array"
        "goes_on True (next_token p) st q"
    | (array) "last_token p = tok_begin_array" "goes_on False (next_token p) (True # st) q"
    | (empty_object) "last_token p = tok_begin_object" "last_token (next_token p) = tok_end_object"
        "goes_on True (next_token p) st q"
    | (object) "last_token p = tok_begin_object" "last_token (next_token p) = tok_value_string"
        "last_token (next_token (next_token p)) = tok_name_separator"
        "goes_on False (next_token (next_token (next_token p))) (False # st) q"
proof -
  obtain evs evs' where run: "sax_parse_loop recorder False p st evs = Inr (True, q, evs')"
    using assms by (auto simp: goes_on_def)
  have evaluate: "goes_on True p' st q" if "parse_value recorder p st evs = Inr (Evaluate, p', st, ev)" for p' ev
    using run loop_after_value [OF that] by (auto simp: goes_on_def)
  have continue: "goes_on False p' st' q" if "parse_value recorder p st evs = Inr (Continue, p', st', ev)" for p' st' ev
    using run loop_continue [OF that] by (auto simp: goes_on_def)
  have "parse_value recorder p st evs \<noteq> Inr (Returned False, p', st', ev)" for p' st' ev
    using run by (auto simp: sax_parse_loop_halves after_value_def)
  with parse_value_outcome [of p st evs] show thesis
    by (elim disjE exE conjE) (blast intro: that evaluate continue)+
qed

text \<open>Behind a value of an array and of an object.\<close>

lemma goes_on_array:
  assumes "goes_on True p (True # st) q"
  obtains (next_element) "last_token (next_token p) = tok_value_separator"
      "goes_on False (next_token (next_token p)) (True # st) q"
    | (end_array) "last_token (next_token p) = tok_end_array" "goes_on True (next_token p) st q"
proof -
  obtain evs evs' where "after_evaluation recorder (evaluate_array recorder p (True # st) evs) = Inr (True, q, evs')"
    using assms by (auto simp: goes_on_def sax_parse_loop_halves evaluate_state_def)
  then show thesis
    by (auto simp: evaluate_array_eq after_evaluation_def sax_call_def sax_fail_def syntax_error_def Let_def
        split: if_splits intro: that [unfolded goes_on_def])
qed

lemma goes_on_object:
  assumes "goes_on True p (False # st) q"
  obtains (next_member) "last_token (next_token p) = tok_value_separator"
      "last_token (next_token (next_token p)) = tok_value_string"
      "last_token (next_token (next_token (next_token p))) = tok_name_separator"
      "goes_on False (next_token (next_token (next_token (next_token p)))) (False # st) q"
    | (end_object) "last_token (next_token p) = tok_end_object" "goes_on True (next_token p) st q"
proof -
  obtain evs evs' where "after_evaluation recorder (evaluate_object recorder p (False # st) evs) = Inr (True, q, evs')"
    using assms by (auto simp: goes_on_def sax_parse_loop_halves evaluate_state_def)
  then show thesis
    by (auto simp: evaluate_object_eq after_evaluation_def sax_call_def sax_fail_def syntax_error_def Let_def
        split: if_splits intro: that [unfolded goes_on_def])
qed

section \<open>Texts\<close>

text \<open>The three claims about the parser in front of a value, of the elements of an array and of the members of
  an object, proved together by induction on the input that is left.\<close>

definition sound_value :: "char \<Rightarrow> parser \<Rightarrow> bool" where
  "sound_value dp p \<longleftrightarrow>
     (\<forall>s st q. reads_from dp p s \<longrightarrow> goes_on False (next_token p) st q \<longrightarrow> value_read dp p s st q)"

definition sound_elements :: "char \<Rightarrow> parser \<Rightarrow> bool" where
  "sound_elements dp p \<longleftrightarrow>
     (\<forall>s st q. reads_from dp p s \<longrightarrow> goes_on False (next_token p) (True # st) q \<longrightarrow> elements_read dp p s st q)"

definition sound_members :: "char \<Rightarrow> parser \<Rightarrow> bool" where
  "sound_members dp p \<longleftrightarrow>
     (\<forall>s st q. reads_from dp p s \<longrightarrow> last_token (next_token p) = tok_value_string \<longrightarrow>
        last_token (next_token (next_token p)) = tok_name_separator \<longrightarrow>
        goes_on False (next_token (next_token (next_token p))) (False # st) q \<longrightarrow> members_read dp p s st q)"

definition sound :: "char \<Rightarrow> parser \<Rightarrow> bool" where
  "sound dp p \<longleftrightarrow> sound_value dp p \<and> sound_elements dp p \<and> sound_members dp p"

lemma punctuation_simps:
  "punctuation CHR ''['' tok_begin_array" "punctuation CHR '']'' tok_end_array"
  "punctuation CHR ''{'' tok_begin_object" "punctuation CHR ''}'' tok_end_object"
  "punctuation CHR '':'' tok_name_separator" "punctuation CHR '','' tok_value_separator"
  by (simp_all add: punctuation_def)

lemma left_less:
  "last_token (next_token p) = t \<Longrightarrow> \<not> stopping t \<Longrightarrow> left (next_token p) < left p"
  using left_next_token_less by blast

lemma value_read_scalar:
  assumes r: "reads_from dp p s" and v: "token_json (last_token (next_token p), m_lexer (next_token p)) = Some v"
    and on: "goes_on True (next_token p) st q"
  shows "value_read dp p s st q"
proof -
  have tok: "last_token (next_token p) \<noteq> tok_parse_error" "\<not> stopping (last_token (next_token p))"
    using v by (auto simp: stopping_def)
  note less = left_next_token_less [OF tok(2)]
  from r tok(1) show ?thesis
  proof (cases rule: next_token_inv)
    case (string w cps k rest)
    have "json_text dp (Jstring (utf8_text cps)) (CHR 0x22 # k @ [CHR 0x22])"
      using string(3) by (intro scalar scalar_text.string)
    with string less on show ?thesis
      unfolding value_read_def
      by (intro exI [of _ w] exI [of _ "Jstring (utf8_text cps)"] exI [of _ "CHR 0x22 # k @ [CHR 0x22]"]
          exI [of _ rest] exI [of _ "next_token p"]) simp
  next
    case (scalar w v' tx rest)
    with less on show ?thesis
      unfolding value_read_def
      by (intro exI [of _ w] exI [of _ v'] exI [of _ tx] exI [of _ rest] exI [of _ "next_token p"])
         (simp add: json_text_elements_text_members_text.scalar)
  qed (use v in \<open>auto simp: punctuation_def\<close>)
qed

lemma value_readI:
  assumes "s = w @ tx @ rest" "ws w" "json_text dp v tx" "reads_from dp p' rest" "left p' < left p" "goes_on True p' st q"
  shows "value_read dp p s st q"
  using assms unfolding value_read_def by blast

lemma sound_valueE:
  assumes "sound_value dp p" "reads_from dp p s" "goes_on False (next_token p) st q"
  obtains w v tx rest p' where "s = w @ tx @ rest" "ws w" "json_text dp v tx" "reads_from dp p' rest"
    "left p' < left p" "goes_on True p' st q"
proof -
  have "value_read dp p s st q" using assms by (simp add: sound_value_def)
  then show thesis unfolding value_read_def using that by blast
qed

lemma opening_inv:
  assumes r: "reads_from dp p s" and t: "last_token (next_token p) = t"
    and c: "c = CHR ''['' \<and> t = tok_begin_array \<or> c = CHR ''{'' \<and> t = tok_begin_object"
  obtains w rest where "s = w @ c # rest" "ws w" "reads_from dp (next_token p) rest" "left (next_token p) < left p"
proof -
  have "punctuation c t" "\<not> stopping t" using c by (auto simp: punctuation_def stopping_def)
  with next_token_punct_inv [OF r t] left_less [OF t] that show thesis by blast
qed

lemma value_read_array:
  assumes IH: "\<And>p'. left p' < left p \<Longrightarrow> sound dp p'" and r: "reads_from dp p s"
    and t: "last_token (next_token p) = tok_begin_array"
  shows "last_token (next_token (next_token p)) = tok_end_array \<Longrightarrow> goes_on True (next_token (next_token p)) st q \<Longrightarrow>
      value_read dp p s st q"
    and "goes_on False (next_token (next_token p)) (True # st) q \<Longrightarrow> value_read dp p s st q"
proof -
  let ?p1 = "next_token p"
  let ?p2 = "next_token ?p1"
  obtain w r1 where 1: "s = w @ CHR ''['' # r1" "ws w" "reads_from dp ?p1 r1" "left ?p1 < left p"
    by (rule opening_inv [OF r t, of "CHR ''[''"]) auto
  show "value_read dp p s st q" if tok: "last_token ?p2 = tok_end_array" and on: "goes_on True ?p2 st q"
  proof -
    obtain w' r2 where 2: "r1 = w' @ CHR '']'' # r2" "ws w'" "reads_from dp ?p2 r2"
      using next_token_punct_inv [OF 1(3) tok punctuation_simps(2)] by blast
    with 1 left_next_token_le [of ?p1] on show ?thesis
      by (intro value_readI [of s w "CHR ''['' # w' @ '']''" r2 dp "Jarray []" ?p2]
          json_text_elements_text_members_text.empty_array) auto
  qed
  show "value_read dp p s st q" if on: "goes_on False ?p2 (True # st) q"
  proof -
    have "elements_read dp ?p1 r1 st q" using IH 1(3,4) on by (auto simp: sound_def sound_elements_def)
    then obtain xs tx rest p' where "r1 = tx @ CHR '']'' # rest" "elements_text dp xs tx"
      "reads_from dp p' rest" "left p' < left ?p1" "goes_on True p' st q" by (auto simp: elements_read_def)
    with 1 show ?thesis
      by (intro value_readI [of s w "CHR ''['' # tx @ '']''" rest dp "Jarray xs" p']
          json_text_elements_text_members_text.array) auto
  qed
qed

lemma value_read_object:
  assumes IH: "\<And>p'. left p' < left p \<Longrightarrow> sound dp p'" and r: "reads_from dp p s"
    and t: "last_token (next_token p) = tok_begin_object"
  shows "last_token (next_token (next_token p)) = tok_end_object \<Longrightarrow> goes_on True (next_token (next_token p)) st q \<Longrightarrow>
      value_read dp p s st q"
    and "last_token (next_token (next_token p)) = tok_value_string \<Longrightarrow>
      last_token (next_token (next_token (next_token p))) = tok_name_separator \<Longrightarrow>
      goes_on False (next_token (next_token (next_token (next_token p)))) (False # st) q \<Longrightarrow> value_read dp p s st q"
proof -
  let ?p1 = "next_token p"
  let ?p2 = "next_token ?p1"
  obtain w r1 where 1: "s = w @ CHR ''{'' # r1" "ws w" "reads_from dp ?p1 r1" "left ?p1 < left p"
    by (rule opening_inv [OF r t, of "CHR ''{''"]) auto
  show "value_read dp p s st q" if tok: "last_token ?p2 = tok_end_object" and on: "goes_on True ?p2 st q"
  proof -
    obtain w' r2 where 2: "r1 = w' @ CHR ''}'' # r2" "ws w'" "reads_from dp ?p2 r2"
      using next_token_punct_inv [OF 1(3) tok punctuation_simps(4)] by blast
    with 1 left_next_token_le [of ?p1] on show ?thesis
      by (intro value_readI [of s w "CHR ''{'' # w' @ ''}''" r2 dp "Jobject []" ?p2]
          json_text_elements_text_members_text.empty_object) auto
  qed
  show "value_read dp p s st q" if "last_token ?p2 = tok_value_string"
    "last_token (next_token ?p2) = tok_name_separator" "goes_on False (next_token (next_token ?p2)) (False # st) q"
  proof -
    have "members_read dp ?p1 r1 st q" using IH 1(3,4) that by (auto simp: sound_def sound_members_def)
    then obtain m tx rest p' where "r1 = tx @ CHR ''}'' # rest" "members_text dp m tx"
      "reads_from dp p' rest" "left p' < left ?p1" "goes_on True p' st q" by (auto simp: members_read_def)
    with 1 show ?thesis
      by (intro value_readI [of s w "CHR ''{'' # tx @ ''}''" rest dp "Jobject m" p']
          json_text_elements_text_members_text.object) auto
  qed
qed

lemma sound_value_step:
  assumes IH: "\<And>p'. left p' < left p \<Longrightarrow> sound dp p'"
  shows "sound_value dp p"
  unfolding sound_value_def
proof (intro allI impI)
  fix s st q
  assume r: "reads_from dp p s" and "goes_on False (next_token p) st q"
  from this(2) show "value_read dp p s st q"
    by (cases rule: goes_on_value)
       (blast intro: value_read_scalar [OF r] value_read_array [OF IH r] value_read_object [OF IH r])+
qed

lemma sound_elements_step:
  assumes IH: "\<And>p'. left p' < left p \<Longrightarrow> sound dp p'" and V: "sound_value dp p"
  shows "sound_elements dp p"
  unfolding sound_elements_def
proof (intro allI impI)
  fix s st q
  assume r: "reads_from dp p s" and on: "goes_on False (next_token p) (True # st) q"
  obtain w v tx rest p1 where 1: "s = w @ tx @ rest" "ws w" "json_text dp v tx" "reads_from dp p1 rest"
    "left p1 < left p" "goes_on True p1 (True # st) q" by (rule sound_valueE [OF V r on])
  have le: "left (next_token p1) \<le> left p1" by (rule left_next_token_le)
  from 1(6) show "elements_read dp p s st q"
  proof (cases rule: goes_on_array)
    case end_array
    obtain w' r2 where 2: "rest = w' @ CHR '']'' # r2" "ws w'" "reads_from dp (next_token p1) r2"
      using next_token_punct_inv [OF 1(4) end_array(1) punctuation_simps(2)] by blast
    have "elements_text dp [v] (w @ tx @ w')" using 1 2 by (intro last_element)
    with 1 2 le end_array(2) show ?thesis
      unfolding elements_read_def
      by (intro exI [of _ "[v]"] exI [of _ "w @ tx @ w'"] exI [of _ r2] exI [of _ "next_token p1"]) auto
  next
    case next_element
    obtain w' r2 where 2: "rest = w' @ CHR '','' # r2" "ws w'" "reads_from dp (next_token p1) r2"
      using next_token_punct_inv [OF 1(4) next_element(1) punctuation_simps(6)] by blast
    have "elements_read dp (next_token p1) r2 st q"
      using IH [of "next_token p1"] 1(5) le 2(3) next_element(2) by (auto simp: sound_def sound_elements_def)
    then obtain xs tx' r3 p' where 3: "r2 = tx' @ CHR '']'' # r3" "elements_text dp xs tx'"
      "reads_from dp p' r3" "left p' < left (next_token p1)" "goes_on True p' st q" by (auto simp: elements_read_def)
    have "elements_text dp (v # xs) (w @ tx @ w' @ CHR '','' # tx')" using 1 2 3 by (intro element)
    with 1 2 3 le show ?thesis
      unfolding elements_read_def
      by (intro exI [of _ "v # xs"] exI [of _ "w @ tx @ w' @ CHR '','' # tx'"] exI [of _ r3] exI [of _ p']) auto
  qed
qed

lemma sound_members_step:
  assumes IH: "\<And>p'. left p' < left p \<Longrightarrow> sound dp p'"
  shows "sound_members dp p"
  unfolding sound_members_def
proof (intro allI impI)
  fix s st q
  let ?p1 = "next_token p"
  let ?p2 = "next_token ?p1"
  assume r: "reads_from dp p s" and tok: "last_token ?p1 = tok_value_string" "last_token ?p2 = tok_name_separator"
    and on: "goes_on False (next_token ?p2) (False # st) q"
  obtain w1 cps k r1 where 1: "s = w1 @ CHR 0x22 # k @ CHR 0x22 # r1" "ws w1" "string_text cps k" "reads_from dp ?p1 r1"
    using get_token_string_inv [OF r tok(1)] by blast
  obtain w2 r2 where 2: "r1 = w2 @ CHR '':'' # r2" "ws w2" "reads_from dp ?p2 r2"
    using next_token_punct_inv [OF 1(4) tok(2) punctuation_simps(5)] by blast
  have "left ?p1 < left p" by (rule left_less [OF tok(1)]) (simp add: stopping_def)
  then have less: "left ?p2 < left p" using left_next_token_le [of ?p1] by simp
  with IH have V: "sound_value dp ?p2" by (simp add: sound_def)
  obtain w3 v tx r3 p3 where 3: "r2 = w3 @ tx @ r3" "ws w3" "json_text dp v tx" "reads_from dp p3 r3"
    "left p3 < left ?p2" "goes_on True p3 (False # st) q" by (rule sound_valueE [OF V 2(3) on])
  have le: "left (next_token p3) \<le> left p3" by (rule left_next_token_le)
  from 3(6) show "members_read dp p s st q"
  proof (cases rule: goes_on_object)
    case end_object
    obtain w4 r4 where 4: "r3 = w4 @ CHR ''}'' # r4" "ws w4" "reads_from dp (next_token p3) r4"
      using next_token_punct_inv [OF 3(4) end_object(1) punctuation_simps(4)] by blast
    have "members_text dp [(utf8_text cps, v)] (w1 @ CHR 0x22 # k @ CHR 0x22 # w2 @ CHR '':'' # w3 @ tx @ w4)"
      using 1 2 3 4 by (intro last_member)
    with 1 2 3 4 le less end_object(2) show ?thesis
      unfolding members_read_def
      by (intro exI [of _ "[(utf8_text cps, v)]"]
          exI [of _ "w1 @ CHR 0x22 # k @ CHR 0x22 # w2 @ CHR '':'' # w3 @ tx @ w4"] exI [of _ r4]
          exI [of _ "next_token p3"]) auto
  next
    case next_member
    obtain w4 r4 where 4: "r3 = w4 @ CHR '','' # r4" "ws w4" "reads_from dp (next_token p3) r4"
      using next_token_punct_inv [OF 3(4) next_member(1) punctuation_simps(6)] by blast
    have "members_read dp (next_token p3) r4 st q"
      using IH [of "next_token p3"] 3(5) le less 4(3) next_member(2-4) by (auto simp: sound_def sound_members_def)
    then obtain m tx' r5 p' where 5: "r4 = tx' @ CHR ''}'' # r5" "members_text dp m tx'"
      "reads_from dp p' r5" "left p' < left (next_token p3)" "goes_on True p' st q" by (auto simp: members_read_def)
    have "members_text dp ((utf8_text cps, v) # m)
        (w1 @ CHR 0x22 # k @ CHR 0x22 # w2 @ CHR '':'' # w3 @ tx @ w4 @ CHR '','' # tx')"
      using 1 2 3 4 5 by (intro member)
    with 1 2 3 4 5 le less show ?thesis
      unfolding members_read_def
      by (intro exI [of _ "(utf8_text cps, v) # m"]
          exI [of _ "w1 @ CHR 0x22 # k @ CHR 0x22 # w2 @ CHR '':'' # w3 @ tx @ w4 @ CHR '','' # tx'"] exI [of _ r5]
          exI [of _ p']) auto
  qed
qed

lemma parser_sound: "sound dp p"
proof (induction "left p" arbitrary: p rule: less_induct)
  case less
  then have IH: "\<And>p'. left p' < left p \<Longrightarrow> sound dp p'" by blast
  have "sound_value dp p" by (rule sound_value_step [OF IH])
  with sound_elements_step [OF IH] sound_members_step [OF IH] show ?case by (simp add: sound_def)
qed

section \<open>The language of the parser\<close>

lemma accepted_text:
  assumes "accepted dp False s es"
  shows "\<exists>bom w t t2 v. s = bom @ w @ t @ t2 \<and> (bom = [] \<or> bom = byte_order_mark) \<and> ws w \<and> json_text dp v t \<and>
    ends_text t2"
proof -
  let ?l = "lexer_init s False dp"
  let ?p = "\<lparr>last_token = tok_uninitialized, m_lexer = ?l\<rparr>"
  obtain q where q: "sax_parse_internal recorder (next_token ?p) [] = Inr (True, q, es)"
    "last_token (next_token q) = tok_end_of_input"
    using assms by (auto simp: accepted_def parser_start_def)
  then have on: "goes_on False (next_token ?p) [] q" by (auto simp: goes_on_def sax_parse_internal_def)
  then have "last_token (next_token ?p) \<noteq> tok_parse_error" by (cases rule: goes_on_value) auto
  then have "fst (scan ?l) \<noteq> tok_parse_error" by (auto simp: next_token_def split: prod.splits)
  from scan_first [OF lexer_at_init _ this] obtain bom s1 l1 where
    bom: "s = bom @ s1" "bom = [] \<or> bom = byte_order_mark" "lexer_at (False, dp) l1 s1" "scan ?l = scan_body l1"
    by (auto simp: lexer_init_def)
  then have "reads_from dp ?p s1" by (auto simp: reads_from_def)
  with parser_sound [of dp ?p] on obtain w v tx rest p' where
    v: "s1 = w @ tx @ rest" "ws w" "json_text dp v tx" "reads_from dp p' rest" "goes_on True p' [] q"
    by (auto simp: sound_def elim: sound_valueE)
  then have "p' = q" by (auto simp: goes_on_def sax_parse_loop_halves evaluate_state_def after_evaluation_def)
  with v(4) q(2) have "ends_text rest"
    by (auto simp: punctuation_def elim: next_token_inv)
  with bom v show ?thesis
    by (intro exI [of _ bom] exI [of _ w] exI [of _ tx] exI [of _ rest] exI [of _ v]) simp
qed

lemma bom_accepted:
  assumes t: "json_text dp v s" and w: "ws w1" "ends_text t2"
  shows "\<exists>es. accepted dp ig (byte_order_mark @ w1 @ s @ t2) es \<and> builds es Start = Some (Done (normalise v))"
proof -
  let ?l = "lexer_init (byte_order_mark @ w1 @ s @ t2) ig dp"
  let ?l3 = "get (get (get ?l))"
  have at: "lexer_at (ig, dp) ?l (CHR 0xEF # CHR 0xBB # CHR 0xBF # w1 @ s @ t2)"
    using lexer_at_init [of ig dp "byte_order_mark @ w1 @ s @ t2"] by (simp add: byte_order_mark_def)
  note g1 = get_Cons [OF at] note g2 = get_Cons [OF g1(2)] note g3 = get_Cons [OF g2(2)]
  have "consumed ?l = 0" by (simp add: lexer_init_def)
  then have "scan ?l = scan ?l3"
    using g1 g2 g3 by (simp add: scan_eq_body [of ?l3]) (simp add: scan_def skip_bom_def scan_body_def Let_def)
  then have "parser_start (byte_order_mark @ w1 @ s @ t2) ig dp =
      next_token \<lparr>last_token = tok_uninitialized, m_lexer = ?l3\<rparr>"
    by (simp add: parser_start_def next_token_def split: prod.splits)
  moreover have "at_text (ig, dp) \<lparr>last_token = tok_uninitialized, m_lexer = ?l3\<rparr> (w1 @ s @ t2)"
    using g3(2) by (simp add: at_text_def)
  from json_text_run [OF t this w] obtain p' es where
    "sax_parse_internal recorder (next_token \<lparr>last_token = tok_uninitialized, m_lexer = ?l3\<rparr>) [] = Inr (True, p', es)"
    "last_token (next_token p') = tok_end_of_input" "builds es Start = Some (Done (normalise v))" by blast
  ultimately show ?thesis by (auto simp: accepted_def)
qed

lemma parsed_text:
  assumes parse: "json_parse ms dp True False s = Inr v"
  shows "\<exists>bom w t t2 u. s = bom @ w @ t @ t2 \<and> (bom = [] \<or> bom = byte_order_mark) \<and> ws w \<and> json_text dp u t \<and>
    ends_text t2 \<and> v = normalise u"
proof -
  from parse obtain es where es: "accepted dp False s es" "builds es Start = Some (Done v)"
    by (rule_tac json_parse_cases [of dp False s ms]) auto
  from accepted_text [OF es(1)] obtain bom w t t2 u where
    u: "s = bom @ w @ t @ t2" "bom = [] \<or> bom = byte_order_mark" "ws w" "json_text dp u t" "ends_text t2" by blast
  then obtain es' where "accepted dp False s es'" "builds es' Start = Some (Done (normalise u))"
    using json_text_accepted [OF u(4,3,5), of False] bom_accepted [OF u(4,3,5), of False] by auto
  with json_parse_accepted [of dp False s es' ms True] parse have "v = normalise u" by auto
  with u show ?thesis by blast
qed

text \<open>C2. \<^verbatim>\<open>parse\<close> accepts exactly the texts of the JSON grammar, after an optional byte order mark and white
  space and up to white space and the end of the input or a NUL, and gives the value the text denotes.\<close>

theorem parse_iff_grammar:
  "json_parse ms dp True False s = Inr v \<longleftrightarrow>
     (\<exists>bom w t t2 u. s = bom @ w @ t @ t2 \<and> (bom = [] \<or> bom = byte_order_mark) \<and> ws w \<and> json_text dp u t \<and>
        ends_text t2 \<and> v = normalise u)"
proof
  assume "json_parse ms dp True False s = Inr v"
  then show "\<exists>bom w t t2 u. s = bom @ w @ t @ t2 \<and> (bom = [] \<or> bom = byte_order_mark) \<and> ws w \<and> json_text dp u t \<and>
        ends_text t2 \<and> v = normalise u" by (rule parsed_text)
next
  assume "\<exists>bom w t t2 u. s = bom @ w @ t @ t2 \<and> (bom = [] \<or> bom = byte_order_mark) \<and> ws w \<and> json_text dp u t \<and>
        ends_text t2 \<and> v = normalise u"
  then obtain bom w t t2 u where u: "s = bom @ w @ t @ t2" "ws w" "json_text dp u t" "ends_text t2" "v = normalise u"
    "bom = [] \<or> bom = byte_order_mark" by blast
  then obtain es where "accepted dp False s es" "builds es Start = Some (Done v)"
    using json_text_accepted [OF u(3,2,4), of False] bom_accepted [OF u(3,2,4), of False] by auto
  then show "json_parse ms dp True False s = Inr v" using json_parse_accepted by fastforce
qed

end
