(* ===== verification/Json_Dtoa.thy ===== *)
theory Json_Dtoa
  imports Cstdlib
begin

text \<open>
  Printing of doubles by the Grisu2 algorithm, namespace \<^verbatim>\<open>dtoa_impl\<close> and function \<^verbatim>\<open>to_chars\<close> of
  \<^verbatim>\<open>src/libwebrtc/json.hpp\<close>. Significands are 64-bit words and all arithmetic on them wraps as in
  the source; binary exponents are integers. The digit buffer is the list of the characters
  written so far, so \<^verbatim>\<open>len\<close> is its length. Two loops need an argument to end
  (\<^verbatim>\<open>normalize\<close> runs forever on a zero significand, and the digits of the fraction are generated
  until the remainder is small enough): they take fuel and return \<open>None\<close> when it runs out;
  that the 65 rounds and the 20 rounds they are given are enough is shown in \<^verbatim>\<open>Json_Grisu\<close>.
\<close>

section \<open>\<^verbatim>\<open>diyfp\<close>\<close>

record diyfp =
  fp_f :: "64 word"
  fp_e :: int

definition diyfp_sub :: "diyfp \<Rightarrow> diyfp \<Rightarrow> diyfp" where
  "diyfp_sub x y = \<lparr>fp_f = fp_f x - fp_f y, fp_e = fp_e x\<rparr>"

definition diyfp_mul :: "diyfp \<Rightarrow> diyfp \<Rightarrow> diyfp" where
  "diyfp_mul x y =
     (let u_lo = fp_f x AND 0xFFFFFFFF; u_hi = drop_bit 32 (fp_f x);
          v_lo = fp_f y AND 0xFFFFFFFF; v_hi = drop_bit 32 (fp_f y);
          p0 = u_lo * v_lo; p1 = u_lo * v_hi; p2 = u_hi * v_lo; p3 = u_hi * v_hi;
          p0_hi = drop_bit 32 p0;
          p1_lo = p1 AND 0xFFFFFFFF; p1_hi = drop_bit 32 p1;
          p2_lo = p2 AND 0xFFFFFFFF; p2_hi = drop_bit 32 p2;
          Q = p0_hi + p1_lo + p2_lo;
          Q' = Q + push_bit 31 1;
          h = p3 + p2_hi + p1_hi + drop_bit 32 Q'
      in \<lparr>fp_f = h, fp_e = fp_e x + fp_e y + 64\<rparr>)"

fun diyfp_normalize :: "nat \<Rightarrow> diyfp \<Rightarrow> diyfp option" where
  "diyfp_normalize 0 x = None"
| "diyfp_normalize (Suc fuel) x =
     (if drop_bit 63 (fp_f x) = 0
      then diyfp_normalize fuel \<lparr>fp_f = push_bit 1 (fp_f x), fp_e = fp_e x - 1\<rparr>
      else Some x)"

definition diyfp_normalize_to :: "diyfp \<Rightarrow> int \<Rightarrow> diyfp" where
  "diyfp_normalize_to x target_exponent =
     (let delta = fp_e x - target_exponent
      in \<lparr>fp_f = push_bit (nat delta) (fp_f x), fp_e = target_exponent\<rparr>)"

record boundaries =
  bw :: diyfp
  bminus :: diyfp
  bplus :: diyfp

text \<open>For a double: 53 bits of precision, bias 1075, smallest exponent \<open>-1074\<close>.\<close>

definition compute_boundaries :: "64 word \<Rightarrow> boundaries option" where
  "compute_boundaries bits =
     (let E = drop_bit 52 bits;
          F = bits AND (2 ^ 52 - 1);
          is_denormal = (E = 0);
          v = (if is_denormal then \<lparr>fp_f = F, fp_e = - 1074\<rparr>
               else \<lparr>fp_f = F + 2 ^ 52, fp_e = uint E - 1075\<rparr>);
          lower_boundary_is_closer = (F = 0 \<and> E > 1);
          m_plus = \<lparr>fp_f = 2 * fp_f v + 1, fp_e = fp_e v - 1\<rparr>;
          m_minus = (if lower_boundary_is_closer then \<lparr>fp_f = 4 * fp_f v - 1, fp_e = fp_e v - 2\<rparr>
                     else \<lparr>fp_f = 2 * fp_f v - 1, fp_e = fp_e v - 1\<rparr>)
      in case (diyfp_normalize 65 m_plus, diyfp_normalize 65 v) of
           (Some w_plus, Some w) \<Rightarrow>
             Some \<lparr>bw = w, bminus = diyfp_normalize_to m_minus (fp_e w_plus), bplus = w_plus\<rparr>
         | _ \<Rightarrow> None)"

section \<open>Cached powers of ten\<close>

definition kAlpha :: int where "kAlpha = - 60"
definition kGamma :: int where "kGamma = - 32"

record cached_power =
  cp_f :: "64 word"
  cp_e :: int
  cp_k :: int

definition kCachedPowers :: "(64 word \<times> int \<times> int) list" where
  "kCachedPowers =
     [(0xAB70FE17C79AC6CA, -1060, -300),
      (0xFF77B1FCBEBCDC4F, -1034, -292),
      (0xBE5691EF416BD60C, -1007, -284),
      (0x8DD01FAD907FFC3C, -980, -276),
      (0xD3515C2831559A83, -954, -268),
      (0x9D71AC8FADA6C9B5, -927, -260),
      (0xEA9C227723EE8BCB, -901, -252),
      (0xAECC49914078536D, -874, -244),
      (0x823C12795DB6CE57, -847, -236),
      (0xC21094364DFB5637, -821, -228),
      (0x9096EA6F3848984F, -794, -220),
      (0xD77485CB25823AC7, -768, -212),
      (0xA086CFCD97BF97F4, -741, -204),
      (0xEF340A98172AACE5, -715, -196),
      (0xB23867FB2A35B28E, -688, -188),
      (0x84C8D4DFD2C63F3B, -661, -180),
      (0xC5DD44271AD3CDBA, -635, -172),
      (0x936B9FCEBB25C996, -608, -164),
      (0xDBAC6C247D62A584, -582, -156),
      (0xA3AB66580D5FDAF6, -555, -148),
      (0xF3E2F893DEC3F126, -529, -140),
      (0xB5B5ADA8AAFF80B8, -502, -132),
      (0x87625F056C7C4A8B, -475, -124),
      (0xC9BCFF6034C13053, -449, -116),
      (0x964E858C91BA2655, -422, -108),
      (0xDFF9772470297EBD, -396, -100),
      (0xA6DFBD9FB8E5B88F, -369, -92),
      (0xF8A95FCF88747D94, -343, -84),
      (0xB94470938FA89BCF, -316, -76),
      (0x8A08F0F8BF0F156B, -289, -68),
      (0xCDB02555653131B6, -263, -60),
      (0x993FE2C6D07B7FAC, -236, -52),
      (0xE45C10C42A2B3B06, -210, -44),
      (0xAA242499697392D3, -183, -36),
      (0xFD87B5F28300CA0E, -157, -28),
      (0xBCE5086492111AEB, -130, -20),
      (0x8CBCCC096F5088CC, -103, -12),
      (0xD1B71758E219652C, -77, -4),
      (0x9C40000000000000, -50, 4),
      (0xE8D4A51000000000, -24, 12),
      (0xAD78EBC5AC620000, 3, 20),
      (0x813F3978F8940984, 30, 28),
      (0xC097CE7BC90715B3, 56, 36),
      (0x8F7E32CE7BEA5C70, 83, 44),
      (0xD5D238A4ABE98068, 109, 52),
      (0x9F4F2726179A2245, 136, 60),
      (0xED63A231D4C4FB27, 162, 68),
      (0xB0DE65388CC8ADA8, 189, 76),
      (0x83C7088E1AAB65DB, 216, 84),
      (0xC45D1DF942711D9A, 242, 92),
      (0x924D692CA61BE758, 269, 100),
      (0xDA01EE641A708DEA, 295, 108),
      (0xA26DA3999AEF774A, 322, 116),
      (0xF209787BB47D6B85, 348, 124),
      (0xB454E4A179DD1877, 375, 132),
      (0x865B86925B9BC5C2, 402, 140),
      (0xC83553C5C8965D3D, 428, 148),
      (0x952AB45CFA97A0B3, 455, 156),
      (0xDE469FBD99A05FE3, 481, 164),
      (0xA59BC234DB398C25, 508, 172),
      (0xF6C69A72A3989F5C, 534, 180),
      (0xB7DCBF5354E9BECE, 561, 188),
      (0x88FCF317F22241E2, 588, 196),
      (0xCC20CE9BD35C78A5, 614, 204),
      (0x98165AF37B2153DF, 641, 212),
      (0xE2A0B5DC971F303A, 667, 220),
      (0xA8D9D1535CE3B396, 694, 228),
      (0xFB9B7CD9A4A7443C, 720, 236),
      (0xBB764C4CA7A44410, 747, 244),
      (0x8BAB8EEFB6409C1A, 774, 252),
      (0xD01FEF10A657842C, 800, 260),
      (0x9B10A4E5E9913129, 827, 268),
      (0xE7109BFBA19C0C9D, 853, 276),
      (0xAC2820D9623BF429, 880, 284),
      (0x80444B5E7AA7CF85, 907, 292),
      (0xBF21E44003ACDD2D, 933, 300),
      (0x8E679C2F5E44FF8F, 960, 308),
      (0xD433179D9C8CB841, 986, 316),
      (0x9E19DB92B4E31BA9, 1013, 324)]"

text \<open>Division of C++ integers by a positive divisor truncates.\<close>

definition trunc_div :: "int \<Rightarrow> int \<Rightarrow> int" where
  "trunc_div a b = (if a < 0 then - ((- a) div b) else a div b)"

definition cached_power_index :: "int \<Rightarrow> int" where
  "cached_power_index e' =
     (let f' = kAlpha - e' - 1;
          k = trunc_div (f' * 78913) (2 ^ 18) + (if f' > 0 then 1 else 0)
      in trunc_div (300 + k + (8 - 1)) 8)"

definition get_cached_power_for_binary_exponent :: "int \<Rightarrow> cached_power" where
  "get_cached_power_for_binary_exponent e' =
     (case kCachedPowers ! nat (cached_power_index e') of
        (cf, ce, ck) \<Rightarrow> \<lparr>cp_f = cf, cp_e = ce, cp_k = ck\<rparr>)"

section \<open>Digit generation\<close>

text \<open>The result \<^verbatim>\<open>k\<close> and the value written to \<^verbatim>\<open>pow10\<close>.\<close>

definition find_largest_pow10 :: "32 word \<Rightarrow> nat \<times> 32 word" where
  "find_largest_pow10 n =
     (if n \<ge> 1000000000 then (10, 1000000000)
      else if n \<ge> 100000000 then (9, 100000000)
      else if n \<ge> 10000000 then (8, 10000000)
      else if n \<ge> 1000000 then (7, 1000000)
      else if n \<ge> 100000 then (6, 100000)
      else if n \<ge> 10000 then (5, 10000)
      else if n \<ge> 1000 then (4, 1000)
      else if n \<ge> 100 then (3, 100)
      else if n \<ge> 10 then (2, 10)
      else (1, 1))"

text \<open>\<^verbatim>\<open>buf[len - 1]--\<close>.\<close>

definition dec_last :: "string \<Rightarrow> string" where
  "dec_last buf = butlast buf @ [to_char_type (ic (last buf) - 1)]"

definition round_closer :: "64 word \<Rightarrow> 64 word \<Rightarrow> 64 word \<Rightarrow> 64 word \<Rightarrow> bool" where
  "round_closer dist delta rest ten_k \<longleftrightarrow>
     rest < dist \<and> delta - rest \<ge> ten_k \<and>
     (rest + ten_k < dist \<or> dist - rest > rest + ten_k - dist)"

text \<open>
  The test bounds the loop: \<^verbatim>\<open>rest\<close> grows by \<^verbatim>\<open>ten_k\<close> and stays at most \<^verbatim>\<open>delta\<close>, so
  \<^verbatim>\<open>delta - rest\<close> gets smaller unless \<^verbatim>\<open>ten_k\<close> is zero (which the source asserts it is not).
\<close>

function grisu2_round :: "string \<Rightarrow> 64 word \<Rightarrow> 64 word \<Rightarrow> 64 word \<Rightarrow> 64 word \<Rightarrow> string" where
  "grisu2_round buf dist delta rest ten_k =
     (if ten_k > 0 \<and> round_closer dist delta rest ten_k
      then grisu2_round (dec_last buf) dist delta (rest + ten_k) ten_k else buf)"
  by pat_completeness auto
termination
proof (relation "measure (\<lambda>(buf, dist, delta, rest, ten_k). unat (delta - rest))", goal_cases)
  case (2 buf dist delta rest ten_k)
  have eq: "delta - (rest + ten_k) = (delta - rest) - ten_k" by simp
  have "unat ((delta - rest) - ten_k) = unat (delta - rest) - unat ten_k"
    using 2 by (intro unat_sub) (simp add: round_closer_def)
  moreover have "0 < unat ten_k" "unat ten_k \<le> unat (delta - rest)"
    using 2 by (auto simp: round_closer_def word_less_nat_alt word_le_nat_alt)
  ultimately have "unat (delta - (rest + ten_k)) < unat (delta - rest)"
    unfolding eq by linarith
  then show ?case by simp
qed simp

declare grisu2_round.simps [simp del]

text \<open>The digits of the integral part. \<open>Inl\<close> is a return from inside the loop; \<open>Inr\<close> means that
  all \<open>n\<close> digits have been generated.\<close>

fun integral_digits ::
    "nat \<Rightarrow> string \<Rightarrow> 32 word \<Rightarrow> 32 word \<Rightarrow> 64 word \<Rightarrow> 64 word \<Rightarrow> 64 word \<Rightarrow> int \<Rightarrow>
     (string \<times> int) + string" where
  "integral_digits 0 buf p1 pow10 p2 delta dist one_e = Inr buf"
| "integral_digits (Suc n) buf p1 pow10 p2 delta dist one_e =
     (let d = p1 div pow10; r = p1 mod pow10;
          buf1 = buf @ [to_char_type (48 + uint d)];
          rest = push_bit (nat (- one_e)) (ucast r) + p2
      in if rest \<le> delta
         then Inl (grisu2_round buf1 dist delta rest (push_bit (nat (- one_e)) (ucast pow10)), int n)
         else integral_digits n buf1 r (pow10 div 10) p2 delta dist one_e)"

fun fraction_digits ::
    "nat \<Rightarrow> string \<Rightarrow> int \<Rightarrow> 64 word \<Rightarrow> 64 word \<Rightarrow> 64 word \<Rightarrow> int \<Rightarrow> (string \<times> int) option" where
  "fraction_digits 0 buf m p2 delta dist one_e = None"
| "fraction_digits (Suc fuel) buf m p2 delta dist one_e =
     (let one_f = push_bit (nat (- one_e)) 1;
          p2' = p2 * 10;
          d = drop_bit (nat (- one_e)) p2'; r = p2' AND (one_f - 1);
          buf1 = buf @ [to_char_type (48 + uint d)];
          delta' = delta * 10; dist' = dist * 10
      in if r \<le> delta'
         then Some (grisu2_round buf1 dist' delta' r one_f, m + 1)
         else fraction_digits fuel buf1 (m + 1) r delta' dist' one_e)"

definition grisu2_digit_gen ::
    "int \<Rightarrow> diyfp \<Rightarrow> diyfp \<Rightarrow> diyfp \<Rightarrow> (string \<times> int) option" where
  "grisu2_digit_gen decimal_exponent M_minus w M_plus =
     (let delta = fp_f (diyfp_sub M_plus M_minus);
          dist = fp_f (diyfp_sub M_plus w);
          one = \<lparr>fp_f = push_bit (nat (- fp_e M_plus)) 1, fp_e = fp_e M_plus\<rparr>;
          p1 = ucast (drop_bit (nat (- fp_e one)) (fp_f M_plus));
          p2 = fp_f M_plus AND (fp_f one - 1)
      in case find_largest_pow10 p1 of
           (k, pow10) \<Rightarrow>
             (case integral_digits k [] p1 pow10 p2 delta dist (fp_e one) of
                Inl (buf, n) \<Rightarrow> Some (buf, decimal_exponent + n)
              | Inr buf \<Rightarrow>
                  (case fraction_digits 20 buf 0 p2 delta dist (fp_e one) of
                     Some (buf', m) \<Rightarrow> Some (buf', decimal_exponent - m)
                   | None \<Rightarrow> None)))"

definition grisu2_scaled :: "diyfp \<Rightarrow> diyfp \<Rightarrow> diyfp \<Rightarrow> (string \<times> int) option" where
  "grisu2_scaled m_minus v m_plus =
     (let cached = get_cached_power_for_binary_exponent (fp_e m_plus);
          c_minus_k = \<lparr>fp_f = cp_f cached, fp_e = cp_e cached\<rparr>;
          w = diyfp_mul v c_minus_k;
          w_minus = diyfp_mul m_minus c_minus_k;
          w_plus = diyfp_mul m_plus c_minus_k;
          M_minus = \<lparr>fp_f = fp_f w_minus + 1, fp_e = fp_e w_minus\<rparr>;
          M_plus = \<lparr>fp_f = fp_f w_plus - 1, fp_e = fp_e w_plus\<rparr>
      in grisu2_digit_gen (- cp_k cached) M_minus w M_plus)"

definition grisu2 :: "64 word \<Rightarrow> (string \<times> int) option" where
  "grisu2 value =
     (case compute_boundaries value of
        Some b \<Rightarrow> grisu2_scaled (bminus b) (bw b) (bplus b)
      | None \<Rightarrow> None)"

section \<open>Formatting\<close>

definition append_exponent :: "int \<Rightarrow> string" where
  "append_exponent ex =
     (let k = nat (if ex < 0 then - ex else ex)
      in (if ex < 0 then CHR ''-'' else CHR ''+'') #
         (if k < 10 then [CHR ''0'', digit_char k]
          else if k < 100 then [digit_char (k div 10), digit_char (k mod 10)]
          else [digit_char (k div 100), digit_char (k mod 100 div 10), digit_char (k mod 100 mod 10)]))"

definition format_buffer :: "string \<Rightarrow> int \<Rightarrow> int \<Rightarrow> int \<Rightarrow> string" where
  "format_buffer buf decimal_exponent min_exp max_exp =
     (let k = int (length buf); n = k + decimal_exponent
      in if k \<le> n \<and> n \<le> max_exp then buf @ replicate (nat n - nat k) CHR ''0'' @ ''.0''
         else if 0 < n \<and> n \<le> max_exp then take (nat n) buf @ ''.'' @ drop (nat n) buf
         else if min_exp < n \<and> n \<le> 0 then ''0.'' @ replicate (nat (- n)) CHR ''0'' @ buf
         else (if k = 1 then buf else take 1 buf @ ''.'' @ drop 1 buf) @ ''e'' @
              append_exponent (n - 1))"

text \<open>\<open>None\<close> would mean that a loop did not end.\<close>

definition to_chars :: "64 word \<Rightarrow> string option" where
  "to_chars value0 =
     (let negative = bit value0 63;
          value = (if negative then value0 AND 0x7FFFFFFFFFFFFFFF else value0);
          prefix = (if negative then ''-'' else [])
      in if value = 0 then Some (prefix @ ''0.0'')
         else map_option (\<lambda>(buf, decimal_exponent).
                prefix @ format_buffer buf decimal_exponent (- 4) 15) (grisu2 value))"

end
