(* ===== verification/Json_Serializer.thy ===== *)
theory Json_Serializer
  imports Json_Value Json_Utf8 Json_Dtoa
begin

text \<open>
  The serializer of the JSON library, class \<^verbatim>\<open>serializer\<close> of \<^verbatim>\<open>src/libwebrtc/json.hpp\<close>, and the
  entry point \<^verbatim>\<open>basic_json::dump\<close>. The output adapter and the growing indentation string are the
  state of the record \<open>serializer\<close>. The fixed buffers \<^verbatim>\<open>string_buffer\<close> (512 bytes) and
  \<^verbatim>\<open>number_buffer\<close> (64 bytes) keep their sizes: a write behind the end of \<^verbatim>\<open>string_buffer\<close> or a
  read behind the end of the indentation string is \<open>Assertion_failure\<close> in the model, so that
  its absence is a theorem.
\<close>

section \<open>Configuration and state\<close>

datatype error_handler_t = eh_strict | eh_replace | eh_ignore

record serializer =
  out :: string
  indent_string :: string

definition serializer_init :: "char \<Rightarrow> serializer" where
  "serializer_init indent_char = \<lparr>out = [], indent_string = replicate 512 indent_char\<rparr>"

definition write_characters :: "string \<Rightarrow> serializer \<Rightarrow> serializer" where
  "write_characters s o' = o'\<lparr>out := out o' @ s\<rparr>"

section \<open>Strings\<close>

text \<open>
  The locals of \<^verbatim>\<open>dump_escaped\<close>: \<open>buf\<close> is the part of \<^verbatim>\<open>string_buffer\<close> that has been written, so
  \<^verbatim>\<open>bytes\<close> is its length.
\<close>

record escape_state =
  written :: string
  buf :: string
  codepoint :: nat
  state :: nat
  bytes_after_last_accept :: nat
  undumped_chars :: nat

definition escape_init :: escape_state where
  "escape_init = \<lparr>written = [], buf = [], codepoint = 0, state = UTF8_ACCEPT,
     bytes_after_last_accept = 0, undumped_chars = 0\<rparr>"

text \<open>Append to the buffer; \<open>room\<close> is the number of bytes the write touches (\<^verbatim>\<open>snprintf\<close> also
  writes a terminating NUL).\<close>

definition buf_put :: "nat \<Rightarrow> string \<Rightarrow> escape_state \<Rightarrow> json_exception + escape_state" where
  "buf_put room s st =
     (if 512 < length (buf st) + room then Inl Assertion_failure
      else Inr (st\<lparr>buf := buf st @ s\<rparr>))"

definition buf_flush :: "escape_state \<Rightarrow> escape_state" where
  "buf_flush st =
     (if 512 - length (buf st) < 13
      then st\<lparr>written := written st @ buf st, buf := []\<rparr> else st)"

text \<open>The bytes written for a complete code point whose last byte is \<open>c\<close>, and the room they take.\<close>

definition escape_codepoint :: "bool \<Rightarrow> nat \<Rightarrow> char \<Rightarrow> nat \<times> string" where
  "escape_codepoint ensure_ascii cp c =
     (if cp = 0x08 then (2, [CHR 0x5C, CHR ''b''])
      else if cp = 0x09 then (2, [CHR 0x5C, CHR ''t''])
      else if cp = 0x0A then (2, [CHR 0x5C, CHR ''n''])
      else if cp = 0x0C then (2, [CHR 0x5C, CHR ''f''])
      else if cp = 0x0D then (2, [CHR 0x5C, CHR ''r''])
      else if cp = 0x22 then (2, [CHR 0x5C, CHR 0x22])
      else if cp = 0x5C then (2, [CHR 0x5C, CHR 0x5C])
      else if cp \<le> 0x1F \<or> (ensure_ascii \<and> 0x7F \<le> cp) then
        (if cp \<le> 0xFFFF then (7, [CHR 0x5C, CHR ''u''] @ hex4_lower (cp mod 2 ^ 16))
         else (13, [CHR 0x5C, CHR ''u''] @ hex4_lower ((0xD7C0 + drop_bit 10 cp) mod 2 ^ 16) @
                   [CHR 0x5C, CHR ''u''] @ hex4_lower ((0xDC00 + (cp AND 0x3FF)) mod 2 ^ 16)))
      else (1, [c]))"

definition escape_accept :: "bool \<Rightarrow> char \<Rightarrow> escape_state \<Rightarrow> json_exception + escape_state" where
  "escape_accept ensure_ascii c st =
     (case escape_codepoint ensure_ascii (codepoint st) c of (room, s) \<Rightarrow>
        try_bind (buf_put room s st) (\<lambda>st1.
          let st2 = buf_flush st1
          in Inr (st2\<lparr>bytes_after_last_accept := length (buf st2), undumped_chars := 0\<rparr>)))"

text \<open>U+FFFD, escaped or in UTF-8.\<close>

definition replacement :: "bool \<Rightarrow> string" where
  "replacement ensure_ascii =
     (if ensure_ascii then [CHR 0x5C] @ ''ufffd'' else [CHR 0xEF, CHR 0xBF, CHR 0xBD])"

text \<open>A rejected byte at index \<open>i\<close>; the result says whether it has to be read again.\<close>

definition escape_reject ::
    "error_handler_t \<Rightarrow> bool \<Rightarrow> nat \<Rightarrow> char \<Rightarrow> escape_state \<Rightarrow> json_exception + (bool \<times> escape_state)" where
  "escape_reject eh ensure_ascii i c st =
     (if eh = eh_strict
      then Inl (type_error_create 316
             (''invalid UTF-8 byte at index '' @ to_string i @ '': 0x'' @ hex2_upper (nat (ic c))))
      else
        (let again = undumped_chars st > 0;
             st1 = st\<lparr>buf := take (bytes_after_last_accept st) (buf st)\<rparr>
         in try_bind
              (if eh = eh_replace then
                 try_bind (buf_put (length (replacement ensure_ascii)) (replacement ensure_ascii) st1)
                   (\<lambda>st2. let st3 = buf_flush st2
                          in Inr (st3\<lparr>bytes_after_last_accept := length (buf st3)\<rparr>))
               else Inr st1)
              (\<lambda>st4. Inr (again, st4\<lparr>undumped_chars := 0, state := UTF8_ACCEPT\<rparr>))))"

definition escape_pending :: "bool \<Rightarrow> char \<Rightarrow> escape_state \<Rightarrow> json_exception + escape_state" where
  "escape_pending ensure_ascii c st =
     try_bind (if \<not> ensure_ascii then buf_put 1 [c] st else Inr st)
       (\<lambda>st1. Inr (st1\<lparr>undumped_chars := undumped_chars st1 + 1\<rparr>))"

text \<open>One iteration of the loop at index \<open>i\<close>: whether the index stays, and the new state.\<close>

definition escape_step ::
    "error_handler_t \<Rightarrow> bool \<Rightarrow> nat \<Rightarrow> char \<Rightarrow> escape_state \<Rightarrow> json_exception + (bool \<times> escape_state)" where
  "escape_step eh ensure_ascii i c st0 =
     (case decode (state st0) (codepoint st0) (nat (ic c)) of (state', cp') \<Rightarrow>
        (let st = st0\<lparr>state := state', codepoint := cp'\<rparr>
         in if state' = UTF8_ACCEPT
            then try_bind (escape_accept ensure_ascii c st) (\<lambda>st1. Inr (False, st1))
            else if state' = UTF8_REJECT then escape_reject eh ensure_ascii i c st
            else try_bind (escape_pending ensure_ascii c st) (\<lambda>st1. Inr (False, st1))))"

lemma escape_step_again:
  assumes "escape_step eh ensure_ascii i c st = Inr (True, st')"
  shows "0 < undumped_chars st" and "undumped_chars st' = 0"
  using assms
  by (auto simp: escape_step_def escape_reject_def Let_def throw_simps split: prod.splits if_splits)

text \<open>
  The loop. Going back one index (\<^verbatim>\<open>--i\<close> before \<^verbatim>\<open>++i\<close>) happens only when bytes of an incomplete
  sequence are pending and leaves none pending, which is why the loop ends.
\<close>

function escape_loop ::
    "error_handler_t \<Rightarrow> bool \<Rightarrow> string \<Rightarrow> nat \<Rightarrow> escape_state \<Rightarrow> json_exception + escape_state" where
  "escape_loop eh ensure_ascii s i st =
     (if i < length s then
        (case escape_step eh ensure_ascii i (s ! i) st of
           Inl ex \<Rightarrow> Inl ex
         | Inr (again, st') \<Rightarrow> escape_loop eh ensure_ascii s (if again then i else i + 1) st')
      else Inr st)"
  by pat_completeness auto
termination
  by (relation "measures [\<lambda>(eh, ea, s, i, st). length s - i, \<lambda>(eh, ea, s, i, st). undumped_chars st]")
     (auto simp: escape_step_again)

declare escape_loop.simps [simp del]

text \<open>What follows the loop; the result is all that is written to the output.\<close>

definition escape_finish ::
    "error_handler_t \<Rightarrow> bool \<Rightarrow> string \<Rightarrow> escape_state \<Rightarrow> json_exception + string" where
  "escape_finish eh ensure_ascii s st =
     (if state st = UTF8_ACCEPT then Inr (written st @ buf st)
      else (case eh of
              eh_strict \<Rightarrow>
                Inl (type_error_create 316
                  (''incomplete UTF-8 string; last byte: 0x'' @ hex2_upper (nat (ic (last s)))))
            | eh_ignore \<Rightarrow> Inr (written st @ take (bytes_after_last_accept st) (buf st))
            | eh_replace \<Rightarrow>
                Inr (written st @ take (bytes_after_last_accept st) (buf st) @
                     replacement ensure_ascii)))"

definition dump_escaped :: "error_handler_t \<Rightarrow> bool \<Rightarrow> string \<Rightarrow> json_exception + string" where
  "dump_escaped eh ensure_ascii s =
     try_bind (escape_loop eh ensure_ascii s 0 escape_init) (escape_finish eh ensure_ascii s)"

section \<open>Numbers\<close>

fun count_digits_loop :: "nat \<Rightarrow> 64 word \<Rightarrow> nat option" where
  "count_digits_loop 0 x = None"
| "count_digits_loop (Suc fuel) x =
     (if x < 10 then Some 1
      else if x < 100 then Some 2
      else if x < 1000 then Some 3
      else if x < 10000 then Some 4
      else map_option (\<lambda>n. n + 4) (count_digits_loop fuel (x div 10000)))"

text \<open>Five rounds are enough for 64 bits (\<open>count_digits_correct\<close>).\<close>

definition count_digits :: "64 word \<Rightarrow> nat" where
  "count_digits x = (case count_digits_loop 5 x of Some n \<Rightarrow> n | None \<Rightarrow> 0)"

definition digits_to_99 :: "nat \<Rightarrow> char \<times> char" where
  "digits_to_99 i = (digit_char (i div 10), digit_char (i mod 10))"

definition remove_sign :: "64 word \<Rightarrow> 64 word" where
  "remove_sign x = - (x + 1) + 1"

text \<open>The two-digits-at-a-time loop, writing backwards from index \<open>ptr\<close>.\<close>

function int2ascii_loop :: "64 word \<Rightarrow> nat \<Rightarrow> string \<Rightarrow> 64 word \<times> nat \<times> string" where
  "int2ascii_loop abs_value ptr number_buffer =
     (if abs_value \<ge> 100 then
        (case digits_to_99 (unat (abs_value mod 100)) of (hi, lo) \<Rightarrow>
           int2ascii_loop (abs_value div 100) (ptr - 2) (number_buffer[ptr - 1 := lo, ptr - 2 := hi]))
      else (abs_value, ptr, number_buffer))"
  by pat_completeness auto
termination
proof (relation "measure (\<lambda>(x, ptr, b). unat x)", goal_cases)
  case (2 x ptr b hi lo)
  then have "100 \<le> unat x" by (simp add: word_le_nat_alt)
  then show ?case by (simp add: unat_div)
qed simp

declare int2ascii_loop.simps [simp del]

definition dump_integer_buffer :: "bool \<Rightarrow> 64 word \<Rightarrow> string \<Rightarrow> string" where
  "dump_integer_buffer is_negative x number_buffer0 =
     (let abs_value = (if is_negative then remove_sign x else x);
          n_chars = (if is_negative then 1 + count_digits abs_value else count_digits abs_value);
          b0 = (if is_negative then number_buffer0[0 := CHR ''-''] else number_buffer0)
      in case int2ascii_loop abs_value n_chars b0 of (v, ptr, b) \<Rightarrow>
           (let b1 = (if v \<ge> 10
                      then (case digits_to_99 (unat v) of (hi, lo) \<Rightarrow> b[ptr - 1 := lo, ptr - 2 := hi])
                      else b[ptr - 1 := to_char_type (48 + uint v)])
            in take n_chars b1))"

text \<open>
  \<^verbatim>\<open>dump_integer\<close> for the signed and the unsigned type. The number buffer holds whatever an earlier
  call left in it.
\<close>

definition dump_integer_signed :: "64 word \<Rightarrow> string \<Rightarrow> string" where
  "dump_integer_signed x number_buffer =
     (if x = 0 then ''0'' else dump_integer_buffer (sint x < 0) x number_buffer)"

definition dump_integer_unsigned :: "64 word \<Rightarrow> string \<Rightarrow> string" where
  "dump_integer_unsigned x number_buffer =
     (if x = 0 then ''0'' else dump_integer_buffer False x number_buffer)"

definition number_buffer_init :: string where
  "number_buffer_init = replicate 64 CHR 0x00"

definition dump_float :: "64 word \<Rightarrow> json_exception + string" where
  "dump_float x =
     (if \<not> isfinite x then Inr ''null''
      else (case to_chars x of Some s \<Rightarrow> Inr s | None \<Rightarrow> Inl Assertion_failure))"

section \<open>Values\<close>

record dump_config =
  ensure_ascii :: bool
  indent_step :: nat
  error_handler :: error_handler_t

text \<open>
  \<^verbatim>\<open>write_characters(indent_string.c_str(), n)\<close> reads \<open>n\<close> bytes: the string and its terminating NUL
  are there, anything behind is not.
\<close>

definition write_indent :: "nat \<Rightarrow> serializer \<Rightarrow> json_exception + serializer" where
  "write_indent n o' =
     (if length (indent_string o') + 1 < n then Inl Assertion_failure
      else Inr (write_characters (take n (indent_string o' @ [CHR 0x00])) o'))"

text \<open>The indentation string is doubled (once) when it is too short for the new indentation.\<close>

definition grow_indent :: "nat \<Rightarrow> serializer \<Rightarrow> serializer" where
  "grow_indent new_indent o' =
     (if length (indent_string o') < new_indent
      then o'\<lparr>indent_string := indent_string o' @ replicate (length (indent_string o')) CHR '' ''\<rparr>
      else o')"

definition write_string ::
    "dump_config \<Rightarrow> string \<Rightarrow> serializer \<Rightarrow> json_exception + serializer" where
  "write_string cfg s o' =
     try_bind (dump_escaped (error_handler cfg) (ensure_ascii cfg) s) (\<lambda>t.
       Inr (write_characters t o'))"

definition dump_byte :: "8 word \<Rightarrow> string" where
  "dump_byte b = dump_integer_unsigned (ucast b) number_buffer_init"

fun join_bytes :: "string \<Rightarrow> 8 word list \<Rightarrow> string" where
  "join_bytes sep [] = []"
| "join_bytes sep [b] = dump_byte b"
| "join_bytes sep (b # bs) = dump_byte b @ sep @ join_bytes sep bs"

definition quoted :: "string \<Rightarrow> string" where
  "quoted s = CHR 0x22 # s @ [CHR 0x22]"

definition dump_binary ::
    "dump_config \<Rightarrow> bool \<Rightarrow> nat \<Rightarrow> 8 word list \<Rightarrow> 8 word option \<Rightarrow> serializer \<Rightarrow>
     json_exception + serializer" where
  "dump_binary cfg pretty_print current_indent bs subtype o0 =
     (let sub = (case subtype of Some t \<Rightarrow> dump_byte t | None \<Rightarrow> ''null'')
      in if pretty_print then
           (let new_indent = (current_indent + indent_step cfg) mod 2 ^ 32;
                o1 = grow_indent new_indent (write_characters (''{'' @ [CHR 0x0A]) o0)
            in try_bind (write_indent new_indent o1) (\<lambda>o2.
               let o3 = write_characters (quoted ''bytes'' @ '': ['' @ join_bytes '', '' bs @ ''],'' @
                          [CHR 0x0A]) o2
               in try_bind (write_indent new_indent o3) (\<lambda>o4.
                  let o5 = write_characters (quoted ''subtype'' @ '': '' @ sub @ [CHR 0x0A]) o4
                  in try_bind (write_indent current_indent o5) (\<lambda>o6.
                     Inr (write_characters ''}'' o6)))))
         else Inr (write_characters
                (''{'' @ quoted ''bytes'' @ '':['' @ join_bytes '','' bs @ ''],'' @
                 quoted ''subtype'' @ '':'' @ sub @ ''}'') o0))"

text \<open>
  \<^verbatim>\<open>dump\<close> and its loops over the elements of an array and the members of an object (all but the
  last are followed by a separator).
\<close>

fun dump ::
    "dump_config \<Rightarrow> bool \<Rightarrow> nat \<Rightarrow> json \<Rightarrow> serializer \<Rightarrow> json_exception + serializer"
  and dump_elements ::
    "dump_config \<Rightarrow> bool \<Rightarrow> nat \<Rightarrow> json list \<Rightarrow> serializer \<Rightarrow> json_exception + serializer"
  and dump_members ::
    "dump_config \<Rightarrow> bool \<Rightarrow> nat \<Rightarrow> (string \<times> json) list \<Rightarrow> serializer \<Rightarrow> json_exception + serializer"
where
  "dump cfg pretty cur (Jobject m) o0 =
     (if m = [] then Inr (write_characters ''{}'' o0)
      else if pretty then
        (let new_indent = (cur + indent_step cfg) mod 2 ^ 32;
             o1 = grow_indent new_indent (write_characters (''{'' @ [CHR 0x0A]) o0)
         in try_bind (dump_members cfg True new_indent m o1) (\<lambda>o2.
            try_bind (write_indent cur (write_characters [CHR 0x0A] o2)) (\<lambda>o3.
            Inr (write_characters ''}'' o3))))
      else
        try_bind (dump_members cfg False cur m (write_characters ''{'' o0)) (\<lambda>o1.
          Inr (write_characters ''}'' o1)))"
| "dump cfg pretty cur (Jarray xs) o0 =
     (if xs = [] then Inr (write_characters ''[]'' o0)
      else if pretty then
        (let new_indent = (cur + indent_step cfg) mod 2 ^ 32;
             o1 = grow_indent new_indent (write_characters (''['' @ [CHR 0x0A]) o0)
         in try_bind (dump_elements cfg True new_indent xs o1) (\<lambda>o2.
            try_bind (write_indent cur (write_characters [CHR 0x0A] o2)) (\<lambda>o3.
            Inr (write_characters '']'' o3))))
      else
        try_bind (dump_elements cfg False cur xs (write_characters ''['' o0)) (\<lambda>o1.
          Inr (write_characters '']'' o1)))"
| "dump cfg pretty cur (Jstring s) o0 =
     try_bind (write_string cfg s (write_characters [CHR 0x22] o0)) (\<lambda>o1.
       Inr (write_characters [CHR 0x22] o1))"
| "dump cfg pretty cur (Jbinary bs subtype) o0 = dump_binary cfg pretty cur bs subtype o0"
| "dump cfg pretty cur (Jboolean b) o0 =
     Inr (write_characters (if b then ''true'' else ''false'') o0)"
| "dump cfg pretty cur (Jnumber_integer x) o0 =
     Inr (write_characters (dump_integer_signed x number_buffer_init) o0)"
| "dump cfg pretty cur (Jnumber_unsigned x) o0 =
     Inr (write_characters (dump_integer_unsigned x number_buffer_init) o0)"
| "dump cfg pretty cur (Jnumber_float x) o0 =
     try_bind (dump_float x) (\<lambda>t. Inr (write_characters t o0))"
| "dump cfg pretty cur Jdiscarded o0 = Inr (write_characters ''<discarded>'' o0)"
| "dump cfg pretty cur Jnull o0 = Inr (write_characters ''null'' o0)"
| "dump_elements cfg pretty ind [] o0 = Inr o0"
| "dump_elements cfg pretty ind (x # xs) o0 =
     try_bind (if pretty then write_indent ind o0 else Inr o0) (\<lambda>o1.
     try_bind (dump cfg pretty ind x o1) (\<lambda>o2.
       if xs = [] then Inr o2
       else dump_elements cfg pretty ind xs
              (write_characters (if pretty then '','' @ [CHR 0x0A] else '','') o2)))"
| "dump_members cfg pretty ind [] o0 = Inr o0"
| "dump_members cfg pretty ind (kv # m) o0 =
     try_bind (if pretty then write_indent ind o0 else Inr o0) (\<lambda>o1.
     try_bind (write_string cfg (fst kv) (write_characters [CHR 0x22] o1)) (\<lambda>o2.
     try_bind (dump cfg pretty ind (snd kv)
                (write_characters (CHR 0x22 # (if pretty then '': '' else '':'')) o2)) (\<lambda>o3.
       if m = [] then Inr o3
       else dump_members cfg pretty ind m
              (write_characters (if pretty then '','' @ [CHR 0x0A] else '','') o3))))"

text \<open>\<^verbatim>\<open>basic_json::dump(indent, indent_char, ensure_ascii, error_handler)\<close>.\<close>

definition json_dump ::
    "int \<Rightarrow> char \<Rightarrow> bool \<Rightarrow> error_handler_t \<Rightarrow> json \<Rightarrow> json_exception + string" where
  "json_dump indent indent_char ascii eh j =
     (if 0 \<le> indent then
        try_bind (dump \<lparr>ensure_ascii = ascii, indent_step = nat indent, error_handler = eh\<rparr>
                    True 0 j (serializer_init indent_char)) (\<lambda>o'. Inr (out o'))
      else
        try_bind (dump \<lparr>ensure_ascii = ascii, indent_step = 0, error_handler = eh\<rparr>
                    False 0 j (serializer_init indent_char)) (\<lambda>o'. Inr (out o')))"

end
