(* ===== verification/Json_Escape.thy ===== *)
theory Json_Escape
  imports Json_Serializer
begin

text \<open>
  What \<open>dump_escaped\<close> writes. \<open>escaped\<close> is the specification: the text of one code point. For a
  valid UTF-8 string every error handler gives the concatenation of these texts; the strict
  handler gives a result only for valid UTF-8; and with no handler, on no input, is anything
  written behind the end of the 512-byte buffer.
\<close>

section \<open>Specification\<close>

definition short_escape :: "nat \<Rightarrow> char option" where
  "short_escape cp =
     (if cp = 0x08 then Some CHR ''b'' else if cp = 0x09 then Some CHR ''t''
      else if cp = 0x0A then Some CHR ''n'' else if cp = 0x0C then Some CHR ''f''
      else if cp = 0x0D then Some CHR ''r'' else if cp = 0x22 then Some CHR 0x22
      else if cp = 0x5C then Some CHR 0x5C else None)"

definition unicode_escape :: "nat \<Rightarrow> string" where
  "unicode_escape u = [CHR 0x5C, CHR ''u''] @ hex4_lower u"

definition escaped :: "bool \<Rightarrow> nat \<Rightarrow> string" where
  "escaped ea cp =
     (case short_escape cp of
        Some c \<Rightarrow> [CHR 0x5C, c]
      | None \<Rightarrow>
          if cp \<le> 0x1F \<or> (ea \<and> 0x7F \<le> cp) then
            (if cp \<le> 0xFFFF then unicode_escape cp
             else unicode_escape (0xD800 + (cp - 0x10000) div 0x400) @
                  unicode_escape (0xDC00 + cp mod 0x400))
          else utf8 cp)"

section \<open>The loop on a code point\<close>

text \<open>The state between two code points.\<close>

definition at_codepoint :: "escape_state \<Rightarrow> bool" where
  "at_codepoint st \<longleftrightarrow> state st = 0 \<and> undumped_chars st = 0 \<and> length (buf st) < 500 \<and>
     bytes_after_last_accept st = length (buf st)"

text \<open>The state inside a sequence of which the bytes \<open>bs\<close> have been read.\<close>

definition in_sequence :: "bool \<Rightarrow> string \<Rightarrow> string \<Rightarrow> escape_state \<Rightarrow> bool" where
  "in_sequence ea ou bs st \<longleftrightarrow> undumped_chars st = length bs \<and>
     (\<exists>pre. buf st = pre @ (if ea then [] else bs) \<and> ou = written st @ pre \<and>
        length pre = bytes_after_last_accept st \<and> length pre < 500)"

definition dumped :: "escape_state \<Rightarrow> string" where
  "dumped st = written st @ buf st"

lemma at_codepoint_in_sequence:
  "at_codepoint st \<Longrightarrow> in_sequence ea (dumped st) [] st"
  by (auto simp: at_codepoint_def in_sequence_def dumped_def)

lemma escape_loop_done: "length s \<le> i \<Longrightarrow> escape_loop eh ea s i st = Inr st"
  by (simp add: escape_loop.simps)

lemma escape_loop_step:
  "i < length s \<Longrightarrow> escape_step eh ea i (s ! i) st = Inr (again, st') \<Longrightarrow>
     escape_loop eh ea s i st = escape_loop eh ea s (if again then i else i + 1) st'"
  by (subst escape_loop.simps) simp

lemma dumped_buf_flush [simp]: "dumped (buf_flush st) = dumped st"
  by (simp add: dumped_def buf_flush_def)

lemma length_escape_codepoint:
  "escape_codepoint ea cp c = (room, s) \<Longrightarrow> length s \<le> room \<and> room \<le> 13"
  by (auto simp: escape_codepoint_def hex4_lower_def split: if_splits)

text \<open>The invariant of the loop: \<open>bs\<close> is the incomplete sequence read so far and \<open>ou\<close> is what has
  been written for the code points before it.\<close>

definition escape_inv :: "bool \<Rightarrow> string \<Rightarrow> string \<Rightarrow> escape_state \<Rightarrow> bool" where
  "escape_inv ea ou bs st \<longleftrightarrow> in_sequence ea ou bs st \<and>
     (if bs = [] then state st = 0 else incomplete (state st) (codepoint st) bs)"

lemma at_codepoint_inv: "at_codepoint st \<Longrightarrow> escape_inv ea (dumped st) [] st"
  by (simp add: escape_inv_def at_codepoint_in_sequence) (simp add: at_codepoint_def)

lemma escape_inv_Nil: "escape_inv ea ou [] st \<Longrightarrow> dumped st = ou \<and> at_codepoint st"
  by (auto simp: escape_inv_def in_sequence_def dumped_def at_codepoint_def)

lemma length_utf8: "length (utf8 cp) \<le> 4" "utf8 cp = bs @ [b] \<Longrightarrow> bs \<noteq> [] \<Longrightarrow> 0x80 \<le> cp"
  by (auto simp: utf8_def split: if_splits)

lemma length_incomplete: "incomplete s c bs \<Longrightarrow> length bs < 4"
proof -
  have one: "one_to_come c bs \<Longrightarrow> length bs < 4" for c bs
    using length_utf8(1) [of "c * 64"] by (auto simp: one_to_come_def dest!: spec [of _ 0])
  have two: "two_to_come lo hi c bs \<Longrightarrow> lo < hi \<Longrightarrow> length bs < 4" for lo hi c bs
    using one [of "c * 64 + lo" "bs @ [byte (0x80 + lo)]"] by (auto simp: two_to_come_def)
  have three: "three_to_come lo hi c bs \<Longrightarrow> lo < hi \<Longrightarrow> length bs < 4" for lo hi c bs
    using two [of 0 64 "c * 64 + lo" "bs @ [byte (0x80 + lo)]"] by (auto simp: three_to_come_def)
  show "incomplete s c bs \<Longrightarrow> length bs < 4"
    by (auto simp: incomplete_def intro: one two three)
qed

lemma mod_16: "cp \<le> 0xFFFF \<Longrightarrow> cp mod 2 ^ 16 = cp" for cp :: nat
  by simp

lemma escape_codepoint_escaped:
  assumes sv: "scalar_value cp" and u: "utf8 cp = bs @ [c]"
  shows "(if ea then [] else bs) @ snd (escape_codepoint ea cp c) =
      (if ea \<or> bs = [] then escaped ea cp else utf8 cp)"
    and "\<not> ea \<Longrightarrow> bs \<noteq> [] \<Longrightarrow> escaped ea cp = utf8 cp \<and> fst (escape_codepoint ea cp c) = 1"
proof -
  have hi: "(0xD7C0 + drop_bit 10 cp) mod 2 ^ 16 = 0xD800 + (cp - 0x10000) div 0x400"
    "(0xDC00 + (cp AND 0x3FF)) mod 2 ^ 16 = 0xDC00 + cp mod 0x400" if "\<not> cp \<le> 0xFFFF"
  proof -
    have "cp div 0x400 = (cp - 0x10000) div 0x400 + 0x40"
      using that div_add [of "0x400" "0x10000" "cp - 0x10000"] by simp
    moreover have "(cp - 0x10000) div 0x400 < 0x400" "cp mod 0x400 < 0x400"
      using sv by (auto simp: scalar_value_def)
    ultimately show "(0xD7C0 + drop_bit 10 cp) mod 2 ^ 16 = 0xD800 + (cp - 0x10000) div 0x400"
      "(0xDC00 + (cp AND 0x3FF)) mod 2 ^ 16 = 0xDC00 + cp mod 0x400"
      using and_mask_nat [of cp 10] by (simp_all add: drop_bit_eq_div)
  qed
  have big: "0x80 \<le> cp" if "bs \<noteq> []" using length_utf8(2) [OF u that] .
  have small: "bs = [] \<Longrightarrow> cp < 0x80" using u by (auto simp: utf8_def split: if_splits)
  show "(if ea then [] else bs) @ snd (escape_codepoint ea cp c) =
      (if ea \<or> bs = [] then escaped ea cp else utf8 cp)"
    using big small u hi
    by (cases "bs = []") (auto simp: escape_codepoint_def escaped_def short_escape_def unicode_escape_def)
  show "\<not> ea \<Longrightarrow> bs \<noteq> [] \<Longrightarrow> escaped ea cp = utf8 cp \<and> fst (escape_codepoint ea cp c) = 1"
    using big by (auto simp: escape_codepoint_def escaped_def short_escape_def)
qed

text \<open>A complete code point is written, there is always room for it.\<close>

lemma escape_accept_ok:
  assumes seq: "in_sequence ea ou bs st" and bs: "length bs < 4" and st: "state st = 0"
    and cp: "scalar_value (codepoint st)" "utf8 (codepoint st) = bs @ [c]"
  shows "\<exists>st'. escape_accept ea c st = Inr st' \<and> at_codepoint st' \<and>
    dumped st' = ou @ escaped ea (codepoint st)"
proof -
  obtain room s where e: "escape_codepoint ea (codepoint st) c = (room, s)"
    by (cases "escape_codepoint ea (codepoint st) c")
  from seq obtain pre where pre: "buf st = pre @ (if ea then [] else bs)" "ou = written st @ pre"
    "length pre < 500" by (auto simp: in_sequence_def)
  have room: "length (buf st) + room \<le> 512" "length s \<le> room"
    using pre bs length_escape_codepoint [OF e] escape_codepoint_escaped(2) [OF cp, of ea] e
    by (cases "bs = []"; auto)+
  have "(if ea then [] else bs) @ s = escaped ea (codepoint st)"
    using escape_codepoint_escaped [OF cp, of ea] e by (auto split: if_splits)
  then have "dumped st @ s = ou @ escaped ea (codepoint st)"
    using pre by (simp add: dumped_def)
  with room st show ?thesis
    by (auto simp: escape_accept_def e buf_put_def Let_def at_codepoint_def dumped_def buf_flush_def)
qed

section \<open>One step\<close>

lemma escape_pending_ok:
  assumes "in_sequence ea ou bs st" "length bs < 4"
  shows "\<exists>st'. escape_pending ea c st = Inr st' \<and> in_sequence ea ou (bs @ [c]) st' \<and>
    state st' = state st \<and> codepoint st' = codepoint st"
  using assms by (cases ea) (auto simp: escape_pending_def buf_put_def in_sequence_def)

lemma escape_reject_ok:
  assumes "in_sequence ea ou bs st" "eh \<noteq> eh_strict"
  shows "\<exists>st'. escape_reject eh ea i c st = Inr (bs \<noteq> [], st') \<and> at_codepoint st' \<and>
    dumped st' = ou @ (if eh = eh_replace then replacement ea else [])"
  using assms
  by (cases eh)
     (auto simp: escape_reject_def in_sequence_def buf_put_def replacement_def Let_def UTF8_ACCEPT_def
       at_codepoint_def dumped_def buf_flush_def)

text \<open>What one iteration does, by what the automaton says to the byte.\<close>

lemma escape_step_cases:
  assumes inv: "escape_inv ea ou bs st"
  obtains
    (complete) st' cp where "escape_step eh ea i c st = Inr (False, st')" "at_codepoint st'"
      "dumped st' = ou @ escaped ea cp" "scalar_value cp" "utf8 cp = bs @ [c]"
      "decode (state st) (codepoint st) (nat (ic c)) = (0, cp)"
  | (pending) st' where "escape_step eh ea i c st = Inr (False, st')" "escape_inv ea ou (bs @ [c]) st'"
      "decode (state st) (codepoint st) (nat (ic c)) = (state st', codepoint st')" "state st' \<noteq> 0"
  | (strict) w where "eh = eh_strict" "escape_step eh ea i c st = Inl (Type_error 316 w)"
      "fst (decode (state st) (codepoint st) (nat (ic c))) = 1"
  | (replaced) st' where "eh \<noteq> eh_strict" "escape_step eh ea i c st = Inr (bs \<noteq> [], st')"
      "at_codepoint st'" "dumped st' = ou @ (if eh = eh_replace then replacement ea else [])"
      "fst (decode (state st) (codepoint st) (nat (ic c))) = 1"
proof -
  obtain s' c' where dec: "decode (state st) (codepoint st) (nat (ic c)) = (s', c')"
    by (cases "decode (state st) (codepoint st) (nat (ic c))")
  define st1 where "st1 = st\<lparr>state := s', codepoint := c'\<rparr>"
  with dec have step: "escape_step eh ea i c st =
      (if s' = 0 then try_bind (escape_accept ea c st1) (\<lambda>st2. Inr (False, st2))
       else if s' = 1 then escape_reject eh ea i c st1
       else try_bind (escape_pending ea c st1) (\<lambda>st2. Inr (False, st2)))"
    by (simp add: escape_step_def UTF8_ACCEPT_def UTF8_REJECT_def Let_def del: nat_of_char)
  have seq: "in_sequence ea ou bs st1" using inv by (simp add: escape_inv_def in_sequence_def st1_def)
  have len: "length bs < 4" using inv length_incomplete by (auto simp: escape_inv_def split: if_splits)
  have b: "nat (ic c) < 256" using ic_less [of c] by simp
  have ok: "(s' = 0 \<longrightarrow> scalar_value c' \<and> utf8 c' = bs @ [c]) \<and> (s' \<noteq> 0 \<longrightarrow> incomplete s' c' (bs @ [c]))"
    if "s' \<noteq> 1"
    using inv dec that b decode_0_step [of "nat (ic c)" "codepoint st" s' c']
      decode_incomplete_step [of "state st" "codepoint st" bs "nat (ic c)" s' c']
    by (auto simp: escape_inv_def split: if_splits)
  consider "s' = 0" | "s' = 1" | "s' \<noteq> 0" "s' \<noteq> 1" by blast
  then show thesis
  proof cases
    case 1
    with ok escape_accept_ok [OF seq len, of c] obtain st' where
      "escape_accept ea c st1 = Inr st'" "at_codepoint st'" "dumped st' = ou @ escaped ea c'"
      "scalar_value c'" "utf8 c' = bs @ [c]" by (auto simp: st1_def)
    with 1 show thesis
      by (intro complete [of st' c'])
        (simp_all add: step dec del: nat_of_char)
  next
    case 2
    then show thesis
    proof (cases "eh = eh_strict")
      case True
      then obtain w where "escape_reject eh ea i c st1 = Inl (Type_error 316 w)"
        by (simp add: escape_reject_def type_error_create_def)
      with 2 have "escape_step eh ea i c st = Inl (Type_error 316 w)" by (simp add: step)
      with 2 True show thesis by (intro strict [of w]) (simp_all add: dec del: nat_of_char)
    next
      case False
      with escape_reject_ok [OF seq, of eh i c] obtain st' where
        "escape_reject eh ea i c st1 = Inr (bs \<noteq> [], st')" "at_codepoint st'"
        "dumped st' = ou @ (if eh = eh_replace then replacement ea else [])" by blast
      with 2 False show thesis
        by (intro replaced [of st'])
          (simp_all add: step dec del: nat_of_char)
    qed
  next
    case 3
    with escape_pending_ok [OF seq len, of c] obtain st' where
      "escape_pending ea c st1 = Inr st'" "in_sequence ea ou (bs @ [c]) st'"
      "state st' = s'" "codepoint st' = c'" by (auto simp: st1_def)
    with 3 ok show thesis
      by (intro pending [of st'])
        (simp_all add: step dec escape_inv_def del: nat_of_char)
  qed
qed

section \<open>The whole string\<close>

lemma drop_Cons: "drop i s = c # cs \<Longrightarrow> i < length s \<and> s ! i = c \<and> drop (Suc i) s = cs"
  by (metis Cons_nth_drop_Suc drop_all leI list.inject list.simps(3))

lemma escape_loop_reads:
  assumes "escape_inv ea ou bs st" "reads (state st) (codepoint st) us cp" "drop i s = us @ rest"
  shows "\<exists>st'. escape_loop eh ea s i st = escape_loop eh ea s (i + length us) st' \<and> at_codepoint st' \<and>
    dumped st' = ou @ escaped ea cp"
  using assms
proof (induction us arbitrary: bs st i)
  case (Cons c us)
  from drop_Cons [of i s c "us @ rest"] Cons.prems(3) have i: "i < length s" "s ! i = c" "drop (Suc i) s = us @ rest"
    by simp_all
  from Cons.prems(1) show ?case
  proof (cases rule: escape_step_cases [where eh = eh and i = i and c = c])
    case (complete st' cp')
    then have "us = [] \<and> cp' = cp" using Cons.prems(2) by (auto simp del: nat_of_char split: if_splits)
    with complete i escape_loop_step [of i s eh ea st False st'] show ?thesis by auto
  next
    case (pending st')
    then have "us \<noteq> []" "reads (state st') (codepoint st') us cp"
      using Cons.prems(2) by (auto simp del: nat_of_char split: if_splits)
    with Cons.IH [OF pending(2) _ i(3)] pending i escape_loop_step [of i s eh ea st False st']
    show ?thesis by auto
  qed (use Cons.prems(2) in \<open>auto simp del: nat_of_char split: if_splits prod.splits\<close>)
qed simp

lemma escape_loop_valid:
  assumes "at_codepoint st" "list_all scalar_value cps" "drop i s = utf8_text cps"
  shows "\<exists>st'. escape_loop eh ea s i st = Inr st' \<and> at_codepoint st' \<and>
    dumped st' = dumped st @ concat (map (escaped ea) cps)"
  using assms
proof (induction cps arbitrary: i st)
  case Nil
  then show ?case by (auto simp: utf8_text_def escape_loop_done)
next
  case (Cons cp cps)
  have st: "state st = 0" using Cons.prems(1) by (simp add: at_codepoint_def)
  have dr: "drop i s = utf8 cp @ utf8_text cps" using Cons.prems by (simp add: utf8_text_def)
  obtain st1 where st1: "escape_loop eh ea s i st = escape_loop eh ea s (i + length (utf8 cp)) st1"
    "at_codepoint st1" "dumped st1 = dumped st @ escaped ea cp"
    using escape_loop_reads [OF at_codepoint_inv [OF Cons.prems(1), of ea] _ dr, of cp eh] Cons.prems(2)
      reads_utf8 st by auto
  have "drop (i + length (utf8 cp)) s = utf8_text cps"
    using dr by (metis add.commute append_eq_conv_conj drop_drop)
  with Cons.IH [OF st1(2)] Cons.prems(2) st1 show ?case by auto
qed

lemma at_codepoint_init: "at_codepoint escape_init" "dumped escape_init = []"
  by (simp_all add: at_codepoint_def escape_init_def UTF8_ACCEPT_def dumped_def)

lemma dump_escaped_utf8:
  assumes "list_all scalar_value cps"
  shows "dump_escaped eh ea (utf8_text cps) = Inr (concat (map (escaped ea) cps))"
  using escape_loop_valid [OF at_codepoint_init(1) assms, of 0 "utf8_text cps" eh ea]
  by (auto simp: dump_escaped_def escape_finish_def at_codepoint_def UTF8_ACCEPT_def dumped_def escape_init_def)

text \<open>Any input, any handler: the loop ends with its invariant, or in the strict handler's exception.
  \<open>P\<close> is a property of the output that every code point and every replacement keeps.\<close>

lemma escape_loop_inv:
  assumes "escape_inv ea ou bs st" "P ou"
    and esc: "\<And>ou cp. P ou \<Longrightarrow> scalar_value cp \<Longrightarrow> P (ou @ escaped ea cp)"
    and rep: "\<And>ou. P ou \<Longrightarrow> P (ou @ (if eh = eh_replace then replacement ea else []))"
  shows "(eh = eh_strict \<and> (\<exists>w. escape_loop eh ea s i st = Inl (Type_error 316 w))) \<or>
    (\<exists>st' ou' bs'. escape_loop eh ea s i st = Inr st' \<and> escape_inv ea ou' bs' st' \<and> P ou')"
  using assms(1,2)
proof (induction "2 * (length s - i) + (if bs = [] then 0 else 1)" arbitrary: i bs ou st rule: less_induct)
  case less
  show ?case
  proof (cases "i < length s")
    case False
    with less.prems show ?thesis by (auto simp: escape_loop_done)
  next
    case True
    note step = escape_loop_step [OF True, of eh ea st]
    from less.prems(1) show ?thesis
    proof (cases rule: escape_step_cases [where eh = eh and i = i and c = "s ! i"])
      case (complete st' cp)
      show ?thesis
        unfolding step [OF complete(1)]
        by (rule less.hyps [OF _ at_codepoint_inv [OF complete(2)]])
          (use True complete esc less.prems(2) in auto)
    next
      case (pending st')
      show ?thesis
        unfolding step [OF pending(1)]
        by (rule less.hyps [OF _ pending(2)]) (use True less.prems(2) in auto)
    next
      case (strict w)
      then show ?thesis using True by (subst (1 2) escape_loop.simps) simp
    next
      case (replaced st')
      show ?thesis
        unfolding step [OF replaced(2)]
        by (rule less.hyps [OF _ at_codepoint_inv [OF replaced(3)]])
          (use True replaced rep less.prems(2) in auto)
    qed
  qed
qed

lemma escape_finish_cases:
  assumes "escape_inv ea ou bs st"
  shows "(eh = eh_strict \<and> bs \<noteq> [] \<and> (\<exists>w. escape_finish eh ea s st = Inl (Type_error 316 w))) \<or>
    (\<exists>r. escape_finish eh ea s st = Inr r \<and>
       (bs = [] \<and> r = ou \<or> eh \<noteq> eh_strict \<and> bs \<noteq> [] \<and> r = ou @ (if eh = eh_replace then replacement ea else [])))"
proof (cases "bs = []")
  case True
  then show ?thesis
    using escape_inv_Nil [of ea ou st] assms
    by (auto simp: escape_finish_def at_codepoint_def dumped_def UTF8_ACCEPT_def)
next
  case False
  then have "state st \<noteq> 0" using assms by (auto simp: escape_inv_def incomplete_def)
  then show ?thesis
    using False assms
    by (cases eh) (auto simp: escape_finish_def escape_inv_def in_sequence_def UTF8_ACCEPT_def
        type_error_create_def)
qed

text \<open>With the strict handler what has been read is a prefix of UTF-8.\<close>

lemma escape_loop_strict:
  assumes "escape_inv ea (concat (map (escaped ea) cps)) bs st" "list_all scalar_value cps"
    and "take i s = utf8_text cps @ bs" "escape_loop eh_strict ea s i st = Inr st'" "i \<le> length s"
  shows "\<exists>cps' bs'. escape_inv ea (concat (map (escaped ea) cps')) bs' st' \<and>
    list_all scalar_value cps' \<and> s = utf8_text cps' @ bs'"
  using assms
proof (induction "length s - i" arbitrary: i cps bs st rule: less_induct)
  case less
  show ?case
  proof (cases "i < length s")
    case False
    with less.prems show ?thesis by (auto simp: escape_loop_done)
  next
    case True
    note step = escape_loop_step [OF True, of eh_strict ea st]
    have tk: "take (i + 1) s = utf8_text cps @ bs @ [s ! i]"
      using less.prems(3) True by (simp add: take_Suc_conv_app_nth)
    from less.prems(1) show ?thesis
    proof (cases rule: escape_step_cases [where eh = eh_strict and i = i and c = "s ! i"])
      case (complete st1 cp)
      have "escape_inv ea (concat (map (escaped ea) (cps @ [cp]))) [] st1"
        using at_codepoint_inv [OF complete(2), of ea] complete(3) by simp
      with less.hyps [of "i + 1" "cps @ [cp]" "[]" st1] True less.prems complete tk
        step [OF complete(1)] show ?thesis by (simp add: utf8_text_def)
    next
      case (pending st1)
      with less.hyps [of "i + 1" cps "bs @ [s ! i]" st1] True less.prems tk step [OF pending(1)]
      show ?thesis by simp
    next
      case (strict w)
      then show ?thesis using True less.prems(4) by (subst (asm) escape_loop.simps) simp
    qed simp
  qed
qed

section \<open>Results\<close>

lemma escape_inv_init: "escape_inv ea [] [] escape_init"
  using at_codepoint_inv [OF at_codepoint_init(1)] at_codepoint_init(2) by simp

lemma dump_escaped_inv:
  assumes "P []"
    and "\<And>ou cp. P ou \<Longrightarrow> scalar_value cp \<Longrightarrow> P (ou @ escaped ea cp)"
    and rep: "\<And>ou. P ou \<Longrightarrow> P (ou @ (if eh = eh_replace then replacement ea else []))"
  shows "(eh = eh_strict \<and> (\<exists>w. dump_escaped eh ea s = Inl (Type_error 316 w))) \<or>
    (\<exists>r. dump_escaped eh ea s = Inr r \<and> P r)"
proof -
  have "(eh = eh_strict \<and> (\<exists>w. escape_loop eh ea s 0 escape_init = Inl (Type_error 316 w))) \<or>
    (\<exists>st' ou' bs'. escape_loop eh ea s 0 escape_init = Inr st' \<and> escape_inv ea ou' bs' st' \<and> P ou')"
    by (rule escape_loop_inv [of ea "[]" "[]"]) (use assms escape_inv_init in auto)
  then show ?thesis
  proof (elim disjE exE conjE)
    fix st' ou' bs'
    assume "escape_loop eh ea s 0 escape_init = Inr st'" "escape_inv ea ou' bs' st'" "P ou'"
    with escape_finish_cases [of ea ou' bs' st' eh s] rep show ?thesis
      by (auto simp: dump_escaped_def)
  qed (simp add: dump_escaped_def)
qed

lemma dump_escaped_strict:
  assumes "dump_escaped eh_strict ea s = Inr r"
  shows "\<exists>cps. list_all scalar_value cps \<and> s = utf8_text cps \<and> r = concat (map (escaped ea) cps)"
proof -
  from assms obtain st' where st': "escape_loop eh_strict ea s 0 escape_init = Inr st'"
    "escape_finish eh_strict ea s st' = Inr r" by (auto simp: dump_escaped_def throw_simps)
  with escape_loop_strict [of ea "[]" "[]" escape_init 0 s st'] escape_inv_init
  obtain cps bs where "escape_inv ea (concat (map (escaped ea) cps)) bs st'"
    "list_all scalar_value cps" "s = utf8_text cps @ bs" by (auto simp: utf8_text_def)
  with escape_finish_cases [of ea _ bs st' eh_strict s] st'(2) show ?thesis by fastforce
qed

end
