(* ===== verification/Json_Integer.thy ===== *)
theory Json_Integer
  imports Json_Serializer
begin

text \<open>
  The serializer's integer output: \<open>count_digits\<close> is the number of decimal digits, and
  \<open>dump_integer\<close> writes the number in decimal without leading zeros, whatever the number buffer
  held before, without touching anything outside its \<open>n_chars\<close> bytes.
\<close>

section \<open>Counting digits\<close>

lemma to_string_ge_10: "10 \<le> n \<Longrightarrow> to_string n = to_string (n div 10) @ [digit_char (n mod 10)]"
  by (subst to_string.simps) simp

lemma to_string_less_10: "n < 10 \<Longrightarrow> to_string n = [digit_char n]"
  by (subst to_string.simps) simp

lemma to_string_ge_100:
  assumes "100 \<le> n"
  shows "to_string n = to_string (n div 100) @ [digit_char (n mod 100 div 10), digit_char (n mod 100 mod 10)]"
proof -
  have "to_string n = to_string (n div 10) @ [digit_char (n mod 10)]"
    using assms by (intro to_string_ge_10) simp
  moreover have "to_string (n div 10) = to_string (n div 10 div 10) @ [digit_char (n div 10 mod 10)]"
    using assms by (intro to_string_ge_10) simp
  moreover have "n div 10 div 10 = n div 100" by (simp flip: div_mult2_eq)
  moreover have "n mod 100 div 10 = n div 10 mod 10" "n mod 100 mod 10 = n mod 10"
    using mod_mult2_eq [of n 10 10] by simp_all
  ultimately show ?thesis by simp
qed

lemma length_to_string:
  "n < 10 \<Longrightarrow> length (to_string n) = 1"
  "10 \<le> n \<Longrightarrow> n < 100 \<Longrightarrow> length (to_string n) = 2"
  "100 \<le> n \<Longrightarrow> n < 1000 \<Longrightarrow> length (to_string n) = 3"
  "1000 \<le> n \<Longrightarrow> n < 10000 \<Longrightarrow> length (to_string n) = 4"
  "10000 \<le> n \<Longrightarrow> length (to_string n) = length (to_string (n div 10000)) + 4"
proof -
  have l: "100 \<le> n \<Longrightarrow> length (to_string n) = length (to_string (n div 100)) + 2" for n
    by (simp add: to_string_ge_100)
  show "n < 10 \<Longrightarrow> length (to_string n) = 1" by (simp add: to_string_less_10)
  show two: "10 \<le> n \<Longrightarrow> n < 100 \<Longrightarrow> length (to_string n) = 2" for n
    by (simp add: to_string_ge_10 to_string_less_10)
  show "100 \<le> n \<Longrightarrow> n < 1000 \<Longrightarrow> length (to_string n) = 3"
    by (simp add: l to_string_less_10)
  show "1000 \<le> n \<Longrightarrow> n < 10000 \<Longrightarrow> length (to_string n) = 4"
    using two [of "n div 100"] by (simp add: l)
  show "10000 \<le> n \<Longrightarrow> length (to_string n) = length (to_string (n div 10000)) + 4"
    using l [of n] l [of "n div 100"] by (simp flip: div_mult2_eq)
qed

lemma count_digits_loop_correct:
  "unat x < 10000 ^ Suc fuel \<Longrightarrow> count_digits_loop (Suc fuel) x = Some (length (to_string (unat x)))"
proof (induction fuel arbitrary: x)
  case 0
  then show ?case using length_to_string [of "unat x"] by (simp add: word_less_nat_alt)
next
  case (Suc fuel)
  have "unat (x div 10000) = unat x div 10000" by (simp add: unat_div)
  moreover have "unat x div 10000 < 10000 ^ Suc fuel"
    using Suc.prems by (intro less_mult_imp_div_less) (simp add: mult.commute)
  ultimately have "count_digits_loop (Suc fuel) (x div 10000) = Some (length (to_string (unat x div 10000)))"
    using Suc.IH [of "x div 10000"] by simp
  then show ?case
    using length_to_string [of "unat x"]
    by (subst count_digits_loop.simps) (simp add: word_less_nat_alt del: count_digits_loop.simps)
qed

lemma count_digits_correct: "count_digits x = length (to_string (unat x))"
proof -
  have "unat x < 10000 ^ Suc 4" using unat_less_64 [of x] by simp
  from count_digits_loop_correct [OF this] show ?thesis by (simp add: count_digits_def)
qed

section \<open>Writing digits\<close>

text \<open>The last write of \<open>dump_integer\<close>, one or two digits.\<close>

definition int2ascii_last :: "64 word \<times> nat \<times> string \<Rightarrow> string" where
  "int2ascii_last r =
     (case r of (v, ptr, b) \<Rightarrow>
        if v \<ge> 10 then (case digits_to_99 (unat v) of (hi, lo) \<Rightarrow> b[ptr - 1 := lo, ptr - 2 := hi])
        else b[ptr - 1 := to_char_type (48 + uint v)])"

lemma update_two:
  assumes "off + 2 \<le> length b"
  shows "take off (b[Suc off := lo, off := hi]) = take off b"
    and "drop off (b[Suc off := lo, off := hi]) = hi # lo # drop (off + 2) b"
  using assms
  by (simp, simp add: drop_update_swap flip: Cons_nth_drop_Suc)

lemma int2ascii_digits:
  assumes "ptr = off + length (to_string (unat v))" "ptr \<le> length b"
  shows "int2ascii_last (int2ascii_loop v ptr b) = take off b @ to_string (unat v) @ drop ptr b"
  using assms
proof (induction "unat v" arbitrary: v ptr b rule: less_induct)
  case less
  consider "unat v < 10" | "10 \<le> unat v" "unat v < 100" | "100 \<le> unat v" by linarith
  then show ?case
  proof cases
    case 1
    then have "\<not> 100 \<le> v" "\<not> 10 \<le> v" "ptr = Suc off"
      using less.prems by (simp_all add: word_le_nat_alt length_to_string)
    moreover have "to_char_type (48 + uint v) = digit_char (unat v)" by (simp add: digit_char_def)
    ultimately show ?thesis
      using 1 less.prems(2)
      by (simp add: int2ascii_loop.simps int2ascii_last_def to_string_less_10 upd_conv_take_nth_drop)
  next
    case 2
    then have "\<not> 100 \<le> v" "10 \<le> v" "ptr = off + 2"
      using less.prems by (simp_all add: word_le_nat_alt length_to_string)
    moreover have "b[Suc off := lo, off := hi] = take off b @ hi # lo # drop (off + 2) b" for lo hi
      using update_two [of off b lo hi] less.prems(2) \<open>ptr = off + 2\<close>
      by (metis append_take_drop_id)
    ultimately show ?thesis
      using 2 by (simp add: int2ascii_loop.simps int2ascii_last_def digits_to_99_def to_string_ge_10
          to_string_less_10)
  next
    case 3
    let ?v = "v div 100" and ?q = "ptr - 2"
    let ?hi = "digit_char (unat v mod 100 div 10)" and ?lo = "digit_char (unat v mod 100 mod 10)"
    let ?b = "b[ptr - 1 := ?lo, ptr - 2 := ?hi]"
    have uv: "unat ?v = unat v div 100" "unat (v mod 100) = unat v mod 100"
      by (simp_all add: unat_div unat_mod)
    have ptr: "?q = off + length (to_string (unat ?v))" "ptr = Suc (Suc ?q)"
      using less.prems 3 by (simp_all add: to_string_ge_100 uv)
    have step: "int2ascii_loop v ptr b = int2ascii_loop ?v ?q ?b"
      using 3 by (subst int2ascii_loop.simps) (simp add: word_le_nat_alt digits_to_99_def uv)
    have "int2ascii_last (int2ascii_loop ?v ?q ?b) = take off ?b @ to_string (unat ?v) @ drop ?q ?b"
      using 3 ptr less.prems by (intro less.hyps) (simp_all add: uv)
    moreover have "take off ?b = take off b" "drop ?q ?b = ?hi # ?lo # drop ptr b"
      using update_two [of ?q b ?lo ?hi] ptr less.prems(2) by simp_all
    ultimately show ?thesis
      using 3 by (simp add: step to_string_ge_100 uv)
  qed
qed

section \<open>Results\<close>

lemma length_to_string_64: "length (to_string (unat (x :: 64 word))) \<le> 20"
proof -
  have "10 ^ (length (to_string n) - 1) \<le> n" if "n \<noteq> 0" for n
    using that
  proof (induction n rule: to_string.induct)
    case (1 n)
    show ?case
    proof (cases "n < 10")
      case True
      with 1 show ?thesis by (simp add: to_string_less_10)
    next
      case False
      then have "10 ^ (length (to_string (n div 10)) - 1) \<le> n div 10" using 1 by simp
      then have "10 * 10 ^ (length (to_string (n div 10)) - 1) \<le> 10 * (n div 10)"
        by (rule mult_le_mono2)
      then have "10 ^ length (to_string (n div 10)) \<le> 10 * (n div 10)"
        by (subst power_eq_if) simp
      moreover have "10 * (n div 10) \<le> n" by simp
      ultimately have "10 ^ length (to_string (n div 10)) \<le> n" by (rule order_trans)
      then show ?thesis using False by (simp add: to_string_ge_10)
    qed
  qed
  note bound = this [of "unat x"]
  show ?thesis
  proof (cases "unat x = 0")
    case False
    have "10 ^ (length (to_string (unat x)) - 1) \<le> unat x" by (rule bound [OF False])
    also have "\<dots> < 10 ^ 20" using unat_less_64 [of x] by simp
    finally have "length (to_string (unat x)) - 1 < 20" by (rule power_less_imp_less_exp [rotated]) simp
    then show ?thesis by linarith
  qed (simp add: to_string_zero)
qed

lemma dump_integer_unsigned_correct:
  assumes "length nb = 64"
  shows "dump_integer_unsigned x nb = to_string (unat x)"
proof (cases "x = 0")
  case False
  have "dump_integer_unsigned x nb =
      take (count_digits x) (int2ascii_last (int2ascii_loop x (count_digits x) nb))"
    using False by (simp add: dump_integer_unsigned_def dump_integer_buffer_def int2ascii_last_def Let_def
        split: prod.splits)
  then show ?thesis
    using int2ascii_digits [of "count_digits x" 0 x nb] length_to_string_64 [of x] assms
    by (simp add: count_digits_correct)
qed (simp add: dump_integer_unsigned_def to_string_zero)

lemma unat_remove_sign: "sint x < 0 \<Longrightarrow> unat (remove_sign x) = nat (- sint x)"
proof -
  assume neg: "sint x < 0"
  have "remove_sign x = - x" by (simp add: remove_sign_def)
  moreover have "uint (- x) = (- sint x) mod 2 ^ 64"
    using uint_word_of_int [of "- sint x", where 'a = 64] by simp
  then have "uint (- x) = - sint x"
    using neg sint_range_size [of x] by (simp add: word_size)
  ultimately show ?thesis by (simp flip: nat_uint_eq)
qed

lemma unat_sint: "\<not> sint x < 0 \<Longrightarrow> unat (x :: 64 word) = nat (sint x)"
proof -
  assume nonneg: "\<not> sint x < 0"
  have "uint x = sint x mod 2 ^ 64"
    using uint_word_of_int [of "sint x", where 'a = 64] by simp
  then have "uint x = sint x"
    using nonneg sint_range_size [of x] by (simp add: word_size)
  then show ?thesis by (simp flip: nat_uint_eq)
qed

lemma dump_integer_signed_correct:
  assumes "length nb = 64"
  shows "dump_integer_signed x nb = to_string_int (sint x)"
proof (cases "sint x < 0")
  case True
  let ?v = "remove_sign x" and ?b = "nb[0 := CHR ''-'']"
  have "x \<noteq> 0" using True by auto
  with True have "dump_integer_signed x nb =
      take (1 + count_digits ?v) (int2ascii_last (int2ascii_loop ?v (1 + count_digits ?v) ?b))"
    by (simp add: dump_integer_signed_def dump_integer_buffer_def int2ascii_last_def Let_def
        split: prod.splits)
  moreover have "take 1 ?b = ''-''" using assms by (cases nb) simp_all
  ultimately show ?thesis
    using int2ascii_digits [of "1 + count_digits ?v" 1 ?v ?b] length_to_string_64 [of ?v] assms True
    by (simp add: count_digits_correct unat_remove_sign to_string_int_def)
next
  case False
  then have "unat x = nat (sint x)" by (rule unat_sint)
  moreover have "dump_integer_signed x nb = dump_integer_unsigned x nb"
    using False by (simp add: dump_integer_signed_def dump_integer_unsigned_def)
  ultimately show ?thesis
    using False dump_integer_unsigned_correct [OF assms, of x] by (simp add: to_string_int_def)
qed

section \<open>Properties\<close>

text \<open>C29. The routine that writes integers two digits at a time, backwards into a buffer whose old
  contents do not matter, prints every 64-bit number in decimal, the most negative one included.\<close>

theorem dump_integers:
  assumes "length nb = 64"
  shows "dump_integer_signed x nb = to_string_int (sint x) \<and> dump_integer_unsigned x nb = to_string (unat x)"
  using dump_integer_signed_correct [OF assms] dump_integer_unsigned_correct [OF assms] by simp

theorem dump_integers_witness:
  "dump_integer_signed 0x8000000000000000 (replicate 64 CHR ''9'') = ''-9223372036854775808''"
proof -
  have "to_string_int (sint (0x8000000000000000 :: 64 word)) = ''-9223372036854775808''" by code_simp
  then show ?thesis using dump_integers [of "replicate 64 CHR ''9''" "0x8000000000000000"] by simp
qed

end
