(* ===== verification/Json_Dump.thy ===== *)
theory Json_Dump
  imports Json_Escape Json_Integer Json_Parse
begin

text \<open>
  The serializer writes JSON: for every value whose strings are valid UTF-8 (and whose finite
  numbers are integers) the output, compact or indented, is a text of the grammar for
  \<open>dump_image\<close> of the value, so that parsing it gives that value back. \<open>dump_image\<close> names what the
  format does not keep: a non-negative number comes back as an unsigned one, and a NaN or an
  infinity as null.
\<close>

section \<open>Values that survive\<close>

definition valid_utf8 :: "string \<Rightarrow> bool" where
  "valid_utf8 s \<longleftrightarrow> (\<exists>cps. list_all scalar_value cps \<and> s = utf8_text cps)"

lemma valid_utf8_ascii: "list_all (\<lambda>c. of_char c < (0x80 :: nat)) s \<Longrightarrow> valid_utf8 s"
  unfolding valid_utf8_def
  by (rule exI [of _ "map of_char s"]) (induction s, simp_all add: utf8_text_def utf8_def scalar_value_def)

text \<open>Characters that need no escape.\<close>

definition plain_char :: "char \<Rightarrow> bool" where
  "plain_char c \<longleftrightarrow> 0x20 \<le> ic c \<and> ic c < 0x7F \<and> c \<noteq> CHR 0x22 \<and> c \<noteq> CHR 0x5C"

lemma dump_escaped_plain:
  assumes "list_all plain_char s"
  shows "dump_escaped eh ea s = Inr s"
proof -
  have "list_all scalar_value (map of_char s) \<and> utf8_text (map of_char s) = s \<and>
      concat (map (escaped ea) (map of_char s)) = s"
    using assms
  proof (induction s)
    case (Cons c s)
    have "ic c = int (of_char c)" by (simp only: of_nat_of_char)
    with Cons.prems have c: "0x20 \<le> (of_char c :: nat)" "of_char c < (0x7F :: nat)"
      "of_char c \<noteq> (0x22 :: nat)" "of_char c \<noteq> (0x5C :: nat)"
      using ic_inject [of c "CHR 0x22"] ic_inject [of c "CHR 0x5C"] by (auto simp: plain_char_def)
    then show ?case
      using Cons by (simp add: utf8_text_def utf8_def scalar_value_def escaped_def short_escape_def)
  qed (simp add: utf8_text_def)
  then show ?thesis using dump_escaped_utf8 [of "map of_char s" eh ea] by simp
qed

fun dumpable :: "json \<Rightarrow> bool" where
  "dumpable (Jobject m) \<longleftrightarrow> (\<forall>kv \<in> set m. valid_utf8 (fst kv) \<and> dumpable (snd kv))"
| "dumpable (Jarray xs) \<longleftrightarrow> (\<forall>x \<in> set xs. dumpable x)"
| "dumpable (Jstring s) \<longleftrightarrow> valid_utf8 s"
| "dumpable (Jnumber_float x) \<longleftrightarrow> \<not> isfinite x"
| "dumpable (Jbinary _ _) \<longleftrightarrow> False"
| "dumpable Jdiscarded \<longleftrightarrow> False"
| "dumpable _ \<longleftrightarrow> True"

fun dump_image :: "json \<Rightarrow> json" where
  "dump_image (Jobject m) = Jobject (map (\<lambda>kv. (fst kv, dump_image (snd kv))) m)"
| "dump_image (Jarray xs) = Jarray (map dump_image xs)"
| "dump_image (Jnumber_integer x) = (if sint x < 0 then Jnumber_integer x else Jnumber_unsigned x)"
| "dump_image (Jnumber_float x) = (if isfinite x then Jnumber_float x else Jnull)"
| "dump_image j = j"

section \<open>Well-formed values are normal\<close>

lemma store_last:
  assumes "\<forall>a \<in> fst ` set m. a < fst kv"
  shows "store kv m = m @ [kv]"
proof -
  have "map_emplace (fst kv) Jnull m = m @ [(fst kv, Jnull)]"
    using assms by (induction m) auto
  moreover have "map_assign (fst kv) (snd kv) (m @ [(fst kv, Jnull)]) = m @ [kv]"
    using assms by (induction m) auto
  ultimately show ?thesis by (simp add: store_def)
qed

lemma fold_store_sorted:
  "map_inv (m0 @ m) \<Longrightarrow> fold store m m0 = m0 @ m"
proof (induction m arbitrary: m0)
  case (Cons kv m)
  then have "store kv m0 = m0 @ [kv]"
    by (intro store_last) (auto simp: map_inv_def sorted_wrt_append)
  with Cons show ?case by simp
qed simp

lemma normalise_wf: "json_wf j \<Longrightarrow> normalise j = j"
proof (induction j rule: normalise.induct)
  case (1 xs)
  then show ?case by (simp add: map_idI)
next
  case (2 m)
  then have "map (\<lambda>kv. (fst kv, normalise (snd kv))) m = m" by (intro map_idI) auto
  with 2 show ?case by (simp add: fold_store_sorted)
qed simp_all

lemma json_wf_dump_image: "json_wf j \<Longrightarrow> json_wf (dump_image j)"
  by (induction j rule: dump_image.induct) (auto simp: map_inv_def comp_def)

section \<open>Strings\<close>

lemma hex_quad_hex4_lower: "u < 0x10000 \<Longrightarrow> hex_quad (hex4_lower u) u"
proof -
  assume u: "u < 0x10000"
  have hv: "hex_value (hex_lower d) = Some d" if "d < 16" for d
    unfolding hex_value_def ic_hex_lower [OF that] using that by simp
  have top: "u div 4096 mod 16 = u div 4096" using u by simp
  have "u = u div 4096 * 4096 + u div 256 mod 16 * 256 + u div 16 mod 16 * 16 + u mod 16"
  proof -
    have digits: "v = c * 4096 + z * 256 + y * 16 + x"
      if "v = a * 16 + x" "a = b * 16 + y" "b = c * 16 + z" for v a b c x y z :: nat
      using that by simp
    show ?thesis
    proof (rule digits [of u "u div 16" _ "u div 256"])
      have "u div 256 = u div 16 div 16" "u div 4096 = u div 256 div 16" by (simp_all flip: div_mult2_eq)
      then show "u = u div 16 * 16 + u mod 16" "u div 16 = u div 256 * 16 + u div 16 mod 16"
        "u div 256 = u div 4096 * 16 + u div 256 mod 16" by (simp_all only: div_mult_mod_eq)
    qed
  qed
  moreover have "u div 4096 < 16" using u by simp
  ultimately show ?thesis by (simp add: hex4_lower_def hv top)
qed

lemma char_text_escaped:
  assumes "scalar_value cp"
  shows "char_text cp (escaped ea cp)"
proof (cases "short_escape cp")
  case (Some c)
  then have "letter_escape c = Some cp"
    by (auto simp: short_escape_def letter_escape_def split: if_splits)
  with Some show ?thesis by (simp add: escaped_def char_text.letter)
next
  case None
  consider (plain) "\<not> (cp \<le> 0x1F \<or> (ea \<and> 0x7F \<le> cp))"
    | (unit) "cp \<le> 0x1F \<or> (ea \<and> 0x7F \<le> cp)" "cp \<le> 0xFFFF"
    | (pair) "cp \<le> 0x1F \<or> (ea \<and> 0x7F \<le> cp)" "0xFFFF < cp" by linarith
  then show ?thesis
  proof cases
    case plain
    then show ?thesis
      using None assms
      by (auto simp: escaped_def short_escape_def split: if_splits intro!: char_text.plain)
  next
    case unit
    then show ?thesis
      using None assms char_text.unit [OF hex_quad_hex4_lower [of cp]]
      by (simp add: escaped_def unicode_escape_def)
  next
    case pair
    let ?hi = "0xD800 + (cp - 0x10000) div 0x400" and ?lo = "0xDC00 + cp mod 0x400"
    have cp: "cp < 0x110000" using assms by (auto simp: scalar_value_def)
    have "cp = (cp - 0x10000) + 64 * 0x400" using pair(2) by simp
    then have "cp mod 0x400 = (cp - 0x10000) mod 0x400" by (metis mod_mult_self1)
    then have "cp = 0x10000 + (?hi - 0xD800) * 0x400 + (?lo - 0xDC00)"
      using pair(2) div_mult_mod_eq [of "cp - 0x10000" "0x400"] by simp
    moreover have "?hi < 0xDC00" using cp by simp
    ultimately show ?thesis
      using None pair char_text.pair [OF hex_quad_hex4_lower [of ?hi] _ _ hex_quad_hex4_lower [of ?lo], of cp]
      by (simp add: escaped_def unicode_escape_def)
  qed
qed

lemma string_text_escaped:
  "list_all scalar_value cps \<Longrightarrow> string_text cps (concat (map (escaped ea) cps))"
  unfolding string_text_def
  by (intro exI [of _ "map (escaped ea) cps"])
     (auto simp: list_all2_map2 list_all_iff char_text_escaped intro: list.rel_refl_strong)

lemma dump_escaped_text:
  assumes "valid_utf8 s"
  shows "\<exists>t cps. dump_escaped eh ea s = Inr t \<and> string_text cps t \<and> s = utf8_text cps"
  using assms dump_escaped_utf8 string_text_escaped unfolding valid_utf8_def by metis

section \<open>Numbers\<close>

lemma int_text_to_string: "int_text (to_string n)"
proof (cases "n = 0")
  case False
  then show ?thesis
    by (simp add: int_text_def digits_def to_string_digits hd_to_string_eq_zero)
qed (simp add: int_text_def digits_def to_string_zero is_digit_def)

lemma scalar_text_unsigned: "scalar_text dp (Jnumber_unsigned x) (to_string (unat x))"
  using scalar_text.number [OF int_text_to_string [of "unat x"], of "[]" "[]" _ dp False] unat_less_64 [of x]
  by (simp add: frac_text_def exp_text_def number_value_def sign_text_def)

lemma scalar_text_negative:
  assumes "sint x < 0"
  shows "scalar_text dp (Jnumber_integer x) (to_string_int (sint x))"
proof -
  have "nat (- sint x) \<le> 2 ^ 63" using sint_range_size [of x] by (simp add: word_size nat_le_iff)
  moreover have "- of_nat (nat (- sint x)) = x"
  proof -
    have "of_nat (nat (- sint x)) = (word_of_int (int (nat (- sint x))) :: 64 word)"
      by (simp only: of_int_of_nat_eq)
    also have "\<dots> = - x" using assms by simp
    finally show ?thesis by simp
  qed
  ultimately show ?thesis
    using scalar_text.number [OF int_text_to_string [of "nat (- sint x)"], of "[]" "[]" _ dp True] assms
    by (simp add: frac_text_def exp_text_def number_value_def sign_text_def to_string_int_def)
qed

lemma to_string_int_nonneg: "\<not> sint x < 0 \<Longrightarrow> to_string_int (sint x) = to_string (unat x)" for x :: "64 word"
  by (simp add: to_string_int_def unat_sint)

section \<open>Indentation\<close>

definition serializer_ok :: "serializer \<Rightarrow> bool" where
  "serializer_ok o' \<longleftrightarrow> 512 \<le> length (indent_string o') \<and> ws (indent_string o')"

lemma write_characters_simps [simp]:
  "out (write_characters s o') = out o' @ s" "indent_string (write_characters s o') = indent_string o'"
  "serializer_ok (write_characters s o') \<longleftrightarrow> serializer_ok o'"
  by (simp_all add: write_characters_def serializer_ok_def)

lemma write_indent_ok:
  assumes "n \<le> length (indent_string o')" "serializer_ok o'"
  shows "\<exists>w. write_indent n o' = Inr (write_characters w o') \<and> ws w"
  using assms
  by (auto simp: write_indent_def serializer_ok_def ws_def list_all_iff dest: in_set_takeD)

lemma ws_spaces: "ws (s @ replicate k CHR '' '') \<longleftrightarrow> ws s"
proof -
  have "is_ws CHR '' ''" by (simp add: is_ws_def)
  then have "list_all is_ws (replicate k CHR '' '')" by (induction k) simp_all
  then show ?thesis by (simp add: ws_def)
qed

lemma grow_indent_ok:
  assumes "serializer_ok o'" "cur \<le> length (indent_string o')" "step \<le> 512" "n \<le> cur + step"
  shows "serializer_ok (grow_indent n o')"
    and "n \<le> length (indent_string (grow_indent n o'))"
    and "length (indent_string o') \<le> length (indent_string (grow_indent n o'))"
    and "out (grow_indent n o') = out o'"
  using assms
  by (cases "length (indent_string o') < n"; simp add: grow_indent_def serializer_ok_def ws_spaces)+

section \<open>Values\<close>

text \<open>\<open>writes P r o\<close>: the step \<open>r\<close> from \<open>o\<close> succeeds, appends a text with \<open>P\<close> to the output and
  never shortens the indentation string.\<close>

definition writes :: "(string \<Rightarrow> bool) \<Rightarrow> json_exception + serializer \<Rightarrow> serializer \<Rightarrow> bool" where
  "writes P r o0 \<longleftrightarrow>
     (\<exists>s o1. r = Inr o1 \<and> out o1 = out o0 @ s \<and> P s \<and> serializer_ok o1 \<and>
        length (indent_string o0) \<le> length (indent_string o1))"

lemma writes_write: "P s \<Longrightarrow> serializer_ok o0 \<Longrightarrow> writes P (Inr (write_characters s o0)) o0"
  by (auto simp: writes_def)

lemma writes_bind:
  assumes "writes P r o0" and "\<And>o1 s. P s \<Longrightarrow> serializer_ok o1 \<Longrightarrow>
      length (indent_string o0) \<le> length (indent_string o1) \<Longrightarrow> writes (\<lambda>t. Q (s @ t)) (f o1) o1"
  shows "writes Q (try_bind r f) o0"
proof -
  from assms(1) obtain s o1 where 1: "r = Inr o1" "out o1 = out o0 @ s" "P s" "serializer_ok o1"
    "length (indent_string o0) \<le> length (indent_string o1)" by (auto simp: writes_def)
  from assms(2) [OF 1(3-5)] 1 show ?thesis by (fastforce simp: writes_def)
qed

lemma writes_after:
  assumes "writes (\<lambda>t. Q (s @ t)) r (write_characters s o0)"
  shows "writes Q r o0"
  using assms by (fastforce simp: writes_def)

lemma writes_string:
  assumes "valid_utf8 s" "serializer_ok o0"
  shows "writes (\<lambda>t. \<exists>cps. string_text cps t \<and> s = utf8_text cps) (write_string cfg s o0) o0"
proof -
  from dump_escaped_text [OF assms(1)] obtain t cps where
    "dump_escaped (error_handler cfg) (ensure_ascii cfg) s = Inr t" "string_text cps t" "s = utf8_text cps"
    by blast
  with assms(2) show ?thesis by (auto simp: write_string_def writes_def)
qed

lemma writes_indent:
  "n \<le> length (indent_string o0) \<Longrightarrow> serializer_ok o0 \<Longrightarrow> writes ws (write_indent n o0) o0"
  using write_indent_ok [of n o0] by (auto simp: writes_def)

lemma writes_Inr: "Q [] \<Longrightarrow> serializer_ok o0 \<Longrightarrow> writes Q (Inr o0) o0"
  by (auto simp: writes_def)

lemma writes_mono: "writes P r o0 \<Longrightarrow> (\<And>s. P s \<Longrightarrow> Q s) \<Longrightarrow> writes Q r o0"
  by (auto simp: writes_def)

lemma ws_simps [simp]: "ws []" "ws (v @ w) \<longleftrightarrow> ws v \<and> ws w" "ws [CHR 0x0A]"
  by (auto simp: ws_def is_ws_def)

definition line_break :: "bool \<Rightarrow> string" where
  "line_break pretty = (if pretty then [CHR 0x0A] else [])"

lemma ws_line_break [simp]: "ws (line_break pretty)"
  by (simp add: line_break_def)

text \<open>The text of a value at an indentation for which the indentation string is long enough.\<close>

definition value_written :: "dump_config \<Rightarrow> char \<Rightarrow> json \<Rightarrow> bool" where
  "value_written cfg dp j \<longleftrightarrow>
     (\<forall>pretty cur o0. serializer_ok o0 \<longrightarrow> (pretty \<longrightarrow> cur \<le> length (indent_string o0)) \<longrightarrow>
        writes (json_text dp (dump_image j)) (dump cfg pretty cur j o0) o0)"

lemma optional_indent:
  "serializer_ok o0 \<Longrightarrow> (pretty \<longrightarrow> ind \<le> length (indent_string o0)) \<Longrightarrow>
     writes ws (if pretty then write_indent ind o0 else Inr o0) o0"
  by (auto intro: writes_indent writes_Inr)

lemma dump_elements_written:
  assumes "xs \<noteq> []" "\<forall>x \<in> set xs. value_written cfg dp x"
    and "serializer_ok o0" "pretty \<longrightarrow> ind \<le> length (indent_string o0)"
  shows "writes (\<lambda>s. \<forall>wa wb. ws wa \<longrightarrow> ws wb \<longrightarrow> elements_text dp (map dump_image xs) (wa @ s @ wb))
    (dump_elements cfg pretty ind xs o0) o0"
  using assms
proof (induction xs arbitrary: o0)
  case (Cons x xs)
  let ?Q = "\<lambda>s. \<forall>wa wb. ws wa \<longrightarrow> ws wb \<longrightarrow> elements_text dp (map dump_image (x # xs)) (wa @ s @ wb)"
  show ?case
    unfolding dump_elements.simps
  proof (rule writes_bind [OF optional_indent [OF Cons.prems(3,4)]])
    fix o1 w
    assume w: "ws w" and o1: "serializer_ok o1" "length (indent_string o0) \<le> length (indent_string o1)"
    with Cons.prems have "writes (json_text dp (dump_image x)) (dump cfg pretty ind x o1) o1"
      by (auto simp: value_written_def)
    then show "writes (\<lambda>t. ?Q (w @ t)) (try_bind (dump cfg pretty ind x o1) (\<lambda>o2.
        if xs = [] then Inr o2
        else dump_elements cfg pretty ind xs
               (write_characters (if pretty then '','' @ [CHR 0x0A] else '','') o2))) o1"
    proof (rule writes_bind)
      fix o2 t
      assume t: "json_text dp (dump_image x) t" and o2: "serializer_ok o2"
        "length (indent_string o1) \<le> length (indent_string o2)"
      show "writes (\<lambda>u. ?Q (w @ t @ u)) (if xs = [] then Inr o2
        else dump_elements cfg pretty ind xs
               (write_characters (if pretty then '','' @ [CHR 0x0A] else '','') o2)) o2"
      proof (cases "xs = []")
        case True
        have "elements_text dp [dump_image x] (wa @ (w @ t) @ wb)" if "ws wa" "ws wb" for wa wb
          using last_element [of "wa @ w" dp "dump_image x" t wb] t w that by simp
        with True o2 show ?thesis by (auto intro!: writes_Inr)
      next
        case False
        let ?o = "write_characters (CHR '','' # line_break pretty) o2"
        have sep: "(if pretty then '','' @ [CHR 0x0A] else '','') = CHR '','' # line_break pretty"
          by (simp add: line_break_def)
        have IH: "writes (\<lambda>s. \<forall>wa wb. ws wa \<longrightarrow> ws wb \<longrightarrow> elements_text dp (map dump_image xs) (wa @ s @ wb))
            (dump_elements cfg pretty ind xs ?o) ?o"
          using False Cons.prems o1 o2 by (intro Cons.IH) auto
        have key: "?Q (w @ t @ (CHR '','' # line_break pretty) @ u)"
          if u: "\<forall>wa wb. ws wa \<longrightarrow> ws wb \<longrightarrow> elements_text dp (map dump_image xs) (wa @ u @ wb)" for u
        proof (intro allI impI)
          fix wa wb assume "ws wa" "ws wb"
          with u t w show "elements_text dp (map dump_image (x # xs))
              (wa @ (w @ t @ (CHR '','' # line_break pretty) @ u) @ wb)"
            using element [of "wa @ w" dp "dump_image x" t "[]" "map dump_image xs" "line_break pretty @ u @ wb"]
            by simp
        qed
        have "writes (\<lambda>u. ?Q (w @ t @ (CHR '','' # line_break pretty) @ u))
            (dump_elements cfg pretty ind xs ?o) ?o" by (rule writes_mono [OF IH]) (rule key)
        from writes_after [where Q = "\<lambda>u. ?Q (w @ t @ u)", OF this] False sep show ?thesis by simp
      qed
    qed
  qed
qed simp

definition image_member :: "string \<times> json \<Rightarrow> string \<times> json" where
  "image_member kv = (fst kv, dump_image (snd kv))"

text \<open>One member: the quoted key, the colon and the value.\<close>

lemma dump_member_written:
  assumes k: "valid_utf8 (fst kv)" and v: "value_written cfg dp (snd kv)" and o0: "serializer_ok o0"
    and ind: "pretty \<longrightarrow> ind \<le> length (indent_string o0)"
    and rest: "\<And>cps t w3 u o1. string_text cps t \<Longrightarrow> fst kv = utf8_text cps \<Longrightarrow> ws w3 \<Longrightarrow>
      json_text dp (dump_image (snd kv)) u \<Longrightarrow> serializer_ok o1 \<Longrightarrow>
      length (indent_string o0) \<le> length (indent_string o1) \<Longrightarrow>
      writes (\<lambda>r. Q ((CHR 0x22 # t @ CHR 0x22 # CHR '':'' # w3 @ u) @ r)) (f o1) o1"
  shows "writes Q
    (try_bind (write_string cfg (fst kv) (write_characters [CHR 0x22] o0)) (\<lambda>o2.
     try_bind (dump cfg pretty ind (snd kv)
                (write_characters (CHR 0x22 # (if pretty then '': '' else '':'')) o2)) f)) o0"
proof (rule writes_after [where s = "[CHR 0x22]"], rule writes_bind [OF writes_string [OF k]], simp add: o0)
  fix o2 t
  assume t: "\<exists>cps. string_text cps t \<and> fst kv = utf8_text cps" and o2: "serializer_ok o2"
    "length (indent_string (write_characters [CHR 0x22] o0)) \<le> length (indent_string o2)"
  let ?w3 = "if pretty then '' '' else []"
  let ?o = "write_characters (CHR 0x22 # CHR '':'' # ?w3) o2"
  have sep: "CHR 0x22 # (if pretty then '': '' else '':'') = CHR 0x22 # CHR '':'' # ?w3" by simp
  have w3: "ws ?w3" by (simp add: ws_def is_ws_def)
  have "writes (json_text dp (dump_image (snd kv))) (dump cfg pretty ind (snd kv) ?o) ?o"
    using v o2 ind by (auto simp: value_written_def)
  then have "writes (\<lambda>r. Q ([CHR 0x22] @ t @ (CHR 0x22 # CHR '':'' # ?w3) @ r))
      (try_bind (dump cfg pretty ind (snd kv) ?o) f) ?o"
  proof (rule writes_bind)
    fix o3 u
    assume "json_text dp (dump_image (snd kv)) u" "serializer_ok o3"
      "length (indent_string ?o) \<le> length (indent_string o3)"
    with rest [of _ t ?w3 u o3] t w3 o2 show "writes (\<lambda>r. Q ([CHR 0x22] @ t @ (CHR 0x22 # CHR '':'' # ?w3) @ u @ r)) (f o3) o3"
      by (auto simp del: if_split)
  qed
  from writes_after [where Q = "\<lambda>r. Q ([CHR 0x22] @ t @ r)", OF this]
  show "writes (\<lambda>r. Q ([CHR 0x22] @ t @ r))
      (try_bind (dump cfg pretty ind (snd kv) (write_characters (CHR 0x22 # (if pretty then '': '' else '':'')) o2)) f) o2"
    unfolding sep .
qed

lemma dump_members_written:
  assumes "m \<noteq> []" "\<forall>kv \<in> set m. valid_utf8 (fst kv) \<and> value_written cfg dp (snd kv)"
    and "serializer_ok o0" "pretty \<longrightarrow> ind \<le> length (indent_string o0)"
  shows "writes (\<lambda>s. \<forall>wa wb. ws wa \<longrightarrow> ws wb \<longrightarrow> members_text dp (map image_member m) (wa @ s @ wb))
    (dump_members cfg pretty ind m o0) o0"
  using assms
proof (induction m arbitrary: o0)
  case (Cons kv m)
  let ?Q = "\<lambda>s. \<forall>wa wb. ws wa \<longrightarrow> ws wb \<longrightarrow> members_text dp (map image_member (kv # m)) (wa @ s @ wb)"
  show ?case
    unfolding dump_members.simps
  proof (rule writes_bind [OF optional_indent [OF Cons.prems(3,4)]])
    fix o1 w
    assume w: "ws w" and o1: "serializer_ok o1" "length (indent_string o0) \<le> length (indent_string o1)"
    show "writes (\<lambda>t. ?Q (w @ t))
     (try_bind (write_string cfg (fst kv) (write_characters [CHR 0x22] o1)) (\<lambda>o2.
      try_bind (dump cfg pretty ind (snd kv)
                 (write_characters (CHR 0x22 # (if pretty then '': '' else '':'')) o2)) (\<lambda>o3.
        if m = [] then Inr o3
        else dump_members cfg pretty ind m
               (write_characters (if pretty then '','' @ [CHR 0x0A] else '','') o3)))) o1"
    proof (rule dump_member_written [where dp = dp])
      fix cps t w3 u o3
      assume t: "string_text cps t" "fst kv = utf8_text cps" and w3: "ws w3"
        and u: "json_text dp (dump_image (snd kv)) u" and o3: "serializer_ok o3"
          "length (indent_string o1) \<le> length (indent_string o3)"
      let ?s = "w @ (CHR 0x22 # t @ CHR 0x22 # CHR '':'' # w3 @ u)"
      have kv: "image_member kv = (utf8_text cps, dump_image (snd kv))" by (simp add: image_member_def t)
      show "writes (\<lambda>r. ?Q (w @ (CHR 0x22 # t @ CHR 0x22 # CHR '':'' # w3 @ u) @ r)) (if m = [] then Inr o3
        else dump_members cfg pretty ind m
               (write_characters (if pretty then '','' @ [CHR 0x0A] else '','') o3)) o3"
      proof (cases "m = []")
        case True
        have "members_text dp [image_member kv] (wa @ ?s @ wb)" if "ws wa" "ws wb" for wa wb
          using last_member [of "wa @ w" cps t "[]" w3 dp "dump_image (snd kv)" u wb] t u w w3 kv that by simp
        with True o3 show ?thesis by (auto intro!: writes_Inr)
      next
        case False
        let ?o = "write_characters (CHR '','' # line_break pretty) o3"
        have sep: "(if pretty then '','' @ [CHR 0x0A] else '','') = CHR '','' # line_break pretty"
          by (simp add: line_break_def)
        have IH: "writes (\<lambda>s. \<forall>wa wb. ws wa \<longrightarrow> ws wb \<longrightarrow> members_text dp (map image_member m) (wa @ s @ wb))
            (dump_members cfg pretty ind m ?o) ?o"
          using False Cons.prems o1 o3 by (intro Cons.IH) auto
        have key: "?Q (?s @ (CHR '','' # line_break pretty) @ r)"
          if r: "\<forall>wa wb. ws wa \<longrightarrow> ws wb \<longrightarrow> members_text dp (map image_member m) (wa @ r @ wb)" for r
        proof (intro allI impI)
          fix wa wb assume "ws wa" "ws wb"
          with r t u w w3 kv show "members_text dp (map image_member (kv # m))
              (wa @ (?s @ (CHR '','' # line_break pretty) @ r) @ wb)"
            using member [of "wa @ w" cps t "[]" w3 dp "dump_image (snd kv)" u "[]" "map image_member m"
                "line_break pretty @ r @ wb"] by simp
        qed
        have "writes (\<lambda>r. ?Q (?s @ (CHR '','' # line_break pretty) @ r))
            (dump_members cfg pretty ind m ?o) ?o" by (rule writes_mono [OF IH]) (rule key)
        from writes_after [where Q = "\<lambda>r. ?Q (?s @ r)", OF this] False sep show ?thesis by simp
      qed
    qed (use Cons.prems o1 in auto)
  qed
qed simp

text \<open>A container around its contents.\<close>

lemma dump_container_written:
  assumes step: "indent_step cfg \<le> 512" and o0: "serializer_ok o0" and cur: "pretty \<longrightarrow> cur \<le> length (indent_string o0)"
    and body: "\<And>ind o1. serializer_ok o1 \<Longrightarrow> (pretty \<longrightarrow> ind \<le> length (indent_string o1)) \<Longrightarrow>
      writes (\<lambda>s. \<forall>wa wb. ws wa \<longrightarrow> ws wb \<longrightarrow> P (wa @ s @ wb)) (contents pretty ind o1) o1"
    and wrap: "\<And>s. P s \<Longrightarrow> Q (a # s @ [b])"
  shows "writes Q
     (if pretty then
        (let new_indent = (cur + indent_step cfg) mod 2 ^ 32;
             o1 = grow_indent new_indent (write_characters [a, CHR 0x0A] o0)
         in try_bind (contents True new_indent o1) (\<lambda>o2.
            try_bind (write_indent cur (write_characters [CHR 0x0A] o2)) (\<lambda>o3.
            Inr (write_characters [b] o3))))
      else
        try_bind (contents False cur (write_characters [a] o0)) (\<lambda>o1.
          Inr (write_characters [b] o1))) o0"
proof (cases pretty)
  case False
  have "writes Q (try_bind (contents False cur (write_characters [a] o0)) (\<lambda>o1. Inr (write_characters [b] o1))) o0"
  proof (rule writes_after [where s = "[a]"], rule writes_bind)
    show "writes (\<lambda>s. \<forall>wa wb. ws wa \<longrightarrow> ws wb \<longrightarrow> P (wa @ s @ wb)) (contents False cur (write_characters [a] o0))
        (write_characters [a] o0)"
      using body False o0 by simp
    fix o1 s
    assume s: "\<forall>wa wb. ws wa \<longrightarrow> ws wb \<longrightarrow> P (wa @ s @ wb)" and o1: "serializer_ok o1"
    have "P s" using s [rule_format, of "[]" "[]"] by simp
    with o1 show "writes (\<lambda>t. Q ([a] @ s @ t)) (Inr (write_characters [b] o1)) o1"
      using wrap [of s] by (intro writes_write) auto
  qed
  with False show ?thesis by simp
next
  case True
  define n where "n = (cur + indent_step cfg) mod 2 ^ 32"
  define oa where "oa = write_characters [a, CHR 0x0A] o0"
  define ob where "ob = grow_indent n oa"
  have "n \<le> cur + indent_step cfg" by (simp add: n_def)
  moreover have "serializer_ok oa" "cur \<le> length (indent_string oa)" using o0 cur True by (simp_all add: oa_def)
  ultimately have ob: "serializer_ok ob" "n \<le> length (indent_string ob)"
    "length (indent_string oa) \<le> length (indent_string ob)" "out ob = out oa"
    using grow_indent_ok [of oa cur "indent_step cfg" n] step by (simp_all add: ob_def)
  have "writes (\<lambda>t. Q ([a, CHR 0x0A] @ t)) (try_bind (contents True n ob) (\<lambda>o2.
      try_bind (write_indent cur (write_characters [CHR 0x0A] o2)) (\<lambda>o3. Inr (write_characters [b] o3)))) ob"
  proof (rule writes_bind)
    show "writes (\<lambda>s. \<forall>wa wb. ws wa \<longrightarrow> ws wb \<longrightarrow> P (wa @ s @ wb)) (contents True n ob) ob"
      using body ob True by simp
    fix o2 s
    assume s: "\<forall>wa wb. ws wa \<longrightarrow> ws wb \<longrightarrow> P (wa @ s @ wb)" and o2: "serializer_ok o2"
      "length (indent_string ob) \<le> length (indent_string o2)"
    have len: "cur \<le> length (indent_string o2)" using o2 ob cur True by (simp add: oa_def)
    show "writes (\<lambda>t. Q ([a, CHR 0x0A] @ s @ t))
        (try_bind (write_indent cur (write_characters [CHR 0x0A] o2)) (\<lambda>o3. Inr (write_characters [b] o3))) o2"
    proof (rule writes_after [where s = "[CHR 0x0A]"], rule writes_bind [OF writes_indent])
      fix o3 w
      assume "ws w" "serializer_ok o3"
      then show "writes (\<lambda>t. Q ([a, CHR 0x0A] @ s @ [CHR 0x0A] @ w @ t)) (Inr (write_characters [b] o3)) o3"
        using wrap [of "[CHR 0x0A] @ s @ [CHR 0x0A] @ w"] s ws_simps
        by (intro writes_write) (auto simp del: append_Cons simp flip: append_Cons)
    qed (use len o2 in auto)
  qed
  then have "writes Q (try_bind (contents True n ob) (\<lambda>o2.
      try_bind (write_indent cur (write_characters [CHR 0x0A] o2)) (\<lambda>o3. Inr (write_characters [b] o3)))) o0"
    using ob by (fastforce simp: writes_def oa_def)
  with True show ?thesis by (simp add: n_def oa_def ob_def Let_def)
qed

theorem dump_written:
  assumes step: "indent_step cfg \<le> 512"
  shows "dumpable j \<Longrightarrow> value_written cfg dp j"
proof (induction j)
  case (Jobject m)
  then have m: "\<forall>kv \<in> set m. valid_utf8 (fst kv) \<and> value_written cfg dp (snd kv)"
    by (auto simp: snds.simps)
  show ?case
    unfolding value_written_def
  proof (intro allI impI)
    fix pretty cur o0
    assume o0: "serializer_ok o0" "pretty \<longrightarrow> cur \<le> length (indent_string o0)"
    show "writes (json_text dp (dump_image (Jobject m))) (dump cfg pretty cur (Jobject m) o0) o0"
    proof (cases "m = []")
      case True
      then show ?thesis
        using o0 empty_object [of "[]" dp] by (auto intro!: writes_write)
    next
      case False
      have "writes (json_text dp (dump_image (Jobject m)))
         (if pretty then
            (let new_indent = (cur + indent_step cfg) mod 2 ^ 32;
                 o1 = grow_indent new_indent (write_characters [CHR ''{'', CHR 0x0A] o0)
             in try_bind (dump_members cfg True new_indent m o1) (\<lambda>o2.
                try_bind (write_indent cur (write_characters [CHR 0x0A] o2)) (\<lambda>o3.
                Inr (write_characters [CHR ''}''] o3))))
          else
            try_bind (dump_members cfg False cur m (write_characters [CHR ''{''] o0)) (\<lambda>o1.
              Inr (write_characters [CHR ''}''] o1))) o0"
        by (rule dump_container_written [where P = "members_text dp (map image_member m)" and
              contents = "\<lambda>pretty ind. dump_members cfg pretty ind m", OF step o0])
          (use False m dump_members_written object [of dp "map image_member m"] in
            \<open>auto simp: image_member_def [abs_def]\<close>)
      with False show ?thesis by (cases pretty) (simp_all add: Let_def)
    qed
  qed
next
  case (Jarray xs)
  then have xs: "\<forall>x \<in> set xs. value_written cfg dp x" by auto
  show ?case
    unfolding value_written_def
  proof (intro allI impI)
    fix pretty cur o0
    assume o0: "serializer_ok o0" "pretty \<longrightarrow> cur \<le> length (indent_string o0)"
    show "writes (json_text dp (dump_image (Jarray xs))) (dump cfg pretty cur (Jarray xs) o0) o0"
    proof (cases "xs = []")
      case True
      then show ?thesis
        using o0 empty_array [of "[]" dp] by (auto intro!: writes_write)
    next
      case False
      have "writes (json_text dp (dump_image (Jarray xs)))
         (if pretty then
            (let new_indent = (cur + indent_step cfg) mod 2 ^ 32;
                 o1 = grow_indent new_indent (write_characters [CHR ''['', CHR 0x0A] o0)
             in try_bind (dump_elements cfg True new_indent xs o1) (\<lambda>o2.
                try_bind (write_indent cur (write_characters [CHR 0x0A] o2)) (\<lambda>o3.
                Inr (write_characters [CHR '']''] o3))))
          else
            try_bind (dump_elements cfg False cur xs (write_characters [CHR ''[''] o0)) (\<lambda>o1.
              Inr (write_characters [CHR '']''] o1))) o0"
        by (rule dump_container_written [where P = "elements_text dp (map dump_image xs)" and
              contents = "\<lambda>pretty ind. dump_elements cfg pretty ind xs", OF step o0])
          (use False xs dump_elements_written array [of dp "map dump_image xs"] in auto)
      with False show ?thesis by (cases pretty) (simp_all add: Let_def)
    qed
  qed
next
  case (Jstring s)
  show ?case
    unfolding value_written_def
  proof (intro allI impI)
    fix pretty :: bool and cur :: nat and o0
    assume o0: "serializer_ok o0"
    have "writes (json_text dp (Jstring s)) (try_bind (write_string cfg s (write_characters [CHR 0x22] o0))
        (\<lambda>o1. Inr (write_characters [CHR 0x22] o1))) o0"
    proof (rule writes_after [where s = "[CHR 0x22]"], rule writes_bind [OF writes_string])
      fix o1 t
      assume "\<exists>cps. string_text cps t \<and> s = utf8_text cps" "serializer_ok o1"
      then show "writes (\<lambda>u. json_text dp (Jstring s) ([CHR 0x22] @ t @ u)) (Inr (write_characters [CHR 0x22] o1)) o1"
        using scalar_text.string [of _ t dp] by (intro writes_write) (auto intro: scalar)
    qed (use Jstring o0 in auto)
    then show "writes (json_text dp (dump_image (Jstring s))) (dump cfg pretty cur (Jstring s) o0) o0" by simp
  qed
qed (auto simp: value_written_def dump_integer_signed_correct dump_integer_unsigned_correct
    number_buffer_init_def dump_float_def scalar_text_unsigned
    scalar_text_negative to_string_int_nonneg
    intro!: writes_write scalar scalar_text.null scalar_text.true scalar_text.false)

section \<open>Results\<close>

lemma serializer_ok_init: "is_ws c \<Longrightarrow> serializer_ok (serializer_init c)"
  by (simp add: serializer_ok_def serializer_init_def ws_def list_all_iff)

lemma json_dump_text:
  assumes "dumpable j" "indent \<le> 512" "is_ws c"
  shows "\<exists>s. json_dump indent c ea eh j = Inr s \<and> json_text dp (dump_image j) s"
proof -
  let ?cfg = "\<lparr>ensure_ascii = ea, indent_step = nat (if 0 \<le> indent then indent else 0), error_handler = eh\<rparr>"
  have "value_written ?cfg dp j" using assms(1,2) by (intro dump_written) auto
  then have "writes (json_text dp (dump_image j)) (dump ?cfg (0 \<le> indent) 0 j (serializer_init c)) (serializer_init c)"
    using serializer_ok_init [OF assms(3)] by (simp add: value_written_def)
  then show ?thesis
    by (cases "0 \<le> indent") (auto simp: writes_def json_dump_def serializer_init_def)
qed

lemma json_parse_dump:
  assumes "dumpable j" "json_wf j" "indent \<le> 512" "is_ws c"
  shows "\<exists>s. json_dump indent c ea eh j = Inr s \<and> json_parse ms dp allow ig s = Inr (dump_image j)"
proof -
  obtain s where s: "json_dump indent c ea eh j = Inr s" "json_text dp (dump_image j) s"
    using json_dump_text [OF assms(1,3,4)] by blast
  from json_parse_text [OF s(2), of "[]" "[]" ms allow ig] s(1) ends_text_ws [of "[]"]
  show ?thesis by (simp add: normalise_wf json_wf_dump_image assms(2))
qed

section \<open>A text has no NUL\<close>

text \<open>So a text that is passed on as a C string arrives whole.\<close>

definition no_nul :: "string \<Rightarrow> bool" where
  "no_nul s \<longleftrightarrow> list_all (\<lambda>c. 0 < ic c) s"

lemma no_nul_simps [simp]:
  "no_nul []" "no_nul (c # s) \<longleftrightarrow> 0 < ic c \<and> no_nul s" "no_nul (s @ t) \<longleftrightarrow> no_nul s \<and> no_nul t"
  "no_nul (concat ts) \<longleftrightarrow> list_all no_nul ts"
  by (auto simp: no_nul_def list_all_iff)

lemma c_str_no_nul: "no_nul s \<Longrightarrow> c_str s = s"
  unfolding c_str_def no_nul_def list_all_iff by (subst takeWhile_eq_all_conv) force

lemma no_nul_utf8:
  assumes "scalar_value cp" "0 < cp"
  shows "no_nul (utf8 cp)"
  using assms(1)
proof (cases rule: utf8_cases)
  case one
  then show ?thesis using assms(2) by (simp add: ic_byte)
next
  case (two a x)
  then show ?thesis by (simp add: utf8_two ic_byte)
next
  case (three a x y)
  then show ?thesis by (simp only: utf8_three) (simp add: ic_byte)
next
  case (four a x y z)
  then show ?thesis by (simp only: utf8_four) (simp add: ic_byte)
qed

lemma no_nul_hex_quad: "hex_quad hs u \<Longrightarrow> no_nul hs"
  by (cases "(hs, u)" rule: hex_quad.cases) (auto simp: hex_value_def split: option.splits if_splits)

lemma no_nul_char_text: "char_text cp t \<Longrightarrow> no_nul t"
  by (induction rule: char_text.induct)
     (auto simp: no_nul_utf8 letter_escape_def no_nul_hex_quad split: if_splits)

lemma no_nul_string_text: "string_text cps t \<Longrightarrow> no_nul t"
  by (induction cps arbitrary: t) (auto simp: string_text_Nil string_text_Cons no_nul_char_text)

lemma no_nul_digits: "list_all is_digit s \<Longrightarrow> no_nul s"
  by (auto simp: no_nul_def list_all_iff is_digit_def)

lemma no_nul_number:
  "int_text ip \<Longrightarrow> no_nul ip" "frac_text fr \<Longrightarrow> no_nul fr" "exp_text ex \<Longrightarrow> no_nul ex" "no_nul (sign_text neg)"
proof -
  show "int_text ip \<Longrightarrow> no_nul ip" by (simp add: int_text_def digits_def no_nul_digits)
  show "frac_text fr \<Longrightarrow> no_nul fr"
    by (cases fr) (auto simp: frac_text_def digits_def no_nul_digits)
  show "exp_text ex \<Longrightarrow> no_nul ex"
    by (cases ex; cases "tl ex") (auto simp: exp_text_def digits_def no_nul_digits is_digit_def)
  show "no_nul (sign_text neg)" by (simp add: sign_text_def)
qed

lemma no_nul_ws: "ws w \<Longrightarrow> no_nul w"
  unfolding ws_def is_ws_def no_nul_def list_all_iff by fastforce

lemma no_nul_json_text:
  "json_text dp v s \<Longrightarrow> no_nul s" "elements_text dp vs s \<Longrightarrow> no_nul s" "members_text dp m s \<Longrightarrow> no_nul s"
proof (induction rule: json_text_elements_text_members_text.inducts)
  case (scalar v s)
  then show ?case
    by (cases rule: scalar_text.cases) (auto simp: no_nul_string_text no_nul_number)
qed (auto simp: no_nul_ws no_nul_string_text)

end
