(* ===== verification/Json_Grisu.thy ===== *)
theory Json_Grisu
  imports Json_Dtoa
begin

text \<open>
  The Grisu2 routines against their specifications: the 64-bit multiplication is the rounded product,
  normalization ends and keeps the value, the cached power puts the exponent into the range the
  digit generation needs, and printing a finite double ends and fits into the serializer's
  buffer of 64 characters.
\<close>

section \<open>Multiplication\<close>

lemma unat_and_low: "unat (x AND 0xFFFFFFFF) = unat x mod 2 ^ 32" for x :: "64 word"
proof -
  have "x AND 0xFFFFFFFF = take_bit 32 x" by (simp add: take_bit_eq_mask mask_eq_exp_minus_1)
  then show ?thesis by (simp add: unsigned_take_bit_eq take_bit_eq_mod [of 32 "unat x"])
qed

lemma unat_drop_bit: "unat (drop_bit n x) = unat x div 2 ^ n" for x :: "64 word"
  by (simp add: unat_drop_bit_eq flip: drop_bit_eq_div)

lemma unat_times: "unat x * unat y < 2 ^ 64 \<Longrightarrow> unat (x * y) = unat x * unat y" for x y :: "64 word"
  by (simp add: unat_word_ariths)

lemma unat_plus: "unat x + unat y < 2 ^ 64 \<Longrightarrow> unat (x + y) = unat x + unat y" for x y :: "64 word"
  by (simp add: unat_word_ariths)

lemma word_eq_of_nat: "unat w = n \<Longrightarrow> w = of_nat n" for w :: "64 word"
  by auto

lemma half_product_less:
  assumes "a < 2 ^ 32" "b < (2 :: nat) ^ 32"
  shows "a * b < 2 ^ 64"
proof -
  have "a * b < 2 ^ 32 * 2 ^ 32" using assms by (intro mult_strict_mono) auto
  then show ?thesis by simp
qed

text \<open>The product of two 64-bit numbers from four products of halves, without the lowest part.\<close>

lemma product_of_halves:
  fixes a b c d W H :: nat
  assumes W: "0 < W"
  shows "((b * W + a) * (d * W + c) + H * W) div (W * W) =
    b * d + (b * c) div W + (a * d) div W + ((a * c) div W + (a * d) mod W + (b * c) mod W + H) div W"
proof -
  define q0 r0 where "q0 = (a * c) div W" and "r0 = (a * c) mod W"
  define q1 r1 where "q1 = (a * d) div W" and "r1 = (a * d) mod W"
  define q2 r2 where "q2 = (b * c) div W" and "r2 = (b * c) mod W"
  note qr = q0_def r0_def q1_def r1_def q2_def r2_def
  have parts: "a * c = q0 * W + r0" "a * d = q1 * W + r1" "b * c = q2 * W + r2" unfolding qr by simp_all
  have r0: "r0 < W" using W by (simp add: r0_def)
  have "(b * W + a) * (d * W + c) + H * W = b * d * (W * W) + (a * d) * W + (b * c) * W + a * c + H * W"
    by (simp add: algebra_simps)
  also have "\<dots> = (b * d + q2 + q1) * (W * W) + ((q0 + r1 + r2 + H) * W + r0)"
    unfolding parts by (simp add: algebra_simps)
  finally have eq: "(b * W + a) * (d * W + c) + H * W =
    (b * d + q2 + q1) * (W * W) + ((q0 + r1 + r2 + H) * W + r0)" .
  have "((q0 + r1 + r2 + H) * W + r0) div (W * W) = ((q0 + r1 + r2 + H) * W + r0) div W div W"
    by (simp add: div_mult2_eq)
  also have "\<dots> = (q0 + r1 + r2 + H) div W" using W r0 by simp
  finally show ?thesis unfolding eq qr [symmetric] using W by simp
qed

lemma diyfp_mul_value:
  "unat (fp_f (diyfp_mul x y)) = (unat (fp_f x) * unat (fp_f y) + 2 ^ 63) div 2 ^ 64"
proof -
  define U V where "U = unat (fp_f x)" and "V = unat (fp_f y)"
  define a b c d where "a = U mod 2 ^ 32" and "b = U div 2 ^ 32" and "c = V mod 2 ^ 32" and "d = V div 2 ^ 32"
  note abcd = a_def b_def c_def d_def
  have UV: "U = b * 2 ^ 32 + a" "V = d * 2 ^ 32 + c" "U < 2 ^ 64" "V < 2 ^ 64"
    unfolding abcd using unat_less_64 [of "fp_f x"] unat_less_64 [of "fp_f y"] by (simp_all add: U_def V_def)
  then have lt: "a < 2 ^ 32" "b < 2 ^ 32" "c < 2 ^ 32" "d < 2 ^ 32" unfolding abcd by simp_all
  let ?u_lo = "fp_f x AND 0xFFFFFFFF" and ?u_hi = "drop_bit 32 (fp_f x)"
  let ?v_lo = "fp_f y AND 0xFFFFFFFF" and ?v_hi = "drop_bit 32 (fp_f y)"
  have h: "unat ?u_lo = a" "unat ?u_hi = b" "unat ?v_lo = c" "unat ?v_hi = d"
    by (simp_all add: unat_and_low unat_drop_bit abcd U_def V_def)
  have p: "unat (?u_lo * ?v_lo) = a * c" "unat (?u_lo * ?v_hi) = a * d" "unat (?u_hi * ?v_lo) = b * c"
    "unat (?u_hi * ?v_hi) = b * d"
    using lt by (simp_all only: unat_times h half_product_less)
  let ?Q = "drop_bit 32 (?u_lo * ?v_lo) + (?u_lo * ?v_hi AND 0xFFFFFFFF) + (?u_hi * ?v_lo AND 0xFFFFFFFF)
      + push_bit 31 1"
  let ?q0 = "(a * c) div 2 ^ 32" and ?r1 = "(a * d) mod 2 ^ 32" and ?r2 = "(b * c) mod 2 ^ 32"
  have "?q0 < 2 ^ 32" using half_product_less [OF lt(1,3)] by (simp add: less_mult_imp_div_less)
  moreover have "?r1 < 2 ^ 32" "?r2 < 2 ^ 32" by simp_all
  ultimately have Q: "unat ?Q = ?q0 + ?r1 + ?r2 + 2 ^ 31"
    by (simp add: unat_plus unat_drop_bit unat_and_low p push_bit_eq_mult)
  have "fp_f (diyfp_mul x y) =
      ?u_hi * ?v_hi + drop_bit 32 (?u_hi * ?v_lo) + drop_bit 32 (?u_lo * ?v_hi) + drop_bit 32 ?Q"
    by (simp add: diyfp_mul_def Let_def)
  also have "\<dots> = of_nat (b * d + (b * c) div 2 ^ 32 + (a * d) div 2 ^ 32 + (?q0 + ?r1 + ?r2 + 2 ^ 31) div 2 ^ 32)"
    unfolding of_nat_add
    by (intro arg_cong2 [where f = "(+)"] word_eq_of_nat) (simp_all only: unat_drop_bit p Q)
  also have "b * d + (b * c) div 2 ^ 32 + (a * d) div 2 ^ 32 + (?q0 + ?r1 + ?r2 + 2 ^ 31) div 2 ^ 32 =
      (U * V + 2 ^ 63) div 2 ^ 64"
    using product_of_halves [of "2 ^ 32" b a d c "2 ^ 31"] UV(1,2) by simp
  finally have f: "fp_f (diyfp_mul x y) = of_nat ((U * V + 2 ^ 63) div 2 ^ 64)" .
  have "U \<le> 2 ^ 64 - 1" "V \<le> 2 ^ 64 - 1" using UV(3,4) by simp_all
  then have "U * V \<le> (2 ^ 64 - 1) * (2 ^ 64 - 1)" by (rule mult_le_mono)
  then have "(U * V + 2 ^ 63) div 2 ^ 64 < 2 ^ 64" by (intro less_mult_imp_div_less) simp
  then show ?thesis using f by (simp add: unat_of_nat U_def V_def)
qed

section \<open>Normalization\<close>

lemma drop_bit_63: "drop_bit 63 f = 0 \<longleftrightarrow> unat f < 2 ^ 63" for f :: "64 word"
proof -
  have "drop_bit 63 f = 0 \<longleftrightarrow> unat (drop_bit 63 f) = 0" by (simp only: unat_eq_zero)
  also have "\<dots> \<longleftrightarrow> unat f < 2 ^ 63" unfolding unat_drop_bit by (simp add: div_eq_0_iff)
  finally show ?thesis .
qed

lemma unat_push_bit: "unat f * 2 ^ k < 2 ^ 64 \<Longrightarrow> unat (push_bit k f) = unat f * 2 ^ k" for f :: "64 word"
  by (simp add: unsigned_push_bit_eq push_bit_eq_mult [of k "unat f"] take_bit_eq_mod [of 64 "unat f * 2 ^ k"])

lemma diyfp_normalize_fuel:
  assumes "fp_f x \<noteq> 0" "2 ^ 64 \<le> unat (fp_f x) * 2 ^ fuel"
  shows "\<exists>k. diyfp_normalize fuel x = Some \<lparr>fp_f = push_bit k (fp_f x), fp_e = fp_e x - int k\<rparr> \<and>
    2 ^ 63 \<le> unat (fp_f x) * 2 ^ k \<and> unat (fp_f x) * 2 ^ k < 2 ^ 64"
  using assms
proof (induction fuel arbitrary: x)
  case 0
  then show ?case using unat_less_64 [of "fp_f x"] by simp
next
  case (Suc fuel)
  show ?case
  proof (cases "drop_bit 63 (fp_f x) = 0")
    case True
    let ?x = "\<lparr>fp_f = push_bit 1 (fp_f x), fp_e = fp_e x - 1\<rparr>"
    have lt: "unat (fp_f x) < 2 ^ 63" using True by (simp add: drop_bit_63)
    then have u: "unat (fp_f ?x) = 2 * unat (fp_f x)" using unat_push_bit [of "fp_f x" 1] by simp
    then have "fp_f ?x \<noteq> 0" using Suc.prems(1) by (metis mult_eq_0_iff unat_eq_zero zero_neq_numeral)
    moreover have "2 ^ 64 \<le> unat (fp_f ?x) * 2 ^ fuel" using Suc.prems(2) u by simp
    ultimately obtain k where k: "diyfp_normalize fuel ?x = Some \<lparr>fp_f = push_bit k (fp_f ?x), fp_e = fp_e ?x - int k\<rparr>"
      "2 ^ 63 \<le> unat (fp_f ?x) * 2 ^ k" "unat (fp_f ?x) * 2 ^ k < 2 ^ 64"
      using Suc.IH [of ?x] by blast
    then show ?thesis
      using True u by (intro exI [of _ "Suc k"]) (simp add: ac_simps)
  next
    case False
    then show ?thesis
      using Suc.prems unat_less_64 [of "fp_f x"]
      by (intro exI [of _ 0]) (simp add: drop_bit_63 not_less)
  qed
qed

text \<open>The value \<open>f * 2 ^ e\<close> is kept: the significand is multiplied by \<open>2 ^ k\<close> and the exponent lowered
  by \<open>k\<close>.\<close>

lemma diyfp_normalize_ends:
  assumes "fp_f x \<noteq> 0"
  obtains y k where "diyfp_normalize 65 x = Some y" "unat (fp_f y) = unat (fp_f x) * 2 ^ k"
    "fp_e y = fp_e x - int k" "2 ^ 63 \<le> unat (fp_f y)"
proof -
  have "1 \<le> unat (fp_f x)" using assms by (simp add: Suc_le_eq unat_gt_0)
  then have "1 * 2 ^ 65 \<le> unat (fp_f x) * (2 ^ 65 :: nat)" by (rule mult_le_mono1)
  then have "2 ^ 64 \<le> unat (fp_f x) * 2 ^ 65" by simp
  from diyfp_normalize_fuel [OF assms this] obtain k where
    "diyfp_normalize 65 x = Some \<lparr>fp_f = push_bit k (fp_f x), fp_e = fp_e x - int k\<rparr>"
    "2 ^ 63 \<le> unat (fp_f x) * 2 ^ k" "unat (fp_f x) * 2 ^ k < 2 ^ 64" by blast
  moreover from this(3) have "unat (push_bit k (fp_f x)) = unat (fp_f x) * 2 ^ k" by (rule unat_push_bit)
  ultimately show thesis using that by force
qed

section \<open>Cached powers\<close>

definition cached_ok :: "64 word \<times> int \<times> int \<Rightarrow> bool" where
  "cached_ok c = (case c of (cf, ce, ck) \<Rightarrow>
     bit cf 63 \<and> ck * 2 ^ 18 < 78913 * (64 + ce) \<and> 78913 * (34 + ce) < (ck - 8) * 2 ^ 18)"

lemma kCachedPowers_ok: "list_all cached_ok kCachedPowers"
  by (simp add: kCachedPowers_def cached_ok_def)

lemma kCachedPowers_exponents: "map (snd \<circ> snd) kCachedPowers = map (\<lambda>i. 8 * int i - 300) [0..<79]"
  by (simp add: kCachedPowers_def upt_rec)

lemma kCachedPowers_nth:
  assumes "i < 79"
  shows "cached_ok (kCachedPowers ! i)" "snd (snd (kCachedPowers ! i)) = 8 * int i - 300"
proof -
  have len: "length kCachedPowers = 79" by (simp add: kCachedPowers_def)
  then show "cached_ok (kCachedPowers ! i)"
    using kCachedPowers_ok assms by (simp add: list_all_length)
  have "map (snd \<circ> snd) kCachedPowers ! i = map (\<lambda>i. 8 * int i - 300) [0..<79] ! i"
    by (simp only: kCachedPowers_exponents)
  then show "snd (snd (kCachedPowers ! i)) = 8 * int i - 300" using assms len by simp
qed

lemma div_bounds:
  fixes a b :: int
  assumes "0 < b"
  shows "a div b * b \<le> a" "a < (a div b + 1) * b"
proof -
  have m: "0 \<le> a mod b" "a mod b < b" "a div b * b + a mod b = a"
    using assms by (simp_all only: pos_mod_sign pos_mod_bound div_mult_mod_eq)
  from m(1,3) show "a div b * b \<le> a" by linarith
  from m(2,3) show "a < (a div b + 1) * b" unfolding distrib_right by linarith
qed

lemma trunc_div_bounds:
  assumes "0 < b"
  shows "(trunc_div a b + (if a > 0 then 1 else 0) - 1) * b \<le> a" "a \<le> (trunc_div a b + (if a > 0 then 1 else 0)) * b"
proof -
  have "(- a) div b * b \<le> - a" "- a < ((- a) div b + 1) * b" "a div b * b \<le> a" "a < (a div b + 1) * b"
    using div_bounds [OF assms] by blast+
  then show "(trunc_div a b + (if a > 0 then 1 else 0) - 1) * b \<le> a" "a \<le> (trunc_div a b + (if a > 0 then 1 else 0)) * b"
    by (auto simp: trunc_div_def algebra_simps)
qed

text \<open>For every binary exponent that a double can have after normalization.\<close>

lemma cached_power_range:
  assumes "- 1137 \<le> e" "e \<le> 960"
  shows "0 \<le> cached_power_index e" "cached_power_index e < 79"
    "kAlpha \<le> cp_e (get_cached_power_for_binary_exponent e) + e + 64"
    "cp_e (get_cached_power_for_binary_exponent e) + e + 64 \<le> kGamma"
    "bit (cp_f (get_cached_power_for_binary_exponent e)) 63"
proof -
  define f k where "f = kAlpha - e - 1" and
    "k = trunc_div (f * 78913) (2 ^ 18) + (if f > 0 then 1 else 0)"
  have f: "f = - 61 - e" by (simp add: f_def kAlpha_def)
  have k: "(k - 1) * 2 ^ 18 \<le> f * 78913" "f * 78913 \<le> k * 2 ^ 18"
    using trunc_div_bounds [of "2 ^ 18" "f * 78913"] by (simp_all add: k_def zero_less_mult_iff)
  have k': "262144 * k - 262144 \<le> 78913 * (- 61 - e)" "78913 * (- 61 - e) \<le> 262144 * k" using k f by simp_all
  have kb: "- 307 \<le> k" "k \<le> 324"
  proof -
    have "- 80570173 \<le> 262144 * k" using k'(2) assms(2) by simp
    then show "- 307 \<le> k" by simp
    have "262144 * k \<le> 85172532" using k'(1) assms(1) by simp
    then show "k \<le> 324" by simp
  qed
  have idx: "cached_power_index e = (307 + k) div 8"
  proof -
    have "cached_power_index e = trunc_div (300 + k + (8 - 1)) 8"
      unfolding cached_power_index_def Let_def f_def [symmetric] k_def [symmetric] ..
    then show ?thesis using kb(1) by (simp add: trunc_div_def add.commute)
  qed
  then show i: "0 \<le> cached_power_index e" "cached_power_index e < 79" using kb by simp_all
  define i where "i = nat (cached_power_index e)"
  have i79: "i < 79" "int i = (307 + k) div 8" using i idx by (auto simp: i_def)
  obtain cf ce ck where c: "kCachedPowers ! i = (cf, ce, ck)" by (cases "kCachedPowers ! i") auto
  have ok: "cached_ok (cf, ce, ck)" "ck = 8 * int i - 300" using kCachedPowers_nth [OF i79(1)] c by simp_all
  have ck: "ck - 7 \<le> k" "k \<le> ck" using ok(2) i79(2) by linarith+
  have g: "get_cached_power_for_binary_exponent e = \<lparr>cp_f = cf, cp_e = ce, cp_k = ck\<rparr>"
    using c by (simp add: get_cached_power_for_binary_exponent_def i_def)
  have "78913 * f < 78913 * (64 + ce)" "78913 * (34 + ce) < 78913 * f"
    using ok(1) ck k by (auto simp: cached_ok_def)
  then have "f < 64 + ce" "34 + ce < f" by simp_all
  then show "kAlpha \<le> cp_e (get_cached_power_for_binary_exponent e) + e + 64"
    "cp_e (get_cached_power_for_binary_exponent e) + e + 64 \<le> kGamma"
    using f by (simp_all add: g kAlpha_def kGamma_def)
  show "bit (cp_f (get_cached_power_for_binary_exponent e)) 63" using ok(1) by (simp add: g cached_ok_def)
qed

section \<open>Boundaries\<close>

lemma find_largest_pow10_correct:
  assumes "find_largest_pow10 n = (k, p)"
  shows "1 \<le> k" "k \<le> 10" "unat p = 10 ^ (k - 1)" "n \<noteq> 0 \<Longrightarrow> unat p \<le> unat n" "unat n < 10 ^ k"
proof -
  have n: "unat n < 2 ^ 32" using unsigned_less [of n, where 'a = nat] by simp
  show "1 \<le> k" "k \<le> 10" "unat p = 10 ^ (k - 1)"
    using assms by (auto simp: find_largest_pow10_def split: if_splits)
  show "unat p \<le> unat n" if "n \<noteq> 0"
    using assms that unat_gt_0 [of n] by (auto simp: find_largest_pow10_def word_le_nat_alt split: if_splits)
  show "unat n < 10 ^ k"
    using assms n by (auto simp: find_largest_pow10_def word_le_nat_alt split: if_splits)
qed

text \<open>A positive finite double.\<close>

definition positive_double :: "64 word \<Rightarrow> bool" where
  "positive_double x \<longleftrightarrow> 0 < unat x \<and> unat x < 0x7FF0000000000000"

lemma unat_and_fraction: "unat (x AND (2 ^ 52 - 1)) = unat x mod 2 ^ 52" for x :: "64 word"
proof -
  have "x AND (2 ^ 52 - 1) = take_bit 52 x" by (simp add: take_bit_eq_mask mask_eq_exp_minus_1)
  then show ?thesis by (simp add: unsigned_take_bit_eq take_bit_eq_mod [of 52 "unat x"])
qed

text \<open>The significand and the exponent of a double, before the hidden bit is shifted out.\<close>

definition double_fe :: "64 word \<Rightarrow> diyfp" where
  "double_fe bits =
     (let E = drop_bit 52 bits; F = bits AND (2 ^ 52 - 1)
      in if E = 0 then \<lparr>fp_f = F, fp_e = - 1074\<rparr> else \<lparr>fp_f = F + 2 ^ 52, fp_e = uint E - 1075\<rparr>)"

lemma double_fe_bounds:
  assumes "positive_double x"
  shows "1 \<le> unat (fp_f (double_fe x))" "unat (fp_f (double_fe x)) < 2 ^ 53"
    "- 1074 \<le> fp_e (double_fe x)" "fp_e (double_fe x) \<le> 971"
proof -
  let ?E = "drop_bit 52 x" and ?F = "x AND (2 ^ 52 - 1)"
  have E: "unat ?E = unat x div 2 ^ 52" and F: "unat ?F = unat x mod 2 ^ 52"
    by (simp_all only: unat_drop_bit unat_and_fraction)
  have F_lt: "unat ?F < 2 ^ 52" unfolding F by simp
  have plus: "unat (?F + 2 ^ 52) = unat ?F + 2 ^ 52" using F_lt by (subst unat_plus) simp_all
  have "unat ?E < 2047" unfolding E
    using assms by (intro less_mult_imp_div_less) (simp add: positive_double_def)
  then have E_lt: "unat ?E \<le> 2046" by simp
  have E0: "?E = 0 \<longleftrightarrow> unat ?E = 0" by (simp only: unat_eq_zero)
  have x: "unat x = unat ?E * 2 ^ 52 + unat ?F" unfolding E F by simp
  have uint_E: "?E \<noteq> 0 \<Longrightarrow> 1 \<le> uint ?E" "uint ?E \<le> 2046"
    using E_lt E0 uint_nat [of ?E] by linarith+
  show "1 \<le> unat (fp_f (double_fe x))"
    using assms x plus E0 by (auto simp: double_fe_def Let_def positive_double_def)
  show "unat (fp_f (double_fe x)) < 2 ^ 53" using F_lt plus by (auto simp: double_fe_def Let_def)
  show "- 1074 \<le> fp_e (double_fe x)" "fp_e (double_fe x) \<le> 971"
    using uint_E by (auto simp: double_fe_def Let_def)
qed

lemma boundary_gaps:
  fixes f p :: nat
  assumes "1 \<le> f"
  shows "(4 * f - 1) * p + 3 * p = (2 * f + 1) * (2 * p)" "(2 * f - 1) * p + 2 * p = (2 * f + 1) * p"
proof -
  obtain g where "f = Suc g" using assms by (cases f) auto
  then show "(4 * f - 1) * p + 3 * p = (2 * f + 1) * (2 * p)" "(2 * f - 1) * p + 2 * p = (2 * f + 1) * p"
    by (simp_all add: algebra_simps)
qed

text \<open>\<open>compute_boundaries\<close> returns for every positive finite double; the two boundaries share an
  exponent in the range of the cached powers and are far enough apart.\<close>

lemma compute_boundaries_ends:
  assumes "positive_double x"
  obtains b where "compute_boundaries x = Some b" "fp_e (bminus b) = fp_e (bplus b)"
    "- 1137 \<le> fp_e (bplus b)" "fp_e (bplus b) \<le> 960"
    "2 ^ 63 \<le> unat (fp_f (bplus b))" "unat (fp_f (bminus b)) + 1536 \<le> unat (fp_f (bplus b))"
proof -
  let ?v = "double_fe x" and ?E = "drop_bit 52 x" and ?F = "x AND (2 ^ 52 - 1)"
  define f where "f = unat (fp_f ?v)"
  note bounds = double_fe_bounds [OF assms, folded f_def]
  let ?mp = "\<lparr>fp_f = 2 * fp_f ?v + 1, fp_e = fp_e ?v - 1\<rparr>"
  let ?closer = "?F = 0 \<and> ?E > 1"
  let ?mm = "if ?closer then \<lparr>fp_f = 4 * fp_f ?v - 1, fp_e = fp_e ?v - 2\<rparr>
             else \<lparr>fp_f = 2 * fp_f ?v - 1, fp_e = fp_e ?v - 1\<rparr>"
  have words: "unat (2 * fp_f ?v) = 2 * f" "unat (4 * fp_f ?v) = 4 * f"
    using bounds(2) unat_times [of 2 "fp_f ?v"] unat_times [of 4 "fp_f ?v"] by (simp_all add: f_def)
  then have mp: "unat (2 * fp_f ?v + 1) = 2 * f + 1" using bounds(2) by (subst unat_plus) simp_all
  have mm: "unat (2 * fp_f ?v - 1) = 2 * f - 1" "unat (4 * fp_f ?v - 1) = 4 * f - 1"
    using bounds(1) words by (subst unat_sub; simp add: word_le_nat_alt)+
  have "fp_f ?mp \<noteq> 0" using mp by (metis diyfp.select_convs(1) add_is_0 one_neq_zero unat_0)
  then obtain wp k where wp: "diyfp_normalize 65 ?mp = Some wp" "unat (fp_f wp) = (2 * f + 1) * 2 ^ k"
    "fp_e wp = fp_e ?v - 1 - int k" "2 ^ 63 \<le> unat (fp_f wp)"
    using diyfp_normalize_ends [of ?mp] mp by auto
  have "fp_f ?v \<noteq> 0" using bounds(1) by (auto simp: f_def)
  then obtain w where w: "diyfp_normalize 65 ?v = Some w" using diyfp_normalize_ends [of ?v] by auto
  have cb: "compute_boundaries x =
      Some \<lparr>bw = w, bminus = diyfp_normalize_to ?mm (fp_e wp), bplus = wp\<rparr>"
    using wp(1) w by (simp add: compute_boundaries_def double_fe_def Let_def)
  have lt: "(2 * f + 1) * 2 ^ k < 2 ^ 64" using unat_less_64 [of "fp_f wp"] wp(2) by simp
  have k10: "10 \<le> k"
  proof (rule ccontr)
    assume "\<not> 10 \<le> k"
    then have "(2 :: nat) ^ k \<le> 2 ^ 9" by (intro power_increasing) auto
    then have "(2 * f + 1) * 2 ^ k \<le> (2 ^ 54 - 1) * 2 ^ 9" using bounds(2) by (intro mult_le_mono) simp_all
    then show False using wp(2,4) by simp
  qed
  have k62: "k \<le> 62"
  proof (rule ccontr)
    assume "\<not> k \<le> 62"
    then have "(2 :: nat) ^ 63 \<le> 2 ^ k" by (intro power_increasing) auto
    then have "3 * 2 ^ 63 \<le> (2 * f + 1) * 2 ^ k" using bounds(1) by (intro mult_le_mono) simp_all
    then show False using lt by simp
  qed
  obtain k' where k': "k = Suc k'" using k10 by (cases k) auto
  have p9: "(512 :: nat) \<le> 2 ^ k'" using power_increasing [of 9 k' "2 :: nat"] k10 k' by simp
  have "unat (fp_f (diyfp_normalize_to ?mm (fp_e wp))) + 1536 \<le> unat (fp_f wp)"
  proof (cases ?closer)
    case True
    have eq: "(4 * f - 1) * 2 ^ k' + 3 * 2 ^ k' = (2 * f + 1) * 2 ^ k"
      using boundary_gaps(1) [OF bounds(1), of "2 ^ k'"] by (simp add: k')
    then have "unat (push_bit k' (4 * fp_f ?v - 1)) = (4 * f - 1) * 2 ^ k'"
      using lt mm(2) by (subst unat_push_bit) simp_all
    then show ?thesis using True wp(2,3) eq p9 by (simp add: diyfp_normalize_to_def k')
  next
    case False
    have "(2 * f - 1) * 2 ^ k + 2 * 2 ^ k = (2 * f + 1) * 2 ^ k"
      by (rule boundary_gaps(2) [OF bounds(1)])
    moreover from this have "unat (push_bit k (2 * fp_f ?v - 1)) = (2 * f - 1) * 2 ^ k"
      using lt mm(1) by (subst unat_push_bit) simp_all
    moreover have "1024 \<le> (2 :: nat) ^ k" using p9 k' by simp
    ultimately show ?thesis using False wp(2,3) by (auto simp: diyfp_normalize_to_def)
  qed
  then show thesis
    using bounds wp(3,4) k10 k62 by (intro that [OF cb]) (auto simp: diyfp_normalize_to_def Let_def)
qed

section \<open>Digits\<close>

lemma length_grisu2_round: "buf \<noteq> [] \<Longrightarrow> length (grisu2_round buf dist delta rest ten_k) = length buf"
proof (induction buf dist delta rest ten_k rule: grisu2_round.induct)
  case (1 buf dist delta rest ten_k)
  have "length (dec_last buf) = length buf" "dec_last buf \<noteq> []" using 1(2) by (simp_all add: dec_last_def)
  with 1 show ?case by (subst grisu2_round.simps) simp
qed

lemma integral_digits_length:
  "integral_digits n buf p1 pow10 p2 delta dist one_e = Inl (buf', m) \<Longrightarrow> length buf' \<le> length buf + n"
  "integral_digits n buf p1 pow10 p2 delta dist one_e = Inr buf' \<Longrightarrow> length buf' = length buf + n"
proof (induction n arbitrary: buf p1 pow10)
  case (Suc n)
  { case 1
    with Suc.IH(1) [of "buf @ [to_char_type (48 + uint (p1 div pow10))]"] show ?case
      by (fastforce simp: Let_def length_grisu2_round split: if_splits) }
  { case 2
    with Suc.IH(2) [of "buf @ [to_char_type (48 + uint (p1 div pow10))]"] show ?case
      by (fastforce simp: Let_def split: if_splits) }
qed simp_all

text \<open>When the integral part does not give enough digits, the fraction is larger than \<^verbatim>\<open>delta\<close>.\<close>

lemma integral_digits_fraction:
  assumes "integral_digits (Suc n) buf p1 pow10 p2 delta dist one_e = Inr buf'" "unat pow10 = 10 ^ n"
  shows "delta < p2"
  using assms
proof (induction n arbitrary: buf p1 pow10)
  case 0
  then have "pow10 = 1" by (metis power_0 unat_1 word_unat_eq_iff)
  with 0 show ?case by (simp add: Let_def not_le split: if_splits)
next
  case (Suc n)
  have "unat (pow10 div 10) = 10 ^ n" using Suc.prems(2) by (simp add: unat_div_distrib)
  moreover have "integral_digits (Suc n) (buf @ [to_char_type (48 + uint (p1 div pow10))]) (p1 mod pow10)
      (pow10 div 10) p2 delta dist one_e = Inr buf'"
    using Suc.prems(1) unfolding integral_digits.simps(2) [of "Suc n"] Let_def
    by (auto simp del: integral_digits.simps split: if_splits)
  ultimately show ?case using Suc.IH by blast
qed

lemma unat_and_exp:
  fixes x :: "64 word"
  assumes "k < 64"
  shows "unat (x AND (push_bit k 1 - 1)) = unat x mod 2 ^ k"
proof -
  have "push_bit k (1 :: 64 word) - 1 = mask k" by (simp add: mask_eq_exp_minus_1 push_bit_eq_mult)
  then have "x AND (push_bit k 1 - 1) = take_bit k x" by (simp add: take_bit_eq_mask)
  then show ?thesis by (simp add: unsigned_take_bit_eq take_bit_eq_mod [of k "unat x"])
qed

lemma fraction_digits_ends:
  assumes k: "k = nat (- one_e)" "k \<le> 60" and d: "delta < p2" "unat p2 < 2 ^ k" "2 ^ 60 \<le> unat delta * 10 ^ fuel"
  shows "\<exists>buf' m'. fraction_digits fuel buf m p2 delta dist one_e = Some (buf', m') \<and>
    length buf' \<le> length buf + fuel"
  using d
proof (induction fuel arbitrary: buf m p2 delta dist)
  case 0
  have "(2 :: nat) ^ k \<le> 2 ^ 60" using k(2) by (intro power_increasing) simp_all
  with 0 show ?case by (simp add: word_less_nat_alt)
next
  case (Suc fuel)
  have "(2 :: nat) ^ k \<le> 2 ^ 60" using k(2) by (intro power_increasing) simp_all
  then have lt: "unat p2 < 2 ^ 60" "unat delta < 2 ^ 60" using Suc.prems(1,2) by (simp_all add: word_less_nat_alt)
  let ?r = "p2 * 10 AND (push_bit k 1 - 1)" and ?delta = "delta * 10"
  have r: "unat ?r < 2 ^ k" using unat_and_exp [of k "p2 * 10"] k(2) by simp
  have delta: "unat ?delta = unat delta * 10" using lt(2) unat_times [of delta 10] by simp
  show ?case
  proof (cases "?r \<le> ?delta")
    case True
    then show ?thesis using k(1) by (simp add: Let_def length_grisu2_round)
  next
    case False
    then have "?delta < ?r" by simp
    moreover have "2 ^ 60 \<le> unat ?delta * 10 ^ fuel" using Suc.prems(3) delta by simp
    ultimately obtain buf' m' where
      "fraction_digits fuel (buf @ [to_char_type (48 + uint (drop_bit k (p2 * 10)))]) (m + 1) ?r ?delta (dist * 10) one_e =
         Some (buf', m')" "length buf' \<le> length (buf @ [to_char_type (48 + uint (drop_bit k (p2 * 10)))]) + fuel"
      using Suc.IH [OF _ r] by blast
    then show ?thesis using False k(1) by (simp add: Let_def)
  qed
qed

lemma grisu2_digit_gen_ends:
  assumes e: "- 60 \<le> fp_e M_plus" "fp_e M_plus \<le> - 32" and d: "fp_f M_minus < fp_f M_plus"
  shows "\<exists>buf m. grisu2_digit_gen decimal_exponent M_minus w M_plus = Some (buf, m) \<and> length buf \<le> 30"
proof -
  let ?k = "nat (- fp_e M_plus)" and ?delta = "fp_f M_plus - fp_f M_minus" and ?dist = "fp_f M_plus - fp_f w"
  let ?p1 = "ucast (drop_bit ?k (fp_f M_plus)) :: 32 word" and ?p2 = "fp_f M_plus AND (push_bit ?k 1 - 1)"
  obtain k pow10 where kp: "find_largest_pow10 ?p1 = (k, pow10)" by (cases "find_largest_pow10 ?p1") auto
  note pow = find_largest_pow10_correct [OF kp]
  obtain n where n: "k = Suc n" using pow(1) by (cases k) auto
  have delta: "1 \<le> unat ?delta" using d by (simp add: unat_sub word_le_nat_alt word_less_nat_alt)
  show ?thesis
  proof (cases "integral_digits k [] ?p1 pow10 ?p2 ?delta ?dist (fp_e M_plus)")
    case (Inl r)
    then show ?thesis
      using integral_digits_length(1) [of k "[]"] pow(2) kp
      by (cases r) (fastforce simp: grisu2_digit_gen_def diyfp_sub_def Let_def)
  next
    case (Inr buf)
    have "?delta < ?p2" using integral_digits_fraction [of n "[]" ?p1 pow10] Inr pow(3) n by simp
    moreover have "unat ?p2 < 2 ^ ?k" using unat_and_exp [of ?k "fp_f M_plus"] e by simp
    moreover have "2 ^ 60 \<le> unat ?delta * 10 ^ 20"
      using mult_le_mono1 [OF delta, of "10 ^ 20"] by simp
    moreover have "?k \<le> 60" using e by linarith
    ultimately obtain buf' m' where
      "fraction_digits 20 buf 0 ?p2 ?delta ?dist (fp_e M_plus) = Some (buf', m')" "length buf' \<le> length buf + 20"
      using fraction_digits_ends [of ?k "fp_e M_plus" ?delta ?p2 20 buf 0 ?dist] e by auto
    then show ?thesis
      using integral_digits_length(2) [OF Inr] pow(2) kp Inr
      by (simp add: grisu2_digit_gen_def diyfp_sub_def Let_def)
  qed
qed

lemma unat_ge_top_bit: "bit c 63 \<Longrightarrow> 2 ^ 63 \<le> unat c" for c :: "64 word"
proof (rule ccontr)
  assume c: "bit c 63" and "\<not> 2 ^ 63 \<le> unat c"
  then have "drop_bit 63 c = 0" by (simp add: drop_bit_63)
  then have "\<not> bit (drop_bit 63 c) 0" by simp
  with c show False by (simp add: bit_drop_bit_eq)
qed

lemma diyfp_mul_gap:
  assumes "unat (fp_f a) + 1536 \<le> unat (fp_f b)" "2 ^ 63 \<le> unat (fp_f c)"
  shows "unat (fp_f (diyfp_mul a c)) + 768 \<le> unat (fp_f (diyfp_mul b c))"
proof -
  let ?a = "unat (fp_f a)" and ?b = "unat (fp_f b)" and ?c = "unat (fp_f c)"
  have "?a * ?c + 768 * 2 ^ 64 \<le> ?a * ?c + 1536 * ?c" using assms(2) by simp
  also have "\<dots> = (?a + 1536) * ?c" by (simp add: algebra_simps)
  also have "\<dots> \<le> ?b * ?c" using assms(1) by (rule mult_le_mono1)
  finally have "(?a * ?c + 2 ^ 63 + 768 * 2 ^ 64) div 2 ^ 64 \<le> (?b * ?c + 2 ^ 63) div 2 ^ 64"
    by (intro div_le_mono) simp
  moreover have "(?a * ?c + 2 ^ 63 + 768 * 2 ^ 64) div 2 ^ 64 = (?a * ?c + 2 ^ 63) div 2 ^ 64 + 768"
    by (subst div_mult_self1) simp_all
  ultimately show ?thesis by (simp only: diyfp_mul_value)
qed

lemma grisu2_ends:
  assumes "positive_double x"
  shows "\<exists>buf m. grisu2 x = Some (buf, m) \<and> length buf \<le> 30"
proof -
  obtain b where b: "compute_boundaries x = Some b" "fp_e (bminus b) = fp_e (bplus b)"
    "- 1137 \<le> fp_e (bplus b)" "fp_e (bplus b) \<le> 960"
    "unat (fp_f (bminus b)) + 1536 \<le> unat (fp_f (bplus b))"
    using compute_boundaries_ends [OF assms] by metis
  let ?cached = "get_cached_power_for_binary_exponent (fp_e (bplus b))"
  let ?c = "\<lparr>fp_f = cp_f ?cached, fp_e = cp_e ?cached\<rparr>"
  note range = cached_power_range [OF b(3,4)]
  let ?wm = "diyfp_mul (bminus b) ?c" and ?wp = "diyfp_mul (bplus b) ?c"
  have gap: "unat (fp_f ?wm) + 768 \<le> unat (fp_f ?wp)"
    using unat_ge_top_bit [OF range(5)] b(5) by (intro diyfp_mul_gap) simp_all
  have "unat (fp_f ?wm + 1) = unat (fp_f ?wm) + 1"
    using gap unat_less_64 [of "fp_f ?wp"] unat_plus [of "fp_f ?wm" 1] by simp
  moreover have "unat (fp_f ?wp - 1) = unat (fp_f ?wp) - 1"
    using gap by (subst unat_sub) (simp_all add: word_le_nat_alt)
  ultimately have "fp_f ?wm + 1 < fp_f ?wp - 1" using gap by (simp add: word_less_nat_alt)
  moreover have "fp_e ?wp = fp_e (bplus b) + cp_e ?cached + 64" by (simp add: diyfp_mul_def Let_def)
  then have "- 60 \<le> fp_e ?wp" "fp_e ?wp \<le> - 32" using range(3,4) by (simp_all add: kAlpha_def kGamma_def)
  ultimately show ?thesis
    using grisu2_digit_gen_ends [of "\<lparr>fp_f = fp_f ?wp - 1, fp_e = fp_e ?wp\<rparr>"
        "\<lparr>fp_f = fp_f ?wm + 1, fp_e = fp_e ?wm\<rparr>"] b(1)
    by (simp add: grisu2_def grisu2_scaled_def Let_def)
qed

section \<open>Formatting\<close>

lemma length_append_exponent: "length (append_exponent ex) \<le> 4"
  by (simp add: append_exponent_def Let_def)

lemma length_format_buffer: "length (format_buffer buf ex (- 4) 15) \<le> length buf + 17"
  using length_append_exponent [of "int (length buf) + ex - 1"] by (auto simp: format_buffer_def Let_def)

lemma isfinite_positive:
  assumes "isfinite x" "x AND 0x7FFFFFFFFFFFFFFF \<noteq> 0"
  shows "positive_double (x AND 0x7FFFFFFFFFFFFFFF)"
proof -
  let ?v = "x AND 0x7FFFFFFFFFFFFFFF"
  have v: "?v = take_bit 63 x" by (simp add: take_bit_eq_mask mask_eq_exp_minus_1)
  have "unat ?v < 2 ^ 63" unfolding v using take_bit_nat_less_exp [of 63 "unat x"] by (simp add: unsigned_take_bit_eq)
  have "unat ?v < 0x7FF0000000000000"
  proof (rule ccontr)
    assume ge: "\<not> unat ?v < 0x7FF0000000000000"
    have "unat (drop_bit 52 ?v) = 2047"
      unfolding unat_drop_bit using ge \<open>unat ?v < 2 ^ 63\<close> by (intro div_nat_eqI) simp_all
    then have "unat (drop_bit 52 ?v) = unat (mask 11 :: 64 word)" by (simp add: mask_eq_exp_minus_1)
    then have m: "drop_bit 52 ?v = mask 11" by (simp only: word_unat_eq_iff)
    have bits: "bit x n" if "52 \<le> n" "n < 63" for n
    proof -
      have "bit (drop_bit 52 ?v) (n - 52)" unfolding m using that by (simp add: bit_mask_iff; linarith)
      then show ?thesis using that by (simp add: v bit_drop_bit_eq bit_take_bit_iff)
    qed
    have inf: "double_inf = push_bit 52 (mask 11)" by (simp add: double_inf_def mask_eq_exp_minus_1 push_bit_eq_mult)
    have "bit double_inf n \<Longrightarrow> 52 \<le> n \<and> n < 63" for n
      unfolding inf by (auto simp: bit_push_bit_iff bit_mask_iff)
    then have "x AND double_inf = double_inf"
      by (intro bit_word_eqI) (auto simp: bit_and_iff intro: bits)
    with assms(1) show False by (simp add: isfinite_def)
  qed
  with assms(2) show ?thesis by (simp add: positive_double_def unat_gt_0)
qed

lemma to_chars_ends:
  assumes "isfinite x"
  shows "\<exists>s. to_chars x = Some s \<and> length s \<le> 64"
proof -
  let ?v = "if bit x 63 then x AND 0x7FFFFFFFFFFFFFFF else x"
  have v: "?v = x AND 0x7FFFFFFFFFFFFFFF"
  proof (cases "bit x 63")
    case False
    have "take_bit 63 x = x"
    proof (rule bit_word_eqI)
      fix n
      assume "n < LENGTH(64)"
      then have "n < 63 \<or> n = 63" by auto
      with False show "bit (take_bit 63 x) n \<longleftrightarrow> bit x n" by (auto simp: bit_take_bit_iff)
    qed
    then show ?thesis using False by (simp add: take_bit_eq_mask mask_eq_exp_minus_1)
  qed simp
  show ?thesis
  proof (cases "?v = 0")
    case False
    with isfinite_positive [OF assms] v grisu2_ends [of ?v] obtain buf m where
      "grisu2 ?v = Some (buf, m)" "length buf \<le> 30" by auto
    then show ?thesis using False length_format_buffer [of buf m] by (simp add: to_chars_def Let_def)
  qed (simp add: to_chars_def Let_def)
qed

section \<open>Properties\<close>



text \<open>The portable multiplication of significands, which works on 32-bit halves and drops the
  lowest partial product's low half, is the exact product rounded to its upper 64 bits.\<close>

lemma diyfp_mul_rounds:
  "unat (fp_f (diyfp_mul x y)) = (unat (fp_f x) * unat (fp_f y) + 2 ^ 63) div 2 ^ 64 \<and>
   fp_e (diyfp_mul x y) = fp_e x + fp_e y + 64"
  by (simp add: diyfp_mul_value) (simp add: diyfp_mul_def Let_def)

text \<open>For every exponent that the upper boundary of a double can have, the table index is in range
  and the cached power brings the exponent of the product between \<open>kAlpha\<close> and \<open>kGamma\<close>: none of the
  assertions of the lookup can fail.\<close>

lemma cached_power_in_range:
  assumes "positive_double x"
  shows "\<exists>b. compute_boundaries x = Some b \<and>
    (let e = fp_e (bplus b)
     in 0 \<le> cached_power_index e \<and> cached_power_index e < int (length kCachedPowers) \<and>
        kAlpha \<le> cp_e (get_cached_power_for_binary_exponent e) + e + 64 \<and>
        cp_e (get_cached_power_for_binary_exponent e) + e + 64 \<le> kGamma)"
proof -
  obtain b where b: "compute_boundaries x = Some b" "- 1137 \<le> fp_e (bplus b)" "fp_e (bplus b) \<le> 960"
    using compute_boundaries_ends [OF assms] by metis
  have "length kCachedPowers = 79" by (simp add: kCachedPowers_def)
  with b cached_power_range [OF b(2,3)] show ?thesis by (simp add: Let_def)
qed

lemma cached_power_in_range_witness:
  "\<exists>b. compute_boundaries 1 = Some b \<and> cached_power_index (fp_e (bplus b)) < int (length kCachedPowers)"
  using cached_power_in_range [of 1] by (auto simp: positive_double_def Let_def)

end
