(* ===== verification/Json_Dump_Bounds.thy ===== *)
theory Json_Dump_Bounds
  imports Json_Dump Json_Grisu
begin

text \<open>
  The serializer on every value, whatever its strings hold: it returns a text, or throws the one
  exception of the strict error handler. The conditions on the indentation are needed: an
  indentation of more than 1025 characters is read beyond the end of the indentation string.
\<close>

section \<open>The serializer returns\<close>

definition returns :: "error_handler_t \<Rightarrow> serializer \<Rightarrow> json_exception + serializer \<Rightarrow> bool" where
  "returns eh o0 r \<longleftrightarrow>
     (case r of
        Inr o1 \<Rightarrow> length (indent_string o0) \<le> length (indent_string o1)
      | Inl e \<Rightarrow> eh = eh_strict \<and> (\<exists>w. e = Type_error 316 w))"

lemma returns_write [simp]: "returns eh o0 (Inr (write_characters s o0))"
  by (simp add: returns_def)

lemma returns_refl [simp]: "returns eh o0 (Inr o0)"
  by (simp add: returns_def)

lemma returns_bind:
  assumes "returns eh o0 r"
    and "\<And>o1. r = Inr o1 \<Longrightarrow> length (indent_string o0) \<le> length (indent_string o1) \<Longrightarrow> returns eh o1 (f o1)"
  shows "returns eh o0 (try_bind r f)"
  using assms by (cases r) (fastforce simp: returns_def split: sum.splits)+

lemma returns_after: "returns eh (write_characters s o0) r \<longleftrightarrow> returns eh o0 r"
  by (simp add: returns_def split: sum.splits)

lemma returns_grown:
  "returns eh (grow_indent n o0) r \<Longrightarrow> returns eh o0 r"
  by (auto simp: returns_def grow_indent_def split: sum.splits if_splits)

lemma returns_indent: "n \<le> length (indent_string o0) \<Longrightarrow> returns eh o0 (write_indent n o0)"
  by (simp add: write_indent_def)

lemma dump_escaped_returns:
  "(eh = eh_strict \<and> (\<exists>w. dump_escaped eh ea s = Inl (Type_error 316 w))) \<or> (\<exists>r. dump_escaped eh ea s = Inr r)"
  using dump_escaped_inv [of "\<lambda>_. True" ea eh s] by auto

lemma returns_string: "returns (error_handler cfg) o0 (write_string cfg s o0)"
  using dump_escaped_returns [of "error_handler cfg" "ensure_ascii cfg" s]
  by (auto simp: write_string_def returns_def)

lemma returns_string_after: "returns (error_handler cfg) o0 (write_string cfg s (write_characters t o0))"
  using returns_string [of cfg "write_characters t o0" s] by (simp add: returns_after)

lemma returns_float: "returns eh o0 (try_bind (dump_float x) (\<lambda>t. Inr (write_characters t o0)))"
  using to_chars_ends [of x] by (auto simp: dump_float_def)

text \<open>The next indentation fits into the grown indentation string.\<close>

lemma grow_indent_fits:
  assumes "512 \<le> length (indent_string o0)" "cur \<le> length (indent_string o0)" "step \<le> 512"
  shows "(cur + step) mod 2 ^ 32 \<le> length (indent_string (grow_indent ((cur + step) mod 2 ^ 32) o0))"
    and "length (indent_string o0) \<le> length (indent_string (grow_indent n o0))"
proof -
  have "(cur + step) mod 2 ^ 32 \<le> cur + step" by (rule mod_less_eq_dividend)
  then show "(cur + step) mod 2 ^ 32 \<le> length (indent_string (grow_indent ((cur + step) mod 2 ^ 32) o0))"
    using assms by (auto simp: grow_indent_def)
qed (simp add: grow_indent_def)

lemma returns_indent_after:
  "n \<le> length (indent_string o0) \<Longrightarrow> returns eh o0 (write_indent n (write_characters s o0))"
  using returns_indent [of n "write_characters s o0"] by (simp add: returns_after)

lemma returns_container:
  assumes "512 \<le> length (indent_string o0)" "cur \<le> length (indent_string o0)" "step \<le> 512"
    and o1: "o1 = grow_indent ((cur + step) mod 2 ^ 32) (write_characters s o0)"
    and r: "512 \<le> length (indent_string o1) \<Longrightarrow> (cur + step) mod 2 ^ 32 \<le> length (indent_string o1) \<Longrightarrow>
      returns eh o1 r"
  shows "returns eh o0
    (try_bind r (\<lambda>o2. try_bind (write_indent cur (write_characters t o2)) (\<lambda>o3. Inr (write_characters u o3))))"
proof (rule returns_bind)
  have "returns eh o1 r"
    using grow_indent_fits [of "write_characters s o0" cur step] assms(1-3)
    by (intro r) (auto simp: o1 intro: order_trans)
  then show "returns eh o0 r" unfolding o1 using returns_grown returns_after by blast
next
  fix o2 :: serializer
  assume "length (indent_string o0) \<le> length (indent_string o2)"
  then show "returns eh o2 (try_bind (write_indent cur (write_characters t o2)) (\<lambda>o3. Inr (write_characters u o3)))"
    using assms(2) by (intro returns_bind returns_indent_after) simp_all
qed

lemma returns_binary:
  assumes "512 \<le> length (indent_string o0)" "cur \<le> length (indent_string o0)" "indent_step cfg \<le> 512"
  shows "returns eh o0 (dump_binary cfg pretty cur bs sub o0)"
proof (cases pretty)
  case True
  let ?n = "(cur + indent_step cfg) mod 2 ^ 32"
  let ?o = "grow_indent ?n (write_characters (''{'' @ [CHR 0x0A]) o0)"
  have n: "?n \<le> length (indent_string ?o)" "cur \<le> length (indent_string ?o)"
    using grow_indent_fits [of "write_characters (''{'' @ [CHR 0x0A]) o0" cur "indent_step cfg"] assms
    by (auto intro: order_trans)
  have "returns eh ?o (dump_binary cfg pretty cur bs sub o0)"
    unfolding dump_binary_def Let_def if_P [OF True]
    by (intro returns_bind returns_indent returns_indent_after n order_trans [OF n(1)] order_trans [OF n(2)])
       (assumption | simp)+
  then show ?thesis using returns_grown returns_after by blast
qed (simp add: dump_binary_def Let_def)

lemma dump_returns:
  assumes "indent_step cfg \<le> 512"
  shows "512 \<le> length (indent_string o0) \<Longrightarrow> cur \<le> length (indent_string o0) \<Longrightarrow>
      returns (error_handler cfg) o0 (dump cfg pretty cur j o0)"
    and "512 \<le> length (indent_string o0) \<Longrightarrow> ind \<le> length (indent_string o0) \<Longrightarrow>
      returns (error_handler cfg) o0 (dump_elements cfg pretty ind xs o0)"
    and "512 \<le> length (indent_string o0) \<Longrightarrow> ind \<le> length (indent_string o0) \<Longrightarrow>
      returns (error_handler cfg) o0 (dump_members cfg pretty ind m o0)"
  using assms
proof (induction cfg pretty cur j o0 and cfg pretty ind xs o0 and cfg pretty ind m o0
    rule: dump_dump_elements_dump_members.induct)
  case (1 cfg pretty cur m o0)
  show ?case
  proof (cases "m = []"; cases pretty)
    assume *: "m \<noteq> []" pretty
    then show ?thesis
      using 1(1) [OF * refl refl] 1(3-) by (simp only: dump.simps Let_def if_False if_True refl simp_thms) (rule returns_container [where s = "''{'' @ [CHR 0x0A]", OF _ _ _ refl]; simp)
  next
    assume "m \<noteq> []" "\<not> pretty"
    then show ?thesis using 1 by (simp add: returns_bind returns_after)
  qed simp_all
next
  case (2 cfg pretty cur xs o0)
  show ?case
  proof (cases "xs = []"; cases pretty)
    assume *: "xs \<noteq> []" pretty
    then show ?thesis
      using 2(1) [OF * refl refl] 2(3-) by (simp only: dump.simps Let_def if_False if_True refl simp_thms) (rule returns_container [where s = "''['' @ [CHR 0x0A]", OF _ _ _ refl]; simp)
  next
    assume "xs \<noteq> []" "\<not> pretty"
    then show ?thesis using 2 by (simp add: returns_bind returns_after)
  qed simp_all
next
  case (12 cfg pretty ind x xs o0)
  show ?case
    unfolding dump_elements.simps
  proof (rule returns_bind)
    fix o1
    assume o1: "(if pretty then write_indent ind o0 else Inr o0) = Inr o1"
      "length (indent_string o0) \<le> length (indent_string o1)"
    show "returns (error_handler cfg) o1 (try_bind (dump cfg pretty ind x o1) (\<lambda>o2.
       if xs = [] then Inr o2
       else dump_elements cfg pretty ind xs
              (write_characters (if pretty then '','' @ [CHR 0x0A] else '','') o2)))"
      by (rule returns_bind)
        (use o1 12(1) [OF o1(1)] 12(2) [OF o1(1)] 12(3-) in \<open>auto simp: returns_after\<close>)
  qed (use 12(3-) in \<open>simp add: returns_indent\<close>)
next
  case (14 cfg pretty ind kv m o0)
  show ?case
    unfolding dump_members.simps
  proof (rule returns_bind)
    fix o1
    assume o1: "(if pretty then write_indent ind o0 else Inr o0) = Inr o1"
      "length (indent_string o0) \<le> length (indent_string o1)"
    show "returns (error_handler cfg) o1
     (try_bind (write_string cfg (fst kv) (write_characters [CHR 0x22] o1)) (\<lambda>o2.
     try_bind (dump cfg pretty ind (snd kv)
                (write_characters (CHR 0x22 # (if pretty then '': '' else '':'')) o2)) (\<lambda>o3.
       if m = [] then Inr o3
       else dump_members cfg pretty ind m
              (write_characters (if pretty then '','' @ [CHR 0x0A] else '','') o3))))"
    proof (rule returns_bind)
      fix o2
      assume o2: "write_string cfg (fst kv) (write_characters [CHR 0x22] o1) = Inr o2"
        "length (indent_string o1) \<le> length (indent_string o2)"
      show "returns (error_handler cfg) o2 (try_bind (dump cfg pretty ind (snd kv)
                (write_characters (CHR 0x22 # (if pretty then '': '' else '':'')) o2)) (\<lambda>o3.
       if m = [] then Inr o3
       else dump_members cfg pretty ind m
              (write_characters (if pretty then '','' @ [CHR 0x0A] else '','') o3)))"
        by (rule returns_bind)
          (use o1 o2 14(1) [OF o1(1) o2(1)] 14(2) [OF o1(1) o2(1)] 14(3-) in \<open>auto simp: returns_after\<close>)
    qed (simp add: returns_string_after)
  qed (use 14(3-) in \<open>simp add: returns_indent\<close>)
qed (simp_all add: returns_binary returns_float returns_bind returns_string_after)

section \<open>ASCII\<close>

definition printable :: "char \<Rightarrow> bool" where
  "printable c \<longleftrightarrow> 0x20 \<le> ic c \<and> ic c < 0x7F"

lemma printable_hex: "list_all printable (hex4_lower u)"
proof -
  have "printable (hex_lower d)" if "d < 16" for d
    using that by (auto simp: printable_def hex_lower_def ic_to_char_type)
  then show ?thesis by (simp add: hex4_lower_def)
qed

lemma printable_literal:
  "printable CHR 0x22" "printable CHR 0x5C" "printable CHR ''b''" "printable CHR ''t''" "printable CHR ''n''"
  "printable CHR ''f''" "printable CHR ''r''" "printable CHR ''u''" "printable CHR ''d''"
  by (simp_all add: printable_def)

lemma printable_escaped: "list_all printable (escaped True cp)"
proof (cases "short_escape cp")
  case None
  show ?thesis
  proof (cases "cp \<le> 0x1F \<or> 0x7F \<le> cp")
    case False
    then have "utf8 cp = [byte cp]" "ic (byte cp) = int cp" by (simp_all add: utf8_def ic_byte)
    with None False show ?thesis by (simp add: escaped_def printable_def)
  qed (use None in \<open>simp add: escaped_def unicode_escape_def printable_hex printable_literal\<close>)
qed (auto simp: escaped_def short_escape_def printable_literal split: if_splits)

lemma json_dump_ends:
  assumes "indent \<le> 512"
  shows "(\<exists>s. json_dump indent c ea eh j = Inr s) \<or>
    (eh = eh_strict \<and> (\<exists>w. json_dump indent c ea eh j = Inl (Type_error 316 w)))"
proof -
  have "returns eh (serializer_init c) (dump \<lparr>ensure_ascii = ea, indent_step = n, error_handler = eh\<rparr> pretty 0 j
      (serializer_init c))" if "n \<le> 512" for n pretty
    using dump_returns(1) [of "\<lparr>ensure_ascii = ea, indent_step = n, error_handler = eh\<rparr>"] that
    by (simp add: serializer_init_def)
  moreover have "nat indent \<le> 512" using assms by simp
  ultimately have
    "returns eh (serializer_init c) (dump \<lparr>ensure_ascii = ea, indent_step = nat indent, error_handler = eh\<rparr> True 0 j
      (serializer_init c))"
    "returns eh (serializer_init c) (dump \<lparr>ensure_ascii = ea, indent_step = 0, error_handler = eh\<rparr> False 0 j
      (serializer_init c))" by blast+
  then show ?thesis
    by (cases "0 \<le> indent") (auto simp: json_dump_def returns_def split: sum.splits)
qed

section \<open>Properties\<close>

text \<open>C27. The strict error handler accepts exactly the valid UTF-8 strings, overlong encodings,
  surrogates and truncated sequences being rejected with exception 316.\<close>

theorem dump_strict_iff_utf8:
  "if valid_utf8 s then (\<exists>r. dump_escaped eh_strict ea s = Inr r)
   else (\<exists>w. dump_escaped eh_strict ea s = Inl (Type_error 316 w))"
  using dump_escaped_returns [of eh_strict ea s] dump_escaped_utf8 [of _ eh_strict ea] dump_escaped_strict [of ea s]
  by (auto simp: valid_utf8_def)

text \<open>C28. Serializing returns for every value, with an indentation of up to 512: with a text, or with
  exception 316 of the strict handler. No write passes the end of the 512 byte buffer, however long and
  however broken the strings are, and the indentation string is never read beyond its end.\<close>

theorem dump_total:
  assumes "indent \<le> 512"
  shows "(\<exists>s. json_dump indent c ea eh j = Inr s) \<or>
    (eh = eh_strict \<and> (\<exists>w. json_dump indent c ea eh j = Inl (Type_error 316 w)))"
  using assms by (rule json_dump_ends)

theorem dump_total_witness:
  "(\<exists>s. json_dump 4 CHR '' '' False eh_replace (Jarray [Jstring [CHR 0xFF], Jnumber_float 1]) = Inr s)"
  using dump_total [of 4 "CHR '' ''" False eh_replace "Jarray [Jstring [CHR 0xFF], Jnumber_float 1]"] by simp

text \<open>With \<^verbatim>\<open>ensure_ascii\<close> a string comes out in printable ASCII, whatever it holds and with every
  error handler.\<close>

lemma dump_ascii:
  assumes "dump_escaped eh True s = Inr r"
  shows "list_all printable r"
proof -
  have "list_all printable (replacement True)"
    by (simp add: replacement_def printable_literal)
  then show ?thesis
    using dump_escaped_inv [of "list_all printable" True eh s] assms by (auto simp: printable_escaped)
qed

lemma dump_ascii_witness: "\<exists>r. dump_escaped eh_replace True [CHR 0xC3, CHR 0xA9, CHR 0xFF] = Inr r \<and> list_all printable r"
proof -
  obtain r where r: "dump_escaped eh_replace True [CHR 0xC3, CHR 0xA9, CHR 0xFF] = Inr r"
    using dump_escaped_returns [of eh_replace True "[CHR 0xC3, CHR 0xA9, CHR 0xFF]"] by auto
  with dump_ascii [OF r] show ?thesis by simp
qed

text \<open>The indentation string is doubled only once when it is too short. With an indentation of 1026
  or more, serializing a non-empty array reads beyond its end.\<close>

lemma dump_indent_overread:
  assumes "1026 \<le> indent" "indent < 2 ^ 31" "xs \<noteq> []"
  shows "json_dump indent c ea eh (Jarray xs) = Inl Assertion_failure"
proof -
  obtain x xs' where xs: "xs = x # xs'" using assms(3) by (cases xs) auto
  have "nat indent mod 4294967296 = nat indent" "1025 < nat indent" "512 < nat indent" using assms by simp_all
  with assms xs show ?thesis
    by (simp add: json_dump_def Let_def serializer_init_def grow_indent_def write_indent_def write_characters_def)
qed

lemma dump_indent_overread_witness:
  "json_dump 1026 CHR '' '' False eh_strict (Jarray [Jnull]) = Inl Assertion_failure"
  by (rule dump_indent_overread) simp_all

end
