(* ===== verification/Json_Textual.thy ===== *)
theory Json_Textual
  imports Json_Sound Json_Dump_Bounds
begin

text \<open>
  What a value is that came from a text: \<open>textual\<close> says that its strings and keys are valid UTF-8, that its
  floats are finite, and that it holds nothing a text cannot denote (no binary and no discarded value). The
  lexer's checks give it: the byte ranges behind a lead byte, the surrogates, the overflow of \<^verbatim>\<open>strtod\<close>.
  A textual value can be serialized with the strict error handler.
\<close>

fun textual :: "json \<Rightarrow> bool" where
  "textual (Jobject m) \<longleftrightarrow> (\<forall>kv \<in> set m. valid_utf8 (fst kv) \<and> textual (snd kv))"
| "textual (Jarray xs) \<longleftrightarrow> (\<forall>x \<in> set xs. textual x)"
| "textual (Jstring s) \<longleftrightarrow> valid_utf8 s"
| "textual (Jnumber_float x) \<longleftrightarrow> isfinite x"
| "textual (Jbinary _ _) \<longleftrightarrow> False"
| "textual Jdiscarded \<longleftrightarrow> False"
| "textual _ \<longleftrightarrow> True"

section \<open>Texts denote textual values\<close>

lemma string_text_utf8:
  assumes "string_text cps s"
  shows "valid_utf8 (utf8_text cps)"
proof -
  have "list_all scalar_value cps"
    using assms char_text_scalar
    by (auto simp: string_text_def list_all_length list_all2_conv_all_nth)
  then show ?thesis by (auto simp: valid_utf8_def)
qed

lemma scalar_text_textual: "scalar_text dp v s \<Longrightarrow> textual v"
  by (induction rule: scalar_text.induct) (auto simp: string_text_utf8 number_value_def Let_def)

lemma json_text_textual:
  "json_text dp v s \<Longrightarrow> textual v"
  "elements_text dp xs s \<Longrightarrow> \<forall>x \<in> set xs. textual x"
  "members_text dp m s \<Longrightarrow> \<forall>kv \<in> set m. valid_utf8 (fst kv) \<and> textual (snd kv)"
  by (induction rule: json_text_elements_text_members_text.inducts)
     (auto simp: scalar_text_textual string_text_utf8)

lemma store_textual:
  assumes "textual (Jobject m)" "valid_utf8 (fst kv)" "textual (snd kv)"
  shows "textual (Jobject (store kv m))"
  using assms set_map_assign_values [of "fst kv" "snd kv" "map_emplace (fst kv) Jnull m"]
    set_map_emplace_values [of "fst kv" Jnull m]
  by (fastforce simp: store_def)

lemma fold_store_textual:
  "textual (Jobject m) \<Longrightarrow> \<forall>kv \<in> set kvs. valid_utf8 (fst kv) \<and> textual (snd kv) \<Longrightarrow>
     textual (Jobject (fold store kvs m))"
  by (induction kvs arbitrary: m) (simp_all add: store_textual del: textual.simps(1))

lemma normalise_textual: "textual v \<Longrightarrow> textual (normalise v)"
proof (induction v rule: normalise.induct)
  case (2 m)
  then have "\<forall>kv \<in> set (map (\<lambda>kv. (fst kv, normalise (snd kv))) m). valid_utf8 (fst kv) \<and> textual (snd kv)" by auto
  from fold_store_textual [OF _ this, of "[]"] show ?case by (simp del: textual.simps(1) add: textual.simps(1) [of "[]"])
qed auto

section \<open>The strict error handler\<close>

text \<open>On valid UTF-8 the error handler makes no difference.\<close>

lemma write_string_handler:
  "valid_utf8 s \<Longrightarrow> write_string (cfg\<lparr>error_handler := eh\<rparr>) s o0 = write_string cfg s o0"
  by (auto simp: write_string_def valid_utf8_def dump_escaped_utf8)

lemma dump_handler:
  "textual j \<Longrightarrow> dump (cfg\<lparr>error_handler := eh\<rparr>) pretty cur j o0 = dump cfg pretty cur j o0"
  "\<forall>x \<in> set xs. textual x \<Longrightarrow>
     dump_elements (cfg\<lparr>error_handler := eh\<rparr>) pretty ind xs o0 = dump_elements cfg pretty ind xs o0"
  "\<forall>kv \<in> set m. valid_utf8 (fst kv) \<and> textual (snd kv) \<Longrightarrow>
     dump_members (cfg\<lparr>error_handler := eh\<rparr>) pretty ind m o0 = dump_members cfg pretty ind m o0"
proof (induction cfg pretty cur j o0 and cfg pretty ind xs o0 and cfg pretty ind m o0
    rule: dump_dump_elements_dump_members.induct)
  case (12 cfg pretty ind x xs o0)
  have "textual x" "\<forall>x \<in> set xs. textual x" using 12(3) by simp_all
  then show ?case
    unfolding dump_elements.simps by (intro try_bind_cong refl) (auto simp: 12(1,2))
next
  case (14 cfg pretty ind kv m o0)
  have "valid_utf8 (fst kv)" "textual (snd kv)" "\<forall>kv \<in> set m. valid_utf8 (fst kv) \<and> textual (snd kv)"
    using 14(3) by simp_all
  then show ?case
    unfolding dump_members.simps by (intro try_bind_cong refl) (auto simp: write_string_handler 14(1,2))
qed (auto simp: write_string_handler Let_def)

lemma json_dump_handler: "textual j \<Longrightarrow> json_dump indent c ea eh j = json_dump indent c ea eh' j"
  using dump_handler(1) [of j eh' "\<lparr>ensure_ascii = ea, indent_step = nat indent, error_handler = eh\<rparr>" True 0]
    dump_handler(1) [of j eh' "\<lparr>ensure_ascii = ea, indent_step = 0, error_handler = eh\<rparr>" False 0]
  by (simp add: json_dump_def)

section \<open>Properties\<close>

text \<open>C5. Whatever \<^verbatim>\<open>parse\<close> accepts is a value with valid UTF-8 in every string and key, finite floats, and
  neither binary nor discarded parts; so \<^verbatim>\<open>dump\<close> with the strict error handler writes it without exception,
  with every indentation of up to 512 characters.\<close>

theorem parsed_is_textual:
  assumes "json_parse ms dp True False s = Inr v"
  shows "textual v \<and> (indent \<le> 512 \<longrightarrow> (\<exists>t. json_dump indent c ea eh_strict v = Inr t))"
proof -
  from parsed_text [OF assms] obtain t u where "json_text dp u t" "v = normalise u" by blast
  then have v: "textual v" using json_text_textual(1) normalise_textual by blast
  moreover have "\<exists>t. json_dump indent c ea eh_strict v = Inr t" if "indent \<le> 512"
    using json_dump_ends [OF that, of c ea eh_ignore v] json_dump_handler [OF v, of indent c ea eh_strict eh_ignore]
    by simp
  ultimately show ?thesis by blast
qed

text \<open>The array of one string, the euro sign.\<close>

theorem parsed_is_textual_witness:
  "textual (Jarray [Jstring (utf8 0x20AC)]) \<and>
     (\<exists>t. json_dump 2 CHR '' '' True eh_strict (Jarray [Jstring (utf8 0x20AC)]) = Inr t)"
proof -
  have "string_text [0x20AC] (utf8 0x20AC)"
    using char_text.plain [of "0x20AC"] by (simp add: string_text_Cons string_text_Nil scalar_value_def)
  from last_element [OF _ scalar [OF scalar_text.string [OF this]], of "[]" "[]" "CHR ''.''"]
  have "json_text CHR ''.'' (Jarray [Jstring (utf8 0x20AC)])
      (CHR ''['' # (CHR 0x22 # utf8 0x20AC @ [CHR 0x22]) @ '']'')"
    by (intro array) (simp add: ws_def utf8_text_def)
  from json_parse_text [OF this, of "[]" "[]" "\<lambda>_. 1000" True False] ends_text_ws [of "[]"]
  have "json_parse (\<lambda>_. 1000) CHR ''.'' True False
      (CHR ''['' # (CHR 0x22 # utf8 0x20AC @ [CHR 0x22]) @ '']'') = Inr (Jarray [Jstring (utf8 0x20AC)])"
    by (simp add: ws_def)
  from parsed_is_textual [OF this, of 2 "CHR '' ''" True] show ?thesis by simp
qed

end
