(* ===== verification/Cjson_Item.thy ===== *)
theory Cjson_Item
  imports Json_Value Cstdlib
begin

text \<open>
  The items of cJSON 1.7.14 (\<^verbatim>\<open>src/gstreamer/cJSON.h\<close> and \<^verbatim>\<open>cJSON.c\<close>), the JSON library of the
  GStreamer program, as trees: the scalar members of a \<^verbatim>\<open>struct cJSON\<close> are a record, and the chain
  behind \<^verbatim>\<open>child\<close> is a list. (The chain itself, with its \<^verbatim>\<open>next\<close> and \<^verbatim>\<open>prev\<close> pointers, is modelled
  in \<open>Cjson_Heap\<close>, which shows that the pointer operations keep it a list.) A \<^verbatim>\<open>char *\<close> is the bytes
  before the terminator that was written last, so that a string with an embedded NUL keeps what is
  behind it; whoever reads it with \<^verbatim>\<open>strlen\<close> or \<^verbatim>\<open>strcmp\<close> sees \<open>c_str\<close> of it. A pointer that may
  be \<^verbatim>\<open>NULL\<close> is an option.
\<close>

section \<open>Types of items\<close>

definition cJSON_Invalid :: "32 word" where "cJSON_Invalid = 0"
definition cJSON_False :: "32 word" where "cJSON_False = 1"
definition cJSON_True :: "32 word" where "cJSON_True = 2"
definition cJSON_NULL :: "32 word" where "cJSON_NULL = 4"
definition cJSON_Number :: "32 word" where "cJSON_Number = 8"
definition cJSON_String :: "32 word" where "cJSON_String = 16"
definition cJSON_Array :: "32 word" where "cJSON_Array = 32"
definition cJSON_Object :: "32 word" where "cJSON_Object = 64"
definition cJSON_Raw :: "32 word" where "cJSON_Raw = 128"
definition cJSON_IsReference :: "32 word" where "cJSON_IsReference = 256"
definition cJSON_StringIsConst :: "32 word" where "cJSON_StringIsConst = 512"

lemmas cJSON_types =
  cJSON_Invalid_def cJSON_False_def cJSON_True_def cJSON_NULL_def cJSON_Number_def
  cJSON_String_def cJSON_Array_def cJSON_Object_def cJSON_Raw_def
  cJSON_IsReference_def cJSON_StringIsConst_def

section \<open>Items\<close>

record cnode =
  ctype :: "32 word"
  valuestring :: "string option"
  valueint :: "32 word"
  valuedouble :: "64 word"
  key :: "string option"

datatype cJSON = Item (node: cnode) (child: "cJSON list")

text \<open>\<^verbatim>\<open>cJSON_New_Item\<close> zeroes the memory it got.\<close>

definition zero_node :: cnode where
  "zero_node = \<lparr>ctype = 0, valuestring = None, valueint = 0, valuedouble = 0, key = None\<rparr>"

definition kind :: "cnode \<Rightarrow> 32 word" where
  "kind n = ctype n AND 0xFF"

definition is_kind :: "32 word \<Rightarrow> cJSON option \<Rightarrow> bool" where
  "is_kind k item = (case item of None \<Rightarrow> False | Some it \<Rightarrow> kind (node it) = k)"

definition cJSON_IsInvalid :: "cJSON option \<Rightarrow> bool" where "cJSON_IsInvalid = is_kind cJSON_Invalid"
definition cJSON_IsFalse :: "cJSON option \<Rightarrow> bool" where "cJSON_IsFalse = is_kind cJSON_False"
definition cJSON_IsTrue :: "cJSON option \<Rightarrow> bool" where "cJSON_IsTrue = is_kind cJSON_True"
definition cJSON_IsNull :: "cJSON option \<Rightarrow> bool" where "cJSON_IsNull = is_kind cJSON_NULL"
definition cJSON_IsNumber :: "cJSON option \<Rightarrow> bool" where "cJSON_IsNumber = is_kind cJSON_Number"
definition cJSON_IsString :: "cJSON option \<Rightarrow> bool" where "cJSON_IsString = is_kind cJSON_String"
definition cJSON_IsArray :: "cJSON option \<Rightarrow> bool" where "cJSON_IsArray = is_kind cJSON_Array"
definition cJSON_IsObject :: "cJSON option \<Rightarrow> bool" where "cJSON_IsObject = is_kind cJSON_Object"
definition cJSON_IsRaw :: "cJSON option \<Rightarrow> bool" where "cJSON_IsRaw = is_kind cJSON_Raw"

text \<open>\<^verbatim>\<open>cJSON_IsBool\<close> tests the two bits without the mask.\<close>

definition cJSON_IsBool :: "cJSON option \<Rightarrow> bool" where
  "cJSON_IsBool item =
     (case item of None \<Rightarrow> False | Some it \<Rightarrow> ctype (node it) AND (cJSON_True OR cJSON_False) \<noteq> 0)"

definition cJSON_GetStringValue :: "cJSON option \<Rightarrow> string option" where
  "cJSON_GetStringValue item =
     (case item of
        None \<Rightarrow> None
      | Some it \<Rightarrow> if \<not> cJSON_IsString (Some it) then None else valuestring (node it))"

section \<open>Faults and allocation\<close>

text \<open>
  What the C program must not do: read outside a buffer, write outside a buffer, follow a null pointer or one
  to memory that was freed. \<open>Out_of_fuel\<close> is
  the model's own: a recursion that was given too little fuel.
\<close>

datatype c_fault = Over_read | Over_write | Bad_pointer | Out_of_fuel

text \<open>The allocation functions may fail: the requests are numbered, and some of them are refused.\<close>

record internal_hooks =
  refused :: "nat list"
  requests :: nat
  reallocates :: bool

definition allocate :: "internal_hooks \<Rightarrow> bool \<times> internal_hooks" where
  "allocate h = (requests h \<notin> set (refused h), h\<lparr>requests := requests h + 1\<rparr>)"

text \<open>\<^verbatim>\<open>malloc\<close> that always has memory.\<close>

definition ample :: internal_hooks where
  "ample = \<lparr>refused = [], requests = 0, reallocates = True\<rparr>"

text \<open>\<^verbatim>\<open>cJSON_InitHooks\<close>: the argument says whether \<^verbatim>\<open>malloc_fn\<close> and \<^verbatim>\<open>free_fn\<close> are set to functions other
  than \<^verbatim>\<open>malloc\<close> and \<^verbatim>\<open>free\<close>; \<^verbatim>\<open>realloc\<close> goes with the standard pair only.\<close>

definition cJSON_InitHooks :: "(bool \<times> bool) option \<Rightarrow> internal_hooks \<Rightarrow> internal_hooks" where
  "cJSON_InitHooks fns h =
     (case fns of
        None \<Rightarrow> h\<lparr>reallocates := True\<rparr>
      | Some (own_malloc, own_free) \<Rightarrow> h\<lparr>reallocates := \<not> own_malloc \<and> \<not> own_free\<rparr>)"

definition unfailing :: "internal_hooks \<Rightarrow> bool" where
  "unfailing h \<longleftrightarrow> refused h = []"

lemma unfailing_ample [simp]: "unfailing ample"
  by (simp add: unfailing_def ample_def)

lemma allocate_unfailing:
  assumes "unfailing h"
  shows "\<exists>h'. allocate h = (True, h') \<and> unfailing h'"
  using assms by (simp add: allocate_def unfailing_def)

section \<open>Doubles as numbers\<close>

text \<open>The exponent field, the significand with its hidden bit and the power of two it is multiplied
  with; the value cut to an integer (an infinity is larger than every finite double this way).\<close>

definition double_exp :: "64 word \<Rightarrow> nat" where
  "double_exp d = unat d div 2 ^ 52 mod 2048"

definition double_frac :: "64 word \<Rightarrow> nat" where
  "double_frac d = unat d mod 2 ^ 52"

definition double_neg :: "64 word \<Rightarrow> bool" where
  "double_neg d \<longleftrightarrow> 2 ^ 63 \<le> unat d"

definition double_man :: "64 word \<Rightarrow> nat" where
  "double_man d = (if double_exp d = 0 then double_frac d else double_frac d + 2 ^ 52)"

definition double_pow :: "64 word \<Rightarrow> int" where
  "double_pow d = int (max 1 (double_exp d)) - 1075"

definition double_trunc :: "64 word \<Rightarrow> int" where
  "double_trunc d =
     (let v = (if 0 \<le> double_pow d then double_man d * 2 ^ nat (double_pow d)
               else double_man d div 2 ^ nat (- double_pow d))
      in if double_neg d then - int v else int v)"

text \<open>
  The \<^verbatim>\<open>int\<close> that goes with a \<^verbatim>\<open>double\<close>, saturated (\<^verbatim>\<open>parse_number\<close>, \<^verbatim>\<open>cJSON_SetNumberHelper\<close> and
  \<^verbatim>\<open>cJSON_CreateNumber\<close> share the code). A double is at least a positive whole number, or at most a
  negative one, just when its integer part is.
\<close>

definition saturated_int :: "64 word \<Rightarrow> 32 word" where
  "saturated_int d =
     (if 2147483647 \<le> double_trunc d then 0x7FFFFFFF
      else if double_trunc d \<le> - 2147483648 then 0x80000000
      else word_of_int (double_trunc d))"

lemma saturated_int_range:
  "sint (saturated_int d) = max (- (2 ^ 31)) (min (2 ^ 31 - 1) (double_trunc d))"
proof -
  consider "2147483647 \<le> double_trunc d" | "double_trunc d \<le> - 2147483648"
    | "- 2147483648 < double_trunc d" "double_trunc d < 2147483647"
    by linarith
  then show ?thesis
  proof cases
    case 3
    then have "signed_take_bit 31 (double_trunc d) = double_trunc d"
      by (simp add: signed_take_bit_int_eq_self)
    with 3 show ?thesis
      by (simp add: saturated_int_def sint_sbintrunc')
  qed (simp_all add: saturated_int_def)
qed

end
