(* ===== verification/Cjson_Heap.thy ===== *)
theory Cjson_Heap
  imports Cjson_Item
begin

text \<open>
  The operations of \<^verbatim>\<open>src/gstreamer/cJSON.c\<close> that build and change items, on an explicit store: a cell is a
  \<^verbatim>\<open>struct cJSON\<close> with its pointers, and the children of an item are the chain behind \<^verbatim>\<open>child\<close>, doubly linked,
  where the first element's \<^verbatim>\<open>prev\<close> is the last element (so that appending is fast) and the last
  element's \<^verbatim>\<open>next\<close> is null. An access through a null pointer or to a freed cell is a fault. Strings are values
  here: their memory is requested from the allocator but not tracked.
\<close>

section \<open>The store\<close>

type_synonym addr = nat

record cell =
  scalars :: cnode
  link_next :: "addr option"
  link_prev :: "addr option"
  link_child :: "addr option"

record cstore =
  cells :: "addr \<rightharpoonup> cell"
  next_addr :: addr
  shooks :: internal_hooks

type_synonym 'a prog = "cstore \<Rightarrow> c_fault + 'a \<times> cstore"

definition ret :: "'a \<Rightarrow> 'a prog" where
  "ret x s = Inr (x, s)"

definition bnd :: "'a prog \<Rightarrow> ('a \<Rightarrow> 'b prog) \<Rightarrow> 'b prog" where
  "bnd m f s = try_bind (m s) (\<lambda>(x, s'). f x s')"

definition load :: "addr option \<Rightarrow> cell prog" where
  "load p s =
     (case p of
        None \<Rightarrow> Inl Bad_pointer
      | Some a \<Rightarrow> (case cells s a of None \<Rightarrow> Inl Bad_pointer | Some c \<Rightarrow> Inr (c, s)))"

definition change :: "addr option \<Rightarrow> (cell \<Rightarrow> cell) \<Rightarrow> unit prog" where
  "change p f = bnd (load p) (\<lambda>c s. Inr ((), s\<lparr>cells := (cells s)(the p \<mapsto> f c)\<rparr>))"

definition deallocate :: "addr option \<Rightarrow> unit prog" where
  "deallocate p = bnd (load p) (\<lambda>_ s. Inr ((), s\<lparr>cells := (cells s)(the p := None)\<rparr>))"

definition scalars_of :: "addr option \<Rightarrow> cnode prog" where
  "scalars_of p = bnd (load p) (\<lambda>c. ret (scalars c))"

definition next_of :: "addr option \<Rightarrow> addr option prog" where
  "next_of p = bnd (load p) (\<lambda>c. ret (link_next c))"

definition prev_of :: "addr option \<Rightarrow> addr option prog" where
  "prev_of p = bnd (load p) (\<lambda>c. ret (link_prev c))"

definition child_of :: "addr option \<Rightarrow> addr option prog" where
  "child_of p = bnd (load p) (\<lambda>c. ret (link_child c))"

definition set_next :: "addr option \<Rightarrow> addr option \<Rightarrow> unit prog" where
  "set_next p q = change p (\<lambda>c. c\<lparr>link_next := q\<rparr>)"

definition set_prev :: "addr option \<Rightarrow> addr option \<Rightarrow> unit prog" where
  "set_prev p q = change p (\<lambda>c. c\<lparr>link_prev := q\<rparr>)"

definition set_child :: "addr option \<Rightarrow> addr option \<Rightarrow> unit prog" where
  "set_child p q = change p (\<lambda>c. c\<lparr>link_child := q\<rparr>)"

definition set_scalars :: "addr option \<Rightarrow> (cnode \<Rightarrow> cnode) \<Rightarrow> unit prog" where
  "set_scalars p f = change p (\<lambda>c. c\<lparr>scalars := f (scalars c)\<rparr>)"

text \<open>One statement after another, and \<^verbatim>\<open>if\<close> without \<^verbatim>\<open>else\<close>.\<close>

definition seq :: "unit prog \<Rightarrow> 'a prog \<Rightarrow> 'a prog" where
  "seq m n = bnd m (\<lambda>_. n)"

definition only_if :: "bool \<Rightarrow> unit prog \<Rightarrow> unit prog" where
  "only_if b m = (if b then m else ret ())"

section \<open>Allocation\<close>

definition empty_cell :: cell where
  "empty_cell = \<lparr>scalars = zero_node, link_next = None, link_prev = None, link_child = None\<rparr>"

definition cJSON_New_Item :: "addr option prog" where
  "cJSON_New_Item s =
     (case allocate (shooks s) of
        (False, h) \<Rightarrow> Inr (None, s\<lparr>shooks := h\<rparr>)
      | (True, h) \<Rightarrow>
          Inr (Some (next_addr s),
               s\<lparr>cells := (cells s)(next_addr s \<mapsto> empty_cell), next_addr := next_addr s + 1, shooks := h\<rparr>))"

definition cJSON_strdup :: "string option \<Rightarrow> string option prog" where
  "cJSON_strdup string s =
     (case string of
        None \<Rightarrow> Inr (None, s)
      | Some t \<Rightarrow>
          (case allocate (shooks s) of
             (False, h) \<Rightarrow> Inr (None, s\<lparr>shooks := h\<rparr>)
           | (True, h) \<Rightarrow> Inr (Some (c_str t), s\<lparr>shooks := h\<rparr>)))"

definition is_reference :: "cnode \<Rightarrow> bool" where
  "is_reference n \<longleftrightarrow> ctype n AND cJSON_IsReference \<noteq> 0"

text \<open>\<^verbatim>\<open>cJSON_Delete\<close>: the recursion into \<^verbatim>\<open>child\<close> and the loop over \<^verbatim>\<open>next\<close>; no chain is longer, and no tree
  deeper, than the number of addresses handed out so far.\<close>

fun delete_items :: "nat \<Rightarrow> addr option \<Rightarrow> unit prog" where
  "delete_items f None = ret ()"
| "delete_items 0 (Some a) = (\<lambda>s. Inl Out_of_fuel)"
| "delete_items (Suc f) (Some a) =
     bnd (load (Some a)) (\<lambda>c.
       seq (only_if (\<not> is_reference (scalars c) \<and> link_child c \<noteq> None) (delete_items f (link_child c)))
      (seq (deallocate (Some a))
           (delete_items f (link_next c))))"

definition cJSON_Delete :: "addr option \<Rightarrow> unit prog" where
  "cJSON_Delete item s = delete_items (next_addr s) item s"

section \<open>Queries\<close>

fun count_items :: "nat \<Rightarrow> addr option \<Rightarrow> nat prog" where
  "count_items f None = ret 0"
| "count_items 0 (Some a) = (\<lambda>s. Inl Out_of_fuel)"
| "count_items (Suc f) (Some a) = bnd (next_of (Some a)) (\<lambda>p. bnd (count_items f p) (\<lambda>n. ret (n + 1)))"

definition cJSON_GetArraySize :: "addr option \<Rightarrow> 32 word prog" where
  "cJSON_GetArraySize array =
     (if array = None then ret 0
      else bnd (child_of array) (\<lambda>first s. bnd (count_items (next_addr s) first) (\<lambda>n. ret (of_nat n)) s))"

primrec walk :: "nat \<Rightarrow> addr option \<Rightarrow> addr option prog" where
  "walk 0 p = ret p"
| "walk (Suc index) p = (if p = None then ret None else bnd (next_of p) (walk index))"

definition get_array_item :: "addr option \<Rightarrow> nat \<Rightarrow> addr option prog" where
  "get_array_item array index =
     (if array = None then ret None else bnd (child_of array) (walk index))"

definition cJSON_GetArrayItem :: "addr option \<Rightarrow> int \<Rightarrow> addr option prog" where
  "cJSON_GetArrayItem array index =
     (if index < 0 then ret None else get_array_item array (nat index))"

definition tolower :: "char \<Rightarrow> char" where
  "tolower c = (if 65 \<le> ic c \<and> ic c \<le> 90 then to_char_type (ic c + 32) else c)"

text \<open>Whether \<^verbatim>\<open>case_insensitive_strcmp\<close> returns 0.\<close>

definition case_insensitive_same :: "string option \<Rightarrow> string option \<Rightarrow> bool" where
  "case_insensitive_same string1 string2 =
     (case (string1, string2) of
        (Some x, Some y) \<Rightarrow> map tolower (c_str x) = map tolower (c_str y)
      | _ \<Rightarrow> False)"

text \<open>Whether the loop of \<^verbatim>\<open>get_object_item\<close> goes on behind an element with this key: the case sensitive loop
  stops at an element without a key.\<close>

definition passes :: "string \<Rightarrow> bool \<Rightarrow> string option \<Rightarrow> bool" where
  "passes name case_sensitive k =
     (if case_sensitive then (case k of None \<Rightarrow> False | Some x \<Rightarrow> c_str name \<noteq> c_str x)
      else \<not> case_insensitive_same (Some name) k)"

fun find_item :: "nat \<Rightarrow> string \<Rightarrow> bool \<Rightarrow> addr option \<Rightarrow> addr option prog" where
  "find_item f name case_sensitive None = ret None"
| "find_item 0 name case_sensitive (Some a) = (\<lambda>s. Inl Out_of_fuel)"
| "find_item (Suc f) name case_sensitive (Some a) =
     bnd (load (Some a)) (\<lambda>c.
       if passes name case_sensitive (key (scalars c)) then find_item f name case_sensitive (link_next c)
       else ret (if key (scalars c) = None then None else Some a))"

definition get_object_item :: "addr option \<Rightarrow> string option \<Rightarrow> bool \<Rightarrow> addr option prog" where
  "get_object_item object name case_sensitive =
     (case name of
        None \<Rightarrow> ret None
      | Some n \<Rightarrow>
          if object = None then ret None
          else bnd (child_of object) (\<lambda>first s. find_item (next_addr s) n case_sensitive first s))"

definition cJSON_GetObjectItem :: "addr option \<Rightarrow> string option \<Rightarrow> addr option prog" where
  "cJSON_GetObjectItem object string = get_object_item object string False"

definition cJSON_GetObjectItemCaseSensitive :: "addr option \<Rightarrow> string option \<Rightarrow> addr option prog" where
  "cJSON_GetObjectItemCaseSensitive object string = get_object_item object string True"

definition cJSON_HasObjectItem :: "addr option \<Rightarrow> string option \<Rightarrow> bool prog" where
  "cJSON_HasObjectItem object string = bnd (cJSON_GetObjectItem object string) (\<lambda>p. ret (p \<noteq> None))"

section \<open>Adding\<close>

definition suffix_object :: "addr option \<Rightarrow> addr option \<Rightarrow> unit prog" where
  "suffix_object prev item = seq (set_next prev item) (set_prev item prev)"

definition create_reference :: "addr option \<Rightarrow> addr option prog" where
  "create_reference item =
     (if item = None then ret None
      else bnd cJSON_New_Item (\<lambda>reference.
        if reference = None then ret None
        else bnd (load item) (\<lambda>c.
          seq (change reference (\<lambda>_. c\<lparr>scalars := (scalars c)\<lparr>key := None, ctype := ctype (scalars c) OR cJSON_IsReference\<rparr>,
                                       link_next := None, link_prev := None\<rparr>))
              (ret reference))))"

definition add_item_to_array :: "addr option \<Rightarrow> addr option \<Rightarrow> bool prog" where
  "add_item_to_array array item =
     (if item = None \<or> array = None \<or> array = item then ret False
      else bnd (child_of array) (\<lambda>first.
        if first = None then
          seq (set_child array item) (seq (set_prev item item) (seq (set_next item None) (ret True)))
        else bnd (prev_of first) (\<lambda>tail.
          seq (only_if (tail \<noteq> None)
                (bnd (prev_of first) (\<lambda>tail'.
                   seq (suffix_object tail' item)
                       (bnd (child_of array) (\<lambda>first'. set_prev first' item)))))
              (ret True))))"

definition cJSON_AddItemToArray :: "addr option \<Rightarrow> addr option \<Rightarrow> bool prog" where
  "cJSON_AddItemToArray array item = add_item_to_array array item"

definition add_item_to_object :: "addr option \<Rightarrow> string option \<Rightarrow> addr option \<Rightarrow> bool \<Rightarrow> bool prog" where
  "add_item_to_object object string item constant_key =
     (if object = None \<or> string = None \<or> item = None \<or> object = item then ret False
      else
        bnd (if constant_key then ret string else cJSON_strdup string) (\<lambda>new_key.
          if new_key = None then ret False
          else
            seq (set_scalars item (\<lambda>n. n\<lparr>key := new_key,
                   ctype := (if constant_key then ctype n OR cJSON_StringIsConst
                             else ctype n AND NOT cJSON_StringIsConst)\<rparr>))
                (add_item_to_array object item)))"

definition cJSON_AddItemToObject :: "addr option \<Rightarrow> string option \<Rightarrow> addr option \<Rightarrow> bool prog" where
  "cJSON_AddItemToObject object string item = add_item_to_object object string item False"

definition cJSON_AddItemToObjectCS :: "addr option \<Rightarrow> string option \<Rightarrow> addr option \<Rightarrow> bool prog" where
  "cJSON_AddItemToObjectCS object string item = add_item_to_object object string item True"

definition cJSON_AddItemReferenceToArray :: "addr option \<Rightarrow> addr option \<Rightarrow> bool prog" where
  "cJSON_AddItemReferenceToArray array item =
     (if array = None then ret False else bnd (create_reference item) (add_item_to_array array))"

definition cJSON_AddItemReferenceToObject :: "addr option \<Rightarrow> string option \<Rightarrow> addr option \<Rightarrow> bool prog" where
  "cJSON_AddItemReferenceToObject object string item =
     (if object = None \<or> string = None then ret False
      else bnd (create_reference item) (\<lambda>reference. add_item_to_object object string reference False))"

section \<open>Removing and replacing\<close>

definition cJSON_DetachItemViaPointer :: "addr option \<Rightarrow> addr option \<Rightarrow> addr option prog" where
  "cJSON_DetachItemViaPointer parent item =
     (if parent = None \<or> item = None then ret None
      else bnd (child_of parent) (\<lambda>first.
        seq (only_if (item \<noteq> first)
              (bnd (prev_of item) (\<lambda>p. bnd (next_of item) (\<lambda>n. set_next p n))))
       (bnd (next_of item) (\<lambda>n.
        seq (only_if (n \<noteq> None) (bnd (prev_of item) (\<lambda>p. set_prev n p)))
       (bnd (child_of parent) (\<lambda>first'. bnd (next_of item) (\<lambda>n'.
        seq (if item = first' then set_child parent n'
             else only_if (n' = None) (bnd (prev_of item) (\<lambda>p. set_prev first' p)))
       (seq (set_prev item None)
       (seq (set_next item None)
            (ret item))))))))))"

definition cJSON_DetachItemFromArray :: "addr option \<Rightarrow> int \<Rightarrow> addr option prog" where
  "cJSON_DetachItemFromArray array which =
     (if which < 0 then ret None
      else bnd (get_array_item array (nat which)) (cJSON_DetachItemViaPointer array))"

definition cJSON_DeleteItemFromArray :: "addr option \<Rightarrow> int \<Rightarrow> unit prog" where
  "cJSON_DeleteItemFromArray array which = bnd (cJSON_DetachItemFromArray array which) cJSON_Delete"

definition cJSON_DetachItemFromObject :: "addr option \<Rightarrow> string option \<Rightarrow> addr option prog" where
  "cJSON_DetachItemFromObject object string =
     bnd (cJSON_GetObjectItem object string) (cJSON_DetachItemViaPointer object)"

definition cJSON_DetachItemFromObjectCaseSensitive :: "addr option \<Rightarrow> string option \<Rightarrow> addr option prog" where
  "cJSON_DetachItemFromObjectCaseSensitive object string =
     bnd (cJSON_GetObjectItemCaseSensitive object string) (cJSON_DetachItemViaPointer object)"

definition cJSON_DeleteItemFromObject :: "addr option \<Rightarrow> string option \<Rightarrow> unit prog" where
  "cJSON_DeleteItemFromObject object string = bnd (cJSON_DetachItemFromObject object string) cJSON_Delete"

definition cJSON_DeleteItemFromObjectCaseSensitive :: "addr option \<Rightarrow> string option \<Rightarrow> unit prog" where
  "cJSON_DeleteItemFromObjectCaseSensitive object string =
     bnd (cJSON_DetachItemFromObjectCaseSensitive object string) cJSON_Delete"

definition insert_links :: "addr option \<Rightarrow> addr option \<Rightarrow> addr option \<Rightarrow> unit prog" where
  "insert_links array after_inserted newitem =
     seq (set_next newitem after_inserted)
    (bnd (prev_of after_inserted) (\<lambda>p.
     seq (set_prev newitem p)
    (seq (set_prev after_inserted newitem)
    (bnd (child_of array) (\<lambda>first.
     if after_inserted = first then set_child array newitem
     else bnd (prev_of newitem) (\<lambda>p'. set_next p' newitem))))))"

definition cJSON_InsertItemInArray :: "addr option \<Rightarrow> int \<Rightarrow> addr option \<Rightarrow> bool prog" where
  "cJSON_InsertItemInArray array which newitem =
     (if which < 0 then ret False
      else bnd (get_array_item array (nat which)) (\<lambda>after_inserted.
        if after_inserted = None then add_item_to_array array newitem
        else seq (insert_links array after_inserted newitem) (ret True)))"

definition replace_links :: "addr option \<Rightarrow> addr option \<Rightarrow> addr option \<Rightarrow> unit prog" where
  "replace_links parent item replacement =
     bnd (next_of item) (\<lambda>n.
       seq (set_next replacement n)
      (bnd (prev_of item) (\<lambda>p.
       seq (set_prev replacement p)
      (bnd (next_of replacement) (\<lambda>n'.
       seq (only_if (n' \<noteq> None) (set_prev n' replacement))
      (bnd (child_of parent) (\<lambda>first.
       seq (if first = item then
              bnd (prev_of first) (\<lambda>q.
              seq (only_if (q = first) (set_prev replacement replacement))
                  (set_child parent replacement))
            else
              bnd (prev_of replacement) (\<lambda>p'.
              seq (only_if (p' \<noteq> None) (set_next p' replacement))
             (bnd (next_of replacement) (\<lambda>n''.
              only_if (n'' = None) (bnd (child_of parent) (\<lambda>first'. set_prev first' replacement))))))
      (seq (set_next item None)
           (set_prev item None)))))))))"

definition cJSON_ReplaceItemViaPointer :: "addr option \<Rightarrow> addr option \<Rightarrow> addr option \<Rightarrow> bool prog" where
  "cJSON_ReplaceItemViaPointer parent item replacement =
     (if parent = None \<or> replacement = None \<or> item = None then ret False
      else if replacement = item then ret True
      else seq (replace_links parent item replacement) (seq (cJSON_Delete item) (ret True)))"

definition cJSON_ReplaceItemInArray :: "addr option \<Rightarrow> int \<Rightarrow> addr option \<Rightarrow> bool prog" where
  "cJSON_ReplaceItemInArray array which newitem =
     (if which < 0 then ret False
      else bnd (get_array_item array (nat which)) (\<lambda>item. cJSON_ReplaceItemViaPointer array item newitem))"

text \<open>The new key may be null here, when the allocator refuses: the source does not look.\<close>

definition replace_item_in_object ::
    "addr option \<Rightarrow> string option \<Rightarrow> addr option \<Rightarrow> bool \<Rightarrow> bool prog" where
  "replace_item_in_object object string replacement case_sensitive =
     (if replacement = None \<or> string = None then ret False
      else
        bnd (load replacement) (\<lambda>_. bnd (cJSON_strdup string) (\<lambda>new_key.
          seq (set_scalars replacement (\<lambda>n. n\<lparr>key := new_key, ctype := ctype n AND NOT cJSON_StringIsConst\<rparr>))
         (bnd (get_object_item object string case_sensitive) (\<lambda>item.
            cJSON_ReplaceItemViaPointer object item replacement)))))"

definition cJSON_ReplaceItemInObject :: "addr option \<Rightarrow> string option \<Rightarrow> addr option \<Rightarrow> bool prog" where
  "cJSON_ReplaceItemInObject object string newitem = replace_item_in_object object string newitem False"

definition cJSON_ReplaceItemInObjectCaseSensitive ::
    "addr option \<Rightarrow> string option \<Rightarrow> addr option \<Rightarrow> bool prog" where
  "cJSON_ReplaceItemInObjectCaseSensitive object string newitem =
     replace_item_in_object object string newitem True"

section \<open>Creating\<close>

text \<open>\<open>created\<close>: a new item, and if there is one, its members set.\<close>

definition created :: "(cell \<Rightarrow> cell) \<Rightarrow> addr option prog" where
  "created f =
     bnd cJSON_New_Item (\<lambda>item. seq (only_if (item \<noteq> None) (change item f)) (ret item))"

definition of_type :: "32 word \<Rightarrow> cell \<Rightarrow> cell" where
  "of_type t c = c\<lparr>scalars := (scalars c)\<lparr>ctype := t\<rparr>\<rparr>"

definition cJSON_CreateNull :: "addr option prog" where "cJSON_CreateNull = created (of_type cJSON_NULL)"
definition cJSON_CreateTrue :: "addr option prog" where "cJSON_CreateTrue = created (of_type cJSON_True)"
definition cJSON_CreateFalse :: "addr option prog" where "cJSON_CreateFalse = created (of_type cJSON_False)"
definition cJSON_CreateArray :: "addr option prog" where "cJSON_CreateArray = created (of_type cJSON_Array)"
definition cJSON_CreateObject :: "addr option prog" where "cJSON_CreateObject = created (of_type cJSON_Object)"

definition cJSON_CreateBool :: "bool \<Rightarrow> addr option prog" where
  "cJSON_CreateBool boolean = created (of_type (if boolean then cJSON_True else cJSON_False))"

definition number_scalars :: "64 word \<Rightarrow> cell \<Rightarrow> cell" where
  "number_scalars num c =
     c\<lparr>scalars := (scalars c)\<lparr>ctype := cJSON_Number, valuedouble := num, valueint := saturated_int num\<rparr>\<rparr>"

definition cJSON_CreateNumber :: "64 word \<Rightarrow> addr option prog" where
  "cJSON_CreateNumber num = created (number_scalars num)"

text \<open>\<^verbatim>\<open>cJSON_CreateString\<close> and \<^verbatim>\<open>cJSON_CreateRaw\<close> copy the string and give the item up when there is no copy.\<close>

definition create_text :: "32 word \<Rightarrow> string option \<Rightarrow> addr option prog" where
  "create_text t string =
     bnd cJSON_New_Item (\<lambda>item.
       if item = None then ret None
       else
         seq (change item (of_type t))
        (bnd (cJSON_strdup string) (\<lambda>copy.
         seq (set_scalars item (\<lambda>n. n\<lparr>valuestring := copy\<rparr>))
             (if copy = None then seq (cJSON_Delete item) (ret None) else ret item))))"

definition cJSON_CreateString :: "string option \<Rightarrow> addr option prog" where
  "cJSON_CreateString string = create_text cJSON_String string"

definition cJSON_CreateRaw :: "string option \<Rightarrow> addr option prog" where
  "cJSON_CreateRaw raw = create_text cJSON_Raw raw"

definition cJSON_CreateStringReference :: "string option \<Rightarrow> addr option prog" where
  "cJSON_CreateStringReference string =
     created (\<lambda>c. c\<lparr>scalars := (scalars c)\<lparr>ctype := cJSON_String OR cJSON_IsReference, valuestring := string\<rparr>\<rparr>)"

definition cJSON_CreateObjectReference :: "addr option \<Rightarrow> addr option prog" where
  "cJSON_CreateObjectReference first =
     created (\<lambda>c. (of_type (cJSON_Object OR cJSON_IsReference) c)\<lparr>link_child := first\<rparr>)"

definition cJSON_CreateArrayReference :: "addr option \<Rightarrow> addr option prog" where
  "cJSON_CreateArrayReference first =
     created (\<lambda>c. (of_type (cJSON_Array OR cJSON_IsReference) c)\<lparr>link_child := first\<rparr>)"

text \<open>The arrays of numbers and strings: \<open>makers\<close> create the elements, \<open>p\<close> is the last one so far.\<close>

fun fill_array :: "addr option \<Rightarrow> addr option \<Rightarrow> addr option prog list \<Rightarrow> addr option option prog" where
  "fill_array a p [] = ret (Some p)"
| "fill_array a p (maker # makers) =
     bnd maker (\<lambda>n.
       if n = None then seq (cJSON_Delete a) (ret None)
       else seq (if p = None then set_child a n else suffix_object p n) (fill_array a n makers))"

definition create_array_of :: "addr option prog list \<Rightarrow> addr option prog" where
  "create_array_of makers =
     bnd cJSON_CreateArray (\<lambda>a.
       if a = None then ret None
       else
         bnd (fill_array a None makers) (\<lambda>last.
           case last of
             None \<Rightarrow> ret None
           | Some n \<Rightarrow>
               bnd (child_of a) (\<lambda>first.
               seq (only_if (first \<noteq> None) (set_prev first n))
                   (ret a))))"

definition int_to_double :: "32 word \<Rightarrow> 64 word" where
  "int_to_double i = dec_to_double (sint i < 0) (nat \<bar>sint i\<bar>) 0"

definition float_to_double :: "32 word \<Rightarrow> 64 word" where
  "float_to_double x =
     (let neg = 2 ^ 31 \<le> unat x; e = unat x div 2 ^ 23 mod 256; m = unat x mod 2 ^ 23
      in sign_bit neg OR
         (if e = 255 then double_inf OR of_nat (m * 2 ^ 29)
          else if e = 0 then round_to_double m (2 ^ 149)
          else round_to_double ((m + 2 ^ 23) * 2 ^ e) (2 ^ 150)))"

text \<open>The elements the caller announces; behind the end of the caller's array lies foreign memory.\<close>

definition elements_of :: "('a \<Rightarrow> addr option prog) \<Rightarrow> 'a list \<Rightarrow> nat \<Rightarrow> addr option prog list" where
  "elements_of maker xs count =
     map (\<lambda>i. if i < length xs then maker (xs ! i) else (\<lambda>s. Inl Over_read)) [0 ..< count]"

definition counted_array :: "('a \<Rightarrow> addr option prog) \<Rightarrow> 'a list option \<Rightarrow> int \<Rightarrow> addr option prog" where
  "counted_array maker xs count =
     (case xs of
        None \<Rightarrow> ret None
      | Some ys \<Rightarrow> if count < 0 then ret None else create_array_of (elements_of maker ys (nat count)))"

definition cJSON_CreateIntArray :: "32 word list option \<Rightarrow> int \<Rightarrow> addr option prog" where
  "cJSON_CreateIntArray = counted_array (\<lambda>i. cJSON_CreateNumber (int_to_double i))"

definition cJSON_CreateFloatArray :: "32 word list option \<Rightarrow> int \<Rightarrow> addr option prog" where
  "cJSON_CreateFloatArray = counted_array (\<lambda>x. cJSON_CreateNumber (float_to_double x))"

definition cJSON_CreateDoubleArray :: "64 word list option \<Rightarrow> int \<Rightarrow> addr option prog" where
  "cJSON_CreateDoubleArray = counted_array cJSON_CreateNumber"

definition cJSON_CreateStringArray :: "string option list option \<Rightarrow> int \<Rightarrow> addr option prog" where
  "cJSON_CreateStringArray = counted_array cJSON_CreateString"

text \<open>\<^verbatim>\<open>cJSON_AddNullToObject\<close> and its siblings: create, add, and delete what could not be added.\<close>

definition add_created :: "addr option prog \<Rightarrow> addr option \<Rightarrow> string option \<Rightarrow> addr option prog" where
  "add_created create object name =
     bnd create (\<lambda>item. bnd (add_item_to_object object name item False) (\<lambda>ok.
       if ok then ret item else seq (cJSON_Delete item) (ret None)))"

definition cJSON_AddNullToObject :: "addr option \<Rightarrow> string option \<Rightarrow> addr option prog" where
  "cJSON_AddNullToObject = add_created cJSON_CreateNull"
definition cJSON_AddTrueToObject :: "addr option \<Rightarrow> string option \<Rightarrow> addr option prog" where
  "cJSON_AddTrueToObject = add_created cJSON_CreateTrue"
definition cJSON_AddFalseToObject :: "addr option \<Rightarrow> string option \<Rightarrow> addr option prog" where
  "cJSON_AddFalseToObject = add_created cJSON_CreateFalse"
definition cJSON_AddBoolToObject :: "addr option \<Rightarrow> string option \<Rightarrow> bool \<Rightarrow> addr option prog" where
  "cJSON_AddBoolToObject object name boolean = add_created (cJSON_CreateBool boolean) object name"
definition cJSON_AddNumberToObject :: "addr option \<Rightarrow> string option \<Rightarrow> 64 word \<Rightarrow> addr option prog" where
  "cJSON_AddNumberToObject object name number = add_created (cJSON_CreateNumber number) object name"
definition cJSON_AddStringToObject :: "addr option \<Rightarrow> string option \<Rightarrow> string option \<Rightarrow> addr option prog" where
  "cJSON_AddStringToObject object name string = add_created (cJSON_CreateString string) object name"
definition cJSON_AddRawToObject :: "addr option \<Rightarrow> string option \<Rightarrow> string option \<Rightarrow> addr option prog" where
  "cJSON_AddRawToObject object name raw = add_created (cJSON_CreateRaw raw) object name"
definition cJSON_AddObjectToObject :: "addr option \<Rightarrow> string option \<Rightarrow> addr option prog" where
  "cJSON_AddObjectToObject = add_created cJSON_CreateObject"
definition cJSON_AddArrayToObject :: "addr option \<Rightarrow> string option \<Rightarrow> addr option prog" where
  "cJSON_AddArrayToObject = add_created cJSON_CreateArray"

section \<open>Setters\<close>

definition cJSON_SetNumberHelper :: "addr option \<Rightarrow> 64 word \<Rightarrow> 64 word prog" where
  "cJSON_SetNumberHelper object number =
     seq (set_scalars object (\<lambda>n. n\<lparr>valueint := saturated_int number, valuedouble := number\<rparr>)) (ret number)"

text \<open>\<^verbatim>\<open>cJSON_SetValuestring\<close> overwrites the old string in place when the new one is not longer; a null
  \<^verbatim>\<open>valuestring\<close>, old or new, is handed to \<^verbatim>\<open>strlen\<close>.\<close>

definition cJSON_SetValuestring :: "addr option \<Rightarrow> string option \<Rightarrow> string option prog" where
  "cJSON_SetValuestring object string =
     bnd (scalars_of object) (\<lambda>n.
       if ctype n AND cJSON_String = 0 \<or> is_reference n then ret None
       else
         (case (string, valuestring n) of
            (Some new, Some old) \<Rightarrow>
              if length (c_str new) \<le> length (c_str old) then
                seq (set_scalars object (\<lambda>n. n\<lparr>valuestring := Some (c_str new)\<rparr>)) (ret (Some (c_str new)))
              else
                bnd (cJSON_strdup string) (\<lambda>copy.
                  if copy = None then ret None
                  else seq (set_scalars object (\<lambda>n. n\<lparr>valuestring := copy\<rparr>)) (ret copy))
          | _ \<Rightarrow> (\<lambda>s. Inl Bad_pointer)))"

section \<open>Duplication\<close>

text \<open>\<open>duplicate\<close> is the function, \<open>duplicate_children\<close> its loop over the children, where \<open>prior\<close> is the
  child attached last.\<close>

definition give_up :: "addr option \<Rightarrow> addr option prog" where
  "give_up newitem = seq (cJSON_Delete newitem) (ret None)"

fun duplicate :: "nat \<Rightarrow> addr option \<Rightarrow> bool \<Rightarrow> addr option prog"
  and duplicate_children :: "nat \<Rightarrow> addr option \<Rightarrow> addr option \<Rightarrow> addr option \<Rightarrow> addr option prog" where
  "duplicate f None recurse = ret None"
| "duplicate 0 (Some item) recurse = (\<lambda>s. Inl Out_of_fuel)"
| "duplicate (Suc f) (Some item) recurse =
     bnd cJSON_New_Item (\<lambda>newitem.
       if newitem = None then ret None
       else
         bnd (scalars_of (Some item)) (\<lambda>n.
         seq (set_scalars newitem (\<lambda>m. m\<lparr>ctype := ctype n AND NOT cJSON_IsReference, valueint := valueint n,
                                         valuedouble := valuedouble n\<rparr>))
        (bnd (cJSON_strdup (valuestring n)) (\<lambda>v.
         seq (set_scalars newitem (\<lambda>m. m\<lparr>valuestring := v\<rparr>))
             (if valuestring n \<noteq> None \<and> v = None then give_up newitem
              else
                bnd (if ctype n AND cJSON_StringIsConst \<noteq> 0 then ret (key n) else cJSON_strdup (key n)) (\<lambda>k.
                seq (set_scalars newitem (\<lambda>m. m\<lparr>key := k\<rparr>))
                    (if key n \<noteq> None \<and> k = None then give_up newitem
                     else if \<not> recurse then ret newitem
                     else bnd (child_of (Some item)) (duplicate_children f newitem None))))))))"
| "duplicate_children f newitem prior None =
     bnd (child_of newitem) (\<lambda>first. seq (only_if (first \<noteq> None) (set_prev first prior)) (ret newitem))"
| "duplicate_children 0 newitem prior (Some c) = (\<lambda>s. Inl Out_of_fuel)"
| "duplicate_children (Suc f) newitem prior (Some c) =
     bnd (duplicate f (Some c) True) (\<lambda>newchild.
       if newchild = None then give_up newitem
       else
         seq (if prior \<noteq> None then seq (set_next prior newchild) (set_prev newchild prior)
              else set_child newitem newchild)
        (bnd (next_of (Some c)) (duplicate_children f newitem newchild)))"

definition cJSON_Duplicate :: "addr option \<Rightarrow> bool \<Rightarrow> addr option prog" where
  "cJSON_Duplicate item recurse s = duplicate (2 * next_addr s) item recurse s"

end
