(* ===== verification/Cjson_Chain.thy ===== *)
theory Cjson_Chain
  imports Cjson_Heap
begin

text \<open>
  The chain behind \<^verbatim>\<open>child\<close> as a list. \<open>array_of m a xs\<close>: the children of the cell \<open>a\<close> are the cells \<open>xs\<close>, in
  this order, linked as the source has it. Every operation on arrays that the pointers implement is an
  operation on this list: appending, taking by index, inserting, detaching, replacing; and none of them
  touches a cell outside the chain.
\<close>

named_theorems heap_run \<open>execution of programs on the store\<close>

lemmas heap_run_defs [heap_run] =
  bnd_def ret_def seq_def only_if_def load_def change_def deallocate_def scalars_of_def next_of_def prev_of_def
  child_of_def set_next_def set_prev_def set_child_def set_scalars_def

section \<open>Chains\<close>

definition hd_opt :: "'a list \<Rightarrow> 'a option" where
  "hd_opt xs = (if xs = [] then None else Some (hd xs))"

definition last_opt :: "'a list \<Rightarrow> 'a option" where
  "last_opt xs = (if xs = [] then None else Some (last xs))"

lemma hd_opt_simps [simp]: "hd_opt [] = None" "hd_opt (x # xs) = Some x"
  by (simp_all add: hd_opt_def)

lemma last_opt_simps [simp]: "last_opt [] = None" "last_opt (xs @ [x]) = Some x" "last_opt (x # xs) = Some (last (x # xs))"
  by (simp_all add: last_opt_def)

text \<open>Cells one after another, from the predecessor \<open>pv\<close> of the first to the successor \<open>nx\<close> of the last.\<close>

fun seg :: "(addr \<rightharpoonup> cell) \<Rightarrow> addr option \<Rightarrow> addr list \<Rightarrow> addr option \<Rightarrow> bool" where
  "seg m pv [] nx \<longleftrightarrow> True"
| "seg m pv (a # as) nx \<longleftrightarrow>
     (\<exists>c. m a = Some c \<and> link_prev c = pv \<and> link_next c = (if as = [] then nx else Some (hd as)) \<and>
       seg m (Some a) as nx)"

lemma seg_append:
  "seg m pv (xs @ ys) nx \<longleftrightarrow>
     seg m pv xs (if ys = [] then nx else Some (hd ys)) \<and> seg m (if xs = [] then pv else Some (last xs)) ys nx"
  by (induction xs arbitrary: pv) auto

lemma seg_frame: "\<forall>a \<in> set xs. m' a = m a \<Longrightarrow> seg m' pv xs nx = seg m pv xs nx"
  by (induction xs arbitrary: pv) auto

lemma seg_upd [simp]: "b \<notin> set xs \<Longrightarrow> seg (m(b := c)) pv xs nx = seg m pv xs nx"
  by (rule seg_frame) auto

lemma seg_dom: "seg m pv xs nx \<Longrightarrow> a \<in> set xs \<Longrightarrow> m a \<noteq> None"
  by (induction xs arbitrary: pv) auto

definition array_of :: "(addr \<rightharpoonup> cell) \<Rightarrow> addr \<Rightarrow> addr list \<Rightarrow> bool" where
  "array_of m a xs \<longleftrightarrow>
     distinct (a # xs) \<and> (\<exists>c. m a = Some c \<and> link_child c = hd_opt xs) \<and> seg m (last_opt xs) xs None"

text \<open>A cell that is in no chain.\<close>

definition loose :: "(addr \<rightharpoonup> cell) \<Rightarrow> addr \<Rightarrow> bool" where
  "loose m i \<longleftrightarrow> (\<exists>c. m i = Some c \<and> link_next c = None \<and> link_prev c = None)"

text \<open>Only pointers have changed, only in the cells \<open>as\<close>, and the child pointer only in \<open>a\<close>.\<close>

definition relinked :: "addr \<Rightarrow> addr set \<Rightarrow> cstore \<Rightarrow> cstore \<Rightarrow> bool" where
  "relinked a as s s' \<longleftrightarrow>
     next_addr s' = next_addr s \<and> shooks s' = shooks s \<and> dom (cells s') = dom (cells s) \<and>
     (\<forall>b. map_option scalars (cells s' b) = map_option scalars (cells s b)) \<and>
     (\<forall>b. b \<notin> as \<longrightarrow> cells s' b = cells s b) \<and>
     (\<forall>b. b \<noteq> a \<longrightarrow> map_option link_child (cells s' b) = map_option link_child (cells s b)) \<and>
     map_option (\<lambda>c. (link_next c, link_prev c)) (cells s' a) =
       map_option (\<lambda>c. (link_next c, link_prev c)) (cells s a)"

lemma two_ends:
  obtains "xs = []" | x where "xs = [x]" | x ys t where "xs = x # ys @ [t]"
  by (metis append_butlast_last_id neq_Nil_conv)

section \<open>Appending\<close>

lemma add_item_to_array_appends:
  assumes "array_of (cells s) a xs" "loose (cells s) i" "i \<noteq> a" "i \<notin> set xs"
  shows "\<exists>s'. add_item_to_array (Some a) (Some i) s = Inr (True, s') \<and> array_of (cells s') a (xs @ [i]) \<and>
    relinked a ({a, i} \<union> set xs) s s'"
proof -
  obtain ca ci where c: "cells s a = Some ca" "cells s i = Some ci" "link_child ca = hd_opt xs"
    "link_next ci = None" using assms(1,2) by (auto simp: array_of_def loose_def)
  show ?thesis
  proof (cases xs rule: two_ends)
    case 1
    then show ?thesis
      using assms c by (auto simp: add_item_to_array_def heap_run array_of_def relinked_def)
  next
    case (2 x)
    then show ?thesis
      using assms c by (auto simp: add_item_to_array_def suffix_object_def heap_run array_of_def relinked_def)
  next
    case (3 x ys t)
    then show ?thesis
      using assms c
      by (auto simp: add_item_to_array_def suffix_object_def heap_run array_of_def relinked_def seg_append)
  qed
qed

section \<open>Taking by index\<close>

lemma walk_next:
  "seg m pv xs None \<Longrightarrow> cells s = m \<Longrightarrow>
    walk k (hd_opt xs) s = Inr (if k < length xs then Some (xs ! k) else None, s)"
proof (induction xs arbitrary: pv k)
  case Nil
  then show ?case by (cases k) (simp_all add: heap_run)
next
  case (Cons x xs)
  from Cons.prems obtain c where "m x = Some c" "link_next c = hd_opt xs" "seg m (Some x) xs None"
    by (auto simp: hd_opt_def split: if_splits)
  with Cons.IH [of "Some x"] Cons.prems(2) show ?case by (cases k) (simp_all add: heap_run)
qed

lemma get_array_item_nth:
  "array_of (cells s) a xs \<Longrightarrow>
    get_array_item (Some a) k s = Inr (if k < length xs then Some (xs ! k) else None, s)"
  by (auto simp: array_of_def get_array_item_def heap_run walk_next)

lemma count_items_length:
  "seg m pv xs None \<Longrightarrow> cells s = m \<Longrightarrow> length xs \<le> f \<Longrightarrow> count_items f (hd_opt xs) s = Inr (length xs, s)"
proof (induction xs arbitrary: pv f)
  case (Cons x xs)
  from Cons.prems obtain c where "m x = Some c" "link_next c = hd_opt xs" "seg m (Some x) xs None"
    by (auto simp: hd_opt_def split: if_splits)
  with Cons.IH [of "Some x" "f - 1"] Cons.prems(2,3) show ?case
    by (cases f) (simp_all add: heap_run)
qed (simp add: heap_run)

text \<open>The addresses in use were handed out by the allocator.\<close>

definition bounded :: "cstore \<Rightarrow> bool" where
  "bounded s \<longleftrightarrow> (\<forall>a \<in> dom (cells s). a < next_addr s)"

lemma bounded_length:
  assumes "bounded s" "distinct xs" "\<forall>x \<in> set xs. cells s x \<noteq> None"
  shows "length xs \<le> next_addr s"
proof -
  have "set xs \<subseteq> {..< next_addr s}" using assms(1,3) by (auto simp: bounded_def)
  then have "card (set xs) \<le> next_addr s" using card_mono [of "{..< next_addr s}"] by fastforce
  then show ?thesis using distinct_card [OF assms(2)] by simp
qed

lemma array_of_length: "bounded s \<Longrightarrow> array_of (cells s) a xs \<Longrightarrow> length xs \<le> next_addr s"
  by (rule bounded_length) (auto simp: array_of_def dest: seg_dom)

lemma cJSON_GetArraySize_length:
  "bounded s \<Longrightarrow> array_of (cells s) a xs \<Longrightarrow> cJSON_GetArraySize (Some a) s = Inr (of_nat (length xs), s)"
  using array_of_length [of s a xs] count_items_length [of "cells s" "last_opt xs" xs s "next_addr s"]
  by (auto simp: array_of_def cJSON_GetArraySize_def heap_run)

section \<open>Detaching\<close>

lemma around:
  obtains "us = []" "vs = []" | v vs' where "us = []" "vs = v # vs'"
    | us' u where "us = us' @ [u]" "vs = []" | us' u v vs' where "us = us' @ [u]" "vs = v # vs'"
  by (metis neq_Nil_conv rev_exhaust)

lemma detach_splits:
  assumes "array_of (cells s) a (us @ i # vs)"
  shows "\<exists>s'. cJSON_DetachItemViaPointer (Some a) (Some i) s = Inr (Some i, s') \<and>
    array_of (cells s') a (us @ vs) \<and> loose (cells s') i \<and> relinked a ({a, i} \<union> set (us @ vs)) s s'"
proof -
  obtain ca where c: "cells s a = Some ca" "link_child ca = hd_opt (us @ i # vs)"
    using assms by (auto simp: array_of_def)
  note defs = cJSON_DetachItemViaPointer_def heap_run array_of_def relinked_def loose_def seg_append
  show ?thesis
  proof (cases us vs rule: around)
    case 1
    then show ?thesis using assms c by (auto simp: defs)
  next
    case (2 v vs')
    then show ?thesis using assms c by (auto simp: defs)
  next
    case (3 us' u)
    then show ?thesis using assms c by (cases us') (auto simp: defs)
  next
    case (4 us' u v vs')
    then show ?thesis using assms c by (cases us') (auto simp: defs)
  qed
qed

section \<open>Inserting and replacing\<close>

lemma insert_splits:
  assumes "array_of (cells s) a (us @ j # vs)" "loose (cells s) i" "i \<noteq> a" "i \<notin> set (us @ j # vs)"
  shows "\<exists>s'. insert_links (Some a) (Some j) (Some i) s = Inr ((), s') \<and>
    array_of (cells s') a (us @ i # j # vs) \<and> relinked a ({a, i} \<union> set (us @ j # vs)) s s'"
proof -
  obtain ca ci where c: "cells s a = Some ca" "cells s i = Some ci" "link_child ca = hd_opt (us @ j # vs)"
    using assms(1,2) by (auto simp: array_of_def loose_def)
  note defs = insert_links_def heap_run array_of_def relinked_def loose_def seg_append
  show ?thesis
  proof (cases us rule: rev_cases)
    case Nil
    then show ?thesis using assms c by (cases vs) (auto simp: defs)
  next
    case (snoc us' u)
    then show ?thesis using assms c by (cases us') (auto simp: defs)
  qed
qed

text \<open>Replacing relinks the chain and then deletes the item that was replaced.\<close>

lemma replace_splits:
  assumes "array_of (cells s) a (us @ j # vs)" "loose (cells s) i" "i \<noteq> a" "i \<notin> set (us @ j # vs)"
  shows "\<exists>s'. replace_links (Some a) (Some j) (Some i) s = Inr ((), s') \<and>
    array_of (cells s') a (us @ i # vs) \<and> loose (cells s') j \<and> relinked a ({a, i} \<union> set (us @ j # vs)) s s'"
proof -
  obtain ca ci where c: "cells s a = Some ca" "cells s i = Some ci" "link_child ca = hd_opt (us @ j # vs)"
    using assms(1,2) by (auto simp: array_of_def loose_def)
  note defs = replace_links_def heap_run array_of_def relinked_def loose_def seg_append
  show ?thesis
  proof (cases us vs rule: around)
    case 1
    then show ?thesis using assms c by (auto simp: defs)
  next
    case (2 v vs')
    then show ?thesis using assms c by (auto simp: defs)
  next
    case (3 us' u)
    then show ?thesis using assms c by (cases us') (auto simp: defs)
  next
    case (4 us' u v vs')
    then show ?thesis using assms c by (cases us') (auto simp: defs)
  qed
qed

end
