(* ===== verification/Cjson_Array.thy ===== *)
theory Cjson_Array
  imports Cjson_Chain
begin

text \<open>
  What the functions on arrays promise their callers: whoever adds, inserts, detaches and fetches elements in
  any order sees a list. The locale \<open>child_list\<close> states the promise of each operation; a run of operations is
  followed inside it once, and \<^verbatim>\<open>src/gstreamer/cJSON.c\<close>'s functions on the store keep it.
\<close>

section \<open>The list behind an array\<close>

datatype child_op = Append addr | Insert int addr | Detach int | Fetch int

datatype op_result = Done bool | Found "addr option"

fun list_step :: "child_op \<Rightarrow> addr list \<Rightarrow> op_result \<times> addr list" where
  "list_step (Append i) xs = (Done True, xs @ [i])"
| "list_step (Insert k i) xs =
     (if k < 0 then (Done False, xs) else (Done True, take (nat k) xs @ i # drop (nat k) xs))"
| "list_step (Detach k) xs =
     (if 0 \<le> k \<and> nat k < length xs then (Found (Some (xs ! nat k)), take (nat k) xs @ drop (Suc (nat k)) xs)
      else (Found None, xs))"
| "list_step (Fetch k) xs = (Found (if 0 \<le> k \<and> nat k < length xs then Some (xs ! nat k) else None), xs)"

text \<open>An element that is added is one of the cells \<open>U\<close> and in no list.\<close>

fun op_ok :: "addr set \<Rightarrow> addr list \<Rightarrow> child_op \<Rightarrow> bool" where
  "op_ok U xs (Append i) \<longleftrightarrow> i \<in> U \<and> i \<notin> set xs"
| "op_ok U xs (Insert k i) \<longleftrightarrow> i \<in> U \<and> i \<notin> set xs"
| "op_ok U xs _ \<longleftrightarrow> True"

fun list_run :: "child_op list \<Rightarrow> addr list \<Rightarrow> op_result list \<times> addr list" where
  "list_run [] xs = ([], xs)"
| "list_run (p # ps) xs =
     (case list_step p xs of (r, xs') \<Rightarrow> (case list_run ps xs' of (rs, ys) \<Rightarrow> (r # rs, ys)))"

fun ops_ok :: "addr set \<Rightarrow> addr list \<Rightarrow> child_op list \<Rightarrow> bool" where
  "ops_ok U xs [] \<longleftrightarrow> True"
| "ops_ok U xs (p # ps) \<longleftrightarrow> op_ok U xs p \<and> ops_ok U (snd (list_step p xs)) ps"

section \<open>The contract\<close>

locale child_list =
  fixes rep :: "'s \<Rightarrow> addr list \<Rightarrow> bool"
    and same :: "'s \<Rightarrow> 's \<Rightarrow> bool"
    and universe :: "addr set"
    and append :: "addr \<Rightarrow> 's \<Rightarrow> 'e + bool \<times> 's"
    and insert_at :: "int \<Rightarrow> addr \<Rightarrow> 's \<Rightarrow> 'e + bool \<times> 's"
    and detach_at :: "int \<Rightarrow> 's \<Rightarrow> 'e + addr option \<times> 's"
    and fetch_at :: "int \<Rightarrow> 's \<Rightarrow> 'e + addr option \<times> 's"
  assumes same_refl: "same s s"
    and same_trans: "same s s' \<Longrightarrow> same s' s'' \<Longrightarrow> same s s''"
    and append: "rep s xs \<Longrightarrow> i \<in> universe \<Longrightarrow> i \<notin> set xs \<Longrightarrow>
      \<exists>s'. append i s = Inr (True, s') \<and> rep s' (xs @ [i]) \<and> same s s'"
    and insert_before: "rep s (us @ j # vs) \<Longrightarrow> i \<in> universe \<Longrightarrow> i \<notin> set (us @ j # vs) \<Longrightarrow>
      \<exists>s'. insert_at (int (length us)) i s = Inr (True, s') \<and> rep s' (us @ i # j # vs) \<and> same s s'"
    and insert_behind: "rep s xs \<Longrightarrow> i \<in> universe \<Longrightarrow> i \<notin> set xs \<Longrightarrow> int (length xs) \<le> k \<Longrightarrow>
      insert_at k i s = append i s"
    and insert_negative: "k < 0 \<Longrightarrow> insert_at k i s = Inr (False, s)"
    and detach: "rep s (us @ i # vs) \<Longrightarrow>
      \<exists>s'. detach_at (int (length us)) s = Inr (Some i, s') \<and> rep s' (us @ vs) \<and> same s s'"
    and detach_outside: "rep s xs \<Longrightarrow> k < 0 \<or> int (length xs) \<le> k \<Longrightarrow> detach_at k s = Inr (None, s)"
    and fetch: "rep s xs \<Longrightarrow>
      fetch_at k s = Inr (if 0 \<le> k \<and> nat k < length xs then Some (xs ! nat k) else None, s)"
begin

definition mapped :: "('a \<Rightarrow> op_result) \<Rightarrow> 'e + 'a \<times> 's \<Rightarrow> 'e + op_result \<times> 's" where
  "mapped f r = try_bind r (\<lambda>(x, s). Inr (f x, s))"

fun perform :: "child_op \<Rightarrow> 's \<Rightarrow> 'e + op_result \<times> 's" where
  "perform (Append i) s = mapped Done (append i s)"
| "perform (Insert k i) s = mapped Done (insert_at k i s)"
| "perform (Detach k) s = mapped Found (detach_at k s)"
| "perform (Fetch k) s = mapped Found (fetch_at k s)"

fun perform_all :: "child_op list \<Rightarrow> 's \<Rightarrow> 'e + op_result list \<times> 's" where
  "perform_all [] s = Inr ([], s)"
| "perform_all (p # ps) s =
     try_bind (perform p s) (\<lambda>(r, s'). try_bind (perform_all ps s') (\<lambda>(rs, s''). Inr (r # rs, s'')))"

lemma perform_step:
  assumes "rep s xs" "op_ok universe xs p"
  shows "\<exists>s'. perform p s = Inr (fst (list_step p xs), s') \<and> rep s' (snd (list_step p xs)) \<and> same s s'"
proof (cases p)
  case (Append i)
  then show ?thesis using append [OF assms(1), of i] assms(2) by (auto simp: mapped_def)
next
  case (Insert k i)
  consider "k < 0" | "int (length xs) \<le> k" | "0 \<le> k" "k < int (length xs)" by linarith
  then show ?thesis
  proof cases
    case 1
    then show ?thesis using assms by (auto simp: Insert insert_negative mapped_def same_refl)
  next
    case 2
    then show ?thesis
      using insert_behind [OF assms(1), of i k] append [OF assms(1), of i] assms(2) by (auto simp: Insert mapped_def)
  next
    case 3
    then have "nat k < length xs" by linarith
    note split = id_take_nth_drop [OF this]
    then have "i \<notin> set (take (nat k) xs @ xs ! nat k # drop (Suc (nat k)) xs)" "i \<in> universe" using assms(2) Insert by auto
    from insert_before [OF _ this(2,1)] show ?thesis
      using assms(1) split 3 \<open>nat k < length xs\<close>
      by (fastforce simp: Insert mapped_def min_def Cons_nth_drop_Suc)
  qed
next
  case (Detach k)
  show ?thesis
  proof (cases "0 \<le> k \<and> nat k < length xs")
    case True
    then show ?thesis
      using detach [of s "take (nat k) xs" "xs ! nat k" "drop (Suc (nat k)) xs"] assms(1)
      by (auto simp: Detach mapped_def min_def Cons_nth_drop_Suc)
  next
    case False
    then have "k < 0 \<or> int (length xs) \<le> k" by linarith
    from detach_outside [OF assms(1) this] False show ?thesis
      using assms(1) by (auto simp: Detach mapped_def same_refl)
  qed
next
  case (Fetch k)
  then show ?thesis using fetch [OF assms(1)] assms(1) by (auto simp: mapped_def same_refl)
qed

lemma performs_list:
  "rep s xs \<Longrightarrow> ops_ok universe xs ps \<Longrightarrow>
    \<exists>s'. perform_all ps s = Inr (fst (list_run ps xs), s') \<and> rep s' (snd (list_run ps xs)) \<and> same s s'"
proof (induction ps arbitrary: s xs)
  case Nil
  then show ?case by (simp add: same_refl)
next
  case (Cons p ps)
  then obtain s1 where s1: "perform p s = Inr (fst (list_step p xs), s1)" "rep s1 (snd (list_step p xs))" "same s s1"
    using perform_step [of s xs p] by auto
  moreover obtain s2 where "perform_all ps s1 = Inr (fst (list_run ps (snd (list_step p xs))), s2)"
      "rep s2 (snd (list_run ps (snd (list_step p xs))))" "same s1 s2"
    using Cons.IH [OF s1(2)] Cons.prems(2) by auto
  ultimately show ?case using same_trans by (auto split: prod.splits)
qed

end

section \<open>The functions on the store\<close>

definition run_op :: "addr option \<Rightarrow> child_op \<Rightarrow> op_result prog" where
  "run_op array p =
     (case p of
        Append i \<Rightarrow> bnd (cJSON_AddItemToArray array (Some i)) (\<lambda>b. ret (Done b))
      | Insert k i \<Rightarrow> bnd (cJSON_InsertItemInArray array k (Some i)) (\<lambda>b. ret (Done b))
      | Detach k \<Rightarrow> bnd (cJSON_DetachItemFromArray array k) (\<lambda>r. ret (Found r))
      | Fetch k \<Rightarrow> bnd (cJSON_GetArrayItem array k) (\<lambda>r. ret (Found r)))"

fun run_ops :: "addr option \<Rightarrow> child_op list \<Rightarrow> op_result list prog" where
  "run_ops array [] = ret []"
| "run_ops array (p # ps) = bnd (run_op array p) (\<lambda>r. bnd (run_ops array ps) (\<lambda>rs. ret (r # rs)))"

text \<open>The array \<open>a\<close> has the elements \<open>xs\<close>, and the other cells of \<open>U\<close> are in no list.\<close>

definition holds :: "addr \<Rightarrow> addr set \<Rightarrow> cstore \<Rightarrow> addr list \<Rightarrow> bool" where
  "holds a U s xs \<longleftrightarrow> array_of (cells s) a xs \<and> a \<notin> U \<and> set xs \<subseteq> U \<and> (\<forall>i \<in> U - set xs. loose (cells s) i)"

definition kept :: "addr set \<Rightarrow> cstore \<Rightarrow> cstore \<Rightarrow> bool" where
  "kept A s s' \<longleftrightarrow>
     next_addr s' = next_addr s \<and> shooks s' = shooks s \<and> dom (cells s') = dom (cells s) \<and>
     (\<forall>b. map_option scalars (cells s' b) = map_option scalars (cells s b)) \<and>
     (\<forall>b. b \<notin> A \<longrightarrow> cells s' b = cells s b)"

lemma relinked_kept: "relinked a B s s' \<Longrightarrow> B \<subseteq> A \<Longrightarrow> kept A s s'"
  unfolding relinked_def kept_def by blast

lemma relinked_loose: "relinked a B s s' \<Longrightarrow> j \<notin> B \<Longrightarrow> loose (cells s') j = loose (cells s) j"
  by (simp add: relinked_def loose_def)

lemma holds_after:
  assumes "holds a U s xs" "array_of (cells s') a ys" "relinked a ({a, i} \<union> set xs) s s'" "i \<in> U"
    "set ys \<subseteq> insert i (set xs)" "set xs - {i} \<subseteq> set ys" "i \<in> set ys \<or> loose (cells s') i"
  shows "holds a U s' ys" "kept (insert a U) s s'"
proof -
  have "loose (cells s') j" if "j \<in> U - set ys" for j
  proof (cases "j = i")
    case False
    then have "j \<notin> {a, i} \<union> set xs" "loose (cells s) j" using that assms(1,6) by (auto simp: holds_def)
    then show ?thesis using relinked_loose [OF assms(3)] by blast
  qed (use that assms(7) in auto)
  then show "holds a U s' ys" using assms by (auto simp: holds_def)
  show "kept (insert a U) s s'" using assms(1,3,4) by (intro relinked_kept) (auto simp: holds_def)
qed

interpretation children: child_list "holds a U" "kept (insert a U)" U "\<lambda>i. cJSON_AddItemToArray (Some a) (Some i)"
    "\<lambda>k i. cJSON_InsertItemInArray (Some a) k (Some i)" "\<lambda>k. cJSON_DetachItemFromArray (Some a) k"
    "\<lambda>k. cJSON_GetArrayItem (Some a) k" for a U
proof (unfold_locales, goal_cases)
  case (3 s xs i)
  then obtain s' where "add_item_to_array (Some a) (Some i) s = Inr (True, s')" "array_of (cells s') a (xs @ [i])"
      "relinked a ({a, i} \<union> set xs) s s'"
    using add_item_to_array_appends [of s a xs i] by (auto simp: holds_def)
  with 3 holds_after [OF 3(1), of s' "xs @ [i]" i] show ?case by (auto simp: cJSON_AddItemToArray_def)
next
  case (4 s us j vs i)
  then obtain s' where s': "insert_links (Some a) (Some j) (Some i) s = Inr ((), s')"
      "array_of (cells s') a (us @ i # j # vs)" "relinked a ({a, i} \<union> set (us @ j # vs)) s s'"
    using insert_splits [of s a us j vs i] by (auto simp: holds_def)
  moreover have "get_array_item (Some a) (length us) s = Inr (Some j, s)"
    using get_array_item_nth [of s a "us @ j # vs"] 4(1) by (auto simp: holds_def)
  ultimately show ?case
    using 4 holds_after [OF 4(1) s'(2,3)] by (auto simp: cJSON_InsertItemInArray_def bnd_def seq_def ret_def)
next
  case (5 s xs i k)
  then show ?case
    using get_array_item_nth [of s a xs "nat k"]
    by (auto simp: holds_def cJSON_InsertItemInArray_def cJSON_AddItemToArray_def bnd_def)
next
  case (7 s us i vs)
  then obtain s' where s': "cJSON_DetachItemViaPointer (Some a) (Some i) s = Inr (Some i, s')"
      "array_of (cells s') a (us @ vs)" "loose (cells s') i" "relinked a ({a, i} \<union> set (us @ vs)) s s'"
    using detach_splits [of s a us i vs] by (auto simp: holds_def)
  have "{a, i} \<union> set (us @ vs) = {a, i} \<union> set (us @ i # vs)" by auto
  note r = s'(4) [unfolded this]
  moreover have "get_array_item (Some a) (length us) s = Inr (Some i, s)"
    using get_array_item_nth [of s a "us @ i # vs"] 7 by (auto simp: holds_def)
  ultimately show ?case
    using 7 s' holds_after [OF 7 s'(2) r] by (auto simp: cJSON_DetachItemFromArray_def bnd_def holds_def)
next
  case (8 s xs k)
  then show ?case
    using get_array_item_nth [of s a xs "nat k"]
    by (auto simp: holds_def cJSON_DetachItemFromArray_def cJSON_DetachItemViaPointer_def bnd_def ret_def)
next
  case (9 s xs k)
  then show ?case
    using get_array_item_nth [of s a xs "nat k"]
    by (auto simp: holds_def cJSON_GetArrayItem_def ret_def)
qed (auto simp: kept_def cJSON_InsertItemInArray_def ret_def)

lemma perform_run_op: "children.perform a p s = run_op (Some a) p s"
  by (cases p) (auto simp: run_op_def children.mapped_def bnd_def ret_def split: sum.splits)

lemma perform_all_run_ops: "children.perform_all a ps s = run_ops (Some a) ps s"
  by (induction ps arbitrary: s) (auto simp: perform_run_op bnd_def ret_def intro!: try_bind_cong)

text \<open>C11. An array of cJSON items behaves as a list: any sequence of additions, insertions by index,
  detachments and lookups of items, at any indices, returns what the same operations on a list return and
  leaves an array whose elements are that list, doubly linked; the contents of the items and every cell
  outside the array are as before.\<close>

theorem arrays_refine_lists:
  assumes "holds a U s xs" "ops_ok U xs ps"
  shows "\<exists>s'. run_ops (Some a) ps s = Inr (fst (list_run ps xs), s') \<and>
    array_of (cells s') a (snd (list_run ps xs)) \<and> kept (insert a U) s s'"
  using children.performs_list [OF assms] by (auto simp: perform_all_run_ops holds_def)

definition loose_cell :: cell where
  "loose_cell = \<lparr>scalars = zero_node, link_next = None, link_prev = None, link_child = None\<rparr>"

theorem arrays_refine_lists_witness:
  "\<exists>s'. run_ops (Some 0) [Append 1, Append 2, Insert 1 3, Detach 0, Append 1, Fetch 5]
      \<lparr>cells = [0 \<mapsto> loose_cell, 1 \<mapsto> loose_cell, 2 \<mapsto> loose_cell, 3 \<mapsto> loose_cell], next_addr = 4, shooks = ample\<rparr> =
    Inr ([Done True, Done True, Done True, Found (Some 1), Done True, Found None], s') \<and>
    array_of (cells s') 0 [3, 2, 1]"
  using arrays_refine_lists [of 0 "{1, 2, 3}" "\<lparr>cells = [0 \<mapsto> loose_cell, 1 \<mapsto> loose_cell, 2 \<mapsto> loose_cell,
      3 \<mapsto> loose_cell], next_addr = 4, shooks = ample\<rparr>" "[]"
      "[Append 1, Append 2, Insert 1 3, Detach 0, Append 1, Fetch 5]"]
  by (auto simp: holds_def array_of_def loose_def loose_cell_def)

end
