(* ===== verification/Cjson_Tree.thy ===== *)
theory Cjson_Tree
  imports Cjson_Chain
begin

text \<open>
  Items as trees of cells: which cells belong to an item, and which tree of \<open>Cjson_Item\<close> they hold.
  \<^verbatim>\<open>cJSON_Delete\<close> frees exactly these cells; \<^verbatim>\<open>cJSON_Duplicate\<close> makes a copy out of new cells, or leaves
  nothing behind when memory runs out; what the creating functions return is a tree of its own.
\<close>

section \<open>Trees of cells\<close>

datatype ptree = PNode addr "ptree list"

primrec proot :: "ptree \<Rightarrow> addr" where
  "proot (PNode a ts) = a"

primrec addrs :: "ptree \<Rightarrow> addr list" where
  "addrs (PNode a ts) = a # concat (map addrs ts)"

abbreviation forest_addrs :: "ptree list \<Rightarrow> addr list" where
  "forest_addrs ts \<equiv> concat (map addrs ts)"

fun nexts :: "(addr \<rightharpoonup> cell) \<Rightarrow> addr list \<Rightarrow> bool" where
  "nexts m [] \<longleftrightarrow> True"
| "nexts m (a # as) \<longleftrightarrow> (\<exists>c. m a = Some c \<and> link_next c = hd_opt as \<and> nexts m as)"

text \<open>The cells \<^verbatim>\<open>cJSON_Delete\<close> reaches: a reference does not own its children.\<close>

fun owns :: "(addr \<rightharpoonup> cell) \<Rightarrow> ptree \<Rightarrow> bool" where
  "owns m (PNode a ts) \<longleftrightarrow>
     (\<exists>c. m a = Some c \<and>
       (if is_reference (scalars c) then ts = []
        else link_child c = hd_opt (map proot ts) \<and> nexts m (map proot ts))) \<and>
     (\<forall>t \<in> set ts. owns m t)"

text \<open>A tree without references, all chains linked in both directions.\<close>

fun tree_of :: "(addr \<rightharpoonup> cell) \<Rightarrow> ptree \<Rightarrow> bool" where
  "tree_of m (PNode a ts) \<longleftrightarrow>
     (\<exists>c. m a = Some c \<and> \<not> is_reference (scalars c)) \<and> array_of m a (map proot ts) \<and>
     (\<forall>t \<in> set ts. tree_of m t)"

primrec tree_item :: "(addr \<rightharpoonup> cell) \<Rightarrow> ptree \<Rightarrow> cJSON" where
  "tree_item m (PNode a ts) = Item (scalars (the (m a))) (map (tree_item m) ts)"

lemma root_addrs [simp]: "proot t \<in> set (addrs t)"
  by (cases t) simp

lemma roots_addrs: "set (map proot ts) \<subseteq> set (forest_addrs ts)"
  by (induction ts) (auto simp del: set_concat)

lemma distinct_roots: "distinct (forest_addrs ts) \<Longrightarrow> distinct (map proot ts)"
proof (induction ts)
  case (Cons t ts)
  then have "proot t \<notin> set (forest_addrs ts)" by (metis IntI concat.simps(2) distinct_append emptyE list.simps(9) root_addrs)
  then have "proot t \<notin> set (map proot ts)" using roots_addrs [of ts] by blast
  with Cons show ?case by simp
qed simp

lemma restrict_UNIV [simp]: "s\<lparr>cells := cells s |` UNIV\<rparr> = s" for s :: cstore
  by (simp add: restrict_map_def)

lemma root_elsewhere:
  assumes "set (addrs d) \<inter> A = {}"
  shows "proot d \<notin> A"
  using assms root_addrs [of d] by blast

lemma root_apart:
  assumes "distinct (forest_addrs us @ addrs d)"
  shows "\<forall>u \<in> set us. proot d \<notin> set (addrs u)" "proot d \<notin> set (map proot us)"
proof -
  have "proot d \<notin> set (forest_addrs us)" using assms by (intro root_elsewhere) auto
  then show "\<forall>u \<in> set us. proot d \<notin> set (addrs u)" "proot d \<notin> set (map proot us)"
    using roots_addrs [of us] by auto
qed

lemma nexts_frame: "\<forall>a \<in> set as. m' a = m a \<Longrightarrow> nexts m' as = nexts m as"
  by (induction as) auto

lemma nexts_seg: "seg m pv as None \<Longrightarrow> nexts m as"
  by (induction as arbitrary: pv) (auto simp: hd_opt_def)

lemma owns_frame: "\<forall>a \<in> set (addrs t). m' a = m a \<Longrightarrow> owns m' t = owns m t"
proof (induction t)
  case (PNode a ts)
  then have "\<forall>t \<in> set ts. owns m' t = owns m t" by auto
  moreover have "nexts m' (map proot ts) = nexts m (map proot ts)"
    using PNode.prems roots_addrs [of ts] by (intro nexts_frame) auto
  ultimately show ?case using PNode.prems by simp
qed

lemma tree_item_frame: "\<forall>a \<in> set (addrs t). m' a = m a \<Longrightarrow> tree_item m' t = tree_item m t"
  by (induction t) auto

lemma array_of_frame:
  "m' a = m a \<Longrightarrow> \<forall>x \<in> set xs. m' x = m x \<Longrightarrow> array_of m' a xs = array_of m a xs"
  using seg_frame [of xs m' m "last_opt xs" None] by (simp add: array_of_def)

lemma tree_of_frame: "\<forall>a \<in> set (addrs t). m' a = m a \<Longrightarrow> tree_of m' t = tree_of m t"
proof (induction t)
  case (PNode a ts)
  then have "\<forall>t \<in> set ts. tree_of m' t = tree_of m t" by auto
  moreover have "array_of m' a (map proot ts) = array_of m a (map proot ts)"
    using PNode.prems roots_addrs [of ts] by (intro array_of_frame) auto
  ultimately show ?case using PNode.prems by simp
qed

lemma owns_tree: "tree_of m t \<Longrightarrow> owns m t"
  by (induction t) (auto simp: array_of_def intro: nexts_seg)

lemma owns_dom: "owns m t \<Longrightarrow> a \<in> set (addrs t) \<Longrightarrow> m a \<noteq> None"
  by (induction t) auto

section \<open>Deleting\<close>

lemma delete_forest:
  assumes "\<forall>t \<in> set ts. owns (cells s) t" "nexts (cells s) (map proot ts)" "distinct (forest_addrs ts)"
    and "length (forest_addrs ts) \<le> f"
  shows "delete_items f (hd_opt (map proot ts)) s = Inr ((), s\<lparr>cells := cells s |` (- set (forest_addrs ts))\<rparr>)"
  using assms
proof (induction "length (forest_addrs ts)" arbitrary: ts f s rule: less_induct)
  case less
  show ?case
  proof (cases ts)
    case Nil
    then show ?thesis by (simp add: ret_def restrict_UNIV)
  next
    case (Cons t rest)
    obtain a cs where t: "t = PNode a cs" by (cases t)
    obtain f' where f: "f = Suc f'" using less.prems(4) Cons t by (cases f) auto
    have dis: "a \<notin> set (forest_addrs cs)" "a \<notin> set (forest_addrs rest)" "distinct (forest_addrs cs)"
      "distinct (forest_addrs rest)" "set (forest_addrs cs) \<inter> set (forest_addrs rest) = {}"
      using less.prems(3) Cons t by auto
    obtain c where c: "cells s a = Some c" "link_next c = hd_opt (map proot rest)" "nexts (cells s) (map proot rest)"
      using less.prems(2) Cons t by auto
    have own: "if is_reference (scalars c) then cs = []
        else link_child c = hd_opt (map proot cs) \<and> nexts (cells s) (map proot cs)" "\<forall>t \<in> set cs. owns (cells s) t"
      using less.prems(1) Cons t c(1) by auto
    define s1 where "s1 = s\<lparr>cells := cells s |` (- set (forest_addrs cs))\<rparr>"
    have first: "only_if (\<not> is_reference (scalars c) \<and> link_child c \<noteq> None) (delete_items f' (link_child c)) s = Inr ((), s1)"
    proof (cases "cs = []")
      case True
      with own(1) show ?thesis
        by (auto simp: only_if_def ret_def s1_def split: if_splits)
    next
      case False
      have "delete_items f' (hd_opt (map proot cs)) s = Inr ((), s1)"
        unfolding s1_def
      proof (rule less.hyps)
        show "length (forest_addrs cs) < length (forest_addrs ts)" "length (forest_addrs cs) \<le> f'"
          using less.prems(4) Cons t f by auto
      qed (use own False dis(3) in \<open>auto split: if_splits\<close>)
      with own(1) False show ?thesis by (auto simp: only_if_def hd_opt_def split: if_splits)
    qed
    define s2 where "s2 = s1\<lparr>cells := (cells s1)(a := None)\<rparr>"
    have "cells s1 a = Some c" using c(1) dis(1) by (simp add: s1_def)
    then have second: "deallocate (Some a) s1 = Inr ((), s2)" by (simp add: heap_run s2_def)
    have same: "\<forall>b \<in> set (forest_addrs rest). cells s2 b = cells s b"
      using dis by (auto simp: s2_def s1_def restrict_map_def)
    have "delete_items f' (hd_opt (map proot rest)) s2 =
        Inr ((), s2\<lparr>cells := cells s2 |` (- set (forest_addrs rest))\<rparr>)"
    proof (rule less.hyps)
      show "length (forest_addrs rest) < length (forest_addrs ts)" "length (forest_addrs rest) \<le> f'"
        using less.prems(4) Cons t f by auto
      show "\<forall>t \<in> set rest. owns (cells s2) t"
        using less.prems(1) Cons same owns_frame [of _ "cells s2" "cells s"] by auto
      show "nexts (cells s2) (map proot rest)"
        using c(3) same roots_addrs [of rest] nexts_frame [of "map proot rest" "cells s2" "cells s"] by blast
    qed (use dis in simp)
    moreover have "s2\<lparr>cells := cells s2 |` (- set (forest_addrs rest))\<rparr> =
        s\<lparr>cells := cells s |` (- set (forest_addrs ts))\<rparr>"
      by (simp add: s2_def s1_def Cons t restrict_map_def fun_eq_iff)
    moreover have "hd_opt (map proot ts) = Some a" by (simp add: Cons t)
    moreover have "load (Some a) s = Inr (c, s)" using c(1) by (simp add: load_def)
    ultimately show ?thesis
      using first second c(2) by (simp add: f bnd_def seq_def)
  qed
qed

lemma delete_tree:
  assumes "owns (cells s) t" "distinct (addrs t)" "bounded s" "cells s (proot t) = Some c" "link_next c = None"
  shows "cJSON_Delete (Some (proot t)) s = Inr ((), s\<lparr>cells := cells s |` (- set (addrs t))\<rparr>)"
proof -
  have "length (addrs t) \<le> next_addr s"
    using bounded_length [OF assms(3,2)] owns_dom [OF assms(1)] by blast
  then show ?thesis
    using delete_forest [of "[t]" s "next_addr s"] assms by (simp add: cJSON_Delete_def)
qed

section \<open>Allocation\<close>

lemma New_Item_cases:
  obtains h where "cJSON_New_Item s = Inr (None, s\<lparr>shooks := h\<rparr>)" "\<not> unfailing (shooks s)"
  | h where "cJSON_New_Item s = Inr (Some (next_addr s),
      s\<lparr>cells := (cells s)(next_addr s \<mapsto> empty_cell), next_addr := next_addr s + 1, shooks := h\<rparr>)"
      "unfailing (shooks s) \<Longrightarrow> unfailing h"
proof (cases "fst (allocate (shooks s))")
  case True
  then show thesis
    by (intro that(2) [of "snd (allocate (shooks s))"])
      (auto simp: cJSON_New_Item_def allocate_def unfailing_def)
next
  case False
  then show thesis
    by (intro that(1) [of "snd (allocate (shooks s))"])
      (auto simp: cJSON_New_Item_def allocate_def unfailing_def)
qed

lemma strdup_cases:
  obtains h where "cJSON_strdup x s = Inr (None, s\<lparr>shooks := h\<rparr>)" "x \<noteq> None" "\<not> unfailing (shooks s)"
  | h where "cJSON_strdup x s = Inr (map_option c_str x, s\<lparr>shooks := h\<rparr>)" "unfailing (shooks s) \<Longrightarrow> unfailing h"
proof (cases "x \<noteq> None \<and> \<not> fst (allocate (shooks s))")
  case True
  then show thesis
    by (intro that(1) [of "snd (allocate (shooks s))"])
      (auto simp: cJSON_strdup_def allocate_def unfailing_def)
next
  case False
  then show thesis
    by (intro that(2) [of "if x = None then shooks s else snd (allocate (shooks s))"])
      (auto simp: cJSON_strdup_def allocate_def unfailing_def split: option.splits)
qed

lemma bounded_fresh: "bounded s \<Longrightarrow> next_addr s \<le> a \<Longrightarrow> cells s a = None"
  by (cases "cells s a") (auto simp: bounded_def dom_def)

section \<open>Duplicating\<close>

definition dup_node :: "cnode \<Rightarrow> cnode" where
  "dup_node n = n\<lparr>ctype := ctype n AND NOT cJSON_IsReference, valuestring := map_option c_str (valuestring n),
     key := (if ctype n AND cJSON_StringIsConst \<noteq> 0 then key n else map_option c_str (key n))\<rparr>"

primrec dup_item :: "cJSON \<Rightarrow> cJSON" where
  "dup_item (Item n cs) = Item (dup_node n) (map dup_item cs)"

text \<open>What a call leaves behind: nothing but the allocator's state, or a tree of new cells.\<close>

definition copies :: "cstore \<Rightarrow> cJSON \<Rightarrow> addr option \<Rightarrow> cstore \<Rightarrow> bool" where
  "copies s it r s' \<longleftrightarrow> next_addr s \<le> next_addr s' \<and> bounded s' \<and>
     (unfailing (shooks s) \<longrightarrow> r \<noteq> None \<and> unfailing (shooks s')) \<and>
     (case r of
        None \<Rightarrow> cells s' = cells s
      | Some b \<Rightarrow> \<exists>t. proot t = b \<and> tree_of (cells s') t \<and> distinct (addrs t) \<and>
          set (addrs t) \<subseteq> {next_addr s ..< next_addr s'} \<and> loose (cells s') b \<and>
          tree_item (cells s') t = it \<and> (\<forall>a. a \<notin> set (addrs t) \<longrightarrow> cells s' a = cells s a))"

text \<open>The copy under construction: the cell \<open>b\<close> with the children \<open>ds\<close> so far, of which the first has no
  predecessor yet; \<open>s0\<close> is the store in which \<open>b\<close> was allocated.\<close>

definition building :: "cstore \<Rightarrow> addr \<Rightarrow> cnode \<Rightarrow> ptree list \<Rightarrow> cstore \<Rightarrow> bool" where
  "building s0 b n ds s \<longleftrightarrow> bounded s \<and> b < next_addr s \<and>
     cells s b = Some \<lparr>scalars = n, link_next = None, link_prev = None, link_child = hd_opt (map proot ds)\<rparr> \<and>
     seg (cells s) None (map proot ds) None \<and> (\<forall>t \<in> set ds. tree_of (cells s) t) \<and>
     distinct (b # forest_addrs ds) \<and> set (b # forest_addrs ds) \<subseteq> {next_addr s0 ..< next_addr s} \<and>
     bounded s0 \<and> (\<forall>a. a \<notin> set (b # forest_addrs ds) \<longrightarrow> cells s a = cells s0 a)"

lemma give_up_building:
  assumes "building s0 b n ds s" "\<not> is_reference n"
  shows "\<exists>s'. give_up (Some b) s = Inr (None, s') \<and> cells s' = cells s0 \<and> next_addr s' = next_addr s \<and>
    shooks s' = shooks s \<and> bounded s'"
proof -
  let ?t = "PNode b ds"
  have "owns (cells s) ?t"
    using assms by (auto simp: building_def intro: nexts_seg owns_tree)
  moreover have "distinct (addrs ?t)" "bounded s" using assms(1) by (auto simp: building_def)
  ultimately have d: "cJSON_Delete (Some b) s = Inr ((), s\<lparr>cells := cells s |` (- set (addrs ?t))\<rparr>)"
    using delete_tree [of s ?t] assms(1) by (auto simp: building_def)
  have "cells s |` (- set (addrs ?t)) = cells s0"
  proof
    fix a
    show "(cells s |` (- set (addrs ?t))) a = cells s0 a"
    proof (cases "a \<in> set (addrs ?t)")
      case True
      then have "next_addr s0 \<le> a" "bounded s0" using assms(1) by (auto simp: building_def)
      with True bounded_fresh [of s0 a] show ?thesis by simp
    qed (use assms(1) in \<open>auto simp: building_def\<close>)
  qed
  moreover have "bounded (s\<lparr>cells := cells s |` (- set (addrs ?t))\<rparr>)"
    using assms(1) by (auto simp: building_def bounded_def dom_def restrict_map_def split: if_splits)
  ultimately show ?thesis using d by (auto simp: give_up_def seq_def bnd_def ret_def)
qed

lemma tree_root_upd:
  assumes "tree_of m t" "distinct (addrs t)" "m (proot t) = Some c" "scalars c' = scalars c"
    "link_child c' = link_child c"
  shows "tree_of (m(proot t \<mapsto> c')) t" "tree_item (m(proot t \<mapsto> c')) t = tree_item m t"
proof -
  obtain a ts where t: "t = PNode a ts" by (cases t)
  have a: "a \<notin> set (addrs u)" if "u \<in> set ts" for u using assms(2) that by (auto simp: t)
  have "\<forall>u \<in> set ts. tree_of (m(a \<mapsto> c')) u = tree_of m u"
    using a by (intro ballI tree_of_frame) auto
  moreover have "array_of (m(a \<mapsto> c')) a (map proot ts)"
    using assms by (auto simp: t array_of_def)
  ultimately show "tree_of (m(proot t \<mapsto> c')) t" using assms by (auto simp: t)
  have "map (tree_item (m(a \<mapsto> c'))) ts = map (tree_item m) ts"
    using a by (intro map_cong refl tree_item_frame) auto
  then show "tree_item (m(proot t \<mapsto> c')) t = tree_item m t" using assms by (simp add: t)
qed

lemma tree_upd_other:
  assumes "a \<notin> set (addrs t)"
  shows "tree_of (m(a := x)) t = tree_of m t" "tree_item (m(a := x)) t = tree_item m t"
  using assms tree_of_frame [of t "m(a := x)" m] tree_item_frame [of t "m(a := x)" m] by auto

text \<open>One more child.\<close>

definition attach :: "addr option \<Rightarrow> addr option \<Rightarrow> addr option \<Rightarrow> unit prog" where
  "attach newitem prior newchild =
     (if prior \<noteq> None then seq (set_next prior newchild) (set_prev newchild prior)
      else set_child newitem newchild)"

lemma building_attach:
  assumes b: "building s0 b n ds s" and t: "tree_of (cells s1) t" "distinct (addrs t)"
      "set (addrs t) \<subseteq> {next_addr s ..< next_addr s1}" "loose (cells s1) (proot t)"
    and s1: "\<forall>a. a \<notin> set (addrs t) \<longrightarrow> cells s1 a = cells s a" "bounded s1" "next_addr s \<le> next_addr s1"
  shows "\<exists>s2. attach (Some b) (last_opt (map proot ds)) (Some (proot t)) s1 = Inr ((), s2) \<and>
    building s0 b n (ds @ [t]) s2 \<and> shooks s2 = shooks s1 \<and> next_addr s2 = next_addr s1 \<and>
    map (tree_item (cells s2)) (ds @ [t]) = map (tree_item (cells s)) ds @ [tree_item (cells s1) t]"
proof -
  let ?r = "proot t"
  have old: "\<forall>a \<in> set (b # forest_addrs ds). a \<notin> set (addrs t) \<and> cells s1 a = cells s a"
  proof
    fix a assume "a \<in> set (b # forest_addrs ds)"
    then have "a < next_addr s" using b unfolding building_def by (meson atLeastLessThan_iff subsetD)
    then have "a \<notin> set (addrs t)" using t(3) by auto
    with s1(1) show "a \<notin> set (addrs t) \<and> cells s1 a = cells s a" by simp
  qed
  have oldr: "\<forall>a \<in> set (b # forest_addrs ds). a \<noteq> ?r" using old root_addrs by metis
  have cb: "cells s1 b = Some \<lparr>scalars = n, link_next = None, link_prev = None, link_child = hd_opt (map proot ds)\<rparr>"
    using b old by (simp add: building_def)
  obtain cr where cr: "cells s1 ?r = Some cr" "link_next cr = None" "link_prev cr = None"
    using t(4) by (auto simp: loose_def)
  have sg: "seg (cells s1) None (map proot ds) None"
    using b old roots_addrs [of ds] seg_frame [of "map proot ds" "cells s1" "cells s"]
    by (auto simp: building_def)
  have trees: "\<forall>d \<in> set ds. tree_of (cells s1) d" "map (tree_item (cells s1)) ds = map (tree_item (cells s)) ds"
    using b old tree_of_frame [of _ "cells s1" "cells s"] tree_item_frame [of _ "cells s1" "cells s"]
    by (auto simp: building_def)
  have dist: "distinct (b # forest_addrs (ds @ [t]))"
    using b old t(2) by (auto simp: building_def)
  have range: "set (b # forest_addrs (ds @ [t])) \<subseteq> {next_addr s0 ..< next_addr s1}"
    using b t(3) s1(3) by (fastforce simp: building_def)
  have rest: "\<forall>a. a \<notin> set (b # forest_addrs (ds @ [t])) \<longrightarrow> cells s1 a = cells s0 a"
    using b s1(1) by (auto simp: building_def)
  have bs: "bounded s0" "b < next_addr s1" using b s1(3) by (auto simp: building_def)
  show ?thesis
  proof (cases ds rule: rev_cases)
    case Nil
    define s2 where "s2 = s1\<lparr>cells := (cells s1)(b \<mapsto>
      \<lparr>scalars = n, link_next = None, link_prev = None, link_child = Some ?r\<rparr>)\<rparr>"
    have run: "attach (Some b) (last_opt (map proot ds)) (Some ?r) s1 = Inr ((), s2)"
      using cb Nil by (simp add: attach_def heap_run s2_def)
    have bt: "b \<notin> set (addrs t)" "b \<noteq> ?r" using old oldr by auto
    have "building s0 b n (ds @ [t]) s2"
      using Nil cr t(1) dist range rest bs s1(2) bt
      by (auto simp: building_def s2_def tree_upd_other bounded_def)
    with run show ?thesis using Nil bt by (simp add: s2_def tree_upd_other)
  next
    case (snoc ds' d)
    let ?l = "proot d"
    obtain cl where cl: "cells s1 ?l = Some cl" "link_next cl = None"
      using sg by (auto simp: snoc seg_append)
    have ne: "?l \<noteq> ?r" "b \<noteq> ?l" "b \<noteq> ?r" "?l \<notin> set (addrs t)" "\<forall>u \<in> set ds'. ?l \<notin> set (addrs u) \<and> ?r \<notin> set (addrs u)"
      "?r \<notin> set (addrs d)" "distinct (addrs d)" "?l \<notin> set (map proot ds')" "?r \<notin> set (map proot ds')"
    proof -
      have "set (addrs d) \<inter> (set (addrs t) \<union> {b}) = {}" "set (addrs t) \<inter> (set (addrs d) \<union> {b}) = {}"
        using dist by (auto simp: snoc)
      note root_elsewhere [OF this(1)] root_elsewhere [OF this(2)]
      moreover have "distinct (forest_addrs ds' @ addrs d)" "distinct (forest_addrs ds' @ addrs t)"
        using dist by (auto simp: snoc)
      note root_apart [OF this(1)] root_apart [OF this(2)]
      moreover have "?l \<noteq> ?r" using calculation(1) root_addrs [of t] by (metis UnI1)
      moreover have "distinct (addrs d)" using dist by (simp add: snoc)
      ultimately show "?l \<noteq> ?r" "b \<noteq> ?l" "b \<noteq> ?r" "?l \<notin> set (addrs t)"
        "\<forall>u \<in> set ds'. ?l \<notin> set (addrs u) \<and> ?r \<notin> set (addrs u)" "?r \<notin> set (addrs d)" "distinct (addrs d)"
        "?l \<notin> set (map proot ds')" "?r \<notin> set (map proot ds')"
        by blast+
    qed
    let ?m2 = "(cells s1)(?l \<mapsto> cl\<lparr>link_next := Some ?r\<rparr>)"
    define s2 where "s2 = s1\<lparr>cells := ?m2(?r \<mapsto> cr\<lparr>link_prev := Some ?l\<rparr>)\<rparr>"
    have run: "attach (Some b) (last_opt (map proot ds)) (Some ?r) s1 = Inr ((), s2)"
      using cl cr ne by (simp add: snoc attach_def heap_run s2_def)
    have d2: "tree_of ?m2 d" "tree_item ?m2 d = tree_item (cells s1) d"
      using tree_root_upd [of "cells s1" d cl "cl\<lparr>link_next := Some ?r\<rparr>"] trees(1) cl ne by (auto simp: snoc)
    have t2: "tree_of (?m2(?r \<mapsto> cr\<lparr>link_prev := Some ?l\<rparr>)) t"
        "tree_item (?m2(?r \<mapsto> cr\<lparr>link_prev := Some ?l\<rparr>)) t = tree_item (cells s1) t"
      using tree_root_upd [of ?m2 t cr "cr\<lparr>link_prev := Some ?l\<rparr>"] t(1,2) cr ne
      by (auto simp: tree_upd_other)
    have sg2: "seg (cells s2) None (map proot (ds @ [t])) None"
      using sg cl cr ne by (cases "ds' = []") (auto simp: s2_def snoc seg_append)
    have tr2: "\<forall>u \<in> set (ds @ [t]). tree_of (cells s2) u"
      using d2 t2 trees(1) ne by (auto simp: s2_def snoc tree_upd_other)
    have "map (tree_item (cells s2)) ds' = map (tree_item (cells s1)) ds'"
      using ne by (auto simp: s2_def tree_upd_other)
    then have items: "map (tree_item (cells s2)) (ds @ [t]) = map (tree_item (cells s)) ds @ [tree_item (cells s1) t]"
      using d2 t2 trees(2) ne by (auto simp: s2_def snoc tree_upd_other)
    have lr: "?l \<in> set (forest_addrs (ds @ [t]))" "?r \<in> set (forest_addrs (ds @ [t]))"
      using roots_addrs [of "ds @ [t]"] by (auto simp: snoc)
    have next2: "next_addr s2 = next_addr s1" by (simp add: s2_def)
    have dom2: "dom (cells s2) = dom (cells s1)" using cl(1) cr(1) by (auto simp: s2_def)
    then have "bounded s2" using s1(2) by (simp add: bounded_def next2)
    moreover have "hd_opt (map proot ds) = hd_opt (map proot (ds @ [t]))" by (simp add: snoc hd_opt_def hd_append)
    then have "cells s2 b = Some \<lparr>scalars = n, link_next = None, link_prev = None,
        link_child = hd_opt (map proot (ds @ [t]))\<rparr>"
      using cb ne(2,3) by (simp add: s2_def)
    moreover have "\<forall>a. a \<notin> set (b # forest_addrs (ds @ [t])) \<longrightarrow> cells s2 a = cells s0 a"
    proof (intro allI impI)
      fix a assume a: "a \<notin> set (b # forest_addrs (ds @ [t]))"
      then have "a \<noteq> ?l" "a \<noteq> ?r" using lr by (metis list.set_intros(2))+
      then show "cells s2 a = cells s0 a" using rest a by (simp add: s2_def)
    qed
    ultimately have "building s0 b n (ds @ [t]) s2"
      unfolding building_def next2 using sg2 tr2 dist range bs by blast
    with run items show ?thesis by (simp add: s2_def)
  qed
qed

text \<open>The last step links the first child back to the last.\<close>

lemma building_finish:
  assumes b: "building s0 b n ds s" and n: "\<not> is_reference n"
  shows "\<exists>s'. bnd (child_of (Some b)) (\<lambda>first.
      seq (only_if (first \<noteq> None) (set_prev first (last_opt (map proot ds)))) (ret (Some b))) s = Inr (Some b, s') \<and>
    tree_of (cells s') (PNode b ds) \<and> tree_item (cells s') (PNode b ds) = Item n (map (tree_item (cells s)) ds) \<and>
    loose (cells s') b \<and> shooks s' = shooks s \<and> next_addr s' = next_addr s \<and> bounded s' \<and>
    (\<forall>a. a \<notin> set (addrs (PNode b ds)) \<longrightarrow> cells s' a = cells s a)"
proof (cases ds)
  case Nil
  with b n show ?thesis
    by (auto simp: building_def heap_run array_of_def loose_def)
next
  case (Cons d ds')
  let ?r = "proot d"
  obtain cd where cd: "cells s ?r = Some cd" using b by (auto simp: building_def Cons)
  have dist: "distinct (b # addrs d @ forest_addrs ds')" using b by (simp add: building_def Cons)
  have "distinct (forest_addrs ds' @ addrs d)" using dist by auto
  note apart = root_apart [OF this]
  have "set (addrs d) \<inter> {b} = {}" using dist by auto
  then have "b \<noteq> ?r" using root_elsewhere by blast
  moreover have "b \<notin> set (map proot ds')" using dist roots_addrs [of ds'] by (metis (no_types, lifting)
      UnCI distinct.simps(2) set_append subsetD)
  moreover have "distinct (map proot ds)" using dist by (intro distinct_roots) (simp add: Cons)
  moreover have "distinct (addrs d)" using dist by simp
  ultimately have ne: "b \<noteq> ?r" "\<forall>u \<in> set ds'. ?r \<notin> set (addrs u)" "?r \<notin> set (map proot ds')" "distinct (addrs d)"
    "distinct (map proot ds)" "b \<notin> set (map proot ds')"
    using apart by simp_all
  define s' where "s' = s\<lparr>cells := (cells s)(?r \<mapsto> cd\<lparr>link_prev := last_opt (map proot ds)\<rparr>)\<rparr>"
  have run: "bnd (child_of (Some b)) (\<lambda>first.
      seq (only_if (first \<noteq> None) (set_prev first (last_opt (map proot ds)))) (ret (Some b))) s = Inr (Some b, s')"
    using b cd by (simp add: building_def Cons heap_run s'_def)
  have d: "tree_of (cells s') d" "tree_item (cells s') d = tree_item (cells s) d"
    using tree_root_upd [of "cells s" d cd "cd\<lparr>link_prev := last_opt (map proot ds)\<rparr>"] b cd ne
    by (auto simp: s'_def building_def Cons)
  have "array_of (cells s') b (map proot ds)"
    using b cd ne by (auto simp: building_def Cons array_of_def s'_def)
  moreover have "\<forall>u \<in> set ds. tree_of (cells s') u" "map (tree_item (cells s')) ds = map (tree_item (cells s)) ds"
    using b d ne by (auto simp: building_def Cons s'_def tree_upd_other)
  moreover have "cells s' b = cells s b" using ne by (simp add: s'_def)
  ultimately have "tree_of (cells s') (PNode b ds)"
      "tree_item (cells s') (PNode b ds) = Item n (map (tree_item (cells s)) ds)" "loose (cells s') b"
    using b n by (simp_all add: building_def loose_def)
  moreover have "bounded s'" using b cd by (auto simp: building_def bounded_def s'_def)
  ultimately show ?thesis using run by (auto simp: s'_def Cons)
qed

lemma bnd_run: "m s = Inr (x, s') \<Longrightarrow> bnd m f s = f x s'"
  by (simp add: bnd_def)

lemma seq_run: "m s = Inr ((), s') \<Longrightarrow> seq m f s = f s'"
  by (simp add: seq_def bnd_def)

lemma set_scalars_run:
  "cells s b = Some c \<Longrightarrow>
    set_scalars (Some b) f s = Inr ((), s\<lparr>cells := (cells s)(b \<mapsto> c\<lparr>scalars := f (scalars c)\<rparr>)\<rparr>)"
  by (simp add: heap_run)

lemma not_reference_cleared: "\<not> is_reference (n\<lparr>ctype := x AND NOT cJSON_IsReference\<rparr>)"
  by (simp add: is_reference_def and.assoc)

lemma not_reference_dup: "\<not> is_reference (dup_node n)"
  by (simp add: is_reference_def dup_node_def and.assoc)

lemma building_start:
  assumes "bounded s" "next_addr s' = next_addr s + 1"
    "cells s' = (cells s)(next_addr s \<mapsto> \<lparr>scalars = n, link_next = None, link_prev = None, link_child = None\<rparr>)"
  shows "building s (next_addr s) n [] s'"
proof -
  have "bounded s'" using assms by (auto simp: bounded_def intro: less_SucI)
  then show ?thesis using assms by (auto simp: building_def)
qed

text \<open>The scalar members: each failing copy gives the new item up.\<close>

lemma duplicate_start:
  assumes "bounded s" "cells s a = Some c"
  obtains s' where "duplicate (Suc f) (Some a) True s = Inr (None, s')" "cells s' = cells s"
      "next_addr s \<le> next_addr s'" "bounded s'" "\<not> unfailing (shooks s)"
  | s' where "duplicate (Suc f) (Some a) True s =
        bnd (child_of (Some a)) (duplicate_children f (Some (next_addr s)) None) s'"
      "building s (next_addr s) (dup_node (scalars c)) [] s'" "unfailing (shooks s) \<Longrightarrow> unfailing (shooks s')"
proof (cases rule: New_Item_cases [of s])
  case (1 h)
  then show thesis using assms by (intro that(1) [of "s\<lparr>shooks := h\<rparr>"]) (auto simp: bnd_def ret_def bounded_def)
next
  case (2 h)
  let ?b = "next_addr s" and ?n = "scalars c"
  let ?m = "\<lambda>n. (cells s)(?b \<mapsto> \<lparr>scalars = n, link_next = None, link_prev = None, link_child = None\<rparr>)"
  let ?n1 = "zero_node\<lparr>ctype := ctype ?n AND NOT cJSON_IsReference, valueint := valueint ?n,
      valuedouble := valuedouble ?n\<rparr>"
  have ab: "a \<noteq> ?b" using assms bounded_fresh [of s ?b] by auto
  define s1 where "s1 = s\<lparr>cells := ?m ?n1, next_addr := ?b + 1, shooks := h\<rparr>"
  have fail: "\<exists>s'. give_up (Some ?b) s2 = Inr (None, s') \<and> cells s' = cells s \<and> next_addr s' = next_addr s2 \<and> bounded s'"
    if "cells s2 = ?m n" "next_addr s2 = ?b + 1" "\<not> is_reference n" for s2 n
    using give_up_building [OF building_start [OF assms(1) that(2,1)] that(3)] by blast
  let ?keyed = "\<lambda>k. seq (set_scalars (Some ?b) (\<lambda>m. m\<lparr>key := k\<rparr>))
      (if key ?n \<noteq> None \<and> k = None then give_up (Some ?b)
       else bnd (child_of (Some a)) (duplicate_children f (Some ?b) None))"
  let ?fetch = "if ctype ?n AND cJSON_StringIsConst \<noteq> 0 then ret (key ?n) else cJSON_strdup (key ?n)"
  let ?valued = "\<lambda>v. seq (set_scalars (Some ?b) (\<lambda>m. m\<lparr>valuestring := v\<rparr>))
      (if valuestring ?n \<noteq> None \<and> v = None then give_up (Some ?b) else bnd ?fetch ?keyed)"
  define sA where "sA = s\<lparr>cells := (cells s)(?b \<mapsto> empty_cell), next_addr := ?b + 1, shooks := h\<rparr>"
  have new: "cJSON_New_Item s = Inr (Some ?b, sA)" using 2(1) by (simp add: sA_def)
  have scal: "scalars_of (Some a) sA = Inr (?n, sA)" using assms(2) ab by (simp add: heap_run sA_def)
  have cA: "cells sA ?b = Some empty_cell" by (simp add: sA_def)
  have "sA\<lparr>cells := (cells sA)(?b \<mapsto> empty_cell\<lparr>scalars := (scalars empty_cell)\<lparr>ctype := ctype ?n AND NOT cJSON_IsReference,
      valueint := valueint ?n, valuedouble := valuedouble ?n\<rparr>\<rparr>)\<rparr> = s1"
    by (simp add: sA_def s1_def empty_cell_def)
  note setA = set_scalars_run [OF cA, of "\<lambda>m. m\<lparr>ctype := ctype ?n AND NOT cJSON_IsReference, valueint := valueint ?n,
      valuedouble := valuedouble ?n\<rparr>", unfolded this]
  have start: "duplicate (Suc f) (Some a) True s = bnd (cJSON_strdup (valuestring ?n)) ?valued s1"
    by (simp only: duplicate.simps bnd_run [where m = cJSON_New_Item, OF new]
        bnd_run [where m = "scalars_of p" for p, OF scal] seq_run [where m = "set_scalars p g" for p g, OF setA] option.distinct if_False
        if_True simp_thms not_True_eq_False)
  note finish = that(2)
  show thesis
  proof (cases rule: strdup_cases [of "valuestring ?n" s1])
    case (1 h1)
    let ?s2 = "s1\<lparr>shooks := h1, cells := ?m (?n1\<lparr>valuestring := None\<rparr>)\<rparr>"
    obtain s' where s': "give_up (Some ?b) ?s2 = Inr (None, s')" "cells s' = cells s" "next_addr s' = ?b + 1" "bounded s'"
      using fail [of ?s2 "?n1\<lparr>valuestring := None\<rparr>"] by (auto simp: s1_def is_reference_def and.assoc)
    have "set_scalars (Some ?b) (\<lambda>m. m\<lparr>valuestring := None\<rparr>) (s1\<lparr>shooks := h1\<rparr>) = Inr ((), ?s2)"
      by (simp add: set_scalars_run s1_def)
    then have "duplicate (Suc f) (Some a) True s = Inr (None, s')"
      using 1(1,2) s'(1) by (auto simp: start bnd_run [where m = "cJSON_strdup x" for x] seq_run [where m = "set_scalars p g" for p g]
          simp del: duplicate.simps)
    then show thesis using s' 1(3) 2(2) by (intro that(1)) (auto simp: s1_def)
  next
    case v: (2 h1)
    let ?v = "map_option c_str (valuestring ?n)"
    define s2 where "s2 = s1\<lparr>shooks := h1, cells := ?m (?n1\<lparr>valuestring := ?v\<rparr>)\<rparr>"
    have "set_scalars (Some ?b) (\<lambda>m. m\<lparr>valuestring := ?v\<rparr>) (s1\<lparr>shooks := h1\<rparr>) = Inr ((), s2)"
      by (simp add: set_scalars_run s1_def s2_def)
    then have second: "duplicate (Suc f) (Some a) True s = bnd ?fetch ?keyed s2"
      using v(1) by (auto simp: start bnd_run [where m = "cJSON_strdup x" for x] seq_run [where m = "set_scalars p g" for p g]
          simp del: duplicate.simps)
    define s3 where "s3 = (\<lambda>h n. s2\<lparr>shooks := h, cells := ?m n\<rparr>)"
    have keyed: "set_scalars (Some ?b) (\<lambda>m. m\<lparr>key := k\<rparr>) (s2\<lparr>shooks := h\<rparr>) =
        Inr ((), s3 h (?n1\<lparr>valuestring := ?v, key := k\<rparr>))" for k h
      by (simp add: set_scalars_run s2_def s3_def)
    have n3: "?n1\<lparr>valuestring := ?v, key := if ctype ?n AND cJSON_StringIsConst \<noteq> 0 then key ?n else
        map_option c_str (key ?n)\<rparr> = dup_node ?n"
      by (simp add: dup_node_def zero_node_def)
    have b3: "building s ?b (dup_node ?n) [] (s3 h (dup_node ?n))" for h
      by (rule building_start [OF assms(1)]) (simp_all add: s3_def s2_def s1_def)
    have done_with: thesis if "?fetch s2 = Inr (if ctype ?n AND cJSON_StringIsConst \<noteq> 0 then key ?n else
        map_option c_str (key ?n), s2\<lparr>shooks := h2\<rparr>)" "unfailing (shooks s2) \<Longrightarrow> unfailing h2" for h2
    proof -
      have "duplicate (Suc f) (Some a) True s =
          bnd (child_of (Some a)) (duplicate_children f (Some ?b) None) (s3 h2 (dup_node ?n))"
        unfolding second bnd_run [where m = ?fetch, OF that(1)] seq_run [where m = "set_scalars p g" for p g, OF keyed] n3 by auto
      from finish [OF this b3] show thesis using that(2) v(2) 2(2) by (auto simp: s3_def s2_def s1_def)
    qed
    show thesis
    proof (cases "ctype ?n AND cJSON_StringIsConst \<noteq> 0")
      case True
      then show thesis using done_with [of h1] by (simp add: ret_def s2_def)
    next
      case nc: False
      show thesis
      proof (cases rule: strdup_cases [of "key ?n" s2])
        case (1 h2)
        let ?s4 = "s3 h2 (?n1\<lparr>valuestring := ?v, key := None\<rparr>)"
        obtain s' where s': "give_up (Some ?b) ?s4 = Inr (None, s')" "cells s' = cells s" "next_addr s' = ?b + 1" "bounded s'"
          using fail [of ?s4 "?n1\<lparr>valuestring := ?v, key := None\<rparr>"]
          by (auto simp: s3_def s2_def s1_def is_reference_def and.assoc)
        have none: "?fetch s2 = Inr (None, s2\<lparr>shooks := h2\<rparr>)" using nc 1(1) by simp
        have "duplicate (Suc f) (Some a) True s = Inr (None, s')"
          unfolding second bnd_run [where m = ?fetch, OF none] seq_run [where m = "set_scalars p g" for p g, OF keyed]
          using 1(2) s'(1) by simp
        then show thesis using s' 1(3) v(2) 2(2) by (intro that(1)) (auto simp: s2_def s1_def)
      next
        case (2 h2)
        then show thesis using done_with [of h2] nc by simp
      qed
    qed
  qed
qed

lemma building_source:
  assumes "building s0 b n ds s" "tree_of (cells s0) t" "a \<in> set (addrs t)"
  shows "cells s a = cells s0 a"
proof -
  have "cells s0 a \<noteq> None" using owns_dom [OF owns_tree] assms(2,3) by blast
  then have "a < next_addr s0" using assms(1) by (auto simp: building_def bounded_def)
  then have "a \<notin> set (b # forest_addrs ds)" using assms(1) unfolding building_def
    by (meson atLeastLessThan_iff not_le subsetD)
  then show ?thesis using assms(1) by (simp add: building_def)
qed

lemma building_cells:
  "building s0 b n ds s \<Longrightarrow> cells s1 = cells s \<Longrightarrow> next_addr s \<le> next_addr s1 \<Longrightarrow> bounded s1 \<Longrightarrow> building s0 b n ds s1"
  unfolding building_def by (force simp del: set_concat)

lemma building_next: "building s0 b n ds s \<Longrightarrow> next_addr s0 \<le> next_addr s"
  by (auto simp: building_def)

lemma copies_finished:
  assumes "building s0 b n ds s" "\<not> is_reference n" "unfailing (shooks s0) \<Longrightarrow> unfailing (shooks s)"
  shows "\<exists>s'. duplicate_children f (Some b) (last_opt (map proot ds)) None s = Inr (Some b, s') \<and>
    copies s0 (Item n (map (tree_item (cells s)) ds)) (Some b) s'"
proof -
  obtain s' where s': "duplicate_children f (Some b) (last_opt (map proot ds)) None s = Inr (Some b, s')"
      "tree_of (cells s') (PNode b ds)" "tree_item (cells s') (PNode b ds) = Item n (map (tree_item (cells s)) ds)"
      "loose (cells s') b" "shooks s' = shooks s" "next_addr s' = next_addr s" "bounded s'"
      "\<forall>a. a \<notin> set (addrs (PNode b ds)) \<longrightarrow> cells s' a = cells s a"
    using building_finish [OF assms(1,2)] by auto
  have "\<exists>t. proot t = b \<and> tree_of (cells s') t \<and> distinct (addrs t) \<and>
      set (addrs t) \<subseteq> {next_addr s0 ..< next_addr s'} \<and> loose (cells s') b \<and>
      tree_item (cells s') t = Item n (map (tree_item (cells s)) ds) \<and>
      (\<forall>a. a \<notin> set (addrs t) \<longrightarrow> cells s' a = cells s0 a)"
    using s' assms(1) by (intro exI [of _ "PNode b ds"]) (auto simp: building_def simp del: set_concat)
  then show ?thesis using s' building_next [OF assms(1)] assms(3) by (auto simp: copies_def)
qed

lemma duplicate_loops:
  "(\<forall>t s. tree_of (cells s) t \<longrightarrow> distinct (addrs t) \<longrightarrow> bounded s \<longrightarrow> 2 * length (addrs t) \<le> f + 1 \<longrightarrow>
      (\<exists>r s'. duplicate f (Some (proot t)) True s = Inr (r, s') \<and> copies s (dup_item (tree_item (cells s) t)) r s')) \<and>
   (\<forall>cs s0 b n ds s. (\<forall>t \<in> set cs. tree_of (cells s0) t) \<longrightarrow> nexts (cells s0) (map proot cs) \<longrightarrow>
      distinct (forest_addrs cs) \<longrightarrow> building s0 b n ds s \<longrightarrow> \<not> is_reference n \<longrightarrow>
      (unfailing (shooks s0) \<longrightarrow> unfailing (shooks s)) \<longrightarrow> 2 * length (forest_addrs cs) \<le> f \<longrightarrow>
      (\<exists>r s'. duplicate_children f (Some b) (last_opt (map proot ds)) (hd_opt (map proot cs)) s = Inr (r, s') \<and>
         copies s0 (Item n (map (tree_item (cells s)) ds @ map (\<lambda>t. dup_item (tree_item (cells s0) t)) cs)) r s'))"
  (is "?A f \<and> ?B f")
proof (induction f)
  case 0
  have "tree_of (cells s) t \<Longrightarrow> 2 * length (addrs t) \<le> 1 \<Longrightarrow> False" for t s by (cases t) auto
  moreover have "forest_addrs cs = [] \<Longrightarrow> cs = []" for cs by (cases cs; cases "hd cs") auto
  ultimately show ?case using copies_finished by fastforce
next
  case (Suc f)
  have "?A (Suc f)"
  proof (intro allI impI)
    fix t s assume t: "tree_of (cells s) t" "distinct (addrs t)" "bounded s" "2 * length (addrs t) \<le> Suc f + 1"
    obtain a cs where p: "t = PNode a cs" by (cases t)
    obtain c where c: "cells s a = Some c" "link_child c = hd_opt (map proot cs)" "nexts (cells s) (map proot cs)"
      using t(1) by (auto simp: p array_of_def intro: nexts_seg)
    show "\<exists>r s'. duplicate (Suc f) (Some (proot t)) True s = Inr (r, s') \<and>
        copies s (dup_item (tree_item (cells s) t)) r s'"
    proof (cases rule: duplicate_start [OF t(3) c(1), of f])
      case (1 s')
      then show ?thesis by (auto simp: p copies_def simp del: duplicate.simps)
    next
      case (2 s')
      have "cells s' a = Some c" using building_source [OF 2(2) t(1), of a] c(1) by (simp add: p)
      then have "duplicate (Suc f) (Some (proot t)) True s =
          duplicate_children f (Some (next_addr s)) None (hd_opt (map proot cs)) s'"
        using 2(1) c(2) by (simp add: p heap_run del: duplicate.simps duplicate_children.simps)
      moreover have "\<exists>r s''. duplicate_children f (Some (next_addr s)) None (hd_opt (map proot cs)) s' = Inr (r, s'') \<and>
          copies s (Item (dup_node (scalars c)) (map (\<lambda>t. dup_item (tree_item (cells s) t)) cs)) r s''"
        using Suc.IH [THEN conjunct2, rule_format, of cs s "next_addr s" "dup_node (scalars c)" "[]" s'] t c(3) 2(2,3)
          not_reference_dup by (auto simp: p)
      ultimately show ?thesis using c(1) by (simp add: p o_def del: duplicate.simps)
    qed
  qed
  moreover have "?B (Suc f)"
  proof (intro allI impI)
    fix cs s0 b n ds s
    assume cs: "\<forall>t \<in> set cs. tree_of (cells s0) t" "nexts (cells s0) (map proot cs)" "distinct (forest_addrs cs)"
      and b: "building s0 b n ds s" and n: "\<not> is_reference n" and h: "unfailing (shooks s0) \<longrightarrow> unfailing (shooks s)"
      and f: "2 * length (forest_addrs cs) \<le> Suc f"
    show "\<exists>r s'. duplicate_children (Suc f) (Some b) (last_opt (map proot ds)) (hd_opt (map proot cs)) s = Inr (r, s') \<and>
         copies s0 (Item n (map (tree_item (cells s)) ds @ map (\<lambda>t. dup_item (tree_item (cells s0) t)) cs)) r s'"
    proof (cases cs)
      case Nil
      then show ?thesis using copies_finished [OF b n] h by fastforce
    next
      case (Cons t cs')
      have t: "tree_of (cells s0) t" "distinct (addrs t)" using cs by (auto simp: Cons)
      have same: "\<forall>a \<in> set (addrs t). cells s a = cells s0 a" using building_source [OF b t(1)] by blast
      obtain r1 s1 where s1: "duplicate f (Some (proot t)) True s = Inr (r1, s1)"
          "copies s (dup_item (tree_item (cells s) t)) r1 s1"
        using Suc.IH [THEN conjunct1, rule_format, of s t] t f b tree_of_frame [OF same]
        by (auto simp: Cons building_def)
      have run: "duplicate_children (Suc f) (Some b) (last_opt (map proot ds)) (hd_opt (map proot cs)) s =
          (if r1 = None then give_up (Some b)
           else seq (attach (Some b) (last_opt (map proot ds)) r1)
             (bnd (next_of (Some (proot t))) (duplicate_children f (Some b) r1))) s1"
        unfolding Cons list.map hd_opt_simps duplicate_children.simps bnd_run [where m = "duplicate f p q" for p q, OF s1(1)]
        by (simp add: attach_def)
      show ?thesis
      proof (cases r1)
        case None
        then have "building s0 b n ds s1" using s1(2) by (intro building_cells [OF b]) (auto simp: copies_def)
        from give_up_building [OF this n] obtain s2 where s2: "give_up (Some b) s1 = Inr (None, s2)"
            "cells s2 = cells s0" "next_addr s2 = next_addr s1" "bounded s2" by blast
        have "copies s0 it None s2" for it
          using s2 s1(2) None h building_next [OF b] by (auto simp: copies_def)
        with s2(1) show ?thesis unfolding run None by auto
      next
        case (Some b1)
        then obtain t1 where t1: "proot t1 = b1" "tree_of (cells s1) t1" "distinct (addrs t1)"
            "set (addrs t1) \<subseteq> {next_addr s ..< next_addr s1}" "loose (cells s1) (proot t1)"
            "tree_item (cells s1) t1 = dup_item (tree_item (cells s) t)"
            "\<forall>a. a \<notin> set (addrs t1) \<longrightarrow> cells s1 a = cells s a" "bounded s1" "next_addr s \<le> next_addr s1"
          using s1(2) by (auto simp: copies_def)
        obtain s2 where s2: "attach (Some b) (last_opt (map proot ds)) (Some (proot t1)) s1 = Inr ((), s2)"
            "building s0 b n (ds @ [t1]) s2" "shooks s2 = shooks s1"
            "map (tree_item (cells s2)) (ds @ [t1]) = map (tree_item (cells s)) ds @ [tree_item (cells s1) t1]"
          using building_attach [OF b t1(2-5,7-9)] by blast
        obtain c where c: "cells s0 (proot t) = Some c" "link_next c = hd_opt (map proot cs')" "nexts (cells s0) (map proot cs')"
          using cs(2) by (auto simp: Cons)
        have "cells s2 (proot t) = Some c" using building_source [OF s2(2) t(1) root_addrs] c(1) by simp
        then have "next_of (Some (proot t)) s2 = Inr (hd_opt (map proot cs'), s2)" using c(2) by (simp add: heap_run)
        then have go: "duplicate_children (Suc f) (Some b) (last_opt (map proot ds)) (hd_opt (map proot cs)) s =
            duplicate_children f (Some b) (last_opt (map proot (ds @ [t1]))) (hd_opt (map proot cs')) s2"
          unfolding run using s2(1) t1(1) Some by (simp add: seq_def bnd_def)
        have "tree_item (cells s1) t1 = dup_item (tree_item (cells s0) t)"
          using t1(6) tree_item_frame [OF same] by simp
        with s2(4) have items: "map (tree_item (cells s2)) (ds @ [t1]) =
            map (tree_item (cells s)) ds @ [dup_item (tree_item (cells s0) t)]" by simp
        have u: "unfailing (shooks s0) \<longrightarrow> unfailing (shooks s2)" using h s1(2) s2(3) by (simp add: copies_def)
        have f': "2 * length (forest_addrs cs') \<le> f" using f by (cases t) (simp add: Cons)
        have "\<forall>t \<in> set cs'. tree_of (cells s0) t" "distinct (forest_addrs cs')" using cs by (simp_all add: Cons)
        from Suc.IH [THEN conjunct2, rule_format, OF this(1) [rule_format] c(3) this(2) s2(2) n u [rule_format] f', unfolded items]
        show ?thesis unfolding go by (simp add: Cons)
      qed
    qed
  qed
  ultimately show ?case by blast
qed

section \<open>What a copy is worth\<close>

lemma copies_delete:
  assumes "copies s it (Some b) s'" "bounded s"
  shows "\<exists>s''. cJSON_Delete (Some b) s' = Inr ((), s'') \<and> cells s'' = cells s \<and> next_addr s'' = next_addr s'"
proof -
  obtain t where t: "proot t = b" "tree_of (cells s') t" "distinct (addrs t)" "bounded s'"
      "set (addrs t) \<subseteq> {next_addr s ..< next_addr s'}" "loose (cells s') b"
      "\<forall>a. a \<notin> set (addrs t) \<longrightarrow> cells s' a = cells s a"
    using assms(1) by (auto simp: copies_def)
  have "cells s' |` (- set (addrs t)) = cells s"
  proof
    fix a
    show "(cells s' |` (- set (addrs t))) a = cells s a"
    proof (cases "a \<in> set (addrs t)")
      case True
      then have "next_addr s \<le> a" using t(5) by auto
      with True bounded_fresh [OF assms(2)] show ?thesis by simp
    qed (use t(7) in simp)
  qed
  moreover obtain c where "cells s' (proot t) = Some c" "link_next c = None"
    using t(1,6) by (auto simp: loose_def)
  note delete_tree [OF owns_tree [OF t(2)] t(3,4) this]
  ultimately show ?thesis using t(1) by simp
qed

text \<open>A tree in a bounded store fits the fuel of \<open>cJSON_Duplicate\<close>.\<close>

lemma duplicate_makes:
  assumes "tree_of (cells s) t" "distinct (addrs t)" "bounded s"
  shows "\<exists>r s'. cJSON_Duplicate (Some (proot t)) True s = Inr (r, s') \<and> copies s (dup_item (tree_item (cells s) t)) r s'"
proof -
  have "length (addrs t) \<le> next_addr s"
    using bounded_length [OF assms(3,2)] owns_dom [OF owns_tree [OF assms(1)]] by blast
  then show ?thesis
    using duplicate_loops [of "2 * next_addr s"] assms by (simp add: cJSON_Duplicate_def)
qed

definition small_store :: cstore where
  "small_store =
     \<lparr>cells = [0 \<mapsto> \<lparr>scalars = zero_node\<lparr>ctype := cJSON_Array\<rparr>, link_next = None, link_prev = None, link_child = Some 1\<rparr>,
               1 \<mapsto> \<lparr>scalars = zero_node\<lparr>ctype := cJSON_Number, valueint := 7\<rparr>, link_next = Some 2, link_prev = Some 2, link_child = None\<rparr>,
               2 \<mapsto> \<lparr>scalars = zero_node\<lparr>ctype := cJSON_String, valuestring := Some ''a''\<rparr>, link_next = None, link_prev = Some 1, link_child = None\<rparr>],
      next_addr = 3, shooks = ample\<rparr>"

lemma small_store_holds:
  "tree_of (cells small_store) (PNode 0 [PNode 1 [], PNode 2 []])" "bounded small_store"
  "array_of (cells small_store) 0 [1, 2]"
  by (auto simp: small_store_def array_of_def bounded_def is_reference_def cJSON_Array_def cJSON_Number_def
      cJSON_String_def cJSON_IsReference_def zero_node_def split: if_splits)

text \<open>C13. \<^verbatim>\<open>cJSON_Delete\<close> of an item that is in no list frees the cells of its tree, each of them once, and
  no other cell; it reads no freed cell.\<close>

theorem cJSON_Delete_frees:
  assumes "owns (cells s) t" "distinct (addrs t)" "bounded s" "loose (cells s) (proot t)"
  shows "cJSON_Delete (Some (proot t)) s = Inr ((), s\<lparr>cells := cells s |` (- set (addrs t))\<rparr>)"
proof -
  obtain c where "cells s (proot t) = Some c" "link_next c = None" using assms(4) by (auto simp: loose_def)
  from delete_tree [OF assms(1-3) this] show ?thesis .
qed

theorem cJSON_Delete_frees_witness:
  "cJSON_Delete (Some 0) small_store = Inr ((), small_store\<lparr>cells := Map.empty\<rparr>)"
proof -
  have "cells small_store |` (- {0, 1, 2}) = Map.empty"
    by (auto simp: small_store_def restrict_map_def fun_eq_iff)
  moreover have "loose (cells small_store) 0" by (simp add: small_store_def loose_def)
  ultimately show ?thesis
    using cJSON_Delete_frees [OF owns_tree [OF small_store_holds(1)] _ small_store_holds(2)] by simp
qed

text \<open>C12. \<^verbatim>\<open>cJSON_Duplicate\<close> of a tree, at any depth: either memory ran out and nothing is left behind, or
  the result is a tree of new cells with the same contents, the original is untouched, and deleting the copy
  gives back exactly the cells there were before.\<close>

theorem cJSON_Duplicate_copies:
  assumes "tree_of (cells s) t" "distinct (addrs t)" "bounded s"
  shows "\<exists>r s'. cJSON_Duplicate (Some (proot t)) True s = Inr (r, s') \<and> (unfailing (shooks s) \<longrightarrow> r \<noteq> None) \<and>
    (case r of
       None \<Rightarrow> cells s' = cells s
     | Some b \<Rightarrow>
         (\<exists>t'. proot t' = b \<and> tree_of (cells s') t' \<and> set (addrs t') \<inter> set (addrs t) = {} \<and>
            tree_item (cells s') t' = dup_item (tree_item (cells s) t) \<and>
            (\<forall>a. a \<notin> set (addrs t') \<longrightarrow> cells s' a = cells s a)) \<and>
         (\<exists>s''. cJSON_Delete (Some b) s' = Inr ((), s'') \<and> cells s'' = cells s))"
proof -
  obtain r s' where r: "cJSON_Duplicate (Some (proot t)) True s = Inr (r, s')"
      "copies s (dup_item (tree_item (cells s) t)) r s'"
    using duplicate_makes [OF assms] by blast
  have old: "a < next_addr s" if "a \<in> set (addrs t)" for a
    using owns_dom [OF owns_tree [OF assms(1)] that] assms(3) by (auto simp: bounded_def)
  show ?thesis
  proof (cases r)
    case None
    with r show ?thesis by (auto simp: copies_def)
  next
    case (Some b)
    obtain t' where t': "proot t' = b" "tree_of (cells s') t'" "set (addrs t') \<subseteq> {next_addr s ..< next_addr s'}"
        "tree_item (cells s') t' = dup_item (tree_item (cells s) t)" "\<forall>a. a \<notin> set (addrs t') \<longrightarrow> cells s' a = cells s a"
      using r(2) Some by (auto simp: copies_def)
    have "set (addrs t') \<inter> set (addrs t) = {}" using t'(3) old by force
    with t' copies_delete [OF r(2) [unfolded Some] assms(3)] r(1)
    show ?thesis by (auto simp: Some)
  qed
qed

theorem cJSON_Duplicate_copies_witness:
  "\<exists>r s'. cJSON_Duplicate (Some 0) True small_store = Inr (r, s') \<and> r \<noteq> None"
proof -
  let ?t = "PNode 0 [PNode 1 [], PNode 2 []]"
  have "distinct (addrs ?t)" by simp
  from cJSON_Duplicate_copies [OF small_store_holds(1) this small_store_holds(2)] obtain r s'
    where "cJSON_Duplicate (Some (proot ?t)) True small_store = Inr (r, s')" "unfailing (shooks small_store) \<longrightarrow> r \<noteq> None"
    by (elim exE conjE)
  then show ?thesis by (auto simp: small_store_def)
qed

end
