(* ===== verification/Cjson_Number.thy ===== *)
theory Cjson_Number
  imports Cjson_Item
begin

text \<open>
  How \<^verbatim>\<open>print_number\<close> of \<^verbatim>\<open>src/gstreamer/cJSON.c\<close> turns a double into text: the \<^verbatim>\<open>%g\<close> conversion of the
  C library (correctly rounded, as in glibc), the comparison that decides whether 15 digits are
  enough, and what this gives for whole numbers. The locale's decimal point is an argument, since
  \<^verbatim>\<open>sprintf\<close> uses it.
\<close>

section \<open>The \<open>%g\<close> conversion\<close>

definition double_isinf :: "64 word \<Rightarrow> bool" where
  "double_isinf d \<longleftrightarrow> double_exp d = 2047 \<and> double_frac d = 0"

definition double_isnan :: "64 word \<Rightarrow> bool" where
  "double_isnan d \<longleftrightarrow> double_exp d = 2047 \<and> double_frac d \<noteq> 0"

text \<open>The magnitude of a finite double as a fraction.\<close>

definition double_num :: "64 word \<Rightarrow> nat" where
  "double_num d = double_man d * 2 ^ nat (double_pow d)"

definition double_den :: "64 word \<Rightarrow> nat" where
  "double_den d = 2 ^ nat (- double_pow d)"

definition round_half_even :: "nat \<Rightarrow> nat \<Rightarrow> nat" where
  "round_half_even a b =
     (let q = a div b; r = a mod b in if 2 * r > b \<or> (2 * r = b \<and> odd q) then q + 1 else q)"

text \<open>The decimal exponent of a positive fraction.\<close>

definition decimal_exponent :: "nat \<Rightarrow> nat \<Rightarrow> int" where
  "decimal_exponent a b =
     (if b \<le> a then int (length (to_string (a div b))) - 1
      else - int (length (to_string ((b - 1) div a))))"

text \<open>\<open>prec\<close> significant digits and the exponent of the first of them.\<close>

definition significant_digits :: "nat \<Rightarrow> nat \<Rightarrow> nat \<Rightarrow> nat \<times> int" where
  "significant_digits prec a b =
     (let x = decimal_exponent a b;
          e = int prec - 1 - x;
          n = (if 0 \<le> e then round_half_even (a * 10 ^ nat e) b
               else round_half_even a (b * 10 ^ nat (- e)))
      in if n = 10 ^ prec then (10 ^ (prec - 1), x + 1) else (n, x))"

definition strip_zeros :: "string \<Rightarrow> string" where
  "strip_zeros s = rev (dropWhile (\<lambda>c. c = CHR ''0'') (rev s))"

definition with_fraction :: "char \<Rightarrow> string \<Rightarrow> string \<Rightarrow> string" where
  "with_fraction dp ip fr = (if strip_zeros fr = [] then ip else ip @ dp # strip_zeros fr)"

definition exponent_text :: "int \<Rightarrow> string" where
  "exponent_text x =
     (let ds = to_string (nat \<bar>x\<bar>)
      in CHR ''e'' # (if x < 0 then CHR ''-'' else CHR ''+'') # (if length ds < 2 then CHR ''0'' # ds else ds))"

text \<open>\<^verbatim>\<open>sprintf(buffer, "%1.<prec>g", d)\<close> for a finite \<open>d\<close>.\<close>

definition sprintf_g :: "char \<Rightarrow> nat \<Rightarrow> 64 word \<Rightarrow> string" where
  "sprintf_g dp prec d =
     (let sign = (if double_neg d then ''-'' else [])
      in if double_num d = 0 then sign @ ''0''
         else
           (case significant_digits prec (double_num d) (double_den d) of (n, x) \<Rightarrow>
              (let ds = to_string n
               in sign @
                  (if x < - 4 \<or> int prec \<le> x
                   then with_fraction dp (take 1 ds) (drop 1 ds) @ exponent_text x
                   else if 0 \<le> x then with_fraction dp (take (nat x + 1) ds) (drop (nat x + 1) ds)
                   else with_fraction dp ''0'' (replicate (nat (- x) - 1) CHR ''0'' @ ds)))))"

section \<open>The choice of the precision\<close>

text \<open>
  \<^verbatim>\<open>compare_double\<close>: the difference and the product are rounded to doubles, and non-negative doubles
  compare like their bit patterns. With one infinite argument both sides are infinite; the
  difference of two equal infinities is not a number, and nothing compares with it.
\<close>

definition double_distance :: "64 word \<Rightarrow> 64 word \<Rightarrow> 64 word" where
  "double_distance a b =
     (let x = int (double_num a * double_den b); y = int (double_num b * double_den a);
          diff = (if double_neg a then - x else x) - (if double_neg b then - y else y)
      in round_to_double (nat \<bar>diff\<bar>) (double_den a * double_den b))"

definition double_fabs :: "64 word \<Rightarrow> 64 word" where
  "double_fabs d = d AND 0x7FFFFFFFFFFFFFFF"

definition compare_double :: "64 word \<Rightarrow> 64 word \<Rightarrow> bool" where
  "compare_double a b =
     (if double_isnan a \<or> double_isnan b then False
      else if double_isinf a \<and> double_isinf b \<and> a = b then False
      else if double_isinf a \<or> double_isinf b then True
      else
        (let maxVal = (if unat (double_fabs b) < unat (double_fabs a) then double_fabs a else double_fabs b)
         in unat (double_distance a b) \<le>
            unat (round_to_double (double_num maxVal) (double_den maxVal * 2 ^ 52))))"

text \<open>The text \<^verbatim>\<open>print_number\<close> puts into its buffer. \<^verbatim>\<open>sscanf\<close> with \<^verbatim>\<open>%lg\<close> reads it back like \<^verbatim>\<open>strtod\<close>.\<close>

definition number_text :: "char \<Rightarrow> 64 word \<Rightarrow> string" where
  "number_text dp d =
     (if double_isnan d \<or> double_isinf d then ''null''
      else
        (let short = sprintf_g dp 15 d;
             (test, used) = strtod dp short
         in if used = 0 \<or> \<not> compare_double test d then sprintf_g dp 17 d else short))"

section \<open>Whole numbers\<close>

lemma bit_length_bounds: "0 < n \<Longrightarrow> 2 ^ (bit_length n - 1) \<le> n \<and> n < 2 ^ bit_length n \<and> 0 < bit_length n"
proof (induction n rule: bit_length.induct)
  case (1 n)
  show ?case
  proof (cases "n = 1")
    case True
    then show ?thesis by (simp add: bit_length.simps [of "Suc 0"] bit_length.simps [of 0])
  next
    case False
    with "1.prems" have half: "0 < n div 2" by simp
    then have ih: "2 ^ (bit_length (n div 2) - 1) \<le> n div 2 \<and> n div 2 < 2 ^ bit_length (n div 2) \<and>
        0 < bit_length (n div 2)"
      using "1.IH" "1.prems" by simp
    have len: "bit_length n = Suc (bit_length (n div 2))"
      using "1.prems" by (simp add: bit_length.simps [of n])
    obtain l where l: "bit_length (n div 2) = Suc l" using ih by (cases "bit_length (n div 2)") auto
    show ?thesis using ih by (simp add: len l) linarith
  qed
qed

text \<open>The double of a whole number below \<open>2 ^ 53\<close> is exact.\<close>

lemma double_of_nat:
  assumes "0 < n" "n < 2 ^ 53"
  defines "l \<equiv> bit_length n" and "d \<equiv> round_to_double n 1"
  shows "unat d = (l + 1022) * 2 ^ 52 + (n * 2 ^ (53 - l) - 2 ^ 52) \<and>
    2 ^ 52 \<le> n * 2 ^ (53 - l) \<and> n * 2 ^ (53 - l) < 2 ^ 53 \<and> 0 < l \<and> l \<le> 53"
proof -
  have l: "2 ^ (l - 1) \<le> n" "n < 2 ^ l" "0 < l"
    using bit_length_bounds [OF assms(1)] by (simp_all add: l_def)
  have l53: "l \<le> 53"
  proof (rule ccontr)
    assume "\<not> l \<le> 53"
    then have "(2 :: nat) ^ 53 \<le> 2 ^ (l - 1)" by (intro power_increasing) auto
    with l(1) assms(2) show False by simp
  qed
  have m: "n * 2 ^ (53 - l) < 2 ^ 53"
  proof -
    have "n * 2 ^ (53 - l) < 2 ^ l * 2 ^ (53 - l)" using l(2) by simp
    also have "\<dots> = 2 ^ 53" using l53 by (simp flip: power_add)
    finally show ?thesis .
  qed
  have m': "2 ^ 52 \<le> n * 2 ^ (53 - l)"
  proof -
    have "(2 :: nat) ^ 52 = 2 ^ (l - 1) * 2 ^ (53 - l)" using l53 l(3) by (simp flip: power_add)
    also have "\<dots> \<le> n * 2 ^ (53 - l)" using l(1) by simp
    finally show ?thesis .
  qed
  have one: "bit_length 1 = 1" by code_simp
  have "54 - l = Suc (53 - l)" using l53 by simp
  then have "n * 2 ^ (54 - l) = 2 * (n * 2 ^ (53 - l))" by (simp only: power_Suc ac_simps)
  with m' have "2 * 2 ^ 52 \<le> n * 2 ^ (54 - l)" by (simp only: mult_le_mono2)
  then have big: "2 ^ 53 \<le> n * 2 ^ (54 - l)" by simp
  define bits where "bits = (l + 1021) * 2 ^ 52 + n * 2 ^ (53 - l)"
  have k0: "nat (- (int l - 1 - 53)) = 54 - l" "nat (int l - 1 - 53) = 0" using l53 by auto
  have k: "max (- 1074) (int l - 1 - 53 + 1) = int l - 53" using l(3) by auto
  have "d = of_nat bits"
  proof -
    have e: "nat (int l - 53) = 0" "nat (- (int l - 53)) = 53 - l" "nat (int l - 53 + 1074) = l + 1021"
      using l53 by auto
    have q: "(if 2 * (n * 2 ^ (53 - l) mod (1 * 2 ^ 0)) > 1 * 2 ^ 0 \<or>
          (2 * (n * 2 ^ (53 - l) mod (1 * 2 ^ 0)) = 1 * 2 ^ 0 \<and> odd (n * 2 ^ (53 - l) div (1 * 2 ^ 0)))
        then n * 2 ^ (53 - l) div (1 * 2 ^ 0) + 1 else n * 2 ^ (53 - l) div (1 * 2 ^ 0)) = n * 2 ^ (53 - l)"
      by simp
    have c: "2 ^ 53 * 1 * 2 ^ 0 \<le> n * 2 ^ (54 - l)" using big by simp
    have "\<not> 0x7FF0000000000000 \<le> bits" using m l53 by (simp add: bits_def)
    moreover have "d = (if n = 0 then 0 else if 0x7FF0000000000000 \<le> bits then double_inf else of_nat bits)"
      unfolding d_def round_to_double_def Let_def one l_def [symmetric] of_nat_1 k0 if_P [OF c] k e q bits_def
      by (rule refl)
    ultimately show ?thesis using assms(1) by simp
  qed
  moreover have "bits < 2 ^ 64" using m l53 by (simp add: bits_def)
  ultimately have "unat d = bits" by (simp add: unat_of_nat take_bit_nat_eq_self)
  with m' m l(3) l53 show ?thesis by (simp add: bits_def)
qed

lemma whole_double:
  assumes "0 < n" "n < 2 ^ 53"
  defines "d \<equiv> round_to_double n 1"
  shows "\<exists>j. double_num d = n * 2 ^ j \<and> double_den d = 2 ^ j" "\<not> double_neg d"
    "\<not> double_isinf d" "\<not> double_isnan d"
proof -
  let ?l = "bit_length n"
  note b = double_of_nat [OF assms(1,2), folded d_def]
  define f where "f = n * 2 ^ (53 - ?l) - 2 ^ 52"
  have "n * 2 ^ (53 - ?l) = 2 ^ 52 + f" using b by (simp add: f_def)
  then have f: "f < 2 ^ 52" "unat d = (?l + 1022) * 2 ^ 52 + f" using b by (simp_all add: f_def)
  have p: "double_exp d = ?l + 1022"
    unfolding double_exp_def f(2) using f(1) b by (subst div_mult_self3) simp_all
  have p2: "double_frac d = n * 2 ^ (53 - ?l) - 2 ^ 52"
    unfolding double_frac_def f(2) using f(1) by (subst mod_mult_self3) (simp add: f_def)
  show "\<not> double_neg d" using b by (simp add: double_neg_def)
  show "\<not> double_isinf d" "\<not> double_isnan d" using b p by (simp_all add: double_isinf_def double_isnan_def)
  have "double_man d = n * 2 ^ (53 - ?l)" "double_pow d = int ?l - 53"
    using b by (simp_all add: double_man_def double_pow_def p p2)
  then show "\<exists>j. double_num d = n * 2 ^ j \<and> double_den d = 2 ^ j"
    using b by (intro exI [of _ "53 - ?l"]) (simp add: double_num_def double_den_def nat_diff_distrib)
qed

lemma to_string_times_10: "0 < m \<Longrightarrow> to_string (10 * m) = to_string m @ ''0''"
proof -
  assume "0 < m"
  then have "\<not> 10 * m < 10" by simp
  then show ?thesis
    by (subst to_string.simps) (simp add: digit_char_def to_char_type_def char_of_def)
qed

lemma to_string_times_power:
  "0 < m \<Longrightarrow> to_string (m * 10 ^ e) = to_string m @ replicate e CHR ''0''"
proof (induction e)
  case (Suc e)
  have e: "m * 10 ^ Suc e = 10 * (m * 10 ^ e)" by simp
  show ?case
    unfolding e using Suc to_string_times_10 [of "m * 10 ^ e"] by (simp add: replicate_append_same)
qed simp

lemma less_length_to_string: "n < 10 ^ length (to_string n)"
proof (induction n rule: to_string.induct)
  case (1 n)
  show ?case
  proof (cases "n < 10")
    case False
    have "n < 10 * 10 ^ length (to_string (n div 10))" using 1 [OF False] by linarith
    with False show ?thesis by (subst to_string.simps) simp
  qed (subst to_string.simps, simp)
qed

lemma length_to_string_le: "n < 10 ^ k \<Longrightarrow> 0 < k \<Longrightarrow> length (to_string n) \<le> k"
proof (induction n arbitrary: k rule: to_string.induct)
  case (1 n)
  show ?case
  proof (cases "n < 10")
    case True
    with 1(3) show ?thesis by (subst to_string.simps) simp
  next
    case False
    then obtain k' where k: "k = Suc k'" "0 < k'"
      using 1(2,3) by (cases k; cases "k - 1") auto
    then have "length (to_string (n div 10)) \<le> k'" using 1(1) [OF False, of k'] 1(2) by simp
    with False k show ?thesis by (subst to_string.simps) simp
  qed
qed

lemma strip_zeros_replicate [simp]: "strip_zeros (replicate e CHR ''0'') = []"
  by (simp add: strip_zeros_def)

lemma significant_digits_whole:
  assumes "0 < n" "n < 10 ^ 15"
  shows "significant_digits 15 (n * 2 ^ j) (2 ^ j) =
    (n * 10 ^ (15 - length (to_string n)), int (length (to_string n)) - 1)"
proof -
  let ?l = "length (to_string n)"
  have l: "?l \<le> 15" "0 < ?l" using length_to_string_le [OF assms(2)] by simp_all
  have x: "decimal_exponent (n * 2 ^ j) (2 ^ j) = int ?l - 1"
    using assms(1) by (simp add: decimal_exponent_def)
  have e: "int 15 - 1 - (int ?l - 1) = int (15 - ?l)" using l(1) by simp
  have r: "round_half_even (n * 2 ^ j * 10 ^ k) (2 ^ j) = n * 10 ^ k" for k
  proof -
    have "n * 2 ^ j * 10 ^ k = n * 10 ^ k * 2 ^ j" by (simp only: ac_simps)
    then show ?thesis by (simp add: round_half_even_def)
  qed
  have "n * 10 ^ (15 - ?l) < 10 ^ ?l * 10 ^ (15 - ?l)"
    using less_length_to_string [of n] by simp
  also have "\<dots> = 10 ^ 15" using l(1) by (simp flip: power_add)
  finally have "n * 10 ^ (15 - ?l) \<noteq> 10 ^ 15" by simp
  then show ?thesis
    unfolding significant_digits_def Let_def x e by (simp add: r)
qed

lemma signed_double:
  assumes "unat d < 2 ^ 63"
  shows "double_num (sign_bit neg OR d) = double_num d" "double_den (sign_bit neg OR d) = double_den d"
    "double_neg (sign_bit neg OR d) = neg" "double_isinf (sign_bit neg OR d) = double_isinf d"
    "double_isnan (sign_bit neg OR d) = double_isnan d"
proof -
  have u: "unat (sign_bit neg OR d) = (if neg then 2 ^ 63 else 0) + unat d"
    using or_high_low_nat [OF assms, of 1] by (simp add: sign_bit_def unsigned_or_eq)
  have e: "double_exp (sign_bit neg OR d) = double_exp d"
  proof -
    have "(2 ^ 63 + unat d) div 2 ^ 52 = 2048 + unat d div 2 ^ 52"
      using div_mult_self3 [of "2 ^ 52" 2048 "unat d"] by simp
    then show ?thesis by (simp add: double_exp_def u)
  qed
  have f: "double_frac (sign_bit neg OR d) = double_frac d"
    using mod_mult_self3 [of 2048 "2 ^ 52" "unat d"] by (simp add: double_frac_def u)
  show "double_num (sign_bit neg OR d) = double_num d" "double_den (sign_bit neg OR d) = double_den d"
    "double_isinf (sign_bit neg OR d) = double_isinf d" "double_isnan (sign_bit neg OR d) = double_isnan d"
    by (simp_all add: double_num_def double_den_def double_man_def double_pow_def double_isinf_def
        double_isnan_def e f)
  show "double_neg (sign_bit neg OR d) = neg"
    using assms by (simp add: double_neg_def u)
qed

lemma sprintf_g_whole:
  assumes "0 < n" "n < 10 ^ 15"
  shows "sprintf_g dp 15 (dec_to_double neg n 0) = (if neg then ''-'' else []) @ to_string n"
proof -
  define d where "d = round_to_double n 1"
  have n: "n < 2 ^ 53" using assms(2) by simp
  have small: "unat d < 2 ^ 63"
    using whole_double(2) [OF assms(1) n] by (simp add: d_def double_neg_def)
  have dec: "dec_to_double neg n 0 = sign_bit neg OR d" by (simp add: dec_to_double_def d_def)
  obtain j where j: "double_num d = n * 2 ^ j" "double_den d = 2 ^ j"
    using whole_double(1) [OF assms(1) n] by (auto simp: d_def)
  let ?l = "length (to_string n)"
  have l: "?l \<le> 15" "0 < ?l" using length_to_string_le [OF assms(2)] by simp_all
  have "nat (int ?l - 1) + 1 = ?l" using l(2) by linarith
  then show ?thesis
    using assms(1) l
    by (simp add: sprintf_g_def dec signed_double [OF small] j significant_digits_whole [OF assms]
        to_string_times_power with_fraction_def)
qed

text \<open>\<^verbatim>\<open>strtod\<close> reads a signed whole number back.\<close>

lemma takeWhile_to_string: "takeWhile is_digit (to_string n) = to_string n" "dropWhile is_digit (to_string n) = []"
  using to_string_digits [of n] by (simp_all add: list_all_iff)

lemma strtod_whole:
  "strtod dp ((if neg then ''-'' else []) @ to_string n) =
    (dec_to_double neg n 0, length ((if neg then ''-'' else []) @ to_string n))"
proof -
  have "hd (to_string n) \<noteq> CHR ''-''"
    using to_string_digits [of n] by (cases "to_string n") (auto simp: is_digit_def)
  moreover have "takeWhile is_digit (to_string n) \<noteq> []"
    by (subst takeWhile_to_string(1)) simp
  ultimately show ?thesis
    by (cases neg) (simp_all add: strtod_def Let_def takeWhile_to_string)
qed

lemma compare_double_refl:
  assumes "\<not> double_isnan d" "\<not> double_isinf d"
  shows "compare_double d d"
proof -
  have "double_distance d d = 0" by (simp add: double_distance_def round_to_double_def Let_def)
  with assms show ?thesis by (simp add: compare_double_def)
qed

text \<open>So a whole number of at most 15 digits is printed as its decimal digits, whatever the locale.\<close>

lemma number_text_whole:
  assumes "n < 10 ^ 15"
  shows "number_text dp (dec_to_double neg n 0) = (if neg then ''-'' else []) @ to_string n"
proof (cases "n = 0")
  case True
  have "number_text dp (dec_to_double neg 0 0) = (if neg then ''-'' else []) @ ''0''"
  proof -
    have z: "dec_to_double neg 0 0 = sign_bit neg" by (simp add: dec_to_double_def round_to_double_def)
    have "\<not> double_isnan (sign_bit neg)" "\<not> double_isinf (sign_bit neg)" "double_num (sign_bit neg) = 0"
      "double_neg (sign_bit neg) = neg"
      by (cases neg; simp add: sign_bit_def double_isnan_def double_isinf_def double_exp_def double_frac_def
          double_num_def double_man_def double_neg_def)+
    moreover from this have "sprintf_g dp 15 (sign_bit neg) = (if neg then ''-'' else []) @ ''0''"
      by (simp add: sprintf_g_def)
    moreover have "strtod dp ((if neg then ''-'' else []) @ ''0'') = (sign_bit neg, length ((if neg then ''-'' else []) @ ''0''))"
      using strtod_whole [of dp neg 0] z by (simp add: to_string_zero)
    ultimately show ?thesis
      using compare_double_refl [of "sign_bit neg"] by (simp add: number_text_def z)
  qed
  with True show ?thesis by (simp add: to_string_zero)
next
  case False
  then have n: "0 < n" "n < 2 ^ 53" using assms by simp_all
  have small: "unat (round_to_double n 1) < 2 ^ 63"
    using whole_double(2) [OF n] by (simp add: double_neg_def)
  have fin: "\<not> double_isnan (dec_to_double neg n 0)" "\<not> double_isinf (dec_to_double neg n 0)"
    using whole_double(3,4) [OF n] signed_double(4,5) [OF small, of neg] by (simp_all add: dec_to_double_def)
  show ?thesis
    using fin compare_double_refl [OF fin]
    by (simp only: number_text_def sprintf_g_whole [OF n(1) assms] Let_def strtod_whole prod.case) simp
qed

end
