(* ===== verification/Cjson_Make.thy ===== *)
theory Cjson_Make
  imports Cjson_Tree Cjson_Number
begin

text \<open>
  The functions of \<^verbatim>\<open>src/gstreamer/cJSON.c\<close> that create items: what they return is a tree of new cells with the
  contents asked for, or null when memory runs out, and then every cell that was taken has been given back.
\<close>

section \<open>Creating one item\<close>

definition makes :: "addr option prog \<Rightarrow> cJSON \<Rightarrow> bool" where
  "makes m it \<longleftrightarrow> (\<forall>s. bounded s \<longrightarrow> (\<exists>r s'. m s = Inr (r, s') \<and> copies s it r s'))"

lemma makesE:
  assumes "makes m it" "bounded s"
  obtains r s' where "m s = Inr (r, s')" "copies s it r s'"
  using assms by (auto simp: makes_def)

lemma copies_refused: "bounded s \<Longrightarrow> \<not> unfailing (shooks s) \<Longrightarrow> copies s it None (s\<lparr>shooks := h\<rparr>)"
  by (simp add: copies_def bounded_def)

lemma copies_single:
  assumes "bounded s" "cells s' = (cells s)(next_addr s \<mapsto> \<lparr>scalars = n, link_next = None, link_prev = None, link_child = None\<rparr>)"
    "next_addr s' = next_addr s + 1" "\<not> is_reference n" "unfailing (shooks s) \<Longrightarrow> unfailing (shooks s')"
  shows "copies s (Item n []) (Some (next_addr s)) s'"
proof -
  have "bounded s'" using assms(1-3) by (auto simp: bounded_def intro: less_SucI)
  then show ?thesis
    using assms by (auto simp: copies_def loose_def array_of_def intro!: exI [of _ "PNode (next_addr s) []"])
qed

lemma makes_created:
  assumes "f empty_cell = \<lparr>scalars = n, link_next = None, link_prev = None, link_child = None\<rparr>" "\<not> is_reference n"
  shows "makes (created f) (Item n [])"
  unfolding makes_def
proof (intro allI impI)
  fix s :: cstore assume s: "bounded s"
  show "\<exists>r s'. created f s = Inr (r, s') \<and> copies s (Item n []) r s'"
  proof (cases rule: New_Item_cases [of s])
    case (1 h)
    then show ?thesis using copies_refused [OF s] by (simp add: created_def heap_run)
  next
    case (2 h)
    let ?s' = "s\<lparr>cells := (cells s)(next_addr s \<mapsto> f empty_cell), next_addr := next_addr s + 1, shooks := h\<rparr>"
    have "created f s = Inr (Some (next_addr s), ?s')" using 2(1) by (simp add: created_def heap_run)
    moreover have "copies s (Item n []) (Some (next_addr s)) ?s'"
      using assms 2(2) by (intro copies_single [OF s]) auto
    ultimately show ?thesis by blast
  qed
qed

text \<open>The types are none of the flags.\<close>

lemma plain_types:
  "\<not> is_reference (n\<lparr>ctype := cJSON_NULL\<rparr>)" "\<not> is_reference (n\<lparr>ctype := cJSON_True\<rparr>)"
  "\<not> is_reference (n\<lparr>ctype := cJSON_False\<rparr>)" "\<not> is_reference (n\<lparr>ctype := cJSON_Array\<rparr>)"
  "\<not> is_reference (n\<lparr>ctype := cJSON_Object\<rparr>)" "\<not> is_reference (n\<lparr>ctype := cJSON_Number, valueint := i, valuedouble := d\<rparr>)"
  "\<not> is_reference (n\<lparr>ctype := cJSON_String, valuestring := v\<rparr>)" "\<not> is_reference (n\<lparr>ctype := cJSON_Raw, valuestring := v\<rparr>)"
  by (simp_all add: is_reference_def cJSON_IsReference_def cJSON_NULL_def cJSON_True_def cJSON_False_def
      cJSON_Array_def cJSON_Object_def cJSON_Number_def cJSON_String_def cJSON_Raw_def)

definition typed_item :: "32 word \<Rightarrow> cJSON" where
  "typed_item t = Item (zero_node\<lparr>ctype := t\<rparr>) []"

definition made_number :: "64 word \<Rightarrow> 32 word \<Rightarrow> cJSON" where
  "made_number d i = Item (zero_node\<lparr>ctype := cJSON_Number, valueint := i, valuedouble := d\<rparr>) []"

definition text_item :: "32 word \<Rightarrow> string \<Rightarrow> cJSON" where
  "text_item t x = Item (zero_node\<lparr>ctype := t, valuestring := Some (c_str x)\<rparr>) []"

lemma created_types:
  "makes cJSON_CreateNull (typed_item cJSON_NULL)" "makes cJSON_CreateTrue (typed_item cJSON_True)"
  "makes cJSON_CreateFalse (typed_item cJSON_False)" "makes cJSON_CreateArray (typed_item cJSON_Array)"
  "makes cJSON_CreateObject (typed_item cJSON_Object)"
  unfolding cJSON_CreateNull_def cJSON_CreateTrue_def cJSON_CreateFalse_def cJSON_CreateArray_def
    cJSON_CreateObject_def typed_item_def
  by (auto intro!: makes_created simp: of_type_def empty_cell_def plain_types)

lemma created_bool: "makes (cJSON_CreateBool b) (typed_item (if b then cJSON_True else cJSON_False))"
  using created_types(2,3) by (simp add: cJSON_CreateBool_def cJSON_CreateTrue_def cJSON_CreateFalse_def)

lemma created_number: "makes (cJSON_CreateNumber d) (made_number d (saturated_int d))"
  unfolding cJSON_CreateNumber_def made_number_def
  by (auto intro!: makes_created simp: number_scalars_def empty_cell_def plain_types)

lemma created_text:
  assumes "\<not> is_reference (zero_node\<lparr>ctype := t, valuestring := None\<rparr>)"
  shows "makes (create_text t (Some x)) (text_item t x)"
  unfolding makes_def
proof (intro allI impI)
  fix s :: cstore assume s: "bounded s"
  let ?b = "next_addr s"
  let ?n = "\<lambda>v. zero_node\<lparr>ctype := t, valuestring := v\<rparr>"
  let ?m = "\<lambda>n. (cells s)(?b \<mapsto> \<lparr>scalars = n, link_next = None, link_prev = None, link_child = None\<rparr>)"
  show "\<exists>r s'. create_text t (Some x) s = Inr (r, s') \<and> copies s (text_item t x) r s'"
  proof (cases rule: New_Item_cases [of s])
    case (1 h)
    then show ?thesis using copies_refused [OF s] by (simp add: create_text_def heap_run)
  next
    case (2 h)
    let ?s1 = "s\<lparr>cells := ?m (?n None), next_addr := ?b + 1, shooks := h\<rparr>"
    note new = bnd_run [where m = cJSON_New_Item, OF 2(1)]
    have "change (Some ?b) (of_type t) (s\<lparr>cells := (cells s)(?b \<mapsto> empty_cell), next_addr := ?b + 1, shooks := h\<rparr>) = Inr ((), ?s1)"
      by (simp add: heap_run of_type_def empty_cell_def zero_node_def)
    note typed = seq_run [where m = "change p g" for p g, OF this]
    have start: "create_text t (Some x) s =
        bnd (cJSON_strdup (Some x)) (\<lambda>copy. seq (set_scalars (Some ?b) (\<lambda>n. n\<lparr>valuestring := copy\<rparr>))
          (if copy = None then seq (cJSON_Delete (Some ?b)) (ret None) else ret (Some ?b))) ?s1"
      unfolding create_text_def new by (simp only: option.distinct if_False typed)
    show ?thesis
    proof (cases rule: strdup_cases [of "Some x" ?s1])
      case (1 h1)
      let ?s2 = "?s1\<lparr>shooks := h1\<rparr>"
      have "building s ?b (?n None) [] ?s2" by (rule building_start [OF s]) simp_all
      from give_up_building [OF this assms] obtain s' where s': "give_up (Some ?b) ?s2 = Inr (None, s')"
          "cells s' = cells s" "next_addr s' = ?b + 1" "bounded s'" by auto
      have "set_scalars (Some ?b) (\<lambda>n. n\<lparr>valuestring := None\<rparr>) ?s2 = Inr ((), ?s2)"
        by (simp add: set_scalars_run)
      note cleared = seq_run [where m = "set_scalars p g" for p g, OF this]
      have "create_text t (Some x) s = Inr (None, s')"
        unfolding start bnd_run [where m = "cJSON_strdup y" for y, OF 1(1)] cleared using s'(1) by (simp add: give_up_def)
      moreover have "copies s (text_item t x) None s'" using s' 1(3) 2(2) by (auto simp: copies_def)
      ultimately show ?thesis by blast
    next
      case v: (2 h1)
      let ?s2 = "s\<lparr>cells := ?m (?n (Some (c_str x))), next_addr := ?b + 1, shooks := h1\<rparr>"
      have "create_text t (Some x) s = Inr (Some ?b, ?s2)"
        using v(1) unfolding start by (simp add: heap_run)
      moreover have "copies s (text_item t x) (Some ?b) ?s2"
        unfolding text_item_def
        by (rule copies_single [OF s]) (use v(2) 2(2) assms in \<open>auto simp: is_reference_def\<close>)
      ultimately show ?thesis by blast
    qed
  qed
qed

lemma created_string: "makes (cJSON_CreateString (Some x)) (text_item cJSON_String x)"
  and created_raw: "makes (cJSON_CreateRaw (Some x)) (text_item cJSON_Raw x)"
  by (simp_all add: cJSON_CreateString_def cJSON_CreateRaw_def created_text plain_types)

section \<open>Creating arrays\<close>

lemma give_up_delete: "give_up p s = Inr (None, s') \<Longrightarrow> cJSON_Delete p s = Inr ((), s')"
  by (auto simp: give_up_def seq_def bnd_def ret_def try_bind_eq_Inr)

lemma fill_array_step:
  "fill_array a p (maker # makers) =
     bnd maker (\<lambda>n. if n = None then seq (cJSON_Delete a) (ret None) else seq (attach a p n) (fill_array a n makers))"
proof -
  have "(if p = None then set_child a n else suffix_object p n) = attach a p n" for n
    by (simp add: attach_def suffix_object_def)
  then show ?thesis unfolding fill_array.simps by (simp only:)
qed

text \<open>The loop: either all elements are there, or everything has been given back.\<close>

lemma fill_array_loop:
  "list_all2 makes ms its \<Longrightarrow> building s0 b n ds s \<Longrightarrow> \<not> is_reference n \<Longrightarrow>
    (unfailing (shooks s0) \<Longrightarrow> unfailing (shooks s)) \<Longrightarrow>
    (\<exists>s'. fill_array (Some b) (last_opt (map proot ds)) ms s = Inr (None, s') \<and> copies s0 it None s') \<or>
    (\<exists>ds' s'. fill_array (Some b) (last_opt (map proot ds)) ms s = Inr (Some (last_opt (map proot ds')), s') \<and>
       building s0 b n ds' s' \<and> (unfailing (shooks s0) \<longrightarrow> unfailing (shooks s')) \<and>
       map (tree_item (cells s')) ds' = map (tree_item (cells s)) ds @ its)"
proof (induction ms arbitrary: its ds s)
  case Nil
  then show ?case by (auto simp: ret_def intro!: disjI2)
next
  case (Cons m ms)
  obtain i itr where its: "its = i # itr" "makes m i" "list_all2 makes ms itr" using Cons.prems(1) by (cases its) auto
  note b = Cons.prems(2)
  then have "bounded s" by (simp add: building_def)
  with its(2) obtain r s1 where s1: "m s = Inr (r, s1)" "copies s i r s1" by (rule makesE)
  have run: "fill_array (Some b) (last_opt (map proot ds)) (m # ms) s =
      (if r = None then seq (cJSON_Delete (Some b)) (ret None)
       else seq (attach (Some b) (last_opt (map proot ds)) r) (fill_array (Some b) r ms)) s1"
    unfolding fill_array_step using s1(1) by (simp add: bnd_def)
  show ?case
  proof (cases r)
    case None
    then have "building s0 b n ds s1" using s1(2) by (intro building_cells [OF b]) (auto simp: copies_def)
    from give_up_building [OF this Cons.prems(3)] obtain s2 where s2: "give_up (Some b) s1 = Inr (None, s2)"
        "cells s2 = cells s0" "next_addr s2 = next_addr s1" "bounded s2" by blast
    have "copies s0 it None s2"
      using s2 s1(2) None Cons.prems(4) building_next [OF b] by (auto simp: copies_def)
    then show ?thesis using give_up_delete [OF s2(1)] unfolding run None by (auto simp: seq_def bnd_def ret_def)
  next
    case (Some b1)
    then obtain t1 where t1: "proot t1 = b1" "tree_of (cells s1) t1" "distinct (addrs t1)"
        "set (addrs t1) \<subseteq> {next_addr s ..< next_addr s1}" "loose (cells s1) (proot t1)"
        "tree_item (cells s1) t1 = i"
        "\<forall>a. a \<notin> set (addrs t1) \<longrightarrow> cells s1 a = cells s a" "bounded s1" "next_addr s \<le> next_addr s1"
      using s1(2) by (auto simp: copies_def)
    obtain s2 where s2: "attach (Some b) (last_opt (map proot ds)) (Some (proot t1)) s1 = Inr ((), s2)"
        "building s0 b n (ds @ [t1]) s2" "shooks s2 = shooks s1"
        "map (tree_item (cells s2)) (ds @ [t1]) = map (tree_item (cells s)) ds @ [tree_item (cells s1) t1]"
      using building_attach [OF b t1(2-5,7-9)] by blast
    have go: "fill_array (Some b) (last_opt (map proot ds)) (m # ms) s =
        fill_array (Some b) (last_opt (map proot (ds @ [t1]))) ms s2"
      unfolding run using s2(1) t1(1) Some by (simp add: seq_def bnd_def)
    have "unfailing (shooks s0) \<Longrightarrow> unfailing (shooks s2)" using Cons.prems(4) s1(2) s2(3) by (simp add: copies_def)
    from Cons.IH [OF its(3) s2(2) Cons.prems(3) this, folded go, unfolded s2(4) t1(6)] show ?thesis
      by (simp add: its(1))
  qed
qed

lemma created_array_of:
  assumes "list_all2 makes ms its"
  shows "makes (create_array_of ms) (Item (zero_node\<lparr>ctype := cJSON_Array\<rparr>) its)"
  unfolding makes_def
proof (intro allI impI)
  fix s :: cstore assume s: "bounded s"
  let ?n = "zero_node\<lparr>ctype := cJSON_Array\<rparr>" and ?b = "next_addr s"
  have n: "\<not> is_reference ?n" by (simp add: plain_types)
  show "\<exists>r s'. create_array_of ms s = Inr (r, s') \<and> copies s (Item ?n its) r s'"
  proof (cases rule: New_Item_cases [of s])
    case (1 h)
    then show ?thesis
      using copies_refused [OF s] by (simp add: create_array_of_def cJSON_CreateArray_def created_def heap_run)
  next
    case (2 h)
    let ?s1 = "s\<lparr>cells := (cells s)(?b \<mapsto> of_type cJSON_Array empty_cell), next_addr := ?b + 1, shooks := h\<rparr>"
    have "cJSON_CreateArray s = Inr (Some ?b, ?s1)"
      using 2(1) by (simp add: cJSON_CreateArray_def created_def heap_run)
    note run = bnd_run [where m = cJSON_CreateArray, OF this]
    have start: "create_array_of ms s = bnd (fill_array (Some ?b) None ms) (\<lambda>last. case last of
        None \<Rightarrow> ret None
      | Some n \<Rightarrow> bnd (child_of (Some ?b)) (\<lambda>first. seq (only_if (first \<noteq> None) (set_prev first n)) (ret (Some ?b)))) ?s1"
      unfolding create_array_of_def run by (simp only: option.distinct if_False)
    have b: "building s ?b ?n [] ?s1"
      by (rule building_start [OF s]) (simp_all add: of_type_def empty_cell_def)
    from fill_array_loop [OF assms b n, of "Item ?n its"] 2(2)
    consider s' where "fill_array (Some ?b) None ms ?s1 = Inr (None, s')" "copies s (Item ?n its) None s'"
      | ds s' where "fill_array (Some ?b) None ms ?s1 = Inr (Some (last_opt (map proot ds)), s')" "building s ?b ?n ds s'"
        "unfailing (shooks s) \<longrightarrow> unfailing (shooks s')" "map (tree_item (cells s')) ds = its"
      by auto
    then show ?thesis
    proof cases
      case (1 s')
      then show ?thesis unfolding start by (simp add: bnd_def ret_def)
    next
      case (2 ds s')
      from copies_finished [OF 2(2) n 2(3) [rule_format]] obtain s'' where
          "duplicate_children 0 (Some ?b) (last_opt (map proot ds)) None s' = Inr (Some ?b, s'')"
          "copies s (Item ?n its) (Some ?b) s''" by (auto simp: 2(4))
      moreover have "create_array_of ms s = duplicate_children 0 (Some ?b) (last_opt (map proot ds)) None s'"
        unfolding start using 2(1) by (simp add: bnd_def [of "fill_array p q r" for p q r])
      ultimately show ?thesis by auto
    qed
  qed
qed

lemma elements_of_all: "elements_of maker xs (length xs) = map maker xs"
  by (rule nth_equalityI) (simp_all add: elements_of_def)

lemma created_counted:
  assumes "\<And>x. x \<in> set xs \<Longrightarrow> makes (maker x) (f x)"
  shows "makes (counted_array maker (Some xs) (int (length xs))) (Item (zero_node\<lparr>ctype := cJSON_Array\<rparr>) (map f xs))"
  using assms by (simp add: counted_array_def elements_of_all) (intro created_array_of, simp add: list.rel_map list_all2_same)

lemma created_doubles:
  "makes (cJSON_CreateDoubleArray (Some ds) (int (length ds)))
     (Item (zero_node\<lparr>ctype := cJSON_Array\<rparr>) (map (\<lambda>d. made_number d (saturated_int d)) ds))"
  unfolding cJSON_CreateDoubleArray_def by (intro created_counted created_number)

lemma created_strings:
  "makes (cJSON_CreateStringArray (Some (map Some xs)) (int (length xs)))
     (Item (zero_node\<lparr>ctype := cJSON_Array\<rparr>) (map (text_item cJSON_String) xs))"
proof -
  have "makes (cJSON_CreateString x) (text_item cJSON_String (the x))" if "x \<in> set (map Some xs)" for x
    using that created_string by auto
  from created_counted [where xs = "map Some xs" and maker = cJSON_CreateString, OF this] show ?thesis by (simp add: cJSON_CreateStringArray_def o_def)
qed

text \<open>The \<^verbatim>\<open>int\<close> members of a number item survive the way through \<^verbatim>\<open>double\<close>.\<close>

lemma trunc_quotient: "\<bar>double_trunc d\<bar> = int (double_num d div double_den d)"
  by (simp add: double_trunc_def double_num_def double_den_def Let_def)

lemma trunc_sign: "double_neg d \<Longrightarrow> double_trunc d \<le> 0" "\<not> double_neg d \<Longrightarrow> 0 \<le> double_trunc d"
  by (simp_all add: double_trunc_def Let_def)

lemma saturated_whole:
  assumes "n \<le> 2 ^ 31" "neg \<or> n < 2 ^ 31"
  shows "saturated_int (dec_to_double neg n 0) = word_of_int (if neg then - int n else int n)"
proof (cases "n = 0")
  case True
  have "dec_to_double neg 0 0 = sign_bit neg" by (simp add: dec_to_double_def round_to_double_def)
  moreover have "double_num (sign_bit neg) = 0"
    by (cases neg) (simp_all add: sign_bit_def double_num_def double_man_def double_exp_def double_frac_def)
  then have "double_trunc (sign_bit neg) = 0" using trunc_quotient [of "sign_bit neg"] by simp
  ultimately show ?thesis by (simp add: True saturated_int_def)
next
  case False
  define d where "d = round_to_double n 1"
  have n: "0 < n" "n < 2 ^ 53" using False assms(1) by simp_all
  have small: "unat d < 2 ^ 63" using whole_double(2) [OF n] by (simp add: d_def double_neg_def)
  have dec: "dec_to_double neg n 0 = sign_bit neg OR d" by (simp add: dec_to_double_def d_def)
  obtain j where j: "double_num d = n * 2 ^ j" "double_den d = 2 ^ j" using whole_double(1) [OF n] by (auto simp: d_def)
  have "\<bar>double_trunc (sign_bit neg OR d)\<bar> = int n"
    by (simp add: trunc_quotient signed_double [OF small] j)
  then have "double_trunc (sign_bit neg OR d) = (if neg then - int n else int n)"
    using trunc_sign [of "sign_bit neg OR d"] signed_double(3) [OF small, of neg] by (auto simp: abs_if split: if_splits)
  moreover have "neg \<Longrightarrow> n < 2 ^ 31 \<or> n = 2 ^ 31" "\<not> neg \<Longrightarrow> n < 2 ^ 31 - 1 \<or> n = 2 ^ 31 - 1" using assms by linarith+
  ultimately show ?thesis unfolding saturated_int_def dec by (cases neg) auto
qed

lemma saturated_int_to_double: "saturated_int (int_to_double i) = i"
proof -
  have "- (2 ^ 31) \<le> sint i" "sint i < 2 ^ 31"
    using sint_ge [of i] sint_lt [of i] by simp_all
  then have "saturated_int (int_to_double i) = word_of_int (sint i)"
    unfolding int_to_double_def by (subst saturated_whole) auto
  then show ?thesis by simp
qed

text \<open>\<^verbatim>\<open>cJSON_CreateIntArray\<close>: null when memory runs out, and then every cell is given back; otherwise an
  array of new cells with one number for each \<^verbatim>\<open>int\<close>, in order, whose \<^verbatim>\<open>valueint\<close> is that very \<^verbatim>\<open>int\<close> after
  the way through \<^verbatim>\<open>double\<close>. The last conjunct: the array can be deleted again without a trace.\<close>

lemma cJSON_CreateIntArray_builds:
  assumes "bounded s"
  shows "\<exists>r s'. cJSON_CreateIntArray (Some numbers) (int (length numbers)) s = Inr (r, s') \<and>
    copies s (Item (zero_node\<lparr>ctype := cJSON_Array\<rparr>) (map (\<lambda>i. made_number (int_to_double i) i) numbers)) r s' \<and>
    (r \<noteq> None \<longrightarrow> (\<exists>s''. cJSON_Delete r s' = Inr ((), s'') \<and> cells s'' = cells s))"
proof -
  let ?it = "Item (zero_node\<lparr>ctype := cJSON_Array\<rparr>) (map (\<lambda>i. made_number (int_to_double i) i) numbers)"
  have "makes (cJSON_CreateNumber (int_to_double i)) (made_number (int_to_double i) i)" for i
    using created_number [of "int_to_double i"] by (simp add: saturated_int_to_double)
  then have "makes (cJSON_CreateIntArray (Some numbers) (int (length numbers))) ?it"
    unfolding cJSON_CreateIntArray_def by (intro created_counted)
  then obtain r s' where "cJSON_CreateIntArray (Some numbers) (int (length numbers)) s = Inr (r, s')" "copies s ?it r s'"
    using assms by (rule makesE)
  then show ?thesis using copies_delete [of s ?it _ s'] assms by (cases r) auto
qed

definition no_store :: cstore where
  "no_store = \<lparr>cells = Map.empty, next_addr = 0, shooks = ample\<rparr>"

lemma cJSON_CreateIntArray_builds_witness:
  "\<exists>r s'. cJSON_CreateIntArray (Some [1, - 1]) 2 no_store = Inr (r, s') \<and> r \<noteq> None"
proof -
  have "bounded no_store" by (simp add: no_store_def bounded_def)
  from cJSON_CreateIntArray_builds [OF this, of "[1, - 1]"] show ?thesis
    by (fastforce simp: copies_def no_store_def)
qed

end
