(* ===== verification/Cjson_Edit.thy ===== *)
theory Cjson_Edit
  imports Cjson_Array Cjson_Make
begin

text \<open>
  Editing trees: what the functions of \<^verbatim>\<open>src/gstreamer/cJSON.c\<close> that add, replace and delete elements and
  members do to the tree an item is the root of, which cells they free, and what is left when memory runs out
  half way.
\<close>

section \<open>Relinking leaves subtrees alone\<close>

lemma relinked_subtree:
  assumes r: "relinked a A s s'" and t: "tree_of (cells s) t" "distinct (addrs t)"
    and A: "A \<inter> set (addrs t) \<subseteq> {proot t}" "a \<notin> set (addrs t)"
  shows "tree_of (cells s') t" "tree_item (cells s') t = tree_item (cells s) t"
proof -
  obtain b ts where p: "t = PNode b ts" by (cases t)
  have same: "cells s' x = cells s x" if "x \<in> set (forest_addrs ts)" for x
  proof -
    have "x \<noteq> b" "x \<in> set (addrs t)" using that t(2) by (auto simp: p)
    then have "x \<notin> A" using A(1) by (auto simp: p)
    then show ?thesis using r by (simp add: relinked_def)
  qed
  obtain c where c: "cells s b = Some c" "\<not> is_reference (scalars c)" using t(1) by (auto simp: p)
  have "map_option scalars (cells s' b) = map_option scalars (cells s b)"
      "map_option link_child (cells s' b) = map_option link_child (cells s b)"
    using r A(2) by (auto simp: relinked_def p)
  then obtain c' where c': "cells s' b = Some c'" "scalars c' = scalars c" "link_child c' = link_child c"
    using c(1) by (cases "cells s' b") auto
  have "array_of (cells s) b (map proot ts)" using t(1) by (simp add: p)
  moreover have "seg (cells s') pv (map proot ts) None = seg (cells s) pv (map proot ts) None" for pv
    using same roots_addrs [of ts] by (intro seg_frame) blast
  ultimately have "array_of (cells s') b (map proot ts)" using c c' by (simp add: array_of_def)
  moreover have "tree_of (cells s') u" "tree_item (cells s') u = tree_item (cells s) u" if "u \<in> set ts" for u
    using same that t(1) tree_of_frame [of u "cells s'" "cells s"] tree_item_frame [of u "cells s'" "cells s"]
    by (auto simp: p)
  ultimately show "tree_of (cells s') t" "tree_item (cells s') t = tree_item (cells s) t"
    using c c' by (auto simp: p)
qed

text \<open>The array \<open>a\<close> and the trees \<open>us\<close>, in the array or not, before a change of links; \<open>ts\<close> are in the array
  after it.\<close>

lemma relinked_array:
  assumes r: "relinked a A s s'" "A \<subseteq> insert a (set (map proot us))"
    and us: "\<forall>u \<in> set us. tree_of (cells s) u" "distinct (a # forest_addrs us)"
    and ts: "array_of (cells s') a (map proot ts)" "set ts \<subseteq> set us"
    and c: "cells s a = Some c" "\<not> is_reference (scalars c)"
  shows "tree_of (cells s') (PNode a ts)"
    "tree_item (cells s') (PNode a ts) = Item (scalars c) (map (tree_item (cells s)) ts)"
    "\<forall>u \<in> set us. tree_of (cells s') u \<and> tree_item (cells s') u = tree_item (cells s) u"
proof -
  show trees: "\<forall>u \<in> set us. tree_of (cells s') u \<and> tree_item (cells s') u = tree_item (cells s) u"
  proof
    fix u assume u: "u \<in> set us"
    obtain xs ys where split: "us = xs @ u # ys" using u by (auto simp: in_set_conv_decomp)
    have d: "distinct (addrs u)" "a \<notin> set (addrs u)" using us(2) by (auto simp: split)
    have "x = proot u" if "x \<in> A" "x \<in> set (addrs u)" for x
    proof (rule ccontr)
      assume "x \<noteq> proot u"
      moreover have "x \<in> insert a (set (map proot us))" "x \<noteq> a" using that r(2) d(2) by auto
      ultimately have "x \<in> set (map proot (xs @ ys))" by (auto simp: split)
      then have "x \<in> set (forest_addrs (xs @ ys))" using roots_addrs by blast
      then show False using us(2) that(2) by (auto simp: split)
    qed
    then have "A \<inter> set (addrs u) \<subseteq> {proot u}" by blast
    with relinked_subtree [OF r(1) _ d(1) _ d(2)] us(1) u
    show "tree_of (cells s') u \<and> tree_item (cells s') u = tree_item (cells s) u" by blast
  qed
  have "map_option scalars (cells s' a) = Some (scalars c)" using r(1) c(1) by (simp add: relinked_def)
  then obtain c' where c': "cells s' a = Some c'" "scalars c' = scalars c" by auto
  show "tree_of (cells s') (PNode a ts)" using trees ts c(2) c' by auto
  show "tree_item (cells s') (PNode a ts) = Item (scalars c) (map (tree_item (cells s)) ts)"
    using trees ts(2) c' by auto
qed

lemma tree_nodeE:
  assumes "tree_of m (PNode a ts)"
  obtains c where "m a = Some c" "\<not> is_reference (scalars c)" "array_of m a (map proot ts)" "\<forall>t \<in> set ts. tree_of m t"
    "tree_item m (PNode a ts) = Item (scalars c) (map (tree_item m) ts)"
  using assms by auto

section \<open>Elements\<close>

lemma add_item_tree:
  assumes a: "tree_of (cells s) (PNode a ts)" and t: "tree_of (cells s) t" "loose (cells s) (proot t)"
    and d: "distinct (a # forest_addrs (ts @ [t]))"
  shows "\<exists>s'. add_item_to_array (Some a) (Some (proot t)) s = Inr (True, s') \<and>
    tree_of (cells s') (PNode a (ts @ [t])) \<and>
    tree_item (cells s') (PNode a (ts @ [t])) = Item (scalars (the (cells s a))) (map (tree_item (cells s)) (ts @ [t])) \<and>
    relinked a (insert a (set (map proot (ts @ [t])))) s s'"
proof -
  obtain c where c: "cells s a = Some c" "\<not> is_reference (scalars c)" "array_of (cells s) a (map proot ts)"
      "\<forall>t \<in> set ts. tree_of (cells s) t" using a by (rule tree_nodeE)
  have "distinct (forest_addrs ts @ addrs t)" using d by simp
  from root_apart(2) [OF this] have "proot t \<notin> set (map proot ts)" .
  moreover have "proot t \<noteq> a" using d root_addrs [of t] by (metis Un_iff concat_append distinct.simps(2) list.simps(8,9)
        map_append set_append concat.simps append_Nil2)
  ultimately obtain s' where s': "add_item_to_array (Some a) (Some (proot t)) s = Inr (True, s')"
      "array_of (cells s') a (map proot ts @ [proot t])" "relinked a ({a, proot t} \<union> set (map proot ts)) s s'"
    using add_item_to_array_appends [OF c(3) t(2)] by auto
  moreover have A: "{a, proot t} \<union> set (map proot ts) = insert a (set (map proot (ts @ [t])))" by auto
  moreover have "\<forall>u \<in> set (ts @ [t]). tree_of (cells s) u" using c(4) t(1) by auto
  note relinked_array [OF s'(3) [unfolded A] order_refl this d, of "ts @ [t]", OF _ order_refl c(1,2)]
  ultimately show ?thesis using c(1) by simp
qed

lemma delete_detached:
  assumes t: "tree_of (cells s') t" "loose (cells s') (proot t)" "distinct (addrs t)" "bounded s'"
    and a: "tree_of (cells s') (PNode a ts)" "set (addrs t) \<inter> set (addrs (PNode a ts)) = {}"
  shows "\<exists>s''. cJSON_Delete (Some (proot t)) s' = Inr ((), s'') \<and> tree_of (cells s'') (PNode a ts) \<and>
    tree_item (cells s'') (PNode a ts) = tree_item (cells s') (PNode a ts) \<and>
    dom (cells s'') = dom (cells s') - set (addrs t) \<and> next_addr s'' = next_addr s'"
proof -
  obtain c where "cells s' (proot t) = Some c" "link_next c = None" using t(2) by (auto simp: loose_def)
  note delete_tree [OF owns_tree [OF t(1)] t(3,4) this]
  moreover have "\<forall>x \<in> set (addrs (PNode a ts)). (cells s' |` (- set (addrs t))) x = cells s' x"
    using a(2) by (auto simp: restrict_map_def)
  note tree_of_frame [OF this] tree_item_frame [OF this]
  moreover have "dom (cells s' |` (- set (addrs t))) = dom (cells s') - set (addrs t)" by auto
  ultimately show ?thesis using a(1) by (auto simp del: tree_of.simps tree_item.simps)
qed

lemma relinked_bounded: "relinked a A s s' \<Longrightarrow> bounded s' = bounded s"
  by (simp add: relinked_def bounded_def)

lemma detach_tree:
  assumes a: "tree_of (cells s) (PNode a (us @ t # vs))" and d: "distinct (addrs (PNode a (us @ t # vs)))"
  shows "\<exists>s'. cJSON_DetachItemViaPointer (Some a) (Some (proot t)) s = Inr (Some (proot t), s') \<and>
    tree_of (cells s') (PNode a (us @ vs)) \<and> tree_of (cells s') t \<and> loose (cells s') (proot t) \<and>
    tree_item (cells s') (PNode a (us @ vs)) = Item (scalars (the (cells s a))) (map (tree_item (cells s)) (us @ vs)) \<and>
    tree_item (cells s') t = tree_item (cells s) t \<and>
    relinked a (insert a (set (map proot (us @ t # vs)))) s s'"
proof -
  obtain c where c: "cells s a = Some c" "\<not> is_reference (scalars c)" "array_of (cells s) a (map proot (us @ t # vs))"
      "\<forall>t \<in> set (us @ t # vs). tree_of (cells s) t" using a by (rule tree_nodeE)
  obtain s' where s': "cJSON_DetachItemViaPointer (Some a) (Some (proot t)) s = Inr (Some (proot t), s')"
      "array_of (cells s') a (map proot (us @ vs))" "loose (cells s') (proot t)"
      "relinked a ({a, proot t} \<union> set (map proot (us @ vs))) s s'"
    using detach_splits [of s a "map proot us" "proot t" "map proot vs"] c(3) by auto
  have A: "{a, proot t} \<union> set (map proot (us @ vs)) = insert a (set (map proot (us @ t # vs)))" by auto
  have "distinct (a # forest_addrs (us @ t # vs))" using d by simp
  note relinked_array [OF s'(4) [unfolded A] order_refl c(4) this s'(2) _ c(1,2)]
  with s' c(1) A show ?thesis by auto
qed

text \<open>\<^verbatim>\<open>cJSON_DeleteItemFromArray\<close>: the element at the index is gone, the others are in their places with
  their contents, exactly the cells of the deleted element's tree are freed; an index that is negative or
  too large changes nothing.\<close>

lemma cJSON_DeleteItemFromArray_removes:
  assumes "tree_of (cells s) (PNode a ts)" "distinct (addrs (PNode a ts))" "bounded s"
  shows "\<exists>s'. cJSON_DeleteItemFromArray (Some a) k s = Inr ((), s') \<and>
    (if 0 \<le> k \<and> nat k < length ts then
       (let us = take (nat k) ts @ drop (Suc (nat k)) ts
        in tree_of (cells s') (PNode a us) \<and>
           tree_item (cells s') (PNode a us) = Item (scalars (the (cells s a))) (map (tree_item (cells s)) us) \<and>
           dom (cells s') = dom (cells s) - set (addrs (ts ! nat k)))
     else s' = s)"
proof -
  have got: "get_array_item (Some a) i s = Inr (if i < length ts then Some (proot (ts ! i)) else None, s)" for i
    using get_array_item_nth [of s a "map proot ts" i] assms(1) by (auto elim!: tree_nodeE)
  show ?thesis
  proof (cases "0 \<le> k \<and> nat k < length ts")
    case False
    then have "cJSON_DetachItemFromArray (Some a) k s = Inr (None, s)"
      using got [of "nat k"] by (auto simp: cJSON_DetachItemFromArray_def cJSON_DetachItemViaPointer_def bnd_def ret_def)
    with False show ?thesis by (auto simp: cJSON_DeleteItemFromArray_def bnd_def cJSON_Delete_def ret_def)
  next
    case True
    define us t vs where "us = take (nat k) ts" and "t = ts ! nat k" and "vs = drop (Suc (nat k)) ts"
    have ts: "ts = us @ t # vs" using True by (simp add: us_def t_def vs_def id_take_nth_drop [symmetric])
    obtain s' where s': "cJSON_DetachItemViaPointer (Some a) (Some (proot t)) s = Inr (Some (proot t), s')"
        "tree_of (cells s') (PNode a (us @ vs))" "tree_of (cells s') t" "loose (cells s') (proot t)"
        "tree_item (cells s') (PNode a (us @ vs)) = Item (scalars (the (cells s a))) (map (tree_item (cells s)) (us @ vs))"
        "relinked a (insert a (set (map proot (us @ t # vs)))) s s'"
      using detach_tree [OF assms(1,2) [unfolded ts]] by blast
    have "distinct (addrs t)" "bounded s'" "set (addrs t) \<inter> set (addrs (PNode a (us @ vs))) = {}"
      using assms(2,3) relinked_bounded [OF s'(6)] by (auto simp: ts)
    from delete_detached [OF s'(3,4) this(1,2) s'(2) this(3)] obtain s'' where s'':
        "cJSON_Delete (Some (proot t)) s' = Inr ((), s'')" "tree_of (cells s'') (PNode a (us @ vs))"
        "tree_item (cells s'') (PNode a (us @ vs)) = tree_item (cells s') (PNode a (us @ vs))"
        "dom (cells s'') = dom (cells s') - set (addrs t)" by blast
    have "cJSON_DeleteItemFromArray (Some a) k s = Inr ((), s'')"
      using True s'(1) s''(1) got [of "nat k"]
      by (simp add: cJSON_DeleteItemFromArray_def cJSON_DetachItemFromArray_def bnd_def t_def)
    with True s'' s'(5,6) show ?thesis
      by (auto simp: relinked_def Let_def us_def t_def vs_def simp del: tree_of.simps tree_item.simps)
  qed
qed

lemma cJSON_DeleteItemFromArray_removes_witness:
  "\<exists>s'. cJSON_DeleteItemFromArray (Some 0) 0 small_store = Inr ((), s') \<and> tree_of (cells s') (PNode 0 [PNode 2 []]) \<and>
    dom (cells s') = {0, 2}"
proof -
  have "distinct (addrs (PNode 0 [PNode 1 [], PNode 2 []]))" by simp
  from cJSON_DeleteItemFromArray_removes [OF small_store_holds(1) this small_store_holds(2), of 0]
  have "\<exists>s'. cJSON_DeleteItemFromArray (Some 0) 0 small_store = Inr ((), s') \<and> tree_of (cells s') (PNode 0 [PNode 2 []]) \<and>
      dom (cells s') = dom (cells small_store) - {1}"
    unfolding Let_def by (auto simp del: tree_of.simps)
  moreover have "dom (cells small_store) - {1} = {0, 2}" by (auto simp: small_store_def split: if_splits)
  ultimately show ?thesis by simp
qed

lemma replace_tree:
  assumes a: "tree_of (cells s) (PNode a (us @ t # vs))" and t': "tree_of (cells s) t'" "loose (cells s) (proot t')"
    and d: "distinct (addrs (PNode a (us @ t # vs)) @ addrs t')" and b: "bounded s"
  shows "\<exists>s'. cJSON_ReplaceItemViaPointer (Some a) (Some (proot t)) (Some (proot t')) s = Inr (True, s') \<and>
    tree_of (cells s') (PNode a (us @ t' # vs)) \<and>
    tree_item (cells s') (PNode a (us @ t' # vs)) =
      Item (scalars (the (cells s a))) (map (tree_item (cells s)) (us @ t' # vs)) \<and>
    dom (cells s') = dom (cells s) - set (addrs t) \<and> next_addr s' = next_addr s"
proof -
  obtain c where c: "cells s a = Some c" "\<not> is_reference (scalars c)" "array_of (cells s) a (map proot (us @ t # vs))"
      "\<forall>t \<in> set (us @ t # vs). tree_of (cells s) t" using a by (rule tree_nodeE)
  have "distinct (forest_addrs (us @ t # vs) @ addrs t')" using d by auto
  from root_apart(2) [OF this] have fresh: "proot t' \<notin> set (map proot (us @ t # vs))" .
  have "set (addrs t') \<inter> {a} = {}" using d by auto
  then have "proot t' \<noteq> a" using root_elsewhere by blast
  then obtain s1 where s1: "replace_links (Some a) (Some (proot t)) (Some (proot t')) s = Inr ((), s1)"
      "array_of (cells s1) a (map proot (us @ t' # vs))" "loose (cells s1) (proot t)"
      "relinked a ({a, proot t'} \<union> set (map proot (us @ t # vs))) s s1"
    using replace_splits [of s a "map proot us" "proot t" "map proot vs" "proot t'"] c(3) t'(2) fresh by auto
  let ?all = "us @ t # vs @ [t']"
  have A: "{a, proot t'} \<union> set (map proot (us @ t # vs)) = insert a (set (map proot ?all))" by auto
  have all: "\<forall>u \<in> set ?all. tree_of (cells s) u" "distinct (a # forest_addrs ?all)" "set (us @ t' # vs) \<subseteq> set ?all"
    using c(4) t'(1) d by auto
  note after = relinked_array [OF s1(4) [unfolded A] order_refl all(1,2) s1(2) all(3) c(1,2)]
  have "tree_of (cells s1) t" "distinct (addrs t)" "bounded s1" "set (addrs t) \<inter> set (addrs (PNode a (us @ t' # vs))) = {}"
    using after(3) d b relinked_bounded [OF s1(4)] by auto
  from delete_detached [OF this(1) s1(3) this(2,3) after(1) this(4)] obtain s2 where s2:
      "cJSON_Delete (Some (proot t)) s1 = Inr ((), s2)" "tree_of (cells s2) (PNode a (us @ t' # vs))"
      "tree_item (cells s2) (PNode a (us @ t' # vs)) = tree_item (cells s1) (PNode a (us @ t' # vs))"
      "dom (cells s2) = dom (cells s1) - set (addrs t)" "next_addr s2 = next_addr s1" by blast
  have "proot t' \<noteq> proot t" using fresh by auto
  then have "cJSON_ReplaceItemViaPointer (Some a) (Some (proot t)) (Some (proot t')) s = Inr (True, s2)"
    using s1(1) s2(1) by (simp add: cJSON_ReplaceItemViaPointer_def seq_def bnd_def ret_def)
  with s2 after(2) s1(4) c(1) show ?thesis by (auto simp: relinked_def simp del: tree_of.simps tree_item.simps)
qed

text \<open>\<^verbatim>\<open>cJSON_ReplaceItemInArray\<close> with an item that is in no list: the new tree takes the place of the
  element at the index, the other elements stay, and exactly the cells of the replaced tree are freed.\<close>

lemma cJSON_ReplaceItemInArray_replaces:
  assumes "tree_of (cells s) (PNode a ts)" "tree_of (cells s) t" "loose (cells s) (proot t)"
    "distinct (addrs (PNode a ts) @ addrs t)" "bounded s" "0 \<le> k" "nat k < length ts"
  shows "\<exists>s'. cJSON_ReplaceItemInArray (Some a) k (Some (proot t)) s = Inr (True, s') \<and>
    tree_of (cells s') (PNode a (ts[nat k := t])) \<and>
    tree_item (cells s') (PNode a (ts[nat k := t])) =
      Item (scalars (the (cells s a))) (map (tree_item (cells s)) (ts[nat k := t])) \<and>
    dom (cells s') = dom (cells s) - set (addrs (ts ! nat k))"
proof -
  have ts: "ts = take (nat k) ts @ ts ! nat k # drop (Suc (nat k)) ts"
    using assms(7) by (simp add: id_take_nth_drop [symmetric])
  have "get_array_item (Some a) (nat k) s = Inr (Some (proot (ts ! nat k)), s)"
    using get_array_item_nth [of s a "map proot ts" "nat k"] assms(1,7) by (auto elim!: tree_nodeE)
  then have "cJSON_ReplaceItemInArray (Some a) k (Some (proot t)) s =
      cJSON_ReplaceItemViaPointer (Some a) (Some (proot (ts ! nat k))) (Some (proot t)) s"
    using assms(6) by (simp add: cJSON_ReplaceItemInArray_def bnd_def)
  moreover have "ts[nat k := t] = take (nat k) ts @ t # drop (Suc (nat k)) ts"
    using assms(7) by (simp add: upd_conv_take_nth_drop)
  ultimately show ?thesis
    using replace_tree [of s a "take (nat k) ts" "ts ! nat k" "drop (Suc (nat k)) ts" t] assms(1-5)
    unfolding ts [symmetric] by (auto simp del: tree_of.simps tree_item.simps addrs.simps)
qed

lemma cJSON_ReplaceItemInArray_replaces_witness:
  "\<exists>s'. cJSON_ReplaceItemInArray (Some 0) 1 (Some 3)
      (small_store\<lparr>cells := (cells small_store)(3 \<mapsto> empty_cell), next_addr := 4\<rparr>) = Inr (True, s') \<and>
    tree_of (cells s') (PNode 0 [PNode 1 [], PNode 3 []])"
proof -
  let ?s = "small_store\<lparr>cells := (cells small_store)(3 \<mapsto> empty_cell), next_addr := 4\<rparr>"
  have t: "tree_of (cells ?s) (PNode 0 [PNode 1 [], PNode 2 []])" "bounded ?s" "tree_of (cells ?s) (PNode 3 [])"
      "loose (cells ?s) (proot (PNode 3 []))" "distinct (addrs (PNode 0 [PNode 1 [], PNode 2 []]) @ addrs (PNode 3 []))"
    using small_store_holds
    by (auto simp: small_store_def array_of_def bounded_def is_reference_def loose_def empty_cell_def zero_node_def
        cJSON_Array_def cJSON_Number_def cJSON_String_def cJSON_IsReference_def split: if_splits)
  from cJSON_ReplaceItemInArray_replaces [OF t(1,3,4,5,2), of 1] show ?thesis
    by (auto simp del: tree_of.simps)
qed

end
