(* ===== verification/Cjson_Object.thy ===== *)
theory Cjson_Object
  imports Cjson_Edit
begin

text \<open>
  The members of an object: looking them up by key, adding, replacing and deleting them
  (\<^verbatim>\<open>src/gstreamer/cJSON.c\<close>), with what happens when the allocator refuses the copy of a key.
\<close>

section \<open>Looking up\<close>

definition key_of :: "(addr \<rightharpoonup> cell) \<Rightarrow> ptree \<Rightarrow> string option" where
  "key_of m t = key (scalars (the (m (proot t))))"

definition matching :: "string \<Rightarrow> bool \<Rightarrow> string option \<Rightarrow> bool" where
  "matching name case_sensitive k =
     (case k of
        None \<Rightarrow> False
      | Some x \<Rightarrow> (if case_sensitive then c_str name = c_str x
                    else map tolower (c_str name) = map tolower (c_str x)))"

text \<open>The first member with the key; the case sensitive search ends at a member without a key.\<close>

definition member_at :: "(addr \<rightharpoonup> cell) \<Rightarrow> string \<Rightarrow> bool \<Rightarrow> ptree list \<Rightarrow> ptree option" where
  "member_at m name case_sensitive ts =
     find (\<lambda>t. matching name case_sensitive (key_of m t))
       (if case_sensitive then takeWhile (\<lambda>t. key_of m t \<noteq> None) ts else ts)"

lemma find_item_member:
  "seg m pv (map proot ts) None \<Longrightarrow> cells s = m \<Longrightarrow> length ts \<le> f \<Longrightarrow>
    find_item f name case_sensitive (hd_opt (map proot ts)) s = Inr (map_option proot (member_at m name case_sensitive ts), s)"
proof (induction ts arbitrary: pv f)
  case Nil
  then show ?case by (simp add: ret_def member_at_def)
next
  case (Cons t ts)
  obtain f' where f: "f = Suc f'" using Cons.prems(3) by (cases f) auto
  from Cons.prems(1) obtain c where c: "m (proot t) = Some c" "link_next c = hd_opt (map proot ts)" "seg m (Some (proot t)) (map proot ts) None"
    by (auto simp: hd_opt_def split: if_splits)
  have IH: "find_item f' name case_sensitive (hd_opt (map proot ts)) s = Inr (map_option proot (member_at m name case_sensitive ts), s)"
    using Cons.IH [OF c(3) Cons.prems(2), of f'] Cons.prems(3) f by simp
  have "load (Some (proot t)) s = Inr (c, s)" using c(1) Cons.prems(2) by (simp add: load_def)
  then show ?case
    using IH c(1,2)
    by (auto simp: f bnd_def ret_def member_at_def key_of_def passes_def matching_def case_insensitive_same_def split: option.splits)
qed

lemma get_object_item_member:
  assumes "tree_of (cells s) (PNode a ts)" "bounded s"
  shows "get_object_item (Some a) (Some name) case_sensitive s =
    Inr (map_option proot (member_at (cells s) name case_sensitive ts), s)"
proof -
  obtain c where c: "cells s a = Some c" "array_of (cells s) a (map proot ts)" using assms(1) by (rule tree_nodeE)
  then have "length ts \<le> next_addr s" using array_of_length [OF assms(2) c(2)] by simp
  moreover have "child_of (Some a) s = Inr (hd_opt (map proot ts), s)" "seg (cells s) (last_opt (map proot ts)) (map proot ts) None"
    using c by (auto simp: array_of_def heap_run)
  ultimately show ?thesis
    using find_item_member [of "cells s" "last_opt (map proot ts)" ts s "next_addr s" name case_sensitive]
    by (simp add: get_object_item_def bnd_def)
qed

text \<open>C16. Lookup by key returns the first member whose key is equal, letters compared without case or with
  it, and never changes an item. A member without a key is passed over by \<^verbatim>\<open>cJSON_GetObjectItem\<close>, but
  \<^verbatim>\<open>cJSON_GetObjectItemCaseSensitive\<close> finds nothing behind it.\<close>

theorem members_found:
  assumes "tree_of (cells s) (PNode a ts)" "bounded s"
  shows "cJSON_GetObjectItem (Some a) (Some name) s =
      Inr (map_option proot (find (\<lambda>t. matching name False (key_of (cells s) t)) ts), s) \<and>
    cJSON_GetObjectItemCaseSensitive (Some a) (Some name) s =
      Inr (map_option proot (find (\<lambda>t. matching name True (key_of (cells s) t))
        (takeWhile (\<lambda>t. key_of (cells s) t \<noteq> None) ts)), s) \<and>
    cJSON_HasObjectItem (Some a) (Some name) s =
      Inr (\<exists>t \<in> set ts. matching name False (key_of (cells s) t), s)"
proof -
  have "find P ts \<noteq> None \<longleftrightarrow> (\<exists>t \<in> set ts. P t)" for P :: "ptree \<Rightarrow> bool" by (auto simp: find_None_iff)
  then show ?thesis
    using get_object_item_member [OF assms]
    by (simp add: cJSON_GetObjectItem_def cJSON_GetObjectItemCaseSensitive_def cJSON_HasObjectItem_def member_at_def
        bnd_def ret_def)
qed

definition small_object :: cstore where
  "small_object =
     \<lparr>cells = [0 \<mapsto> \<lparr>scalars = zero_node\<lparr>ctype := cJSON_Object\<rparr>, link_next = None, link_prev = None, link_child = Some 1\<rparr>,
               1 \<mapsto> \<lparr>scalars = zero_node\<lparr>ctype := cJSON_Number\<rparr>, link_next = Some 2, link_prev = Some 2, link_child = None\<rparr>,
               2 \<mapsto> \<lparr>scalars = zero_node\<lparr>ctype := cJSON_NULL, key := Some ''Sdp''\<rparr>, link_next = None, link_prev = Some 1, link_child = None\<rparr>],
      next_addr = 3, shooks = ample\<rparr>"

lemma small_object_holds:
  "tree_of (cells small_object) (PNode 0 [PNode 1 [], PNode 2 []])" "bounded small_object"
  by (auto simp: small_object_def array_of_def bounded_def is_reference_def cJSON_Object_def cJSON_Number_def
      cJSON_NULL_def cJSON_IsReference_def zero_node_def split: if_splits)

theorem members_found_witness:
  "cJSON_GetObjectItem (Some 0) (Some ''sdp'') small_object = Inr (Some 2, small_object) \<and>
    cJSON_GetObjectItemCaseSensitive (Some 0) (Some ''Sdp'') small_object = Inr (None, small_object)"
proof -
  let ?m = "cells small_object"
  have k: "key_of ?m (PNode 1 []) = None" "key_of ?m (PNode 2 []) = Some ''Sdp''"
    by (simp_all add: key_of_def small_object_def zero_node_def)
  have "matching ''sdp'' False (Some ''Sdp'')" by code_simp
  then show ?thesis
    using members_found [OF small_object_holds, of "''sdp''"] members_found [OF small_object_holds, of "''Sdp''"]
    by (simp add: k matching_def [of x y None for x y] del: One_nat_def)
qed

section \<open>Adding a member\<close>

definition keyed :: "bool \<Rightarrow> string \<Rightarrow> cnode \<Rightarrow> cnode" where
  "keyed constant_key name n =
     n\<lparr>key := Some (if constant_key then name else c_str name),
       ctype := (if constant_key then ctype n OR cJSON_StringIsConst else ctype n AND NOT cJSON_StringIsConst)\<rparr>"

primrec keyed_item :: "bool \<Rightarrow> string \<Rightarrow> cJSON \<Rightarrow> cJSON" where
  "keyed_item constant_key name (Item n cs) = Item (keyed constant_key name n) cs"

lemma reference_keyed: "is_reference (n\<lparr>key := k, ctype := ctype n AND NOT cJSON_StringIsConst\<rparr>) = is_reference n"
    "is_reference (n\<lparr>key := k, ctype := ctype n OR cJSON_StringIsConst\<rparr>) = is_reference n"
  by (simp_all add: is_reference_def cJSON_IsReference_def cJSON_StringIsConst_def and.assoc bit.conj_disj_distrib2)

lemma tree_root_scalars:
  assumes "tree_of m t" "distinct (addrs t)" "m (proot t) = Some c" "\<not> is_reference n"
  shows "tree_of (m(proot t \<mapsto> c\<lparr>scalars := n\<rparr>)) t"
    "\<exists>cs. tree_item m t = Item (scalars c) cs \<and> tree_item (m(proot t \<mapsto> c\<lparr>scalars := n\<rparr>)) t = Item n cs"
proof -
  obtain a ts where t: "t = PNode a ts" by (cases t)
  let ?m = "m(a \<mapsto> c\<lparr>scalars := n\<rparr>)"
  have a: "a \<notin> set (addrs u)" if "u \<in> set ts" for u using assms(2) that by (auto simp: t)
  have "\<forall>u \<in> set ts. tree_of ?m u" "map (tree_item ?m) ts = map (tree_item m) ts"
    using a assms(1) by (auto simp: t tree_upd_other)
  moreover have "array_of ?m a (map proot ts)" using assms by (auto simp: t array_of_def)
  ultimately show "tree_of (m(proot t \<mapsto> c\<lparr>scalars := n\<rparr>)) t"
    "\<exists>cs. tree_item m t = Item (scalars c) cs \<and> tree_item (m(proot t \<mapsto> c\<lparr>scalars := n\<rparr>)) t = Item n cs"
    using assms(3,4) by (simp_all add: t)
qed

text \<open>The key is set and the item appended.\<close>

lemma add_keyed_tree:
  assumes a: "tree_of (cells s) (PNode a ts)" and t: "tree_of (cells s) t" "loose (cells s) (proot t)"
    and d: "distinct (a # forest_addrs (ts @ [t]))"
  shows "\<exists>s'. seq (set_scalars (Some (proot t)) (\<lambda>n. n\<lparr>key := Some (if constant_key then name else c_str name),
        ctype := (if constant_key then ctype n OR cJSON_StringIsConst else ctype n AND NOT cJSON_StringIsConst)\<rparr>))
      (add_item_to_array (Some a) (Some (proot t))) s = Inr (True, s') \<and>
    tree_of (cells s') (PNode a (ts @ [t])) \<and>
    tree_item (cells s') (PNode a (ts @ [t])) = Item (scalars (the (cells s a)))
      (map (tree_item (cells s)) ts @ [keyed_item constant_key name (tree_item (cells s) t)]) \<and>
    next_addr s' = next_addr s \<and> shooks s' = shooks s \<and> dom (cells s') = dom (cells s) \<and>
    (\<forall>x. x \<notin> insert a (set (map proot (ts @ [t]))) \<longrightarrow> cells s' x = cells s x)"
proof -
  obtain c where c: "cells s (proot t) = Some c" "link_next c = None" "link_prev c = None" using t(2) by (auto simp: loose_def)
  have nr: "\<not> is_reference (scalars c)" using t(1) c(1) by (cases t) auto
  have dt: "distinct (addrs t)" "a \<notin> set (addrs t)" "\<forall>u \<in> set ts. proot t \<notin> set (addrs u)" "proot t \<noteq> a"
  proof -
    show "distinct (addrs t)" "a \<notin> set (addrs t)" using d by auto
    then show "proot t \<noteq> a" using root_addrs [of t] by metis
    have "distinct (forest_addrs ts @ addrs t)" using d by simp
    from root_apart(1) [OF this] show "\<forall>u \<in> set ts. proot t \<notin> set (addrs u)" .
  qed
  let ?n = "keyed constant_key name (scalars c)"
  define s1 where "s1 = s\<lparr>cells := (cells s)(proot t \<mapsto> c\<lparr>scalars := ?n\<rparr>)\<rparr>"
  have n: "\<not> is_reference ?n" using nr by (simp add: keyed_def reference_keyed)
  note t1 = tree_root_scalars [OF t(1) dt(1) c(1) n]
  have "\<forall>u \<in> set ts. tree_of (cells s) u" using a by simp
  then have ts1: "\<forall>u \<in> set ts. tree_of (cells s1) u" "map (tree_item (cells s1)) ts = map (tree_item (cells s)) ts"
    using dt(3) by (auto simp: s1_def tree_upd_other)
  have "proot t \<notin> set (addrs (PNode a ts))" using dt(3,4) by auto
  then have a1: "tree_of (cells s1) (PNode a ts)"
    using a by (simp add: s1_def tree_upd_other del: tree_of.simps addrs.simps)
  have "tree_of (cells s1) t" "loose (cells s1) (proot t)" using t1(1) c by (simp_all add: s1_def loose_def)
  from add_item_tree [OF a1 this d] obtain s' where s': "add_item_to_array (Some a) (Some (proot t)) s1 = Inr (True, s')"
      "tree_of (cells s') (PNode a (ts @ [t]))"
      "tree_item (cells s') (PNode a (ts @ [t])) = Item (scalars (the (cells s1 a))) (map (tree_item (cells s1)) (ts @ [t]))"
      "relinked a (insert a (set (map proot (ts @ [t])))) s1 s'" by blast
  have "tree_item (cells s1) t = keyed_item constant_key name (tree_item (cells s) t)" using t1(2) by (auto simp: s1_def)
  then have items: "tree_item (cells s') (PNode a (ts @ [t])) = Item (scalars (the (cells s a)))
      (map (tree_item (cells s)) ts @ [keyed_item constant_key name (tree_item (cells s) t)])"
    using s'(3) ts1(2) dt(4) by (simp add: s1_def)
  have "set_scalars (Some (proot t)) (keyed constant_key name) s = Inr ((), s1)"
    using c(1) by (simp add: set_scalars_run s1_def)
  moreover have "keyed constant_key name = (\<lambda>n. n\<lparr>key := Some (if constant_key then name else c_str name),
        ctype := (if constant_key then ctype n OR cJSON_StringIsConst else ctype n AND NOT cJSON_StringIsConst)\<rparr>)"
    by (simp add: keyed_def fun_eq_iff)
  moreover have "dom (cells s1) = dom (cells s)" using c(1) by (auto simp: s1_def)
  moreover have "cells s1 x = cells s x" if "x \<noteq> proot t" for x using that by (simp add: s1_def)
  moreover have "next_addr s1 = next_addr s" "shooks s1 = shooks s" by (simp_all add: s1_def)
  ultimately show ?thesis using s'(1,2,4) items unfolding relinked_def
    by (intro exI [of _ s']) (auto simp: seq_def bnd_def simp del: tree_of.simps tree_item.simps)
qed

text \<open>What adding a member does: the item, now with the key, is the last member; or the copy of the key was
  refused, and nothing has changed.\<close>

definition member_added :: "bool \<Rightarrow> string \<Rightarrow> addr \<Rightarrow> ptree list \<Rightarrow> ptree \<Rightarrow> cstore \<Rightarrow> cstore \<Rightarrow> bool" where
  "member_added constant_key name a ts t s s' \<longleftrightarrow>
     tree_of (cells s') (PNode a (ts @ [t])) \<and>
     tree_item (cells s') (PNode a (ts @ [t])) = Item (scalars (the (cells s a)))
       (map (tree_item (cells s)) ts @ [keyed_item constant_key name (tree_item (cells s) t)]) \<and>
     dom (cells s') = dom (cells s) \<and>
     (\<forall>x. x \<notin> insert a (set (map proot (ts @ [t]))) \<longrightarrow> cells s' x = cells s x)"

lemma add_to_object:
  assumes a: "tree_of (cells s) (PNode a ts)" and t: "tree_of (cells s) t" "loose (cells s) (proot t)"
    and d: "distinct (a # forest_addrs (ts @ [t]))" and b: "bounded s"
  shows "\<exists>r s'. add_item_to_object (Some a) (Some name) (Some (proot t)) constant_key s = Inr (r, s') \<and>
    (unfailing (shooks s) \<longrightarrow> r \<and> unfailing (shooks s')) \<and> next_addr s' = next_addr s \<and> bounded s' \<and>
    (if r then member_added constant_key name a ts t s s' else cells s' = cells s)"
proof -
  have "set (addrs t) \<inter> {a} = {}" using d by auto
  then have ne: "Some a \<noteq> Some (proot t)" using root_elsewhere [of t "{a}"] by auto
  let ?add = "\<lambda>k. seq (set_scalars (Some (proot t)) (\<lambda>n. n\<lparr>key := k,
      ctype := (if constant_key then ctype n OR cJSON_StringIsConst else ctype n AND NOT cJSON_StringIsConst)\<rparr>))
    (add_item_to_array (Some a) (Some (proot t)))"
  let ?k = "Some (if constant_key then name else c_str name)"
  have start: "add_item_to_object (Some a) (Some name) (Some (proot t)) constant_key s =
      bnd (if constant_key then ret (Some name) else cJSON_strdup (Some name))
        (\<lambda>new_key. if new_key = None then ret False else ?add new_key) s"
    using ne by (simp add: add_item_to_object_def)
  have added: ?thesis if fetch: "(if constant_key then ret (Some name) else cJSON_strdup (Some name)) s = Inr (?k, s\<lparr>shooks := h\<rparr>)"
    and h: "unfailing (shooks s) \<Longrightarrow> unfailing h" for h
  proof -
    have "tree_of (cells (s\<lparr>shooks := h\<rparr>)) (PNode a ts)" "tree_of (cells (s\<lparr>shooks := h\<rparr>)) t"
      "loose (cells (s\<lparr>shooks := h\<rparr>)) (proot t)" using a t by simp_all
    from add_keyed_tree [OF this d, where name = name and constant_key = constant_key] obtain s' where s': "?add ?k (s\<lparr>shooks := h\<rparr>) = Inr (True, s')"
        "member_added constant_key name a ts t s s'" "next_addr s' = next_addr s" "shooks s' = h"
      by (auto simp: member_added_def simp del: tree_of.simps tree_item.simps)
    have "add_item_to_object (Some a) (Some name) (Some (proot t)) constant_key s = Inr (True, s')"
      unfolding start bnd_run [where m = "if constant_key then ret (Some name) else cJSON_strdup (Some name)", OF fetch]
      using s'(1) by simp
    moreover have "bounded s'" using b s'(2,3) by (simp add: bounded_def member_added_def)
    ultimately show ?thesis using s' h by auto
  qed
  show ?thesis
  proof (cases constant_key)
    case True
    then show ?thesis using added [of "shooks s"] by (simp add: ret_def)
  next
    case False
    show ?thesis
    proof (cases rule: strdup_cases [of "Some name" s])
      case (1 h)
      then have "add_item_to_object (Some a) (Some name) (Some (proot t)) constant_key s = Inr (False, s\<lparr>shooks := h\<rparr>)"
        unfolding start using False by (simp add: bnd_def ret_def)
      then show ?thesis using 1(3) b by (auto simp: bounded_def)
    next
      case (2 h)
      then show ?thesis using added [of h] False by simp
    qed
  qed
qed

text \<open>C14. \<^verbatim>\<open>cJSON_AddNullToObject\<close> and its siblings, for every way to create the value: the object has one
  member more, with a copy of the name as its key, and every cell outside the object is as before; or memory
  ran out, the result is null and every cell is as it was before the call.\<close>

theorem add_created_member:
  assumes "makes create it" "tree_of (cells s) (PNode a ts)" "distinct (addrs (PNode a ts))" "bounded s"
  shows "\<exists>r s'. add_created create (Some a) (Some name) s = Inr (r, s') \<and> bounded s' \<and>
    (unfailing (shooks s) \<longrightarrow> r \<noteq> None \<and> unfailing (shooks s')) \<and>
    (case r of
       None \<Rightarrow> cells s' = cells s
     | Some b \<Rightarrow>
         (\<exists>t. proot t = b \<and> tree_of (cells s') (PNode a (ts @ [t])) \<and> distinct (addrs (PNode a (ts @ [t]))) \<and>
            tree_item (cells s') (PNode a (ts @ [t])) =
              Item (scalars (the (cells s a))) (map (tree_item (cells s)) ts @ [keyed_item False name it]) \<and>
            (\<forall>x \<in> dom (cells s). x \<notin> insert a (set (map proot ts)) \<longrightarrow> cells s' x = cells s x)))"
proof -
  obtain r1 s1 where s1: "create s = Inr (r1, s1)" "copies s it r1 s1" using assms(1,4) by (rule makesE)
  have start: "add_created create (Some a) (Some name) s =
      bnd (add_item_to_object (Some a) (Some name) r1 False)
        (\<lambda>ok. if ok then ret r1 else seq (cJSON_Delete r1) (ret None)) s1"
    by (simp add: add_created_def bnd_run [where m = create, OF s1(1)])
  show ?thesis
  proof (cases r1)
    case None
    then have "add_created create (Some a) (Some name) s = Inr (None, s1)"
      unfolding start by (simp add: add_item_to_object_def heap_run cJSON_Delete_def)
    with s1(2) None show ?thesis by (auto simp: copies_def)
  next
    case (Some b)
    then obtain t where t: "proot t = b" "tree_of (cells s1) t" "distinct (addrs t)" "loose (cells s1) (proot t)"
        "set (addrs t) \<subseteq> {next_addr s ..< next_addr s1}" "tree_item (cells s1) t = it"
        "\<forall>x. x \<notin> set (addrs t) \<longrightarrow> cells s1 x = cells s x" "bounded s1" "next_addr s \<le> next_addr s1"
      using s1(2) by (auto simp: copies_def)
    have new: "x \<notin> set (addrs t)" if "x \<in> dom (cells s)" for x
    proof -
      have "x < next_addr s" using that assms(4) by (simp add: bounded_def)
      then show ?thesis using t(5) by auto
    qed
    have old: "x \<notin> set (addrs t) \<and> cells s1 x = cells s x" if "x \<in> set (addrs (PNode a ts))" for x
      using new [of x] t(7) owns_dom [OF owns_tree [OF assms(2)] that] by auto
    then have "\<forall>x \<in> set (addrs (PNode a ts)). cells s1 x = cells s x" by blast
    note same = tree_of_frame [OF this] tree_item_frame [OF this]
    have d: "distinct (a # forest_addrs (ts @ [t]))"
      using assms(3) t(3) old by auto
    have a1: "tree_of (cells s1) (PNode a ts)" using same(1) assms(2) by blast
    have items: "map (tree_item (cells s1)) ts = map (tree_item (cells s)) ts" "scalars (the (cells s1 a)) = scalars (the (cells s a))"
      using same(2) old [of a] by auto
    obtain ok s2 where s2: "add_item_to_object (Some a) (Some name) (Some (proot t)) False s1 = Inr (ok, s2)"
        "unfailing (shooks s1) \<longrightarrow> ok \<and> unfailing (shooks s2)" "next_addr s2 = next_addr s1" "bounded s2"
        "if ok then member_added False name a ts t s1 s2 else cells s2 = cells s1"
      using add_to_object [OF a1 t(2,4) d t(8)] by blast
    have u: "unfailing (shooks s) \<longrightarrow> unfailing (shooks s1)" using s1(2) by (simp add: copies_def)
    show ?thesis
    proof (cases ok)
      case True
      then have "add_created create (Some a) (Some name) s = Inr (Some b, s2)"
        unfolding start Some using s2(1) t(1) by (simp add: bnd_def ret_def)
      moreover have "cells s2 x = cells s x" if "x \<in> dom (cells s)" "x \<notin> insert a (set (map proot ts))" for x
      proof -
        have "x \<noteq> proot t" using new [OF that(1)] root_addrs by metis
        then have "cells s2 x = cells s1 x" using that(2) s2(5) True by (simp add: member_added_def)
        then show ?thesis using t(7) new [OF that(1)] by simp
      qed
      moreover have "distinct (addrs (PNode a (ts @ [t])))" using d by simp
      ultimately show ?thesis
        using s2 True t(1,6) u items
        by (intro exI [of _ "Some b"] exI [of _ s2])
          (auto simp: member_added_def simp del: tree_of.simps tree_item.simps addrs.simps intro!: exI [of _ t])
    next
      case False
      have "copies s it (Some b) s2"
        using s1(2) Some False s2 u by (simp add: copies_def)
      from copies_delete [OF this assms(4)] obtain s3 where s3: "cJSON_Delete (Some b) s2 = Inr ((), s3)" "cells s3 = cells s"
          "next_addr s3 = next_addr s2" by blast
      then have "add_created create (Some a) (Some name) s = Inr (None, s3)"
        unfolding start Some using s2(1) t(1) False by (simp add: bnd_def ret_def seq_def)
      moreover have "bounded s3" using s3(2,3) s2(3) t(9) assms(4) by (metis bounded_def order.strict_trans2)
      ultimately show ?thesis using s3(2) False s2(2) u by auto
    qed
  qed
qed

theorem add_created_member_witness:
  "\<exists>r s'. add_created (cJSON_CreateString (Some ''v'')) (Some 0) (Some ''k'') small_object = Inr (r, s') \<and> r \<noteq> None"
proof -
  have "distinct (addrs (PNode 0 [PNode 1 [], PNode 2 []]))" by simp
  from add_created_member [OF created_string [of "''v''"] small_object_holds(1) this small_object_holds(2), of "''k''"]
  show ?thesis by (elim exE conjE) (simp add: small_object_def)
qed

section \<open>Replacing and deleting a member\<close>

lemma member_at_Cons:
  "member_at m name case_sensitive (t # ts) =
     (if case_sensitive \<and> key_of m t = None then None
      else if matching name case_sensitive (key_of m t) then Some t else member_at m name case_sensitive ts)"
  by (simp add: member_at_def)

text \<open>What a lookup passes over.\<close>

definition passed_over :: "(addr \<rightharpoonup> cell) \<Rightarrow> string \<Rightarrow> bool \<Rightarrow> ptree \<Rightarrow> bool" where
  "passed_over m name case_sensitive u \<longleftrightarrow>
     \<not> matching name case_sensitive (key_of m u) \<and> (case_sensitive \<longrightarrow> key_of m u \<noteq> None)"

lemma member_at_split:
  assumes "member_at m name case_sensitive ts = Some t"
  obtains us vs where "ts = us @ t # vs" "\<forall>u \<in> set us. passed_over m name case_sensitive u"
proof -
  have "\<exists>us vs. ts = us @ t # vs \<and> (\<forall>u \<in> set us. passed_over m name case_sensitive u)"
    using assms
  proof (induction ts)
    case Nil
    then show ?case by (cases case_sensitive) (simp_all add: member_at_def)
  next
    case (Cons u ts)
    show ?case
    proof (cases "t = u \<and> matching name case_sensitive (key_of m u)")
      case True
      then have "u # ts = [] @ t # ts \<and> (\<forall>x \<in> set []. passed_over m name case_sensitive x)" by simp
      then show ?thesis by blast
    next
      case False
      with Cons.prems have u: "passed_over m name case_sensitive u" "member_at m name case_sensitive ts = Some t"
        by (auto simp: member_at_Cons passed_over_def split: if_splits)
      from Cons.IH [OF u(2)] obtain us vs where "ts = us @ t # vs" "\<forall>u \<in> set us. passed_over m name case_sensitive u" by blast
      with u(1) have "u # ts = (u # us) @ t # vs \<and> (\<forall>x \<in> set (u # us). passed_over m name case_sensitive x)" by simp
      then show ?thesis by blast
    qed
  qed
  then show thesis using that by blast
qed

lemma member_at_hit:
  assumes "\<forall>u \<in> set us. passed_over m name case_sensitive u" "matching name case_sensitive (key_of m t)"
  shows "member_at m name case_sensitive (us @ t # vs) = Some t"
  using assms by (induction us) (auto simp: member_at_Cons passed_over_def matching_def split: option.splits)

lemma member_at_keyless: "key_of m t = None \<Longrightarrow> member_at m name True (us @ t # vs) = member_at m name True us"
  by (induction us) (auto simp: member_at_Cons, simp add: member_at_def)

text \<open>\<^verbatim>\<open>cJSON_DeleteItemFromObject\<close>, with and without regard to case: the first member with the key is gone
  and exactly the cells of its tree are freed; when there is none, nothing changes.\<close>

lemma cJSON_DeleteItemFromObject_removes:
  assumes "tree_of (cells s) (PNode a ts)" "distinct (addrs (PNode a ts))" "bounded s"
  shows "\<exists>s'. (if case_sensitive then cJSON_DeleteItemFromObjectCaseSensitive (Some a) (Some name)
      else cJSON_DeleteItemFromObject (Some a) (Some name)) s = Inr ((), s') \<and>
    (case member_at (cells s) name case_sensitive ts of
       None \<Rightarrow> s' = s
     | Some t \<Rightarrow> \<exists>us vs. ts = us @ t # vs \<and> tree_of (cells s') (PNode a (us @ vs)) \<and>
         tree_item (cells s') (PNode a (us @ vs)) = Item (scalars (the (cells s a))) (map (tree_item (cells s)) (us @ vs)) \<and>
         dom (cells s') = dom (cells s) - set (addrs t))"
proof -
  have run: "(if case_sensitive then cJSON_DeleteItemFromObjectCaseSensitive (Some a) (Some name)
      else cJSON_DeleteItemFromObject (Some a) (Some name)) s =
      bnd (cJSON_DetachItemViaPointer (Some a) (map_option proot (member_at (cells s) name case_sensitive ts))) cJSON_Delete s"
    using get_object_item_member [OF assms(1,3)]
    by (cases case_sensitive) (simp_all add: cJSON_DeleteItemFromObjectCaseSensitive_def cJSON_DeleteItemFromObject_def
        cJSON_DetachItemFromObjectCaseSensitive_def cJSON_DetachItemFromObject_def cJSON_GetObjectItem_def
        cJSON_GetObjectItemCaseSensitive_def bnd_def)
  show ?thesis
  proof (cases "member_at (cells s) name case_sensitive ts")
    case None
    then show ?thesis unfolding run by (simp add: cJSON_DetachItemViaPointer_def cJSON_Delete_def bnd_def ret_def)
  next
    case (Some t)
    obtain us vs where ts: "ts = us @ t # vs" using Some by (rule member_at_split)
    obtain s' where s': "cJSON_DetachItemViaPointer (Some a) (Some (proot t)) s = Inr (Some (proot t), s')"
        "tree_of (cells s') (PNode a (us @ vs))" "tree_of (cells s') t" "loose (cells s') (proot t)"
        "tree_item (cells s') (PNode a (us @ vs)) = Item (scalars (the (cells s a))) (map (tree_item (cells s)) (us @ vs))"
        "relinked a (insert a (set (map proot (us @ t # vs)))) s s'"
      using detach_tree [OF assms(1,2) [unfolded ts]] by blast
    have "distinct (addrs t)" "bounded s'" "set (addrs t) \<inter> set (addrs (PNode a (us @ vs))) = {}"
      using assms(2,3) relinked_bounded [OF s'(6)] by (auto simp: ts)
    from delete_detached [OF s'(3,4) this(1,2) s'(2) this(3)] obtain s'' where s'':
        "cJSON_Delete (Some (proot t)) s' = Inr ((), s'')" "tree_of (cells s'') (PNode a (us @ vs))"
        "tree_item (cells s'') (PNode a (us @ vs)) = tree_item (cells s') (PNode a (us @ vs))"
        "dom (cells s'') = dom (cells s') - set (addrs t)" by blast
    have "dom (cells s'') = dom (cells s) - set (addrs t)" using s''(4) s'(6) by (simp add: relinked_def)
    moreover have "bnd (cJSON_DetachItemViaPointer (Some a) (Some (proot t))) cJSON_Delete s = Inr ((), s'')"
      using s'(1) s''(1) by (simp add: bnd_def)
    ultimately show ?thesis unfolding run Some using s''(2,3) s'(5) ts by auto
  qed
qed

lemma cJSON_DeleteItemFromObject_removes_witness:
  "\<exists>s'. cJSON_DeleteItemFromObject (Some 0) (Some ''sdp'') small_object = Inr ((), s') \<and> dom (cells s') = {0, 1}"
proof -
  let ?m = "cells small_object" and ?ts = "[PNode 1 [], PNode 2 []]"
  have k: "key_of ?m (PNode 1 []) = None" "key_of ?m (PNode 2 []) = Some ''Sdp''"
    by (simp_all add: key_of_def small_object_def zero_node_def)
  have "matching ''sdp'' False (Some ''Sdp'')" by code_simp
  then have "member_at ?m ''sdp'' False ?ts = Some (PNode 2 [])"
    by (simp add: member_at_def k matching_def [of x y None for x y] del: One_nat_def)
  moreover have "distinct (addrs (PNode 0 ?ts))" by simp
  note cJSON_DeleteItemFromObject_removes [OF small_object_holds(1) this small_object_holds(2), of False "''sdp''"]
  moreover have "dom ?m - {2} = {0, 1}" by (auto simp: small_object_def split: if_splits)
  ultimately show ?thesis by fastforce
qed

primrec rekeyed :: "string option \<Rightarrow> cJSON \<Rightarrow> cJSON" where
  "rekeyed k (Item n cs) = Item (n\<lparr>key := k, ctype := ctype n AND NOT cJSON_StringIsConst\<rparr>) cs"

lemma replace_in_object:
  assumes a: "tree_of (cells s) (PNode a ts)" and t: "tree_of (cells s) t'" "loose (cells s) (proot t')"
    and d: "distinct (addrs (PNode a ts) @ addrs t')" and b: "bounded s"
    and m: "member_at (cells s) name case_sensitive ts = Some t"
  shows "\<exists>k us vs s'. replace_item_in_object (Some a) (Some name) (Some (proot t')) case_sensitive s = Inr (True, s') \<and>
    k = (if fst (allocate (shooks s)) then Some (c_str name) else None) \<and> ts = us @ t # vs \<and>
    (\<forall>u \<in> set us. passed_over (cells s) name case_sensitive u) \<and> bounded s' \<and>
    tree_of (cells s') (PNode a (us @ t' # vs)) \<and>
    tree_item (cells s') (PNode a (us @ t' # vs)) = Item (scalars (the (cells s a)))
      (map (tree_item (cells s)) us @ rekeyed k (tree_item (cells s) t') # map (tree_item (cells s)) vs) \<and>
    dom (cells s') = dom (cells s) - set (addrs t)"
proof -
  let ?r = "proot t'"
  obtain us vs where ts: "ts = us @ t # vs" "\<forall>u \<in> set us. passed_over (cells s) name case_sensitive u"
    using m by (rule member_at_split)
  obtain c where c: "cells s ?r = Some c" "link_next c = None" "link_prev c = None" using t(2) by (auto simp: loose_def)
  have nr: "\<not> is_reference (scalars c)" using t(1) c(1) by (cases t') auto
  obtain k h where k: "cJSON_strdup (Some name) s = Inr (k, s\<lparr>shooks := h\<rparr>)"
      "k = (if fst (allocate (shooks s)) then Some (c_str name) else None)"
    by (cases "allocate (shooks s)"; cases "fst (allocate (shooks s))") (auto simp: cJSON_strdup_def)
  let ?n = "(scalars c)\<lparr>key := k, ctype := ctype (scalars c) AND NOT cJSON_StringIsConst\<rparr>"
  define s1 where "s1 = s\<lparr>shooks := h, cells := (cells s)(?r \<mapsto> c\<lparr>scalars := ?n\<rparr>)\<rparr>"
  have dt: "distinct (addrs t')" and out: "?r \<notin> set (addrs (PNode a ts))"
  proof -
    have "set (addrs t') \<inter> set (addrs (PNode a ts)) = {}" using d by auto
    then show "?r \<notin> set (addrs (PNode a ts))" by (rule root_elsewhere)
    show "distinct (addrs t')" using d by simp
  qed
  note t1 = tree_root_scalars [OF t(1) dt c(1), of ?n]
  have a1: "tree_of (cells s1) (PNode a ts)"
    using a out by (simp add: s1_def tree_upd_other del: tree_of.simps addrs.simps)
  have others: "tree_item (cells s1) u = tree_item (cells s) u" if "u \<in> set ts" for u
    using out that by (simp add: s1_def tree_upd_other)
  have sa: "scalars (the (cells s1 a)) = scalars (the (cells s a))" using out by (simp add: s1_def)
  have "tree_of (cells s1) t'" "loose (cells s1) ?r" using t1(1) nr c by (simp_all add: s1_def loose_def reference_keyed)
  moreover have "bounded s1" using b c(1) by (auto simp: bounded_def s1_def)
  moreover note replace_tree [OF a1 [unfolded ts(1)] _ _ d [unfolded ts(1)]]
  ultimately obtain s' where s': "cJSON_ReplaceItemViaPointer (Some a) (Some (proot t)) (Some ?r) s1 = Inr (True, s')"
      "tree_of (cells s') (PNode a (us @ t' # vs))"
      "tree_item (cells s') (PNode a (us @ t' # vs)) = Item (scalars (the (cells s1 a))) (map (tree_item (cells s1)) (us @ t' # vs))"
      "dom (cells s') = dom (cells s1) - set (addrs t)" "next_addr s' = next_addr s1" by blast
  have "bounded s'" using \<open>bounded s1\<close> s'(4,5) by (auto simp: bounded_def)
  have "tree_item (cells s1) t' = rekeyed k (tree_item (cells s) t')"
    using t1(2) nr by (auto simp: s1_def reference_keyed)
  with s'(3) others have "tree_item (cells s') (PNode a (us @ t' # vs)) = Item (scalars (the (cells s a)))
      (map (tree_item (cells s)) us @ rekeyed k (tree_item (cells s) t') # map (tree_item (cells s)) vs)"
    by (simp add: ts(1) sa)
  moreover have "dom (cells s1) = dom (cells s)" using c(1) by (auto simp: s1_def)
  moreover have "replace_item_in_object (Some a) (Some name) (Some ?r) case_sensitive s = Inr (True, s')"
  proof -
    have "set_scalars (Some ?r) (\<lambda>n. n\<lparr>key := k, ctype := ctype n AND NOT cJSON_StringIsConst\<rparr>) (s\<lparr>shooks := h\<rparr>) = Inr ((), s1)"
      using c(1) by (simp add: set_scalars_run s1_def)
    note set = seq_run [where m = "set_scalars p g" for p g, OF this]
    have "key_of (cells s1) u = key_of (cells s) u" if "u \<in> set ts" for u
    proof -
      have "?r \<notin> set (addrs u)" using out that by auto
      then have "proot u \<noteq> ?r" using root_addrs [of u] by metis
      then show ?thesis by (simp add: s1_def key_of_def)
    qed
    then have "member_at (cells s1) name case_sensitive ts = member_at (cells s) name case_sensitive ts"
      unfolding member_at_def by (intro find_cong) (auto cong: takeWhile_cong dest!: set_takeWhileD split: if_splits)
    then have "get_object_item (Some a) (Some name) case_sensitive s1 = Inr (Some (proot t), s1)"
      using get_object_item_member [OF a1 \<open>bounded s1\<close>] m by simp
    note get = bnd_run [where m = "get_object_item p q r" for p q r, OF this]
    have "load (Some ?r) s = Inr (c, s)" using c(1) by (simp add: load_def)
    note load = bnd_run [where m = "load p" for p, OF this]
    show ?thesis
      unfolding replace_item_in_object_def
      by (simp add: load bnd_run [where m = "cJSON_strdup x" for x, OF k(1)] set get s'(1))
  qed
  ultimately have "replace_item_in_object (Some a) (Some name) (Some ?r) case_sensitive s = Inr (True, s') \<and>
      k = (if fst (allocate (shooks s)) then Some (c_str name) else None) \<and> ts = us @ t # vs \<and>
      (\<forall>u \<in> set us. passed_over (cells s) name case_sensitive u) \<and> bounded s' \<and> tree_of (cells s') (PNode a (us @ t' # vs)) \<and>
      tree_item (cells s') (PNode a (us @ t' # vs)) = Item (scalars (the (cells s a)))
        (map (tree_item (cells s)) us @ rekeyed k (tree_item (cells s) t') # map (tree_item (cells s)) vs) \<and>
      dom (cells s') = dom (cells s) - set (addrs t)"
    using k(2) ts s'(2,4) \<open>bounded s'\<close> by (simp del: tree_of.simps tree_item.simps addrs.simps)
  then show ?thesis by blast
qed

lemma key_of_item: "key_of m t = key (node (tree_item m t))"
  by (cases t) (simp add: key_of_def)

lemma key_of_rekeyed: "tree_item m' t' = rekeyed k (tree_item m t) \<Longrightarrow> key_of m' t' = k"
  by (cases "tree_item m t") (simp add: key_of_item)

text \<open>C15. \<^verbatim>\<open>cJSON_ReplaceItemInObject\<close>, with and without regard to case: the new item takes the place of the
  first member with the key and gets a copy of the name as its key, so that it is what the lookup finds under the
  name, and exactly the cells of the replaced tree are freed. When the copy is refused the source replaces the member
  all the same, and the new one has no key: then a case sensitive lookup finds, under any name, only what stands
  before it.\<close>

theorem cJSON_ReplaceItemInObject_replaces:
  assumes "tree_of (cells s) (PNode a ts)" "tree_of (cells s) t'" "loose (cells s) (proot t')"
    "distinct (addrs (PNode a ts) @ addrs t')" "bounded s" "member_at (cells s) name case_sensitive ts = Some t"
  shows "\<exists>us vs s'. ts = us @ t # vs \<and>
    (if case_sensitive then cJSON_ReplaceItemInObjectCaseSensitive (Some a) (Some name) (Some (proot t'))
     else cJSON_ReplaceItemInObject (Some a) (Some name) (Some (proot t'))) s = Inr (True, s') \<and>
    tree_of (cells s') (PNode a (us @ t' # vs)) \<and>
    tree_item (cells s') (PNode a (us @ t' # vs)) = Item (scalars (the (cells s a)))
      (map (tree_item (cells s)) us @
       rekeyed (if fst (allocate (shooks s)) then Some (c_str name) else None) (tree_item (cells s) t') #
       map (tree_item (cells s)) vs) \<and>
    dom (cells s') = dom (cells s) - set (addrs t) \<and>
    (if fst (allocate (shooks s))
     then (if case_sensitive then cJSON_GetObjectItemCaseSensitive else cJSON_GetObjectItem) (Some a) (Some name) s' =
       Inr (Some (proot t'), s')
     else \<forall>other. cJSON_GetObjectItemCaseSensitive (Some a) (Some other) s' =
       Inr (map_option proot (member_at (cells s) other True us), s'))"
proof -
  obtain k us vs s' where r: "replace_item_in_object (Some a) (Some name) (Some (proot t')) case_sensitive s = Inr (True, s')"
      "k = (if fst (allocate (shooks s)) then Some (c_str name) else None)" "ts = us @ t # vs"
      "\<forall>u \<in> set us. passed_over (cells s) name case_sensitive u" "bounded s'" "tree_of (cells s') (PNode a (us @ t' # vs))"
      "tree_item (cells s') (PNode a (us @ t' # vs)) = Item (scalars (the (cells s a)))
        (map (tree_item (cells s)) us @ rekeyed k (tree_item (cells s) t') # map (tree_item (cells s)) vs)"
      "dom (cells s') = dom (cells s) - set (addrs t)"
    using replace_in_object [OF assms] by blast
  from r(7) have items: "map (tree_item (cells s')) us = map (tree_item (cells s)) us"
      "tree_item (cells s') t' = rekeyed k (tree_item (cells s) t')" by simp_all
  have keys: "\<forall>u \<in> set us. key_of (cells s') u = key_of (cells s) u" "key_of (cells s') t' = k"
    using items(1) key_of_rekeyed [OF items(2)] by (simp_all add: key_of_item)
  have get: "get_object_item (Some a) (Some other) cs s' = Inr (map_option proot (member_at (cells s') other cs (us @ t' # vs)), s')"
    for other cs by (rule get_object_item_member [OF r(6,5)])
  have "get_object_item (Some a) (Some name) case_sensitive s' = Inr (Some (proot t'), s')" if "k = Some (c_str name)"
  proof -
    have "matching name case_sensitive (key_of (cells s') t')" by (simp add: keys(2) that matching_def c_str_def)
    moreover have "\<forall>u \<in> set us. passed_over (cells s') name case_sensitive u" using r(4) keys(1) by (simp add: passed_over_def)
    ultimately show ?thesis using member_at_hit by (simp add: get)
  qed
  moreover have "get_object_item (Some a) (Some other) True s' = Inr (map_option proot (member_at (cells s) other True us), s')"
    if "k = None" for other
  proof -
    have "member_at (cells s') other True us = member_at (cells s) other True us"
      unfolding member_at_def using keys(1) by (auto intro!: find_cong dest: set_takeWhileD cong: takeWhile_cong)
    then show ?thesis using member_at_keyless [of "cells s'" t'] keys(2) that by (simp add: get)
  qed
  ultimately show ?thesis
    using r
    by (intro exI [of _ us] exI [of _ vs] exI [of _ s'])
      (cases case_sensitive; simp add: cJSON_ReplaceItemInObjectCaseSensitive_def cJSON_ReplaceItemInObject_def
        cJSON_GetObjectItem_def cJSON_GetObjectItemCaseSensitive_def split: if_splits del: tree_of.simps tree_item.simps)
qed

theorem cJSON_ReplaceItemInObject_replaces_witness:
  "\<exists>s'. cJSON_ReplaceItemInObject (Some 0) (Some ''sdp'') (Some 3)
      (small_object\<lparr>cells := (cells small_object)(3 \<mapsto> empty_cell), next_addr := 4\<rparr>) = Inr (True, s')"
proof -
  let ?s = "small_object\<lparr>cells := (cells small_object)(3 \<mapsto> empty_cell), next_addr := 4\<rparr>"
  let ?ts = "[PNode 1 [], PNode 2 []]"
  have t: "tree_of (cells ?s) (PNode 0 ?ts)" "bounded ?s" "tree_of (cells ?s) (PNode 3 [])"
      "loose (cells ?s) (proot (PNode 3 []))" "distinct (addrs (PNode 0 ?ts) @ addrs (PNode 3 []))"
    using small_object_holds
    by (auto simp: small_object_def array_of_def bounded_def is_reference_def loose_def empty_cell_def zero_node_def
        cJSON_Object_def cJSON_Number_def cJSON_NULL_def cJSON_IsReference_def split: if_splits)
  have k: "key_of ((cells small_object)(3 \<mapsto> empty_cell)) (PNode 1 []) = None"
      "key_of ((cells small_object)(3 \<mapsto> empty_cell)) (PNode 2 []) = Some ''Sdp''"
    by (simp_all add: key_of_def small_object_def zero_node_def)
  have "matching ''sdp'' False (Some ''Sdp'')" by code_simp
  then have "member_at (cells ?s) ''sdp'' False ?ts = Some (PNode 2 [])"
    by (simp add: member_at_def k matching_def [of x y None for x y] del: One_nat_def)
  from cJSON_ReplaceItemInObject_replaces [OF t(1,3,4,5,2) this] show ?thesis
    by (elim exE conjE) simp
qed

section \<open>What the source leaves behind\<close>

text \<open>C20. Two failures the source does not handle. \<^verbatim>\<open>cJSON_AddItemReferenceToObject\<close>: when the copy of the key
  is refused, the reference stays allocated and nothing points to it. \<^verbatim>\<open>cJSON_InsertItemInArray\<close>: a null item
  at the place of an element is dereferenced, where every other function returns false.\<close>

theorem failures_not_handled:
  assumes "tree_of (cells s) (PNode a ts)" "bounded s" "cells s i = Some c"
    "allocate (shooks s) = (True, h)" "allocate h = (False, h')" "k < length ts"
  shows "cJSON_AddItemReferenceToObject (Some a) (Some name) (Some i) s =
      Inr (False, s\<lparr>cells := (cells s)(next_addr s \<mapsto> c\<lparr>scalars := (scalars c)\<lparr>key := None,
        ctype := ctype (scalars c) OR cJSON_IsReference\<rparr>, link_next := None, link_prev := None\<rparr>),
        next_addr := next_addr s + 1, shooks := h'\<rparr>) \<and>
    cJSON_InsertItemInArray (Some a) (int k) None s = Inl Bad_pointer"
proof
  obtain ca where ca: "cells s a = Some ca" "array_of (cells s) a (map proot ts)" using assms(1) by (rule tree_nodeE)
  then have ne: "a \<noteq> next_addr s" "i \<noteq> next_addr s" using assms(2,3) by (auto simp: bounded_def)
  show "cJSON_AddItemReferenceToObject (Some a) (Some name) (Some i) s =
      Inr (False, s\<lparr>cells := (cells s)(next_addr s \<mapsto> c\<lparr>scalars := (scalars c)\<lparr>key := None,
        ctype := ctype (scalars c) OR cJSON_IsReference\<rparr>, link_next := None, link_prev := None\<rparr>),
        next_addr := next_addr s + 1, shooks := h'\<rparr>)"
    using assms(3-5) ne by (simp add: cJSON_AddItemReferenceToObject_def create_reference_def cJSON_New_Item_def
        add_item_to_object_def cJSON_strdup_def heap_run)
  show "cJSON_InsertItemInArray (Some a) (int k) None s = Inl Bad_pointer"
    using get_array_item_nth [OF ca(2), of k] assms(6)
    by (simp add: cJSON_InsertItemInArray_def insert_links_def heap_run)
qed

theorem failures_not_handled_witness:
  "cJSON_InsertItemInArray (Some 0) 1 None (small_object\<lparr>shooks := \<lparr>refused = [1], requests = 0, reallocates = True\<rparr>\<rparr>) =
    Inl Bad_pointer"
proof -
  let ?s = "small_object\<lparr>shooks := \<lparr>refused = [1], requests = 0, reallocates = True\<rparr>\<rparr>"
  have "tree_of (cells ?s) (PNode 0 [PNode 1 [], PNode 2 []])" "bounded ?s"
    using small_object_holds by (simp_all add: bounded_def)
  moreover have "cells ?s 2 = Some \<lparr>scalars = zero_node\<lparr>ctype := cJSON_NULL, key := Some ''Sdp''\<rparr>,
      link_next = None, link_prev = Some 1, link_child = None\<rparr>"
    by (simp add: small_object_def)
  moreover have "allocate (shooks ?s) = (True, \<lparr>refused = [1], requests = 1, reallocates = True\<rparr>)"
      "allocate \<lparr>refused = [1], requests = 1, reallocates = True\<rparr> = (False, \<lparr>refused = [1], requests = 2, reallocates = True\<rparr>)"
    by (simp_all add: allocate_def)
  ultimately show ?thesis using failures_not_handled [of ?s 0 "[PNode 1 [], PNode 2 []]" 2 _ _ _ 1] by fastforce
qed

end
