(* ===== verification/Cjson_Printer.thy ===== *)
theory Cjson_Printer
  imports Cjson_Number
begin

text \<open>
  The printer of \<^verbatim>\<open>src/gstreamer/cJSON.c\<close>. A print buffer is a block of memory with its length, the
  offset up to which it is written, and the nesting depth; \<open>ensure\<close> enlarges it. Every write goes
  through \<open>write_at\<close>, which faults outside the block, and \<open>update_offset\<close> faults when it finds no
  terminator. What fresh memory holds is an argument, \<open>junk\<close> (by request and place). A print
  function returns the buffer as it left it and the \<^verbatim>\<open>cJSON_bool\<close> of the source.
\<close>

section \<open>The buffer\<close>

record printbuffer =
  block :: "string option"
  capacity :: nat
  print_offset :: nat
  level :: nat
  noalloc :: bool
  formatted :: bool
  phooks :: internal_hooks

type_synonym junk = "nat \<Rightarrow> nat \<Rightarrow> char"

type_synonym printer = "printbuffer \<Rightarrow> c_fault + printbuffer \<times> bool"

definition INT_MAX :: nat where "INT_MAX = 2147483647"

definition fresh :: "junk \<Rightarrow> internal_hooks \<Rightarrow> nat \<Rightarrow> nat \<Rightarrow> string" where
  "fresh junk h lo hi = map (junk (requests h)) [lo ..< hi]"

text \<open>Enlarging the block, by \<^verbatim>\<open>realloc\<close> where it is available, otherwise by hand: this copies the
  bytes up to the offset and the one at the offset. When there is no memory the block is gone.\<close>

definition enlarge :: "junk \<Rightarrow> string \<Rightarrow> nat \<Rightarrow> printbuffer \<Rightarrow> c_fault + printbuffer \<times> nat option" where
  "enlarge junk mem newsize p =
     (case allocate (phooks p) of
        (False, h) \<Rightarrow> Inr (p\<lparr>block := None, capacity := 0, phooks := h\<rparr>, None)
      | (True, h) \<Rightarrow>
          (let enlarged = (\<lambda>kept. Inr (p\<lparr>block := Some (kept @ fresh junk (phooks p) (length kept) newsize),
                                         capacity := newsize, phooks := h\<rparr>, Some (print_offset p)))
           in if reallocates (phooks p) then enlarged mem
              else if length mem < print_offset p + 1 then Inl Over_read
              else enlarged (take (print_offset p + 1) mem)))"

text \<open>\<^verbatim>\<open>ensure\<close>: the place to write to, or none for a null pointer.\<close>

definition ensure :: "junk \<Rightarrow> nat \<Rightarrow> printbuffer \<Rightarrow> c_fault + printbuffer \<times> nat option" where
  "ensure junk needed p =
     (case block p of
        None \<Rightarrow> Inr (p, None)
      | Some mem \<Rightarrow>
          if 0 < capacity p \<and> capacity p \<le> print_offset p then Inr (p, None)
          else if INT_MAX < needed then Inr (p, None)
          else
            (let needed' = needed + print_offset p + 1
             in if needed' \<le> capacity p then Inr (p, Some (print_offset p))
                else if noalloc p then Inr (p, None)
                else if INT_MAX div 2 < needed' then
                  (if needed' \<le> INT_MAX then enlarge junk mem INT_MAX p else Inr (p, None))
                else enlarge junk mem (needed' * 2) p))"

definition write_at :: "nat \<Rightarrow> string \<Rightarrow> printbuffer \<Rightarrow> c_fault + printbuffer" where
  "write_at pos bs p =
     (case block p of
        None \<Rightarrow> Inl Over_write
      | Some mem \<Rightarrow>
          if pos + length bs \<le> length mem
          then Inr (p\<lparr>block := Some (take pos mem @ bs @ drop (pos + length bs) mem)\<rparr>)
          else Inl Over_write)"

definition update_offset :: "printbuffer \<Rightarrow> c_fault + printbuffer" where
  "update_offset p =
     (case block p of
        None \<Rightarrow> Inr p
      | Some mem \<Rightarrow>
          if CHR 0x00 \<in> set (drop (print_offset p) mem)
          then Inr (p\<lparr>print_offset := print_offset p + length (c_str (drop (print_offset p) mem))\<rparr>)
          else Inl Over_read)"

text \<open>The pattern of most print functions: make room for \<open>needed\<close> bytes, write some bytes at the
  offset, and move the offset.\<close>

definition emit :: "junk \<Rightarrow> nat \<Rightarrow> string \<Rightarrow> nat \<Rightarrow> printer" where
  "emit junk needed bs moves p =
     try_bind (ensure junk needed p) (\<lambda>(p1, output_pointer).
       case output_pointer of
         None \<Rightarrow> Inr (p1, False)
       | Some pos \<Rightarrow>
           try_bind (write_at pos bs p1) (\<lambda>p2. Inr (p2\<lparr>print_offset := print_offset p2 + moves\<rparr>, True)))"

text \<open>\<open>if (!f(...)) return false;\<close>\<close>

definition and_then :: "c_fault + printbuffer \<times> bool \<Rightarrow> printer \<Rightarrow> c_fault + printbuffer \<times> bool" where
  "and_then m f = try_bind m (\<lambda>(p, ok). if ok then f p else Inr (p, False))"

definition then_update :: "c_fault + printbuffer \<times> bool \<Rightarrow> printer \<Rightarrow> c_fault + printbuffer \<times> bool" where
  "then_update m f = and_then m (\<lambda>p. try_bind (update_offset p) f)"

section \<open>Numbers and strings\<close>

definition print_number :: "junk \<Rightarrow> char \<Rightarrow> cnode \<Rightarrow> printer" where
  "print_number junk dp item p =
     (let number_buffer = number_text dp (valuedouble item)
      in if 25 < length number_buffer then Inr (p, False)
         else emit junk (length number_buffer + 1) (number_buffer @ [CHR 0x00]) (length number_buffer) p)"

text \<open>The first pass of \<^verbatim>\<open>print_string_ptr\<close> counts the additional characters, the second writes.\<close>

definition escape_extra :: "char \<Rightarrow> nat" where
  "escape_extra c =
     (if c \<in> {CHR 0x22, CHR 0x5C, CHR 0x08, CHR 0x0C, CHR 0x0A, CHR 0x0D, CHR 0x09} then 1
      else if ic c < 32 then 5 else 0)"

definition escape_char :: "char \<Rightarrow> string" where
  "escape_char c =
     (if 31 < ic c \<and> c \<noteq> CHR 0x22 \<and> c \<noteq> CHR 0x5C then [c]
      else CHR 0x5C #
        (if c = CHR 0x5C then [CHR 0x5C]
         else if c = CHR 0x22 then [CHR 0x22]
         else if c = CHR 0x08 then ''b''
         else if c = CHR 0x0C then ''f''
         else if c = CHR 0x0A then ''n''
         else if c = CHR 0x0D then ''r''
         else if c = CHR 0x09 then ''t''
         else CHR ''u'' # hex4_lower (of_char c)))"

definition print_string_ptr :: "junk \<Rightarrow> string option \<Rightarrow> printer" where
  "print_string_ptr junk inp p =
     (case inp of
        None \<Rightarrow> emit junk 3 [CHR 0x22, CHR 0x22, CHR 0x00] 0 p
      | Some input \<Rightarrow>
          (let s = c_str input;
               escape_characters = sum_list (map escape_extra s);
               output_length = length s + escape_characters
           in try_bind (ensure junk (output_length + 3) p) (\<lambda>(p1, output).
                case output of
                  None \<Rightarrow> Inr (p1, False)
                | Some pos \<Rightarrow>
                    try_bind (write_at pos [CHR 0x22] p1) (\<lambda>p2.
                    try_bind (write_at (pos + 1)
                                (if escape_characters = 0 then s else concat (map escape_char s)) p2) (\<lambda>p3.
                    try_bind (write_at (pos + output_length + 1) [CHR 0x22, CHR 0x00] p3) (\<lambda>p4.
                      Inr (p4, True)))))))"

definition print_string :: "junk \<Rightarrow> cnode \<Rightarrow> printer" where
  "print_string junk item = print_string_ptr junk (valuestring item)"

section \<open>Arrays and objects\<close>

text \<open>The loops run over the printers of the elements.\<close>

fun print_elements :: "junk \<Rightarrow> printer list \<Rightarrow> printer" where
  "print_elements junk [] p = Inr (p, True)"
| "print_elements junk [f] p = then_update (f p) (\<lambda>p1. Inr (p1, True))"
| "print_elements junk (f # fs) p =
     then_update (f p) (\<lambda>p1.
       let len = (if formatted p1 then 2 else 1)
       in and_then (emit junk (len + 1) (if formatted p1 then '', '' @ [CHR 0x00] else '','' @ [CHR 0x00]) len p1)
            (print_elements junk fs))"

definition print_array :: "junk \<Rightarrow> printer list \<Rightarrow> printer" where
  "print_array junk fs p =
     and_then (emit junk 1 ''['' 1 p) (\<lambda>p1.
     and_then (print_elements junk fs (p1\<lparr>level := level p1 + 1\<rparr>)) (\<lambda>p2.
     and_then (emit junk 2 ('']'' @ [CHR 0x00]) 0 p2) (\<lambda>p3.
       Inr (p3\<lparr>level := level p3 - 1\<rparr>, True))))"

definition tabs :: "nat \<Rightarrow> string" where "tabs n = replicate n CHR 0x09"

definition print_member :: "junk \<Rightarrow> string option \<Rightarrow> printer \<Rightarrow> bool \<Rightarrow> printer" where
  "print_member junk name f has_next p =
     and_then (if formatted p then emit junk (level p) (tabs (level p)) (level p) p else Inr (p, True)) (\<lambda>p1.
     then_update (print_string_ptr junk name p1) (\<lambda>p2.
     and_then (emit junk (if formatted p2 then 2 else 1) (if formatted p2 then '':'' @ [CHR 0x09] else '':'')
                 (if formatted p2 then 2 else 1) p2) (\<lambda>p3.
     then_update (f p3) (\<lambda>p4.
       let len = (if formatted p4 then 1 else 0) + (if has_next then 1 else 0)
       in emit junk (len + 1)
            ((if has_next then '','' else []) @ (if formatted p4 then [CHR 0x0A] else []) @ [CHR 0x00])
            len p4))))"

fun print_members :: "junk \<Rightarrow> (string option \<times> printer) list \<Rightarrow> printer" where
  "print_members junk [] p = Inr (p, True)"
| "print_members junk ((name, f) # fs) p =
     and_then (print_member junk name f (fs \<noteq> []) p) (print_members junk fs)"

definition print_object :: "junk \<Rightarrow> (string option \<times> printer) list \<Rightarrow> printer" where
  "print_object junk fs p =
     (let len = (if formatted p then 2 else 1)
      in and_then (emit junk (len + 1) (if formatted p then ''{'' @ [CHR 0x0A] else ''{'') len p) (\<lambda>p1.
         and_then (print_members junk fs (p1\<lparr>level := level p1 + 1\<rparr>)) (\<lambda>p2.
         and_then (emit junk (if formatted p2 then level p2 + 1 else 2)
                     ((if formatted p2 then tabs (level p2 - 1) else []) @ ''}'' @ [CHR 0x00]) 0 p2) (\<lambda>p3.
           Inr (p3\<lparr>level := level p3 - 1\<rparr>, True)))))"

primrec print_value :: "junk \<Rightarrow> char \<Rightarrow> cJSON \<Rightarrow> printer" where
  "print_value junk dp (Item n cs) =
     (let k = kind n
      in if k = cJSON_NULL then emit junk 5 (''null'' @ [CHR 0x00]) 0
         else if k = cJSON_False then emit junk 6 (''false'' @ [CHR 0x00]) 0
         else if k = cJSON_True then emit junk 5 (''true'' @ [CHR 0x00]) 0
         else if k = cJSON_Number then print_number junk dp n
         else if k = cJSON_Raw then
           (\<lambda>p. case valuestring n of
              None \<Rightarrow> Inr (p, False)
            | Some raw \<Rightarrow> emit junk (length (c_str raw) + 1) (c_str raw @ [CHR 0x00]) 0 p)
         else if k = cJSON_String then print_string junk n
         else if k = cJSON_Array then print_array junk (map (print_value junk dp) cs)
         else if k = cJSON_Object then
           print_object junk (zip (map (\<lambda>c. key (node c)) cs) (map (print_value junk dp) cs))
         else (\<lambda>p. Inr (p, False)))"

section \<open>Entry points\<close>

text \<open>\<^verbatim>\<open>print\<close>: the block that is returned, or none for a null pointer.\<close>

definition print :: "junk \<Rightarrow> char \<Rightarrow> cJSON option \<Rightarrow> bool \<Rightarrow> internal_hooks \<Rightarrow> c_fault + string option \<times> internal_hooks" where
  "print junk dp item fmt h =
     (case allocate h of
        (False, h1) \<Rightarrow> Inr (None, h1)
      | (True, h1) \<Rightarrow>
          (let p = \<lparr>block = Some (fresh junk h 0 256), capacity = 256, print_offset = 0, level = 0,
                     noalloc = False, formatted = fmt, phooks = h1\<rparr>
           in try_bind (case item of None \<Rightarrow> Inr (p, False) | Some it \<Rightarrow> print_value junk dp it p) (\<lambda>(p1, ok).
                if \<not> ok then Inr (None, phooks p1)
                else
                  try_bind (update_offset p1) (\<lambda>p2.
                    case (block p2, allocate (phooks p2)) of
                      (Some mem, True, h2) \<Rightarrow>
                        if reallocates (phooks p2) then Inr (Some (take (print_offset p2 + 1) mem), h2)
                        else if length mem < min (capacity p2) (print_offset p2 + 1) then Inl Over_read
                        else Inr (Some (take (print_offset p2) mem @ [CHR 0x00]), h2)
                    | (_, _, h2) \<Rightarrow> Inr (None, h2)))))"

definition cJSON_Print :: "junk \<Rightarrow> char \<Rightarrow> cJSON option \<Rightarrow> internal_hooks \<Rightarrow> c_fault + string option \<times> internal_hooks" where
  "cJSON_Print junk dp item h = print junk dp item True h"

definition cJSON_PrintUnformatted ::
    "junk \<Rightarrow> char \<Rightarrow> cJSON option \<Rightarrow> internal_hooks \<Rightarrow> c_fault + string option \<times> internal_hooks" where
  "cJSON_PrintUnformatted junk dp item h = print junk dp item False h"

definition run_print :: "junk \<Rightarrow> char \<Rightarrow> cJSON option \<Rightarrow> printer" where
  "run_print junk dp item p = (case item of None \<Rightarrow> Inr (p, False) | Some it \<Rightarrow> print_value junk dp it p)"

definition cJSON_PrintBuffered ::
    "junk \<Rightarrow> char \<Rightarrow> cJSON option \<Rightarrow> int \<Rightarrow> bool \<Rightarrow> internal_hooks \<Rightarrow> c_fault + string option \<times> internal_hooks" where
  "cJSON_PrintBuffered junk dp item prebuffer fmt h =
     (if prebuffer < 0 then Inr (None, h)
      else
        (case allocate h of
           (False, h1) \<Rightarrow> Inr (None, h1)
         | (True, h1) \<Rightarrow>
             try_bind (run_print junk dp item
                 \<lparr>block = Some (fresh junk h 0 (nat prebuffer)), capacity = nat prebuffer, print_offset = 0,
                  level = 0, noalloc = False, formatted = fmt, phooks = h1\<rparr>)
               (\<lambda>(p1, ok). Inr (if ok then block p1 else None, phooks p1))))"

text \<open>\<^verbatim>\<open>cJSON_PrintPreallocated\<close> writes into the block \<open>mem\<close> of the caller.\<close>

definition cJSON_PrintPreallocated ::
    "char \<Rightarrow> cJSON option \<Rightarrow> string option \<Rightarrow> int \<Rightarrow> bool \<Rightarrow> internal_hooks \<Rightarrow> c_fault + string option \<times> bool" where
  "cJSON_PrintPreallocated dp item mem len fmt h =
     (if len < 0 \<or> mem = None then Inr (mem, False)
      else
        try_bind (run_print (\<lambda>_ _. CHR 0x00) dp item
            \<lparr>block = mem, capacity = nat len, print_offset = 0, level = 0, noalloc = True, formatted = fmt,
             phooks = h\<rparr>)
          (\<lambda>(p1, ok). Inr (block p1, ok)))"

end
