(* ===== verification/Cjson_Print.thy ===== *)
theory Cjson_Print
  imports Cjson_Printer
begin

text \<open>
  The printer of \<^verbatim>\<open>src/gstreamer/cJSON.c\<close> against a reference: \<open>render\<close> is the text of an item as a
  function, with no buffer. Printing never faults, whatever memory holds and whichever requests are
  refused; when it succeeds the buffer holds the rendered text; and it succeeds when there is room
  for the text and two more bytes.
\<close>

section \<open>The text of an item\<close>

definition cat :: "string option \<Rightarrow> string option \<Rightarrow> string option" where
  "cat a b = (case a of None \<Rightarrow> None | Some x \<Rightarrow> map_option ((@) x) b)"

lemma cat_eq_Some [simp]: "cat a b = Some t \<longleftrightarrow> (\<exists>x y. a = Some x \<and> b = Some y \<and> t = x @ y)"
  by (auto simp: cat_def split: option.splits)

lemma cat_simps [simp]: "cat (Some x) (Some y) = Some (x @ y)" "cat None b = None" "cat a None = None"
  by (simp_all add: cat_def split: option.splits)

type_synonym layout = "bool \<Rightarrow> nat \<Rightarrow> string option"

fun join_elements :: "bool \<Rightarrow> string option list \<Rightarrow> string option" where
  "join_elements fmt [] = Some []"
| "join_elements fmt [t] = t"
| "join_elements fmt (t # ts) = cat t (cat (Some (if fmt then '', '' else '','')) (join_elements fmt ts))"

definition render_string :: "string option \<Rightarrow> string" where
  "render_string inp =
     CHR 0x22 # (case inp of None \<Rightarrow> [] | Some s \<Rightarrow> concat (map escape_char (c_str s))) @ [CHR 0x22]"

fun join_members :: "bool \<Rightarrow> nat \<Rightarrow> (string option \<times> string option) list \<Rightarrow> string option" where
  "join_members fmt lvl [] = Some []"
| "join_members fmt lvl ((name, t) # ms) =
     cat (Some ((if fmt then tabs lvl else []) @ render_string name @ (if fmt then '':'' @ [CHR 0x09] else '':'')))
       (cat t (cat (Some ((if ms \<noteq> [] then '','' else []) @ (if fmt then [CHR 0x0A] else [])))
          (join_members fmt lvl ms)))"

primrec render :: "char \<Rightarrow> cJSON \<Rightarrow> layout" where
  "render dp (Item n cs) =
     (let k = kind n
      in if k = cJSON_NULL then (\<lambda>fmt lvl. Some ''null'')
         else if k = cJSON_False then (\<lambda>fmt lvl. Some ''false'')
         else if k = cJSON_True then (\<lambda>fmt lvl. Some ''true'')
         else if k = cJSON_Number then
           (\<lambda>fmt lvl. if 25 < length (number_text dp (valuedouble n)) then None
                      else Some (number_text dp (valuedouble n)))
         else if k = cJSON_Raw then (\<lambda>fmt lvl. map_option c_str (valuestring n))
         else if k = cJSON_String then (\<lambda>fmt lvl. Some (render_string (valuestring n)))
         else if k = cJSON_Array then
           (\<lambda>fmt lvl. cat (Some ''['') (cat (join_elements fmt (map (\<lambda>f. f fmt (lvl + 1)) (map (render dp) cs)))
              (Some '']'')))
         else if k = cJSON_Object then
           (\<lambda>fmt lvl.
              cat (Some (if fmt then ''{'' @ [CHR 0x0A] else ''{''))
                (cat (join_members fmt (lvl + 1)
                       (zip (map (\<lambda>c. key (node c)) cs) (map (\<lambda>f. f fmt (lvl + 1)) (map (render dp) cs))))
                  (Some ((if fmt then tabs lvl else []) @ ''}''))))
         else (\<lambda>fmt lvl. None))"

section \<open>What holds of the buffer\<close>

text \<open>The buffer holds the text \<open>s\<close> and the offset is behind it.\<close>

definition stands :: "printbuffer \<Rightarrow> string \<Rightarrow> bool" where
  "stands p s \<longleftrightarrow>
     (\<exists>rest. block p = Some (s @ rest) \<and> print_offset p = length s \<and> capacity p \<le> length s + length rest \<and>
       (length s < capacity p \<or> s = [] \<and> capacity p = 0 \<and> (reallocates (phooks p) \<or> noalloc p)))"

text \<open>The buffer holds \<open>s\<close> and the terminated text \<open>t\<close> behind it; the offset is somewhere in \<open>t\<close>.\<close>

definition lands :: "printbuffer \<Rightarrow> string \<Rightarrow> string \<Rightarrow> bool" where
  "lands p s t \<longleftrightarrow>
     (\<exists>rest k. block p = Some (s @ t @ CHR 0x00 # rest) \<and> print_offset p = length s + k \<and> k \<le> length t \<and>
       CHR 0x00 \<notin> set (drop k t) \<and> length s + length t + 2 \<le> capacity p \<and>
       capacity p \<le> length s + length t + 1 + length rest)"

text \<open>What a successful step keeps of the other members.\<close>

definition grown :: "printbuffer \<Rightarrow> printbuffer \<Rightarrow> bool" where
  "grown p p' \<longleftrightarrow>
     noalloc p' = noalloc p \<and> formatted p' = formatted p \<and> reallocates (phooks p') = reallocates (phooks p) \<and>
     (unfailing (phooks p) \<longrightarrow> unfailing (phooks p')) \<and> capacity p \<le> capacity p' \<and>
     (noalloc p \<longrightarrow> capacity p' = capacity p)"

text \<open>There is room for \<open>n\<close> bytes, or memory can be had for them.\<close>

definition room :: "printbuffer \<Rightarrow> nat option \<Rightarrow> bool" where
  "room p want =
     (case want of
        None \<Rightarrow> False
      | Some n \<Rightarrow> n \<le> INT_MAX \<and> (n \<le> capacity p \<or> \<not> noalloc p \<and> unfailing (phooks p)))"

text \<open>A step that does not fault, establishes \<open>Q\<close> when it succeeds, and succeeds with room for \<open>want\<close>.\<close>

definition printing :: "nat option \<Rightarrow> printbuffer \<Rightarrow> (printbuffer \<Rightarrow> bool) \<Rightarrow> c_fault + printbuffer \<times> bool \<Rightarrow> bool" where
  "printing want p Q r \<longleftrightarrow>
     (\<exists>p' ok. r = Inr (p', ok) \<and> (ok \<longrightarrow> grown p p' \<and> Q p') \<and> (room p want \<longrightarrow> ok))"

lemma grown_refl [simp]: "grown p p"
  by (simp add: grown_def)

lemma grown_trans: "grown p p' \<Longrightarrow> grown p' p'' \<Longrightarrow> grown p p''"
  by (auto simp: grown_def)

lemma grown_updates [simp]:
  "grown p (p'\<lparr>print_offset := x\<rparr>) = grown p p'" "grown p (p'\<lparr>level := y\<rparr>) = grown p p'"
  "grown p (p'\<lparr>block := z\<rparr>) = grown p p'" "grown (p\<lparr>level := y\<rparr>) p' = grown p p'"
  by (simp_all add: grown_def)

lemma room_grown: "room p want \<Longrightarrow> grown p p' \<Longrightarrow> room p' want"
  by (auto simp: room_def grown_def split: option.splits)

lemma room_mono: "room p (Some n) \<Longrightarrow> m \<le> n \<Longrightarrow> room p (Some m)"
  by (auto simp: room_def)

lemma room_None [simp]: "\<not> room p None"
  by (simp add: room_def)

lemma printing_and_then:
  assumes "printing want p Q r" "\<And>p'. Q p' \<Longrightarrow> grown p p' \<Longrightarrow> printing want p' R (f p')"
  shows "printing want p R (and_then r f)"
proof -
  obtain p1 ok where r: "r = Inr (p1, ok)" "ok \<longrightarrow> grown p p1 \<and> Q p1" "room p want \<longrightarrow> ok"
    using assms(1) by (auto simp: printing_def)
  show ?thesis
  proof (cases ok)
    case True
    with r have g: "grown p p1" "Q p1" by auto
    from assms(2) [OF g(2,1)] obtain p2 ok2 where "f p1 = Inr (p2, ok2)"
      "ok2 \<longrightarrow> grown p1 p2 \<and> R p2" "room p1 want \<longrightarrow> ok2"
      by (auto simp: printing_def)
    with True r(1) g(1) show ?thesis
      by (auto simp: printing_def and_then_def intro: grown_trans room_grown)
  next
    case False
    with r show ?thesis by (auto simp: printing_def and_then_def)
  qed
qed

lemma printing_done: "Q p \<Longrightarrow> printing want p Q (Inr (p, True))"
  by (auto simp: printing_def)

lemma room_level [simp]: "room (p\<lparr>level := lv\<rparr>) want = room p want"
  by (cases want) (simp_all add: room_def)

lemma printing_level [simp]: "printing want (p\<lparr>level := lv\<rparr>) Q r = printing want p Q r"
  by (simp add: printing_def)

lemma lands_level [simp]: "lands (p\<lparr>level := lv\<rparr>) s t = lands p s t"
  by (simp add: lands_def)

lemma stands_level [simp]: "stands (p\<lparr>level := lv\<rparr>) s = stands p s"
  by (simp add: stands_def)

lemma printing_done_level: "Q (p\<lparr>level := lv\<rparr>) \<Longrightarrow> printing want p Q (Inr (p\<lparr>level := lv\<rparr>, True))"
  by (auto simp: printing_def)

lemma printing_mono:
  assumes "printing want' p Q r" "\<And>p'. Q p' \<Longrightarrow> R p'" "room p want \<Longrightarrow> room p want'"
  shows "printing want p R r"
  using assms by (auto simp: printing_def)

lemma printing_formatted: "printing want p Q r \<Longrightarrow> printing want p (\<lambda>p'. Q p' \<and> formatted p' = formatted p) r"
  by (auto simp: printing_def grown_def)

lemma update_lands:
  assumes "lands p s t"
  shows "\<exists>p'. update_offset p = Inr p' \<and> stands p' (s @ t) \<and> grown p p' \<and> level p' = level p"
proof -
  obtain rest k where b: "block p = Some (s @ t @ CHR 0x00 # rest)" "print_offset p = length s + k" "k \<le> length t"
      "CHR 0x00 \<notin> set (drop k t)" "length s + length t + 2 \<le> capacity p"
      "capacity p \<le> length s + length t + 1 + length rest"
    using assms by (auto simp: lands_def)
  have "c_str (drop k t @ CHR 0x00 # rest) = drop k t"
    using b(4) by (auto simp: c_str_def takeWhile_append)
  with b show ?thesis by (auto simp: update_offset_def stands_def)
qed

lemma printing_then_update:
  assumes "printing want p (\<lambda>p'. \<exists>t. u = Some t \<and> lands p' s t \<and> level p' = lv) r"
    "\<And>p' t. u = Some t \<Longrightarrow> stands p' (s @ t) \<Longrightarrow> level p' = lv \<Longrightarrow> grown p p' \<Longrightarrow> printing want p' R (f p')"
  shows "printing want p R (then_update r f)"
  unfolding then_update_def
proof (rule printing_and_then [OF assms(1)])
  fix p1 assume "\<exists>t. u = Some t \<and> lands p1 s t \<and> level p1 = lv" and g: "grown p p1"
  then obtain t where t: "u = Some t" "lands p1 s t" "level p1 = lv" by blast
  from update_lands [OF t(2)] obtain p2 where p2: "update_offset p1 = Inr p2" "stands p2 (s @ t)"
    "grown p1 p2" "level p2 = lv"
    using t(3) by auto
  from assms(2) [OF t(1) p2(2,4) grown_trans [OF g p2(3)]]
  show "printing want p1 R (try_bind (update_offset p1) f)"
    using p2(1,3) by (auto simp: printing_def intro: grown_trans room_grown)
qed

section \<open>Making room and writing\<close>

lemma enlarge_stands:
  assumes "stands p s" "length s + needed + 1 \<le> newsize" "\<not> noalloc p" "capacity p \<le> newsize"
  shows "\<exists>p1 r. enlarge junk (the (block p)) newsize p = Inr (p1, r) \<and>
    (r \<noteq> None \<longrightarrow> r = Some (length s) \<and> stands p1 s \<and> grown p p1 \<and> level p1 = level p \<and>
      length s + needed + 1 \<le> capacity p1) \<and> (unfailing (phooks p) \<longrightarrow> r \<noteq> None)"
proof -
  obtain rest where b: "block p = Some (s @ rest)" "print_offset p = length s" "capacity p \<le> length s + length rest"
      "length s < capacity p \<or> s = [] \<and> reallocates (phooks p)"
    using assms(1,3) by (auto simp: stands_def)
  obtain ok h where h: "allocate (phooks p) = (ok, h)" "unfailing (phooks p) \<longrightarrow> ok \<and> unfailing h"
      "reallocates h = reallocates (phooks p)"
    by (simp add: allocate_def unfailing_def)
  show ?thesis
  proof (cases ok)
    case False
    with b h show ?thesis by (simp add: enlarge_def)
  next
    case ok: True
    define kept where "kept = (if reallocates (phooks p) then s @ rest else s @ take 1 rest)"
    have taken: "take (length s + 1) (s @ rest) = s @ take 1 rest" by simp
    have long: "reallocates (phooks p) \<or> length s + 1 \<le> length (s @ rest)" using b(3,4) by auto
    define p1 where "p1 = p\<lparr>block := Some (kept @ fresh junk (phooks p) (length kept) newsize),
      capacity := newsize, phooks := h\<rparr>"
    have "enlarge junk (the (block p)) newsize p = Inr (p1, Some (length s))"
      using h(1) ok b(1,2) long taken by (auto simp: enlarge_def p1_def kept_def Let_def)
    moreover obtain more where "kept = s @ more" by (cases "reallocates (phooks p)") (auto simp: kept_def)
    then have "stands p1 s"
      using assms(2) b(2) by (auto simp: stands_def p1_def fresh_def)
    ultimately show ?thesis
      using h ok assms(2-4) by (auto simp: p1_def grown_def)
  qed
qed

lemma ensure_stands:
  assumes "stands p s"
  shows "\<exists>p1 r. ensure junk needed p = Inr (p1, r) \<and>
    (r \<noteq> None \<longrightarrow> r = Some (length s) \<and> stands p1 s \<and> grown p p1 \<and> level p1 = level p \<and>
      length s + needed + 1 \<le> capacity p1) \<and> (room p (Some (length s + needed + 1)) \<longrightarrow> r \<noteq> None)"
proof -
  obtain mem where b: "block p = Some mem" "print_offset p = length s" "0 < capacity p \<longrightarrow> length s < capacity p"
    using assms by (auto simp: stands_def)
  let ?n = "needed + length s + 1"
  show ?thesis
  proof (cases "needed \<le> INT_MAX \<and> ?n \<le> INT_MAX \<and> \<not> ?n \<le> capacity p \<and> \<not> noalloc p")
    case True
    define newsize where "newsize = (if INT_MAX div 2 < ?n then INT_MAX else ?n * 2)"
    have e: "ensure junk needed p = enlarge junk mem newsize p"
      using True b by (auto simp: ensure_def newsize_def Let_def)
    have "length s + needed + 1 \<le> newsize" "capacity p \<le> newsize"
      using True by (auto simp: newsize_def)
    from enlarge_stands [OF assms this(1) _ this(2), of junk] True b(1) show ?thesis
      by (auto simp: e room_def)
  next
    case False
    then have "ensure junk needed p =
        Inr (p, if needed \<le> INT_MAX \<and> ?n \<le> capacity p then Some (length s) else None)"
      using b by (auto simp: ensure_def Let_def)
    moreover have "room p (Some (length s + needed + 1)) \<Longrightarrow> needed \<le> INT_MAX \<and> ?n \<le> capacity p"
      using False by (auto simp: room_def)
    ultimately show ?thesis using assms by auto
  qed
qed

text \<open>After \<open>emit\<close> the bytes are behind the text, and nothing before the offset has changed.\<close>

definition emitted :: "printbuffer \<Rightarrow> nat \<Rightarrow> string \<Rightarrow> nat \<Rightarrow> string \<Rightarrow> printbuffer \<Rightarrow> bool" where
  "emitted p needed bs moves s p' \<longleftrightarrow> level p' = level p \<and>
     (\<exists>rest. block p' = Some (s @ bs @ rest) \<and> print_offset p' = length s + moves \<and>
       length s + needed + 1 \<le> capacity p' \<and> capacity p' \<le> length s + length bs + length rest)"

lemma write_stands:
  assumes "stands p s" "length s + length bs \<le> capacity p"
  shows "\<exists>p' rest. write_at (length s) bs p = Inr p' \<and> p' = p\<lparr>block := Some (s @ bs @ rest)\<rparr> \<and>
    capacity p \<le> length s + length bs + length rest"
proof -
  obtain rest where "block p = Some (s @ rest)" "capacity p \<le> length s + length rest"
    using assms(1) by (auto simp: stands_def)
  with assms(2) show ?thesis
    by (auto simp: write_at_def intro!: exI [of _ "drop (length bs) rest"])
qed

lemma printing_emit:
  assumes "stands p s" "length bs \<le> needed" "room p want \<Longrightarrow> room p (Some (length s + needed + 1))"
  shows "printing want p (emitted p needed bs moves s) (emit junk needed bs moves p)"
proof -
  from ensure_stands [OF assms(1), of junk needed] obtain p1 r where e: "ensure junk needed p = Inr (p1, r)"
    "r \<noteq> None \<longrightarrow> r = Some (length s) \<and> stands p1 s \<and> grown p p1 \<and> level p1 = level p \<and>
      length s + needed + 1 \<le> capacity p1" "room p (Some (length s + needed + 1)) \<longrightarrow> r \<noteq> None"
    by blast
  show ?thesis
  proof (cases r)
    case None
    with e assms(3) show ?thesis by (auto simp: printing_def emit_def)
  next
    case (Some pos)
    with e assms(2) have s: "pos = length s" "stands p1 s" "grown p p1" "level p1 = level p"
      "length s + needed + 1 \<le> capacity p1" "length s + length bs \<le> capacity p1" by auto
    from write_stands [OF s(2,6)] obtain rest where
      "write_at (length s) bs p1 = Inr (p1\<lparr>block := Some (s @ bs @ rest)\<rparr>)"
      "capacity p1 \<le> length s + length bs + length rest" by auto
    with e(1) Some s show ?thesis
      by (auto simp: printing_def emit_def emitted_def stands_def)
  qed
qed

text \<open>Text with the offset moved behind it, and terminated text with the offset before it.\<close>

lemma emitted_stands: "emitted p needed (t @ u) (length t) s p' \<Longrightarrow> length t \<le> needed \<Longrightarrow> stands p' (s @ t)"
  by (auto simp: emitted_def stands_def)

lemma emitted_lands:
  "emitted p needed (t @ [CHR 0x00]) k s p' \<Longrightarrow> length t < needed \<Longrightarrow> k \<le> length t \<Longrightarrow>
    CHR 0x00 \<notin> set (drop k t) \<Longrightarrow> lands p' s t"
  unfolding emitted_def lands_def by (elim conjE exE, rule exI, rule exI [of _ k]) auto

section \<open>The contract of a print function\<close>

text \<open>\<open>want\<close> is at least the room for \<open>s\<close>, the text and \<open>c\<close> more bytes.\<close>

definition fits :: "nat option \<Rightarrow> string \<Rightarrow> string option \<Rightarrow> nat \<Rightarrow> bool" where
  "fits want s shown c \<longleftrightarrow> (\<forall>n. want = Some n \<longrightarrow> (\<exists>t. shown = Some t \<and> length s + length t + c \<le> n))"

lemma fits_room: "fits want s shown c \<Longrightarrow> room p want \<Longrightarrow> \<exists>t. shown = Some t \<and> room p (Some (length s + length t + c))"
  by (cases want) (auto simp: fits_def intro: room_mono)

lemma fits_cat: "fits want s (cat (Some x) b) c \<Longrightarrow> fits want (s @ x) b c"
  by (auto simp: fits_def)

lemma fits_first: "fits want s (cat a b) c \<Longrightarrow> d \<le> c \<Longrightarrow> fits want s a d"
  by (fastforce simp: fits_def)

lemma fits_last: "fits want s (cat a b) c \<Longrightarrow> a = Some x \<Longrightarrow> fits want (s @ x) b c"
  by (auto simp: fits_def)

definition printed :: "printbuffer \<Rightarrow> string \<Rightarrow> string option \<Rightarrow> printbuffer \<Rightarrow> bool" where
  "printed p s shown p' \<longleftrightarrow> (\<exists>t. shown = Some t \<and> lands p' s t \<and> level p' = level p)"

locale prints =
  fixes f :: printer and shown :: layout
  assumes prints: "stands p s \<Longrightarrow> fits want s (shown (formatted p) (level p)) 2 \<Longrightarrow>
    printing want p (printed p s (shown (formatted p) (level p))) (f p)"
begin

lemma never_faults: "stands p s \<Longrightarrow> \<exists>p' ok. f p = Inr (p', ok)"
  using prints [of p s None] by (auto simp: printing_def fits_def)

lemma success_prints:
  "stands p s \<Longrightarrow> f p = Inr (p', True) \<Longrightarrow> \<exists>t. shown (formatted p) (level p) = Some t \<and> lands p' s t \<and> grown p p'"
  using prints [of p s None] by (auto simp: printing_def fits_def printed_def)

lemma succeeds:
  "stands p s \<Longrightarrow> shown (formatted p) (level p) = Some t \<Longrightarrow> room p (Some (length s + length t + 2)) \<Longrightarrow>
    \<exists>p'. f p = Inr (p', True) \<and> lands p' s t \<and> grown p p'"
  using prints [of p s "Some (length s + length t + 2)"] by (auto simp: printing_def fits_def printed_def)

end

lemma prints_fails: "prints (\<lambda>p. Inr (p, False)) (\<lambda>fmt lvl. None)"
  by unfold_locales (auto simp: printing_def fits_def room_def split: option.splits)

lemma prints_emit:
  assumes "k \<le> length t" "CHR 0x00 \<notin> set (drop k t)" "bs = t @ [CHR 0x00]"
  shows "prints (emit junk (length t + 1) bs k) (\<lambda>fmt lvl. Some t)"
proof unfold_locales
  fix p s want assume s: "stands p s" "fits want s (Some t) 2"
  have "printing want p (emitted p (length t + 1) bs k s) (emit junk (length t + 1) bs k p)"
    using s fits_room [OF s(2), of p] by (intro printing_emit) (auto simp: assms(3))
  then show "printing want p (printed p s (Some t)) (emit junk (length t + 1) bs k p)"
    by (rule printing_mono) (auto simp: printed_def assms intro!: emitted_lands, auto simp: emitted_def)
qed

section \<open>Numbers, strings, raw text\<close>

lemma c_str_no_nul': "CHR 0x00 \<notin> set (c_str s)"
  by (auto simp: c_str_def dest: set_takeWhileD)

lemma set_drop_not: "x \<notin> set xs \<Longrightarrow> x \<notin> set (drop k xs)"
  by (auto dest: in_set_dropD)

lemma length_escape_char: "length (escape_char c) = 1 + escape_extra c"
proof -
  have "c \<in> {CHR 0x08, CHR 0x0C, CHR 0x0A, CHR 0x0D, CHR 0x09} \<Longrightarrow> ic c < 32" by auto
  then show ?thesis
    by (cases "31 < ic c") (auto simp: escape_char_def escape_extra_def hex4_lower_def)
qed

lemma length_escaped: "length (concat (map escape_char s)) = length s + sum_list (map escape_extra s)"
  by (induction s) (simp_all add: length_escape_char)

lemma escaped_plain: "sum_list (map escape_extra s) = 0 \<Longrightarrow> concat (map escape_char s) = s"
proof (induction s)
  case (Cons c s)
  then have "escape_extra c = 0" by simp
  then have "31 < ic c" "c \<noteq> CHR 0x22" "c \<noteq> CHR 0x5C" by (auto simp: escape_extra_def split: if_splits)
  with Cons show ?case by (simp add: escape_char_def)
qed simp

lemma hex_lower_nonzero: "d < 16 \<Longrightarrow> hex_lower d \<noteq> CHR 0x00"
  using ic_hex_lower [of d] by (auto split: if_splits)

lemma escape_char_no_nul: "CHR 0x00 \<notin> set (escape_char c)"
  by (auto simp: escape_char_def hex4_lower_def hex_lower_nonzero dest: sym)

lemma escaped_no_nul: "CHR 0x00 \<notin> set (concat (map escape_char s))"
  using escape_char_no_nul by auto

lemma prints_number:
  "prints (print_number junk dp n)
     (\<lambda>fmt lvl. if 25 < length (number_text dp (valuedouble n)) then None
                else Some (number_text dp (valuedouble n)))"
proof (cases "25 < length (number_text dp (valuedouble n))")
  case True
  then show ?thesis
    using prints_fails by (simp add: print_number_def [abs_def] Let_def)
next
  case False
  then show ?thesis
    using prints_emit [of "length (number_text dp (valuedouble n))" "number_text dp (valuedouble n)" _ junk]
    by (simp add: print_number_def [abs_def] Let_def)
qed

lemma prints_string_ptr: "prints (print_string_ptr junk inp) (\<lambda>fmt lvl. Some (render_string inp))"
proof (cases inp)
  case None
  have "prints (emit junk (length [CHR 0x22, CHR 0x22] + 1) [CHR 0x22, CHR 0x22, CHR 0x00] 0)
      (\<lambda>fmt lvl. Some [CHR 0x22, CHR 0x22])"
    by (rule prints_emit) simp_all
  then show ?thesis
    unfolding print_string_ptr_def [abs_def] None by (simp add: render_string_def numeral_eq_Suc)
next
  case (Some input)
  define e where "e = concat (map escape_char (c_str input))"
  define n where "n = length (c_str input) + sum_list (map escape_extra (c_str input))"
  have e: "length e = n" "CHR 0x00 \<notin> set e"
    "(if sum_list (map escape_extra (c_str input)) = 0 then c_str input else e) = e"
    using escaped_no_nul [of "c_str input"] by (auto simp: e_def n_def length_escaped escaped_plain simp del: map_map)
  have r: "render_string inp = CHR 0x22 # e @ [CHR 0x22]" by (simp add: Some render_string_def e_def)
  show ?thesis
  proof unfold_locales
    fix p s want assume s: "stands p s" "fits want s (Some (render_string inp)) 2"
    from ensure_stands [OF s(1), of junk "n + 3"] obtain p1 q where
      q: "ensure junk (n + 3) p = Inr (p1, q)"
      "q \<noteq> None \<longrightarrow> q = Some (length s) \<and> stands p1 s \<and> grown p p1 \<and> level p1 = level p \<and>
        length s + (n + 3) + 1 \<le> capacity p1" "room p (Some (length s + (n + 3) + 1)) \<longrightarrow> q \<noteq> None"
      by blast
    have room: "room p want \<longrightarrow> q \<noteq> None"
      using fits_room [OF s(2), of p] q(3) by (auto simp: r e numeral_eq_Suc)
    show "printing want p (printed p s (Some (render_string inp))) (print_string_ptr junk inp p)"
    proof (cases q)
      case None
      with q room Some show ?thesis
        by (auto simp: print_string_ptr_def printing_def Let_def n_def)
    next
      case (Some pos)
      with q(2) have st: "pos = length s" "stands p1 s" "grown p p1" "level p1 = level p"
        "length s + (n + 3) + 1 \<le> capacity p1" by simp_all
      from st(2) obtain rest where rest: "block p1 = Some (s @ rest)" "print_offset p1 = length s"
        "capacity p1 \<le> length s + length rest"
        unfolding stands_def by blast
      note p1 = st rest
      define p4 where "p4 = p1\<lparr>block := Some (s @ CHR 0x22 # e @ CHR 0x22 # CHR 0x00 # drop (n + 3) rest)\<rparr>"
      have l: "n + 4 \<le> length rest" using p1 by linarith
      have "write_at pos [CHR 0x22] p1 = Inr (p1\<lparr>block := Some (s @ CHR 0x22 # drop 1 rest)\<rparr>)"
        using l p1 by (simp add: write_at_def)
      moreover have "write_at (pos + 1) e (p1\<lparr>block := Some (s @ CHR 0x22 # drop 1 rest)\<rparr>) =
          Inr (p1\<lparr>block := Some (s @ CHR 0x22 # e @ drop (n + 1) rest)\<rparr>)"
        using l p1 e by (simp add: write_at_def)
      moreover have "write_at (pos + n + 1) [CHR 0x22, CHR 0x00]
          (p1\<lparr>block := Some (s @ CHR 0x22 # e @ drop (n + 1) rest)\<rparr>) = Inr p4"
        using l p1 e by (simp add: write_at_def p4_def numeral_eq_Suc)
      ultimately have "print_string_ptr junk inp p = Inr (p4, True)"
        unfolding print_string_ptr_def \<open>inp = Some input\<close> option.case Let_def n_def [symmetric]
          e_def [symmetric] e(3) q(1) Some by simp
      moreover have "lands p4 s (CHR 0x22 # e @ [CHR 0x22])"
        unfolding lands_def using p1 e l by (intro exI [of _ "drop (n + 3) rest"] exI [of _ 0]) (simp add: p4_def)
      ultimately show ?thesis
        using p1 by (auto simp: printing_def printed_def r p4_def)
    qed
  qed
qed

lemma prints_raw:
  "prints (\<lambda>p. case valuestring n of None \<Rightarrow> Inr (p, False)
      | Some raw \<Rightarrow> emit junk (length (c_str raw) + 1) (c_str raw @ [CHR 0x00]) 0 p)
     (\<lambda>fmt lvl. map_option c_str (valuestring n))"
proof (cases "valuestring n")
  case None
  then show ?thesis using prints_fails by simp
next
  case (Some raw)
  then show ?thesis
    using prints_emit [of 0 "c_str raw" _ junk] c_str_no_nul' [of raw] by simp
qed

section \<open>Arrays\<close>

lemma printing_put:
  assumes "stands p s" "fits want s (cat (Some x) b) c" "bs = x @ u" "length bs \<le> needed"
    "needed + 1 \<le> length x + c" "k = length x"
  shows "printing want p (\<lambda>p'. stands p' (s @ x) \<and> level p' = level p) (emit junk needed bs k p)"
proof -
  have "printing want p (emitted p needed (x @ u) (length x) s) (emit junk needed (x @ u) (length x) p)"
  proof (rule printing_emit)
    assume "room p want"
    from fits_room [OF assms(2) this] obtain y where "room p (Some (length s + length (x @ y) + c))" by auto
    with assms(5) show "room p (Some (length s + needed + 1))"
      by (auto elim!: room_mono)
  qed (use assms in auto)
  then show ?thesis
    unfolding assms(3,6)
  proof (rule printing_mono)
    fix p' assume "emitted p needed (x @ u) (length x) s p'"
    then show "stands p' (s @ x) \<and> level p' = level p"
      using assms(3,4) emitted_stands [of p needed x u s p'] by (auto simp: emitted_def)
  qed
qed

lemma printing_elements:
  assumes "list_all2 prints fs shs" "stands p s"
    "fits want s (join_elements (formatted p) (map (\<lambda>f. f (formatted p) (level p)) shs)) 3"
  shows "printing want p
    (\<lambda>p'. \<exists>t. join_elements (formatted p) (map (\<lambda>f. f (formatted p) (level p)) shs) = Some t \<and>
       stands p' (s @ t) \<and> level p' = level p) (print_elements junk fs p)"
  using assms
proof (induction junk fs p arbitrary: s shs rule: print_elements.induct)
  case (1 junk p)
  then show ?case by (auto intro: printing_done)
next
  case (2 junk f p)
  then obtain sh where sh: "shs = [sh]" "prints f sh" by (auto simp: list_all2_Cons1)
  let ?u = "sh (formatted p) (level p)"
  have "printing want p (printed p s ?u) (f p)"
    using "2.prems"(2,3) sh(1) by (intro prints.prints [OF sh(2)]) (auto simp: fits_def)
  then show ?case
    unfolding print_elements.simps printed_def
    by (rule printing_then_update) (auto simp: sh intro: printing_done)
next
  case (3 junk f f' fs p)
  then obtain sh sh' shs' where sh: "shs = sh # sh' # shs'" "prints f sh" "list_all2 prints (f' # fs) (sh' # shs')"
    by (auto simp: list_all2_Cons1)
  let ?sep = "if formatted p then '', '' else '',''"
  let ?u = "sh (formatted p) (level p)"
  let ?v = "join_elements (formatted p) (map (\<lambda>f. f (formatted p) (level p)) (sh' # shs'))"
  have w: "fits want s (cat ?u (cat (Some ?sep) ?v)) 3" using "3.prems"(3) by (simp add: sh(1))
  have "printing want p (printed p s ?u) (f p)"
    using "3.prems"(2) fits_first [OF w] by (intro prints.prints [OF sh(2)]) auto
  then show ?case
    unfolding print_elements.simps printed_def
  proof (rule printing_then_update)
    fix p1 t assume t: "?u = Some t" "stands p1 (s @ t)" "level p1 = level p" "grown p p1"
    have fmt: "formatted p1 = formatted p" using t(4) by (simp add: grown_def)
    let ?len = "if formatted p1 then 2 else 1"
    let ?bs = "if formatted p1 then '', '' @ [CHR 0x00] else '','' @ [CHR 0x00]"
    have w1: "fits want (s @ t) (cat (Some ?sep) ?v) 3" using fits_last [OF w t(1)] .
    have "printing want p1 (\<lambda>p'. stands p' ((s @ t) @ ?sep) \<and> level p' = level p1)
        (emit junk (?len + 1) ?bs ?len p1)"
      by (rule printing_put [OF t(2) w1, where u = "[CHR 0x00]"]) (auto simp: fmt)
    then show "printing want p1
        (\<lambda>p'. \<exists>t. join_elements (formatted p) (map (\<lambda>f. f (formatted p) (level p)) shs) = Some t \<and>
           stands p' (s @ t) \<and> level p' = level p)
        (let len = ?len in and_then (emit junk (len + 1) ?bs len p1) (print_elements junk (f' # fs)))"
      unfolding Let_def
    proof (rule printing_and_then)
      fix p2 assume e: "stands p2 ((s @ t) @ ?sep) \<and> level p2 = level p1" and g: "grown p1 p2"
      have fmt2: "formatted p2 = formatted p" using g fmt by (simp add: grown_def)
      have s2: "stands p2 ((s @ t) @ ?sep)" and l2: "level p2 = level p" using e t(3) by auto
      have "printing want p2 (\<lambda>p'. \<exists>t'. ?v = Some t' \<and> stands p' (((s @ t) @ ?sep) @ t') \<and> level p' = level p2)
          (print_elements junk (f' # fs) p2)"
        using "3.IH" [OF _ sh(3) s2] fits_cat [OF w1] fmt2 l2 by auto
      then show "printing want p2
          (\<lambda>p'. \<exists>t. join_elements (formatted p) (map (\<lambda>f. f (formatted p) (level p)) shs) = Some t \<and>
             stands p' (s @ t) \<and> level p' = level p) (print_elements junk (f' # fs) p2)"
        by (rule printing_mono) (auto simp: sh(1) t(1) l2)
    qed
  qed
qed

text \<open>The closing bracket, with the tabs before it, is terminated and the offset stays.\<close>

lemma printing_close:
  assumes "stands p s" "fits want s (Some x) 2" "bs = x @ [CHR 0x00]" "needed = length x + 1"
    "s = s0 @ t" "CHR 0x00 \<notin> set x"
  shows "printing want p (\<lambda>p'. lands p' s0 (t @ x) \<and> level p' = level p) (emit junk needed bs 0 p)"
proof -
  have "printing want p (emitted p needed bs 0 s) (emit junk needed bs 0 p)"
    using assms fits_room [OF assms(2), of p] by (intro printing_emit) auto
  then show ?thesis
  proof (rule printing_mono)
    fix p' assume "emitted p needed bs 0 s p'"
    then obtain rest where "level p' = level p" "block p' = Some (s @ bs @ rest)" "print_offset p' = length s"
      "length s + needed + 1 \<le> capacity p'" "capacity p' \<le> length s + length bs + length rest"
      by (auto simp: emitted_def)
    with assms(3-6) show "lands p' s0 (t @ x) \<and> level p' = level p"
      unfolding lands_def by (intro conjI exI [of _ rest] exI [of _ "length t"]) auto
  qed
qed

lemma prints_array:
  assumes "list_all2 prints fs shs"
  shows "prints (print_array junk fs)
    (\<lambda>fmt lvl. cat (Some ''['') (cat (join_elements fmt (map (\<lambda>f. f fmt (lvl + 1)) shs)) (Some '']'')))"
proof unfold_locales
  fix p :: printbuffer and s want
  let ?j = "\<lambda>fmt lvl. join_elements fmt (map (\<lambda>f. f fmt (lvl + 1)) shs)"
  let ?u = "?j (formatted p) (level p)"
  let ?Q = "printed p s (cat (Some ''['') (cat ?u (Some '']'')))"
  assume s: "stands p s" "fits want s (cat (Some ''['') (cat ?u (Some '']''))) 2"
  have "printing want p (\<lambda>p'. stands p' (s @ ''['') \<and> level p' = level p) (emit junk 1 ''['' 1 p)"
    by (rule printing_put [OF s, where u = "[]"]) auto
  then show "printing want p ?Q (print_array junk fs p)"
    unfolding print_array_def
  proof (rule printing_and_then)
    fix p1 assume "stands p1 (s @ ''['') \<and> level p1 = level p" and g1: "grown p p1"
    then have s1: "stands (p1\<lparr>level := level p1 + 1\<rparr>) (s @ ''['')" "level p1 = level p"
      and fmt1: "formatted p1 = formatted p"
      by (auto simp: stands_def grown_def)
    let ?p1 = "p1\<lparr>level := level p1 + 1\<rparr>"
    have "printing want ?p1 (\<lambda>p'. \<exists>t. ?u = Some t \<and> stands p' ((s @ ''['') @ t) \<and> level p' = level ?p1)
        (print_elements junk fs ?p1)"
    proof -
      have "fits want (s @ ''['') ?u 3"
        using fits_cat [OF s(2)] by (auto simp: fits_def)
      with printing_elements [OF assms s1(1), of want junk] show ?thesis
        by (simp add: s1(2) fmt1 del: append_assoc)
    qed
    then have "printing want ?p1 ?Q (and_then (print_elements junk fs ?p1) (\<lambda>p2.
        and_then (emit junk 2 ('']'' @ [CHR 0x00]) 0 p2) (\<lambda>p3. Inr (p3\<lparr>level := level p3 - 1\<rparr>, True))))"
    proof (rule printing_and_then)
      fix p2 assume "\<exists>t. ?u = Some t \<and> stands p2 ((s @ ''['') @ t) \<and> level p2 = level ?p1"
      then obtain t where t: "?u = Some t" "stands p2 (s @ ''['' @ t)" "level p2 = level p + 1"
        using s1(2) by auto
      have "printing want p2 (\<lambda>p'. lands p' s ((''['' @ t) @ '']'') \<and> level p' = level p2)
          (emit junk 2 ('']'' @ [CHR 0x00]) 0 p2)"
        by (rule printing_close [OF t(2)]) (use s(2) t(1) in \<open>simp_all add: fits_def\<close>)
      then show "printing want p2 ?Q (and_then (emit junk 2 ('']'' @ [CHR 0x00]) 0 p2)
          (\<lambda>p3. Inr (p3\<lparr>level := level p3 - 1\<rparr>, True)))"
        by (rule printing_and_then) (rule printing_done_level, use t in \<open>auto simp: printed_def\<close>)
    qed
    then show "printing want p1 ?Q (and_then (print_elements junk fs ?p1) (\<lambda>p2.
        and_then (emit junk 2 ('']'' @ [CHR 0x00]) 0 p2) (\<lambda>p3. Inr (p3\<lparr>level := level p3 - 1\<rparr>, True))))"
      by simp
  qed
qed

section \<open>Objects\<close>

text \<open>What \<open>print_member\<close> writes before and behind the value.\<close>

definition member_head :: "bool \<Rightarrow> nat \<Rightarrow> string option \<Rightarrow> string" where
  "member_head fmt lvl name =
     (if fmt then tabs lvl else []) @ render_string name @ (if fmt then '':'' @ [CHR 0x09] else '':'')"

definition member_tail :: "bool \<Rightarrow> bool \<Rightarrow> string" where
  "member_tail fmt has_next = (if has_next then '','' else []) @ (if fmt then [CHR 0x0A] else [])"

lemma printing_member_value:
  assumes "prints f sh" "stands p s" "sh (formatted p) (level p) = u"
    "fits want s (cat u (cat (Some (member_tail (formatted p) has_next)) b)) 2"
  shows "printing want p
    (\<lambda>p'. \<exists>t. u = Some t \<and> stands p' (s @ t @ member_tail (formatted p) has_next) \<and> level p' = level p)
    (then_update (f p) (\<lambda>p4.
       let len = (if formatted p4 then 1 else 0) + (if has_next then 1 else 0)
       in emit junk (len + 1)
            ((if has_next then '','' else []) @ (if formatted p4 then [CHR 0x0A] else []) @ [CHR 0x00])
            len p4))"
    (is "printing want p ?Q _")
proof -
  have "printing want p (printed p s u) (f p)"
    using fits_first [OF assms(4)] prints.prints [OF assms(1,2), of want] assms(3) by simp
  then show ?thesis
    unfolding printed_def
  proof (rule printing_then_update)
    fix p4 t assume t: "u = Some t" "stands p4 (s @ t)" "level p4 = level p" "grown p p4"
    then have fmt4: "formatted p4 = formatted p" by (auto simp: grown_def)
    let ?len = "(if formatted p4 then 1 else 0) + (if has_next then 1 else 0)"
    let ?bs = "(if has_next then '','' else []) @ (if formatted p4 then [CHR 0x0A] else []) @ [CHR 0x00]"
    have "printing want p4 (\<lambda>p'. stands p' ((s @ t) @ member_tail (formatted p) has_next) \<and> level p' = level p4)
        (emit junk (?len + 1) ?bs ?len p4)"
      by (rule printing_put [OF t(2) fits_last [OF assms(4) t(1)], where u = "[CHR 0x00]"])
        (auto simp: member_tail_def fmt4)
    then show "printing want p4 ?Q (let len = ?len in emit junk (len + 1) ?bs len p4)"
      unfolding Let_def by (rule printing_mono) (auto simp: t(1,3))
  qed
qed

lemma printing_member:
  assumes "prints f sh" "stands p s" "sh (formatted p) (level p) = u"
    "fits want s (cat (Some (member_head (formatted p) (level p) name))
       (cat u (cat (Some (member_tail (formatted p) has_next)) b))) 2"
  shows "printing want p
    (\<lambda>p'. \<exists>t. u = Some t \<and>
       stands p' (s @ member_head (formatted p) (level p) name @ t @ member_tail (formatted p) has_next) \<and>
       level p' = level p) (print_member junk name f has_next p)"
    (is "printing want p ?Q _")
proof -
  let ?x = "if formatted p then tabs (level p) else []"
  let ?n = "render_string name"
  let ?c = "if formatted p then '':'' @ [CHR 0x09] else '':''"
  have w: "fits want s (cat (Some ?x) (cat (Some ?n) (cat (Some ?c)
      (cat u (cat (Some (member_tail (formatted p) has_next)) b))))) 2"
    using assms(4) by (auto simp: fits_def member_head_def)
  note w1 = fits_cat [OF w]
  note w2 = fits_cat [OF w1]
  have start: "printing want p (\<lambda>p'. stands p' (s @ ?x) \<and> level p' = level p)
      (if formatted p then emit junk (level p) (tabs (level p)) (level p) p else Inr (p, True))"
    using assms(2) printing_put [OF assms(2) w, of "tabs (level p)" "[]" "level p" "level p" junk]
    by (auto simp: tabs_def intro: printing_done)
  show ?thesis
    unfolding print_member_def
  proof (rule printing_and_then [OF start], rule printing_then_update [where s = "s @ ?x"])
    fix p1 assume "stands p1 (s @ ?x) \<and> level p1 = level p" and "grown p p1"
    then show "printing want p1 (\<lambda>p'. \<exists>t. Some ?n = Some t \<and> lands p' (s @ ?x) t \<and> level p' = level p)
        (print_string_ptr junk name p1)"
      using fits_first [OF w1] prints.prints [OF prints_string_ptr, of p1 "s @ ?x" want name junk]
      by (cases "formatted p") (simp_all add: printed_def [abs_def])
  next
    fix p1 p2 t assume "Some ?n = Some t" "stands p2 ((s @ ?x) @ t)" "level p2 = level p" "grown p1 p2" "grown p p1"
    then have s2: "stands p2 ((s @ ?x) @ ?n)" "formatted p2 = formatted p" "level p2 = level p"
      by (auto simp: grown_def)
    show "printing want p2 ?Q
        (and_then (emit junk (if formatted p2 then 2 else 1) (if formatted p2 then '':'' @ [CHR 0x09] else '':'')
                     (if formatted p2 then 2 else 1) p2) (\<lambda>p3.
         then_update (f p3) (\<lambda>p4.
           let len = (if formatted p4 then 1 else 0) + (if has_next then 1 else 0)
           in emit junk (len + 1)
                ((if has_next then '','' else []) @ (if formatted p4 then [CHR 0x0A] else []) @ [CHR 0x00])
                len p4)))"
    proof (rule printing_and_then [OF printing_formatted [OF printing_put [OF s2(1) w2, where u = "[]"]]])
      fix p3 assume "(stands p3 (((s @ ?x) @ ?n) @ ?c) \<and> level p3 = level p2) \<and> formatted p3 = formatted p2"
      then have s3: "stands p3 (((s @ ?x) @ ?n) @ ?c)" "level p3 = level p" "formatted p3 = formatted p"
        using s2 by auto
      show "printing want p3 ?Q (then_update (f p3) (\<lambda>p4.
           let len = (if formatted p4 then 1 else 0) + (if has_next then 1 else 0)
           in emit junk (len + 1)
                ((if has_next then '','' else []) @ (if formatted p4 then [CHR 0x0A] else []) @ [CHR 0x00]) len p4))"
        by (rule printing_mono [OF printing_member_value [OF assms(1) s3(1)]])
          (use s3 assms(3) fits_cat [OF w2] in \<open>auto simp: member_head_def\<close>)
    qed (auto simp: s2)
  qed
qed

abbreviation prints_named :: "string option \<times> printer \<Rightarrow> string option \<times> layout \<Rightarrow> bool" where
  "prints_named m n \<equiv> fst m = fst n \<and> prints (snd m) (snd n)"

abbreviation laid_out :: "bool \<Rightarrow> nat \<Rightarrow> (string option \<times> layout) list \<Rightarrow> string option" where
  "laid_out fmt lvl shs \<equiv> join_members fmt lvl (map (\<lambda>(name, sh). (name, sh fmt lvl)) shs)"

lemma join_members_Cons:
  "join_members fmt lvl ((name, t) # ms) =
    cat (Some (member_head fmt lvl name)) (cat t (cat (Some (member_tail fmt (ms \<noteq> []))) (join_members fmt lvl ms)))"
  by (simp add: member_head_def member_tail_def)

lemma printing_members:
  assumes "list_all2 prints_named ms shs" "stands p s" "fits want s (laid_out (formatted p) (level p) shs) 2"
  shows "printing want p
    (\<lambda>p'. \<exists>t. laid_out (formatted p) (level p) shs = Some t \<and> stands p' (s @ t) \<and> level p' = level p)
    (print_members junk ms p)"
  using assms
proof (induction ms arbitrary: p s shs)
  case Nil
  then show ?case by (auto intro: printing_done)
next
  case (Cons m ms)
  obtain name f where m: "m = (name, f)" by force
  with Cons.prems(1) obtain sh shs' where sh: "shs = (name, sh) # shs'" "prints f sh"
    "list_all2 prints_named ms shs'"
    by (auto simp: list_all2_Cons1)
  have ne: "shs' \<noteq> [] \<longleftrightarrow> ms \<noteq> []" using sh(3) by auto
  let ?h = "member_head (formatted p) (level p) name" and ?e = "member_tail (formatted p) (ms \<noteq> [])"
  let ?u = "sh (formatted p) (level p)" and ?r = "laid_out (formatted p) (level p) shs'"
  have j: "laid_out (formatted p) (level p) shs = cat (Some ?h) (cat ?u (cat (Some ?e) ?r))"
    by (simp add: sh(1) join_members_Cons ne del: join_members.simps)
  note w = Cons.prems(3) [unfolded j]
  show ?case
    unfolding m print_members.simps
  proof (rule printing_and_then [OF printing_formatted [OF printing_member [OF sh(2) Cons.prems(2) refl w]]])
    fix p1
    assume "(\<exists>t. ?u = Some t \<and> stands p1 (s @ ?h @ t @ ?e) \<and> level p1 = level p) \<and> formatted p1 = formatted p"
    then obtain t where t: "?u = Some t" "stands p1 (s @ ?h @ t @ ?e)" "level p1 = level p"
      "formatted p1 = formatted p"
      by blast
    have "fits want (s @ ?h @ t @ ?e) ?r 2"
      using fits_cat [OF fits_last [OF fits_cat [OF w] t(1)]] by simp
    with Cons.IH [OF sh(3) t(2)] have "printing want p1
        (\<lambda>p'. \<exists>t'. ?r = Some t' \<and> stands p' ((s @ ?h @ t @ ?e) @ t') \<and> level p' = level p1)
        (print_members junk ms p1)"
      by (simp add: t(3,4))
    then show "printing want p1
        (\<lambda>p'. \<exists>t. laid_out (formatted p) (level p) shs = Some t \<and> stands p' (s @ t) \<and> level p' = level p)
        (print_members junk ms p1)"
      by (rule printing_mono) (auto simp: j t)
  qed
qed

lemma prints_object:
  assumes "list_all2 prints_named ms shs"
  shows "prints (print_object junk ms)
    (\<lambda>fmt lvl. cat (Some (if fmt then ''{'' @ [CHR 0x0A] else ''{''))
       (cat (laid_out fmt (lvl + 1) shs) (Some ((if fmt then tabs lvl else []) @ ''}''))))"
proof unfold_locales
  fix p :: printbuffer and s want
  let ?x = "if formatted p then ''{'' @ [CHR 0x0A] else ''{''"
  let ?y = "(if formatted p then tabs (level p) else []) @ ''}''"
  let ?u = "laid_out (formatted p) (level p + 1) shs"
  let ?Q = "printed p s (cat (Some ?x) (cat ?u (Some ?y)))"
  let ?close = "\<lambda>p2. and_then (emit junk (if formatted p2 then level p2 + 1 else 2)
      ((if formatted p2 then tabs (level p2 - 1) else []) @ ''}'' @ [CHR 0x00]) 0 p2)
      (\<lambda>p3. Inr (p3\<lparr>level := level p3 - 1\<rparr>, True))"
  assume s: "stands p s" "fits want s (cat (Some ?x) (cat ?u (Some ?y))) 2"
  show "printing want p ?Q (print_object junk ms p)"
    unfolding print_object_def Let_def
  proof (rule printing_and_then [OF printing_formatted [OF printing_put [OF s, where u = "[]"]]])
    fix p1 assume "(stands p1 (s @ ?x) \<and> level p1 = level p) \<and> formatted p1 = formatted p"
    then have s1: "stands p1 (s @ ?x)" "level p1 = level p" "formatted p1 = formatted p" by auto
    let ?p1 = "p1\<lparr>level := level p1 + 1\<rparr>"
    have "printing want ?p1 (\<lambda>p'. (\<exists>t. ?u = Some t \<and> stands p' ((s @ ?x) @ t) \<and> level p' = level p + 1) \<and>
        formatted p' = formatted p) (print_members junk ms ?p1)"
      using printing_formatted [OF printing_members [OF assms, of ?p1 "s @ ?x" want junk]] s1
        fits_first [OF fits_cat [OF s(2)]] by simp
    then have "printing want ?p1 ?Q (and_then (print_members junk ms ?p1) ?close)"
    proof (rule printing_and_then)
      fix p2
      assume "(\<exists>t. ?u = Some t \<and> stands p2 ((s @ ?x) @ t) \<and> level p2 = level p + 1) \<and> formatted p2 = formatted p"
      then obtain t where t: "?u = Some t" "stands p2 (s @ ?x @ t)" "level p2 = level p + 1"
        "formatted p2 = formatted p"
        by auto
      have "fits want (s @ ?x @ t) (Some ?y) 2" using fits_last [OF fits_cat [OF s(2)] t(1)] by simp
      then have "printing want p2 (\<lambda>p'. lands p' s ((?x @ t) @ ?y) \<and> level p' = level p2)
          (emit junk (if formatted p2 then level p2 + 1 else 2)
            ((if formatted p2 then tabs (level p2 - 1) else []) @ ''}'' @ [CHR 0x00]) 0 p2)"
        by (rule printing_close [OF t(2)]) (auto simp: t tabs_def)
      then show "printing want p2 ?Q (?close p2)"
        by (rule printing_and_then) (rule printing_done_level, use t in \<open>auto simp: printed_def\<close>)
    qed
    then show "printing want p1 ?Q (and_then (print_members junk ms ?p1) ?close)"
      by simp
  qed auto
qed

section \<open>Values\<close>

lemma prints_value: "prints (print_value junk dp it) (render dp it)"
proof (induction it)
  case (Item n cs)
  have arr: "list_all2 prints (map (print_value junk dp) cs) (map (render dp) cs)"
    using Item by (simp add: list_all2_map1 list_all2_map2 list_all2_same)
  let ?ms = "zip (map (\<lambda>c. key (node c)) cs) (map (print_value junk dp) cs)"
  let ?shs = "zip (map (\<lambda>c. key (node c)) cs) (map (render dp) cs)"
  have obj: "list_all2 prints_named ?ms ?shs"
    using Item by (auto simp: list_all2_conv_all_nth)
  have laid: "zip (map (\<lambda>c. key (node c)) cs) (map (\<lambda>f. f fmt l) (map (render dp) cs)) =
      map (\<lambda>(name, sh). (name, sh fmt l)) ?shs" for fmt l
    by (simp add: zip_map2 zip_map1 case_prod_beta)
  note word = prints_emit [of 0 _ _ junk, simplified]
  show ?case
    using prints_array [OF arr, of junk] prints_object [OF obj, of junk] word [of "''null''"] word [of "''false''"]
      word [of "''true''"] prints_number [where junk = junk and dp = dp and n = n] prints_string_ptr [of junk "valuestring n"]
      prints_raw [where junk = junk and n = n] prints_fails
    by (simp add: Let_def laid print_string_def [abs_def] numeral_eq_Suc del: map_map)
qed

interpretation pvc: prints "print_value junk dp it" "render dp it" for junk dp it
  by (rule prints_value)

section \<open>The entry points\<close>

lemma length_fresh [simp]: "length (fresh junk h lo hi) = hi - lo"
  by (simp add: fresh_def)

lemma stands_initial:
  "n \<le> length mem \<Longrightarrow> 0 < n \<or> reallocates h \<or> na \<Longrightarrow>
    stands \<lparr>block = Some mem, capacity = n, print_offset = 0, level = 0, noalloc = na, formatted = fmt, phooks = h\<rparr> []"
  by (auto simp: stands_def)

text \<open>\<^verbatim>\<open>print\<close> behind \<^verbatim>\<open>print_value\<close>: the text is copied or cut to its length.\<close>

lemma print_finish:
  assumes "lands p [] t"
  shows "\<exists>out h'. try_bind (update_offset p) (\<lambda>p2.
      case (block p2, allocate (phooks p2)) of
        (Some mem, True, h2) \<Rightarrow>
          if reallocates (phooks p2) then Inr (Some (take (print_offset p2 + 1) mem), h2)
          else if length mem < min (capacity p2) (print_offset p2 + 1) then Inl Over_read
          else Inr (Some (take (print_offset p2) mem @ [CHR 0x00]), h2)
      | (_, _, h2) \<Rightarrow> Inr (None, h2)) = (Inr (out, h') :: c_fault + string option \<times> internal_hooks) \<and>
    (out = None \<or> out = Some (t @ [CHR 0x00])) \<and> (unfailing (phooks p) \<longrightarrow> out \<noteq> None \<and> unfailing h')"
proof -
  obtain rest k where b: "block p = Some (t @ CHR 0x00 # rest)" "print_offset p = k" "k \<le> length t"
      "CHR 0x00 \<notin> set (drop k t)"
    using assms by (auto simp: lands_def)
  have "c_str (drop k t @ CHR 0x00 # rest) = drop k t"
    using b(4) by (auto simp: c_str_def takeWhile_append)
  then have u: "update_offset p = Inr (p\<lparr>print_offset := length t\<rparr>)"
    using b by (simp add: update_offset_def)
  obtain ok h where h: "allocate (phooks p) = (ok, h)" "unfailing (phooks p) \<longrightarrow> ok \<and> unfailing h"
    by (simp add: allocate_def unfailing_def)
  show ?thesis
    using h b(1) by (cases ok) (auto simp: u)
qed

lemma print_contract:
  "\<exists>out h'. print junk dp item fmt h = Inr (out, h') \<and>
    (\<forall>mem. out = Some mem \<longrightarrow> (\<exists>it t. item = Some it \<and> render dp it fmt 0 = Some t \<and> mem = t @ [CHR 0x00])) \<and>
    (\<forall>it t. unfailing h \<longrightarrow> item = Some it \<longrightarrow> render dp it fmt 0 = Some t \<longrightarrow> length t + 2 \<le> INT_MAX \<longrightarrow>
       out \<noteq> None \<and> unfailing h')"
proof -
  obtain ok h1 where h1: "allocate h = (ok, h1)" "unfailing h \<longrightarrow> ok \<and> unfailing h1"
    by (simp add: allocate_def unfailing_def)
  let ?p = "\<lparr>block = Some (fresh junk h 0 256), capacity = 256, print_offset = 0, level = 0, noalloc = False,
             formatted = fmt, phooks = h1\<rparr>"
  show ?thesis
  proof (cases "ok \<and> item \<noteq> None")
    case False
    with h1 show ?thesis by (cases ok) (auto simp: print_def Let_def)
  next
    case True
    then obtain it where it: "item = Some it" "ok" by auto
    have st: "stands ?p []" by (rule stands_initial) auto
    from pvc.never_faults [OF st] obtain p' good where r: "print_value junk dp it ?p = Inr (p', good)" by blast
    show ?thesis
    proof (cases good)
      case False
      then have "\<not> (unfailing h \<and> render dp it fmt 0 = Some t \<and> length t + 2 \<le> INT_MAX)" for t
        using pvc.succeeds [OF st, of dp it t junk] r h1(2) by (auto simp: room_def)
      with False r it h1(1) show ?thesis by (auto simp: print_def Let_def)
    next
      case True
      with pvc.success_prints [OF st] r obtain t where t: "render dp it fmt 0 = Some t" "lands p' [] t" "grown ?p p'"
        by fastforce
      from print_finish [OF t(2)] t(1,3) r it h1 True show ?thesis
        by (auto simp: print_def Let_def grown_def)
    qed
  qed
qed

text \<open>C9. Printing is memory safe and never prints anything but the text of the item: whatever fresh memory
  holds and whichever allocations fail, \<^verbatim>\<open>cJSON_Print\<close> and \<^verbatim>\<open>cJSON_PrintUnformatted\<close> stay inside the buffer
  they enlarge, and return either a null pointer or exactly the rendered text with its terminator.\<close>

theorem cJSON_Print_safe:
  "\<exists>out h'. (if fmt then cJSON_Print else cJSON_PrintUnformatted) junk dp item h = Inr (out, h') \<and>
    (out = None \<or> (\<exists>it t. item = Some it \<and> render dp it fmt 0 = Some t \<and> out = Some (t @ [CHR 0x00])))"
proof -
  from print_contract [of junk dp item fmt h] obtain out h' where r: "print junk dp item fmt h = Inr (out, h')"
    and *: "\<forall>mem. out = Some mem \<longrightarrow>
      (\<exists>it t. item = Some it \<and> render dp it fmt 0 = Some t \<and> mem = t @ [CHR 0x00])" by blast
  from r have "(if fmt then cJSON_Print else cJSON_PrintUnformatted) junk dp item h = Inr (out, h')"
    by (cases fmt) (simp_all add: cJSON_Print_def cJSON_PrintUnformatted_def)
  with * show ?thesis by (cases out) auto
qed

lemma print_succeeds:
  assumes "unfailing h" "render dp it fmt 0 = Some t" "length t + 2 \<le> INT_MAX"
  shows "\<exists>h'. print junk dp (Some it) fmt h = Inr (Some (t @ [CHR 0x00]), h') \<and> unfailing h'"
  using print_contract [of junk dp "Some it" fmt h] assms by fastforce

text \<open>C10. \<^verbatim>\<open>cJSON_PrintPreallocated\<close> writes into the caller's buffer and nowhere else, and it succeeds exactly
  when the length it is given exceeds that of the text by two or more; then the buffer starts with the text
  and its terminator. (The header advises five bytes to be safe; a buffer that has just room for the text and
  its terminator is refused.)\<close>

theorem cJSON_PrintPreallocated_exact:
  assumes "0 \<le> len" "nat len \<le> length mem" "nat len \<le> INT_MAX"
  shows "\<exists>mem' ok. cJSON_PrintPreallocated dp (Some it) (Some mem) len fmt h = Inr (mem', ok) \<and>
    (ok \<longleftrightarrow> (\<exists>t. render dp it fmt 0 = Some t \<and> length t + 2 \<le> nat len)) \<and>
    (ok \<longrightarrow> (\<exists>t rest. render dp it fmt 0 = Some t \<and> mem' = Some (t @ CHR 0x00 # rest)))"
proof -
  let ?junk = "\<lambda>_ _. CHR 0x00"
  let ?p = "\<lparr>block = Some mem, capacity = nat len, print_offset = 0, level = 0, noalloc = True, formatted = fmt,
             phooks = h\<rparr>"
  have st: "stands ?p []" using assms by (intro stands_initial) auto
  from pvc.never_faults [OF st] obtain p' ok where r: "print_value ?junk dp it ?p = Inr (p', ok)" by blast
  have run: "cJSON_PrintPreallocated dp (Some it) (Some mem) len fmt h = Inr (block p', ok)"
    using assms r by (simp add: cJSON_PrintPreallocated_def run_print_def)
  show ?thesis
  proof (cases ok)
    case True
    with pvc.success_prints [OF st] r obtain t where "render dp it fmt 0 = Some t" "lands p' [] t" "grown ?p p'"
      by fastforce
    with True run show ?thesis by (fastforce simp: lands_def grown_def)
  next
    case False
    then have "\<not> (render dp it fmt 0 = Some t \<and> length t + 2 \<le> nat len)" for t
      using pvc.succeeds [OF st, of dp it t ?junk] r assms(3) by (auto simp: room_def)
    then show ?thesis using False run by auto
  qed
qed

theorem cJSON_PrintPreallocated_exact_witness:
  "\<exists>mem' ok. cJSON_PrintPreallocated CHR ''.'' (Some (Item (zero_node\<lparr>ctype := cJSON_True\<rparr>) []))
      (Some ''123456'') 6 True ample = Inr (mem', ok) \<and> ok"
proof -
  have "render CHR ''.'' (Item (zero_node\<lparr>ctype := cJSON_True\<rparr>) []) True 0 = Some ''true''" by code_simp
  with cJSON_PrintPreallocated_exact [of 6 "''123456''" "CHR ''.''" "Item (zero_node\<lparr>ctype := cJSON_True\<rparr>) []"
      True ample] show ?thesis by (auto simp: INT_MAX_def)
qed

text \<open>\<^verbatim>\<open>cJSON_PrintBuffered\<close>: when the first block has at least one byte, or \<^verbatim>\<open>realloc\<close> is used, the result
  starts with the text. A first block of no bytes is legal, but without \<^verbatim>\<open>realloc\<close> the byte at the offset is
  copied out of it.\<close>

lemma cJSON_PrintBuffered_prints:
  assumes "0 < prebuffer \<or> prebuffer = 0 \<and> reallocates h"
  shows "\<exists>out h'. cJSON_PrintBuffered junk dp (Some it) prebuffer fmt h = Inr (out, h') \<and>
    (out = None \<or> (\<exists>t rest. render dp it fmt 0 = Some t \<and> out = Some (t @ CHR 0x00 # rest)))"
proof -
  obtain ok h1 where h1: "allocate h = (ok, h1)" "reallocates h1 = reallocates h" by (simp add: allocate_def)
  show ?thesis
  proof (cases ok)
    case False
    with h1 show ?thesis using assms by (auto simp: cJSON_PrintBuffered_def)
  next
    case True
    let ?p = "\<lparr>block = Some (fresh junk h 0 (nat prebuffer)), capacity = nat prebuffer, print_offset = 0, level = 0,
               noalloc = False, formatted = fmt, phooks = h1\<rparr>"
    have st: "stands ?p []" using assms h1(2) by (intro stands_initial) auto
    from pvc.never_faults [OF st] obtain p' good where r: "print_value junk dp it ?p = Inr (p', good)" by blast
    have run: "cJSON_PrintBuffered junk dp (Some it) prebuffer fmt h =
        Inr (if good then block p' else None, phooks p')"
      using assms True h1(1) r by (auto simp: cJSON_PrintBuffered_def run_print_def)
    show ?thesis
    proof (cases good)
      case True
      with pvc.success_prints [OF st] r obtain t where "render dp it fmt 0 = Some t" "lands p' [] t"
        by fastforce
      with True run show ?thesis by (auto simp: lands_def)
    qed (use run in simp)
  qed
qed

lemma emit_faults:
  assumes "block p = Some []" "capacity p = 0" "print_offset p = 0" "\<not> noalloc p" "\<not> reallocates (phooks p)"
    and "unfailing (phooks p)" "needed < INT_MAX"
  shows "emit junk needed bs k p = Inl Over_read" "ensure junk needed p = Inl Over_read"
proof -
  obtain h where "allocate (phooks p) = (True, h)" using allocate_unfailing [OF assms(6)] by blast
  with assms show "ensure junk needed p = Inl Over_read"
    by (simp add: ensure_def enlarge_def Let_def)
  then show "emit junk needed bs k p = Inl Over_read" by (simp add: emit_def)
qed

lemma print_value_faults:
  assumes "block p = Some []" "capacity p = 0" "print_offset p = 0" "\<not> noalloc p" "\<not> reallocates (phooks p)"
    and "unfailing (phooks p)" "render dp it (formatted p) lvl = Some t" "length t + 2 \<le> INT_MAX"
  shows "print_value junk dp it p = Inl Over_read"
proof (cases it)
  case (Item n cs)
  have small: "Suc (Suc (Suc (Suc (Suc (Suc 0))))) < INT_MAX" by (simp add: INT_MAX_def)
  note f = emit_faults [OF assms(1-6)]
  have num: "length (number_text dp (valuedouble n)) \<le> 25 \<Longrightarrow>
      print_number junk dp n p = Inl Over_read"
    using small by (simp add: print_number_def Let_def f INT_MAX_def)
  have str: "length (render_string (valuestring n)) + 2 \<le> INT_MAX \<Longrightarrow> print_string junk n p = Inl Over_read"
    by (cases "valuestring n")
      (simp_all add: print_string_def print_string_ptr_def Let_def f render_string_def length_escaped INT_MAX_def)
  show ?thesis
    using assms(7,8) small num str f
    by (auto simp: Item Let_def print_array_def print_object_def and_then_def INT_MAX_def split: if_splits)
qed

text \<open>Handed a first block of size zero, \<^verbatim>\<open>cJSON_PrintBuffered\<close> with allocation functions of the
  caller's own reads a byte outside that block, for every item that has a text.\<close>

lemma cJSON_PrintBuffered_faults:
  assumes "unfailing h" "\<not> reallocates h" "render dp it fmt 0 = Some t" "length t + 2 \<le> INT_MAX"
  shows "cJSON_PrintBuffered junk dp (Some it) 0 fmt h = Inl Over_read"
proof -
  obtain h1 where "allocate h = (True, h1)" "unfailing h1" "\<not> reallocates h1"
    using assms(1,2) by (simp add: allocate_def unfailing_def)
  with print_value_faults [of _ dp it 0 t junk] assms(3,4) show ?thesis
    by (simp add: cJSON_PrintBuffered_def run_print_def fresh_def)
qed

lemma cJSON_PrintBuffered_faults_witness:
  "cJSON_PrintBuffered (\<lambda>_ _. CHR ''x'') CHR ''.'' (Some (Item (zero_node\<lparr>ctype := cJSON_True\<rparr>) [])) 0 True
     (cJSON_InitHooks (Some (True, True)) ample) = Inl Over_read"
proof -
  have "render CHR ''.'' (Item (zero_node\<lparr>ctype := cJSON_True\<rparr>) []) True 0 = Some ''true''" by code_simp
  then show ?thesis
    by (intro cJSON_PrintBuffered_faults [where t = "''true''"])
      (simp_all add: INT_MAX_def unfailing_def ample_def cJSON_InitHooks_def)
qed

end
