(* ===== verification/Cjson_Parser.thy ===== *)
theory Cjson_Parser
  imports Cjson_Item
begin

text \<open>
  The parser of \<^verbatim>\<open>src/gstreamer/cJSON.c\<close>. A parse buffer holds the bytes that the caller promised
  to be readable, the offset and the nesting depth. Every access goes through \<open>byte_at\<close>, which
  faults outside these bytes, and every byte of a decoded string through \<open>put\<close>, which faults
  outside the block that was allocated for it. A parse function returns the buffer as it left it
  and the item, or no item where the source returns \<^verbatim>\<open>false\<close>. \<open>dp\<close> is the decimal point of the
  locale \<^verbatim>\<open>strtod\<close> works in; \<^verbatim>\<open>get_decimal_point\<close> is always \<^verbatim>\<open>'.'\<close>, since \<^verbatim>\<open>ENABLE_LOCALES\<close> is not
  defined in the build.
\<close>

section \<open>The buffer\<close>

record parse_buffer =
  bytes :: string
  offset :: nat
  depth :: nat
  hooks :: internal_hooks

definition can_read :: "parse_buffer \<Rightarrow> nat \<Rightarrow> bool" where
  "can_read b n \<longleftrightarrow> offset b + n \<le> length (bytes b)"

definition can_access_at_index :: "parse_buffer \<Rightarrow> nat \<Rightarrow> bool" where
  "can_access_at_index b i \<longleftrightarrow> offset b + i < length (bytes b)"

definition byte_at :: "parse_buffer \<Rightarrow> nat \<Rightarrow> c_fault + char" where
  "byte_at b i =
     (if can_access_at_index b i then Inr (bytes b ! (offset b + i)) else Inl Over_read)"

text \<open>Guarded comparison of the byte at the offset: \<^verbatim>\<open>can_access_at_index(b, 0) && b[0] == c\<close>.\<close>

definition looking_at :: "parse_buffer \<Rightarrow> char \<Rightarrow> bool" where
  "looking_at b c \<longleftrightarrow> can_access_at_index b 0 \<and> bytes b ! offset b = c"

text \<open>\<^verbatim>\<open>can_read(b, strlen(w)) && strncmp(b, w, strlen(w)) == 0\<close>\<close>

definition reads_word :: "parse_buffer \<Rightarrow> string \<Rightarrow> bool" where
  "reads_word b w \<longleftrightarrow> can_read b (length w) \<and> take (length w) (drop (offset b) (bytes b)) = w"

definition buffer_skip_whitespace :: "parse_buffer \<Rightarrow> parse_buffer" where
  "buffer_skip_whitespace b =
     (if \<not> can_access_at_index b 0 then b
      else
        (let o1 = offset b + length (takeWhile (\<lambda>c. ic c \<le> 32) (drop (offset b) (bytes b)))
         in b\<lparr>offset := (if o1 = length (bytes b) then o1 - 1 else o1)\<rparr>))"

definition skip_utf8_bom :: "parse_buffer \<Rightarrow> parse_buffer" where
  "skip_utf8_bom b =
     (if can_access_at_index b 4 \<and> take 3 (drop (offset b) (bytes b)) = [CHR 0xEF, CHR 0xBB, CHR 0xBF]
      then b\<lparr>offset := offset b + 3\<rparr> else b)"

section \<open>Numbers\<close>

definition number_char :: "char \<Rightarrow> bool" where
  "number_char c \<longleftrightarrow> is_digit c \<or> c \<in> set ''+-eE.''"

text \<open>At most 63 characters are copied; \<open>offset\<close> moves behind what \<^verbatim>\<open>strtod\<close> took of them.\<close>

definition parse_number :: "char \<Rightarrow> cnode \<Rightarrow> parse_buffer \<Rightarrow> parse_buffer \<times> cJSON option" where
  "parse_number dp item b =
     (let number_c_string = takeWhile number_char (take 63 (drop (offset b) (bytes b)));
          (number, used) = strtod dp number_c_string
      in if used = 0 then (b, None)
         else (b\<lparr>offset := offset b + used\<rparr>,
               Some (Item (item\<lparr>valuedouble := number, valueint := saturated_int number,
                                ctype := cJSON_Number\<rparr>) [])))"

section \<open>Strings\<close>

text \<open>\<^verbatim>\<open>parse_hex4\<close> on the four characters it reads: zero for anything but four hexadecimal digits.\<close>

definition hex_nibble :: "char \<Rightarrow> nat option" where
  "hex_nibble c =
     (if 48 \<le> ic c \<and> ic c \<le> 57 then Some (nat (ic c - 48))
      else if 65 \<le> ic c \<and> ic c \<le> 70 then Some (nat (10 + ic c - 65))
      else if 97 \<le> ic c \<and> ic c \<le> 102 then Some (nat (10 + ic c - 97))
      else None)"

fun parse_hex4_loop :: "nat \<Rightarrow> string \<Rightarrow> nat" where
  "parse_hex4_loop h [] = h"
| "parse_hex4_loop h (c # cs) =
     (case hex_nibble c of
        None \<Rightarrow> 0
      | Some d \<Rightarrow> parse_hex4_loop (if cs = [] then h + d else push_bit 4 (h + d)) cs)"

definition parse_hex4 :: "string \<Rightarrow> nat" where
  "parse_hex4 cs = parse_hex4_loop 0 (take 4 cs)"

text \<open>The encoding loop: the continuation bytes from the last to the first, then the first byte.\<close>

fun utf8_continuation :: "nat \<Rightarrow> nat \<Rightarrow> string \<Rightarrow> nat \<times> string" where
  "utf8_continuation 0 codepoint bs = (codepoint, bs)"
| "utf8_continuation (Suc pos) codepoint bs =
     utf8_continuation pos (drop_bit 6 codepoint)
       (char_of ((codepoint OR 0x80) AND 0xBF) # bs)"

definition utf8_encode :: "nat \<Rightarrow> nat \<Rightarrow> nat \<Rightarrow> string" where
  "utf8_encode utf8_length first_byte_mark codepoint =
     (case utf8_continuation (utf8_length - 1) codepoint [] of (cp, bs) \<Rightarrow>
        (if 1 < utf8_length then char_of ((cp OR first_byte_mark) AND 0xFF)
         else char_of (cp AND 0x7F)) # bs)"

text \<open>
  \<^verbatim>\<open>utf16_literal_to_utf8\<close> on the bytes from \<^verbatim>\<open>input_pointer\<close> to \<^verbatim>\<open>input_end\<close>: the bytes for the
  output and the length of the literal, or nothing where the source returns 0.
\<close>

definition utf16_literal_to_utf8 :: "string \<Rightarrow> (string \<times> nat) option" where
  "utf16_literal_to_utf8 s =
     (let encode = (\<lambda>codepoint sequence_length.
        if codepoint < 0x80 then Some (utf8_encode 1 0 codepoint, sequence_length)
        else if codepoint < 0x800 then Some (utf8_encode 2 0xC0 codepoint, sequence_length)
        else if codepoint < 0x10000 then Some (utf8_encode 3 0xE0 codepoint, sequence_length)
        else if codepoint \<le> 0x10FFFF then Some (utf8_encode 4 0xF0 codepoint, sequence_length)
        else None)
      in if length s < 6 then None
         else
           (let first_code = parse_hex4 (drop 2 s)
            in if 0xDC00 \<le> first_code \<and> first_code \<le> 0xDFFF then None
               else if 0xD800 \<le> first_code \<and> first_code \<le> 0xDBFF then
                 (let second_sequence = drop 6 s
                  in if length second_sequence < 6 then None
                     else if second_sequence ! 0 \<noteq> CHR 0x5C \<or> second_sequence ! 1 \<noteq> CHR ''u'' then None
                     else
                       (let second_code = parse_hex4 (drop 2 second_sequence)
                        in if second_code < 0xDC00 \<or> 0xDFFF < second_code then None
                           else encode (0x10000 + (push_bit 10 (first_code AND 0x3FF) OR
                                                   (second_code AND 0x3FF))) 12))
               else encode first_code 6))"

lemma utf16_literal_length: "utf16_literal_to_utf8 s = Some (ys, n) \<Longrightarrow> n = 6 \<or> n = 12"
  by (auto simp: utf16_literal_to_utf8_def Let_def split: if_splits)

text \<open>
  The first pass over a string literal, from behind the opening quote: the number of bytes before
  the closing quote and how many of them are skipped backslashes.
\<close>

fun find_end :: "string \<Rightarrow> (nat \<times> nat) option" where
  "find_end [] = None"
| "find_end (c # cs) =
     (if c = CHR 0x22 then Some (0, 0)
      else if c = CHR 0x5C then
        (case cs of
           [] \<Rightarrow> None
         | _ # cs' \<Rightarrow> map_option (\<lambda>(n, k). (n + 2, k + 1)) (find_end cs'))
      else map_option (\<lambda>(n, k). (n + 1, k)) (find_end cs))"

definition put :: "nat \<Rightarrow> string \<Rightarrow> string \<Rightarrow> c_fault + string" where
  "put cap out bs = (if length out + length bs \<le> cap then Inr (out @ bs) else Inl Over_write)"

definition simple_escape :: "char \<Rightarrow> char option" where
  "simple_escape c =
     (if c = CHR ''b'' then Some CHR 0x08
      else if c = CHR ''f'' then Some CHR 0x0C
      else if c = CHR ''n'' then Some CHR 0x0A
      else if c = CHR ''r'' then Some CHR 0x0D
      else if c = CHR ''t'' then Some CHR 0x09
      else if c = CHR 0x22 \<or> c = CHR 0x5C \<or> c = CHR ''/'' then Some c
      else None)"

text \<open>
  The second pass: \<open>i\<close> is \<^verbatim>\<open>input_pointer\<close> and \<open>e\<close> is \<^verbatim>\<open>input_end\<close>, as indices into the bytes of the
  buffer; \<open>cap\<close> is the size of the allocated block. It returns where \<^verbatim>\<open>input_pointer\<close> stands and the
  output, or none after \<^verbatim>\<open>goto fail\<close>. The pointer may step behind \<^verbatim>\<open>input_end\<close>.
\<close>

function unescape :: "string \<Rightarrow> nat \<Rightarrow> nat \<Rightarrow> nat \<Rightarrow> string \<Rightarrow> c_fault + nat \<times> string option" where
  "unescape bs e cap i out =
     (if e \<le> i then try_bind (put cap out [CHR 0x00]) (\<lambda>_. Inr (i, Some out))
      else if length bs \<le> i then Inl Over_read
      else if bs ! i \<noteq> CHR 0x5C then
        try_bind (put cap out [bs ! i]) (\<lambda>out'. unescape bs e cap (i + 1) out')
      else if length bs \<le> i + 1 then Inl Over_read
      else
        (case simple_escape (bs ! (i + 1)) of
           Some c \<Rightarrow> try_bind (put cap out [c]) (\<lambda>out'. unescape bs e cap (i + 2) out')
         | None \<Rightarrow>
             if bs ! (i + 1) = CHR ''u'' then
               (case utf16_literal_to_utf8 (take (e - i) (drop i bs)) of
                  None \<Rightarrow> Inr (i, None)
                | Some (ys, n) \<Rightarrow>
                    try_bind (put cap out ys) (\<lambda>out'. unescape bs e cap (i + n) out'))
             else Inr (i, None)))"
  by pat_completeness auto
termination
  by (relation "measure (\<lambda>(bs, e, cap, i, out). e - i)")
    (auto dest!: utf16_literal_length)

declare unescape.simps [simp del]

definition parse_string :: "cnode \<Rightarrow> parse_buffer \<Rightarrow> c_fault + parse_buffer \<times> cJSON option" where
  "parse_string item b =
     try_bind (byte_at b 0) (\<lambda>c.
       let failed = (\<lambda>p. Inr (b\<lparr>offset := p\<rparr>, None))
       in if c \<noteq> CHR 0x22 then failed (offset b + 1)
          else
            (case find_end (drop (offset b + 1) (bytes b)) of
               None \<Rightarrow> failed (offset b + 1)
             | Some (n, skipped_bytes) \<Rightarrow>
                 (let input_end = offset b + 1 + n;
                      allocation_length = input_end - offset b - skipped_bytes;
                      (ok, h) = allocate (hooks b)
                  in if \<not> ok then Inr (b\<lparr>offset := offset b + 1, hooks := h\<rparr>, None)
                     else
                       try_bind (unescape (bytes b) input_end (allocation_length + 1) (offset b + 1) [])
                         (\<lambda>(p, r).
                           case r of
                             None \<Rightarrow> Inr (b\<lparr>offset := p, hooks := h\<rparr>, None)
                           | Some output \<Rightarrow>
                               Inr (b\<lparr>offset := input_end + 1, hooks := h\<rparr>,
                                    Some (Item (item\<lparr>ctype := cJSON_String,
                                                     valuestring := Some output\<rparr>) []))))))"

section \<open>Values\<close>

definition CJSON_NESTING_LIMIT :: nat where "CJSON_NESTING_LIMIT = 1000"

text \<open>\<^verbatim>\<open>cJSON_New_Item\<close> for the next element of an array or object.\<close>

definition new_item :: "parse_buffer \<Rightarrow> bool \<times> parse_buffer" where
  "new_item b = (case allocate (hooks b) of (ok, h) \<Rightarrow> (ok, b\<lparr>hooks := h\<rparr>))"

definition advance :: "parse_buffer \<Rightarrow> parse_buffer" where
  "advance b = b\<lparr>offset := offset b + 1\<rparr>"

text \<open>What \<^verbatim>\<open>parse_array\<close> and \<^verbatim>\<open>parse_object\<close> do at \<^verbatim>\<open>success\<close>.\<close>

definition close_item ::
    "32 word \<Rightarrow> cnode \<Rightarrow> parse_buffer \<times> cJSON list option \<Rightarrow> parse_buffer \<times> cJSON option" where
  "close_item t item r =
     (case r of
        (b, None) \<Rightarrow> (b, None)
      | (b, Some items) \<Rightarrow>
          (b\<lparr>depth := depth b - 1, offset := offset b + 1\<rparr>, Some (Item (item\<lparr>ctype := t\<rparr>) items)))"

text \<open>
  The recursion of \<^verbatim>\<open>parse_value\<close>, \<^verbatim>\<open>parse_array\<close> and \<^verbatim>\<open>parse_object\<close> is bounded by fuel: \<open>parse_value_c\<close>
  spends one unit and hands itself, as \<open>pv\<close>, to the functions for arrays and objects, whose loops
  over the elements (with the elements attached so far) have fuel of their own.
\<close>

type_synonym value_parser = "cnode \<Rightarrow> parse_buffer \<Rightarrow> c_fault + parse_buffer \<times> cJSON option"

primrec array_elements ::
    "nat \<Rightarrow> value_parser \<Rightarrow> parse_buffer \<Rightarrow> cJSON list \<Rightarrow> c_fault + parse_buffer \<times> cJSON list option" where
  "array_elements 0 pv b items = Inl Out_of_fuel"
| "array_elements (Suc f) pv b items =
     (case new_item b of
        (False, b0) \<Rightarrow> Inr (b0, None)
      | (True, b0) \<Rightarrow>
          try_bind (pv zero_node (buffer_skip_whitespace (advance b0))) (\<lambda>(b1, r).
            case r of
              None \<Rightarrow> Inr (b1, None)
            | Some item \<Rightarrow>
                (let b2 = buffer_skip_whitespace b1
                 in if looking_at b2 (CHR '','') then array_elements f pv b2 (items @ [item])
                    else if \<not> looking_at b2 (CHR '']'') then Inr (b2, None)
                    else Inr (b2, Some (items @ [item])))))"

definition parse_array :: "nat \<Rightarrow> value_parser \<Rightarrow> value_parser" where
  "parse_array f pv item b =
     (if CJSON_NESTING_LIMIT \<le> depth b then Inr (b, None)
      else
        (let b1 = b\<lparr>depth := depth b + 1\<rparr>
         in try_bind (byte_at b1 0) (\<lambda>c.
              if c \<noteq> CHR ''['' then Inr (b1, None)
              else
                (let b2 = buffer_skip_whitespace (advance b1)
                 in if looking_at b2 (CHR '']'') then
                      Inr (close_item cJSON_Array item (b2, Some []))
                    else if \<not> can_access_at_index b2 0 then
                      Inr (b2\<lparr>offset := offset b2 - 1\<rparr>, None)
                    else
                      try_bind (array_elements f pv (b2\<lparr>offset := offset b2 - 1\<rparr>) [])
                        (\<lambda>r. Inr (close_item cJSON_Array item r))))))"

primrec object_elements ::
    "nat \<Rightarrow> value_parser \<Rightarrow> parse_buffer \<Rightarrow> cJSON list \<Rightarrow> c_fault + parse_buffer \<times> cJSON list option" where
  "object_elements 0 pv b items = Inl Out_of_fuel"
| "object_elements (Suc f) pv b items =
     (case new_item b of
        (False, b0) \<Rightarrow> Inr (b0, None)
      | (True, b0) \<Rightarrow>
          try_bind (parse_string zero_node (buffer_skip_whitespace (advance b0))) (\<lambda>(b1, r).
            case r of
              None \<Rightarrow> Inr (b1, None)
            | Some named \<Rightarrow>
                (let b2 = buffer_skip_whitespace b1;
                     item = (node named)\<lparr>key := valuestring (node named), valuestring := None\<rparr>
                 in if \<not> looking_at b2 (CHR '':'') then Inr (b2, None)
                    else
                      try_bind (pv item (buffer_skip_whitespace (advance b2))) (\<lambda>(b3, r3).
                        case r3 of
                          None \<Rightarrow> Inr (b3, None)
                        | Some v \<Rightarrow>
                            (let b4 = buffer_skip_whitespace b3
                             in if looking_at b4 (CHR '','') then
                                  object_elements f pv b4 (items @ [v])
                                else if \<not> looking_at b4 (CHR ''}'') then Inr (b4, None)
                                else Inr (b4, Some (items @ [v])))))))"

definition parse_object :: "nat \<Rightarrow> value_parser \<Rightarrow> value_parser" where
  "parse_object f pv item b =
     (if CJSON_NESTING_LIMIT \<le> depth b then Inr (b, None)
      else
        (let b1 = b\<lparr>depth := depth b + 1\<rparr>
         in if \<not> looking_at b1 (CHR ''{'') then Inr (b1, None)
            else
              (let b2 = buffer_skip_whitespace (advance b1)
               in if looking_at b2 (CHR ''}'') then
                    Inr (close_item cJSON_Object item (b2, Some []))
                  else if \<not> can_access_at_index b2 0 then
                    Inr (b2\<lparr>offset := offset b2 - 1\<rparr>, None)
                  else
                    try_bind (object_elements f pv (b2\<lparr>offset := offset b2 - 1\<rparr>) [])
                      (\<lambda>r. Inr (close_item cJSON_Object item r)))))"

primrec parse_value_c :: "nat \<Rightarrow> char \<Rightarrow> value_parser" where
  "parse_value_c 0 dp item b = Inl Out_of_fuel"
| "parse_value_c (Suc f) dp item b =
     (if reads_word b ''null'' then
        Inr (b\<lparr>offset := offset b + 4\<rparr>, Some (Item (item\<lparr>ctype := cJSON_NULL\<rparr>) []))
      else if reads_word b ''false'' then
        Inr (b\<lparr>offset := offset b + 5\<rparr>, Some (Item (item\<lparr>ctype := cJSON_False\<rparr>) []))
      else if reads_word b ''true'' then
        Inr (b\<lparr>offset := offset b + 4\<rparr>, Some (Item (item\<lparr>ctype := cJSON_True, valueint := 1\<rparr>) []))
      else if looking_at b (CHR 0x22) then parse_string item b
      else if can_access_at_index b 0 \<and>
              (bytes b ! offset b = CHR ''-'' \<or> is_digit (bytes b ! offset b)) then
        Inr (parse_number dp item b)
      else if looking_at b (CHR ''['') then parse_array f (parse_value_c f dp) item b
      else if looking_at b (CHR ''{'') then parse_object f (parse_value_c f dp) item b
      else Inr (b, None))"

declare parse_value_c.simps [simp del] array_elements.simps [simp del] object_elements.simps [simp del]

section \<open>Entry points\<close>

text \<open>
  The result of a parse: the item, the position \<^verbatim>\<open>*return_parse_end\<close> is set to, the position in
  \<^verbatim>\<open>global_error\<close> (none after a successful parse), and the state of the allocator.
\<close>

record parse_outcome =
  parsed :: "cJSON option"
  parse_end :: nat
  error_position :: "nat option"
  hooks_after :: internal_hooks

definition parse_failed :: "nat \<Rightarrow> nat \<Rightarrow> internal_hooks \<Rightarrow> parse_outcome" where
  "parse_failed off len h =
     (let position = (if off < len then off else if 0 < len then len - 1 else 0)
      in \<lparr>parsed = None, parse_end = position, error_position = Some position, hooks_after = h\<rparr>)"

definition cJSON_ParseWithLengthOpts ::
    "char \<Rightarrow> internal_hooks \<Rightarrow> string \<Rightarrow> bool \<Rightarrow> c_fault + parse_outcome" where
  "cJSON_ParseWithLengthOpts dp h value require_null_terminated =
     (if value = [] then Inr (parse_failed 0 0 h)
      else
        (let (ok, h1) = allocate h;
             b = \<lparr>bytes = value, offset = 0, depth = 0, hooks = h1\<rparr>
         in if \<not> ok then Inr (parse_failed 0 (length value) h1)
            else
              try_bind (parse_value_c (length value + 1) dp zero_node
                          (buffer_skip_whitespace (skip_utf8_bom b)))
                (\<lambda>(b1, r).
                  case r of
                    None \<Rightarrow> Inr (parse_failed (offset b1) (length value) (hooks b1))
                  | Some item \<Rightarrow>
                      (let b2 = (if require_null_terminated then buffer_skip_whitespace b1 else b1)
                       in if require_null_terminated \<and> \<not> looking_at b2 (CHR 0x00)
                          then Inr (parse_failed (offset b2) (length value) (hooks b2))
                          else Inr \<lparr>parsed = Some item, parse_end = offset b2, error_position = None,
                                    hooks_after = hooks b2\<rparr>))))"

text \<open>\<^verbatim>\<open>strlen\<close> finds the first NUL, and the buffer includes it.\<close>

definition cJSON_ParseWithOpts ::
    "char \<Rightarrow> internal_hooks \<Rightarrow> string \<Rightarrow> bool \<Rightarrow> c_fault + parse_outcome" where
  "cJSON_ParseWithOpts dp h value require_null_terminated =
     cJSON_ParseWithLengthOpts dp h (c_str value @ [CHR 0x00]) require_null_terminated"

definition cJSON_Parse :: "char \<Rightarrow> internal_hooks \<Rightarrow> string \<Rightarrow> c_fault + parse_outcome" where
  "cJSON_Parse dp h value = cJSON_ParseWithOpts dp h value False"

definition cJSON_ParseWithLength :: "char \<Rightarrow> internal_hooks \<Rightarrow> string \<Rightarrow> c_fault + parse_outcome" where
  "cJSON_ParseWithLength dp h value = cJSON_ParseWithLengthOpts dp h value False"

end
