(* ===== verification/Pc_Factory.thy ===== *)
theory Pc_Factory
  imports Json_Parser Json_Serializer
begin

text \<open>
  \<^verbatim>\<open>PcFactory\<close> of \<^verbatim>\<open>src/libwebrtc/PcFactory.cpp\<close>, which turns an SDP offer in JSON into a peer
  connection and an SDP answer in JSON, and the observer \<^verbatim>\<open>CreateSdpObserver\<close> of
  \<^verbatim>\<open>src/libwebrtc/PcObserver.h\<close> through which the signalling thread reports that the answer is there.

  The WebRTC library is not part of this repository. What \<open>CreatePeerConnection\<close> uses of it is the
  record \<open>webrtc\<close>: each field is the answer the library gives to one call. The JSON library is the
  model of the vendored header. A thrown exception leaves the factory as it was changed up to
  that point, so the state is returned beside the result.
\<close>

section \<open>The library\<close>

text \<open>
  \<^item> \<open>create_pc\<close>: \<^verbatim>\<open>CreatePeerConnectionOrError\<close>, an error message or a connection;
  \<^item> \<open>create_track\<close>: whether \<^verbatim>\<open>CreateAudioTrack\<close> returns a track;
  \<^item> \<open>add_track\<close>: whether \<^verbatim>\<open>AddTrack\<close> succeeds;
  \<^item> \<open>parse_sdp\<close>: \<^verbatim>\<open>CreateSessionDescription\<close> for an offer, an error description or a description;
  \<^item> \<open>answer_in_time\<close>: whether the local description is set within the timeout;
  \<^item> \<open>local_description\<close>: \<^verbatim>\<open>local_description()\<close> after that, as a string.
\<close>

record ('pc, 'desc) webrtc =
  create_pc :: "string + 'pc"
  create_track :: bool
  add_track :: "'pc \<Rightarrow> bool"
  parse_sdp :: "string \<Rightarrow> string + 'desc"
  answer_in_time :: "'pc \<Rightarrow> 'desc \<Rightarrow> bool"
  local_description :: "'pc \<Rightarrow> 'desc \<Rightarrow> string option"

record 'pc pc_factory =
  peerConnections :: "'pc list"
  closed :: "'pc list"
  factory_alive :: bool

definition PcFactory :: "'pc pc_factory" where
  "PcFactory = \<lparr>peerConnections = [], closed = [], factory_alive = True\<rparr>"

definition destroy_PcFactory :: "'pc pc_factory \<Rightarrow> 'pc pc_factory" where
  "destroy_PcFactory f =
     f\<lparr>closed := closed f @ peerConnections f, peerConnections := [], factory_alive := False\<rparr>"

section \<open>Creating a connection\<close>

text \<open>What may leave \<^verbatim>\<open>CreatePeerConnection\<close>: an exception of the JSON library, or \<^verbatim>\<open>std::length_error\<close> from
  the construction of \<^verbatim>\<open>offerStr\<close>.\<close>

datatype factory_exception = Json_exception json_exception | Length_error

definition json_call :: "json_exception + 'a \<Rightarrow> factory_exception + 'a" where
  "json_call r = map_sum Json_exception id r"

text \<open>\<^verbatim>\<open>std::string(buffer, length)\<close> with an \<^verbatim>\<open>int\<close>, which is converted to \<^verbatim>\<open>size_t\<close>: a negative length
  becomes larger than any string.\<close>

definition string_of_buffer :: "string \<Rightarrow> 32 word \<Rightarrow> factory_exception + string" where
  "string_of_buffer buffer len = (if sint len < 0 then Inl Length_error else Inr (take (unat len) buffer))"

text \<open>\<^verbatim>\<open>offerJson["sdp"]\<close> converted to \<^verbatim>\<open>std::string\<close>.\<close>

definition offer_sdp :: "json \<Rightarrow> json_exception + string" where
  "offer_sdp offerJson = try_bind (index_key ''sdp'' offerJson) (\<lambda>(v, _). get_string v)"

definition answer_message :: "string \<Rightarrow> json_exception + string" where
  "answer_message answerSdp =
     try_bind (set_key ''type'' (Jstring ''answer'') Jnull) (\<lambda>j1.
     try_bind (set_key ''sdp'' (Jstring answerSdp) j1) (\<lambda>j2.
       json_dump (- 1) CHR '' '' False eh_strict j2))"

definition negotiate ::
    "('pc, 'desc) webrtc \<Rightarrow> 'pc \<Rightarrow> 'desc \<Rightarrow> json_exception + string" where
  "negotiate rtc pc remoteOffer =
     (if \<not> answer_in_time rtc pc remoteOffer then Inr []
      else (case local_description rtc pc remoteOffer of
              None \<Rightarrow> Inr ''Failed to set local description.''
            | Some answerSdp \<Rightarrow> answer_message answerSdp))"

definition CreatePeerConnection ::
    "(json \<Rightarrow> nat) \<Rightarrow> char \<Rightarrow> ('pc, 'desc) webrtc \<Rightarrow> string \<Rightarrow> 32 word \<Rightarrow> 'pc pc_factory \<Rightarrow>
     (factory_exception + string) \<times> 'pc pc_factory" where
  "CreatePeerConnection max_size dp rtc buffer len f =
     (case string_of_buffer buffer len of
        Inl ex \<Rightarrow> (Inl ex, f)
      | Inr offerStr \<Rightarrow>
     (case json_parse max_size dp True False offerStr of
        Inl ex \<Rightarrow> (Inl (Json_exception ex), f)
      | Inr offerJson \<Rightarrow>
     (case create_pc rtc of
        Inl message \<Rightarrow> (Inr ''error'', f)
      | Inr pc \<Rightarrow>
          if \<not> create_track rtc then (Inr ''error'', f)
          else if \<not> add_track rtc pc then (Inr ''error'', f)
          else
            (let f1 = f\<lparr>peerConnections := peerConnections f @ [pc]\<rparr>
             in case offer_sdp offerJson of
                  Inl ex \<Rightarrow> (Inl (Json_exception ex), f1)
                | Inr sdp \<Rightarrow>
                    (case parse_sdp rtc sdp of
                       Inl description \<Rightarrow> (Inr ''error'', f1)
                     | Inr remoteOffer \<Rightarrow> (json_call (negotiate rtc pc remoteOffer), f1))))))"

lemma CreatePeerConnection_connections:
  "snd (CreatePeerConnection ms dp rtc b n f) = f \<or>
     (\<exists>pc. create_pc rtc = Inr pc \<and>
       snd (CreatePeerConnection ms dp rtc b n f) = f\<lparr>peerConnections := peerConnections f @ [pc]\<rparr>)"
  by (auto simp: CreatePeerConnection_def Let_def split: sum.splits)

section \<open>Waiting for the answer\<close>

text \<open>
  The two threads behind \<open>negotiate\<close>. The calling thread owns \<^verbatim>\<open>pc\<close>, \<^verbatim>\<open>remoteOffer\<close>, \<^verbatim>\<open>mtx\<close>, \<^verbatim>\<open>cv\<close> and
  \<^verbatim>\<open>isReady\<close> on its stack and waits for \<open>isReady\<close> up to the timeout; then it returns an answer made from the
  local description, or the empty string. The signalling thread runs the posted task, which reads them through
  references and hands the last three to a \<open>CreateSdpObserver\<close>; when the library has set the local description,
  or has failed to, it calls \<^verbatim>\<open>OnSetLocalDescriptionComplete\<close>, which writes through them. \<open>dangling\<close> records an access
  through such a reference after the calling thread has returned. The lock makes the test of \<open>isReady\<close> and the
  notification atomic.
\<close>

datatype caller = Waiting | Returned "json_exception + string"

datatype signaller = Not_run | Task_run | Observer_done

record negotiation =
  caller_pc :: caller
  signaller_pc :: signaller
  isReady :: bool
  description_set :: "string option"
  dangling :: bool

definition negotiation_init :: negotiation where
  "negotiation_init = \<lparr>caller_pc = Waiting, signaller_pc = Not_run, isReady = False,
     description_set = None, dangling = False\<rparr>"

definition frame_alive :: "negotiation \<Rightarrow> bool" where
  "frame_alive n \<longleftrightarrow> caller_pc n = Waiting"

definition posted_task :: "negotiation \<Rightarrow> negotiation" where
  "posted_task n = n\<lparr>signaller_pc := Task_run, dangling := dangling n \<or> \<not> frame_alive n\<rparr>"

text \<open>The observer sets \<^verbatim>\<open>_isReady\<close> through its reference and notifies, whether or not there was an error. \<open>desc\<close> is the
  local description the connection has by then, none after an error.\<close>

definition OnSetLocalDescriptionComplete :: "string option \<Rightarrow> negotiation \<Rightarrow> negotiation" where
  "OnSetLocalDescriptionComplete desc n =
     (let n1 = n\<lparr>signaller_pc := Observer_done, description_set := desc\<rparr>
      in if frame_alive n then n1\<lparr>isReady := True\<rparr> else n1\<lparr>dangling := True\<rparr>)"

text \<open>The predicate is tested once more when the time is up, so the caller gives up only while \<open>isReady\<close> is false.\<close>

definition return_from_wait :: "negotiation \<Rightarrow> negotiation" where
  "return_from_wait n =
     n\<lparr>caller_pc := Returned
         (if \<not> isReady n then Inr []
          else (case description_set n of
                  None \<Rightarrow> Inr ''Failed to set local description.''
                | Some answerSdp \<Rightarrow> answer_message answerSdp))\<rparr>"

inductive negotiation_step :: "string option \<Rightarrow> negotiation \<Rightarrow> negotiation \<Rightarrow> bool" where
  task: "signaller_pc n = Not_run \<Longrightarrow> negotiation_step desc n (posted_task n)"
| complete: "signaller_pc n = Task_run \<Longrightarrow> negotiation_step desc n (OnSetLocalDescriptionComplete desc n)"
| returns: "caller_pc n = Waiting \<Longrightarrow> negotiation_step desc n (return_from_wait n)"

inductive_cases negotiation_stepE: "negotiation_step desc n n'"

text \<open>The invariant: what the caller has returned, and who can have used a dead frame.\<close>

definition reply :: "string option \<Rightarrow> bool \<Rightarrow> json_exception + string" where
  "reply desc ready =
     (if \<not> ready then Inr []
      else (case desc of None \<Rightarrow> Inr ''Failed to set local description.'' | Some s \<Rightarrow> answer_message s))"

definition negotiation_inv :: "string option \<Rightarrow> negotiation \<Rightarrow> bool" where
  "negotiation_inv desc n \<longleftrightarrow>
     (isReady n \<longrightarrow> signaller_pc n = Observer_done \<and> description_set n = desc \<and> \<not> dangling n) \<and>
     (\<forall>r. caller_pc n = Returned r \<longrightarrow> r = reply desc (isReady n)) \<and>
     (caller_pc n = Waiting \<longrightarrow> \<not> dangling n) \<and>
     (signaller_pc n = Observer_done \<longrightarrow> isReady n \<or> dangling n)"

lemmas negotiation_defs =
  negotiation_inv_def posted_task_def OnSetLocalDescriptionComplete_def return_from_wait_def frame_alive_def reply_def Let_def

lemma negotiation_inv_step: "negotiation_step desc n n' \<Longrightarrow> negotiation_inv desc n \<Longrightarrow> negotiation_inv desc n'"
  by (erule negotiation_stepE; cases "caller_pc n") (auto simp: negotiation_defs split: option.splits)

lemma negotiation_inv_reachable: "(negotiation_step desc)\<^sup>*\<^sup>* negotiation_init n \<Longrightarrow> negotiation_inv desc n"
  by (induction rule: rtranclp_induct)
     (auto simp: negotiation_inv_step, simp add: negotiation_inv_def negotiation_init_def)

text \<open>The timeout leaves the signalling thread with references to a dead frame.\<close>

lemma negotiation_dangling:
  "(negotiation_step desc)\<^sup>*\<^sup>* negotiation_init
     \<lparr>caller_pc = Returned (Inr []), signaller_pc = Observer_done, isReady = False,
      description_set = desc, dangling = True\<rparr>"
proof -
  let ?n1 = "posted_task negotiation_init"
  let ?n2 = "return_from_wait ?n1"
  have 1: "negotiation_step desc negotiation_init ?n1"
    by (rule task) (simp add: negotiation_init_def)
  have 2: "negotiation_step desc ?n1 ?n2"
    by (rule returns) (simp add: negotiation_init_def posted_task_def)
  have 3: "negotiation_step desc ?n2 (OnSetLocalDescriptionComplete desc ?n2)"
    by (rule complete) (simp add: negotiation_init_def negotiation_defs)
  have "(negotiation_step desc)\<^sup>*\<^sup>* negotiation_init (OnSetLocalDescriptionComplete desc ?n2)"
    using 1 2 3 by (meson rtranclp.rtrancl_into_rtrancl rtranclp.rtrancl_refl)
  then show ?thesis
    by (simp add: negotiation_init_def negotiation_defs)
qed

section \<open>Properties\<close>

text \<open>An offer whose SDP the WebRTC library refuses is answered with \<^verbatim>\<open>error\<close>, and the connection made
  for it stays in the factory's list, open, until the factory is destroyed.\<close>

lemma failed_offer_keeps_connection:
  assumes "string_of_buffer buffer len = Inr offerStr"
    and "json_parse ms dp True False offerStr = Inr offerJson"
    and "create_pc rtc = Inr pc" "create_track rtc" "add_track rtc pc"
    and "offer_sdp offerJson = Inr sdp" "parse_sdp rtc sdp = Inl description"
  shows "\<exists>f'. CreatePeerConnection ms dp rtc buffer len f = (Inr ''error'', f') \<and>
    pc \<in> set (peerConnections f') \<and> closed f' = closed f \<and>
    closed (destroy_PcFactory f') = closed f @ peerConnections f @ [pc]"
  using assms by (simp add: CreatePeerConnection_def Let_def destroy_PcFactory_def)

text \<open>The offer \<open>{"sdp":"x"}\<close> and a library that refuses every SDP.\<close>

definition sample_offer :: string where
  "sample_offer = [CHR ''{'', CHR 0x22, CHR ''s'', CHR ''d'', CHR ''p'', CHR 0x22, CHR '':'', CHR 0x22,
     CHR ''x'', CHR 0x22, CHR ''}'']"

definition refusing_library :: "(nat, unit) webrtc" where
  "refusing_library = \<lparr>create_pc = Inr 7, create_track = True, add_track = (\<lambda>_. True),
     parse_sdp = (\<lambda>_. Inl ''bad''), answer_in_time = (\<lambda>_ _. True), local_description = (\<lambda>_ _. None)\<rparr>"

lemma sample_offer_parsed:
  "json_parse (\<lambda>_. 1000) CHR ''.'' True False sample_offer = Inr (Jobject [(''sdp'', Jstring ''x'')])"
  by code_simp

lemma failed_offer_keeps_connection_witness:
  "\<exists>f'. CreatePeerConnection (\<lambda>_. 1000) CHR ''.'' refusing_library sample_offer 11 PcFactory = (Inr ''error'', f') \<and>
    7 \<in> set (peerConnections f')"
  using failed_offer_keeps_connection [of sample_offer 11 sample_offer "\<lambda>_. 1000" "CHR ''.''"
      "Jobject [(''sdp'', Jstring ''x'')]" refusing_library 7 "''x''" "''bad''" PcFactory]
    sample_offer_parsed
  by (auto simp: string_of_buffer_def sample_offer_def refusing_library_def offer_sdp_def index_key_def
      is_null_def get_string_def)

text \<open>C34. Every interleaving of the calling thread with the signalling thread gives what the sequential \<open>negotiate\<close>
  says, with \<open>answer_in_time\<close> standing for whether the observer completed before the caller gave up: the empty string
  after the timeout, else the answer made from the local description; also when setting it failed, for the observer
  reports an error like a success, and the caller then finds no description. And once the observer has run, it has
  written into the frame of a call that had returned exactly if the caller had given up.\<close>

theorem interleavings_negotiate:
  assumes "(negotiation_step (local_description rtc pc offer))\<^sup>*\<^sup>* negotiation_init n"
  shows "(\<forall>r. caller_pc n = Returned r \<longrightarrow> r = negotiate (rtc\<lparr>answer_in_time := \<lambda>_ _. isReady n\<rparr>) pc offer) \<and>
    (signaller_pc n = Observer_done \<longrightarrow> (dangling n \<longleftrightarrow> caller_pc n = Returned (Inr []) \<and> \<not> isReady n))"
  using negotiation_inv_reachable [OF assms]
  by (cases "caller_pc n") (auto simp: negotiation_inv_def reply_def negotiate_def)

theorem interleavings_negotiate_witness:
  "\<exists>n. (negotiation_step None)\<^sup>*\<^sup>* negotiation_init n \<and> caller_pc n = Returned (Inr ''Failed to set local description.'') \<and>
     \<not> dangling n"
proof -
  let ?n1 = "posted_task negotiation_init"
  let ?n2 = "OnSetLocalDescriptionComplete None ?n1"
  let ?n3 = "return_from_wait ?n2"
  have "negotiation_step None negotiation_init ?n1" by (rule task) (simp add: negotiation_init_def)
  moreover have "negotiation_step None ?n1 ?n2" by (rule complete) (simp add: posted_task_def)
  moreover have "negotiation_step None ?n2 ?n3"
    by (rule returns) (simp add: negotiation_init_def negotiation_defs)
  ultimately have r: "(negotiation_step None)\<^sup>*\<^sup>* negotiation_init ?n3"
    by (meson rtranclp.rtrancl_into_rtrancl rtranclp.rtrancl_refl)
  have "local_description refusing_library 7 () = None" by (simp add: refusing_library_def)
  with r have "(negotiation_step (local_description refusing_library 7 ()))\<^sup>*\<^sup>* negotiation_init ?n3" by simp
  note interleavings_negotiate [OF this]
  moreover have "signaller_pc ?n3 = Observer_done" "isReady ?n3" "caller_pc ?n3 = Returned (Inr ''Failed to set local description.'')"
    by (simp_all add: negotiation_init_def negotiation_defs)
  ultimately show ?thesis using r by blast
qed

text \<open>After the three second timeout the observer may still run, and then writes through references
  into the frame of a call that has returned.\<close>

lemma timeout_dangles:
  "\<exists>n. (negotiation_step desc)\<^sup>*\<^sup>* negotiation_init n \<and> caller_pc n = Returned (Inr []) \<and> dangling n"
  using negotiation_dangling [of desc] by force

end
