(* ===== verification/Http_Server.thy ===== *)
theory Http_Server
  imports Pc_Factory
begin

text \<open>
  \<^verbatim>\<open>HttpSimpleServer\<close> of \<^verbatim>\<open>src/libwebrtc/HttpSimpleServer.cpp\<close> and the \<^verbatim>\<open>main\<close> of
  \<^verbatim>\<open>src/libwebrtc/libwebrtc-webrtc-echo.cpp\<close>. libevent is not part of this repository: which of its
  calls succeed are arguments, and what the server tells it to free is recorded in order.
\<close>

section \<open>Requests\<close>

datatype req_type = EVHTTP_REQ_GET | EVHTTP_REQ_POST | EVHTTP_REQ_OPTIONS

record http_request =
  type :: req_type
  uri :: string
  body :: string

record http_reply =
  status :: nat
  reason :: string
  headers :: "(string \<times> string) list"
  content :: string

text \<open>What a call of the handler ends in: a reply, an exception that leaves the C callback (which ends
  the program), or a null pointer passed on when an allocation failed.\<close>

datatype handled = Replied http_reply | Terminated factory_exception | Null_pointer

text \<open>Memory the handler allocates and does not free.\<close>

record 'pc http_state =
  pcFactory :: "'pc pc_factory option"
  leaked_bytes :: nat
  leaked_evbuffers :: nat

definition SetPeerConnectionFactory :: "'pc pc_factory \<Rightarrow> 'pc http_state \<Rightarrow> 'pc http_state" where
  "SetPeerConnectionFactory f h = h\<lparr>pcFactory := Some f\<rparr>"

definition allow_origin :: "string \<times> string" where
  "allow_origin = (''Access-Control-Allow-Origin'', ''*'')"

definition options_reply :: http_reply where
  "options_reply =
     \<lparr>status = 200, reason = ''OK'',
      headers = [allow_origin, (''Access-Control-Allow-Methods'', ''POST''),
                 (''Access-Control-Allow-Headers'', ''content-type'')],
      content = []\<rparr>"

definition bad_request :: "string \<Rightarrow> http_reply" where
  "bad_request text =
     \<lparr>status = 400, reason = ''Bad Request'', headers = [allow_origin], content = text\<rparr>"

text \<open>
  \<^verbatim>\<open>OnHttpRequest\<close>. \<open>evbuffer_ok\<close> and \<open>calloc_ok\<close> say whether the two allocations succeed. The answer
  goes through \<^verbatim>\<open>%s\<close> and \<^verbatim>\<open>c_str()\<close>, so the body ends at its first NUL.
\<close>

definition OnHttpRequest ::
    "(json \<Rightarrow> nat) \<Rightarrow> char \<Rightarrow> ('pc, 'desc) webrtc \<Rightarrow> bool \<Rightarrow> bool \<Rightarrow> http_request \<Rightarrow> 'pc http_state \<Rightarrow>
     handled \<times> 'pc http_state" where
  "OnHttpRequest max_size dp rtc evbuffer_ok calloc_ok req h =
     (if type req = EVHTTP_REQ_OPTIONS then (Replied options_reply, h)
      else
        (let h1 = (if evbuffer_ok then h\<lparr>leaked_evbuffers := leaked_evbuffers h + 1\<rparr> else h);
             answer_with = (\<lambda>r h'. (if evbuffer_ok then Replied r else Null_pointer, h'))
         in if length (body req) > 0 then
              (if \<not> calloc_ok then (Null_pointer, h1)
               else
                 (let h2 = h1\<lparr>leaked_bytes := leaked_bytes h1 + length (body req)\<rparr>
                  in case pcFactory h2 of
                       Some f \<Rightarrow>
                         (case CreatePeerConnection max_size dp rtc (body req) (of_nat (length (body req))) f of
                            (Inl ex, f') \<Rightarrow> (Terminated ex, h2\<lparr>pcFactory := Some f'\<rparr>)
                          | (Inr answer, f') \<Rightarrow>
                              answer_with
                                \<lparr>status = 200, reason = ''OK'',
                                 headers = [allow_origin, (''Content-type'', ''application/json'')],
                                 content = c_str answer\<rparr>
                                (h2\<lparr>pcFactory := Some f'\<rparr>))
                     | None \<Rightarrow> answer_with (bad_request ''No handler'') h2))
            else answer_with (bad_request ''Request was missing the SDP offer.'') h1))"

section \<open>Lifetime\<close>

datatype evcall = Loopexit | Evhttp_free | Event_free | Event_base_free

record http_server =
  isDisposed :: bool
  calls :: "evcall list"

text \<open>The constructor: which of \<^verbatim>\<open>event_base_new\<close>, \<^verbatim>\<open>evhttp_new\<close> and \<^verbatim>\<open>evsignal_new\<close> return something.
  A failing \<^verbatim>\<open>event_add\<close> is only reported.\<close>

definition HttpSimpleServer :: "bool \<Rightarrow> bool \<Rightarrow> bool \<Rightarrow> string + http_server" where
  "HttpSimpleServer base_ok evhttp_ok signal_ok =
     (if \<not> base_ok then Inl ''HttpSimpleServer couldn't create an event_base instance.''
      else if \<not> evhttp_ok then Inl ''HttpSimpleServer couldn't create an evhttp instance.''
      else if \<not> signal_ok
      then Inl ''HttpSimpleServer couldn't create an event instance with evsignal_new.''
      else Inr \<lparr>isDisposed = False, calls = []\<rparr>)"

definition destroy_HttpSimpleServer :: "http_server \<Rightarrow> http_server" where
  "destroy_HttpSimpleServer s =
     (if \<not> isDisposed s
      then s\<lparr>isDisposed := True,
             calls := calls s @ [Loopexit, Evhttp_free, Event_free, Event_base_free]\<rparr>
      else s)"

definition Stop :: "http_server \<Rightarrow> http_server" where
  "Stop s = destroy_HttpSimpleServer s"

definition OnSignal :: "http_server \<Rightarrow> http_server" where
  "OnSignal s = s\<lparr>calls := calls s @ [Loopexit]\<rparr>"

text \<open>\<^verbatim>\<open>Init\<close>: \<open>bind_result\<close> and \<open>set_cb_result\<close> are what \<^verbatim>\<open>evhttp_bind_socket\<close> and \<^verbatim>\<open>evhttp_set_cb\<close>
  return. The result is the line printed.\<close>

definition Init_server :: "int \<Rightarrow> int \<Rightarrow> string \<Rightarrow> int \<Rightarrow> string \<Rightarrow> string + string" where
  "Init_server bind_result set_cb_result address port offerPath =
     (if bind_result \<noteq> 0
      then Inl (''HttpSimpleServer failed to start HTTP server on '' @ address @ '':'' @
                to_string_int port @ ''.'')
      else if set_cb_result \<noteq> 0 then Inl ''HttpSimpleServer failed to set request callback.''
      else Inr (''Waiting for SDP offer on http://'' @ address @ '':'' @ to_string_int port @ offerPath))"

text \<open>
  The requests served while \<^verbatim>\<open>Run\<close> dispatches, up to the first that ends the program. The two
  allocations succeed.
\<close>

fun serve ::
    "(json \<Rightarrow> nat) \<Rightarrow> char \<Rightarrow> (http_request \<Rightarrow> ('pc, 'desc) webrtc) \<Rightarrow> http_request list \<Rightarrow>
     'pc http_state \<Rightarrow> handled list \<times> 'pc http_state" where
  "serve max_size dp rtc [] h = ([], h)"
| "serve max_size dp rtc (req # reqs) h =
     (case OnHttpRequest max_size dp (rtc req) True True req h of (r, h1) \<Rightarrow>
        (case r of
           Replied _ \<Rightarrow>
             (case serve max_size dp rtc reqs h1 of (rs, h2) \<Rightarrow> (r # rs, h2))
         | _ \<Rightarrow> ([r], h1)))"

definition replied :: "handled \<Rightarrow> bool" where
  "replied r = (case r of Replied _ \<Rightarrow> True | _ \<Rightarrow> False)"

text \<open>
  How the program ends: an exception before the loop, an exception that leaves the loop, or the end
  of \<^verbatim>\<open>main\<close> after an interrupt, with what was answered, the server as its destructor leaves it and
  the factory as its destructor leaves it.
\<close>

datatype 'pc program_end =
    Not_started string
  | Aborted "handled list"
  | Exited "handled list" http_server "'pc pc_factory option"

text \<open>
  \<^verbatim>\<open>main\<close>: construction, \<^verbatim>\<open>Init\<close>, \<^verbatim>\<open>SetPeerConnectionFactory\<close>, \<^verbatim>\<open>Run\<close> until the signal handler ends the
  loop, \<^verbatim>\<open>Stop\<close>, and at the end of the block the destructors of the server and of the factory.
\<close>

definition echo_main ::
    "(json \<Rightarrow> nat) \<Rightarrow> char \<Rightarrow> (bool \<times> bool \<times> bool) \<Rightarrow> int \<Rightarrow> int \<Rightarrow> (http_request \<Rightarrow> ('pc, 'desc) webrtc) \<Rightarrow>
     http_request list \<Rightarrow> 'pc program_end" where
  "echo_main max_size dp created bind_result set_cb_result rtc reqs =
     (case created of (base_ok, evhttp_ok, signal_ok) \<Rightarrow>
      case HttpSimpleServer base_ok evhttp_ok signal_ok of
        Inl message \<Rightarrow> Not_started message
      | Inr s0 \<Rightarrow>
     (case Init_server bind_result set_cb_result ''0.0.0.0'' 8080 ''/offer'' of
        Inl message \<Rightarrow> Not_started message
      | Inr _ \<Rightarrow>
     (case serve max_size dp rtc reqs
             (SetPeerConnectionFactory PcFactory
                \<lparr>pcFactory = None, leaked_bytes = 0, leaked_evbuffers = 0\<rparr>) of
        (rs, h) \<Rightarrow>
          if list_all replied rs
          then Exited rs (destroy_HttpSimpleServer (Stop (OnSignal s0)))
                 (map_option destroy_PcFactory (pcFactory h))
          else Aborted rs)))"

section \<open>Lemmas\<close>

lemmas handler_splits = option.splits prod.splits sum.splits if_splits

lemma OnHttpRequest_leak:
  "leaked_bytes (snd (OnHttpRequest ms dp rtc True True req h)) =
     leaked_bytes h + (if type req = EVHTTP_REQ_OPTIONS then 0 else length (body req))"
  "leaked_evbuffers (snd (OnHttpRequest ms dp rtc True True req h)) =
     leaked_evbuffers h + (if type req = EVHTTP_REQ_OPTIONS then 0 else 1)"
  by (auto simp: OnHttpRequest_def Let_def split: handler_splits)

lemma OnHttpRequest_factory:
  "pcFactory h = Some f \<Longrightarrow>
     \<exists>f'. pcFactory (snd (OnHttpRequest ms dp rtc e c req h)) = Some f' \<and>
       (f' = f \<or> (\<exists>pc. f' = f\<lparr>peerConnections := peerConnections f @ [pc]\<rparr>))"
  using CreatePeerConnection_connections [of ms dp rtc "body req" "of_nat (length (body req))" f]
  by (auto simp: OnHttpRequest_def Let_def split: handler_splits)

lemma serve_factory:
  "pcFactory h = Some f \<Longrightarrow>
     \<exists>f' added. pcFactory (snd (serve ms dp rtc reqs h)) = Some f' \<and>
       f' = f\<lparr>peerConnections := peerConnections f @ added\<rparr> \<and> length added \<le> length reqs"
proof (induction reqs arbitrary: h f)
  case Nil
  then show ?case by (intro exI [of _ f] exI [of _ "[]"]) simp
next
  case (Cons req reqs)
  obtain r h1 where r: "OnHttpRequest ms dp (rtc req) True True req h = (r, h1)" by fastforce
  obtain f1 added1 where f1: "pcFactory h1 = Some f1" "f1 = f\<lparr>peerConnections := peerConnections f @ added1\<rparr>"
    "length added1 \<le> 1"
    using OnHttpRequest_factory [OF Cons.prems, of ms dp "rtc req" True True req] r
    by (force intro: that [of _ "[]"])
  obtain f2 added2 where f2: "pcFactory (snd (serve ms dp rtc reqs h1)) = Some f2"
    "f2 = f1\<lparr>peerConnections := peerConnections f1 @ added2\<rparr>" "length added2 \<le> length reqs"
    using Cons.IH [OF f1(1)] by blast
  show ?case
  proof (cases r)
    case (Replied x)
    have "f2 = f\<lparr>peerConnections := peerConnections f @ added1 @ added2\<rparr>" using f1(2) f2(2) by simp
    then show ?thesis
      using Replied r f1(3) f2(1,3) by (intro exI [of _ f2] exI [of _ "added1 @ added2"]) (auto split: prod.splits)
  qed (use r f1 in \<open>force simp: \<close>)+
qed

lemma sint_nonneg:
  assumes "unat w < 2 ^ 31"
  shows "\<not> sint (w :: 32 word) < 0"
proof -
  have "uint w = int (unat w)" by simp
  also have "\<dots> < 2 ^ 31" using assms by (metis of_nat_less_iff of_nat_numeral of_nat_power)
  finally have lt: "uint w < 2 ^ 31" .
  have "sint w = signed_take_bit (LENGTH(32) - Suc 0) (uint w)" by (rule sint_uint)
  also have "\<dots> = uint w"
  proof (rule signed_take_bit_int_eq_self)
    have "- (2 ^ (LENGTH(32) - Suc 0)) \<le> (0 :: int)" by simp
    also have "0 \<le> uint w" by simp
    finally show "- (2 ^ (LENGTH(32) - Suc 0)) \<le> uint w" .
  qed (use lt in simp)
  finally show ?thesis by simp
qed

section \<open>Properties\<close>

text \<open>Every reply allows cross-origin access and has status 200 or 400; it is 400 exactly when a
  request other than \<^verbatim>\<open>OPTIONS\<close> has no body or no factory has been set. A failed negotiation is so
  answered with 200.\<close>

lemma handler_replies:
  assumes "fst (OnHttpRequest ms dp rtc evbuffer_ok calloc_ok req h) = Replied r"
  shows "allow_origin \<in> set (headers r) \<and> status r \<in> {200, 400} \<and>
    (status r = 400 \<longleftrightarrow> type req \<noteq> EVHTTP_REQ_OPTIONS \<and> (body req = [] \<or> pcFactory h = None))"
  using assms
  by (auto simp: OnHttpRequest_def Let_def options_reply_def bad_request_def split: handler_splits)

lemma handler_replies_witness:
  "\<exists>r. fst (OnHttpRequest (\<lambda>_. 0) CHR ''.'' refusing_library True True
        \<lparr>type = EVHTTP_REQ_POST, uri = ''/offer'', body = []\<rparr>
        \<lparr>pcFactory = Some PcFactory, leaked_bytes = 0, leaked_evbuffers = 0\<rparr>) = Replied r \<and> status r = 400"
proof -
  let ?req = "\<lparr>type = EVHTTP_REQ_POST, uri = ''/offer'', body = []\<rparr>"
  let ?h = "\<lparr>pcFactory = Some PcFactory, leaked_bytes = 0, leaked_evbuffers = 0\<rparr>"
  have "fst (OnHttpRequest (\<lambda>_. 0) CHR ''.'' refusing_library True True ?req ?h) =
      Replied (bad_request ''Request was missing the SDP offer.'')"
    by (simp add: OnHttpRequest_def Let_def)
  from handler_replies [OF this] show ?thesis by (simp add: OnHttpRequest_def Let_def)
qed

text \<open>C37. A request body that is not JSON ends the program: the exception of the parser leaves the
  callback, and no later request is served.\<close>

theorem malformed_offer_terminates:
  assumes "type req \<noteq> EVHTTP_REQ_OPTIONS" "body req \<noteq> []" "length (body req) < 2 ^ 31"
    and "json_parse ms dp True False (body req) = Inl ex"
  shows "echo_main ms dp (True, True, True) 0 0 rtc (req # reqs) = Aborted [Terminated (Json_exception ex)]"
proof -
  let ?h = "SetPeerConnectionFactory PcFactory \<lparr>pcFactory = None, leaked_bytes = 0, leaked_evbuffers = 0\<rparr>"
  let ?len = "of_nat (length (body req)) :: 32 word"
  have len: "unat ?len = length (body req)" using assms(3) by (simp add: unat_of_nat)
  moreover have "\<not> sint ?len < 0" using len assms(3) by (intro sint_nonneg) simp
  ultimately obtain h1 where
    "OnHttpRequest ms dp (rtc req) True True req ?h = (Terminated (Json_exception ex), h1)"
    using assms by (simp add: OnHttpRequest_def Let_def CreatePeerConnection_def string_of_buffer_def
        SetPeerConnectionFactory_def)
  then have "serve ms dp rtc (req # reqs) ?h = ([Terminated (Json_exception ex)], h1)" by simp
  then show ?thesis
    by (simp add: echo_main_def HttpSimpleServer_def Init_server_def replied_def del: serve.simps)
qed

text \<open>What the parser says about the body \<open>{\<close>.\<close>

definition open_brace_error :: json_exception where
  "open_brace_error = projl (json_parse (\<lambda>_. 0) CHR ''.'' True False ''{'')"

lemma open_brace_parse: "json_parse (\<lambda>_. 0) CHR ''.'' True False ''{'' = Inl open_brace_error"
  unfolding open_brace_error_def by code_simp

theorem malformed_offer_terminates_witness:
  "echo_main (\<lambda>_. 0) CHR ''.'' (True, True, True) 0 0 (\<lambda>_. refusing_library)
     [\<lparr>type = EVHTTP_REQ_POST, uri = ''/offer'', body = ''{''\<rparr>,
      \<lparr>type = EVHTTP_REQ_OPTIONS, uri = ''/offer'', body = []\<rparr>] =
   Aborted [Terminated (Json_exception open_brace_error)]"
  by (rule malformed_offer_terminates) (simp_all add: open_brace_parse)

text \<open>Serving requests only ever adds connections to the factory, at most one for each, and never
  closes one; the connections are closed when the factory is destroyed.\<close>

lemma connections_only_grow:
  assumes "pcFactory h = Some f" "pcFactory (snd (serve ms dp rtc reqs h)) = Some f'"
  shows "\<exists>added. peerConnections f' = peerConnections f @ added \<and> length added \<le> length reqs \<and>
    closed f' = closed f \<and> closed (destroy_PcFactory f') = closed f @ peerConnections f @ added"
  using serve_factory [OF assms(1), of ms dp rtc reqs] assms(2) by (auto simp: destroy_PcFactory_def)

lemma connections_only_grow_witness:
  "\<exists>f' added. pcFactory (snd (serve (\<lambda>_. 0) CHR ''.'' (\<lambda>_. refusing_library)
       [\<lparr>type = EVHTTP_REQ_OPTIONS, uri = ''/offer'', body = []\<rparr>]
       \<lparr>pcFactory = Some PcFactory, leaked_bytes = 0, leaked_evbuffers = 0\<rparr>)) = Some f' \<and>
     peerConnections f' = [] @ added \<and> length added \<le> 1"
proof -
  let ?h = "\<lparr>pcFactory = Some PcFactory, leaked_bytes = 0, leaked_evbuffers = 0\<rparr>"
  let ?reqs = "[\<lparr>type = EVHTTP_REQ_OPTIONS, uri = ''/offer'', body = []\<rparr>]"
  have "pcFactory (snd (serve (\<lambda>_. 0) CHR ''.'' (\<lambda>_. refusing_library) ?reqs ?h)) = Some PcFactory"
    by (simp add: OnHttpRequest_def)
  with connections_only_grow [of ?h PcFactory "\<lambda>_. 0" "CHR ''.''" "\<lambda>_. refusing_library" ?reqs PcFactory]
  show ?thesis by (simp add: PcFactory_def)
qed

text \<open>Every request other than \<^verbatim>\<open>OPTIONS\<close> leaks the copy of its body and its reply buffer: the memory
  lost grows by the length of each body served.\<close>

lemma handler_leaks:
  "leaked_bytes (snd (serve ms dp rtc reqs h)) = leaked_bytes h +
     sum_list (map (\<lambda>req. if type req = EVHTTP_REQ_OPTIONS then 0 else length (body req))
       (take (length (fst (serve ms dp rtc reqs h))) reqs))"
proof (induction reqs arbitrary: h)
  case (Cons req reqs)
  obtain r h1 where r: "OnHttpRequest ms dp (rtc req) True True req h = (r, h1)" by fastforce
  then have "leaked_bytes h1 = leaked_bytes h + (if type req = EVHTTP_REQ_OPTIONS then 0 else length (body req))"
    using OnHttpRequest_leak(1) [of ms dp "rtc req" req h] by simp
  with Cons.IH [of h1] r show ?case by (cases r) (auto split: prod.splits)
qed simp

text \<open>When the program ends normally the server, its signal event and its event base have each been
  freed exactly once, although the destructor runs twice, and no connection is left open.\<close>

lemma resources_freed_once:
  assumes "echo_main ms dp created bind_result set_cb_result rtc reqs = Exited rs s f"
  shows "(\<forall>c \<in> {Evhttp_free, Event_free, Event_base_free}. count_list (calls s) c = 1) \<and>
    (\<exists>f'. f = Some f' \<and> peerConnections f' = [] \<and> \<not> factory_alive f')"
proof
  show "\<forall>c \<in> {Evhttp_free, Event_free, Event_base_free}. count_list (calls s) c = 1"
    using assms by (auto simp: echo_main_def HttpSimpleServer_def Stop_def OnSignal_def
        destroy_HttpSimpleServer_def split: handler_splits)
  let ?h = "SetPeerConnectionFactory PcFactory \<lparr>pcFactory = None, leaked_bytes = 0, leaked_evbuffers = 0\<rparr>"
  have "f = map_option destroy_PcFactory (pcFactory (snd (serve ms dp rtc reqs ?h)))"
    using assms by (auto simp: echo_main_def split: handler_splits)
  moreover obtain f0 where "pcFactory (snd (serve ms dp rtc reqs ?h)) = Some f0"
    using serve_factory [of ?h PcFactory ms dp rtc reqs] by (auto simp: SetPeerConnectionFactory_def)
  ultimately show "\<exists>f'. f = Some f' \<and> peerConnections f' = [] \<and> \<not> factory_alive f'"
    by (simp add: destroy_PcFactory_def)
qed

lemma resources_freed_once_witness:
  "\<exists>rs s f. echo_main (\<lambda>_. 0) CHR ''.'' (True, True, True) 0 0 (\<lambda>_. refusing_library) [] = Exited rs s f \<and>
     count_list (calls s) Evhttp_free = 1"
proof -
  have "\<exists>rs s f. echo_main (\<lambda>_. 0) CHR ''.'' (True, True, True) 0 0 (\<lambda>_. refusing_library) [] = Exited rs s f"
    by (simp add: echo_main_def HttpSimpleServer_def Init_server_def)
  then show ?thesis using resources_freed_once by fast
qed

end
