(* ===== verification/Gst_Echo.thy ===== *)
theory Gst_Echo
  imports Cjson_Object Cjson_Print Cjson_Parser Http_Server
begin

text \<open>
  The echo server of \<^verbatim>\<open>src/gstreamer/gstreamer-webrtc-echo.c\<close>: the handler of POST requests, the callbacks of
  \<^verbatim>\<open>webrtcbin\<close>, and \<^verbatim>\<open>main\<close>. GStreamer and libevent are not part of this repository: what their calls return
  is the record \<open>gst\<close>. The cJSON functions are those of \<open>Cjson_Parser\<close>, \<open>Cjson_Heap\<close> and \<open>Cjson_Printer\<close>.
\<close>

section \<open>Items as values and in the store\<close>

text \<open>\<^verbatim>\<open>cJSON_GetObjectItemCaseSensitive\<close> on an item that is a value (what the parser returns).\<close>

definition object_item :: "cJSON option \<Rightarrow> string \<Rightarrow> cJSON option" where
  "object_item object name =
     (case object of
        None \<Rightarrow> None
      | Some it \<Rightarrow>
          find (\<lambda>c. matching name True (key (node c)))
            (takeWhile (\<lambda>c. key (node c) \<noteq> None) (child it)))"

text \<open>The item a pointer stands for, as \<^verbatim>\<open>cJSON_Print\<close> walks it.\<close>

fun item_at :: "nat \<Rightarrow> (addr \<rightharpoonup> cell) \<Rightarrow> addr \<Rightarrow> cJSON option"
  and items_at :: "nat \<Rightarrow> (addr \<rightharpoonup> cell) \<Rightarrow> addr option \<Rightarrow> cJSON list option" where
  "item_at 0 m a = None"
| "item_at (Suc f) m a =
     (case m a of
        None \<Rightarrow> None
      | Some c \<Rightarrow> map_option (Item (scalars c)) (items_at f m (link_child c)))"
| "items_at f m None = Some []"
| "items_at 0 m (Some a) = None"
| "items_at (Suc f) m (Some a) =
     (case m a of
        None \<Rightarrow> None
      | Some c \<Rightarrow>
          (case (item_at f m a, items_at f m (link_next c)) of
             (Some it, Some rest) \<Rightarrow> Some (it # rest)
           | _ \<Rightarrow> None))"

section \<open>The environment\<close>

text \<open>
  What GStreamer's calls return: whether \<^verbatim>\<open>gst_parse_launch\<close> succeeds, the element \<^verbatim>\<open>sendonly\<close> is found and
  the pipeline starts; whether a text is SDP; and for an offer, whether the promise of \<^verbatim>\<open>create-answer\<close> is
  replied to and what \<^verbatim>\<open>gst_structure_get\<close> stores: nothing when the reply has no field \<^verbatim>\<open>answer\<close>, else the
  field, a null pointer or a description with its SDP text.
\<close>

record gst =
  gst_launch :: bool
  gst_sendonly :: bool
  gst_plays :: bool
  gst_sdp :: "string \<Rightarrow> bool"
  gst_replies :: "string \<Rightarrow> bool"
  gst_answer :: "string \<Rightarrow> string option option"

text \<open>How a call of the handler ends: with a reply, with \<^verbatim>\<open>abort\<close> (a failed \<^verbatim>\<open>g_assert\<close>), or with undefined
  behaviour (a null or uninitialised pointer is used).\<close>

datatype gst_end = Gst_replied http_reply | Gst_aborted | Gst_undefined

text \<open>What the program keeps: the cJSON items and the allocator, the items parsed from requests, the number of
  other blocks it was given, and the offers handed to \<^verbatim>\<open>webrtcbin\<close> elements.\<close>

record gst_state =
  heap :: cstore
  parsed_items :: "cJSON list"
  blocks :: nat
  offers :: "string list"

section \<open>The connection\<close>

text \<open>\<^verbatim>\<open>create_webrtc\<close>: whether there is a new element.\<close>

definition create_webrtc :: "gst \<Rightarrow> gst_end + bool" where
  "create_webrtc g =
     (if \<not> gst_launch g then Inr False
      else if \<not> gst_sendonly g then Inl Gst_aborted
      else if \<not> gst_plays g then Inr False
      else Inr True)"

text \<open>\<^verbatim>\<open>set_offer\<close>: the two assertions on the SDP text.\<close>

definition set_offer :: "gst \<Rightarrow> string \<Rightarrow> gst_end + string" where
  "set_offer g sdp = (if gst_sdp g (c_str sdp) then Inr (c_str sdp) else Inl Gst_aborted)"

section \<open>The handler\<close>

definition server_error :: "string \<Rightarrow> http_reply" where
  "server_error text =
     \<lparr>status = 501, reason = ''Internal Server Error'', headers = [allow_origin], content = text\<rparr>"

definition json_reply :: "string \<Rightarrow> http_reply" where
  "json_reply text =
     \<lparr>status = 200, reason = ''OK'', headers = [allow_origin, (''Content-type'', ''application/json'')], content = text\<rparr>"

text \<open>The items of the answer; what \<^verbatim>\<open>cJSON_AddItemToObject\<close> returns is not looked at.\<close>

definition answer_object :: "string \<Rightarrow> addr option prog" where
  "answer_object sdp =
     bnd cJSON_CreateObject (\<lambda>answer.
     bnd (cJSON_CreateString (Some ''answer'')) (\<lambda>answer_type.
     bnd (cJSON_AddItemToObject answer (Some ''type'') answer_type) (\<lambda>_.
     bnd (cJSON_CreateString (Some sdp)) (\<lambda>answer_sdp.
     bnd (cJSON_AddItemToObject answer (Some ''sdp'') answer_sdp) (\<lambda>_.
       ret answer)))))"

definition send_answer :: "junk \<Rightarrow> char \<Rightarrow> string \<Rightarrow> gst_state \<Rightarrow> gst_end \<times> gst_state" where
  "send_answer junk dp sdp st =
     (case answer_object sdp (heap st) of
        Inl _ \<Rightarrow> (Gst_undefined, st)
      | Inr (answer, s1) \<Rightarrow>
          (case cJSON_Print junk dp
                  (case answer of None \<Rightarrow> None | Some a \<Rightarrow> item_at (2 * next_addr s1) (cells s1) a) (shooks s1) of
             Inl _ \<Rightarrow> (Gst_undefined, st\<lparr>heap := s1\<rparr>)
           | Inr (None, h) \<Rightarrow> (Gst_undefined, st\<lparr>heap := s1\<lparr>shooks := h\<rparr>\<rparr>)
           | Inr (Some json_response, h) \<Rightarrow>
               (Gst_replied (json_reply (c_str json_response)),
                st\<lparr>heap := s1\<lparr>shooks := h\<rparr>, blocks := blocks st + 1\<rparr>)))"

text \<open>From the string \<^verbatim>\<open>sdp\<close> of the offer on.\<close>

definition negotiate_answer :: "junk \<Rightarrow> char \<Rightarrow> gst \<Rightarrow> string \<Rightarrow> gst_state \<Rightarrow> gst_end \<times> gst_state" where
  "negotiate_answer junk dp g sdp st =
     (case create_webrtc g of
        Inl e \<Rightarrow> (e, st)
      | Inr False \<Rightarrow> (Gst_replied (server_error ''Failed to initialise webrtc peer connection.''), st)
      | Inr True \<Rightarrow>
          (case set_offer g sdp of
             Inl e \<Rightarrow> (e, st)
           | Inr offer \<Rightarrow>
               (let st1 = st\<lparr>offers := offers st @ [offer]\<rparr> in
                if \<not> gst_replies g offer then
                  (Gst_replied (server_error ''Timed out waiting for webrtc SDP answer.''), st1)
                else
                  (case gst_answer g offer of
                     None \<Rightarrow> (Gst_undefined, st1)
                   | Some None \<Rightarrow> (Gst_replied (server_error ''Failed to get webrtc SDP answer.''), st1)
                   | Some (Some answer_sdp_text) \<Rightarrow> send_answer junk dp answer_sdp_text st1))))"

text \<open>
  \<^verbatim>\<open>on_http_request_cb\<close>. \<open>evbuffer_ok\<close> and \<open>calloc_ok\<close> say whether the two allocations succeed,
  \<open>null_prints\<close> whether \<^verbatim>\<open>printf\<close> takes a null pointer for \<^verbatim>\<open>%s\<close> (the C standard leaves it undefined, glibc
  prints \<^verbatim>\<open>(null)\<close>).
\<close>

definition on_http_request_cb ::
    "junk \<Rightarrow> char \<Rightarrow> gst \<Rightarrow> bool \<Rightarrow> bool \<Rightarrow> bool \<Rightarrow> http_request \<Rightarrow> gst_state \<Rightarrow> gst_end \<times> gst_state" where
  "on_http_request_cb junk dp g null_prints evbuffer_ok calloc_ok req st =
     (if type req = EVHTTP_REQ_OPTIONS then (Gst_replied options_reply, st)
      else if \<not> evbuffer_ok then (Gst_undefined, st)
      else
        (let st1 = st\<lparr>blocks := blocks st + 1\<rparr> in
         if length (body req) = 0 then (Gst_replied (bad_request ''Request was missing the SDP offer.''), st1)
         else if \<not> calloc_ok then (Gst_undefined, st1)
         else
           (let st2 = st1\<lparr>blocks := blocks st1 + 1\<rparr> in
            case cJSON_Parse dp (shooks (heap st2)) (body req @ [CHR 0x00]) of
              Inl _ \<Rightarrow> (Gst_undefined, st2)
            | Inr r \<Rightarrow>
                (case cJSON_Print junk dp (parsed r) (hooks_after r) of
                   Inl _ \<Rightarrow> (Gst_undefined, st2)
                 | Inr (shown, h) \<Rightarrow>
                     (let st3 = st2\<lparr>heap := (heap st2)\<lparr>shooks := h\<rparr>,
                                    parsed_items := parsed_items st2 @ (case parsed r of None \<Rightarrow> [] | Some it \<Rightarrow> [it]),
                                    blocks := blocks st2 + (if shown = None then 0 else 1)\<rparr>;
                          sdp_json = object_item (parsed r) ''sdp''
                      in if shown = None \<and> \<not> null_prints then (Gst_undefined, st3)
                         else if cJSON_IsString sdp_json \<and> valuestring (node (the sdp_json)) \<noteq> None then
                           negotiate_answer junk dp g (the (valuestring (node (the sdp_json)))) st3
                         else (Gst_replied (bad_request ''Could not parse SDP offer.''), st3))))))"

text \<open>Requests are served one after another, until the program is gone.\<close>

fun gst_serve ::
    "junk \<Rightarrow> char \<Rightarrow> gst \<Rightarrow> bool \<Rightarrow> (bool \<times> bool \<times> http_request) list \<Rightarrow> gst_state \<Rightarrow> gst_end list \<times> gst_state" where
  "gst_serve junk dp g null_prints [] st = ([], st)"
| "gst_serve junk dp g null_prints ((evbuffer_ok, calloc_ok, req) # reqs) st =
     (case on_http_request_cb junk dp g null_prints evbuffer_ok calloc_ok req st of
        (Gst_replied r, st1) \<Rightarrow>
          (case gst_serve junk dp g null_prints reqs st1 of (rs, st2) \<Rightarrow> (Gst_replied r # rs, st2))
      | (e, st1) \<Rightarrow> ([e], st1))"

section \<open>Callbacks of the element\<close>

text \<open>The connection as the callbacks see it: how often an answer was asked for, the local description, the
  references that are held and whether the element still runs.\<close>

record gst_connection =
  answers_requested :: nat
  local_answer :: "string option"
  references :: nat
  running :: bool

datatype peer_state = Peer_new | Peer_connecting | Peer_connected | Peer_disconnected | Peer_failed | Peer_closed

datatype bus_message = Bus_eos | Bus_error string | Bus_other

text \<open>\<open>Answer_created\<close>: whether the promise was replied to, and what \<^verbatim>\<open>gst_structure_get\<close> stores.\<close>

datatype gst_event =
    Offer_set
  | Answer_created bool "string option option"
  | Connection_state peer_state
  | Negotiation_needed
  | Ice_candidate
  | New_transceiver
  | Ice_gathering_state
  | Ice_connection_state
  | Bus_message bus_message

definition on_offer_set :: "gst_connection \<Rightarrow> gst_connection" where
  "on_offer_set c = c\<lparr>answers_requested := answers_requested c + 1\<rparr>"

definition on_answer_created :: "bool \<Rightarrow> string option option \<Rightarrow> gst_connection \<Rightarrow> gst_end + gst_connection" where
  "on_answer_created in_time answer c =
     (if \<not> in_time then Inl Gst_aborted
      else
        (case answer of
           None \<Rightarrow> Inl Gst_undefined
         | Some None \<Rightarrow> Inr c
         | Some (Some sdp) \<Rightarrow> Inr (c\<lparr>local_answer := Some sdp\<rparr>)))"

definition on_connection_state_notify :: "peer_state \<Rightarrow> gst_connection \<Rightarrow> gst_end + gst_connection" where
  "on_connection_state_notify p c =
     (if p = Peer_failed then
        (if references c = 0 then Inl Gst_undefined
         else Inr (c\<lparr>running := False, references := references c - 1\<rparr>))
      else Inr c)"

text \<open>The other callbacks write to the console; \<^verbatim>\<open>bus_call\<close> stays installed.\<close>

definition bus_call :: "bus_message \<Rightarrow> gst_connection \<Rightarrow> gst_connection \<times> bool" where
  "bus_call msg c = (c, True)"

definition gst_event_step :: "gst_event \<Rightarrow> gst_connection \<Rightarrow> gst_end + gst_connection" where
  "gst_event_step e c =
     (case e of
        Offer_set \<Rightarrow> Inr (on_offer_set c)
      | Answer_created in_time answer \<Rightarrow> on_answer_created in_time answer c
      | Connection_state p \<Rightarrow> on_connection_state_notify p c
      | Bus_message msg \<Rightarrow> Inr (fst (bus_call msg c))
      | _ \<Rightarrow> Inr c)"

section \<open>The program\<close>

text \<open>What \<^verbatim>\<open>main\<close> releases, in order.\<close>

datatype main_call = Main_loop_unref | Evhttp_free_server

record gst_host =
  thread_ok :: bool
  event_base_ok :: bool
  evhttp_ok :: bool
  bind_result :: int

definition gst_main ::
    "gst_host \<Rightarrow> junk \<Rightarrow> char \<Rightarrow> gst \<Rightarrow> bool \<Rightarrow> (bool \<times> bool \<times> http_request) list \<Rightarrow> internal_hooks \<Rightarrow>
     gst_end list \<times> int option \<times> main_call list" where
  "gst_main host junk dp g null_prints reqs h =
     (if \<not> thread_ok host then ([], Some (- 1), [])
      else if \<not> event_base_ok host then ([], Some (- 1), [])
      else if \<not> evhttp_ok host then ([], Some (- 1), [])
      else if bind_result host \<noteq> 0 then ([], Some (bind_result host), [])
      else
        (let rs = fst (gst_serve junk dp g null_prints reqs
                    \<lparr>heap = \<lparr>cells = Map.empty, next_addr = 0, shooks = h\<rparr>, parsed_items = [], blocks = 0, offers = []\<rparr>)
         in if list_all (\<lambda>e. case e of Gst_replied _ \<Rightarrow> True | _ \<Rightarrow> False) rs then (rs, Some 0, [Main_loop_unref, Evhttp_free_server])
            else (rs, None, [])))"

section \<open>The answer is one object\<close>

lemma items_at_tree:
  "(\<forall>t. tree_of m t \<longrightarrow> 2 * length (addrs t) \<le> f + 1 \<longrightarrow> item_at f m (proot t) = Some (tree_item m t)) \<and>
   (\<forall>ts. (\<forall>t \<in> set ts. tree_of m t) \<longrightarrow> nexts m (map proot ts) \<longrightarrow> 2 * length (forest_addrs ts) \<le> f \<longrightarrow>
      items_at f m (hd_opt (map proot ts)) = Some (map (tree_item m) ts))"
proof (induction f)
  case 0
  have "2 * length (addrs t) \<le> 1 \<Longrightarrow> False" for t by (cases t) auto
  moreover have "forest_addrs ts = [] \<Longrightarrow> ts = []" for ts by (cases ts; cases "hd ts") auto
  ultimately show ?case by fastforce
next
  case (Suc f)
  have "item_at (Suc f) m (proot t) = Some (tree_item m t)" if t: "tree_of m t" "2 * length (addrs t) \<le> Suc f + 1" for t
  proof -
    obtain a ts where p: "t = PNode a ts" by (cases t)
    obtain c where c: "m a = Some c" "link_child c = hd_opt (map proot ts)" "nexts m (map proot ts)" "\<forall>t \<in> set ts. tree_of m t"
      using t(1) by (auto simp: p array_of_def intro: nexts_seg)
    then show ?thesis using Suc.IH t(2) by (auto simp: p)
  qed
  moreover have "items_at (Suc f) m (hd_opt (map proot ts)) = Some (map (tree_item m) ts)"
    if ts: "\<forall>t \<in> set ts. tree_of m t" "nexts m (map proot ts)" "2 * length (forest_addrs ts) \<le> Suc f" for ts
  proof (cases ts)
    case (Cons t ts')
    have "1 \<le> length (addrs t)" by (cases t) simp
    moreover have "2 * length (addrs t) + 2 * length (forest_addrs ts') \<le> Suc f" using ts(3) by (simp add: Cons)
    ultimately have "2 * length (addrs t) \<le> f + 1" "2 * length (forest_addrs ts') \<le> f" by linarith+
    then show ?thesis using Suc.IH ts(1,2) by (auto simp: Cons)
  qed simp
  ultimately show ?case by blast
qed

lemma item_at_tree:
  assumes "tree_of (cells s) t" "distinct (addrs t)" "bounded s"
  shows "item_at (2 * next_addr s) (cells s) (proot t) = Some (tree_item (cells s) t)"
proof -
  have "length (addrs t) \<le> next_addr s"
    using bounded_length [OF assms(3,2)] owns_dom [OF owns_tree [OF assms(1)]] by blast
  then show ?thesis using items_at_tree [of "cells s" "2 * next_addr s"] assms(1) by auto
qed

lemma add_created_parts:
  assumes "add_created create object name s = Inr (Some b, s')"
  shows "bnd create (\<lambda>i. add_item_to_object object name i False) s = Inr (True, s')"
  using assms
  by (auto simp: add_created_def bnd_def ret_def seq_def try_bind_eq_Inr split: if_splits)

lemma string_member_added:
  assumes "tree_of (cells s) (PNode a ts)" "distinct (addrs (PNode a ts))" "bounded s" "unfailing (shooks s)"
  obtains t s' where "bnd (cJSON_CreateString (Some x)) (cJSON_AddItemToObject (Some a) (Some name)) s = Inr (True, s')"
    "tree_of (cells s') (PNode a (ts @ [t]))" "distinct (addrs (PNode a (ts @ [t])))" "bounded s'" "unfailing (shooks s')"
    "tree_item (cells s') (PNode a (ts @ [t])) = Item (scalars (the (cells s a)))
       (map (tree_item (cells s)) ts @ [keyed_item False name (text_item cJSON_String x)])"
proof -
  from add_created_member [OF created_string assms(1-3), of x name] assms(4) obtain b s' t where
      "add_created (cJSON_CreateString (Some x)) (Some a) (Some name) s = Inr (Some b, s')" "bounded s'"
      "unfailing (shooks s')" "tree_of (cells s') (PNode a (ts @ [t]))" "distinct (addrs (PNode a (ts @ [t])))"
      "tree_item (cells s') (PNode a (ts @ [t])) = Item (scalars (the (cells s a)))
         (map (tree_item (cells s)) ts @ [keyed_item False name (text_item cJSON_String x)])"
    by (auto split: option.splits simp del: tree_of.simps tree_item.simps addrs.simps)
  then show thesis
    using that add_created_parts by (simp add: cJSON_AddItemToObject_def [abs_def] del: tree_of.simps tree_item.simps addrs.simps)
qed

definition answer_items :: "string \<Rightarrow> cJSON" where
  "answer_items sdp =
     Item (zero_node\<lparr>ctype := cJSON_Object\<rparr>)
       [keyed_item False ''type'' (text_item cJSON_String ''answer''),
        keyed_item False ''sdp'' (text_item cJSON_String sdp)]"

lemma answer_object_builds:
  assumes "bounded s" "unfailing (shooks s)"
  obtains a s' where "answer_object sdp s = Inr (Some a, s')" "bounded s'" "unfailing (shooks s')"
    "item_at (2 * next_addr s') (cells s') a = Some (answer_items sdp)"
proof -
  obtain r s1 where s1: "cJSON_CreateObject s = Inr (r, s1)" "copies s (typed_item cJSON_Object) r s1"
    using created_types(5) assms(1) by (rule makesE)
  then obtain t1 where t1: "r = Some (proot t1)" "tree_of (cells s1) t1" "distinct (addrs t1)"
      "tree_item (cells s1) t1 = typed_item cJSON_Object" "bounded s1" "unfailing (shooks s1)"
    using assms(2) by (auto simp: copies_def split: option.splits)
  obtain a where a: "t1 = PNode a []" "scalars (the (cells s1 a)) = zero_node\<lparr>ctype := cJSON_Object\<rparr>"
    using t1(4) by (cases t1) (auto simp: typed_item_def)
  obtain t2 s2 where s2: "bnd (cJSON_CreateString (Some ''answer'')) (cJSON_AddItemToObject (Some a) (Some ''type'')) s1 = Inr (True, s2)"
      "tree_of (cells s2) (PNode a ([] @ [t2]))" "distinct (addrs (PNode a ([] @ [t2])))" "bounded s2" "unfailing (shooks s2)"
      "tree_item (cells s2) (PNode a ([] @ [t2])) = Item (scalars (the (cells s1 a)))
         (map (tree_item (cells s1)) [] @ [keyed_item False ''type'' (text_item cJSON_String ''answer'')])"
    by (rule string_member_added [OF t1(2,3) [unfolded a(1)] t1(5,6)])
  obtain t3 s3 where s3: "bnd (cJSON_CreateString (Some sdp)) (cJSON_AddItemToObject (Some a) (Some ''sdp'')) s2 = Inr (True, s3)"
      "tree_of (cells s3) (PNode a (([] @ [t2]) @ [t3]))" "distinct (addrs (PNode a (([] @ [t2]) @ [t3])))" "bounded s3"
      "unfailing (shooks s3)" "tree_item (cells s3) (PNode a (([] @ [t2]) @ [t3])) = Item (scalars (the (cells s2 a)))
         (map (tree_item (cells s2)) ([] @ [t2]) @ [keyed_item False ''sdp'' (text_item cJSON_String sdp)])"
    by (rule string_member_added [OF s2(2-5)])
  have "tree_item (cells s3) (PNode a (([] @ [t2]) @ [t3])) = answer_items sdp"
    using s3(6) s2(6) a(2) by (simp add: answer_items_def)
  then have "item_at (2 * next_addr s3) (cells s3) a = Some (answer_items sdp)"
    using item_at_tree [OF s3(2-4)] by simp
  moreover have "answer_object sdp s = Inr (Some a, s3)"
    using s1(1) s2(1) s3(1) t1(1) a(1) by (auto simp: answer_object_def bnd_def ret_def try_bind_eq_Inr)
  ultimately show thesis using that s3(4,5) by blast
qed

section \<open>How requests end\<close>

text \<open>A reply of the handler always allows cross-origin access, and its status is 200, 400 or 501; it is
  400 exactly when the request is not OPTIONS and has no body or no JSON object with a string \<^verbatim>\<open>sdp\<close> in it.
  The handler neither replies 200 to a POST request without handing the offer to a connection first.\<close>

lemma gst_handler_replies:
  assumes "on_http_request_cb junk dp g null_prints evbuffer_ok calloc_ok req st = (Gst_replied r, st')"
  shows "allow_origin \<in> set (headers r) \<and> status r \<in> {200, 400, 501} \<and>
    (status r = 400 \<longleftrightarrow> type req \<noteq> EVHTTP_REQ_OPTIONS \<and>
      (body req = [] \<or>
       (\<forall>res. cJSON_Parse dp (shooks (heap st)) (body req @ [CHR 0x00]) = Inr res \<longrightarrow>
          \<not> cJSON_IsString (object_item (parsed res) ''sdp'') \<or>
          valuestring (node (the (object_item (parsed res) ''sdp''))) = None))) \<and>
    (status r = 200 \<and> type req \<noteq> EVHTTP_REQ_OPTIONS \<longrightarrow> length (offers st') = length (offers st) + 1)"
proof (cases "type req = EVHTTP_REQ_OPTIONS \<or> body req = []")
  case True
  then show ?thesis
    using assms by (auto simp: on_http_request_cb_def Let_def options_reply_def bad_request_def split: if_splits)
next
  case False
  have answered: "allow_origin \<in> set (headers r) \<and> status r \<in> {200, 501} \<and>
      (status r = 200 \<longrightarrow> length (offers st') = length (offers st1) + 1)"
    if "negotiate_answer junk dp g x st1 = (Gst_replied r, st')" for x st1
    using that
    by (auto simp: negotiate_answer_def create_webrtc_def set_offer_def send_answer_def Let_def server_error_def json_reply_def
        split: if_splits sum.splits option.splits prod.splits)
  obtain res where res: "cJSON_Parse dp (shooks (heap st)) (body req @ [CHR 0x00]) = Inr res"
    using assms False by (auto simp: on_http_request_cb_def Let_def split: if_splits sum.splits)
  obtain shown h where p: "cJSON_Print junk dp (parsed res) (hooks_after res) = Inr (shown, h)"
    using assms False res by (auto simp: on_http_request_cb_def Let_def split: if_splits sum.splits)
  let ?j = "object_item (parsed res) ''sdp''"
  show ?thesis
  proof (cases "cJSON_IsString ?j \<and> valuestring (node (the ?j)) \<noteq> None")
    case True
    with assms False res p obtain x st1 where "negotiate_answer junk dp g x st1 = (Gst_replied r, st')" "offers st1 = offers st"
      by (auto simp: on_http_request_cb_def Let_def split: if_splits)
    from answered [OF this(1)] this(2) True False res show ?thesis by auto
  next
    case no: False
    with assms False res p have "r = bad_request ''Could not parse SDP offer.''"
      by (auto simp: on_http_request_cb_def Let_def split: if_splits)
    with no False res show ?thesis by (auto simp: bad_request_def)
  qed
qed

text \<open>A GStreamer that answers every offer that starts with \<^verbatim>\<open>v\<close>.\<close>

definition ready_gst :: gst where
  "ready_gst = \<lparr>gst_launch = True, gst_sendonly = True, gst_plays = True, gst_sdp = (\<lambda>t. t \<noteq> [] \<and> hd t = CHR ''v''),
     gst_replies = (\<lambda>_. True), gst_answer = (\<lambda>_. Some (Some ''v=0''))\<rparr>"

definition no_requests :: gst_state where
  "no_requests = \<lparr>heap = no_store, parsed_items = [], blocks = 0, offers = []\<rparr>"

definition post_request :: "string \<Rightarrow> http_request" where
  "post_request text = \<lparr>type = EVHTTP_REQ_POST, uri = ''/offer'', body = text\<rparr>"

lemma gst_handler_replies_witness:
  "\<exists>r st'. on_http_request_cb (\<lambda>_ _. CHR ''x'') CHR ''.'' ready_gst True True True (post_request []) no_requests =
      (Gst_replied r, st') \<and> status r = 400"
proof -
  obtain r st' where r: "on_http_request_cb (\<lambda>_ _. CHR ''x'') CHR ''.'' ready_gst True True True (post_request []) no_requests =
      (Gst_replied r, st')"
    by (simp add: on_http_request_cb_def post_request_def Let_def)
  from gst_handler_replies [OF r] r show ?thesis by (simp add: post_request_def)
qed

text \<open>C36. A request whose \<^verbatim>\<open>sdp\<close> is a string that is not SDP ends the program: an assertion of \<^verbatim>\<open>set_offer\<close>
  aborts, so the request gets no reply and no later request is served.\<close>

theorem gst_bad_sdp_aborts:
  assumes "type req \<noteq> EVHTTP_REQ_OPTIONS" "body req \<noteq> []"
    and "cJSON_Parse dp (shooks (heap st)) (body req @ [CHR 0x00]) = Inr res"
    and "cJSON_IsString (object_item (parsed res) ''sdp'')"
    and "valuestring (node (the (object_item (parsed res) ''sdp''))) = Some sdp"
    and "gst_launch g" "gst_sendonly g" "gst_plays g" "\<not> gst_sdp g (c_str sdp)"
  shows "fst (gst_serve junk dp g True ((True, True, req) # reqs) st) = [Gst_aborted]"
proof -
  obtain shown h where "cJSON_Print junk dp (parsed res) (hooks_after res) = Inr (shown, h)"
    using cJSON_Print_safe [of True junk dp "parsed res" "hooks_after res"] by auto
  then have "fst (on_http_request_cb junk dp g True True True req st) = Gst_aborted"
    using assms by (simp add: on_http_request_cb_def Let_def negotiate_answer_def create_webrtc_def set_offer_def)
  then show ?thesis by (cases "on_http_request_cb junk dp g True True True req st") simp
qed

definition bad_offer :: string where
  "bad_offer = ''{'' @ [CHR 0x22] @ ''sdp'' @ [CHR 0x22] @ '':'' @ [CHR 0x22, CHR 0x22] @ ''}''"

theorem gst_bad_sdp_aborts_witness:
  "fst (gst_serve (\<lambda>_ _. CHR ''x'') CHR ''.'' ready_gst True
     [(True, True, post_request bad_offer), (True, True, post_request [])] no_requests) = [Gst_aborted]"
proof -
  obtain res where res: "cJSON_Parse CHR ''.'' ample (bad_offer @ [CHR 0x00]) = Inr res"
    "parsed res = Some (Item (zero_node\<lparr>ctype := cJSON_Object\<rparr>)
       [Item (zero_node\<lparr>ctype := cJSON_String, valuestring := Some [], key := Some ''sdp''\<rparr>) []])"
  proof (cases "cJSON_Parse CHR ''.'' ample (bad_offer @ [CHR 0x00])")
    case (Inl f)
    moreover have "\<not> (case cJSON_Parse CHR ''.'' ample (bad_offer @ [CHR 0x00]) of Inl _ \<Rightarrow> True | Inr _ \<Rightarrow> False)"
      by code_simp
    ultimately show thesis by simp
  next
    case (Inr r)
    moreover have "map_sum id parsed (cJSON_Parse CHR ''.'' ample (bad_offer @ [CHR 0x00])) =
        Inr (Some (Item (zero_node\<lparr>ctype := cJSON_Object\<rparr>)
         [Item (zero_node\<lparr>ctype := cJSON_String, valuestring := Some [], key := Some ''sdp''\<rparr>) []]))"
      by code_simp
    ultimately show thesis using that by simp
  qed
  have "matching ''sdp'' True (Some ''sdp'')" by code_simp
  then have j: "object_item (parsed res) ''sdp'' = Some (Item (zero_node\<lparr>ctype := cJSON_String, valuestring := Some [], key := Some ''sdp''\<rparr>) [])"
    by (simp add: res(2) object_item_def)
  have "cJSON_IsString (object_item (parsed res) ''sdp'')" unfolding j by code_simp
  with gst_bad_sdp_aborts [of "post_request bad_offer" "CHR ''.''" no_requests res "[]" ready_gst] res(1) j
  show ?thesis
    by (simp add: post_request_def bad_offer_def no_requests_def no_store_def ready_gst_def c_str_def)
qed

end
