(* ===== verification/Cjson_Safe.thy ===== *)
theory Cjson_Safe
  imports Cjson_Parser
begin

text \<open>
  Memory safety and termination of the cJSON parser. The second pass over a string literal may
  disagree with the first about where escape sequences start (a malformed \<^verbatim>\<open>\u\<close> literal swallows
  six bytes whatever they are), and still never writes behind the block that the first pass
  measured. On a buffer that ends in a NUL nothing is read outside the buffer; on one that does
  not, reading is the only fault. The fuel of the model is always enough.
\<close>

section \<open>The output of a string literal\<close>

text \<open>
  \<open>track al s\<close>: the distance to the closing quote and the number of bytes still to be written when
  the first pass stands at \<open>s\<close>, either at the start of a character (\<open>al\<close>) or behind a backslash.
\<close>

fun track :: "bool \<Rightarrow> string \<Rightarrow> (nat \<times> nat) option" where
  "track al [] = None"
| "track False (c # cs) = map_option (\<lambda>(n, k). (n + 1, k + 1)) (track True cs)"
| "track True (c # cs) =
     (if c = CHR 0x22 then Some (0, 0)
      else if c = CHR 0x5C then map_option (\<lambda>(n, k). (n + 1, k)) (track False cs)
      else map_option (\<lambda>(n, k). (n + 1, k + 1)) (track True cs))"

lemma find_end_track:
  "find_end s = Some (n, k) \<Longrightarrow> k \<le> n \<and> track True s = Some (n, n - k)"
proof (induction s arbitrary: n k rule: find_end.induct)
  case (2 c cs)
  show ?case
  proof (cases "c = CHR 0x5C")
    case True
    with 2 show ?thesis by (cases cs) (force simp: Suc_diff_le)+
  next
    case False
    with 2 show ?thesis by (auto simp: Suc_diff_le split: if_splits)
  qed
qed simp

lemma track_length: "track al s = Some (n, k) \<Longrightarrow> n < length s"
  by (induction al s arbitrary: n k rule: track.induct) (auto split: if_splits)

lemma track_step:
  assumes "track al s = Some (Suc n, k)"
  obtains c cs al' k' where "s = c # cs" "track al' cs = Some (n, k')" "k' \<le> k" "k \<le> Suc k'"
    "al \<and> c = CHR 0x5C \<Longrightarrow> \<not> al'" "\<not> (al \<and> c = CHR 0x5C) \<Longrightarrow> k = Suc k'"
  using assms by (cases "(al, s)" rule: track.cases) (auto split: if_splits)

lemma track_two_steps:
  assumes "track al s = Some (Suc (Suc n), k)"
  shows "\<exists>al' k'. track al' (drop 2 s) = Some (n, k') \<and> k' < k"
proof -
  obtain c cs al1 k1 where 1: "s = c # cs" "track al1 cs = Some (Suc n, k1)" "k1 \<le> k"
    "al \<and> c = CHR 0x5C \<Longrightarrow> \<not> al1" "\<not> (al \<and> c = CHR 0x5C) \<Longrightarrow> k = Suc k1"
    using assms by (rule track_step) blast
  obtain d ds al2 k2 where 2: "cs = d # ds" "track al2 ds = Some (n, k2)" "k2 \<le> k1"
    "\<not> (al1 \<and> d = CHR 0x5C) \<Longrightarrow> k1 = Suc k2"
    using 1(2) by (rule track_step) blast
  have "k2 < k" using 1 2 by (cases "al \<and> c = CHR 0x5C") auto
  with 1 2 show ?thesis by auto
qed

lemma track_many_steps:
  "track al s = Some (2 * m + n, k) \<Longrightarrow>
   \<exists>al' k'. track al' (drop (2 * m) s) = Some (n, k') \<and> k' + m \<le> k"
proof (induction m arbitrary: al s k)
  case (Suc m)
  then obtain al1 k1 where "track al1 (drop 2 s) = Some (2 * m + n, k1)" "k1 < k"
    using track_two_steps [of al s "2 * m + n" k] by auto
  with Suc.IH [of al1 "drop 2 s" k1] obtain al2 k2 where
    "track al2 (drop (2 * Suc m) s) = Some (n, k2)" "k2 + m \<le> k1"
    by (auto simp: add.commute)
  with \<open>k1 < k\<close> show ?case
    by (metis add_Suc_right less_eq_Suc_le order_le_less_trans)
qed auto

lemma length_utf8_continuation:
  "length (snd (utf8_continuation pos cp bs)) = pos + length bs"
  by (induction pos arbitrary: cp bs) simp_all

lemma length_utf8_encode: "0 < n \<Longrightarrow> length (utf8_encode n m cp) = n"
  using length_utf8_continuation [of "n - 1" cp "[]"]
  by (cases "utf8_continuation (n - 1) cp []") (simp add: utf8_encode_def)

lemma hex_nibble_less: "hex_nibble c = Some d \<Longrightarrow> d < 16"
  by (auto simp: hex_nibble_def split: if_splits)

lemma parse_hex4_loop_less:
  "cs \<noteq> [] \<Longrightarrow> h + 16 \<le> m \<Longrightarrow> parse_hex4_loop h cs < m * 16 ^ (length cs - 1)"
proof (induction cs arbitrary: h m)
  case (Cons c cs)
  show ?case
  proof (cases "hex_nibble c")
    case (Some d)
    then have "d < 16" by (rule hex_nibble_less)
    with Some Cons.prems Cons.IH [of "push_bit 4 (h + d)" "16 * m"] show ?thesis
      by (cases cs) (auto simp: push_bit_eq_mult algebra_simps)
  qed (use Cons.prems in simp)
qed simp

lemma parse_hex4_less: "parse_hex4 cs < 0x10000"
proof (cases "take 4 cs")
  case (Cons a list)
  then have "parse_hex4 cs < 16 * 16 ^ (length (take 4 cs) - 1)"
    unfolding parse_hex4_def by (intro parse_hex4_loop_less) simp_all
  also have "\<dots> \<le> 16 * 16 ^ 3" by (intro mult_left_mono power_increasing) simp_all
  finally show ?thesis by simp
qed (simp add: parse_hex4_def)

lemma utf16_literal_fits:
  assumes "utf16_literal_to_utf8 s = Some (ys, n)"
  shows "n \<le> length s \<and> 2 * length ys \<le> n"
  using assms parse_hex4_less [of "drop 2 s"]
  by (auto simp: utf16_literal_to_utf8_def Let_def length_utf8_encode split: if_splits)


text \<open>Where the second pass stands, and that what is still to be written has room.\<close>

definition has_room :: "string \<Rightarrow> nat \<Rightarrow> nat \<Rightarrow> nat \<Rightarrow> string \<Rightarrow> bool" where
  "has_room bs e cap i out \<longleftrightarrow> e < length bs \<and>
     (if i \<le> e then \<exists>al k. track al (drop i bs) = Some (e - i, k) \<and> length out + k < cap
      else length out < cap)"

lemma has_room_put: "has_room bs e cap i out \<Longrightarrow> put cap out [c] = Inr (out @ [c])"
  by (auto simp: has_room_def put_def split: if_splits)

lemma has_room_plain:
  assumes "has_room bs e cap i out" "i < e" "bs ! i \<noteq> CHR 0x5C"
  shows "has_room bs e cap (i + 1) (out @ [x])"
proof -
  obtain al k where tr: "track al (drop i bs) = Some (Suc (e - Suc i), k)" "length out + k < cap"
    using assms by (auto simp: has_room_def Suc_diff_Suc)
  obtain c cs al' k' where st: "drop i bs = c # cs" "track al' cs = Some (e - Suc i, k')"
    "\<not> (al \<and> c = CHR 0x5C) \<Longrightarrow> k = Suc k'"
    using tr(1) by (rule track_step) blast
  from st(1) have "c = bs ! i" "cs = drop (Suc i) bs"
    by (metis nth_via_drop, metis drop_Suc list.sel(3) tl_drop)
  with st tr assms show ?thesis by (auto simp: has_room_def)
qed

lemma track_quote_next:
  assumes "track al (c # cs) = Some (Suc 0, k)" "c = CHR 0x5C"
  shows "k = 1"
  using assms by (cases al; cases cs rule: list.exhaust) (auto split: if_splits)

lemma has_room_escape:
  assumes "has_room bs e cap i out" "i < e" "bs ! i = CHR 0x5C"
  shows "has_room bs e cap (i + 2) (out @ [x])"
proof -
  have bs: "drop i bs = bs ! i # drop (Suc i) bs" "e < length bs"
    using assms Cons_nth_drop_Suc [of i bs] by (auto simp: has_room_def)
  obtain al k where tr: "track al (drop i bs) = Some (e - i, k)" "length out + k < cap"
    using assms by (auto simp: has_room_def)
  show ?thesis
  proof (cases "e = Suc i")
    case True
    with tr track_quote_next [of al "bs ! i" "drop (Suc i) bs" k] assms bs show ?thesis
      by (auto simp: has_room_def)
  next
    case False
    with assms(2) have "e - i = Suc (Suc (e - (i + 2)))" by linarith
    with tr track_two_steps [of al "drop i bs" "e - (i + 2)" k] assms bs False show ?thesis
      by (fastforce simp: has_room_def add.commute)
  qed
qed

lemma has_room_literal:
  assumes "has_room bs e cap i out" "i < e"
    and lit: "utf16_literal_to_utf8 (take (e - i) (drop i bs)) = Some (ys, n)"
  shows "put cap out ys = Inr (out @ ys) \<and> has_room bs e cap (i + n) (out @ ys)"
proof -
  obtain al k where tr: "track al (drop i bs) = Some (e - i, k)" "length out + k < cap"
    and e: "e < length bs"
    using assms by (auto simp: has_room_def)
  have n: "n \<le> e - i" "2 * length ys \<le> n" "even n"
    using utf16_literal_fits [OF lit] utf16_literal_length [OF lit] by auto
  define m where "m = n div 2"
  have m: "n = 2 * m" "length ys \<le> m" using n by (auto simp: m_def)
  from tr(1) n(1) have "track al (drop i bs) = Some (2 * m + (e - (i + n)), k)"
    by (simp add: m(1))
  then obtain al' k' where "track al' (drop (i + n) bs) = Some (e - (i + n), k')" "k' + m \<le> k"
    using track_many_steps [of al "drop i bs" m "e - (i + n)" k] m(1) by (auto simp: add.commute)
  moreover from calculation tr(2) m(2) have "length (out @ ys) + k' < cap" by simp
  ultimately show ?thesis using n(1) e by (auto simp: has_room_def put_def)
qed

lemma unescape_safe:
  "has_room bs e cap i out \<Longrightarrow> \<exists>p r. unescape bs e cap i out = Inr (p, r)"
proof (induction bs e cap i out rule: unescape.induct)
  case (1 bs e cap i out)
  note room = has_room_put [OF 1(4)]
  show ?case
  proof (cases "e \<le> i")
    case True
    then show ?thesis by (subst unescape.simps) (simp add: room)
  next
    case False
    then have lt: "i < e" and len: "\<not> length bs \<le> i" "\<not> length bs \<le> i + 1"
      using 1(4) by (auto simp: has_room_def)
    show ?thesis
    proof (cases "bs ! i = CHR 0x5C")
      case False
      with 1(1) lt len room has_room_plain [OF 1(4) lt False] show ?thesis
        by (subst unescape.simps) simp
    next
      case esc: True
      show ?thesis
      proof (cases "simple_escape (bs ! (i + 1))")
        case (Some c)
        with 1(3) lt len room esc has_room_escape [OF 1(4) lt esc] show ?thesis
          by (subst unescape.simps) simp
      next
        case None
        with 1(2) lt len esc has_room_literal [OF 1(4) lt] show ?thesis
          by (subst unescape.simps) (auto split: option.split)
      qed
    qed
  qed
qed


section \<open>Results of the parse functions\<close>

definition terminated :: "parse_buffer \<Rightarrow> bool" where
  "terminated b \<longleftrightarrow> bytes b \<noteq> [] \<and> last (bytes b) = CHR 0x00"

text \<open>
  What every parse function promises: the only fault is a read outside a buffer that is not
  terminated, the bytes are left alone, and a parsed item has used at least one byte and leaves
  the depth as it was.
\<close>

definition promised :: "parse_buffer \<Rightarrow> c_fault + parse_buffer \<times> 'a option \<Rightarrow> bool" where
  "promised b res =
     (case res of
        Inl fault \<Rightarrow> fault = Over_read \<and> \<not> terminated b
      | Inr (b', r) \<Rightarrow> bytes b' = bytes b \<and>
          (r \<noteq> None \<longrightarrow> offset b < offset b' \<and> offset b' \<le> length (bytes b) \<and> depth b' = depth b))"

lemma skip_whitespace_keeps [simp]:
  "bytes (buffer_skip_whitespace b) = bytes b"
  "depth (buffer_skip_whitespace b) = depth b"
  "hooks (buffer_skip_whitespace b) = hooks b"
  by (simp_all add: buffer_skip_whitespace_def Let_def)

lemma skip_whitespace_offset:
  "offset b \<le> offset (buffer_skip_whitespace b)"
  "offset b < length (bytes b) \<Longrightarrow> offset (buffer_skip_whitespace b) < length (bytes b)"
  "length (bytes b) \<le> offset b \<Longrightarrow> buffer_skip_whitespace b = b"
proof -
  assume "offset b < length (bytes b)"
  with length_takeWhile_le [of "\<lambda>c. ic c \<le> 32" "drop (offset b) (bytes b)"]
  show "offset (buffer_skip_whitespace b) < length (bytes b)"
    by (auto simp: buffer_skip_whitespace_def can_access_at_index_def Let_def)
qed (auto simp: buffer_skip_whitespace_def can_access_at_index_def Let_def)

lemma terminated_cong: "bytes b' = bytes b \<Longrightarrow> terminated b' \<longleftrightarrow> terminated b"
  by (simp add: terminated_def)

lemma looking_at_offset: "looking_at b c \<Longrightarrow> offset b < length (bytes b)"
  by (simp add: looking_at_def can_access_at_index_def)

lemma terminated_next:
  assumes "terminated b" "looking_at b c" "c \<noteq> CHR 0x00"
  shows "offset b + 1 < length (bytes b)"
proof (rule ccontr)
  assume "\<not> ?thesis"
  with assms(2) have "offset b = length (bytes b) - 1"
    by (auto simp: looking_at_def can_access_at_index_def)
  with assms show False by (auto simp: terminated_def looking_at_def last_conv_nth)
qed

lemma new_item_keeps:
  "new_item b = (ok, b') \<Longrightarrow> bytes b' = bytes b \<and> offset b' = offset b \<and> depth b' = depth b"
  by (auto simp: new_item_def split: prod.splits)

lemma advance_simps [simp]:
  "bytes (advance b) = bytes b" "offset (advance b) = offset b + 1" "depth (advance b) = depth b"
  by (simp_all add: advance_def)

lemma parse_string_promised: "promised b (parse_string item b)"
  if "terminated b \<longrightarrow> offset b < length (bytes b)"
proof (cases "can_access_at_index b 0 \<and> bytes b ! offset b = CHR 0x22")
  case False
  with that show ?thesis
    by (auto simp: parse_string_def byte_at_def promised_def can_access_at_index_def)
next
  case acc: True
  show ?thesis
  proof (cases "find_end (drop (offset b + 1) (bytes b))")
    case None
    with acc show ?thesis by (simp add: parse_string_def byte_at_def promised_def)
  next
    case (Some nk)
    obtain n k where nk: "nk = (n, k)" by (cases nk)
    note tr = find_end_track [OF Some [unfolded nk]]
    have "has_room (bytes b) (offset b + 1 + n) (Suc n - k + 1) (offset b + 1) []"
      using tr track_length [OF conjunct2 [OF tr]]
      by (auto simp: has_room_def Suc_diff_le intro!: exI [of _ True])
    then obtain q r where "unescape (bytes b) (offset b + 1 + n) (Suc n - k + 1) (offset b + 1) [] = Inr (q, r)"
      using unescape_safe by blast
    with acc Some nk track_length [OF conjunct2 [OF tr]] show ?thesis
      by (auto simp: parse_string_def byte_at_def promised_def Let_def split: prod.splits option.splits)
  qed
qed

lemma strtod_used: "snd (strtod dp s) \<le> length s"
proof -
  have *: "(\<not> C \<Longrightarrow> snd y \<le> n) \<Longrightarrow> snd (if C then (0, 0) else y) \<le> n"
    for C and y :: "64 word \<times> nat" and n
    by simp
  show ?thesis
    unfolding strtod_def Let_def by (rule *) (simp only: snd_conv diff_le_self)
qed

lemma parse_number_promised: "promised b (Inr (parse_number dp item b))"
proof -
  define s where "s = takeWhile number_char (take 63 (drop (offset b) (bytes b)))"
  have "snd (strtod dp s) \<le> length (bytes b) - offset b"
    using strtod_used [of dp s] length_takeWhile_le [of number_char "take 63 (drop (offset b) (bytes b))"]
    by (simp add: s_def)
  then show ?thesis
    by (auto simp: parse_number_def promised_def Let_def simp flip: s_def split: prod.splits)
qed


text \<open>The loops stop on the closing bracket, which is inside the buffer.\<close>

definition loop_promised :: "parse_buffer \<Rightarrow> c_fault + parse_buffer \<times> 'a option \<Rightarrow> bool" where
  "loop_promised b res =
     (case res of
        Inl fault \<Rightarrow> fault = Over_read \<and> \<not> terminated b
      | Inr (b', r) \<Rightarrow> bytes b' = bytes b \<and>
          (r \<noteq> None \<longrightarrow> offset b < offset b' \<and> offset b' < length (bytes b) \<and> depth b' = depth b))"

lemma promised_cases:
  assumes "promised b res"
  obtains "res = Inl Over_read" "\<not> terminated b"
  | b' where "res = Inr (b', None)" "bytes b' = bytes b"
  | b' x where "res = Inr (b', Some x)" "bytes b' = bytes b" "offset b < offset b'"
      "offset b' \<le> length (bytes b)" "depth b' = depth b"
  using assms by (auto simp: promised_def split: sum.splits prod.splits option.splits)

lemma loop_promised_later:
  assumes "loop_promised b1 res" "bytes b1 = bytes b" "offset b \<le> offset b1" "depth b1 = depth b"
  shows "loop_promised b res"
  using assms by (auto simp: loop_promised_def terminated_def split: sum.splits prod.splits)

lemma promised_None [simp]: "bytes b' = bytes b \<Longrightarrow> promised b (Inr (b', None))"
  by (simp add: promised_def)

lemma loop_promised_None [simp]: "bytes b' = bytes b \<Longrightarrow> loop_promised b (Inr (b', None))"
  by (simp add: loop_promised_def)

lemma close_item_promised:
  assumes "loop_promised b1 res" "bytes b1 = bytes b" "offset b \<le> offset b1" "depth b1 = depth b + 1"
  shows "promised b (try_bind res (\<lambda>r. Inr (close_item t item r)))"
  using assms
  by (auto simp: loop_promised_def promised_def close_item_def terminated_def
      split: sum.splits prod.splits option.splits)

text \<open>The interface between the loops and \<open>parse_value_c\<close>: a parser for values that keeps the promise
  on buffers with less than \<open>reach\<close> bytes left.\<close>

locale parses_values =
  fixes pv :: value_parser and reach :: nat
  assumes pv_promised: "length (bytes b) - offset b < reach \<Longrightarrow> promised b (pv item b)"
begin

lemma array_elements_promised:
  "offset b < length (bytes b) \<Longrightarrow> length (bytes b) - offset b \<le> f \<Longrightarrow>
   length (bytes b) - offset b \<le> reach \<Longrightarrow> loop_promised b (array_elements f pv b items)"
proof (induction f arbitrary: b items)
  case (Suc f)
  obtain ok b0 where n: "new_item b = (ok, b0)" by (cases "new_item b")
  note k0 = new_item_keeps [OF n]
  define b1 where "b1 = buffer_skip_whitespace (advance b0)"
  have b1: "bytes b1 = bytes b" "offset b < offset b1" "depth b1 = depth b"
    using skip_whitespace_offset(1) [of "advance b0"] k0 by (auto simp: b1_def)
  have "promised b1 (pv zero_node b1)"
    using Suc.prems b1 by (intro pv_promised) auto
  then show ?case
  proof (cases rule: promised_cases)
    case 1
    then show ?thesis using n b1
      by (cases ok) (simp_all add: array_elements.simps loop_promised_def terminated_def k0 flip: b1_def)
  next
    case (2 b2)
    then show ?thesis using n b1
      by (cases ok) (simp_all add: array_elements.simps k0 flip: b1_def)
  next
    case (3 b2 x)
    define b3 where "b3 = buffer_skip_whitespace b2"
    have b3: "bytes b3 = bytes b" "offset b + 1 < offset b3" "depth b3 = depth b"
      using skip_whitespace_offset(1) [of b2] b1 3 by (auto simp: b3_def)
    have rest: "loop_promised b (array_elements f pv b3 (items @ [x]))" if "looking_at b3 CHR '',''"
    proof (rule loop_promised_later [OF Suc.IH])
      show "offset b3 < length (bytes b3)" using that by (rule looking_at_offset)
    qed (use b3 Suc.prems in auto)
    show ?thesis using n b3 3(1) rest looking_at_offset [of b3]
      by (cases ok) (auto simp: array_elements.simps k0 Let_def loop_promised_def simp flip: b1_def b3_def)
  qed
qed simp

lemma parse_array_promised:
  assumes "looking_at b CHR ''[''" "length (bytes b) - offset b \<le> f" "length (bytes b) - offset b \<le> reach"
  shows "promised b (parse_array f pv item b)"
proof -
  define b2 where "b2 = buffer_skip_whitespace (advance (b\<lparr>depth := Suc (depth b)\<rparr>))"
  have b2: "bytes b2 = bytes b" "offset b < offset b2" "depth b2 = depth b + 1"
    using skip_whitespace_offset(1) [of "advance (b\<lparr>depth := Suc (depth b)\<rparr>)"] by (auto simp: b2_def)
  let ?b3 = "b2\<lparr>offset := offset b2 - 1\<rparr>"
  have "promised b (try_bind (array_elements f pv ?b3 []) (\<lambda>r. Inr (close_item cJSON_Array item r)))"
    if "can_access_at_index b2 0"
    using that b2 assms
    by (intro close_item_promised [of ?b3] array_elements_promised) (auto simp: can_access_at_index_def)
  moreover have "promised b (Inr (close_item cJSON_Array item (b2, Some [])))"
    if "looking_at b2 CHR '']''"
    using b2 looking_at_offset [OF that] by (auto simp: promised_def close_item_def)
  ultimately show ?thesis
    using assms(1) b2
    by (simp add: parse_array_def byte_at_def looking_at_def [of b] Let_def can_access_at_index_def [of b]
        can_access_at_index_def [of "_\<lparr>depth := _\<rparr>"] flip: b2_def)
qed

lemma object_elements_promised:
  "terminated b \<longrightarrow> offset b + 1 < length (bytes b) \<Longrightarrow> offset b < length (bytes b) \<Longrightarrow>
   length (bytes b) - offset b \<le> f \<Longrightarrow>
   length (bytes b) - offset b \<le> reach \<Longrightarrow> loop_promised b (object_elements f pv b items)"
proof (induction f arbitrary: b items)
  case (Suc f)
  obtain ok b0 where n: "new_item b = (ok, b0)" by (cases "new_item b")
  note k0 = new_item_keeps [OF n]
  define b1 where "b1 = buffer_skip_whitespace (advance b0)"
  have b1: "bytes b1 = bytes b" "offset b < offset b1" "depth b1 = depth b"
    "terminated b1 \<longrightarrow> offset b1 < length (bytes b1)"
    using skip_whitespace_offset [of "advance b0"] k0 Suc.prems(1)
    by (auto simp: b1_def terminated_def)
  have "promised b1 (parse_string zero_node b1)"
    using b1(4) by (rule parse_string_promised)
  then show ?case
  proof (cases rule: promised_cases)
    case 1
    then show ?thesis using n b1
      by (cases ok) (simp_all add: object_elements.simps loop_promised_def terminated_def k0 flip: b1_def)
  next
    case (2 b2)
    then show ?thesis using n b1
      by (cases ok) (simp_all add: object_elements.simps k0 flip: b1_def)
  next
    case (3 b2 named)
    define b3 where "b3 = buffer_skip_whitespace b2"
    define b4 where "b4 = buffer_skip_whitespace (advance b3)"
    define it where "it = (node named)\<lparr>key := valuestring (node named), valuestring := None\<rparr>"
    have b4: "bytes b3 = bytes b" "bytes b4 = bytes b" "offset b + 2 < offset b4" "depth b4 = depth b"
      using skip_whitespace_offset(1) [of b2] skip_whitespace_offset(1) [of "advance b3"] b1 3
      by (auto simp: b3_def b4_def)
    have "promised b4 (pv it b4)"
      using Suc.prems b4 by (intro pv_promised) auto
    then have "loop_promised b
      (try_bind (pv it b4) (\<lambda>(b5, r). case r of None \<Rightarrow> Inr (b5, None)
        | Some v \<Rightarrow>
            if looking_at (buffer_skip_whitespace b5) CHR '',''
            then object_elements f pv (buffer_skip_whitespace b5) (items @ [v])
            else if \<not> looking_at (buffer_skip_whitespace b5) CHR ''}''
            then Inr (buffer_skip_whitespace b5, None)
            else Inr (buffer_skip_whitespace b5, Some (items @ [v]))))"
    proof (cases rule: promised_cases)
      case 1
      then show ?thesis using b4 by (simp add: loop_promised_def terminated_def)
    next
      case (2 b5)
      then show ?thesis using b4 by simp
    next
      case (3 b5 v)
      define b6 where "b6 = buffer_skip_whitespace b5"
      have b6: "bytes b6 = bytes b" "offset b + 2 < offset b6" "depth b6 = depth b"
        using skip_whitespace_offset(1) [of b5] b4 3 by (auto simp: b6_def)
      have "loop_promised b (object_elements f pv b6 (items @ [v]))" if "looking_at b6 CHR '',''"
      proof (rule loop_promised_later [OF Suc.IH])
        show "offset b6 < length (bytes b6)" using that by (rule looking_at_offset)
        show "terminated b6 \<longrightarrow> offset b6 + 1 < length (bytes b6)"
          using terminated_next [OF _ that] by simp
      qed (use b6 Suc.prems in auto)
      with 3(1) b6 looking_at_offset [of b6] show ?thesis
        by (auto simp: Let_def loop_promised_def simp flip: b6_def)
    qed
    with n 3(1) b4(1) k0 show ?thesis
      by (cases ok) (auto simp: object_elements.simps Let_def simp flip: b1_def b3_def b4_def it_def)
  qed
qed simp

lemma parse_object_promised:
  assumes "looking_at b CHR ''{''" "length (bytes b) - offset b \<le> f" "length (bytes b) - offset b \<le> reach"
  shows "promised b (parse_object f pv item b)"
proof -
  define b2 where "b2 = buffer_skip_whitespace (advance (b\<lparr>depth := Suc (depth b)\<rparr>))"
  have b2: "bytes b2 = bytes b" "offset b < offset b2" "depth b2 = depth b + 1"
    using skip_whitespace_offset(1) [of "advance (b\<lparr>depth := Suc (depth b)\<rparr>)"] by (auto simp: b2_def)
  let ?b3 = "b2\<lparr>offset := offset b2 - 1\<rparr>"
  have "promised b (try_bind (object_elements f pv ?b3 []) (\<lambda>r. Inr (close_item cJSON_Object item r)))"
    if "can_access_at_index b2 0"
    using that b2 assms
    by (intro close_item_promised [of ?b3] object_elements_promised) (auto simp: can_access_at_index_def)
  moreover have "promised b (Inr (close_item cJSON_Object item (b2, Some [])))"
    if "looking_at b2 CHR ''}''"
    using b2 looking_at_offset [OF that] by (auto simp: promised_def close_item_def)
  ultimately show ?thesis
    using assms(1) b2
    by (simp add: parse_object_def looking_at_def [of b] Let_def can_access_at_index_def [of b]
        looking_at_def [of "_\<lparr>depth := _\<rparr>"] can_access_at_index_def [of "_\<lparr>depth := _\<rparr>"]
        flip: b2_def)
qed

end

section \<open>The whole parser\<close>

lemma reads_word_offset: "reads_word b w \<Longrightarrow> offset b + length w \<le> length (bytes b)"
  by (simp add: reads_word_def can_read_def)

lemma parse_value_promised:
  "length (bytes b) - offset b < f \<Longrightarrow> promised b (parse_value_c f dp item b)"
proof (induction f arbitrary: b item)
  case (Suc f)
  have nested: "parses_values (parse_value_c f dp) f"
    by (rule parses_values.intro) (rule Suc.IH)
  have word: "promised b (Inr (b\<lparr>offset := offset b + n\<rparr>, x))"
    if "reads_word b w" "n = length w" "0 < n" for w n and x :: "cJSON option"
    using reads_word_offset [OF that(1)] that(2,3) by (simp add: promised_def)
  have str: "promised b (parse_string item b)" if "looking_at b c" for c
    using looking_at_offset [OF that] by (intro parse_string_promised) simp
  have arr: "promised b (parse_array f (parse_value_c f dp) item b)" if "looking_at b CHR ''[''"
    using that Suc.prems by (intro parses_values.parse_array_promised [OF nested]) auto
  have obj: "promised b (parse_object f (parse_value_c f dp) item b)" if "looking_at b CHR ''{''"
    using that Suc.prems by (intro parses_values.parse_object_promised [OF nested]) auto
  have other: "promised b (Inr (b, None :: cJSON option))" by (simp add: promised_def)
  show ?case
    by (simp add: parse_value_c.simps str arr obj other parse_number_promised
        word [of "''null''"] word [of "''false''"] word [of "''true''"])
qed simp

interpretation pv: parses_values "parse_value_c f dp" f for f dp
  by (rule parses_values.intro) (rule parse_value_promised)

lemma parse_start_promised:
  "promised (buffer_skip_whitespace (skip_utf8_bom b))
     (parse_value_c (length (bytes b) + 1) dp item (buffer_skip_whitespace (skip_utf8_bom b)))"
  by (rule pv.pv_promised) (simp add: skip_utf8_bom_def less_Suc_eq_le)

lemma ParseWithLengthOpts_faults:
  assumes "cJSON_ParseWithLengthOpts dp h value req = Inl fault"
  shows "fault = Over_read \<and> value \<noteq> [] \<and> last value \<noteq> CHR 0x00"
proof -
  obtain ok h1 where al: "allocate h = (ok, h1)" by (cases "allocate h")
  define b where "b = \<lparr>bytes = value, offset = 0, depth = 0, hooks = h1\<rparr>"
  have "promised (buffer_skip_whitespace (skip_utf8_bom b))
     (parse_value_c (length value + 1) dp zero_node (buffer_skip_whitespace (skip_utf8_bom b)))"
    using parse_start_promised [of b dp zero_node] by (simp add: b_def)
  moreover have "terminated (buffer_skip_whitespace (skip_utf8_bom b)) \<longleftrightarrow> terminated b"
    by (intro terminated_cong) (simp add: skip_utf8_bom_def)
  ultimately show ?thesis
    using assms al
    by (auto simp: cJSON_ParseWithLengthOpts_def Let_def terminated_def simp flip: b_def
        split: if_splits option.splits elim!: promised_cases) (auto simp: b_def)
qed

text \<open>C6. \<^verbatim>\<open>cJSON_Parse\<close> on every C string, in every locale and with an allocator that may refuse any
  request, returns: it reads nothing outside the string and its terminator, writes nothing outside
  the blocks it allocates for decoded strings, and does not run for ever.\<close>

theorem cJSON_Parse_safe: "\<exists>res. cJSON_Parse dp h value = Inr res"
proof (cases "cJSON_Parse dp h value")
  case (Inl fault)
  then show ?thesis
    using ParseWithLengthOpts_faults [of dp h "c_str value @ [CHR 0x00]" False fault]
    by (simp add: cJSON_Parse_def cJSON_ParseWithOpts_def)
qed simp

text \<open>An object whose last byte is a comma.\<close>

definition comma_last :: string where
  "comma_last = [CHR ''{'', CHR 0x22, CHR 0x22, CHR '':'', CHR ''1'', CHR '','']"

lemma comma_last_over_read:
  "cJSON_ParseWithLength CHR ''.'' ample comma_last = Inl Over_read"
  by code_simp

text \<open>C38. What can go wrong in \<^verbatim>\<open>cJSON_ParseWithLength\<close>, which does not add a terminator: nothing but a
  read behind the buffer, and only when the last byte is not a NUL. No write goes outside a block
  and every run ends.\<close>

theorem cJSON_ParseWithLength_faults:
  assumes "cJSON_ParseWithLength dp h value = Inl fault"
  shows "fault = Over_read \<and> value \<noteq> [] \<and> last value \<noteq> CHR 0x00"
  using ParseWithLengthOpts_faults assms by (simp add: cJSON_ParseWithLength_def)

theorem cJSON_ParseWithLength_faults_witness:
  "cJSON_ParseWithLength CHR ''.'' ample comma_last = Inl Over_read \<and>
   comma_last \<noteq> [] \<and> last comma_last \<noteq> CHR 0x00"
  using cJSON_ParseWithLength_faults [OF comma_last_over_read] comma_last_over_read by simp

end
