(* ===== verification/Cjson_Strings.thy ===== *)
theory Cjson_Strings
  imports Cjson_Safe Json_Grammar
begin

text \<open>
  The cJSON parser on the tokens of the JSON grammar in \<open>Json_Grammar\<close>: what it does with
  whitespace, the UTF-8 it decodes from a string literal, and the integers.
\<close>

section \<open>A buffer at a text\<close>

definition buffer_text :: "parse_buffer \<Rightarrow> string \<Rightarrow> bool" where
  "buffer_text b s \<longleftrightarrow> offset b \<le> length (bytes b) \<and> drop (offset b) (bytes b) = s"

definition moved :: "parse_buffer \<Rightarrow> nat \<Rightarrow> parse_buffer" where
  "moved b n = b\<lparr>offset := offset b + n\<rparr>"

lemma buffer_text_length: "buffer_text b s \<Longrightarrow> length (bytes b) - offset b = length s"
  by (auto simp: buffer_text_def)

lemma buffer_text_moved: "buffer_text b (s @ t) \<Longrightarrow> n = length s \<Longrightarrow> buffer_text (moved b n) t"
proof (auto simp: buffer_text_def moved_def)
  assume "offset b \<le> length (bytes b)" and d: "drop (offset b) (bytes b) = s @ t"
  from d have "length (bytes b) - offset b = length s + length t" by (metis length_append length_drop)
  then show "offset b + length s \<le> length (bytes b)" using \<open>offset b \<le> length (bytes b)\<close> by linarith
  show "drop (offset b + length s) (bytes b) = t"
    using arg_cong [OF d, of "drop (length s)"] by (simp add: add.commute)
qed

lemma buffer_text_Cons:
  assumes "buffer_text b (c # s)"
  shows "can_access_at_index b 0" "bytes b ! offset b = c"
  using assms nth_via_drop [of "offset b" "bytes b" c s]
  by (auto simp: buffer_text_def can_access_at_index_def) (metis drop_all linorder_not_le list.distinct(1))

lemma looking_at_text [simp]: "buffer_text b (c # s) \<Longrightarrow> looking_at b d \<longleftrightarrow> c = d"
  by (simp add: looking_at_def buffer_text_Cons)

lemma reads_word_text: "buffer_text b s \<Longrightarrow> reads_word b w \<longleftrightarrow> take (length w) s = w"
  by (auto simp: buffer_text_def reads_word_def can_read_def)
    (metis le_add_diff_inverse length_drop length_take min.absorb_iff2 nat_add_left_cancel_le)

lemma skip_whitespace_text:
  assumes "buffer_text b (w @ c # s)" "ws w" "32 < ic c"
  shows "buffer_skip_whitespace b = moved b (length w)"
proof -
  have w: "takeWhile (\<lambda>c. ic c \<le> 32) (w @ c # s) = w"
    using assms(2,3) by (simp add: ws_def list_all_iff takeWhile_append ic_is_ws) force
  have "can_access_at_index b 0" "offset b + length w < length (bytes b)"
    using assms(1) buffer_text_length [OF assms(1)]
    by (auto simp: can_access_at_index_def buffer_text_def)
  with w assms(1) show ?thesis
    by (simp add: buffer_skip_whitespace_def Let_def buffer_text_def moved_def)
qed

lemma skip_whitespace_none:
  assumes "buffer_text b (c # s)" "32 < ic c"
  shows "buffer_skip_whitespace b = b"
  using skip_whitespace_text [of b "[]" c s] assms by (simp add: ws_def moved_def)

section \<open>Strings\<close>

subsection \<open>The UTF-8 encoder\<close>

lemma byte_char_of: "char_of n = byte n" for n :: nat
  by (simp add: byte_def to_char_type_def)

lemma continuation_byte: "char_of ((cp OR 0x80) AND 0xBF) = byte (0x80 + cp mod 64)" for cp :: nat
proof -
  have small: "\<forall>c \<in> set [0 ..< 256]. (c OR 0x80) AND 0xBF = 0x80 + c mod (64 :: nat)" by code_simp
  have bits: "take_bit 8 0x80 = (0x80 :: nat)" "take_bit 8 0xBF = (0xBF :: nat)" by simp_all
  have "(cp OR 0x80) AND 0xBF = take_bit 8 ((cp OR 0x80) AND 0xBF)"
    by (simp only: take_bit_eq_mask and.assoc) (simp add: mask_eq_exp_minus_1)
  also have "\<dots> = (take_bit 8 cp OR 0x80) AND 0xBF"
    unfolding take_bit_and take_bit_or bits by (rule refl)
  also have "\<dots> = 0x80 + take_bit 8 cp mod 64"
    using small by (simp add: take_bit_eq_mod)
  also have "take_bit 8 cp mod 64 = cp mod 64"
    by (simp add: take_bit_eq_mod mod_mod_cancel)
  finally show ?thesis
    by (simp add: byte_char_of)
qed

lemma lead_bytes:
  "x < 32 \<Longrightarrow> (x OR 0xC0) AND 0xFF = (0xC0 + x :: nat)"
  "x < 16 \<Longrightarrow> (x OR 0xE0) AND 0xFF = (0xE0 + x :: nat)"
  "x < 8 \<Longrightarrow> (x OR 0xF0) AND 0xFF = (0xF0 + x :: nat)"
  using or_low_high_nat [of x 6 3] or_low_high_nat [of x 5 7] or_low_high_nat [of x 4 15]
    and_mask_nat [of _ 8]
  by simp_all

lemma utf8_continuation_step:
  "utf8_continuation (Suc pos) cp bs =
     utf8_continuation pos (cp div 64) (byte (0x80 + cp mod 64) # bs)"
  by (simp add: continuation_byte drop_bit_eq_div)

declare utf8_continuation.simps(2) [simp del]

lemma utf8_continuation_bytes:
  "utf8_continuation (Suc 0) cp [] = (cp div 64, [byte (0x80 + cp mod 64)])"
  "utf8_continuation 2 cp [] =
     (cp div 64 div 64, [byte (0x80 + cp div 64 mod 64), byte (0x80 + cp mod 64)])"
  "utf8_continuation 3 cp [] =
     (cp div 64 div 64 div 64,
      [byte (0x80 + cp div 64 div 64 mod 64), byte (0x80 + cp div 64 mod 64), byte (0x80 + cp mod 64)])"
  by (simp_all only: utf8_continuation_step numeral_2_eq_2 numeral_3_eq_3 utf8_continuation.simps(1))

lemma utf8_encode_utf8:
  "cp < 0x80 \<Longrightarrow> utf8_encode 1 0 cp = utf8 cp"
  "0x80 \<le> cp \<Longrightarrow> cp < 0x800 \<Longrightarrow> utf8_encode 2 0xC0 cp = utf8 cp"
  "0x800 \<le> cp \<Longrightarrow> cp < 0x10000 \<Longrightarrow> utf8_encode 3 0xE0 cp = utf8 cp"
  "0x10000 \<le> cp \<Longrightarrow> cp \<le> 0x10FFFF \<Longrightarrow> utf8_encode 4 0xF0 cp = utf8 cp"
  using and_mask_nat [of cp 7]
  by (simp_all add: utf8_encode_def utf8_def utf8_continuation_bytes
      byte_char_of lead_bytes less_mult_imp_div_less flip: div_mult2_eq)

subsection \<open>Literals of UTF-16 units\<close>

lemma hex_nibble_value: "hex_nibble c = hex_value c"
  by (auto simp: hex_nibble_def hex_value_def)

lemma hex_quad_Cons:
  assumes "hex_quad hs u"
  obtains a b c d w x y z where "hs = [a, b, c, d]" "hex_value a = Some w" "hex_value b = Some x"
    "hex_value c = Some y" "hex_value d = Some z" "u = w * 4096 + x * 256 + y * 16 + z"
  using assms by (cases "(hs, u)" rule: hex_quad.cases) (auto split: option.splits)

lemma parse_hex4_quad: "hex_quad hs u \<Longrightarrow> parse_hex4 (hs @ s) = u"
  by (elim hex_quad_Cons) (simp add: parse_hex4_def hex_nibble_value push_bit_eq_mult)

lemma length_hex_quad: "hex_quad hs u \<Longrightarrow> length hs = 4"
  by (elim hex_quad_Cons) simp

lemma utf16_literal_unit:
  assumes "hex_quad hs cp" "scalar_value cp"
  shows "utf16_literal_to_utf8 (CHR 0x5C # CHR ''u'' # hs @ s) = Some (utf8 cp, 6)"
  using assms hex_quad_less [OF assms(1)]
  by (auto simp: utf16_literal_to_utf8_def parse_hex4_quad length_hex_quad scalar_value_def
      utf8_encode_utf8 utf8_encode_utf8(1) [unfolded One_nat_def] Let_def)

lemma surrogate_pair_value:
  fixes hi lo :: nat
  assumes "0xD800 \<le> hi" "hi < 0xDC00" "0xDC00 \<le> lo" "lo < 0xE000"
  shows "push_bit 10 (hi AND 0x3FF) OR (lo AND 0x3FF) = (hi - 0xD800) * 0x400 + (lo - 0xDC00)"
proof -
  have "hi mod 1024 = hi - 0xD800" "lo mod 1024 = lo - 0xDC00"
    using assms by (simp_all add: mod_nat_eqI le_mod_geq)
  then show ?thesis
    using and_mask_nat [of hi 10] and_mask_nat [of lo 10] assms
      or_high_low_nat [of "lo - 0xDC00" 10 "hi - 0xD800"]
    by (simp add: push_bit_eq_mult)
qed

lemma utf16_literal_pair:
  assumes "hex_quad hs hi" "0xD800 \<le> hi" "hi < 0xDC00" "hex_quad ls lo" "0xDC00 \<le> lo" "lo < 0xE000"
    and "cp = 0x10000 + (hi - 0xD800) * 0x400 + (lo - 0xDC00)"
  shows "utf16_literal_to_utf8 ((CHR 0x5C # CHR ''u'' # hs) @ (CHR 0x5C # CHR ''u'' # ls) @ s) =
    Some (utf8 cp, 12)"
proof -
  have "0x10000 \<le> cp" "cp \<le> 0x10FFFF" using assms by linarith+
  then show ?thesis
    using assms surrogate_pair_value [OF assms(2,3,5,6)]
      length_hex_quad [OF assms(1)] length_hex_quad [OF assms(4)]
      parse_hex4_quad [OF assms(1)] parse_hex4_quad [OF assms(4)]
    by (simp add: utf16_literal_to_utf8_def Let_def utf8_encode_utf8 add.assoc)
qed

subsection \<open>String literals\<close>

lemma utf8_bytes_plain:
  assumes "scalar_value cp" "0x20 \<le> cp" "cp \<noteq> 0x22" "cp \<noteq> 0x5C" "c \<in> set (utf8 cp)"
  shows "c \<noteq> CHR 0x22 \<and> c \<noteq> CHR 0x5C \<and> 32 \<le> ic c"
proof -
  obtain n where n: "c = byte n" "n < 256" "n \<noteq> 0x22" "n \<noteq> 0x5C" "32 \<le> n"
    using assms(1)
  proof (cases rule: utf8_cases)
    case one
    with assms that show ?thesis by auto
  next
    case (two a x)
    with assms that utf8_two show ?thesis by fastforce
  next
    case (three a x y)
    with assms utf8_three [of a x y] that show ?thesis by fastforce
  next
    case (four a x y z)
    with assms utf8_four [of a x y z] that show ?thesis by fastforce
  qed
  then have "ic c = int n" by (simp add: ic_byte)
  moreover have "ic CHR 0x22 = 0x22" "ic CHR 0x5C = 0x5C" by simp_all
  ultimately show ?thesis using n by auto
qed

lemma find_end_plain:
  "\<forall>c \<in> set t. c \<noteq> CHR 0x22 \<and> c \<noteq> CHR 0x5C \<Longrightarrow>
   find_end (t @ s) = map_option (\<lambda>(n, k). (length t + n, k)) (find_end s)"
proof (induction t)
  case (Cons c t)
  then show ?case by (cases "find_end s") auto
qed (cases "find_end s"; auto)

lemma hex_value_not_special: "hex_value c = Some v \<Longrightarrow> c \<noteq> CHR 0x22 \<and> c \<noteq> CHR 0x5C"
  by (auto simp: hex_value_def)

lemma find_end_hex_quad:
  assumes "hex_quad hs u"
  shows "find_end (CHR 0x5C # CHR ''u'' # hs @ s) = map_option (\<lambda>(n, k). (6 + n, Suc k)) (find_end s)"
proof -
  have "\<forall>c \<in> set hs. c \<noteq> CHR 0x22 \<and> c \<noteq> CHR 0x5C"
    using assms by (elim hex_quad_Cons) (auto dest: hex_value_not_special)
  from find_end_plain [OF this, of s] have
    "find_end (hs @ s) = map_option (\<lambda>(n, k). (4 + n, k)) (find_end s)"
    using length_hex_quad [OF assms] by simp
  moreover have "find_end (CHR 0x5C # CHR ''u'' # hs @ s) =
      map_option (\<lambda>(n, k). (n + 2, k + 1)) (find_end (hs @ s))"
    by simp
  ultimately show ?thesis by (cases "find_end s") (auto simp del: find_end.simps)
qed

lemma find_end_char:
  assumes "char_text cp t"
  shows "\<exists>e. find_end (t @ s) = map_option (\<lambda>(n, k). (length t + n, e + k)) (find_end s)"
  using assms
proof cases
  case plain
  then have "\<forall>c \<in> set t. c \<noteq> CHR 0x22 \<and> c \<noteq> CHR 0x5C" using utf8_bytes_plain by blast
  then show ?thesis by (intro exI [of _ 0]) (simp add: find_end_plain)
next
  case (letter c)
  then show ?thesis by (intro exI [of _ 1]) (cases "find_end s"; simp)
next
  case (unit hs)
  then show ?thesis using length_hex_quad [of hs] find_end_hex_quad [of hs cp s]
    by (intro exI [of _ 1]) (simp del: find_end.simps)
next
  case (pair hs hi ls lo)
  then show ?thesis using length_hex_quad [of hs hi] length_hex_quad [of ls lo]
      find_end_hex_quad [of hs hi "CHR 0x5C # CHR ''u'' # ls @ s"] find_end_hex_quad [of ls lo s]
    by (intro exI [of _ 2]) (cases "find_end s"; auto simp del: find_end.simps)
qed

lemma find_end_text:
  "string_text cps t \<Longrightarrow> \<exists>k. find_end (t @ CHR 0x22 # s) = Some (length t, k)"
proof (induction cps arbitrary: t)
  case (Cons cp cps)
  then obtain t1 t2 where t: "char_text cp t1" "string_text cps t2" "t = t1 @ t2"
    by (auto simp: string_text_Cons)
  from Cons.IH [OF t(2)] find_end_char [OF t(1), of "t2 @ CHR 0x22 # s"] t(3) show ?case by auto
qed (simp add: string_text_Nil)

lemma put_ok: "try_bind (put cap out ys) f = Inr r \<Longrightarrow> put cap out ys = Inr (out @ ys)"
  by (auto simp: put_def split: if_splits)

lemma drop_Cons_nth: "drop i bs = c # s \<Longrightarrow> i < length bs \<and> bs ! i = c \<and> drop (Suc i) bs = s"
  by (metis drop_Suc drop_all linorder_not_le list.distinct(1) list.sel(3) nth_via_drop tl_drop)

text \<open>A step of the second pass, given that the whole pass has room for its output.\<close>

lemma unescape_plain:
  assumes "drop i bs = t @ s" "\<forall>c \<in> set t. c \<noteq> CHR 0x5C" "i + length t \<le> e"
    and "unescape bs e cap i out = Inr r"
  shows "unescape bs e cap (i + length t) (out @ t) = Inr r"
  using assms
proof (induction t arbitrary: i out)
  case (Cons c t)
  from Cons.prems(1) have i: "i < length bs" "bs ! i = c" "drop (Suc i) bs = t @ s"
    using drop_Cons_nth [of i bs c "t @ s"] by auto
  have step: "try_bind (put cap out [c]) (\<lambda>out'. unescape bs e cap (i + 1) out') = Inr r"
    using Cons.prems i by (subst (asm) unescape.simps) auto
  then have "unescape bs e cap (Suc i) (out @ [c]) = Inr r"
    using put_ok [OF step] by simp
  from Cons.IH [OF i(3) _ _ this] Cons.prems show ?case by simp
qed simp

lemma unescape_letter:
  assumes "drop i bs = CHR 0x5C # c # s" "letter_escape c = Some cp" "i + 2 \<le> e"
    and "unescape bs e cap i out = Inr r"
  shows "unescape bs e cap (i + 2) (out @ utf8 cp) = Inr r"
proof -
  have i: "i < length bs" "bs ! i = CHR 0x5C" "Suc i < length bs" "bs ! Suc i = c"
    using drop_Cons_nth [OF assms(1)] drop_Cons_nth [of "Suc i" bs c s] by auto
  obtain d where d: "simple_escape c = Some d" "utf8 cp = [d]"
    using assms(2) by (auto simp: letter_escape_def simple_escape_def utf8_def byte_def
        to_char_type_def char_of_def split: if_splits)
  have "try_bind (put cap out [d]) (\<lambda>out'. unescape bs e cap (i + 2) out') = Inr r"
    using assms(3,4) i d(1) by (subst (asm) unescape.simps) simp
  then show ?thesis using put_ok d(2) by fastforce
qed

lemma unescape_literal:
  assumes "drop i bs = CHR 0x5C # CHR ''u'' # s" "i < e"
    and "utf16_literal_to_utf8 (take (e - i) (drop i bs)) = Some (ys, n)"
    and "unescape bs e cap i out = Inr r" "e \<le> length bs" "i + 1 < e"
  shows "unescape bs e cap (i + n) (out @ ys) = Inr r"
proof -
  have i: "i < length bs" "bs ! i = CHR 0x5C" "Suc i < length bs" "bs ! Suc i = CHR ''u''"
    using drop_Cons_nth [OF assms(1)] drop_Cons_nth [of "Suc i" bs "CHR ''u''" s] by auto
  have step: "try_bind (put cap out ys) (\<lambda>out'. unescape bs e cap (i + n) out') = Inr r"
    using assms(2-4) i by (subst (asm) unescape.simps) (simp add: simple_escape_def)
  then show ?thesis using put_ok [OF step] by simp
qed

lemma unescape_char:
  assumes "char_text cp t" "drop i bs = t @ s" "i + length t \<le> e" "e \<le> length bs"
    and "unescape bs e cap i out = Inr r"
  shows "unescape bs e cap (i + length t) (out @ utf8 cp) = Inr r"
  using assms(1)
proof cases
  case plain
  then have "\<forall>c \<in> set t. c \<noteq> CHR 0x5C" using utf8_bytes_plain by blast
  from unescape_plain [OF assms(2) this assms(3,5)] plain show ?thesis by simp
next
  case (letter c)
  with unescape_letter [of i bs c s cp e cap out r] assms show ?thesis by simp
next
  case (unit hs)
  then have "length hs = 4" by (simp add: length_hex_quad)
  moreover from this unit assms(2,3) have "take (e - i) (drop i bs) =
      CHR 0x5C # CHR ''u'' # hs @ take (e - (6 + i)) s"
    by (simp add: take_Cons')
  ultimately show ?thesis
    using unescape_literal [of i bs "hs @ s" e "utf8 cp" 6 cap out r] utf16_literal_unit [of hs cp] unit assms
    by simp
next
  case (pair hs hi ls lo)
  then have len: "length hs = 4" "length ls = 4" by (simp_all add: length_hex_quad)
  moreover from this pair(1) assms(2,3) have "take (e - i) (drop i bs) =
      (CHR 0x5C # CHR ''u'' # hs) @ (CHR 0x5C # CHR ''u'' # ls) @ take (e - (12 + i)) s"
    by (simp add: take_Cons')
  ultimately show ?thesis
    using unescape_literal [of i bs "hs @ CHR 0x5C # CHR ''u'' # ls @ s" e "utf8 cp" 12 cap out r]
      utf16_literal_pair [OF pair(2-8)] pair(1) assms
    by simp
qed

lemma unescape_text:
  "string_text cps t \<Longrightarrow> drop i bs = t @ s \<Longrightarrow> i + length t \<le> length bs \<Longrightarrow>
   unescape bs (i + length t) cap i out = Inr r \<Longrightarrow> r = (i + length t, Some (out @ utf8_text cps))"
proof (induction cps arbitrary: t i out)
  case Nil
  then have "t = []" by (simp add: string_text_Nil)
  with Nil.prems(4) show ?case
    by (subst (asm) unescape.simps) (auto simp: utf8_text_def put_def split: if_splits)
next
  case (Cons cp cps)
  then obtain t1 t2 where t: "char_text cp t1" "string_text cps t2" "t = t1 @ t2"
    by (auto simp: string_text_Cons)
  have "unescape bs (i + length t) cap (i + length t1) (out @ utf8 cp) = Inr r"
    using unescape_char [OF t(1), of i bs "t2 @ s"] Cons.prems t(3) by simp
  moreover have "drop (i + length t1) bs = t2 @ s"
    using Cons.prems(2) t(3) by (metis add.commute append_assoc append_eq_conv_conj drop_drop)
  ultimately show ?case
    using Cons.IH [OF t(2), of "i + length t1" "out @ utf8 cp"] Cons.prems(3) t(3)
    by (simp add: utf8_text_def add.assoc)
qed

text \<open>The state behind something that was parsed: \<open>n\<close> bytes further, with some memory allocated.\<close>

definition reaches :: "parse_buffer \<Rightarrow> nat \<Rightarrow> parse_buffer \<Rightarrow> bool" where
  "reaches b n b' \<longleftrightarrow> (\<exists>h. b' = b\<lparr>offset := offset b + n, hooks := h\<rparr> \<and> unfailing h)"

lemma reachesD:
  assumes "reaches b n b'"
  shows "bytes b' = bytes b" "offset b' = offset b + n" "depth b' = depth b" "unfailing (hooks b')"
  using assms by (auto simp: reaches_def)

lemma buffer_text_reaches: "buffer_text b (s @ t) \<Longrightarrow> reaches b (length s) b' \<Longrightarrow> buffer_text b' t"
  using buffer_text_moved [of b s t "length s"] by (auto simp: reaches_def buffer_text_def moved_def)

lemma parse_string_text:
  assumes "string_text cps t" "buffer_text b (CHR 0x22 # t @ CHR 0x22 # s)" "unfailing (hooks b)"
  shows "\<exists>b'. parse_string n b =
      Inr (b', Some (Item (n\<lparr>ctype := cJSON_String, valuestring := Some (utf8_text cps)\<rparr>) [])) \<and>
    reaches b (length t + 2) b'"
proof -
  obtain h where h: "allocate (hooks b) = (True, h)" "unfailing h"
    using allocate_unfailing [OF assms(3)] by blast
  obtain k where k: "find_end (t @ CHR 0x22 # s) = Some (length t, k)"
    using find_end_text [OF assms(1)] by blast
  have d: "drop (Suc (offset b)) (bytes b) = t @ CHR 0x22 # s"
    using assms(2) by (metis buffer_text_def drop_Cons_nth)
  have len: "Suc (offset b) + length t < length (bytes b)"
    using arg_cong [OF d, of length] by simp
  note tr = find_end_track [OF k]
  have "has_room (bytes b) (Suc (offset b) + length t) (Suc (length t) - k + 1) (Suc (offset b)) []"
    using tr len d by (auto simp: has_room_def Suc_diff_le intro!: exI [of _ True])
  then obtain p r where u: "unescape (bytes b) (Suc (offset b) + length t) (Suc (length t) - k + 1)
      (Suc (offset b)) [] = Inr (p, r)"
    using unescape_safe by blast
  with unescape_text [OF assms(1) d _ u] len have "r = Some (utf8_text cps)" by simp
  with u k h d buffer_text_Cons [OF assms(2)] show ?thesis
    by (auto simp: parse_string_def byte_at_def reaches_def Let_def)
qed

section \<open>Numbers\<close>

lemma strtod_int:
  assumes "digits ip"
  shows "strtod dp (sign_text neg @ ip) =
    (dec_to_double neg (digits_value ip) 0, length (sign_text neg @ ip))"
proof -
  have ip: "takeWhile is_digit ip = ip" "dropWhile is_digit ip = []" "ip \<noteq> []" "hd ip \<noteq> CHR ''-''"
    using assms by (auto simp: digits_def list_all_iff is_digit_def takeWhile_eq_all_conv
        dropWhile_eq_Nil_conv dest!: hd_in_set)
  have "takeWhile is_digit ip \<noteq> []" by (subst ip(1)) (rule ip(3))
  with ip(3,4) show ?thesis
    by (cases neg) (simp_all add: strtod_def sign_text_def Let_def ip(1,2))
qed

lemma digits_value_lower: "list_all is_digit ds \<Longrightarrow> ds \<noteq> [] \<Longrightarrow> hd ds \<noteq> CHR ''0'' \<Longrightarrow>
  10 ^ (length ds - 1) \<le> digits_value ds"
proof (induction ds rule: rev_induct)
  case (snoc d ds)
  show ?case
  proof (cases ds)
    case Nil
    with snoc.prems have "is_digit d" "ic d \<noteq> 48" by (auto simp: char_eq_ic)
    then show ?thesis using Nil by (auto simp: digits_value_def digit_val_def is_digit_def)
  next
    case (Cons e es)
    with snoc have "10 ^ length es \<le> digits_value ds" by simp
    with Cons digits_value_snoc [of "e # es" d] show ?thesis by simp
  qed
qed simp

lemma int_text_length:
  assumes "int_text ip" "digits_value ip < 2 ^ 64"
  shows "length ip \<le> 20"
proof (rule ccontr)
  assume long: "\<not> ?thesis"
  with assms(1) have "list_all is_digit ip" "ip \<noteq> []" "hd ip \<noteq> CHR ''0''"
    by (cases ip; auto simp: int_text_def digits_def)+
  then have "10 ^ (length ip - 1) \<le> digits_value ip" by (rule digits_value_lower)
  moreover have "(10 :: nat) ^ 20 \<le> 10 ^ (length ip - 1)"
    using long by (intro power_increasing) auto
  ultimately show False using assms(2) by simp
qed

lemma number_buffer:
  assumes "digits ip" "length ip \<le> 20" "\<not> number_char c"
  shows "takeWhile number_char (take 63 ((sign_text neg @ ip) @ c # s)) = sign_text neg @ ip"
proof -
  have all: "\<forall>x \<in> set (sign_text neg @ ip). number_char x"
    using assms(1) by (auto simp: number_char_def sign_text_def digits_def list_all_iff)
  have "take 63 ((sign_text neg @ ip) @ c # s) =
      (sign_text neg @ ip) @ c # take (62 - length (sign_text neg @ ip)) s"
    using assms(2) by (simp add: sign_text_def take_Cons')
  then show ?thesis
    unfolding takeWhile_append2 [OF all [rule_format]] using assms(3) takeWhile_append2 [of "sign_text neg @ ip" number_char "c # _"] all
    by (simp only: takeWhile.simps if_False append_Nil2)
qed

definition number_item :: "cnode \<Rightarrow> 64 word \<Rightarrow> cJSON" where
  "number_item n d =
     Item (n\<lparr>valuedouble := d, valueint := saturated_int d, ctype := cJSON_Number\<rparr>) []"

lemma parse_number_text:
  assumes "int_text ip" "digits_value ip < 2 ^ 64" "\<not> number_char c"
    and "buffer_text b ((sign_text neg @ ip) @ c # s)"
  shows "parse_number dp n b =
    (moved b (length (sign_text neg @ ip)),
     Some (number_item n (dec_to_double neg (digits_value ip) 0)))"
proof -
  have d: "digits ip" "length ip \<le> 20" "ip \<noteq> []"
    using assms(1) int_text_length [OF assms(1,2)] by (auto simp: int_text_def digits_def)
  have "takeWhile number_char (take 63 (drop (offset b) (bytes b))) = sign_text neg @ ip"
    using number_buffer [OF d(1,2) assms(3), of neg s] assms(4) by (simp add: buffer_text_def)
  with d(3) show ?thesis
    by (simp add: parse_number_def strtod_int [OF d(1)] number_item_def moved_def)
qed

end
