(* ===== verification/Cjson_Text.thy ===== *)
theory Cjson_Text
  imports Cjson_Strings Json_Dump Json_Sound
begin

text \<open>
  The cJSON parser on JSON texts. Every text of the grammar in \<open>Json_Grammar\<close> (the one the C++
  parser accepts) is accepted, and the item it becomes is a function of the value the text denotes:
  \<open>item_of\<close>. The members of an object stay in the order of the text, repeated keys included, and
  every number is a double.
\<close>

section \<open>The item of a value\<close>

text \<open>A signed integer of the grammar is one that was written with a minus sign.\<close>

fun item_of :: "cnode \<Rightarrow> json \<Rightarrow> cJSON" where
  "item_of n Jnull = Item (n\<lparr>ctype := cJSON_NULL\<rparr>) []"
| "item_of n (Jboolean b) =
     (if b then Item (n\<lparr>ctype := cJSON_True, valueint := 1\<rparr>) [] else Item (n\<lparr>ctype := cJSON_False\<rparr>) [])"
| "item_of n (Jstring s) = Item (n\<lparr>ctype := cJSON_String, valuestring := Some s\<rparr>) []"
| "item_of n (Jnumber_unsigned x) = number_item n (dec_to_double False (unat x) 0)"
| "item_of n (Jnumber_integer x) = number_item n (dec_to_double True (unat (- x)) 0)"
| "item_of n (Jnumber_float x) = number_item n x"
| "item_of n (Jarray xs) = Item (n\<lparr>ctype := cJSON_Array\<rparr>) (map (item_of zero_node) xs)"
| "item_of n (Jobject m) =
     Item (n\<lparr>ctype := cJSON_Object\<rparr>)
       (map (\<lambda>kv. item_of (zero_node\<lparr>ctype := cJSON_String, key := Some (fst kv)\<rparr>) (snd kv)) m)"
| "item_of n _ = Item n []"

text \<open>How deep arrays and objects are nested, and values without floating-point numbers (whose text
  has no bound on its length, while cJSON copies 63 characters).\<close>

fun nesting :: "json \<Rightarrow> nat" where
  "nesting (Jarray xs) = Suc (Max (insert 0 (set (map nesting xs))))"
| "nesting (Jobject m) = Suc (Max (insert 0 (set (map (\<lambda>kv. nesting (snd kv)) m))))"
| "nesting _ = 0"

fun integral :: "json \<Rightarrow> bool" where
  "integral (Jarray xs) \<longleftrightarrow> (\<forall>x \<in> set xs. integral x)"
| "integral (Jobject m) \<longleftrightarrow> (\<forall>kv \<in> set m. integral (snd kv))"
| "integral (Jnumber_float _) \<longleftrightarrow> False"
| "integral _ \<longleftrightarrow> True"

lemma nesting_array: "nesting (Jarray xs) \<le> Suc d \<longleftrightarrow> (\<forall>x \<in> set xs. nesting x \<le> d)"
  by auto

lemma nesting_object: "nesting (Jobject m) \<le> Suc d \<longleftrightarrow> (\<forall>kv \<in> set m. nesting (snd kv) \<le> d)"
  by auto

lemma number_value_integral:
  assumes "integral (number_value dp neg ip fr ex)"
  shows "fr = [] \<and> ex = [] \<and> digits_value ip < 2 ^ 64 \<and>
    item_of n (number_value dp neg ip fr ex) = number_item n (dec_to_double neg (digits_value ip) 0)"
  using assms
  by (auto simp: number_value_def Let_def unat_of_nat take_bit_nat_eq_self split: if_splits)

section \<open>Values\<close>

text \<open>What the parser does with the text of a value, of elements and of members, when there is enough
  fuel, memory and depth and the next byte cannot belong to a number.\<close>

definition roomy :: "parse_buffer \<Rightarrow> nat \<Rightarrow> json \<Rightarrow> bool" where
  "roomy b f v \<longleftrightarrow> length (bytes b) - offset b < f \<and> depth b + nesting v \<le> CJSON_NESTING_LIMIT \<and>
     unfailing (hooks b) \<and> integral v"

definition value_done :: "char \<Rightarrow> json \<Rightarrow> string \<Rightarrow> bool" where
  "value_done dp v s \<longleftrightarrow>
     (\<forall>b f n c rest. buffer_text b (s @ c # rest) \<longrightarrow> \<not> number_char c \<longrightarrow> roomy b f v \<longrightarrow>
       (\<exists>b'. parse_value_c f dp n b = Inr (b', Some (item_of n v)) \<and> reaches b (length s) b'))"

text \<open>The loops start on the byte before the elements.\<close>

definition elements_done :: "char \<Rightarrow> json list \<Rightarrow> string \<Rightarrow> bool" where
  "elements_done dp xs s \<longleftrightarrow>
     (\<forall>b f g c rest items. buffer_text b (c # s @ CHR '']'' # rest) \<longrightarrow>
       length (bytes b) - offset b \<le> f \<longrightarrow> (\<forall>x \<in> set xs. roomy (moved b 1) g x) \<longrightarrow>
       (\<exists>b'. array_elements f (parse_value_c g dp) b items =
            Inr (b', Some (items @ map (item_of zero_node) xs)) \<and> reaches b (Suc (length s)) b'))"

definition member_item :: "string \<times> json \<Rightarrow> cJSON" where
  "member_item kv = item_of (zero_node\<lparr>ctype := cJSON_String, key := Some (fst kv)\<rparr>) (snd kv)"

definition members_done :: "char \<Rightarrow> (string \<times> json) list \<Rightarrow> string \<Rightarrow> bool" where
  "members_done dp m s \<longleftrightarrow>
     (\<forall>b f g c rest items. buffer_text b (c # s @ CHR ''}'' # rest) \<longrightarrow>
       length (bytes b) - offset b \<le> f \<longrightarrow> (\<forall>kv \<in> set m. roomy (moved b 1) g (snd kv)) \<longrightarrow>
       (\<exists>b'. object_elements f (parse_value_c g dp) b items =
            Inr (b', Some (items @ map member_item m)) \<and> reaches b (Suc (length s)) b'))"

lemma roomy_later:
  "roomy b f v \<Longrightarrow> bytes b' = bytes b \<Longrightarrow> offset b \<le> offset b' \<Longrightarrow> depth b' = depth b \<Longrightarrow>
   unfailing (hooks b') \<Longrightarrow> roomy b' f v"
  by (auto simp: roomy_def)

lemma moved_simps [simp]:
  "bytes (moved b n) = bytes b" "offset (moved b n) = offset b + n" "depth (moved b n) = depth b"
  "hooks (moved b n) = hooks b"
  by (simp_all add: moved_def)

lemma reaches_moved: "unfailing (hooks b) \<Longrightarrow> reaches b n (moved b n)"
  by (auto simp: reaches_def moved_def intro!: exI [of _ "hooks b"])

lemma reaches_trans: "reaches b m b1 \<Longrightarrow> reaches b1 n b2 \<Longrightarrow> reaches b (m + n) b2"
  by (auto simp: reaches_def add.assoc)

lemma advance_moved: "advance b = moved b 1"
  by (simp add: advance_def moved_def)

lemma new_item_reaches:
  assumes "unfailing (hooks b)"
  obtains b' where "new_item b = (True, b')" "reaches b 0 b'"
  using allocate_unfailing [OF assms] by (fastforce simp: new_item_def reaches_def)

text \<open>Whitespace that ends at a token.\<close>

lemma skip_reaches:
  assumes "buffer_text b (w @ c # s)" "ws w" "32 < ic c" "unfailing (hooks b)"
  shows "reaches b (length w) (buffer_skip_whitespace b)" "buffer_text (buffer_skip_whitespace b) (c # s)"
  using skip_whitespace_text [OF assms(1-3)] buffer_text_moved [OF assms(1) refl]
    reaches_moved [OF assms(4)]
  by simp_all

lemma reads_word_hd: "buffer_text b (d # ds) \<Longrightarrow> reads_word b (c # w) \<Longrightarrow> c = d"
  by (simp add: reads_word_text)

lemma parse_value_number:
  assumes "buffer_text b (d # ds)" "d = CHR ''-'' \<or> is_digit d"
  shows "parse_value_c (Suc g) dp n b = Inr (parse_number dp n b)"
proof -
  have "CHR ''n'' \<noteq> d" "CHR ''f'' \<noteq> d" "CHR ''t'' \<noteq> d" "d \<noteq> CHR 0x22"
    using assms(2) by (auto simp: is_digit_def)
  then have "\<not> reads_word b ''null''" "\<not> reads_word b ''false''" "\<not> reads_word b ''true''"
    "\<not> looking_at b CHR 0x22"
    using reads_word_hd [OF assms(1)] assms(1) by auto
  with assms buffer_text_Cons [OF assms(1)] show ?thesis by (simp add: parse_value_c.simps)
qed

lemma parse_value_bracket:
  assumes "buffer_text b (d # ds)"
  shows "d = CHR ''['' \<Longrightarrow> parse_value_c (Suc g) dp n b = parse_array g (parse_value_c g dp) n b"
    and "d = CHR ''{'' \<Longrightarrow> parse_value_c (Suc g) dp n b = parse_object g (parse_value_c g dp) n b"
proof -
  assume d: "d = CHR ''[''"
  then have "\<not> reads_word b ''null''" "\<not> reads_word b ''false''" "\<not> reads_word b ''true''"
    using reads_word_hd [OF assms] by auto
  with d assms buffer_text_Cons [OF assms]
  show "parse_value_c (Suc g) dp n b = parse_array g (parse_value_c g dp) n b"
    by (simp add: parse_value_c.simps is_digit_def)
next
  assume d: "d = CHR ''{''"
  then have "\<not> reads_word b ''null''" "\<not> reads_word b ''false''" "\<not> reads_word b ''true''"
    using reads_word_hd [OF assms] by auto
  with d assms buffer_text_Cons [OF assms]
  show "parse_value_c (Suc g) dp n b = parse_object g (parse_value_c g dp) n b"
    by (simp add: parse_value_c.simps is_digit_def)
qed

lemma scalar_done:
  assumes "scalar_text dp' v s"
  shows "value_done dp v s"
  unfolding value_done_def
proof (intro allI impI)
  fix b f n c rest
  assume b: "buffer_text b (s @ c # rest)" "\<not> number_char c" "roomy b f v"
  obtain g where f: "f = Suc g" using b(3) by (cases f) (auto simp: roomy_def)
  have mem: "unfailing (hooks b)" using b(3) by (simp add: roomy_def)
  show "\<exists>b'. parse_value_c f dp n b = Inr (b', Some (item_of n v)) \<and> reaches b (length s) b'"
    using assms
  proof cases
    case null
    then show ?thesis using b(1) reaches_moved [OF mem, of 4]
      by (simp add: f parse_value_c.simps reads_word_text [OF b(1)] moved_def eval_nat_numeral)
  next
    case true
    then show ?thesis using b(1) reaches_moved [OF mem, of 4]
      by (simp add: f parse_value_c.simps reads_word_text [OF b(1)] moved_def eval_nat_numeral)
  next
    case false
    then show ?thesis using b(1) reaches_moved [OF mem, of 5]
      by (simp add: f parse_value_c.simps reads_word_text [OF b(1)] moved_def eval_nat_numeral)
  next
    case (string cps t)
    with b(1) have "buffer_text b (CHR 0x22 # t @ CHR 0x22 # c # rest)" by simp
    with parse_string_text [OF string(3) this mem, of n] string b(1) show ?thesis
      by (auto simp: f parse_value_c.simps reads_word_text [OF b(1)])
  next
    case (number ip fr ex neg)
    note int = number_value_integral [of dp' neg ip fr ex n]
    have "fr = []" "ex = []" "digits_value ip < 2 ^ 64"
      "item_of n v = number_item n (dec_to_double neg (digits_value ip) 0)"
      using int number(4,5) b(3) by (auto simp: roomy_def)
    moreover from this number b(1) have tx: "buffer_text b ((sign_text neg @ ip) @ c # rest)"
      by simp
    moreover obtain d ds where d: "(sign_text neg @ ip) @ c # rest = d # ds"
      "d = CHR ''-'' \<or> is_digit d"
      using number(2) by (cases neg; cases ip) (auto simp: sign_text_def int_text_def digits_def)
    ultimately show ?thesis
      using parse_number_text [OF number(2) _ b(2) tx] number parse_value_number [of b d ds g dp n]
        reaches_moved [OF mem, of "length (sign_text neg @ ip)"]
      by (simp add: f)
  qed
qed

section \<open>Arrays and objects\<close>

lemma not_number_char: "is_ws c \<or> c \<in> set '',]}'' \<Longrightarrow> \<not> number_char c"
  by (auto simp: number_char_def is_ws_def is_digit_def)

lemma punctuation_above: "c \<in> set '',]}:'' \<Longrightarrow> 32 < ic c"
  by auto

lemma json_text_starts:
  "json_text dp v s \<Longrightarrow> \<exists>c t. s = c # t \<and> 32 < ic c \<and> c \<noteq> CHR '']'' \<and> c \<noteq> CHR ''}''"
proof (induction rule: json_text_elements_text_members_text.inducts(1)
    [where ?P2.0 = "\<lambda>_ _. True" and ?P3.0 = "\<lambda>_ _. True"])
  case (scalar v s)
  then show ?case
  proof cases
    case (number ip fr ex neg)
    then show ?thesis
      by (cases neg; cases ip) (auto simp: sign_text_def int_text_def digits_def is_digit_def)
  qed auto
qed auto

text \<open>A value and the whitespace behind it.\<close>

lemma value_then:
  assumes "value_done dp v s" "buffer_text b (s @ w @ c # rest)" "ws w" "c \<in> set '',]}''" "roomy b f v"
  obtains b1 where "parse_value_c f dp n b = Inr (b1, Some (item_of n v))"
    "reaches b (length s + length w) (buffer_skip_whitespace b1)"
    "buffer_text (buffer_skip_whitespace b1) (c # rest)"
proof -
  obtain c' rest' where c': "w @ c # rest = c' # rest'" "\<not> number_char c'"
    using assms(3,4) not_number_char by (cases w) (auto simp: ws_def)
  then obtain b1 where b1: "parse_value_c f dp n b = Inr (b1, Some (item_of n v))" "reaches b (length s) b1"
    using assms(1,2,5) unfolding value_done_def by metis
  have "buffer_text b1 (w @ c # rest)" by (rule buffer_text_reaches [OF assms(2) b1(2)])
  then have "reaches b1 (length w) (buffer_skip_whitespace b1)"
    "buffer_text (buffer_skip_whitespace b1) (c # rest)"
    using skip_reaches [of b1 w c rest] assms(3,4) reachesD(4) [OF b1(2)] by auto
  then show thesis using that b1 reaches_trans by blast
qed

lemma array_step:
  assumes "json_text dp' v s" "value_done dp v s" "ws w1" "ws w2" "c \<in> set '',]''"
    and "buffer_text b (c0 # w1 @ s @ w2 @ c # rest)" "roomy (moved b 1) g v"
  obtains b2 where "reaches b (Suc (length (w1 @ s @ w2))) b2" "buffer_text b2 (c # rest)"
    "array_elements (Suc f) (parse_value_c g dp) b items =
      (if c = CHR '','' then array_elements f (parse_value_c g dp) b2 (items @ [item_of zero_node v])
       else Inr (b2, Some (items @ [item_of zero_node v])))"
proof -
  obtain d t where s: "s = d # t" "32 < ic d" using json_text_starts [OF assms(1)] by blast
  have mem: "unfailing (hooks b)" using assms(7) by (simp add: roomy_def)
  obtain b0 where b0: "new_item b = (True, b0)" "reaches b 0 b0" using mem by (rule new_item_reaches)
  have "reaches b0 1 (advance b0)"
    using reaches_moved reachesD(4) [OF b0(2)] by (simp add: advance_moved)
  then have adv: "reaches b 1 (advance b0)" using reaches_trans [OF b0(2)] by force
  then have tx: "buffer_text (advance b0) (w1 @ d # t @ w2 @ c # rest)"
    using buffer_text_reaches [of b "[c0]" "w1 @ s @ w2 @ c # rest" "advance b0"] assms(6) s(1) by simp
  define b1 where "b1 = buffer_skip_whitespace (advance b0)"
  have "reaches (advance b0) (length w1) b1" "buffer_text b1 (s @ w2 @ c # rest)"
    using skip_reaches [OF tx assms(3) s(2) reachesD(4) [OF adv]] s(1) by (simp_all add: b1_def)
  note b1 = reaches_trans [OF adv this(1)] this(2)
  have "roomy b1 g v"
    using reachesD [OF b1(1)] by (intro roomy_later [OF assms(7)]) auto
  then obtain b2 where b2: "parse_value_c g dp zero_node b1 = Inr (b2, Some (item_of zero_node v))"
    "reaches b1 (length s + length w2) (buffer_skip_whitespace b2)"
    "buffer_text (buffer_skip_whitespace b2) (c # rest)"
    using value_then [OF assms(2) b1(2) assms(4)] assms(5) by auto
  show thesis
  proof
    show "reaches b (Suc (length (w1 @ s @ w2))) (buffer_skip_whitespace b2)"
      using reaches_trans [OF b1(1) b2(2)] by (simp add: ac_simps)
    show "array_elements (Suc f) (parse_value_c g dp) b items =
      (if c = CHR '','' then array_elements f (parse_value_c g dp) (buffer_skip_whitespace b2) (items @ [item_of zero_node v])
       else Inr (buffer_skip_whitespace b2, Some (items @ [item_of zero_node v])))"
      using b0(1) b2 assms(5) by (auto simp: array_elements.simps Let_def simp flip: b1_def)
  qed (rule b2(3))
qed

lemma last_element_done:
  assumes "json_text dp' v s" "value_done dp v s" "ws w1" "ws w2"
  shows "elements_done dp [v] (w1 @ s @ w2)"
  unfolding elements_done_def
proof (intro allI impI)
  fix b f g c rest items
  assume b: "buffer_text b (c # (w1 @ s @ w2) @ CHR '']'' # rest)" "length (bytes b) - offset b \<le> f"
    "\<forall>x \<in> set [v]. roomy (moved b 1) g x"
  obtain f' where f: "f = Suc f'" using b(2) buffer_text_length [OF b(1)] by (cases f) auto
  obtain b2 where "reaches b (Suc (length (w1 @ s @ w2))) b2"
    "array_elements (Suc f') (parse_value_c g dp) b items = Inr (b2, Some (items @ [item_of zero_node v]))"
    using array_step [OF assms, of "CHR '']''" b c rest g f' items] b by auto
  then show "\<exists>b'. array_elements f (parse_value_c g dp) b items =
      Inr (b', Some (items @ map (item_of zero_node) [v])) \<and> reaches b (Suc (length (w1 @ s @ w2))) b'"
    by (simp add: f)
qed

lemma element_done:
  assumes "json_text dp' v s" "value_done dp v s" "ws w1" "ws w2" "elements_done dp xs s'"
  shows "elements_done dp (v # xs) (w1 @ s @ w2 @ CHR '','' # s')"
  unfolding elements_done_def
proof (intro allI impI)
  fix b f g c rest items
  assume b: "buffer_text b (c # (w1 @ s @ w2 @ CHR '','' # s') @ CHR '']'' # rest)"
    "length (bytes b) - offset b \<le> f" "\<forall>x \<in> set (v # xs). roomy (moved b 1) g x"
  obtain f' where f: "f = Suc f'" using b(2) buffer_text_length [OF b(1)] by (cases f) auto
  obtain b2 where b2: "reaches b (Suc (length (w1 @ s @ w2))) b2"
    "buffer_text b2 (CHR '','' # s' @ CHR '']'' # rest)"
    "array_elements (Suc f') (parse_value_c g dp) b items =
      array_elements f' (parse_value_c g dp) b2 (items @ [item_of zero_node v])"
    using array_step [OF assms(1-4), of "CHR '',''" b c "s' @ CHR '']'' # rest" g f' items] b by auto
  note r = reachesD [OF b2(1)]
  have "length (bytes b2) - offset b2 \<le> f'" using r(1,2) b(2) f by simp
  moreover have "\<forall>x \<in> set xs. roomy (moved b2 1) g x"
    using b(3) r by (auto intro: roomy_later)
  ultimately obtain b3 where "array_elements f' (parse_value_c g dp) b2 (items @ [item_of zero_node v]) =
      Inr (b3, Some ((items @ [item_of zero_node v]) @ map (item_of zero_node) xs))"
    "reaches b2 (Suc (length s')) b3"
    using assms(5) b2(2) unfolding elements_done_def by blast
  then show "\<exists>b'. array_elements f (parse_value_c g dp) b items =
      Inr (b', Some (items @ map (item_of zero_node) (v # xs))) \<and>
      reaches b (Suc (length (w1 @ s @ w2 @ CHR '','' # s'))) b'"
    using b2(3) reaches_trans [OF b2(1)] by (fastforce simp: f ac_simps)
qed

text \<open>The same for a member.\<close>

lemma member_step:
  assumes "json_text dp' v s" "value_done dp v s" "string_text cps k"
    and "ws w1" "ws w2" "ws w3" "ws w4" "c \<in> set '',}''"
    and "buffer_text b (c0 # w1 @ CHR 0x22 # k @ CHR 0x22 # w2 @ CHR '':'' # w3 @ s @ w4 @ c # rest)"
    and "roomy (moved b 1) g v"
  obtains b2
  where "reaches b (Suc (length (w1 @ CHR 0x22 # k @ CHR 0x22 # w2 @ CHR '':'' # w3 @ s @ w4))) b2"
    "buffer_text b2 (c # rest)"
    "object_elements (Suc f) (parse_value_c g dp) b items =
      (if c = CHR '','' then
         object_elements f (parse_value_c g dp) b2 (items @ [member_item (utf8_text cps, v)])
       else Inr (b2, Some (items @ [member_item (utf8_text cps, v)])))"
proof -
  obtain d t where s: "s = d # t" "32 < ic d" using json_text_starts [OF assms(1)] by blast
  have mem: "unfailing (hooks b)" using assms(10) by (simp add: roomy_def)
  let ?after_key = "w2 @ CHR '':'' # w3 @ s @ w4 @ c # rest"
  obtain b0 where b0: "new_item b = (True, b0)" "reaches b 0 b0" using mem by (rule new_item_reaches)
  have "reaches b0 1 (advance b0)"
    using reaches_moved reachesD(4) [OF b0(2)] by (simp add: advance_moved)
  then have adv: "reaches b 1 (advance b0)" using reaches_trans [OF b0(2)] by force
  then have tx: "buffer_text (advance b0) (w1 @ CHR 0x22 # k @ CHR 0x22 # ?after_key)"
    using buffer_text_reaches [of b "[c0]" _ "advance b0"] assms(9) by simp
  define b1 where "b1 = buffer_skip_whitespace (advance b0)"
  have b1: "reaches (advance b0) (length w1) b1" "buffer_text b1 (CHR 0x22 # k @ CHR 0x22 # ?after_key)"
    using skip_reaches [OF tx assms(4) _ reachesD(4) [OF adv]] by (simp_all add: b1_def)
  obtain b2 where b2: "parse_string zero_node b1 = Inr (b2, Some (Item
      (zero_node\<lparr>ctype := cJSON_String, valuestring := Some (utf8_text cps)\<rparr>) []))"
    "reaches b1 (length k + 2) b2"
    using parse_string_text [OF assms(3) b1(2) reachesD(4) [OF b1(1)]] by blast
  have tx2: "buffer_text b2 ?after_key"
    using buffer_text_reaches [of b1 "CHR 0x22 # k @ [CHR 0x22]" ?after_key b2] b1(2) b2(2) by simp
  define b3 where "b3 = buffer_skip_whitespace b2"
  have b3: "reaches b2 (length w2) b3" "buffer_text b3 (CHR '':'' # w3 @ s @ w4 @ c # rest)"
    using skip_reaches [OF tx2 assms(5) _ reachesD(4) [OF b2(2)]] by (simp_all add: b3_def)
  have adv3: "reaches b3 1 (advance b3)"
    using reaches_moved reachesD(4) [OF b3(1)] by (simp add: advance_moved)
  have tx3: "buffer_text (advance b3) (w3 @ d # t @ w4 @ c # rest)"
    using buffer_text_reaches [of b3 "[CHR '':'']" _ "advance b3"] b3(2) adv3 s(1) by simp
  define b4 where "b4 = buffer_skip_whitespace (advance b3)"
  have b4: "reaches (advance b3) (length w3) b4" "buffer_text b4 (s @ w4 @ c # rest)"
    using skip_reaches [OF tx3 assms(6) s(2) reachesD(4) [OF adv3]] s(1) by (simp_all add: b4_def)
  note upto = reaches_trans [OF reaches_trans [OF reaches_trans [OF reaches_trans
    [OF reaches_trans [OF adv b1(1)] b2(2)] b3(1)] adv3] b4(1)]
  define n where "n = zero_node\<lparr>ctype := cJSON_String, key := Some (utf8_text cps)\<rparr>"
  have "roomy b4 g v"
    using reachesD [OF upto] by (intro roomy_later [OF assms(10)]) auto
  then obtain b5 where b5: "parse_value_c g dp n b4 = Inr (b5, Some (item_of n v))"
    "reaches b4 (length s + length w4) (buffer_skip_whitespace b5)"
    "buffer_text (buffer_skip_whitespace b5) (c # rest)"
    using value_then [OF assms(2) b4(2) assms(7)] assms(8) by auto
  have node: "(zero_node\<lparr>ctype := cJSON_String, valuestring := Some (utf8_text cps)\<rparr>)
      \<lparr>key := Some (utf8_text cps), valuestring := None\<rparr> = n"
    by (simp add: n_def zero_node_def)
  show thesis
  proof
    show "reaches b (Suc (length (w1 @ CHR 0x22 # k @ CHR 0x22 # w2 @ CHR '':'' # w3 @ s @ w4)))
        (buffer_skip_whitespace b5)"
      using reaches_trans [OF upto b5(2)] by (simp add: ac_simps)
    show "object_elements (Suc f) (parse_value_c g dp) b items =
      (if c = CHR '','' then
         object_elements f (parse_value_c g dp) (buffer_skip_whitespace b5) (items @ [member_item (utf8_text cps, v)])
       else Inr (buffer_skip_whitespace b5, Some (items @ [member_item (utf8_text cps, v)])))"
      using b0(1) b2(1) b3(2) b5 assms(8) node
      by (auto simp: object_elements.simps Let_def member_item_def simp flip: b1_def b3_def b4_def n_def)
  qed (rule b5(3))
qed

lemma last_member_done:
  assumes "json_text dp' v s" "value_done dp v s" "string_text cps k" "ws w1" "ws w2" "ws w3" "ws w4"
  shows "members_done dp [(utf8_text cps, v)]
    (w1 @ CHR 0x22 # k @ CHR 0x22 # w2 @ CHR '':'' # w3 @ s @ w4)" (is "members_done dp ?m ?t")
  unfolding members_done_def
proof (intro allI impI)
  fix b f g c rest items
  assume b: "buffer_text b (c # ?t @ CHR ''}'' # rest)" "length (bytes b) - offset b \<le> f"
    "\<forall>kv \<in> set ?m. roomy (moved b 1) g (snd kv)"
  obtain f' where f: "f = Suc f'" using b(2) buffer_text_length [OF b(1)] by (cases f) auto
  obtain b2 where "reaches b (Suc (length ?t)) b2"
    "object_elements (Suc f') (parse_value_c g dp) b items =
      Inr (b2, Some (items @ [member_item (utf8_text cps, v)]))"
    using member_step [OF assms, of "CHR ''}''" b c rest g f' items] b by auto
  then show "\<exists>b'. object_elements f (parse_value_c g dp) b items =
      Inr (b', Some (items @ map member_item ?m)) \<and> reaches b (Suc (length ?t)) b'"
    by (simp add: f)
qed

lemma member_done:
  assumes "json_text dp' v s" "value_done dp v s" "string_text cps k" "ws w1" "ws w2" "ws w3" "ws w4"
    and "members_done dp m s'"
  shows "members_done dp ((utf8_text cps, v) # m)
    (w1 @ CHR 0x22 # k @ CHR 0x22 # w2 @ CHR '':'' # w3 @ s @ w4 @ CHR '','' # s')"
    (is "members_done dp ?m ?t")
  unfolding members_done_def
proof (intro allI impI)
  fix b f g c rest items
  assume b: "buffer_text b (c # ?t @ CHR ''}'' # rest)" "length (bytes b) - offset b \<le> f"
    "\<forall>kv \<in> set ?m. roomy (moved b 1) g (snd kv)"
  obtain f' where f: "f = Suc f'" using b(2) buffer_text_length [OF b(1)] by (cases f) auto
  let ?t1 = "w1 @ CHR 0x22 # k @ CHR 0x22 # w2 @ CHR '':'' # w3 @ s @ w4"
  let ?items = "items @ [member_item (utf8_text cps, v)]"
  obtain b2 where b2: "reaches b (Suc (length ?t1)) b2"
    "buffer_text b2 (CHR '','' # s' @ CHR ''}'' # rest)"
    "object_elements (Suc f') (parse_value_c g dp) b items =
      object_elements f' (parse_value_c g dp) b2 ?items"
    using member_step [OF assms(1-7), of "CHR '',''" b c "s' @ CHR ''}'' # rest" g f' items] b by auto
  note r = reachesD [OF b2(1)]
  have "length (bytes b2) - offset b2 \<le> f'" using r(1,2) b(2) f by simp
  moreover have "\<forall>kv \<in> set m. roomy (moved b2 1) g (snd kv)"
    using b(3) r by (auto intro: roomy_later)
  ultimately obtain b3 where "object_elements f' (parse_value_c g dp) b2 ?items =
      Inr (b3, Some (?items @ map member_item m))" "reaches b2 (Suc (length s')) b3"
    using assms(8) b2(2) unfolding members_done_def by blast
  then show "\<exists>b'. object_elements f (parse_value_c g dp) b items =
      Inr (b', Some (items @ map member_item ?m)) \<and> reaches b (Suc (length ?t)) b'"
    using b2(3) reaches_trans [OF b2(1)] by (fastforce simp: f ac_simps)
qed

text \<open>The parsers of arrays and objects enter the loops behind the leading whitespace; the loops skip it
  themselves when they are entered before it.\<close>

lemma loops_skip:
  assumes "buffer_text (advance b) (w @ c # s)" "ws w" "32 < ic c" "unfailing (hooks b)"
  shows "array_elements (Suc f) pv (moved b (length w)) items = array_elements (Suc f) pv b items"
    and "object_elements (Suc f) pv (moved b (length w)) items = object_elements (Suc f) pv b items"
proof -
  obtain b0 where b0: "new_item b = (True, b0)" using assms(4) by (rule new_item_reaches)
  then have new: "new_item (moved b (length w)) = (True, moved b0 (length w))"
    by (auto simp: new_item_def moved_def split: prod.splits)
  have tx: "buffer_text (advance b0) (w @ c # s)"
    using assms(1) new_item_keeps [OF b0] by (simp add: buffer_text_def)
  have "advance (moved b0 (length w)) = moved (advance b0) (length w)"
    by (simp add: advance_def moved_def)
  moreover have "buffer_skip_whitespace (moved (advance b0) (length w)) = moved (advance b0) (length w)"
    by (rule skip_whitespace_none [OF buffer_text_moved [OF tx refl] assms(3)])
  ultimately have "buffer_skip_whitespace (advance (moved b0 (length w))) =
      buffer_skip_whitespace (advance b0)"
    using skip_whitespace_text [OF tx assms(2,3)] by simp
  then show "array_elements (Suc f) pv (moved b (length w)) items = array_elements (Suc f) pv b items"
    and "object_elements (Suc f) pv (moved b (length w)) items = object_elements (Suc f) pv b items"
    by (simp_all add: array_elements.simps object_elements.simps b0 new)
qed

lemma elements_text_starts:
  assumes "elements_text dp xs s"
  shows "\<exists>w c t. s = w @ c # t \<and> ws w \<and> 32 < ic c \<and> c \<noteq> CHR '']''"
  using assms
proof (cases rule: elements_text.cases)
  case last_element
  then show ?thesis by (fastforce dest!: json_text_starts)
next
  case element
  then show ?thesis by (fastforce dest!: json_text_starts)
qed

lemma members_text_starts:
  "members_text dp m s \<Longrightarrow> \<exists>w t. s = w @ CHR 0x22 # t \<and> ws w"
  by (cases rule: members_text.cases) blast+

text \<open>The buffer inside a bracket, and the promise for the elements there.\<close>

lemma deeper:
  assumes "roomy b (Suc g) v" "offset b < length (bytes b)"
  shows "v = Jarray xs \<Longrightarrow> \<forall>x \<in> set xs. roomy (moved (b\<lparr>depth := Suc (depth b)\<rparr>) 1) g x"
    and "v = Jobject m \<Longrightarrow> \<forall>kv \<in> set m. roomy (moved (b\<lparr>depth := Suc (depth b)\<rparr>) 1) g (snd kv)"
    and "nesting v \<noteq> 0 \<Longrightarrow> depth b < CJSON_NESTING_LIMIT"
proof -
  have lim: "depth b + nesting v \<le> CJSON_NESTING_LIMIT" using assms(1) by (simp add: roomy_def)
  then show "nesting v \<noteq> 0 \<Longrightarrow> depth b < CJSON_NESTING_LIMIT" by simp
  have other: "length (bytes b) - (offset b + 1) < g" "unfailing (hooks b)"
    using assms by (auto simp: roomy_def)
  show "\<forall>x \<in> set xs. roomy (moved (b\<lparr>depth := Suc (depth b)\<rparr>) 1) g x" if v: "v = Jarray xs"
  proof -
    have "nesting (Jarray xs) \<le> Suc (CJSON_NESTING_LIMIT - depth b - 1)"
      using lim unfolding v by arith
    then have "\<forall>x \<in> set xs. nesting x \<le> CJSON_NESTING_LIMIT - depth b - 1"
      by (simp only: nesting_array)
    moreover have "1 \<le> CJSON_NESTING_LIMIT - depth b" using lim v by simp
    ultimately show ?thesis using other assms(1) v by (fastforce simp: roomy_def)
  qed
  show "\<forall>kv \<in> set m. roomy (moved (b\<lparr>depth := Suc (depth b)\<rparr>) 1) g (snd kv)" if v: "v = Jobject m"
  proof -
    have "nesting (Jobject m) \<le> Suc (CJSON_NESTING_LIMIT - depth b - 1)"
      using lim unfolding v by arith
    then have "\<forall>kv \<in> set m. nesting (snd kv) \<le> CJSON_NESTING_LIMIT - depth b - 1"
      by (simp only: nesting_object)
    moreover have "1 \<le> CJSON_NESTING_LIMIT - depth b" using lim v by simp
    ultimately show ?thesis using other assms(1) v by (fastforce simp: roomy_def)
  qed
qed

lemma close_item_reaches:
  assumes "reaches (b\<lparr>depth := Suc (depth b)\<rparr>) n b3"
  shows "\<exists>b'. close_item t item (b3, Some items) = (b', Some (Item (item\<lparr>ctype := t\<rparr>) items)) \<and>
    reaches b (Suc n) b'"
  using assms by (auto simp: reaches_def close_item_def intro!: exI [of _ "hooks b3"])

lemma roomy_fuel:
  assumes "buffer_text b (c # s)" "roomy b f v"
  obtains g where "f = Suc g" "offset b < length (bytes b)" "length (bytes b) - offset b \<le> g" "g \<noteq> 0"
  using assms buffer_text_length [OF assms(1)] by (cases f) (auto simp: roomy_def)

lemma array_done:
  assumes "elements_text dp' xs s" "elements_done dp xs s"
  shows "value_done dp (Jarray xs) (CHR ''['' # s @ '']'')"
  unfolding value_done_def
proof (intro allI impI)
  fix b f n c rest
  assume b: "buffer_text b ((CHR ''['' # s @ '']'') @ c # rest)" "roomy b f (Jarray xs)"
  then have tx: "buffer_text b (CHR ''['' # s @ CHR '']'' # c # rest)" by simp
  obtain g where g: "f = Suc g" "offset b < length (bytes b)" "length (bytes b) - offset b \<le> g" "g \<noteq> 0"
    using tx b(2) by (rule roomy_fuel)
  then obtain g' where g': "g = Suc g'" by (cases g) auto
  obtain w d t where s: "s = w @ d # t" "ws w" "32 < ic d" "d \<noteq> CHR '']''"
    using elements_text_starts [OF assms(1)] by blast
  define b1 where "b1 = b\<lparr>depth := Suc (depth b)\<rparr>"
  have tx1: "buffer_text b1 (CHR ''['' # s @ CHR '']'' # c # rest)"
    using tx by (simp add: b1_def buffer_text_def)
  have adv: "buffer_text (advance b1) (w @ d # t @ CHR '']'' # c # rest)"
    using buffer_text_moved [of b1 "[CHR ''['']" _ 1] tx1 s(1) by (simp add: advance_moved)
  define b2 where "b2 = buffer_skip_whitespace (advance b1)"
  have b2: "b2 = moved (advance b1) (length w)" "buffer_text b2 (d # t @ CHR '']'' # c # rest)"
    using skip_whitespace_text [OF adv s(2,3)] buffer_text_moved [OF adv refl] by (simp_all add: b2_def)
  then have stepped: "b2\<lparr>offset := offset b2 - 1\<rparr> = moved b1 (length w)"
    by (simp add: moved_def advance_def)
  have fuel: "length (bytes b1) - offset b1 \<le> g" using g by (simp add: b1_def)
  have mem: "unfailing (hooks b1)" using b(2) by (simp add: b1_def roomy_def)
  have "\<forall>x \<in> set xs. roomy (moved b1 1) g x"
    using deeper(1) [OF _ g(2)] b(2) g(1) by (auto simp: b1_def)
  then obtain b3 where b3: "array_elements g (parse_value_c g dp) b1 [] =
      Inr (b3, Some ([] @ map (item_of zero_node) xs))" "reaches b1 (Suc (length s)) b3"
    using assms(2) tx1 fuel unfolding elements_done_def by blast
  obtain b' where b': "close_item cJSON_Array n (b3, Some (map (item_of zero_node) xs)) =
      (b', Some (item_of n (Jarray xs)))" "reaches b (Suc (Suc (length s))) b'"
    using close_item_reaches [OF b3(2) [unfolded b1_def]] by fastforce
  have "\<not> CJSON_NESTING_LIMIT \<le> depth b"
    using deeper(3) [OF _ g(2)] b(2) g(1) by (simp add: not_le)
  moreover have "array_elements g (parse_value_c g dp) (moved b1 (length w)) [] =
      Inr (b3, Some (map (item_of zero_node) xs))"
    using loops_skip(1) [OF adv s(2,3) mem] b3(1) g' by simp
  ultimately have "parse_array g (parse_value_c g dp) n b = Inr (b', Some (item_of n (Jarray xs)))"
    using buffer_text_Cons [OF tx1] buffer_text_Cons [OF b2(2)] b2(2) s(4) stepped b'(1)
    by (simp add: parse_array_def byte_at_def Let_def flip: b1_def b2_def)
  with parse_value_bracket(1) [OF tx refl] b'(2)
  show "\<exists>b'. parse_value_c f dp n b = Inr (b', Some (item_of n (Jarray xs))) \<and>
      reaches b (length (CHR ''['' # s @ '']'')) b'"
    by (simp add: g(1))
qed

lemma object_done:
  assumes "members_text dp' m s" "members_done dp m s"
  shows "value_done dp (Jobject m) (CHR ''{'' # s @ ''}'')"
  unfolding value_done_def
proof (intro allI impI)
  fix b f n c rest
  assume b: "buffer_text b ((CHR ''{'' # s @ ''}'') @ c # rest)" "roomy b f (Jobject m)"
  then have tx: "buffer_text b (CHR ''{'' # s @ CHR ''}'' # c # rest)" by simp
  obtain g where g: "f = Suc g" "offset b < length (bytes b)" "length (bytes b) - offset b \<le> g" "g \<noteq> 0"
    using tx b(2) by (rule roomy_fuel)
  then obtain g' where g': "g = Suc g'" by (cases g) auto
  obtain w t where s: "s = w @ CHR 0x22 # t" "ws w"
    using members_text_starts [OF assms(1)] by blast
  define b1 where "b1 = b\<lparr>depth := Suc (depth b)\<rparr>"
  have tx1: "buffer_text b1 (CHR ''{'' # s @ CHR ''}'' # c # rest)"
    using tx by (simp add: b1_def buffer_text_def)
  have adv: "buffer_text (advance b1) (w @ CHR 0x22 # t @ CHR ''}'' # c # rest)"
    using buffer_text_moved [of b1 "[CHR ''{'']" _ 1] tx1 s(1) by (simp add: advance_moved)
  define b2 where "b2 = buffer_skip_whitespace (advance b1)"
  have b2: "b2 = moved (advance b1) (length w)" "buffer_text b2 (CHR 0x22 # t @ CHR ''}'' # c # rest)"
    using skip_whitespace_text [OF adv s(2)] buffer_text_moved [OF adv refl] by (simp_all add: b2_def)
  then have stepped: "b2\<lparr>offset := offset b2 - 1\<rparr> = moved b1 (length w)"
    by (simp add: moved_def advance_def)
  have fuel: "length (bytes b1) - offset b1 \<le> g" using g by (simp add: b1_def)
  have mem: "unfailing (hooks b1)" using b(2) by (simp add: b1_def roomy_def)
  have "\<forall>kv \<in> set m. roomy (moved b1 1) g (snd kv)"
    using deeper(2) [OF _ g(2)] b(2) g(1) by (auto simp: b1_def)
  then obtain b3 where b3: "object_elements g (parse_value_c g dp) b1 [] =
      Inr (b3, Some ([] @ map member_item m))" "reaches b1 (Suc (length s)) b3"
    using assms(2) tx1 fuel unfolding members_done_def by blast
  have item: "Item (n\<lparr>ctype := cJSON_Object\<rparr>) (map member_item m) = item_of n (Jobject m)"
    by (simp add: member_item_def [abs_def])
  obtain b' where b': "close_item cJSON_Object n (b3, Some (map member_item m)) =
      (b', Some (item_of n (Jobject m)))" "reaches b (Suc (Suc (length s))) b'"
    using close_item_reaches [OF b3(2) [unfolded b1_def], of cJSON_Object n "map member_item m"]
    unfolding item by blast
  have "\<not> CJSON_NESTING_LIMIT \<le> depth b"
    using deeper(3) [OF _ g(2)] b(2) g(1) by (simp add: not_le)
  moreover have "object_elements g (parse_value_c g dp) (moved b1 (length w)) [] =
      Inr (b3, Some (map member_item m))"
    using loops_skip(2) [OF adv s(2) _ mem] b3(1) g' by simp
  ultimately have "parse_object g (parse_value_c g dp) n b = Inr (b', Some (item_of n (Jobject m)))"
    using tx1 buffer_text_Cons [OF b2(2)] b2(2) stepped b'(1)
    by (simp add: parse_object_def Let_def del: item_of.simps flip: b1_def b2_def)
  with parse_value_bracket(2) [OF tx refl] b'(2)
  show "\<exists>b'. parse_value_c f dp n b = Inr (b', Some (item_of n (Jobject m))) \<and>
      reaches b (length (CHR ''{'' # s @ ''}'')) b'"
    by (simp add: g(1))
qed

lemma empty_done:
  assumes "ws w"
  shows "value_done dp (Jarray []) (CHR ''['' # w @ '']'')"
    and "value_done dp (Jobject []) (CHR ''{'' # w @ ''}'')"
proof -
  have start: "\<exists>g b1 b'. f = Suc g \<and> b1 = b\<lparr>depth := Suc (depth b)\<rparr> \<and> \<not> CJSON_NESTING_LIMIT \<le> depth b \<and>
      buffer_text b1 (o1 # w @ o2 # c # rest) \<and>
      buffer_text (buffer_skip_whitespace (advance b1)) (o2 # c # rest) \<and>
      close_item t n (buffer_skip_whitespace (advance b1), Some []) = (b', Some (Item (n\<lparr>ctype := t\<rparr>) [])) \<and>
      reaches b (Suc (Suc (length w))) b'"
    if b: "buffer_text b ((o1 # w @ [o2]) @ c # rest)" "roomy b f v" "nesting v \<noteq> 0" "32 < ic o2"
    for b f n c rest o1 o2 t v
  proof -
    from b(1) have tx: "buffer_text b (o1 # w @ o2 # c # rest)" by simp
    obtain g where g: "f = Suc g" "offset b < length (bytes b)" using tx b(2) by (rule roomy_fuel)
    define b1 where "b1 = b\<lparr>depth := Suc (depth b)\<rparr>"
    have tx1: "buffer_text b1 (o1 # w @ o2 # c # rest)" using tx by (simp add: b1_def buffer_text_def)
    have adv: "buffer_text (advance b1) (w @ o2 # c # rest)"
      using buffer_text_moved [of b1 "[o1]" _ 1] tx1 by (simp add: advance_moved)
    have "reaches b1 1 (advance b1)"
      using reaches_moved [of b1 1] b(2) by (simp add: advance_moved b1_def roomy_def)
    then have "reaches b1 (1 + length w) (buffer_skip_whitespace (advance b1))"
      using skip_reaches(1) [OF adv assms b(4)] reachesD(4) reaches_trans by blast
    from close_item_reaches [OF this [unfolded b1_def]]
    obtain b' where "close_item t n (buffer_skip_whitespace (advance b1), Some []) =
        (b', Some (Item (n\<lparr>ctype := t\<rparr>) []))" "reaches b (Suc (1 + length w)) b'"
      unfolding b1_def by blast
    moreover have "\<not> CJSON_NESTING_LIMIT \<le> depth b"
      using deeper(3) [OF _ g(2)] b(2,3) g(1) by (simp add: not_le)
    ultimately show ?thesis
      using g(1) tx1 skip_reaches(2) [OF adv assms b(4)] b(2)
      by (auto simp: b1_def roomy_def advance_def)
  qed
  show "value_done dp (Jarray []) (CHR ''['' # w @ '']'')"
    unfolding value_done_def
  proof (intro allI impI)
    fix b f n c rest
    assume b: "buffer_text b ((CHR ''['' # w @ '']'') @ c # rest)" "roomy b f (Jarray [])"
    obtain g b1 b' where s: "f = Suc g" "b1 = b\<lparr>depth := Suc (depth b)\<rparr>" "\<not> CJSON_NESTING_LIMIT \<le> depth b"
      "buffer_text b1 (CHR ''['' # w @ CHR '']'' # c # rest)"
      "buffer_text (buffer_skip_whitespace (advance b1)) (CHR '']'' # c # rest)"
      "close_item cJSON_Array n (buffer_skip_whitespace (advance b1), Some []) =
        (b', Some (Item (n\<lparr>ctype := cJSON_Array\<rparr>) []))" "reaches b (Suc (Suc (length w))) b'"
      using start [OF b, of cJSON_Array n] by auto
    have "parse_array g (parse_value_c g dp) n b = Inr (b', Some (Item (n\<lparr>ctype := cJSON_Array\<rparr>) []))"
      using s(3,5,6) buffer_text_Cons [OF s(4)]
      by (simp add: parse_array_def byte_at_def Let_def flip: s(2))
    moreover have "buffer_text b (CHR ''['' # w @ CHR '']'' # c # rest)" using b(1) by simp
    ultimately show "\<exists>b'. parse_value_c f dp n b = Inr (b', Some (item_of n (Jarray []))) \<and>
        reaches b (length (CHR ''['' # w @ '']'')) b'"
      using parse_value_bracket(1) [of b _ _ g dp n] s(1,7) by simp
  qed
  show "value_done dp (Jobject []) (CHR ''{'' # w @ ''}'')"
    unfolding value_done_def
  proof (intro allI impI)
    fix b f n c rest
    assume b: "buffer_text b ((CHR ''{'' # w @ ''}'') @ c # rest)" "roomy b f (Jobject [])"
    obtain g b1 b' where s: "f = Suc g" "b1 = b\<lparr>depth := Suc (depth b)\<rparr>" "\<not> CJSON_NESTING_LIMIT \<le> depth b"
      "buffer_text b1 (CHR ''{'' # w @ CHR ''}'' # c # rest)"
      "buffer_text (buffer_skip_whitespace (advance b1)) (CHR ''}'' # c # rest)"
      "close_item cJSON_Object n (buffer_skip_whitespace (advance b1), Some []) =
        (b', Some (Item (n\<lparr>ctype := cJSON_Object\<rparr>) []))" "reaches b (Suc (Suc (length w))) b'"
      using start [OF b, of cJSON_Object n] by auto
    have "parse_object g (parse_value_c g dp) n b = Inr (b', Some (Item (n\<lparr>ctype := cJSON_Object\<rparr>) []))"
      using s(3-6) by (simp add: parse_object_def Let_def flip: s(2))
    moreover have "buffer_text b (CHR ''{'' # w @ CHR ''}'' # c # rest)" using b(1) by simp
    ultimately show "\<exists>b'. parse_value_c f dp n b = Inr (b', Some (item_of n (Jobject []))) \<and>
        reaches b (length (CHR ''{'' # w @ ''}'')) b'"
      using parse_value_bracket(2) [of b _ _ g dp n] s(1,7) by simp
  qed
qed

lemma text_done:
  "json_text dp' v s \<Longrightarrow> value_done dp v s"
  "elements_text dp' xs s \<Longrightarrow> elements_done dp xs s"
  "members_text dp' m s \<Longrightarrow> members_done dp m s"
proof (induction rule: json_text_elements_text_members_text.inducts)
  case (last_element w1 v s w2)
  then show ?case using last_element_done by blast
next
  case (element w1 v s w2 xs s')
  then show ?case using element_done by blast
next
  case (last_member w1 cps k w2 w3 v s w4)
  then show ?case using last_member_done by blast
next
  case (member w1 cps k w2 w3 v s w4 m s')
  then show ?case using member_done by blast
qed (simp_all add: scalar_done empty_done array_done object_done)

section \<open>Whole texts\<close>

lemma c_str_append_nul: "no_nul s \<Longrightarrow> c_str (s @ CHR 0x00 # t) = s"
  unfolding c_str_def no_nul_def list_all_iff by (subst takeWhile_append2) force+

lemma c_str_text:
  assumes "no_nul s" "ends_text t"
  shows "\<exists>w. c_str (s @ t) = s @ w \<and> ws w"
proof -
  from assms(2) obtain w rest where "ws w" "t = w \<or> t = w @ CHR 0x00 # rest"
    by (auto simp: ends_text_def) (metis append.right_neutral list.exhaust_sel)
  then show ?thesis
    using c_str_no_nul [of "s @ w"] c_str_append_nul [of "s @ w" rest] assms(1) no_nul_ws [of w]
    by auto
qed

text \<open>The start of the buffer, with or without a byte order mark.\<close>

lemma skip_bom_text:
  assumes "bom = [] \<or> bom = byte_order_mark" "ws w" "s = d # s'" "32 < ic d" "ic d < 128"
    and "bytes b = bom @ w @ s @ c # rest" "offset b = 0"
  shows "buffer_skip_whitespace (skip_utf8_bom b) = moved b (length bom + length w)"
proof -
  have "skip_utf8_bom b = moved b (length bom)"
  proof (cases "bom = []")
    case True
    have "\<exists>e u. bytes b = e # u \<and> e \<noteq> CHR 0xEF"
      using assms(2-6) True by (cases w) (auto simp: ws_def is_ws_def)
    with assms(7) True show ?thesis
      by (auto simp: skip_utf8_bom_def moved_def)
  next
    case False
    with assms(1,3,6,7) show ?thesis
      by (auto simp: skip_utf8_bom_def moved_def can_access_at_index_def byte_order_mark_def)
  qed
  moreover have "buffer_text (moved b (length bom)) (w @ d # s' @ c # rest)"
    using assms(3,6,7) by (simp add: buffer_text_def)
  ultimately show ?thesis
    using skip_whitespace_text [of "moved b (length bom)" w d "s' @ c # rest"] assms(2,4)
    by (simp add: moved_def)
qed

lemma json_text_starts_ascii: "json_text dp v s \<Longrightarrow> \<exists>c t. s = c # t \<and> 32 < ic c \<and> ic c < 128"
proof (induction rule: json_text_elements_text_members_text.inducts(1)
    [where ?P2.0 = "\<lambda>_ _. True" and ?P3.0 = "\<lambda>_ _. True"])
  case (scalar v s)
  then show ?case
  proof cases
    case (number ip fr ex neg)
    then show ?thesis
      by (cases neg; cases ip) (auto simp: sign_text_def int_text_def digits_def is_digit_def)
  qed auto
qed auto

lemma ParseWithLengthOpts_text:
  assumes "json_text dp' v s" "bom = [] \<or> bom = byte_order_mark" "ws w"
    and "\<not> number_char c" "integral v" "nesting v \<le> CJSON_NESTING_LIMIT" "unfailing h"
  shows "\<exists>h'. cJSON_ParseWithLengthOpts dp h (bom @ w @ s @ c # rest) False =
    Inr \<lparr>parsed = Some (item_of zero_node v), parse_end = length (bom @ w @ s), error_position = None,
         hooks_after = h'\<rparr> \<and> unfailing h'"
proof -
  let ?bs = "bom @ w @ s @ c # rest"
  obtain h1 where h1: "allocate h = (True, h1)" "unfailing h1" using allocate_unfailing [OF assms(7)] by blast
  obtain d t where d: "s = d # t" "32 < ic d" "ic d < 128" using json_text_starts_ascii [OF assms(1)] by blast
  define b where "b = \<lparr>bytes = ?bs, offset = 0, depth = 0, hooks = h1\<rparr>"
  define b0 where "b0 = moved b (length bom + length w)"
  have b0: "buffer_skip_whitespace (skip_utf8_bom b) = b0" "buffer_text b0 (s @ c # rest)"
    using skip_bom_text [OF assms(2,3) d, of b c rest] by (simp_all add: b_def b0_def buffer_text_def)
  have "roomy b0 (length ?bs + 1) v"
    using assms(5,6) h1(2) by (simp add: roomy_def b0_def b_def)
  then obtain b' where b': "parse_value_c (length ?bs + 1) dp zero_node b0 =
      Inr (b', Some (item_of zero_node v))" "reaches b0 (length s) b'"
    using text_done(1) [OF assms(1)] b0(2) assms(4) unfolding value_done_def by blast
  then show ?thesis
    using h1(1) b0(1) d(1)
    by (auto simp: cJSON_ParseWithLengthOpts_def reaches_def b0_def b_def Let_def)
qed

lemma no_nul_not_number: "\<not> number_char (CHR 0x00)"
  by (simp add: number_char_def is_digit_def)

lemma cJSON_Parse_text:
  assumes "json_text dp' v s" "bom = [] \<or> bom = byte_order_mark" "ws w"
    and "ends_text t" "integral v" "nesting v \<le> CJSON_NESTING_LIMIT" "unfailing h"
  shows "\<exists>h'. cJSON_Parse dp h (bom @ w @ s @ t) =
    Inr \<lparr>parsed = Some (item_of zero_node v), parse_end = length (bom @ w @ s), error_position = None,
         hooks_after = h'\<rparr> \<and> unfailing h'"
proof -
  have "no_nul (bom @ w @ s)"
    using assms(2) no_nul_ws [OF assms(3)] no_nul_json_text(1) [OF assms(1)]
    by (auto simp: byte_order_mark_def)
  then obtain w2 where w2: "c_str (bom @ w @ s @ t) = bom @ w @ s @ w2" "ws w2"
    using c_str_text [OF _ assms(4), of "bom @ w @ s"] by auto
  obtain c rest where "w2 @ [CHR 0x00] = c # rest" "\<not> number_char c"
    using w2(2) no_nul_not_number not_number_char by (cases w2) (auto simp: ws_def)
  with ParseWithLengthOpts_text [OF assms(1-3) this(2) assms(5-7), of dp rest] w2(1) show ?thesis
    by (simp add: cJSON_Parse_def cJSON_ParseWithOpts_def)
qed

text \<open>C7. The two JSON libraries of the repository agree on what JSON is: a text of the JSON grammar, with
  or without a byte order mark, whitespace around it, and anything behind a NUL, is parsed by both, by the
  C++ library to the value it denotes and by cJSON to the corresponding item, provided that the value has no
  floating-point numbers and is not nested more than 1000 deep, and that memory lasts.\<close>

theorem cJSON_agrees_with_json:
  assumes "json_text dp v s" "bom = [] \<or> bom = byte_order_mark" "ws w" "ends_text t"
    and "integral v" "nesting v \<le> CJSON_NESTING_LIMIT" "unfailing h"
  shows "json_parse ms dp True False (bom @ w @ s @ t) = Inr (normalise v) \<and>
    (\<exists>h'. cJSON_Parse dp' h (bom @ w @ s @ t) =
      Inr \<lparr>parsed = Some (item_of zero_node v), parse_end = length (bom @ w @ s), error_position = None,
           hooks_after = h'\<rparr>)"
proof -
  obtain es where "accepted dp False (bom @ w @ s @ t) es" "builds es Start = Some (Done (normalise v))"
    using json_text_accepted [OF assms(1,3,4), of False] bom_accepted [OF assms(1,3,4), of False] assms(2)
    by auto
  then have "json_parse ms dp True False (bom @ w @ s @ t) = Inr (normalise v)"
    using json_parse_accepted by fastforce
  with cJSON_Parse_text [OF assms] show ?thesis by auto
qed

theorem cJSON_agrees_with_json_witness:
  "json_parse (\<lambda>_. 0) CHR ''.'' True False '' null'' = Inr Jnull \<and>
   (\<exists>h'. cJSON_Parse CHR '','' ample '' null'' =
     Inr \<lparr>parsed = Some (item_of zero_node Jnull), parse_end = 5, error_position = None,
          hooks_after = h'\<rparr>)"
  using cJSON_agrees_with_json [OF scalar [OF scalar_text.null], of "[]" "'' ''" "[]" ample "\<lambda>_. 0" "CHR ''.''" "CHR '',''"]
  by (simp add: ws_def is_ws_def ends_text_ws eval_nat_numeral)

end
