(* ===== verification/Cjson_Roundtrip.thy ===== *)
theory Cjson_Roundtrip
  imports Cjson_Print Cjson_Text
begin

text \<open>
  What the cJSON printer writes for the item of a JSON value is a text of the JSON grammar that denotes
  this value. So cJSON reads its own output back, and the C++ parser reads it too.
\<close>

section \<open>Strings\<close>

text \<open>cJSON escapes the bytes of a code point as the C++ serializer escapes the code point.\<close>

lemma escape_char_plain: "128 \<le> ic c \<Longrightarrow> escape_char c = [c]"
  by (auto simp: escape_char_def)

lemma escape_char_ascii: "cp < 0x80 \<Longrightarrow> escape_char (byte cp) = escaped False cp"
proof -
  assume cp: "cp < 0x80"
  define c where "c = byte cp"
  have ic: "ic c = int cp" "(of_char c :: nat) = cp" "utf8 cp = [c]"
    using cp ic_byte [of cp] of_nat_of_char [of "byte cp", where 'a = int] by (simp_all add: c_def utf8_def)
  have eq: "c = d \<longleftrightarrow> int cp = ic d" for d using ic_inject [of c d] ic by simp
  have eqs: "c = CHR 0x22 \<longleftrightarrow> cp = 0x22" "c = CHR 0x5C \<longleftrightarrow> cp = 0x5C" "c = CHR 0x08 \<longleftrightarrow> cp = 8"
    "c = CHR 0x0C \<longleftrightarrow> cp = 12" "c = CHR 0x0A \<longleftrightarrow> cp = 10" "c = CHR 0x0D \<longleftrightarrow> cp = 13"
    "c = CHR 0x09 \<longleftrightarrow> cp = 9"
    by (simp_all add: eq)
  show ?thesis
    unfolding c_def [symmetric]
    by (cases "31 < cp") (simp_all add: escape_char_def escaped_def short_escape_def unicode_escape_def eqs ic)
qed

lemma concat_map_single: "\<forall>c \<in> set xs. f c = [c] \<Longrightarrow> concat (map f xs) = xs"
  by (induction xs) auto

lemma escaped_utf8: "scalar_value cp \<Longrightarrow> concat (map escape_char (utf8 cp)) = escaped False cp"
proof (cases "cp < 0x80")
  case True
  then show ?thesis by (simp add: utf8_def escape_char_ascii)
next
  case False
  then have e: "escaped False cp = utf8 cp" by (auto simp: escaped_def short_escape_def)
  assume "scalar_value cp"
  then have "\<forall>c \<in> set (utf8 cp). 128 \<le> ic c"
  proof (cases rule: utf8_cases)
    case (two a x)
    then show ?thesis by (simp add: utf8_two ic_byte)
  next
    case (three a x y)
    then show ?thesis by (simp only: utf8_three) (simp add: ic_byte)
  next
    case (four a x y z)
    then show ?thesis by (simp only: utf8_four) (simp add: ic_byte)
  qed (use False in simp)
  then have "\<forall>c \<in> set (utf8 cp). escape_char c = [c]" using escape_char_plain by blast
  then show ?thesis by (simp only: e concat_map_single)
qed

lemma escaped_utf8_text:
  "list_all scalar_value cps \<Longrightarrow> concat (map escape_char (utf8_text cps)) = concat (map (escaped False) cps)"
  by (induction cps) (simp_all add: utf8_text_def escaped_utf8)

lemma render_string_text:
  assumes "valid_utf8 s" "no_nul s"
  shows "\<exists>cps t. render_string (Some s) = CHR 0x22 # t @ [CHR 0x22] \<and> string_text cps t \<and> s = utf8_text cps"
proof -
  from assms(1) obtain cps where cps: "list_all scalar_value cps" "s = utf8_text cps"
    by (auto simp: valid_utf8_def)
  have "render_string (Some s) = CHR 0x22 # concat (map (escaped False) cps) @ [CHR 0x22]"
    using cps by (simp only: render_string_def option.case c_str_no_nul [OF assms(2) [unfolded cps(2)]] escaped_utf8_text)
  with cps(2) string_text_escaped [OF cps(1), of False] show ?thesis by blast
qed

section \<open>Values\<close>

text \<open>Values that \<^verbatim>\<open>print_number\<close> and C strings keep: whole numbers of at most 15 digits, strings in UTF-8
  without NUL.\<close>

fun printable_value :: "json \<Rightarrow> bool" where
  "printable_value (Jobject m) \<longleftrightarrow>
     (\<forall>kv \<in> set m. valid_utf8 (fst kv) \<and> no_nul (fst kv) \<and> printable_value (snd kv))"
| "printable_value (Jarray xs) \<longleftrightarrow> (\<forall>x \<in> set xs. printable_value x)"
| "printable_value (Jstring s) \<longleftrightarrow> valid_utf8 s \<and> no_nul s"
| "printable_value (Jnumber_unsigned x) \<longleftrightarrow> unat x < 10 ^ 15"
| "printable_value (Jnumber_integer x) \<longleftrightarrow> unat (- x) < 10 ^ 15"
| "printable_value (Jnumber_float _) \<longleftrightarrow> False"
| "printable_value (Jbinary _ _) \<longleftrightarrow> False"
| "printable_value Jdiscarded \<longleftrightarrow> False"
| "printable_value _ \<longleftrightarrow> True"

lemma printable_integral: "printable_value v \<Longrightarrow> integral v"
  by (induction v rule: printable_value.induct) auto

lemma kind_ctype [simp]:
  "kind (n\<lparr>ctype := cJSON_NULL\<rparr>) = cJSON_NULL" "kind (n\<lparr>ctype := cJSON_False\<rparr>) = cJSON_False"
  "kind (n\<lparr>ctype := cJSON_True, valueint := i\<rparr>) = cJSON_True"
  "kind (n\<lparr>valuedouble := d, valueint := i, ctype := cJSON_Number\<rparr>) = cJSON_Number"
  "kind (n\<lparr>ctype := cJSON_String, valuestring := s\<rparr>) = cJSON_String"
  "kind (n\<lparr>ctype := cJSON_Array\<rparr>) = cJSON_Array" "kind (n\<lparr>ctype := cJSON_Object\<rparr>) = cJSON_Object"
  by (simp_all add: kind_def cJSON_types)

lemma cJSON_types_distinct [simp]:
  "cJSON_False \<noteq> cJSON_NULL" "cJSON_True \<noteq> cJSON_NULL" "cJSON_True \<noteq> cJSON_False"
  "cJSON_Number \<noteq> cJSON_NULL" "cJSON_Number \<noteq> cJSON_False" "cJSON_Number \<noteq> cJSON_True"
  "cJSON_String \<noteq> cJSON_NULL" "cJSON_String \<noteq> cJSON_False" "cJSON_String \<noteq> cJSON_True"
  "cJSON_String \<noteq> cJSON_Number" "cJSON_String \<noteq> cJSON_Raw"
  "cJSON_Array \<noteq> cJSON_NULL" "cJSON_Array \<noteq> cJSON_False" "cJSON_Array \<noteq> cJSON_True"
  "cJSON_Array \<noteq> cJSON_Number" "cJSON_Array \<noteq> cJSON_Raw" "cJSON_Array \<noteq> cJSON_String"
  "cJSON_Object \<noteq> cJSON_NULL" "cJSON_Object \<noteq> cJSON_False" "cJSON_Object \<noteq> cJSON_True"
  "cJSON_Object \<noteq> cJSON_Number" "cJSON_Object \<noteq> cJSON_Raw" "cJSON_Object \<noteq> cJSON_String"
  "cJSON_Object \<noteq> cJSON_Array"
  by (simp_all add: cJSON_types)

lemma ws_tabs: "ws (tabs k)"
  by (simp add: tabs_def ws_def list_all_iff is_ws_def)

lemma ws_newline: "ws (CHR 0x0A # w) \<longleftrightarrow> ws w"
  by (simp add: ws_def is_ws_def)

lemma ws_pretty:
  "ws (if fmt then tabs lvl else [])" "ws (if fmt then [CHR 0x09] else [])" "ws (if fmt then [CHR 0x0A] else [])"
  "ws []"
  using ws_tabs [of lvl] by (simp_all add: ws_def is_ws_def)

lemma ws_if: "ws (if b then x else []) \<longleftrightarrow> (b \<longrightarrow> ws x)"
  by simp

definition renders :: "char \<Rightarrow> json \<Rightarrow> bool" where
  "renders dp' v \<longleftrightarrow> (\<forall>dp n fmt lvl. \<exists>t. render dp (item_of n v) fmt lvl = Some t \<and> json_text dp' v t)"

lemma rendersD: "renders dp' v \<Longrightarrow> \<exists>t. render dp (item_of n v) fmt lvl = Some t \<and> json_text dp' v t"
  by (simp add: renders_def)

lemma number_rendered:
  assumes "m < 10 ^ 15"
  shows "render dp (number_item n (dec_to_double neg m 0)) fmt lvl = Some (sign_text neg @ to_string m)"
proof -
  have "length (to_string m) \<le> 15" using length_to_string_le [OF assms] by simp
  then show ?thesis
    by (simp add: number_item_def number_text_whole [OF assms] sign_text_def)
qed

lemma number_rendered_text:
  assumes "m < 10 ^ 15"
  shows "json_text dp' (if neg then Jnumber_integer (- of_nat m) else Jnumber_unsigned (of_nat m))
    (sign_text neg @ to_string m)"
  using scalar_text.number [OF int_text_to_string [of m], of "[]" "[]" _ dp' neg] assms
  by (intro scalar) (cases neg; simp add: frac_text_def exp_text_def number_value_def)

lemma elements_text_space: "elements_text dp xs u \<Longrightarrow> ws w \<Longrightarrow> elements_text dp xs (w @ u)"
  by (cases rule: elements_text.cases)
    (use last_element [of "w @ _"] element [of "w @ _"] in force)+

lemma elements_rendered:
  assumes "\<forall>x \<in> set (v # vs). renders dp' x"
  shows "\<exists>t. join_elements fmt (map (\<lambda>x. render dp (item_of zero_node x) fmt lvl) (v # vs)) = Some t \<and>
    elements_text dp' (v # vs) t"
  using assms
proof (induction vs arbitrary: v)
  case Nil
  then obtain t where "render dp (item_of zero_node v) fmt lvl = Some t" "json_text dp' v t"
    using rendersD [of dp' v] by fastforce
  with last_element [of "[]" dp' v t "[]"] show ?case by simp
next
  case (Cons v' vs)
  from Cons.prems obtain t where t: "render dp (item_of zero_node v) fmt lvl = Some t" "json_text dp' v t"
    using rendersD [of dp' v] by fastforce
  from Cons obtain u where u:
    "join_elements fmt (map (\<lambda>x. render dp (item_of zero_node x) fmt lvl) (v' # vs)) = Some u"
    "elements_text dp' (v' # vs) u"
    by (metis list.set_intros(2))
  have sp: "elements_text dp' (v' # vs) ('' '' @ u)"
    using elements_text_space [OF u(2), of "'' ''"] by (simp add: ws_def is_ws_def)
  have "elements_text dp' (v # v' # vs) (t @ (if fmt then '', '' else '','') @ u)"
    using element [of "[]" dp' v t "[]" "v' # vs" u] element [of "[]" dp' v t "[]" "v' # vs" "'' '' @ u"] t u sp
    by simp
  with t u show ?case by simp
qed

lemma ws_append: "ws v \<Longrightarrow> ws w \<Longrightarrow> ws (v @ w)"
  by simp

lemma members_text_space:
  assumes "members_text dp m u" "ws w"
  shows "members_text dp m (w @ u)"
  using assms(1)
proof cases
  note lasts = json_text_elements_text_members_text.last_member and conses = json_text_elements_text_members_text.member
  {
    case (last_member w1 cps k w2 w3 v s w4)
    with assms(2) lasts [of "w @ w1" cps k w2 w3 dp v s w4] show ?thesis by simp
  next
    case (member w1 cps k w2 w3 v s w4 m' s')
    with assms(2) conses [of "w @ w1" cps k w2 w3 dp v s w4 m' s'] show ?thesis by simp
  }
qed

lemma members_text_trailing: "members_text dp m u \<Longrightarrow> ws w \<Longrightarrow> members_text dp m (u @ w)"
proof (induction rule: json_text_elements_text_members_text.inducts(3)
    [where ?P1.0 = "\<lambda>_ _. True" and ?P2.0 = "\<lambda>_ _. True"])
  case (last_member w1 cps k w2 w3 v s w4)
  then show ?case
    using json_text_elements_text_members_text.last_member [of w1 cps k w2 w3 dp v s "w4 @ w"] by simp
next
  case (member w1 cps k w2 w3 v s w4 m s')
  then show ?case
    using json_text_elements_text_members_text.member [of w1 cps k w2 w3 dp v s w4 m "s' @ w"] by simp
qed auto

lemma members_rendered:
  assumes "\<forall>kv \<in> set (kv # m). valid_utf8 (fst kv) \<and> no_nul (fst kv) \<and> renders dp' (snd kv)"
  shows "\<exists>t. join_members fmt lvl
      (map (\<lambda>kv. (Some (fst kv), render dp (member_item kv) fmt lvl)) (kv # m)) = Some t \<and>
    members_text dp' (kv # m) t"
  using assms
proof (induction m arbitrary: kv)
  case (Nil kv)
  obtain k v where kv: "kv = (k, v)" by force
  from Nil kv obtain cps r where k: "render_string (Some k) = CHR 0x22 # r @ [CHR 0x22]" "string_text cps r"
    "k = utf8_text cps" using render_string_text [of k] by auto
  from Nil kv obtain t where "render dp (member_item kv) fmt lvl = Some t" "json_text dp' v t"
    using rendersD [of dp' v] by (fastforce simp: member_item_def)
  with kv k last_member [OF ws_pretty(1) k(2) ws_pretty(4) ws_pretty(2) _ ws_pretty(3), of dp' v t fmt lvl fmt fmt]
  show ?case by (cases fmt) simp_all
next
  case (Cons kv' m kv)
  obtain k v where kv: "kv = (k, v)" by force
  from Cons.prems kv obtain cps r where k: "render_string (Some k) = CHR 0x22 # r @ [CHR 0x22]"
    "string_text cps r" "k = utf8_text cps" using render_string_text [of k] by auto
  from Cons.prems kv obtain t where t: "render dp (member_item kv) fmt lvl = Some t" "json_text dp' v t"
    using rendersD [of dp' v] by (fastforce simp: member_item_def)
  from Cons.prems have "\<forall>kv \<in> set (kv' # m). valid_utf8 (fst kv) \<and> no_nul (fst kv) \<and> renders dp' (snd kv)"
    by simp
  from Cons.IH [OF this] obtain u where u: "join_members fmt lvl
      (map (\<lambda>kv. (Some (fst kv), render dp (member_item kv) fmt lvl)) (kv' # m)) = Some u"
    "members_text dp' (kv' # m) u" by blast
  define ms where "ms = map (\<lambda>kv. (Some (fst kv), render dp (member_item kv) fmt lvl)) (kv' # m)"
  have ms: "map (\<lambda>kv. (Some (fst kv), render dp (member_item kv) fmt lvl)) (kv # kv' # m) = (Some k, Some t) # ms"
    "ms \<noteq> []" "join_members fmt lvl ms = Some u"
    using u(1) t(1) kv by (simp_all add: ms_def)
  have "members_text dp' (kv' # m) ((if fmt then [CHR 0x0A] else []) @ u)"
    using members_text_space [OF u(2)] by (simp add: ws_def is_ws_def)
  from member [OF ws_pretty(1) k(2) ws_pretty(4) ws_pretty(2) t(2) ws_pretty(4) this, of fmt lvl fmt]
  show ?case
    unfolding ms(1) using ms(2,3) k(1,3) kv by (cases fmt) simp_all
qed

lemma key_item_of [simp]: "key (node (item_of n v)) = key n"
  by (cases "(n, v)" rule: item_of.cases) (simp_all add: number_item_def)

lemma renders_array: "\<forall>x \<in> set xs. renders dp' x \<Longrightarrow> renders dp' (Jarray xs)"
  unfolding renders_def [of dp' "Jarray xs"]
proof (intro allI)
  fix dp n fmt lvl
  assume xs: "\<forall>x \<in> set xs. renders dp' x"
  show "\<exists>t. render dp (item_of n (Jarray xs)) fmt lvl = Some t \<and> json_text dp' (Jarray xs) t"
  proof (cases xs)
    case Nil
    then show ?thesis using empty_array [of "[]" dp'] by simp
  next
    case (Cons x ys)
    with xs elements_rendered [of x ys dp' fmt dp "Suc lvl"] obtain t where
      "join_elements fmt (map (\<lambda>x. render dp (item_of zero_node x) fmt (Suc lvl)) xs) = Some t"
      "elements_text dp' xs t" by blast
    then show ?thesis using array [of dp' xs t] by (simp add: comp_def)
  qed
qed

lemma renders_object:
  "\<forall>kv \<in> set m. valid_utf8 (fst kv) \<and> no_nul (fst kv) \<and> renders dp' (snd kv) \<Longrightarrow> renders dp' (Jobject m)"
  unfolding renders_def [of dp' "Jobject m"]
proof (intro allI)
  fix dp n fmt lvl
  assume m: "\<forall>kv \<in> set m. valid_utf8 (fst kv) \<and> no_nul (fst kv) \<and> renders dp' (snd kv)"
  let ?close = "if fmt then tabs lvl else []"
  have "zip (map (\<lambda>c. key (node c)) (map member_item m))
      (map (\<lambda>f. f fmt (lvl + 1)) (map (render dp) (map member_item m))) =
    map (\<lambda>kv. (Some (fst kv), render dp (member_item kv) fmt (lvl + 1))) m"
    by (induction m) (simp_all add: member_item_def)
  moreover have "item_of n (Jobject m) = Item (n\<lparr>ctype := cJSON_Object\<rparr>) (map member_item m)"
    by (simp add: member_item_def)
  ultimately have r: "render dp (item_of n (Jobject m)) fmt lvl =
      cat (Some (if fmt then ''{'' @ [CHR 0x0A] else ''{''))
        (cat (join_members fmt (lvl + 1) (map (\<lambda>kv. (Some (fst kv), render dp (member_item kv) fmt (lvl + 1))) m))
          (Some (?close @ ''}'')))"
    by (simp only: render.simps Let_def kind_ctype cJSON_types_distinct if_False if_True refl)
  show "\<exists>t. render dp (item_of n (Jobject m)) fmt lvl = Some t \<and> json_text dp' (Jobject m) t"
  proof (cases m)
    case Nil
    then show ?thesis
      using r empty_object [of "(if fmt then [CHR 0x0A] else []) @ ?close" dp'] ws_tabs [of lvl]
      by (cases fmt) (simp_all add: ws_newline del: item_of.simps)
  next
    case (Cons kv m')
    with m members_rendered [of kv m' dp' fmt "Suc lvl" dp] obtain t where t:
      "join_members fmt (Suc lvl) (map (\<lambda>kv. (Some (fst kv), render dp (member_item kv) fmt (Suc lvl))) m) = Some t"
      "members_text dp' m t" by blast
    have "members_text dp' m ((if fmt then [CHR 0x0A] else []) @ t @ ?close)"
      using members_text_space [OF members_text_trailing [OF t(2)]] ws_tabs [of lvl]
      by (simp add: ws_newline)
    then show ?thesis
      using object [of dp' m "(if fmt then [CHR 0x0A] else []) @ t @ ?close"] t(1) r
      by (cases fmt) (simp_all del: item_of.simps)
  qed
qed

section \<open>Round trips\<close>

lemma value_renders: "printable_value v \<Longrightarrow> renders dp' v"
proof (induction v rule: printable_value.induct)
  case (1 m)
  then show ?case by (intro renders_object) fastforce
next
  case (2 xs)
  then show ?case by (intro renders_array) fastforce
next
  case (3 s)
  then obtain cps t where "render_string (Some s) = CHR 0x22 # t @ [CHR 0x22]" "string_text cps t" "s = utf8_text cps"
    using render_string_text by fastforce
  with scalar [OF scalar_text.string [of cps t dp']] show ?case by (simp add: renders_def)
next
  case (4 x)
  with number_rendered_text [of "unat x" dp' False] number_rendered [where m = "unat x" and neg = False]
  show ?case by (simp add: renders_def)
next
  case (5 x)
  with number_rendered_text [of "unat (- x)" dp' True] number_rendered [where m = "unat (- x)" and neg = True]
  show ?case by (simp add: renders_def)
qed (auto simp: renders_def intro: scalar scalar_text.null scalar_text.true scalar_text.false)

text \<open>C8. What cJSON prints, cJSON reads back and the C++ library reads: for a value of whole numbers of at
  most 15 digits, of strings in UTF-8 without NUL, and nested at most 1000 deep, both print functions return
  a text (when memory lasts and the text stays below 2 GB) that \<^verbatim>\<open>cJSON_Parse\<close> turns back into the very item
  and \<^verbatim>\<open>json::parse\<close> into the value, whatever the locales of the two programs.\<close>

theorem cJSON_print_parse:
  assumes "printable_value v" "nesting v \<le> CJSON_NESTING_LIMIT" "unfailing h" "unfailing h2"
    and "\<forall>t. render dp (item_of zero_node v) fmt 0 = Some t \<longrightarrow> length t + 2 \<le> INT_MAX"
  shows "\<exists>t h' h2'.
    (if fmt then cJSON_Print else cJSON_PrintUnformatted) junk dp (Some (item_of zero_node v)) h =
      Inr (Some (t @ [CHR 0x00]), h') \<and>
    cJSON_Parse dp2 h2 (t @ [CHR 0x00]) =
      Inr \<lparr>parsed = Some (item_of zero_node v), parse_end = length t, error_position = None, hooks_after = h2'\<rparr> \<and>
    json_parse ms dp3 True False t = Inr (normalise v)"
proof -
  obtain t where t: "render dp (item_of zero_node v) fmt 0 = Some t" "json_text dp3 v t"
    using rendersD [OF value_renders [OF assms(1)]] by blast
  obtain h' where p: "print junk dp (Some (item_of zero_node v)) fmt h = Inr (Some (t @ [CHR 0x00]), h')"
    using print_succeeds [OF assms(3) t(1)] assms(5) t(1) by blast
  have e: "ends_text [CHR 0x00]" "ends_text []"
    unfolding ends_text_def by (rule exI [of _ "[]"], simp)+
  obtain h2' where q: "cJSON_Parse dp2 h2 (t @ [CHR 0x00]) =
      Inr \<lparr>parsed = Some (item_of zero_node v), parse_end = length t, error_position = None, hooks_after = h2'\<rparr>"
    using cJSON_Parse_text [OF t(2), of "[]" "[]" "[CHR 0x00]" h2 dp2] assms(2,4) printable_integral [OF assms(1)] e
    by (auto simp: ws_def)
  obtain es where "accepted dp3 False t es" "builds es Start = Some (Done (normalise v))"
    using json_text_accepted [OF t(2) _ e(2), of "[]" False] by (auto simp: ws_def)
  then have "json_parse ms dp3 True False t = Inr (normalise v)"
    using json_parse_accepted by fastforce
  with p q show ?thesis
    by (cases fmt) (auto simp: cJSON_Print_def cJSON_PrintUnformatted_def)
qed

theorem cJSON_print_parse_witness:
  "\<exists>t h' h2'.
    cJSON_Print (\<lambda>_ _. CHR ''x'') CHR ''.'' (Some (item_of zero_node (Jobject [(''type'', Jstring ''offer'')]))) ample =
      Inr (Some (t @ [CHR 0x00]), h') \<and>
    cJSON_Parse CHR '','' ample (t @ [CHR 0x00]) =
      Inr \<lparr>parsed = Some (item_of zero_node (Jobject [(''type'', Jstring ''offer'')])), parse_end = length t,
           error_position = None, hooks_after = h2'\<rparr> \<and>
    json_parse (\<lambda>_. 0) CHR ''.'' True False t = Inr (Jobject [(''type'', Jstring ''offer'')])"
proof -
  let ?v = "Jobject [(''type'', Jstring ''offer'')]"
  have u: "valid_utf8 ''type''" "valid_utf8 ''offer''" by (rule valid_utf8_ascii, simp)+
  have r: "render CHR ''.'' (item_of zero_node ?v) True 0 = Some (''{'' @ [CHR 0x0A, CHR 0x09, CHR 0x22] @ ''type'' @
      [CHR 0x22] @ '':'' @ [CHR 0x09, CHR 0x22] @ ''offer'' @ [CHR 0x22, CHR 0x0A] @ ''}'')" by code_simp
  have n: "normalise ?v = ?v" by code_simp
  have "printable_value ?v" using u by simp
  moreover have "nesting ?v \<le> CJSON_NESTING_LIMIT" by (simp add: CJSON_NESTING_LIMIT_def)
  moreover have "\<forall>t. render CHR ''.'' (item_of zero_node ?v) True 0 = Some t \<longrightarrow> length t + 2 \<le> INT_MAX"
    unfolding r by (simp add: INT_MAX_def)
  ultimately show ?thesis
    using cJSON_print_parse [of ?v ample ample "CHR ''.''" True "\<lambda>_ _. CHR ''x''" "CHR '',''" "\<lambda>_. 0" "CHR ''.''"]
    by (simp only: if_True n unfailing_ample simp_thms)
qed

end
