(* ===== verification/Ldc_Signalling.thy ===== *)
theory Ldc_Signalling
  imports Json_Dump
begin

text \<open>
  What the libdatachannel echo client and server (\<^verbatim>\<open>src/libdatachannel/client.cpp\<close> and
  \<^verbatim>\<open>server.cpp\<close>) share: the exceptions of the standard library, \<^verbatim>\<open>std::promise\<close>, and the JSON messages
  that carry a session description.

  The two programs take \<^verbatim>\<open>nlohmann/json.hpp\<close> from their build environment, so the library is an
  argument, the record \<open>json_library\<close>. What they rely on is the locale \<open>description_codec\<close>; it is
  interpreted on the model of the copy of the header that the repository carries.
\<close>

section \<open>Exceptions\<close>

text \<open>
  \<open>Sliced\<close> is what \<^verbatim>\<open>std::make_exception_ptr(e)\<close> makes of a \<^verbatim>\<open>const std::exception &e\<close>: a copy of the
  base class, which has lost its message. \<open>Library_error\<close> is an exception of libdatachannel.
\<close>

datatype std_exception =
    Invalid_argument string
  | Runtime_error string
  | Json_error json_exception
  | Bad_optional_access
  | Future_error
  | Library_error string
  | Sliced

fun json_what :: "json_exception \<Rightarrow> string" where
  "json_what (Parse_error _ _ w) = w"
| "json_what (Type_error _ w) = w"
| "json_what (Out_of_range _ w) = w"
| "json_what Assertion_failure = []"

text \<open>\<^verbatim>\<open>what()\<close>, with the texts of libstdc++ for the standard exceptions.\<close>

fun what :: "std_exception \<Rightarrow> string" where
  "what (Invalid_argument m) = m"
| "what (Runtime_error m) = m"
| "what (Json_error ex) = json_what ex"
| "what Bad_optional_access = ''bad optional access''"
| "what Future_error = ''std::future_error: Promise already satisfied''"
| "what (Library_error m) = m"
| "what Sliced = ''std::exception''"

section \<open>\<^verbatim>\<open>std::promise\<close>\<close>

datatype 'a promise = Pending | Value 'a | Exception std_exception

definition set_value :: "'a \<Rightarrow> 'a promise \<Rightarrow> std_exception + 'a promise" where
  "set_value v p = (case p of Pending \<Rightarrow> Inr (Value v) | _ \<Rightarrow> Inl Future_error)"

definition set_exception :: "std_exception \<Rightarrow> 'a promise \<Rightarrow> std_exception + 'a promise" where
  "set_exception e p = (case p of Pending \<Rightarrow> Inr (Exception e) | _ \<Rightarrow> Inl Future_error)"

lemma set_value_simps [simp]:
  "set_value v Pending = Inr (Value v)" "p \<noteq> Pending \<Longrightarrow> set_value v p = Inl Future_error"
  by (auto simp: set_value_def split: promise.splits)

lemma set_exception_simps [simp]:
  "set_exception e Pending = Inr (Exception e)" "p \<noteq> Pending \<Longrightarrow> set_exception e p = Inl Future_error"
  by (auto simp: set_exception_def split: promise.splits)

section \<open>Descriptions in JSON\<close>

text \<open>
  \<^item> \<open>null_value\<close>: a default constructed value;
  \<^item> \<open>assign_string key s j\<close>: \<^verbatim>\<open>j[key] = s\<close>;
  \<^item> \<open>string_member key j\<close>: \<^verbatim>\<open>j[key].get<std::string>()\<close> and the changed value;
  \<^item> \<open>parse_text\<close>, \<open>dump_text\<close>: \<^verbatim>\<open>json::parse\<close> and \<^verbatim>\<open>dump\<close>.
\<close>

record 'j json_library =
  null_value :: 'j
  assign_string :: "string \<Rightarrow> string \<Rightarrow> 'j \<Rightarrow> std_exception + 'j"
  string_member :: "string \<Rightarrow> 'j \<Rightarrow> std_exception + (string \<times> 'j)"
  parse_text :: "string \<Rightarrow> std_exception + 'j"
  dump_text :: "'j \<Rightarrow> std_exception + string"

text \<open>\<^verbatim>\<open>json msg; msg["sdp"] = ...; msg["type"] = ...; msg.dump()\<close>.\<close>

definition dump_description :: "'j json_library \<Rightarrow> string \<times> string \<Rightarrow> std_exception + string" where
  "dump_description lib desc =
     try_bind (assign_string lib ''sdp'' (fst desc) (null_value lib)) (\<lambda>m1.
     try_bind (assign_string lib ''type'' (snd desc) m1) (\<lambda>m2.
       dump_text lib m2))"

text \<open>The arguments of \<^verbatim>\<open>rtc::Description remote(parsed["sdp"]..., parsed["type"]...)\<close>, taken from left to
  right.\<close>

definition description_members :: "'j json_library \<Rightarrow> 'j \<Rightarrow> std_exception + (string \<times> string)" where
  "description_members lib parsed =
     try_bind (string_member lib ''sdp'' parsed) (\<lambda>(sdp, parsed1).
     try_bind (string_member lib ''type'' parsed1) (\<lambda>(ty, _).
       Inr (sdp, ty)))"

definition parse_description :: "'j json_library \<Rightarrow> string \<Rightarrow> std_exception + (string \<times> string)" where
  "parse_description lib body = try_bind (parse_text lib body) (description_members lib)"

text \<open>What the two programs rely on: a description survives, and its text has no NUL.\<close>

locale description_codec =
  fixes lib :: "'j json_library"
    and representable :: "string \<Rightarrow> bool"
  assumes codec: "representable sdp \<Longrightarrow> representable ty \<Longrightarrow>
    \<exists>msg. dump_description lib (sdp, ty) = Inr msg \<and> parse_description lib msg = Inr (sdp, ty) \<and>
      c_str msg = msg"
begin

lemma message_obtains:
  assumes "representable sdp" "representable ty"
  obtains msg where "dump_description lib (sdp, ty) = Inr msg"
    "parse_description lib msg = Inr (sdp, ty)" "c_str msg = msg"
  using codec [OF assms] by blast

text \<open>Two descriptions with the same text are the same.\<close>

lemma dump_description_inject:
  assumes "representable sdp" "representable ty" "representable sdp'" "representable ty'"
    and "dump_description lib (sdp, ty) = dump_description lib (sdp', ty')"
  shows "sdp = sdp' \<and> ty = ty'"
  using codec [OF assms(1,2)] codec [OF assms(3,4)] assms(5) by auto

end

section \<open>The vendored library\<close>

definition vendored_json :: "(json \<Rightarrow> nat) \<Rightarrow> char \<Rightarrow> json json_library" where
  "vendored_json max_size dp =
     \<lparr>null_value = Jnull,
      assign_string = (\<lambda>key s j. map_sum Json_error id (set_key key (Jstring s) j)),
      string_member = (\<lambda>key j. map_sum Json_error id
        (try_bind (index_key key j) (\<lambda>(v, j'). try_bind (get_string v) (\<lambda>s. Inr (s, j'))))),
      parse_text = (\<lambda>s. map_sum Json_error id (json_parse max_size dp True False s)),
      dump_text = (\<lambda>j. map_sum Json_error id (json_dump (- 1) CHR '' '' False eh_strict j))\<rparr>"

definition description_json :: "string \<Rightarrow> string \<Rightarrow> json" where
  "description_json sdp ty = Jobject [(''sdp'', Jstring sdp), (''type'', Jstring ty)]"

lemma key_order: "''sdp'' < (''type'' :: string)" "''sdp'' \<noteq> ''type''"
  by simp_all

lemma valid_utf8_keys: "valid_utf8 ''sdp''" "valid_utf8 ''type''"
  by (simp_all add: valid_utf8_ascii)

lemma description_json_ok:
  assumes "valid_utf8 sdp" "valid_utf8 ty"
  shows "dumpable (description_json sdp ty)" "json_wf (description_json sdp ty)"
    "dump_image (description_json sdp ty) = description_json sdp ty"
  using assms key_order by (simp_all add: description_json_def valid_utf8_keys map_inv_def)

lemma json_dump_no_nul:
  assumes "dumpable j" "json_dump indent c ea eh j = Inr s" "indent \<le> 512" "is_ws c"
  shows "c_str s = s"
  using json_dump_text [OF assms(1,3,4), of ea eh "CHR ''.''"] assms(2)
  by (auto intro: c_str_no_nul no_nul_json_text)

lemma vendored_dump_description:
  "dump_description (vendored_json ms dp) (sdp, ty) =
     map_sum Json_error id (json_dump (- 1) CHR '' '' False eh_strict (description_json sdp ty))"
  by (simp add: dump_description_def vendored_json_def set_key_def index_key_def is_null_def
        description_json_def)

lemma vendored_description_members:
  "description_members (vendored_json ms dp) (description_json sdp ty) = Inr (sdp, ty)"
  by (simp add: description_members_def vendored_json_def index_key_def is_null_def
        description_json_def get_string_def)

interpretation vendored: description_codec "vendored_json ms dp" valid_utf8
proof
  fix sdp ty :: string
  assume ok: "valid_utf8 sdp" "valid_utf8 ty"
  note d = description_json_ok [OF ok]
  obtain s where s: "json_dump (- 1) CHR '' '' False eh_strict (description_json sdp ty) = Inr s"
    "json_parse ms dp True False s = Inr (description_json sdp ty)"
    using json_parse_dump [OF d(1,2), of "- 1" "CHR '' ''" False eh_strict ms dp True False] d(3)
    by (auto simp: is_ws_def)
  have "c_str s = s"
    by (rule json_dump_no_nul [OF d(1) s(1)]) (simp_all add: is_ws_def)
  moreover have "parse_text (vendored_json ms dp) s = Inr (description_json sdp ty)"
    by (simp add: vendored_json_def s(2))
  ultimately show "\<exists>msg. dump_description (vendored_json ms dp) (sdp, ty) = Inr msg \<and>
    parse_description (vendored_json ms dp) msg = Inr (sdp, ty) \<and> c_str msg = msg"
    using vendored_dump_description [of ms dp sdp ty] s(1)
    by (auto simp: parse_description_def vendored_description_members)
qed

end
