(* ===== verification/Ldc_Client.thy ===== *)
theory Ldc_Client
  imports Ldc_Signalling
begin

text \<open>
  The libdatachannel echo client, \<^verbatim>\<open>src/libdatachannel/client.cpp\<close>: its arguments, the callbacks it
  registers on the peer connection, the track and the data channel, and its \<^verbatim>\<open>main\<close>, which waits for
  the promise that the callbacks settle. libdatachannel, cpp-httplib and the JSON library are
  arguments. A callback may let an exception escape into libdatachannel; it is recorded, and whether the library
  catches it is an argument too: when it does not, \<^verbatim>\<open>std::terminate\<close> ends the program.
\<close>

section \<open>Arguments\<close>

definition random_chars :: string where
  "random_chars = ''0123456789abcdefghijklmnopqrstuvwxyz''"

text \<open>\<open>draw i\<close> is the \<open>i\<close>-th value of \<^verbatim>\<open>dist(rng)\<close>, a number from 0 to 35.\<close>

definition randomString :: "(nat \<Rightarrow> nat) \<Rightarrow> nat \<Rightarrow> string" where
  "randomString draw len = map (\<lambda>i. random_chars ! draw i) [0..<len]"

definition usage :: "string \<Rightarrow> string" where
  "usage program =
     ''Usage: '' @ program @ ''[URL|<options>]'' @ [CHR 0x0A] @
     ''Options:'' @ [CHR 0x0A] @
     [CHR 0x09] @ ''-h,'' @ [CHR 0x09, CHR 0x09] @ ''Show this help message'' @ [CHR 0x0A] @
     [CHR 0x09] @ ''-t NUMBER'' @ [CHR 0x09] @ ''Specify the test number (default 0)'' @ [CHR 0x0A] @
     [CHR 0x09] @ ''-s URL'' @ [CHR 0x09, CHR 0x09] @
     ''Specify the server URL (default http://localhost:8080/offer)'' @ [CHR 0x0A] @ [CHR 0x0A]"

definition quote_arg :: "string \<Rightarrow> string" where
  "quote_arg s = [CHR 0x22] @ s @ [CHR 0x22]"

text \<open>Arguments ask for the usage text or give a test number and a URL.\<close>

datatype arguments = Show_usage | Arguments "32 word" string

text \<open>The loop over \<^verbatim>\<open>argv\<close> from index \<open>i\<close>.\<close>

function parse_arguments ::
    "string list \<Rightarrow> nat \<Rightarrow> 32 word \<Rightarrow> string \<Rightarrow> std_exception + arguments" where
  "parse_arguments argv i test url =
     (if i < length argv then
        (let arg = argv ! i
         in if arg \<noteq> [] \<and> hd arg = CHR ''-'' then
              (let opt = tl arg
               in if opt = ''h'' then Inr Show_usage
                  else if opt = ''t'' then
                    (if i + 1 = length argv
                     then Inl (Invalid_argument (''Missing argument for option '' @ quote_arg ''t''))
                     else parse_arguments argv (i + 2) (atoi (argv ! (i + 1))) url)
                  else if opt = ''s'' then
                    (if i + 1 = length argv
                     then Inl (Invalid_argument (''Missing argument for option '' @ quote_arg ''s''))
                     else parse_arguments argv (i + 2) test (argv ! (i + 1)))
                  else Inl (Invalid_argument (''Unknown option '' @ quote_arg opt)))
            else if 1 < i
            then Inl (Invalid_argument (''Unexpected positional argument '' @ quote_arg arg))
            else parse_arguments argv (i + 1) test arg)
      else Inr (Arguments test url))"
  by pat_completeness auto

termination
  by (relation "measure (\<lambda>(argv, i, test, url). length argv - i)") auto

declare parse_arguments.simps [simp del]

text \<open>\<^verbatim>\<open>url.find_last_of(c)\<close>; \<^verbatim>\<open>npos\<close> is \<open>None\<close>.\<close>

definition find_last_of :: "char \<Rightarrow> string \<Rightarrow> nat option" where
  "find_last_of c s =
     (if c \<in> set s then Some (length s - 1 - length (takeWhile (\<lambda>d. d \<noteq> c) (rev s))) else None)"

text \<open>The checks after the loop, and the server and path parts of the URL.\<close>

definition split_url :: "32 word \<Rightarrow> string \<Rightarrow> std_exception + (string \<times> string)" where
  "split_url test url =
     (if test \<noteq> 0 \<and> test \<noteq> 1 then Inl (Invalid_argument ''Invalid test number'')
      else (case find_last_of CHR ''/'' url of
              None \<Rightarrow> Inl (Invalid_argument ''Invalid URL'')
            | Some separator \<Rightarrow> Inr (take separator url, drop separator url)))"

section \<open>The callbacks\<close>

text \<open>
  What the client uses of libdatachannel and cpp-httplib:
  \<^item> \<open>connection_error\<close>: an exception from creating the connection, its track or channel, or from
    setting the local description;
  \<^item> \<open>local_desc\<close>: \<^verbatim>\<open>localDescription()\<close>, the SDP and its type;
  \<^item> \<open>http_post server url_path body content_type\<close>: an error code, or the status and the body;
  \<^item> \<open>remote_error sdp ty\<close>: the exception of \<^verbatim>\<open>Description\<close> or \<^verbatim>\<open>setRemoteDescription\<close>, if any;
  \<^item> \<open>catches_exceptions\<close>: whether an exception that leaves a callback is caught by the library.
\<close>

record peer =
  connection_error :: "std_exception option"
  local_desc :: "(string \<times> string) option"
  http_post :: "string \<Rightarrow> string \<Rightarrow> string \<Rightarrow> string \<Rightarrow> int + (nat \<times> string)"
  remote_error :: "string \<Rightarrow> string \<Rightarrow> std_exception option"
  catches_exceptions :: bool

record client =
  promise :: "unit promise"
  remote :: "(string \<times> string) option"
  sent :: "string list"
  pc_closed :: bool
  escaped_exceptions :: "std_exception list"

definition client_init :: client where
  "client_init = \<lparr>promise = Pending, remote = None, sent = [], pc_closed = False, escaped_exceptions = []\<rparr>"

text \<open>A call of \<^verbatim>\<open>set_value\<close> or \<^verbatim>\<open>set_exception\<close> whose exception leaves the callback.\<close>

definition settle :: "(unit promise \<Rightarrow> std_exception + unit promise) \<Rightarrow> client \<Rightarrow> client" where
  "settle f c =
     (case f (promise c) of
        Inr p \<Rightarrow> c\<lparr>promise := p\<rparr>
      | Inl e \<Rightarrow> c\<lparr>escaped_exceptions := escaped_exceptions c @ [e]\<rparr>)"

text \<open>The body of the \<^verbatim>\<open>try\<close> block that runs when the candidates are gathered: the description that is
  set, or what is thrown.\<close>

definition exchange ::
    "'j json_library \<Rightarrow> peer \<Rightarrow> string \<Rightarrow> string \<Rightarrow> string \<Rightarrow> std_exception + (string \<times> string)" where
  "exchange lib p server url url_path =
     (case local_desc p of
        None \<Rightarrow> Inl Bad_optional_access
      | Some desc \<Rightarrow>
          try_bind (dump_description lib desc) (\<lambda>dumped.
            (case http_post p (c_str server) (c_str url_path) (c_str dumped) ''application/json'' of
               Inl code \<Rightarrow>
                 Inl (Runtime_error (''HTTP request to '' @ url @ '' failed; error code: '' @
                        to_string_int code))
             | Inr (status, body) \<Rightarrow>
                 if status \<noteq> 200
                 then Inl (Runtime_error (''HTTP POST failed with status '' @ to_string status @
                             ''; content: '' @ dumped))
                 else
                   (case parse_text lib body of
                      Inl e \<Rightarrow>
                        Inl (Runtime_error (''HTTP response parsing failed: '' @ what e @
                               ''; content: '' @ body))
                    | Inr parsed \<Rightarrow>
                        try_bind (description_members lib parsed) (\<lambda>(sdp, ty).
                          (case remote_error p sdp ty of
                             Some e \<Rightarrow> Inl e
                           | None \<Rightarrow> Inr (sdp, ty)))))))"

datatype gathering_state = Gathering_new | Gathering_in_progress | Gathering_complete

definition onGatheringStateChange ::
    "'j json_library \<Rightarrow> peer \<Rightarrow> string \<Rightarrow> string \<Rightarrow> string \<Rightarrow> gathering_state \<Rightarrow> client \<Rightarrow> client" where
  "onGatheringStateChange lib p server url url_path gathering c =
     (if gathering = Gathering_complete
      then (case exchange lib p server url url_path of
              Inr desc \<Rightarrow> c\<lparr>remote := Some desc\<rparr>
            | Inl e \<Rightarrow> settle (set_exception e) c)
      else c)"

datatype pc_state =
  Pc_new | Pc_connecting | Pc_connected | Pc_disconnected | Pc_failed | Pc_closed

definition onStateChange :: "pc_state \<Rightarrow> client \<Rightarrow> client" where
  "onStateChange pcs c =
     (if pcs = Pc_disconnected
      then settle (set_exception (Runtime_error ''Peer Connection failed'')) (c\<lparr>pc_closed := True\<rparr>)
      else c)"

text \<open>The track of the peer connection test.\<close>

definition onTrackOpen :: "client \<Rightarrow> client" where
  "onTrackOpen c = settle (set_value ()) c"

text \<open>The channel of the data channel test: \<open>secret\<close> is the random string.\<close>

definition onChannelOpen :: "string \<Rightarrow> client \<Rightarrow> client" where
  "onChannelOpen secret c = c\<lparr>sent := sent c @ [secret]\<rparr>"

datatype message = Binary "8 word list" | Text string

definition onMessage :: "string \<Rightarrow> message \<Rightarrow> client \<Rightarrow> client" where
  "onMessage secret msg c =
     (let attempt =
            (case msg of
               Binary _ \<Rightarrow> Inl (Runtime_error ''Received unexpected binary message'')
             | Text str \<Rightarrow>
                 if str \<noteq> secret
                 then Inl (Runtime_error (''Received unexpected message '' @ quote_arg str))
                 else set_value () (promise c))
      in case attempt of
           Inr p \<Rightarrow> c\<lparr>promise := p\<rparr>
         | Inl e \<Rightarrow> settle (set_exception Sliced) c)"

text \<open>
  The events libdatachannel delivers. A track event exists in test 0 only, and channel events in
  test 1 only: the callbacks of the other test are not registered.
\<close>

datatype client_event =
    Gathering gathering_state
  | Pc_state pc_state
  | Track_open
  | Channel_open
  | Channel_message message

definition handle_event ::
    "'j json_library \<Rightarrow> peer \<Rightarrow> 32 word \<Rightarrow> string \<Rightarrow> string \<Rightarrow> string \<Rightarrow> string \<Rightarrow> client_event \<Rightarrow>
     client \<Rightarrow> client" where
  "handle_event lib p test secret server url url_path ev c =
     (case ev of
        Gathering g \<Rightarrow> onGatheringStateChange lib p server url url_path g c
      | Pc_state s \<Rightarrow> onStateChange s c
      | Track_open \<Rightarrow> (if test = 0 then onTrackOpen c else c)
      | Channel_open \<Rightarrow> (if test = 0 then c else onChannelOpen secret c)
      | Channel_message m \<Rightarrow> (if test = 0 then c else onMessage secret m c))"

section \<open>\<^verbatim>\<open>main\<close>\<close>

record program_exit =
  cout :: string
  cerr :: string
  exit_code :: int

definition fail :: "std_exception \<Rightarrow> program_exit" where
  "fail e = \<lparr>cout = [], cerr = ''Error: '' @ c_str (what e) @ [CHR 0x0A], exit_code = - 1\<rparr>"

definition succeed :: "string \<Rightarrow> program_exit" where
  "succeed printed = \<lparr>cout = printed, cerr = [], exit_code = 0\<rparr>"

text \<open>Waiting for the future: still pending after ten seconds, an exception, or the value.\<close>

definition wait_result :: "unit promise \<Rightarrow> program_exit" where
  "wait_result p =
     (case p of
        Pending \<Rightarrow> fail (Runtime_error ''Timeout'')
      | Exception e \<Rightarrow> fail e
      | Value _ \<Rightarrow> succeed [])"

text \<open>\<^verbatim>\<open>std::terminate\<close>: the process ends with \<^verbatim>\<open>SIGABRT\<close>, signal 6, which a shell reports as 134.\<close>

definition aborted :: program_exit where
  "aborted = \<lparr>cout = [], cerr = [], exit_code = 134\<rparr>"

definition end_of_client :: "peer \<Rightarrow> client \<Rightarrow> program_exit" where
  "end_of_client p c =
     (if escaped_exceptions c \<noteq> [] \<and> \<not> catches_exceptions p then aborted else wait_result (promise c))"

text \<open>\<open>evs\<close> are the events delivered before the program ends: in the ten seconds, or after the promise was
  settled and before \<^verbatim>\<open>main\<close> returned.\<close>

definition client_main ::
    "'j json_library \<Rightarrow> peer \<Rightarrow> (nat \<Rightarrow> nat) \<Rightarrow> client_event list \<Rightarrow> string list \<Rightarrow> program_exit" where
  "client_main lib p draw evs argv =
     (case parse_arguments argv 1 0 ''http://localhost:8080/offer'' of
        Inl e \<Rightarrow> fail e
      | Inr Show_usage \<Rightarrow> succeed (usage (argv ! 0))
      | Inr (Arguments test url) \<Rightarrow>
          (case split_url test url of
             Inl e \<Rightarrow> fail e
           | Inr (server, url_path) \<Rightarrow>
               (case connection_error p of
                  Some e \<Rightarrow> fail e
                | None \<Rightarrow>
                    end_of_client p
                      (fold (handle_event lib p test (randomString draw 5) server url url_path) evs
                         client_init))))"

section \<open>The arguments\<close>

lemma find_last_of_Some:
  assumes "find_last_of c s = Some i"
  shows "i < length s \<and> s ! i = c \<and> c \<notin> set (drop (Suc i) s)"
proof -
  let ?t = "takeWhile (\<lambda>d. d \<noteq> c) (rev s)"
  have c: "c \<in> set s" and i: "i = length s - 1 - length ?t"
    using assms by (auto simp: find_last_of_def split: if_splits)
  have split: "rev s = ?t @ dropWhile (\<lambda>d. d \<noteq> c) (rev s)" by simp
  have ne: "dropWhile (\<lambda>d. d \<noteq> c) (rev s) \<noteq> []" using c by (auto simp: dropWhile_eq_Nil_conv)
  then obtain u where u: "dropWhile (\<lambda>d. d \<noteq> c) (rev s) = c # u"
    using hd_dropWhile [OF ne] by (cases "dropWhile (\<lambda>d. d \<noteq> c) (rev s)") auto
  have s: "s = rev u @ c # rev ?t"
    by (metis u split append_assoc append_Cons append_Nil rev.simps(2) rev_append rev_rev_ident)
  then have "i = length u" using i
    by (metis add_diff_cancel_right' diff_Suc_eq_diff_pred diff_add_inverse2 length_Cons length_append length_rev
        add_Suc_right diff_Suc_1)
  moreover have "c \<notin> set ?t" by (metis (mono_tags, lifting) set_takeWhileD)
  ultimately show ?thesis
    by (subst (2) s, subst (1) s, subst (3) s) (simp add: nth_append)
qed

lemma find_last_of_append:
  "c \<notin> set t \<Longrightarrow> find_last_of c (s @ c # t) = Some (length s)"
proof -
  assume "c \<notin> set t"
  then have "takeWhile (\<lambda>d. d \<noteq> c) (rev t @ c # rev s) = rev t"
    by (subst takeWhile_append2) (auto simp: takeWhile_eq_Nil_iff)
  then show ?thesis by (simp add: find_last_of_def)
qed

text \<open>The two parts make up the URL, and the path is its last segment.\<close>

lemma split_url_parts:
  assumes "split_url test url = Inr (server, url_path)"
  shows "server @ url_path = url \<and> (\<exists>name. url_path = CHR ''/'' # name \<and> CHR ''/'' \<notin> set name)"
proof -
  obtain i where i: "find_last_of CHR ''/'' url = Some i" "server = take i url" "url_path = drop i url"
    using assms by (auto simp: split_url_def split: if_splits option.splits)
  have "server @ url_path = url" by (simp add: i)
  moreover from find_last_of_Some [OF i(1)] have "url_path = CHR ''/'' # drop (Suc i) url"
    by (metis Cons_nth_drop_Suc i(3))
  ultimately show ?thesis using find_last_of_Some [OF i(1)] by blast
qed

lemma split_url_error:
  "split_url test url = Inl e \<longleftrightarrow>
     (test \<noteq> 0 \<and> test \<noteq> 1 \<and> e = Invalid_argument ''Invalid test number'') \<or>
     ((test = 0 \<or> test = 1) \<and> CHR ''/'' \<notin> set url \<and> e = Invalid_argument ''Invalid URL'')"
  by (auto simp: split_url_def find_last_of_def)

lemma randomString_chars:
  assumes "\<And>i. draw i \<le> 35"
  shows "length (randomString draw len) = len" "set (randomString draw len) \<subseteq> set random_chars"
proof -
  have "length random_chars = 36" by (simp add: random_chars_def)
  then have "draw i < length random_chars" for i using assms [of i] by simp
  then show "set (randomString draw len) \<subseteq> set random_chars"
    by (auto simp: randomString_def)
qed (simp add: randomString_def)

text \<open>A command line as the usage text describes it: an optional URL, then options.\<close>

datatype command_option = Test_number string | Server_url string

fun render_option :: "command_option \<Rightarrow> string list" where
  "render_option (Test_number n) = [''-t'', n]"
| "render_option (Server_url u) = [''-s'', u]"

fun apply_option :: "command_option \<Rightarrow> 32 word \<times> string \<Rightarrow> 32 word \<times> string" where
  "apply_option (Test_number n) (test, url) = (atoi n, url)"
| "apply_option (Server_url u) (test, url) = (test, u)"

lemma parse_arguments_option:
  "parse_arguments (pre @ render_option opt @ post) (length pre) test url =
     (case apply_option opt (test, url) of (test', url') \<Rightarrow>
        parse_arguments ((pre @ render_option opt) @ post) (length (pre @ render_option opt)) test' url')"
  by (cases opt; subst parse_arguments.simps) (simp_all add: nth_append)

lemma parse_arguments_options:
  "parse_arguments (pre @ concat (map render_option opts) @ post) (length pre) test url =
     (case fold apply_option opts (test, url) of (test', url') \<Rightarrow>
        parse_arguments (pre @ concat (map render_option opts) @ post)
          (length (pre @ concat (map render_option opts))) test' url')"
proof (induction opts arbitrary: pre test url)
  case (Cons opt opts)
  show ?case
    using parse_arguments_option [of pre opt "concat (map render_option opts) @ post" test url]
      Cons.IH [of "pre @ render_option opt"]
    by (simp split: prod.splits)
qed simp

lemma parse_arguments_end: "parse_arguments argv (length argv) test url = Inr (Arguments test url)"
  by (subst parse_arguments.simps) simp

lemma parse_arguments_url:
  assumes "u = [] \<or> hd u \<noteq> CHR ''-''"
  shows "parse_arguments (program # u # rest) 1 test url = parse_arguments (program # u # rest) 2 test u"
  using assms by (subst parse_arguments.simps) (auto simp: Let_def numeral_2_eq_2)

section \<open>The promise\<close>

text \<open>Settled once, it keeps its result.\<close>

lemma settle_settled: "promise c \<noteq> Pending \<Longrightarrow>
    settle (set_value v) c = c\<lparr>escaped_exceptions := escaped_exceptions c @ [Future_error]\<rparr>"
  "promise c \<noteq> Pending \<Longrightarrow>
    settle (set_exception e) c = c\<lparr>escaped_exceptions := escaped_exceptions c @ [Future_error]\<rparr>"
  by (simp_all add: settle_def)

lemma settle_pending: "promise c = Pending \<Longrightarrow> settle (set_value v) c = c\<lparr>promise := Value v\<rparr>"
  "promise c = Pending \<Longrightarrow> settle (set_exception e) c = c\<lparr>promise := Exception e\<rparr>"
  by (simp_all add: settle_def)

lemmas client_handlers =
  handle_event_def onGatheringStateChange_def onStateChange_def onTrackOpen_def onChannelOpen_def onMessage_def

lemma handle_event_settled:
  "promise c \<noteq> Pending \<Longrightarrow> promise (handle_event lib p test secret server url url_path ev c) = promise c"
  by (simp add: client_handlers settle_settled Let_def split: client_event.splits sum.splits message.splits)

lemma fold_handle_event_settled:
  "promise c \<noteq> Pending \<Longrightarrow>
     promise (fold (handle_event lib p test secret server url url_path) evs c) = promise c"
  by (induction evs arbitrary: c) (simp_all add: handle_event_settled)

text \<open>Only \<^verbatim>\<open>future_error\<close> escapes from a callback.\<close>

lemma settle_escaped:
  "set (escaped_exceptions (settle (set_value v) c)) \<subseteq> insert Future_error (set (escaped_exceptions c))"
  "set (escaped_exceptions (settle (set_exception e) c)) \<subseteq> insert Future_error (set (escaped_exceptions c))"
  by (auto simp: settle_def set_value_def set_exception_def split: promise.splits)

lemma handle_event_escaped:
  "set (escaped_exceptions (handle_event lib p test secret server url url_path ev c)) \<subseteq>
     insert Future_error (set (escaped_exceptions c))"
  using settle_escaped(1) [of "()" c] settle_escaped(2) [of _ c] settle_escaped(2) [of _ "c\<lparr>pc_closed := True\<rparr>"]
  by (auto simp: client_handlers Let_def split: client_event.splits sum.splits message.splits)

text \<open>An event that settles the promise: the track opens, a message arrives, the connection is lost, or the exchange of
  descriptions fails.\<close>

definition decides ::
    "'j json_library \<Rightarrow> peer \<Rightarrow> 32 word \<Rightarrow> string \<Rightarrow> string \<Rightarrow> string \<Rightarrow> client_event \<Rightarrow> bool" where
  "decides lib p test server url url_path ev \<longleftrightarrow>
     (case ev of
        Gathering g \<Rightarrow> g = Gathering_complete \<and> (\<exists>e. exchange lib p server url url_path = Inl e)
      | Pc_state st \<Rightarrow> st = Pc_disconnected
      | Track_open \<Rightarrow> test = 0
      | Channel_open \<Rightarrow> False
      | Channel_message _ \<Rightarrow> test \<noteq> 0)"

text \<open>What the program then ends with.\<close>

definition verdict ::
    "'j json_library \<Rightarrow> peer \<Rightarrow> string \<Rightarrow> string \<Rightarrow> string \<Rightarrow> string \<Rightarrow> client_event \<Rightarrow> program_exit" where
  "verdict lib p secret server url url_path ev =
     (case ev of
        Gathering _ \<Rightarrow>
          (case exchange lib p server url url_path of Inl e \<Rightarrow> fail e | Inr _ \<Rightarrow> succeed [])
      | Pc_state _ \<Rightarrow> fail (Runtime_error ''Peer Connection failed'')
      | Channel_message m \<Rightarrow> if m = Text secret then succeed [] else fail Sliced
      | _ \<Rightarrow> succeed [])"

lemma handle_event_idle:
  assumes "\<not> decides lib p test server url url_path ev"
  shows "promise (handle_event lib p test secret server url url_path ev c) = promise c"
    "escaped_exceptions (handle_event lib p test secret server url url_path ev c) = escaped_exceptions c"
  using assms by (auto simp: client_handlers decides_def split: client_event.splits sum.splits)

lemma handle_event_decides:
  assumes "decides lib p test server url url_path ev"
  shows "promise c = Pending \<Longrightarrow>
      promise (handle_event lib p test secret server url url_path ev c) \<noteq> Pending \<and>
      wait_result (promise (handle_event lib p test secret server url url_path ev c)) = verdict lib p secret server url url_path ev \<and>
      escaped_exceptions (handle_event lib p test secret server url url_path ev c) = escaped_exceptions c"
    and "promise c \<noteq> Pending \<Longrightarrow>
      escaped_exceptions (handle_event lib p test secret server url url_path ev c) = escaped_exceptions c @ [Future_error]"
  using assms
  by (auto simp: client_handlers decides_def verdict_def settle_settled settle_pending wait_result_def Let_def
      split: client_event.splits message.splits)

lemma fold_handle_event_escapes:
  "promise c \<noteq> Pending \<Longrightarrow>
    escaped_exceptions (fold (handle_event lib p test secret server url url_path) evs c) =
      escaped_exceptions c @ replicate (length (filter (decides lib p test server url url_path) evs)) Future_error"
proof (induction evs arbitrary: c)
  case (Cons ev evs)
  then show ?case
    by (cases "decides lib p test server url url_path ev")
      (simp_all add: handle_event_settled handle_event_idle handle_event_decides(2))
qed simp

lemma end_of_client_events:
  assumes "promise c = Pending" "escaped_exceptions c = []"
  shows "end_of_client p (fold (handle_event lib p test secret server url url_path) evs c) =
    (case filter (decides lib p test server url url_path) evs of
       [] \<Rightarrow> fail (Runtime_error ''Timeout'')
     | ev # later \<Rightarrow>
         if later \<noteq> [] \<and> \<not> catches_exceptions p then aborted else verdict lib p secret server url url_path ev)"
  using assms
proof (induction evs arbitrary: c)
  case Nil
  then show ?case by (simp add: end_of_client_def wait_result_def)
next
  case (Cons ev evs)
  show ?case
  proof (cases "decides lib p test server url url_path ev")
    case True
    let ?c = "handle_event lib p test secret server url url_path ev c"
    have settled: "promise ?c \<noteq> Pending" "wait_result (promise ?c) = verdict lib p secret server url url_path ev"
        "escaped_exceptions ?c = []"
      using handle_event_decides(1) [OF True Cons.prems(1)] Cons.prems(2) by simp_all
    then show ?thesis
      using True by (simp add: end_of_client_def fold_handle_event_settled fold_handle_event_escapes filter_empty_conv)
  next
    case False
    with Cons show ?thesis by (simp add: handle_event_idle)
  qed
qed

section \<open>Properties\<close>

text \<open>C31. What the client ends with, for every sequence of events: the first event that decides gives the exit. In the
  peer connection test that is the track opening, which succeeds; in the data channel test a message, which succeeds if
  it is the text that was sent and else is an error; and in both the loss of the connection or a failed exchange of
  descriptions, which are errors. Without such an event the time runs out. A second one, though, lets a
  \<^verbatim>\<open>future_error\<close> out of its callback, and ends the program when libdatachannel does not catch it.\<close>

theorem client_outcome:
  assumes "parse_arguments argv 1 0 ''http://localhost:8080/offer'' = Inr (Arguments test url)"
    and "split_url test url = Inr (server, url_path)" "connection_error p = None"
  shows "client_main lib p draw evs argv =
    (case filter (decides lib p test server url url_path) evs of
       [] \<Rightarrow> fail (Runtime_error ''Timeout'')
     | ev # later \<Rightarrow>
         if later \<noteq> [] \<and> \<not> catches_exceptions p then aborted
         else verdict lib p (randomString draw 5) server url url_path ev)"
  using assms by (simp add: client_main_def end_of_client_events client_init_def)

text \<open>A peer that has no local description.\<close>

definition silent_peer :: peer where
  "silent_peer = \<lparr>connection_error = None, local_desc = None, http_post = (\<lambda>_ _ _ _. Inl 2),
     remote_error = (\<lambda>_ _. None), catches_exceptions = False\<rparr>"

theorem client_outcome_witness:
  "client_main (vendored_json (\<lambda>_. 0) CHR ''.'') silent_peer (\<lambda>_. 0) [Track_open, Pc_state Pc_connected] [''client''] = succeed [] \<and>
   client_main (vendored_json (\<lambda>_. 0) CHR ''.'') silent_peer (\<lambda>_. 0) [Track_open, Pc_state Pc_disconnected] [''client''] = aborted"
proof -
  have arguments: "parse_arguments [''client''] 1 0 ''http://localhost:8080/offer'' =
      Inr (Arguments 0 ''http://localhost:8080/offer'')" by (subst parse_arguments.simps) simp
  have "find_last_of CHR ''/'' ''http://localhost:8080/offer'' = Some 21" by code_simp
  then have url: "split_url 0 ''http://localhost:8080/offer'' = Inr (''http://localhost:8080'', ''/offer'')"
    by (simp add: split_url_def)
  have p: "connection_error silent_peer = None" "\<not> catches_exceptions silent_peer" by (simp_all add: silent_peer_def)
  show ?thesis by (simp add: client_outcome [OF arguments url p(1)] decides_def verdict_def p(2))
qed

text \<open>A command line as the usage text describes it, an optional URL followed by options in any order
  and number, is read as the last test number and the last URL given.\<close>

lemma command_line_parsed:
  assumes "\<forall>u. position_url = Some u \<longrightarrow> u = [] \<or> hd u \<noteq> CHR ''-''"
  shows "parse_arguments
      (program # (case position_url of None \<Rightarrow> [] | Some u \<Rightarrow> [u]) @ concat (map render_option opts)) 1 0 url0 =
    (case fold apply_option opts (0, case position_url of None \<Rightarrow> url0 | Some u \<Rightarrow> u) of
       (test, url) \<Rightarrow> Inr (Arguments test url))"
proof (cases position_url)
  case None
  then show ?thesis
    using parse_arguments_options [of "[program]" opts "[]" 0 url0]
      parse_arguments_end [of "program # concat (map render_option opts)"]
    by (simp split: prod.splits)
next
  case (Some u)
  then show ?thesis
    using parse_arguments_url [of u program "concat (map render_option opts)" 0 url0] assms
      parse_arguments_options [of "[program, u]" opts "[]" 0 u]
      parse_arguments_end [of "program # u # concat (map render_option opts)"]
    by (simp add: numeral_2_eq_2 split: prod.splits)
qed

lemma command_line_parsed_witness:
  "parse_arguments [''client'', ''http://h/o'', ''-t'', ''1''] 1 0 ''http://localhost:8080/offer'' =
     Inr (Arguments 1 ''http://h/o'')"
proof -
  have "atoi ''1'' = 1" by code_simp
  then show ?thesis
    using command_line_parsed [of "Some ''http://h/o''" "''client''" "[Test_number ''1'']" "''http://localhost:8080/offer''"]
    by simp
qed

text \<open>A URL is split at its last slash: the split succeeds with \<open>server\<close> and \<open>path\<close> exactly when the
  test number is 0 or 1 and the two make up the URL with \<open>path\<close> its last segment.\<close>

lemma url_split:
  "split_url test url = Inr (server, url_path) \<longleftrightarrow>
     (test = 0 \<or> test = 1) \<and> server @ url_path = url \<and>
     (\<exists>name. url_path = CHR ''/'' # name \<and> CHR ''/'' \<notin> set name)"
proof
  assume split: "split_url test url = Inr (server, url_path)"
  then show "(test = 0 \<or> test = 1) \<and> server @ url_path = url \<and>
     (\<exists>name. url_path = CHR ''/'' # name \<and> CHR ''/'' \<notin> set name)"
    using split_url_parts [OF split] by (auto simp: split_url_def split: if_splits)
next
  assume *: "(test = 0 \<or> test = 1) \<and> server @ url_path = url \<and>
     (\<exists>name. url_path = CHR ''/'' # name \<and> CHR ''/'' \<notin> set name)"
  then obtain name where name: "url_path = CHR ''/'' # name" "CHR ''/'' \<notin> set name" by blast
  with * have "find_last_of CHR ''/'' url = Some (length server)" using find_last_of_append by metis
  with * show "split_url test url = Inr (server, url_path)" by (auto simp: split_url_def)
qed

end
