(* ===== verification/Gst_Interop.thy ===== *)
theory Gst_Interop
  imports Gst_Echo Cjson_Roundtrip Ldc_Client
begin

text \<open>
  The client of \<^verbatim>\<open>src/libdatachannel/client.cpp\<close>, written in C++ with the vendored JSON library, against the
  server of \<^verbatim>\<open>src/gstreamer/gstreamer-webrtc-echo.c\<close>, written in C with cJSON: what one writes the other reads.
\<close>

lemma escape_char_length: "length (escape_char c) \<le> 6"
  by (simp add: escape_char_def hex4_lower_def)

lemma render_string_length: "length (render_string (Some s)) \<le> 6 * length s + 2"
proof -
  have "length (concat (map escape_char s)) \<le> 6 * length s" for s :: string
    using escape_char_length by (induction s) (auto intro: add_mono)
  moreover have "length (c_str s) \<le> length s" by (simp add: c_str_def length_takeWhile_le)
  ultimately have "length (concat (map escape_char (c_str s))) \<le> 6 * length s" by (meson le_trans mult_le_mono2)
  then show ?thesis by (simp add: render_string_def)
qed

text \<open>The printed length of an object of two strings.\<close>

lemma render_two:
  assumes "render dp (item_of zero_node (Jobject [(k1, Jstring a), (k2, Jstring b)])) True 0 = Some t"
  shows "length t \<le> 6 * (length k1 + length a + length k2 + length b) + 20"
  using assms render_string_length [of k1] render_string_length [of a] render_string_length [of k2] render_string_length [of b]
  by (auto simp: Let_def tabs_def)

section \<open>The offer\<close>

lemma ends_nul: "ends_text [CHR 0x00]"
  unfolding ends_text_def by (rule exI [of _ "[]"]) simp

lemma offer_parsed:
  assumes "dump_description (vendored_json ms dp) (sdp, ty) = Inr msg" "valid_utf8 sdp" "valid_utf8 ty" "unfailing h"
  shows "\<exists>e h'. msg \<noteq> [] \<and> unfailing h' \<and> cJSON_Parse dp' h (msg @ [CHR 0x00]) =
    Inr \<lparr>parsed = Some (item_of zero_node (description_json sdp ty)), parse_end = e, error_position = None, hooks_after = h'\<rparr>"
proof -
  note d = description_json_ok [OF assms(2,3)]
  obtain s where s: "json_dump (- 1) CHR '' '' False eh_strict (description_json sdp ty) = Inr s"
      "json_text dp (description_json sdp ty) s"
    using json_dump_text [OF d(1), of "- 1" "CHR '' ''" False eh_strict dp] d(3) by (auto simp: is_ws_def)
  then have m: "msg = s" using assms(1) by (simp add: vendored_dump_description)
  have "integral (description_json sdp ty)" "nesting (description_json sdp ty) \<le> CJSON_NESTING_LIMIT"
    by (simp_all add: description_json_def CJSON_NESTING_LIMIT_def)
  from cJSON_Parse_text [OF s(2) _ _ ends_nul this assms(4), of "[]" "[]" dp'] json_text_starts [OF s(2)]
  show ?thesis by (auto simp: m ws_def)
qed

lemma description_member:
  "object_item (Some (item_of zero_node (description_json sdp ty))) ''sdp'' =
     Some (Item (zero_node\<lparr>ctype := cJSON_String, key := Some ''sdp'', valuestring := Some sdp\<rparr>) [])"
proof -
  have "matching ''sdp'' True (Some ''sdp'')" by code_simp
  then show ?thesis by (simp add: object_item_def description_json_def)
qed

lemma string_item: "cJSON_IsString (Some (Item (n\<lparr>ctype := cJSON_String, key := k, valuestring := v\<rparr>) cs))"
  by (simp add: cJSON_IsString_def is_kind_def kind_def cJSON_String_def)

lemma offer_printed:
  assumes "unfailing h" "6 * (length sdp + length ty) + 100 \<le> INT_MAX"
  obtains t h' where "cJSON_Print junk dp (Some (item_of zero_node (description_json sdp ty))) h = Inr (Some t, h')"
    "unfailing h'"
proof -
  obtain t where t: "render dp (item_of zero_node (description_json sdp ty)) True 0 = Some t"
    by (auto simp: description_json_def Let_def)
  have "length t + 2 \<le> INT_MAX" using render_two [OF t [unfolded description_json_def]] assms(2) by simp
  from print_succeeds [OF assms(1) t this, of junk] that show thesis by (auto simp: cJSON_Print_def)
qed

section \<open>The answer\<close>

lemma answer_items_value:
  "no_nul sdp \<Longrightarrow> answer_items sdp = item_of zero_node (Jobject [(''type'', Jstring ''answer''), (''sdp'', Jstring sdp)])"
proof -
  have "cJSON_String AND NOT cJSON_StringIsConst = cJSON_String" by (simp add: cJSON_String_def cJSON_StringIsConst_def)
  moreover have "c_str ''answer'' = ''answer''" "c_str ''type'' = ''type''" "c_str ''sdp'' = ''sdp''" by code_simp+
  ultimately show "no_nul sdp \<Longrightarrow> ?thesis"
    by (simp add: answer_items_def text_item_def keyed_def c_str_no_nul)
qed

lemma answer_printed:
  assumes "unfailing h" "valid_utf8 sdp" "no_nul sdp" "6 * length sdp + 200 \<le> INT_MAX"
  obtains t h' where "cJSON_Print junk dp (Some (answer_items sdp)) h = Inr (Some (t @ [CHR 0x00]), h')" "unfailing h'"
    "c_str (t @ [CHR 0x00]) = t" "parse_description (vendored_json ms dp') t = Inr (sdp, ''answer'')"
proof -
  let ?v = "Jobject [(''type'', Jstring ''answer''), (''sdp'', Jstring sdp)]"
  have "printable_value ?v" using assms(2,3) valid_utf8_keys by (simp add: valid_utf8_ascii)
  from rendersD [OF value_renders [OF this]] obtain t where t: "render dp (item_of zero_node ?v) True 0 = Some t" "json_text dp' ?v t"
    by blast
  have "length t + 2 \<le> INT_MAX" using render_two [OF t(1)] assms(4) by simp
  from print_succeeds [OF assms(1) t(1) this, of junk] obtain h' where
      "cJSON_Print junk dp (Some (answer_items sdp)) h = Inr (Some (t @ [CHR 0x00]), h')" "unfailing h'"
    by (auto simp: cJSON_Print_def answer_items_value [OF assms(3)])
  moreover have "c_str (t @ [CHR 0x00]) = t"
    using c_str_no_nul [OF no_nul_json_text(1) [OF t(2)]] by (simp add: c_str_def takeWhile_eq_all_conv)
  moreover have "normalise ?v = description_json sdp ''answer''"
    using key_order by (simp add: description_json_def store_def)
  with json_parse_text [OF t(2), of "[]" "[]" ms True False] ends_text_ws [of "[]"]
  have "parse_text (vendored_json ms dp') t = Inr (description_json sdp ''answer'')"
    by (simp add: vendored_json_def)
  then have "parse_description (vendored_json ms dp') t = Inr (sdp, ''answer'')"
    by (simp add: parse_description_def vendored_description_members)
  ultimately show thesis using that by blast
qed

lemma gst_ready:
  assumes "gst_launch g" "gst_sendonly g" "gst_plays g" "gst_sdp g sdp" "gst_replies g sdp" "no_nul sdp"
    "gst_answer g sdp = Some (Some answer)"
  shows "negotiate_answer junk dp g sdp st = send_answer junk dp answer (st\<lparr>offers := offers st @ [sdp]\<rparr>)"
  using assms by (simp add: negotiate_answer_def create_webrtc_def set_offer_def c_str_no_nul Let_def)

text \<open>C35. The client and the C server fit together: the server reads from the client's message, with cJSON,
  the SDP the client put in, hands it to GStreamer unchanged, and the client reads from the server's reply,
  with the C++ library, the SDP GStreamer answered with and the type \<^verbatim>\<open>answer\<close> (when memory lasts, for SDP
  texts without NUL, in whatever locales the two run).\<close>

theorem gst_answers_client:
  assumes "dump_description (vendored_json ms dp) (sdp, ty) = Inr msg"
    and "valid_utf8 sdp" "no_nul sdp" "valid_utf8 ty" "valid_utf8 answer" "no_nul answer"
    and "gst_launch g" "gst_sendonly g" "gst_plays g" "gst_sdp g sdp" "gst_replies g sdp"
    and "gst_answer g sdp = Some (Some answer)"
    and "bounded (heap st)" "unfailing (shooks (heap st))" "type req \<noteq> EVHTTP_REQ_OPTIONS" "body req = msg"
    and "6 * (length sdp + length ty) + 100 \<le> INT_MAX" "6 * length answer + 200 \<le> INT_MAX"
  shows "\<exists>reply st'. on_http_request_cb junk dp' g null_prints True True req st = (Gst_replied (json_reply reply), st') \<and>
    offers st' = offers st @ [sdp] \<and> parse_description (vendored_json ms dp) reply = Inr (answer, ''answer'')"
proof -
  let ?it = "item_of zero_node (description_json sdp ty)"
  obtain e h1 where p: "msg \<noteq> []" "unfailing h1" "cJSON_Parse dp' (shooks (heap st)) (msg @ [CHR 0x00]) =
      Inr \<lparr>parsed = Some ?it, parse_end = e, error_position = None, hooks_after = h1\<rparr>"
    using offer_parsed [OF assms(1,2,4,14)] by blast
  obtain t h2 where q: "cJSON_Print junk dp' (Some ?it) h1 = Inr (Some t, h2)" "unfailing h2"
    by (rule offer_printed [OF p(2) assms(17)])
  define s0 where "s0 = (heap st)\<lparr>shooks := h2\<rparr>"
  have s0: "bounded s0" "unfailing (shooks s0)" using assms(13) q(2) by (simp_all add: s0_def bounded_def)
  obtain a s1 where s1: "answer_object answer s0 = Inr (Some a, s1)" "unfailing (shooks s1)"
      "item_at (2 * next_addr s1) (cells s1) a = Some (answer_items answer)"
    by (rule answer_object_builds [OF s0])
  obtain reply h3 where r: "cJSON_Print junk dp' (Some (answer_items answer)) (shooks s1) = Inr (Some (reply @ [CHR 0x00]), h3)"
      "c_str (reply @ [CHR 0x00]) = reply" "parse_description (vendored_json ms dp) reply = Inr (answer, ''answer'')"
    by (rule answer_printed [OF s1(2) assms(5,6,18)])
  have sent: "send_answer junk dp' answer x = (Gst_replied (json_reply reply), x\<lparr>heap := s1\<lparr>shooks := h3\<rparr>, blocks := blocks x + 1\<rparr>)"
    if "heap x = s0" for x
    using s1 r(1,2) that by (simp add: send_answer_def)
  have "\<exists>st'. on_http_request_cb junk dp' g null_prints True True req st = (Gst_replied (json_reply reply), st') \<and>
      offers st' = offers st @ [sdp]"
    using assms(15,16) p q
    by (simp add: on_http_request_cb_def Let_def description_member string_item gst_ready [OF assms(7-11,3,12)] sent s0_def)
  with r(3) show ?thesis by blast
qed

theorem gst_answers_client_witness:
  "\<exists>msg reply st'. dump_description (vendored_json (\<lambda>_. 0) CHR ''.'') (''v=0'', ''offer'') = Inr msg \<and>
    on_http_request_cb (\<lambda>_ _. CHR ''x'') CHR '','' ready_gst True True True (post_request msg) no_requests =
      (Gst_replied (json_reply reply), st') \<and>
    parse_description (vendored_json (\<lambda>_. 0) CHR ''.'') reply = Inr (''v=0'', ''answer'')"
proof -
  have u: "valid_utf8 ''v=0''" "valid_utf8 ''offer''" by (simp_all add: valid_utf8_ascii)
  obtain msg where msg: "dump_description (vendored_json (\<lambda>_. 0) CHR ''.'') (''v=0'', ''offer'') = Inr msg"
    by (rule vendored.message_obtains [OF u])
  from gst_answers_client [OF msg u(1) _ u(2) u(1), of ready_gst no_requests "post_request msg" "\<lambda>_ _. CHR ''x''" "CHR '',''" True]
  show ?thesis
    using msg by (auto simp: ready_gst_def no_requests_def no_store_def post_request_def bounded_def INT_MAX_def)
qed

end
