(* ===== verification/Fake_Audio.thy ===== *)
theory Fake_Audio
  imports Prelude
begin

text \<open>
  The audio device module \<^verbatim>\<open>FakeAudioCaptureModule\<close> of
  \<^verbatim>\<open>src/libwebrtc/fake_audio_capture_module.cc\<close> and its header: the device the echo server gives
  to the WebRTC library so that it answers an audio offer. The record \<open>fake_audio\<close> has the data
  members of the class, one definition stands for each member function. The two sample buffers are
  lists of 16-bit samples (the type \<^verbatim>\<open>Sample\<close> through which the code accesses them); the
  constructor leaves them uninitialised, so their initial contents are an argument.

  \<^verbatim>\<open>webrtc::AudioTransport\<close>, which the module calls back, and the clock \<^verbatim>\<open>rtc::TimeMillis\<close> are not
  part of this repository: the former is the record \<open>audio_transport\<close> of what its two functions do
  to their in-out arguments, the latter the times read are arguments. \<^verbatim>\<open>RTC_DCHECK_NOTREACHED\<close> ends
  the program when the checks are compiled in (\<open>dcheck\<close>): then the result is \<open>None\<close>. Getters with a
  pointer argument return what they store through it, \<open>None\<close> where they store nothing.
\<close>

section \<open>Constants and state\<close>

type_synonym sample = "16 word"

definition kNumberSamples :: nat where "kNumberSamples = 440"
definition kHighSampleValue :: int where "kHighSampleValue = 10000"
definition kTimePerFrameMs :: "64 word" where "kTimePerFrameMs = 10"
definition kMaxVolume :: "32 word" where "kMaxVolume = 14392"

record audio_transport =
  NeedMorePlayData :: "sample list \<Rightarrow> sample list"
  RecordedDataIsAvailable :: "sample list \<Rightarrow> 32 word \<Rightarrow> 32 word"

record fake_audio =
  audio_callback :: "audio_transport option"
  recording :: bool
  playing :: bool
  play_is_initialized :: bool
  rec_is_initialized :: bool
  current_mic_level :: "32 word"
  started :: bool
  next_frame_time :: "64 word"
  rec_buffer :: "sample list"
  send_buffer :: "sample list"
  frames_received :: "32 word"

definition FakeAudioCaptureModule :: "sample list \<Rightarrow> sample list \<Rightarrow> fake_audio" where
  "FakeAudioCaptureModule rec0 send0 =
     \<lparr>audio_callback = None, recording = False, playing = False, play_is_initialized = False,
      rec_is_initialized = False, current_mic_level = kMaxVolume, started = False,
      next_frame_time = 0, rec_buffer = rec0, send_buffer = send0, frames_received = 0\<rparr>"

section \<open>Buffers\<close>

text \<open>The loops over a buffer; assignment of an \<^verbatim>\<open>int\<close> to a sample keeps its low 16 bits, and a sample
  is compared as an \<^verbatim>\<open>int\<close>.\<close>

fun set_samples :: "int \<Rightarrow> nat \<Rightarrow> sample list \<Rightarrow> sample list" where
  "set_samples value 0 b = b"
| "set_samples value (Suc i) b = (set_samples value i b)[i := word_of_int value]"

definition SetSendBuffer :: "int \<Rightarrow> fake_audio \<Rightarrow> fake_audio" where
  "SetSendBuffer value a = a\<lparr>send_buffer := set_samples value kNumberSamples (send_buffer a)\<rparr>"

definition ResetRecBuffer :: "fake_audio \<Rightarrow> fake_audio" where
  "ResetRecBuffer a = a\<lparr>rec_buffer := replicate kNumberSamples 0\<rparr>"

fun check_samples :: "int \<Rightarrow> sample list \<Rightarrow> bool" where
  "check_samples value [] = False"
| "check_samples value (x # xs) = (if uint x \<ge> value then True else check_samples value xs)"

definition CheckRecBuffer :: "int \<Rightarrow> fake_audio \<Rightarrow> bool" where
  "CheckRecBuffer value a = check_samples value (take kNumberSamples (rec_buffer a))"

definition Initialize :: "fake_audio \<Rightarrow> bool \<times> fake_audio" where
  "Initialize a = (True, SetSendBuffer kHighSampleValue a)"

definition Create :: "sample list \<Rightarrow> sample list \<Rightarrow> fake_audio option" where
  "Create rec0 send0 =
     (case Initialize (FakeAudioCaptureModule rec0 send0) of (ok, a) \<Rightarrow>
        if \<not> ok then None else Some a)"

section \<open>Processing\<close>

definition ShouldStartProcessing :: "fake_audio \<Rightarrow> bool" where
  "ShouldStartProcessing a = (recording a \<or> playing a)"

definition UpdateProcessing :: "bool \<Rightarrow> fake_audio \<Rightarrow> fake_audio" where
  "UpdateProcessing start a = (if \<not> start then a\<lparr>started := False\<rparr> else a)"

definition ReceiveFrameP :: "fake_audio \<Rightarrow> fake_audio" where
  "ReceiveFrameP a =
     (case audio_callback a of
        None \<Rightarrow> a
      | Some t \<Rightarrow>
          (let a1 = ResetRecBuffer a;
               a2 = a1\<lparr>rec_buffer := NeedMorePlayData t (rec_buffer a1)\<rparr>
           in if CheckRecBuffer kHighSampleValue a2
              then a2\<lparr>frames_received := frames_received a2 + 1\<rparr> else a2))"

definition SendFrameP :: "fake_audio \<Rightarrow> fake_audio" where
  "SendFrameP a =
     (case audio_callback a of
        None \<Rightarrow> a
      | Some t \<Rightarrow>
          a\<lparr>current_mic_level := RecordedDataIsAvailable t (send_buffer a) (current_mic_level a)\<rparr>)"

text \<open>\<open>now\<close> is the time read at the first frame; the wait until the next frame is computed and not
  used.\<close>

definition ProcessFrameP :: "64 word \<Rightarrow> fake_audio \<Rightarrow> fake_audio" where
  "ProcessFrameP now a =
     (let a1 = (if \<not> started a then a\<lparr>next_frame_time := now, started := True\<rparr> else a);
          a2 = (if playing a1 then ReceiveFrameP a1 else a1);
          a3 = (if recording a2 then SendFrameP a2 else a2)
      in a3\<lparr>next_frame_time := next_frame_time a3 + kTimePerFrameMs\<rparr>)"

definition StartProcessP :: "64 word \<Rightarrow> fake_audio \<Rightarrow> fake_audio" where
  "StartProcessP now a = (if started a then a else ProcessFrameP now a)"

section \<open>The interface of \<^verbatim>\<open>AudioDeviceModule\<close>\<close>

definition NotReached :: "bool \<Rightarrow> int \<Rightarrow> int option" where
  "NotReached dcheck r = (if dcheck then None else Some r)"

definition RegisterAudioCallback :: "audio_transport option \<Rightarrow> fake_audio \<Rightarrow> int \<times> fake_audio" where
  "RegisterAudioCallback cb a = (0, a\<lparr>audio_callback := cb\<rparr>)"

definition ActiveAudioLayer :: "bool \<Rightarrow> fake_audio \<Rightarrow> int option" where
  "ActiveAudioLayer dcheck a = NotReached dcheck 0"

definition Init :: "fake_audio \<Rightarrow> int \<times> fake_audio" where "Init a = (0, a)"

definition Terminate :: "fake_audio \<Rightarrow> int \<times> fake_audio" where "Terminate a = (0, a)"

definition Initialized :: "bool \<Rightarrow> fake_audio \<Rightarrow> int option" where
  "Initialized dcheck a = NotReached dcheck 0"

definition PlayoutDevices :: "bool \<Rightarrow> fake_audio \<Rightarrow> int option" where
  "PlayoutDevices dcheck a = NotReached dcheck 0"

definition RecordingDevices :: "bool \<Rightarrow> fake_audio \<Rightarrow> int option" where
  "RecordingDevices dcheck a = NotReached dcheck 0"

definition PlayoutDeviceName :: "bool \<Rightarrow> 16 word \<Rightarrow> fake_audio \<Rightarrow> int option" where
  "PlayoutDeviceName dcheck index a = NotReached dcheck 0"

definition RecordingDeviceName :: "bool \<Rightarrow> 16 word \<Rightarrow> fake_audio \<Rightarrow> int option" where
  "RecordingDeviceName dcheck index a = NotReached dcheck 0"

text \<open>\<^verbatim>\<open>SetPlayoutDevice\<close> and \<^verbatim>\<open>SetRecordingDevice\<close> are overloaded: by index, and by Windows device.\<close>

definition SetPlayoutDevice :: "16 word \<Rightarrow> fake_audio \<Rightarrow> int \<times> fake_audio" where
  "SetPlayoutDevice index a = (0, a)"

definition SetPlayoutDevice_windows :: "fake_audio \<Rightarrow> int \<times> fake_audio" where
  "SetPlayoutDevice_windows a = (if play_is_initialized a then (- 1, a) else (0, a))"

definition SetRecordingDevice :: "16 word \<Rightarrow> fake_audio \<Rightarrow> int \<times> fake_audio" where
  "SetRecordingDevice index a = (0, a)"

definition SetRecordingDevice_windows :: "fake_audio \<Rightarrow> int \<times> fake_audio" where
  "SetRecordingDevice_windows a = (if rec_is_initialized a then (- 1, a) else (0, a))"

definition PlayoutIsAvailable :: "bool \<Rightarrow> fake_audio \<Rightarrow> int option" where
  "PlayoutIsAvailable dcheck a = NotReached dcheck 0"

definition InitPlayout :: "fake_audio \<Rightarrow> int \<times> fake_audio" where
  "InitPlayout a = (0, a\<lparr>play_is_initialized := True\<rparr>)"

definition PlayoutIsInitialized :: "fake_audio \<Rightarrow> bool" where
  "PlayoutIsInitialized a = play_is_initialized a"

definition RecordingIsAvailable :: "bool \<Rightarrow> fake_audio \<Rightarrow> int option" where
  "RecordingIsAvailable dcheck a = NotReached dcheck 0"

definition InitRecording :: "fake_audio \<Rightarrow> int \<times> fake_audio" where
  "InitRecording a = (0, a\<lparr>rec_is_initialized := True\<rparr>)"

definition RecordingIsInitialized :: "fake_audio \<Rightarrow> bool" where
  "RecordingIsInitialized a = rec_is_initialized a"

definition StartPlayout :: "fake_audio \<Rightarrow> int \<times> fake_audio" where
  "StartPlayout a =
     (if \<not> play_is_initialized a then (- 1, a)
      else (0, UpdateProcessing True (a\<lparr>playing := True\<rparr>)))"

definition StopPlayout :: "fake_audio \<Rightarrow> int \<times> fake_audio" where
  "StopPlayout a =
     (let a1 = a\<lparr>playing := False\<rparr> in (0, UpdateProcessing (ShouldStartProcessing a1) a1))"

definition Playing :: "fake_audio \<Rightarrow> bool" where "Playing a = playing a"

definition StartRecording :: "fake_audio \<Rightarrow> int \<times> fake_audio" where
  "StartRecording a =
     (if \<not> rec_is_initialized a then (- 1, a)
      else (0, UpdateProcessing True (a\<lparr>recording := True\<rparr>)))"

definition StopRecording :: "fake_audio \<Rightarrow> int \<times> fake_audio" where
  "StopRecording a =
     (let a1 = a\<lparr>recording := False\<rparr> in (0, UpdateProcessing (ShouldStartProcessing a1) a1))"

definition Recording :: "fake_audio \<Rightarrow> bool" where "Recording a = recording a"

definition InitSpeaker :: "fake_audio \<Rightarrow> int \<times> fake_audio" where "InitSpeaker a = (0, a)"
definition SpeakerIsInitialized :: "fake_audio \<Rightarrow> bool" where "SpeakerIsInitialized a = False"
definition InitMicrophone :: "fake_audio \<Rightarrow> int \<times> fake_audio" where "InitMicrophone a = (0, a)"
definition MicrophoneIsInitialized :: "fake_audio \<Rightarrow> bool" where "MicrophoneIsInitialized a = False"

definition SpeakerVolumeIsAvailable :: "fake_audio \<Rightarrow> int \<times> bool option" where
  "SpeakerVolumeIsAvailable a = (0, None)"

definition SetSpeakerVolume :: "32 word \<Rightarrow> fake_audio \<Rightarrow> int \<times> fake_audio" where
  "SetSpeakerVolume volume a = (0, a)"

definition SpeakerVolume :: "fake_audio \<Rightarrow> int \<times> 32 word option" where
  "SpeakerVolume a = (0, None)"

definition MaxSpeakerVolume :: "fake_audio \<Rightarrow> int \<times> 32 word option" where
  "MaxSpeakerVolume a = (0, None)"

definition MinSpeakerVolume :: "fake_audio \<Rightarrow> int \<times> 32 word option" where
  "MinSpeakerVolume a = (0, None)"

definition MicrophoneVolumeIsAvailable :: "fake_audio \<Rightarrow> int \<times> bool option" where
  "MicrophoneVolumeIsAvailable a = (0, None)"

definition SetMicrophoneVolume :: "32 word \<Rightarrow> fake_audio \<Rightarrow> int \<times> fake_audio" where
  "SetMicrophoneVolume volume a = (0, a\<lparr>current_mic_level := volume\<rparr>)"

definition MicrophoneVolume :: "fake_audio \<Rightarrow> int \<times> 32 word option" where
  "MicrophoneVolume a = (0, Some (current_mic_level a))"

definition MaxMicrophoneVolume :: "fake_audio \<Rightarrow> int \<times> 32 word option" where
  "MaxMicrophoneVolume a = (0, Some kMaxVolume)"

definition MinMicrophoneVolume :: "fake_audio \<Rightarrow> int \<times> 32 word option" where
  "MinMicrophoneVolume a = (0, None)"

definition SpeakerMuteIsAvailable :: "fake_audio \<Rightarrow> int \<times> bool option" where
  "SpeakerMuteIsAvailable a = (0, None)"

definition SetSpeakerMute :: "bool \<Rightarrow> fake_audio \<Rightarrow> int \<times> fake_audio" where
  "SetSpeakerMute enable a = (0, a)"

definition SpeakerMute :: "fake_audio \<Rightarrow> int \<times> bool option" where "SpeakerMute a = (0, None)"

definition MicrophoneMuteIsAvailable :: "fake_audio \<Rightarrow> int \<times> bool option" where
  "MicrophoneMuteIsAvailable a = (0, None)"

definition SetMicrophoneMute :: "bool \<Rightarrow> fake_audio \<Rightarrow> int \<times> fake_audio" where
  "SetMicrophoneMute enable a = (0, a)"

definition MicrophoneMute :: "fake_audio \<Rightarrow> int \<times> bool option" where "MicrophoneMute a = (0, None)"

definition StereoPlayoutIsAvailable :: "fake_audio \<Rightarrow> int \<times> bool option" where
  "StereoPlayoutIsAvailable a = (0, Some True)"

definition SetStereoPlayout :: "bool \<Rightarrow> fake_audio \<Rightarrow> int \<times> fake_audio" where
  "SetStereoPlayout enable a = (0, a)"

definition StereoPlayout :: "fake_audio \<Rightarrow> int \<times> bool option" where "StereoPlayout a = (0, None)"

definition StereoRecordingIsAvailable :: "fake_audio \<Rightarrow> int \<times> bool option" where
  "StereoRecordingIsAvailable a = (0, Some False)"

definition SetStereoRecording :: "bool \<Rightarrow> fake_audio \<Rightarrow> int \<times> fake_audio" where
  "SetStereoRecording enable a = (if \<not> enable then (0, a) else (- 1, a))"

definition StereoRecording :: "fake_audio \<Rightarrow> int \<times> bool option" where "StereoRecording a = (0, None)"

definition PlayoutDelay :: "fake_audio \<Rightarrow> int \<times> 16 word option" where "PlayoutDelay a = (0, Some 0)"

section \<open>What callers can reach\<close>

text \<open>The calls of the public interface that may change the module.\<close>

inductive adm_step :: "fake_audio \<Rightarrow> fake_audio \<Rightarrow> bool" where
  register: "adm_step a (snd (RegisterAudioCallback cb a))"
| init: "adm_step a (snd (Init a))"
| terminate: "adm_step a (snd (Terminate a))"
| init_playout: "adm_step a (snd (InitPlayout a))"
| init_recording: "adm_step a (snd (InitRecording a))"
| start_playout: "adm_step a (snd (StartPlayout a))"
| stop_playout: "adm_step a (snd (StopPlayout a))"
| start_recording: "adm_step a (snd (StartRecording a))"
| stop_recording: "adm_step a (snd (StopRecording a))"
| set_microphone_volume: "adm_step a (snd (SetMicrophoneVolume v a))"
| set_playout_device: "adm_step a (snd (SetPlayoutDevice i a))"
| set_playout_device_windows: "adm_step a (snd (SetPlayoutDevice_windows a))"
| set_recording_device: "adm_step a (snd (SetRecordingDevice i a))"
| set_recording_device_windows: "adm_step a (snd (SetRecordingDevice_windows a))"
| init_speaker: "adm_step a (snd (InitSpeaker a))"
| init_microphone: "adm_step a (snd (InitMicrophone a))"
| set_speaker_volume: "adm_step a (snd (SetSpeakerVolume v a))"
| set_speaker_mute: "adm_step a (snd (SetSpeakerMute b a))"
| set_microphone_mute: "adm_step a (snd (SetMicrophoneMute b a))"
| set_stereo_playout: "adm_step a (snd (SetStereoPlayout b a))"
| set_stereo_recording: "adm_step a (snd (SetStereoRecording b a))"

inductive adm_reachable :: "fake_audio \<Rightarrow> bool" where
  created: "length rec0 = kNumberSamples \<Longrightarrow> length send0 = kNumberSamples \<Longrightarrow>
     Create rec0 send0 = Some a \<Longrightarrow> adm_reachable a"
| step: "adm_reachable a \<Longrightarrow> adm_step a a' \<Longrightarrow> adm_reachable a'"

definition adm_inv :: "fake_audio \<Rightarrow> bool" where
  "adm_inv a \<longleftrightarrow>
     (playing a \<longrightarrow> play_is_initialized a) \<and> (recording a \<longrightarrow> rec_is_initialized a) \<and>
     \<not> started a \<and> frames_received a = 0 \<and> next_frame_time a = 0 \<and>
     send_buffer a = replicate kNumberSamples 10000 \<and> length (rec_buffer a) = kNumberSamples"

lemmas adm_defs =
  RegisterAudioCallback_def Init_def Terminate_def InitPlayout_def InitRecording_def
  StartPlayout_def StopPlayout_def StartRecording_def StopRecording_def SetMicrophoneVolume_def
  SetPlayoutDevice_def SetPlayoutDevice_windows_def SetRecordingDevice_def
  SetRecordingDevice_windows_def InitSpeaker_def InitMicrophone_def SetSpeakerVolume_def
  SetSpeakerMute_def SetMicrophoneMute_def SetStereoPlayout_def SetStereoRecording_def
  UpdateProcessing_def ShouldStartProcessing_def

lemma length_set_samples [simp]: "length (set_samples v n b) = length b"
  by (induction n) simp_all

lemma nth_set_samples:
  "i < length b \<Longrightarrow> set_samples v n b ! i = (if i < n then word_of_int v else b ! i)"
  by (induction n) (auto simp: nth_list_update less_Suc_eq)

lemma set_samples_all: "length b = n \<Longrightarrow> set_samples v n b = replicate n (word_of_int v)"
  by (simp add: list_eq_iff_nth_eq nth_set_samples)

lemma check_samples_iff: "check_samples v xs \<longleftrightarrow> (\<exists>x \<in> set xs. v \<le> uint x)"
  by (induction xs) auto

lemma Create_ok: "Create rec0 send0 \<noteq> None"
  by (simp add: Create_def Initialize_def)

lemma adm_inv_Create:
  "length rec0 = kNumberSamples \<Longrightarrow> length send0 = kNumberSamples \<Longrightarrow> Create rec0 send0 = Some a \<Longrightarrow>
     adm_inv a"
  by (auto simp: Create_def Initialize_def SetSendBuffer_def FakeAudioCaptureModule_def adm_inv_def
      set_samples_all kHighSampleValue_def)

lemma adm_inv_step: "adm_step a a' \<Longrightarrow> adm_inv a \<Longrightarrow> adm_inv a'"
  by (induction rule: adm_step.induct) (auto simp: adm_defs adm_inv_def Let_def)

lemma adm_reachable_inv: "adm_reachable a \<Longrightarrow> adm_inv a"
  by (induction rule: adm_reachable.induct) (auto intro: adm_inv_Create adm_inv_step)

text \<open>The microphone level read back is the one set last, whatever else is called in between.\<close>

lemma adm_step_mic_level:
  "adm_step a a' \<Longrightarrow> current_mic_level a' = current_mic_level a \<or> (\<exists>v. a' = snd (SetMicrophoneVolume v a))"
  by (induction rule: adm_step.induct) (auto simp: adm_defs Let_def)

section \<open>Frames\<close>

text \<open>A processed frame counts as received exactly when playout is on, a callback is registered and
  the callback delivers a sample of at least \<open>kHighSampleValue\<close>.\<close>

lemma ReceiveFrameP_count:
  "frames_received (ReceiveFrameP a) = frames_received a +
     (case audio_callback a of
        None \<Rightarrow> 0
      | Some t \<Rightarrow>
          if \<exists>x \<in> set (take kNumberSamples (NeedMorePlayData t (replicate kNumberSamples 0))).
               kHighSampleValue \<le> uint x
          then 1 else 0)"
  by (simp add: ReceiveFrameP_def CheckRecBuffer_def check_samples_iff ResetRecBuffer_def Let_def
      split: option.splits)

lemma SendFrameP_frames [simp]: "frames_received (SendFrameP a) = frames_received a"
  by (simp add: SendFrameP_def split: option.splits)

lemma ReceiveFrameP_frame [simp]:
  "recording (ReceiveFrameP a) = recording a" "started (ReceiveFrameP a) = started a"
  "next_frame_time (ReceiveFrameP a) = next_frame_time a"
  by (simp_all add: ReceiveFrameP_def ResetRecBuffer_def Let_def split: option.splits)

lemma SendFrameP_frame [simp]:
  "started (SendFrameP a) = started a" "next_frame_time (SendFrameP a) = next_frame_time a"
  by (simp_all add: SendFrameP_def split: option.splits)

lemma ProcessFrameP_time:
  "started (ProcessFrameP now a)"
  "next_frame_time (ProcessFrameP now a) = (if started a then next_frame_time a else now) + 10"
  by (simp_all add: ProcessFrameP_def kTimePerFrameMs_def Let_def)

text \<open>The frame times do not drift: after \<open>n\<close> frames the next one is due \<open>10 * n\<close> milliseconds
  after the first, whatever the clock showed in between.\<close>

fun process_frames :: "64 word list \<Rightarrow> fake_audio \<Rightarrow> fake_audio" where
  "process_frames [] a = a"
| "process_frames (t # ts) a = process_frames ts (ProcessFrameP t a)"

lemma process_frames_time:
  "started a \<Longrightarrow> next_frame_time (process_frames ts a) = next_frame_time a + 10 * of_nat (length ts)"
proof (induction ts arbitrary: a)
  case (Cons t ts)
  then show ?case using ProcessFrameP_time [of t a] by (simp add: algebra_simps)
qed simp

section \<open>Properties\<close>

text \<open>C39. Whatever sequence of interface calls the WebRTC library makes after \<^verbatim>\<open>Create\<close>, the module
  plays or records only when that direction has been initialised, its send buffer holds the high
  sample value throughout, its receive buffer keeps its size, and since no interface call starts the
  processing of frames, none is ever started or received.\<close>

theorem adm_invariant:
  assumes "adm_reachable a"
  shows "(playing a \<longrightarrow> play_is_initialized a) \<and> (recording a \<longrightarrow> rec_is_initialized a) \<and>
    \<not> started a \<and> frames_received a = 0 \<and>
    send_buffer a = replicate kNumberSamples (word_of_int kHighSampleValue) \<and>
    length (rec_buffer a) = kNumberSamples"
  using adm_reachable_inv [OF assms] by (simp add: adm_inv_def kHighSampleValue_def)

theorem adm_invariant_witness:
  "let a = snd (StartPlayout (snd (InitPlayout (the (Create (replicate 440 7) (replicate 440 9))))))
   in playing a \<and> play_is_initialized a \<and> \<not> started a"
proof -
  define a where "a = the (Create (replicate 440 7) (replicate 440 9))"
  have c: "Create (replicate 440 7) (replicate 440 9) = Some a"
    unfolding a_def by (rule option.collapse [OF Create_ok, symmetric])
  have "adm_reachable a"
    by (rule adm_reachable.created [OF _ _ c]) (simp_all only: length_replicate kNumberSamples_def)
  then have reach: "adm_reachable (snd (StartPlayout (snd (InitPlayout a))))"
    by (rule adm_reachable.step [OF adm_reachable.step [OF _ adm_step.init_playout] adm_step.start_playout])
  have "playing (snd (StartPlayout (snd (InitPlayout a))))"
    by (simp add: InitPlayout_def StartPlayout_def UpdateProcessing_def)
  with adm_invariant [OF reach] show ?thesis unfolding a_def [symmetric] Let_def by blast
qed

text \<open>C40. The frame times do not drift: however late the clock readings are, after \<open>n\<close> frames the next
  one is due exactly \<open>10 * n\<close> milliseconds after the clock reading at the first frame.\<close>

theorem frames_do_not_drift:
  assumes "\<not> started a"
  shows "next_frame_time (process_frames (t # ts) a) = t + 10 * of_nat (length (t # ts))"
  using process_frames_time [of "ProcessFrameP t a" ts] ProcessFrameP_time [of t a] assms
  by (simp add: algebra_simps)

theorem frames_do_not_drift_witness:
  "next_frame_time (process_frames [100, 250, 117] (FakeAudioCaptureModule [] [])) = 130"
  using frames_do_not_drift [of "FakeAudioCaptureModule [] []" 100 "[250, 117]"]
  by (simp add: FakeAudioCaptureModule_def)

text \<open>Processing a frame counts it as received exactly when the module is playing, a callback is
  registered, and the callback fills in at least one sample that is at least \<^verbatim>\<open>kHighSampleValue\<close> when
  read as an unsigned number.\<close>

lemma frames_counted:
  "frames_received (ProcessFrameP now a) = frames_received a +
     (case audio_callback a of
        None \<Rightarrow> 0
      | Some t \<Rightarrow>
          if playing a \<and> (\<exists>x \<in> set (take kNumberSamples (NeedMorePlayData t (replicate kNumberSamples 0))).
               kHighSampleValue \<le> uint x)
          then 1 else 0)"
  using ReceiveFrameP_count [of a] ReceiveFrameP_count [of "a\<lparr>next_frame_time := now, started := True\<rparr>"]
  by (auto simp: ProcessFrameP_def Let_def split: option.splits)

text \<open>The comparison is unsigned, so a frame that is silent but for one sample of \<open>-1\<close> counts as
  received, although its magnitude is 1.\<close>

lemma negative_sample_counts:
  assumes "audio_callback a = Some t" "NeedMorePlayData t (replicate kNumberSamples 0) = (- 1) # replicate 439 0"
  shows "sint (- 1 :: sample) = - 1 \<and> frames_received (ReceiveFrameP a) = frames_received a + 1"
proof -
  have "uint (- 1 :: sample) = 65535" by code_simp
  then show ?thesis
    using ReceiveFrameP_count [of a] assms by (simp add: kHighSampleValue_def kNumberSamples_def)
qed

lemma negative_sample_counts_witness:
  "frames_received (ReceiveFrameP
     ((FakeAudioCaptureModule [] [])\<lparr>audio_callback :=
        Some \<lparr>NeedMorePlayData = (\<lambda>_. (- 1) # replicate 439 0), RecordedDataIsAvailable = (\<lambda>_ v. v)\<rparr>\<rparr>)) = 1"
  using negative_sample_counts
    [of "(FakeAudioCaptureModule [] [])\<lparr>audio_callback :=
        Some \<lparr>NeedMorePlayData = (\<lambda>_. (- 1) # replicate 439 0), RecordedDataIsAvailable = (\<lambda>_ v. v)\<rparr>\<rparr>"]
  by (simp add: FakeAudioCaptureModule_def)

end
