(* ===== verification/Ldc_Server.thy ===== *)
theory Ldc_Server
  imports Ldc_Client
begin

text \<open>
  The libdatachannel echo server, \<^verbatim>\<open>src/libdatachannel/server.cpp\<close>: the handler of \<^verbatim>\<open>POST /offer\<close>, the
  callbacks it registers, and \<^verbatim>\<open>main\<close>.
\<close>

section \<open>The offer\<close>

text \<open>
  What the handler uses of libdatachannel:
  \<^item> \<open>make_error\<close>: an exception of the constructor of \<^verbatim>\<open>PeerConnection\<close>;
  \<^item> \<open>description_error\<close> and \<open>set_remote_error\<close>: exceptions of \<^verbatim>\<open>Description\<close> and
    \<^verbatim>\<open>setRemoteDescription\<close>;
  \<^item> \<open>gathering\<close>: the state changes that setting the remote description brings about, each with the
    local description at that moment.
\<close>

record server_peer =
  description_error :: "string \<Rightarrow> string \<Rightarrow> std_exception option"
  make_error :: "std_exception option"
  set_remote_error :: "string \<Rightarrow> string \<Rightarrow> std_exception option"
  gathering :: "string \<Rightarrow> string \<Rightarrow> (gathering_state \<times> (string \<times> string) option) list"

text \<open>The callback, with the exceptions that escape from it. It holds the promise by reference: a second completion
  would find it settled, or, when the handler has returned in between, gone; the answer was then sent already.\<close>

definition server_gathering ::
    "'j json_library \<Rightarrow> gathering_state \<times> (string \<times> string) option \<Rightarrow>
     string promise \<times> std_exception list \<Rightarrow> string promise \<times> std_exception list" where
  "server_gathering lib ev st =
     (case (ev, st) of ((gs, desc), (p, esc)) \<Rightarrow>
        if gs = Gathering_complete then
          (case (case desc of
                   None \<Rightarrow> Inl Bad_optional_access
                 | Some d \<Rightarrow> try_bind (dump_description lib d) (\<lambda>msg. set_value msg p)) of
             Inr p' \<Rightarrow> (p', esc)
           | Inl e \<Rightarrow>
               (case set_exception e p of Inr p' \<Rightarrow> (p', esc) | Inl e' \<Rightarrow> (p, esc @ [e'])))
        else st)"

record server_response =
  res_status :: nat
  res_body :: string
  res_type :: string

text \<open>The exception handler of the server.\<close>

definition on_exception :: "std_exception \<Rightarrow> server_response" where
  "on_exception e =
     \<lparr>res_status = 500, res_body = ''500 Internal Server Error'', res_type = ''text/plain''\<rparr>"

text \<open>
  The body of the handler: \<open>None\<close> when \<^verbatim>\<open>future.get()\<close> waits for ever, otherwise what is thrown or the
  content that is set.
\<close>

definition offer_body :: "'j json_library \<Rightarrow> server_peer \<Rightarrow> string \<Rightarrow> (std_exception + string) option" where
  "offer_body lib sp req_body =
     (case parse_description lib req_body of
        Inl e \<Rightarrow> Some (Inl e)
      | Inr (sdp, ty) \<Rightarrow>
     (case description_error sp sdp ty of
        Some e \<Rightarrow> Some (Inl e)
      | None \<Rightarrow>
     (case make_error sp of
        Some e \<Rightarrow> Some (Inl e)
      | None \<Rightarrow>
     (case set_remote_error sp sdp ty of
        Some e \<Rightarrow> Some (Inl e)
      | None \<Rightarrow>
     (case fst (fold (server_gathering lib) (gathering sp sdp ty) (Pending, [])) of
        Pending \<Rightarrow> None
      | Exception e \<Rightarrow> Some (Inl e)
      | Value body \<Rightarrow> Some (Inr body))))))"

definition post_offer :: "'j json_library \<Rightarrow> server_peer \<Rightarrow> string \<Rightarrow> server_response option" where
  "post_offer lib sp req_body =
     (case offer_body lib sp req_body of
        None \<Rightarrow> None
      | Some (Inl e) \<Rightarrow> Some (on_exception e)
      | Some (Inr body) \<Rightarrow>
          Some \<lparr>res_status = 200, res_body = body, res_type = ''application/json''\<rparr>)"

section \<open>The connection\<close>

text \<open>What is sent on a data channel and on a track the client opens: the message callbacks of both send
  back what they receive.\<close>

record server_connection =
  channel_sent :: "message list"
  track_sent :: "message list"
  closed_by_server :: bool

datatype server_event =
    Server_channel_message message
  | Server_track_message message
  | Server_pc_state pc_state

definition server_event_step :: "server_event \<Rightarrow> server_connection \<Rightarrow> server_connection" where
  "server_event_step ev s =
     (case ev of
        Server_channel_message m \<Rightarrow> s\<lparr>channel_sent := channel_sent s @ [m]\<rparr>
      | Server_track_message m \<Rightarrow> s\<lparr>track_sent := track_sent s @ [m]\<rparr>
      | Server_pc_state pcs \<Rightarrow> if pcs = Pc_disconnected then s\<lparr>closed_by_server := True\<rparr> else s)"

definition server_connection_init :: server_connection where
  "server_connection_init = \<lparr>channel_sent = [], track_sent = [], closed_by_server = False\<rparr>"

section \<open>\<^verbatim>\<open>main\<close>\<close>

definition server_port :: "string list \<Rightarrow> 32 word" where
  "server_port argv = (if 1 < length argv then atoi (argv ! 1) else 8080)"

text \<open>\<open>listens port\<close> is what \<^verbatim>\<open>srv.listen\<close> returns when it ends.\<close>

definition server_main :: "(32 word \<Rightarrow> bool) \<Rightarrow> string list \<Rightarrow> program_exit" where
  "server_main listens argv =
     (let port = server_port argv;
          printed = ''Listening on 0.0.0.0:'' @ to_string_int (sint port) @ ''...'' @ [CHR 0x0A]
      in if listens port then \<lparr>cout = printed, cerr = [], exit_code = 0\<rparr>
         else \<lparr>cout = printed,
               cerr = ''Fatal error: Failed to listen on port '' @ to_string_int (sint port) @ [CHR 0x0A],
               exit_code = - 1\<rparr>)"

section \<open>Lemmas\<close>

lemma server_gathering_settled:
  "p \<noteq> Pending \<Longrightarrow> fst (server_gathering lib ev (p, esc)) = p"
  by (auto simp: server_gathering_def split: prod.splits option.splits sum.splits)
     (auto simp: try_bind_eq_Inr)

lemma fold_server_gathering_settled:
  "fst st \<noteq> Pending \<Longrightarrow> fst (fold (server_gathering lib) evs st) = fst st"
proof (induction evs arbitrary: st)
  case (Cons ev evs)
  then show ?case using server_gathering_settled [of "fst st" lib ev "snd st"] by simp
qed simp

lemma fold_server_gathering_waits:
  "Gathering_complete \<notin> fst ` set evs \<Longrightarrow> fold (server_gathering lib) evs st = st"
  by (induction evs arbitrary: st) (auto simp: server_gathering_def split: prod.splits)

text \<open>The first completion decides.\<close>

lemma fold_server_gathering_complete:
  assumes "Gathering_complete \<notin> fst ` set pre"
  shows "fst (fold (server_gathering lib) (pre @ (Gathering_complete, desc) # post) (Pending, esc)) =
    (case desc of
       None \<Rightarrow> Exception Bad_optional_access
     | Some d \<Rightarrow> (case dump_description lib d of Inl e \<Rightarrow> Exception e | Inr msg \<Rightarrow> Value msg))"
proof -
  let ?st = "server_gathering lib (Gathering_complete, desc) (Pending, esc)"
  have st: "fst ?st = (case desc of
       None \<Rightarrow> Exception Bad_optional_access
     | Some d \<Rightarrow> (case dump_description lib d of Inl e \<Rightarrow> Exception e | Inr msg \<Rightarrow> Value msg))"
    by (simp add: server_gathering_def split: option.splits sum.splits)
  then have "fst ?st \<noteq> Pending" by (simp split: option.splits sum.splits)
  then show ?thesis
    using st fold_server_gathering_waits [OF assms, of lib "(Pending, esc)"]
    by (simp add: fold_server_gathering_settled)
qed

text \<open>What was received on a channel and on a track, in order.\<close>

fun channel_messages :: "server_event list \<Rightarrow> message list" where
  "channel_messages [] = []"
| "channel_messages (Server_channel_message m # evs) = m # channel_messages evs"
| "channel_messages (_ # evs) = channel_messages evs"

fun track_messages :: "server_event list \<Rightarrow> message list" where
  "track_messages [] = []"
| "track_messages (Server_track_message m # evs) = m # track_messages evs"
| "track_messages (_ # evs) = track_messages evs"

lemma server_event_step_sent:
  "channel_sent (server_event_step ev s) = channel_sent s @ channel_messages [ev]"
  "track_sent (server_event_step ev s) = track_sent s @ track_messages [ev]"
  by (cases ev; simp add: server_event_step_def)+

lemma messages_Cons:
  "channel_messages (ev # evs) = channel_messages [ev] @ channel_messages evs"
  "track_messages (ev # evs) = track_messages [ev] @ track_messages evs"
  by (cases ev; simp)+

lemma server_echo_channel:
  "channel_sent (fold server_event_step evs s) = channel_sent s @ channel_messages evs"
proof (induction evs arbitrary: s)
  case (Cons ev evs)
  then show ?case by (simp add: server_event_step_sent messages_Cons(1) [of ev evs] del: channel_messages.simps)
qed simp

lemma server_echo_track:
  "track_sent (fold server_event_step evs s) = track_sent s @ track_messages evs"
proof (induction evs arbitrary: s)
  case (Cons ev evs)
  then show ?case by (simp add: server_event_step_sent messages_Cons(2) [of ev evs] del: track_messages.simps)
qed simp

lemmas offer_splits = sum.splits option.splits promise.splits prod.splits

lemma offer_accepted:
  assumes "parse_description lib body = Inr (sdp, ty)" "description_error sp sdp ty = None"
    and "make_error sp = None" "set_remote_error sp sdp ty = None"
  shows "post_offer lib sp body =
    (case fst (fold (server_gathering lib) (gathering sp sdp ty) (Pending, [])) of
       Pending \<Rightarrow> None
     | Exception e \<Rightarrow> Some (on_exception e)
     | Value msg \<Rightarrow> Some \<lparr>res_status = 200, res_body = msg, res_type = ''application/json''\<rparr>)"
  using assms by (simp add: post_offer_def offer_body_def split: promise.splits)

section \<open>Properties\<close>

text \<open>The handler answers an offer with the description the connection has when gathering completes
  for the first time; later state changes do not matter.\<close>

lemma first_completion_answers:
  assumes "parse_description lib body = Inr (sdp, ty)" "description_error sp sdp ty = None"
    and "make_error sp = None" "set_remote_error sp sdp ty = None"
    and "gathering sp sdp ty = pre @ (Gathering_complete, Some desc) # post" "Gathering_complete \<notin> fst ` set pre"
    and "dump_description lib desc = Inr msg"
  shows "post_offer lib sp body =
    Some \<lparr>res_status = 200, res_body = msg, res_type = ''application/json''\<rparr>"
  using offer_accepted [OF assms(1-4)] fold_server_gathering_complete [OF assms(6), of lib "Some desc" post "[]"] assms(5,7)
  by simp

text \<open>A connection that accepts every offer and gathers its candidates at once.\<close>

definition ready_peer :: server_peer where
  "ready_peer = \<lparr>description_error = (\<lambda>_ _. None), make_error = None, set_remote_error = (\<lambda>_ _. None),
     gathering = (\<lambda>_ _. [(Gathering_in_progress, None), (Gathering_complete, Some (''v=0'', ''answer''))])\<rparr>"

lemma first_completion_answers_witness:
  "\<exists>offer answer. dump_description (vendored_json (\<lambda>_. 0) CHR ''.'') (''v=0'', ''offer'') = Inr offer \<and>
     dump_description (vendored_json (\<lambda>_. 0) CHR ''.'') (''v=0'', ''answer'') = Inr answer \<and>
     post_offer (vendored_json (\<lambda>_. 0) CHR ''.'') ready_peer offer =
       Some \<lparr>res_status = 200, res_body = answer, res_type = ''application/json''\<rparr>"
proof -
  let ?lib = "vendored_json (\<lambda>_. 0) CHR ''.''"
  have utf8: "valid_utf8 ''v=0''" "valid_utf8 ''offer''" "valid_utf8 ''answer''"
    by (simp_all add: valid_utf8_ascii)
  obtain offer where offer: "dump_description ?lib (''v=0'', ''offer'') = Inr offer"
    "parse_description ?lib offer = Inr (''v=0'', ''offer'')"
    by (rule vendored.message_obtains [OF utf8(1,2)])
  obtain answer where answer: "dump_description ?lib (''v=0'', ''answer'') = Inr answer"
    by (rule vendored.message_obtains [OF utf8(1,3)])
  from first_completion_answers [OF offer(2), of ready_peer "[(Gathering_in_progress, None)]" "(''v=0'', ''answer'')"
      "[]", OF _ _ _ _ _ answer] offer answer
  show ?thesis by (auto simp: ready_peer_def)
qed


text \<open>The server echoes: whatever arrives on the data channel and on the track, in whatever
  interleaving and between whatever state changes, is sent back on the same one, complete and in order.\<close>

lemma server_echoes:
  "channel_sent (fold server_event_step evs server_connection_init) = channel_messages evs \<and>
   track_sent (fold server_event_step evs server_connection_init) = track_messages evs"
  by (simp add: server_echo_channel server_echo_track server_connection_init_def)

end
