(* ===== verification/Cjson_Minify.thy ===== *)
theory Cjson_Minify
  imports Cjson_Text
begin

text \<open>
  \<^verbatim>\<open>cJSON_Minify\<close> of \<^verbatim>\<open>src/gstreamer/cJSON.c\<close>: white space and comments are removed in the caller's buffer, by
  a pointer that reads and a pointer that writes. The buffer is a list of characters, the pointers are
  positions in it, and an access outside is a fault. \<open>minified\<close> says what the text becomes.
\<close>

section \<open>The program\<close>

definition read_at :: "string \<Rightarrow> nat \<Rightarrow> c_fault + char" where
  "read_at mem i = (if i < length mem then Inr (mem ! i) else Inl Over_read)"

definition put_at :: "string \<Rightarrow> nat \<Rightarrow> char \<Rightarrow> c_fault + string" where
  "put_at mem i c = (if i < length mem then Inr (mem[i := c]) else Inl Over_write)"

text \<open>The position behind the comment whose text starts at \<open>i\<close>.\<close>

fun skip_oneline_loop :: "nat \<Rightarrow> string \<Rightarrow> nat \<Rightarrow> c_fault + nat" where
  "skip_oneline_loop 0 mem i = Inl Out_of_fuel"
| "skip_oneline_loop (Suc f) mem i =
     try_bind (read_at mem i) (\<lambda>c.
       if c = CHR 0x00 then Inr i
       else if c = CHR 0x0A then Inr (i + 1)
       else skip_oneline_loop f mem (i + 1))"

definition skip_oneline_comment :: "nat \<Rightarrow> string \<Rightarrow> nat \<Rightarrow> c_fault + nat" where
  "skip_oneline_comment f mem i = skip_oneline_loop f mem (i + 2)"

fun skip_multiline_loop :: "nat \<Rightarrow> string \<Rightarrow> nat \<Rightarrow> c_fault + nat" where
  "skip_multiline_loop 0 mem i = Inl Out_of_fuel"
| "skip_multiline_loop (Suc f) mem i =
     try_bind (read_at mem i) (\<lambda>c.
       if c = CHR 0x00 then Inr i
       else
         try_bind (if c = CHR ''*'' then map_sum id (\<lambda>d. d = CHR ''/'') (read_at mem (i + 1)) else Inr False) (\<lambda>ends.
           if ends then Inr (i + 2) else skip_multiline_loop f mem (i + 1)))"

definition skip_multiline_comment :: "nat \<Rightarrow> string \<Rightarrow> nat \<Rightarrow> c_fault + nat" where
  "skip_multiline_comment f mem i = skip_multiline_loop f mem (i + 2)"

text \<open>Buffer, reading position and writing position after the string.\<close>

fun minify_string_loop :: "nat \<Rightarrow> string \<Rightarrow> nat \<Rightarrow> nat \<Rightarrow> c_fault + string \<times> nat \<times> nat" where
  "minify_string_loop 0 mem i dst = Inl Out_of_fuel"
| "minify_string_loop (Suc f) mem i dst =
     try_bind (read_at mem i) (\<lambda>c.
       if c = CHR 0x00 then Inr (mem, i, dst)
       else
         try_bind (put_at mem dst c) (\<lambda>mem1.
           if c = CHR 0x22 then try_bind (put_at mem1 dst (CHR 0x22)) (\<lambda>mem2. Inr (mem2, i + 1, dst + 1))
           else
             try_bind (if c = CHR 0x5C then map_sum id (\<lambda>d. d = CHR 0x22) (read_at mem1 (i + 1)) else Inr False) (\<lambda>escaped.
               if escaped then
                 try_bind (try_bind (read_at mem1 (i + 1)) (put_at mem1 (dst + 1))) (\<lambda>mem2.
                   minify_string_loop f mem2 (i + 2) (dst + 2))
               else minify_string_loop f mem1 (i + 1) (dst + 1))))"

definition minify_string :: "nat \<Rightarrow> string \<Rightarrow> nat \<Rightarrow> nat \<Rightarrow> c_fault + string \<times> nat \<times> nat" where
  "minify_string f mem i dst =
     try_bind (try_bind (read_at mem i) (put_at mem dst)) (\<lambda>mem1. minify_string_loop f mem1 (i + 1) (dst + 1))"

fun minify_loop :: "nat \<Rightarrow> string \<Rightarrow> nat \<Rightarrow> nat \<Rightarrow> c_fault + string" where
  "minify_loop 0 mem i into = Inl Out_of_fuel"
| "minify_loop (Suc f) mem i into =
     try_bind (read_at mem i) (\<lambda>c.
       if c = CHR 0x00 then put_at mem into (CHR 0x00)
       else if c = CHR '' '' \<or> c = CHR 0x09 \<or> c = CHR 0x0D \<or> c = CHR 0x0A then minify_loop f mem (i + 1) into
       else if c = CHR ''/'' then
         try_bind (read_at mem (i + 1)) (\<lambda>d.
           if d = CHR ''/'' then try_bind (skip_oneline_comment (Suc f) mem i) (\<lambda>j. minify_loop f mem j into)
           else if d = CHR ''*'' then try_bind (skip_multiline_comment (Suc f) mem i) (\<lambda>j. minify_loop f mem j into)
           else minify_loop f mem (i + 1) into)
       else if c = CHR 0x22 then
         try_bind (minify_string (Suc f) mem i into) (\<lambda>(mem1, j, into1). minify_loop f mem1 j into1)
       else try_bind (put_at mem into c) (\<lambda>mem1. minify_loop f mem1 (i + 1) (into + 1)))"

text \<open>\<^verbatim>\<open>cJSON_Minify\<close>; every loop ends within the buffer, so its length is enough fuel.\<close>

definition cJSON_Minify :: "string option \<Rightarrow> c_fault + string option" where
  "cJSON_Minify json =
     (case json of
        None \<Rightarrow> Inr None
      | Some mem \<Rightarrow> map_sum id Some (minify_loop (length mem + 1) mem 0 0))"

section \<open>What the text becomes\<close>

fun after_line :: "string \<Rightarrow> string" where
  "after_line [] = []"
| "after_line (c # s) = (if c = CHR 0x0A then s else after_line s)"

fun after_comment :: "string \<Rightarrow> string" where
  "after_comment (c # d # s) = (if c = CHR ''*'' \<and> d = CHR ''/'' then s else after_comment (d # s))"
| "after_comment s = []"

text \<open>The string up to the quotation mark that ends it, and what follows.\<close>

fun split_string :: "string \<Rightarrow> string \<times> string" where
  "split_string [] = ([], [])"
| "split_string (c # s) =
     (if c = CHR 0x22 then ([c], s)
      else if c = CHR 0x5C \<and> s \<noteq> [] \<and> hd s = CHR 0x22 then map_prod (\<lambda>x. c # hd s # x) id (split_string (tl s))
      else map_prod ((#) c) id (split_string s))"

lemma after_line_length: "length (after_line s) \<le> length s"
  by (induction s) auto

lemma after_comment_length: "length (after_comment s) \<le> length s"
  by (induction s rule: after_comment.induct) auto

lemma split_string_whole: "fst (split_string s) @ snd (split_string s) = s"
  by (induction s rule: split_string.induct) (auto simp: neq_Nil_conv)

lemma split_string_length: "length (snd (split_string s)) \<le> length s"
  using arg_cong [OF split_string_whole [of s], of length] by simp

function minified :: "string \<Rightarrow> string" where
  "minified [] = []"
| "minified (c # s) =
     (if c = CHR '' '' \<or> c = CHR 0x09 \<or> c = CHR 0x0D \<or> c = CHR 0x0A then minified s
      else if c = CHR ''/'' then
        (case s of
           d # s' \<Rightarrow>
             if d = CHR ''/'' then minified (after_line s')
             else if d = CHR ''*'' then minified (after_comment s')
             else minified s
         | [] \<Rightarrow> [])
      else if c = CHR 0x22 then c # fst (split_string s) @ minified (snd (split_string s))
      else c # minified s)"
  by pat_completeness auto
termination
  by (relation "measure length")
    (auto simp: less_Suc_eq_le split_string_length intro: le_trans [OF after_line_length] le_trans [OF after_comment_length])

section \<open>The program computes it\<close>

lemma ic_pos: "0 < ic c \<longleftrightarrow> c \<noteq> CHR 0x00"
  using ic_nonneg [of c] by (auto simp: char_eq_ic order_less_le simp del: ic_nonneg)

lemma read_at_append [simp]: "i = length p \<Longrightarrow> read_at (p @ c # r) i = Inr c"
  by (simp add: read_at_def nth_append)

text \<open>Writing at the front of the gap between the two pointers moves the gap by one.\<close>

lemma put_shift:
  "\<exists>g'. length g' = length g \<and> put_at (w @ g @ c # r) (length w) c = Inr ((w @ [c]) @ g' @ r)"
proof (cases g)
  case Nil
  then show ?thesis by (simp add: put_at_def)
next
  case (Cons x g1)
  then show ?thesis by (intro exI [of _ "g1 @ [c]"]) (simp add: put_at_def)
qed

lemma skip_oneline_line:
  "no_nul s \<Longrightarrow> length s < f \<Longrightarrow>
    \<exists>u. s = u @ after_line s \<and> skip_oneline_loop f (p @ s @ CHR 0x00 # t) (length p) = Inr (length p + length u)"
proof (induction s arbitrary: f p)
  case Nil
  then show ?case by (cases f) auto
next
  case (Cons c s)
  then obtain f' where f: "f = Suc f'" by (cases f) auto
  show ?case
  proof (cases "c = CHR 0x0A")
    case True
    with Cons.prems f show ?thesis by (intro exI [of _ "[c]"]) (simp add: ic_pos)
  next
    case False
    with Cons.IH [of f' "p @ [c]"] Cons.prems f obtain u where
        u: "s = u @ after_line s" "skip_oneline_loop f' (p @ c # s @ CHR 0x00 # t) (Suc (length p)) = Inr (length p + Suc (length u))"
      by (auto simp: ic_pos)
    have "skip_oneline_loop f (p @ (c # s) @ CHR 0x00 # t) (length p) = Inr (length p + length (c # u))"
      using u(2) False Cons.prems(1) f by (simp add: ic_pos)
    moreover have "c # s = (c # u) @ after_line (c # s)" using False by (simp flip: u(1))
    ultimately show ?thesis by blast
  qed
qed

lemma skip_multiline_comment_text:
  "no_nul s \<Longrightarrow> length s < f \<Longrightarrow>
    \<exists>u. s = u @ after_comment s \<and> skip_multiline_loop f (p @ s @ CHR 0x00 # t) (length p) = Inr (length p + length u)"
proof (induction s arbitrary: f p)
  case Nil
  then show ?case by (cases f) auto
next
  case (Cons c s)
  then obtain f' where f: "f = Suc f'" by (cases f) auto
  have next_char: "read_at (p @ c # s @ CHR 0x00 # t) (Suc (length p)) = Inr (hd (s @ [CHR 0x00]))"
    by (cases s) (simp_all add: read_at_def nth_append)
  show ?case
  proof (cases "c = CHR ''*'' \<and> s \<noteq> [] \<and> hd s = CHR ''/''")
    case True
    then obtain s' where s: "s = CHR ''/'' # s'" by (cases s) auto
    from True Cons.prems(1) f next_char show ?thesis
      by (intro exI [of _ "[c, CHR ''/'']"]) (simp add: s ic_pos)
  next
    case False
    with Cons.IH [of f' "p @ [c]"] Cons.prems f obtain u where
        u: "s = u @ after_comment s" "skip_multiline_loop f' (p @ c # s @ CHR 0x00 # t) (Suc (length p)) = Inr (length p + Suc (length u))"
      by (auto simp: ic_pos)
    have same: "after_comment (c # s) = after_comment s" using False by (cases s) auto
    have "map_sum id (\<lambda>d. d = CHR ''/'') (read_at (p @ c # s @ CHR 0x00 # t) (Suc (length p))) = (Inr False :: c_fault + bool)"
      if "c = CHR ''*''"
      using False next_char that by (cases s) auto
    then have "skip_multiline_loop f (p @ (c # s) @ CHR 0x00 # t) (length p) = Inr (length p + length (c # u))"
      using u(2) Cons.prems(1) by (cases "c = CHR ''*''") (simp_all add: f ic_pos)
    moreover have "c # s = (c # u) @ after_comment (c # s)" unfolding same by (simp flip: u(1))
    ultimately show ?thesis by blast
  qed
qed

lemma minify_string_splits:
  "no_nul s \<Longrightarrow> length s < f \<Longrightarrow>
    \<exists>g'. length g' = length g \<and>
      minify_string_loop f (w @ g @ s @ CHR 0x00 # t) (length w + length g) (length w) =
        Inr ((w @ fst (split_string s)) @ g' @ snd (split_string s) @ CHR 0x00 # t,
             length w + length (fst (split_string s)) + length g, length w + length (fst (split_string s)))"
proof (induction s arbitrary: f w g rule: length_induct)
  case (1 s)
  obtain f' where f: "f = Suc f'" using "1.prems"(2) by (cases f) auto
  show ?case
  proof (cases s)
    case Nil
    have "read_at (w @ g @ CHR 0x00 # t) (length w + length g) = Inr (CHR 0x00)"
      using read_at_append [of _ "w @ g"] by simp
    with Nil f show ?thesis by auto
  next
    case (Cons c s1)
    have c: "c \<noteq> CHR 0x00" "no_nul s1" using "1.prems"(1) by (auto simp: Cons ic_pos)
    have r: "read_at (w @ g @ c # s1 @ CHR 0x00 # t) (length w + length g) = Inr c"
      using read_at_append [of _ "w @ g"] by simp
    obtain g1 where g1: "length g1 = length g" "put_at (w @ g @ c # s1 @ CHR 0x00 # t) (length w) c =
        Inr ((w @ [c]) @ g1 @ s1 @ CHR 0x00 # t)" using put_shift by blast
    let ?m1 = "(w @ [c]) @ g1 @ s1 @ CHR 0x00 # t"
    have nx: "read_at ?m1 (length w + length g + 1) = Inr (hd (s1 @ [CHR 0x00]))"
      using g1(1) by (cases s1) (simp_all add: read_at_def nth_append)
    consider "c = CHR 0x22" | "c = CHR 0x5C" "s1 \<noteq> []" "hd s1 = CHR 0x22"
      | "c \<noteq> CHR 0x22" "\<not> (c = CHR 0x5C \<and> s1 \<noteq> [] \<and> hd s1 = CHR 0x22)" by blast
    then show ?thesis
    proof cases
      case 1
      have "put_at ?m1 (length w) (CHR 0x22) = Inr ?m1" using 1 by (simp add: put_at_def)
      with 1 r g1 f c(1) show ?thesis by (intro exI [of _ g1]) (simp add: Cons)
    next
      case 2
      then obtain s2 where s2: "s1 = CHR 0x22 # s2" by (cases s1) auto
      obtain g2 where g2: "length g2 = length g1" "put_at ((w @ [c]) @ g1 @ CHR 0x22 # s2 @ CHR 0x00 # t) (length (w @ [c])) (CHR 0x22) =
          Inr (((w @ [c]) @ [CHR 0x22]) @ g2 @ s2 @ CHR 0x00 # t)" using put_shift by blast
      have "\<exists>g'. length g' = length g2 \<and>
          minify_string_loop f' ((w @ [c, CHR 0x22]) @ g2 @ s2 @ CHR 0x00 # t) (length (w @ [c, CHR 0x22]) + length g2) (length (w @ [c, CHR 0x22])) =
            Inr (((w @ [c, CHR 0x22]) @ fst (split_string s2)) @ g' @ snd (split_string s2) @ CHR 0x00 # t,
             length (w @ [c, CHR 0x22]) + length (fst (split_string s2)) + length g2, length (w @ [c, CHR 0x22]) + length (fst (split_string s2)))"
        using "1.IH" [rule_format, of s2 f' g2 "w @ [c, CHR 0x22]"] "1.prems"(2) c(2) by (simp add: Cons s2 f ic_pos)
      with 2 r g1 g2 f c(1) nx show ?thesis by (auto simp: Cons s2)
    next
      case 3
      have "\<exists>g'. length g' = length g1 \<and>
          minify_string_loop f' ((w @ [c]) @ g1 @ s1 @ CHR 0x00 # t) (length (w @ [c]) + length g1) (length (w @ [c])) =
            Inr (((w @ [c]) @ fst (split_string s1)) @ g' @ snd (split_string s1) @ CHR 0x00 # t,
             length (w @ [c]) + length (fst (split_string s1)) + length g1, length (w @ [c]) + length (fst (split_string s1)))"
        using "1.IH" [rule_format, of s1 f' g1 "w @ [c]"] "1.prems"(2) c(2) by (simp add: Cons f)
      moreover have "c = CHR 0x5C \<Longrightarrow> hd (s1 @ [CHR 0x00]) \<noteq> CHR 0x22" using 3(2) by (cases s1) auto
      ultimately show ?thesis using 3 r g1 f c(1) nx by (auto simp: Cons)
    qed
  qed
qed

lemma no_nul_suffix: "no_nul (u @ v) \<Longrightarrow> no_nul v"
  by simp

text \<open>What the loop leaves: the minified text, the null character, and the buffer keeps its length.\<close>

definition minifies :: "nat \<Rightarrow> string \<Rightarrow> string \<Rightarrow> string \<Rightarrow> string \<Rightarrow> bool" where
  "minifies f w g s t \<longleftrightarrow>
     (\<exists>z. length (minified s) + length z = length g + length s + length t \<and>
       minify_loop f (w @ g @ s @ CHR 0x00 # t) (length w + length g) (length w) = Inr (w @ minified s @ CHR 0x00 # z))"

text \<open>Characters that are dropped join the gap.\<close>

lemma minifies_dropped:
  "minifies f w (g @ u) v t \<Longrightarrow>
    \<exists>z. length (minified v) + length z = length g + length (u @ v) + length t \<and>
      minify_loop f (w @ g @ u @ v @ CHR 0x00 # t) (length w + length g + length u) (length w) = Inr (w @ minified v @ CHR 0x00 # z)"
  by (simp add: minifies_def add.assoc)

lemma minify_loop_minified: "no_nul s \<Longrightarrow> length s < f \<Longrightarrow> minifies f w g s t"
proof (induction f arbitrary: s w g)
  case (Suc f)
  note read = read_at_append [where p = "w @ g", simplified]
  show ?case
  proof (cases s)
    case Nil
    obtain g' where "length g' = length g" "put_at (w @ g @ CHR 0x00 # t) (length w) (CHR 0x00) = Inr ((w @ [CHR 0x00]) @ g' @ t)"
      using put_shift by blast
    with Nil read show ?thesis unfolding minifies_def by (intro exI [of _ "g' @ t"]) simp
  next
    case (Cons c s1)
    have c: "c \<noteq> CHR 0x00" "no_nul s1" "length s1 < f" using Suc.prems by (auto simp: Cons ic_pos)
    let ?m = "w @ g @ c # s1 @ CHR 0x00 # t"
    have r: "read_at ?m (length w + length g) = Inr c" using read by simp
    have dropped: "\<exists>z. length (minified v) + length z = length g + length (u @ v) + length t \<and>
        minify_loop f (w @ g @ u @ v @ CHR 0x00 # t) (length w + length g + length u) (length w) = Inr (w @ minified v @ CHR 0x00 # z)"
      if "no_nul v" "length v < f" for u v
      using minifies_dropped Suc.IH [OF that] .
    consider "c = CHR '' '' \<or> c = CHR 0x09 \<or> c = CHR 0x0D \<or> c = CHR 0x0A" | "c = CHR ''/''" | "c = CHR 0x22"
      | "c \<notin> {CHR '' '', CHR 0x09, CHR 0x0D, CHR 0x0A, CHR ''/'', CHR 0x22}" by blast
    then show ?thesis
    proof cases
      case 1
      then show ?thesis using dropped [OF c(2,3), of "[c]"] r c(1) by (auto simp: Cons minifies_def)
    next
      case 2
      show ?thesis
      proof (cases s1)
        case Nil
        have "read_at ?m (length w + length g + 1) = Inr (CHR 0x00)"
          using read_at_append [of _ "w @ g @ [c]"] by (simp add: Nil)
        then show ?thesis using dropped [OF c(2,3), of "[c]"] r c(1) 2 by (auto simp: Cons Nil minifies_def)
      next
        case d: (Cons d s2)
        have nd: "read_at ?m (length w + length g + 1) = Inr d"
          using read_at_append [of _ "w @ g @ [c]"] by (simp add: d)
        have s2: "no_nul s2" "length s2 < Suc f" using c(2,3) by (auto simp: d ic_pos)
        have skipped: ?thesis
          if "s2 = u @ v" "minified s = minified v"
            "minify_loop (Suc f) ?m (length w + length g) (length w) = minify_loop f ?m (length (w @ g @ [c, d]) + length u) (length w)" for u v
        proof -
          have v: "no_nul v" "length v < f" using s2(1) c(3) no_nul_suffix [of u v] by (simp_all add: d that(1))
          show ?thesis using dropped [OF v, of "[c, d] @ u"] that by (simp add: minifies_def Cons d add.assoc)
        qed
        consider "d = CHR ''/''" | "d = CHR ''*''" | "d \<noteq> CHR ''/''" "d \<noteq> CHR ''*''" by blast
        then show ?thesis
        proof cases
          case 1
          obtain u where u: "s2 = u @ after_line s2"
              "skip_oneline_loop (Suc f) ((w @ g @ [c, d]) @ s2 @ CHR 0x00 # t) (length (w @ g @ [c, d])) = Inr (length (w @ g @ [c, d]) + length u)"
            using skip_oneline_line [OF s2] by blast
          show ?thesis
            using skipped [OF u(1)] u(2) r nd 1 2
            by (simp add: Cons d skip_oneline_comment_def del: skip_oneline_loop.simps)
    next
          case 2
          obtain u where u: "s2 = u @ after_comment s2"
              "skip_multiline_loop (Suc f) ((w @ g @ [c, d]) @ s2 @ CHR 0x00 # t) (length (w @ g @ [c, d])) = Inr (length (w @ g @ [c, d]) + length u)"
            using skip_multiline_comment_text [OF s2] by blast
          show ?thesis
            using skipped [OF u(1)] u(2) r nd 2 \<open>c = CHR ''/''\<close>
            by (simp add: Cons d skip_multiline_comment_def del: skip_multiline_loop.simps)
        next
          case 3
          then show ?thesis using dropped [OF c(2,3), of "[c]"] r nd c(1) 2 by (simp add: Cons d minifies_def)
        qed
      qed
    next
      case 3
      obtain g1 where g1: "length g1 = length g" "put_at ?m (length w) c = Inr ((w @ [c]) @ g1 @ s1 @ CHR 0x00 # t)"
        using put_shift by blast
      let ?x = "fst (split_string s1)" and ?y = "snd (split_string s1)"
      have whole: "?x @ ?y = s1" by (rule split_string_whole)
      have "length s1 < Suc f" using c(3) by simp
      from minify_string_splits [OF c(2) this, of g1 "w @ [c]" t] obtain g' where
          g': "length g' = length g1"
          "minify_string_loop (Suc f) ((w @ [c]) @ g1 @ s1 @ CHR 0x00 # t) (length (w @ [c]) + length g1) (length (w @ [c])) =
             Inr ((w @ [c] @ ?x) @ g' @ ?y @ CHR 0x00 # t, length (w @ [c]) + length ?x + length g1, length (w @ [c]) + length ?x)"
        by auto
      have y: "no_nul ?y" "length ?y < f"
        using c(2,3) no_nul_suffix [of ?x ?y] split_string_length [of s1] by (simp_all add: whole)
      have lengths: "length s1 = length ?x + length ?y" using arg_cong [OF whole, of length] by simp
      have "minifies f (w @ [c] @ ?x) g' ?y t" by (rule Suc.IH [OF y])
      then show ?thesis
        using r g1 g' 3 c(1) by (auto simp: Cons minifies_def minify_string_def lengths ac_simps simp del: minify_string_loop.simps)
        next
      case 4
      obtain g1 where g1: "length g1 = length g" "put_at ?m (length w) c = Inr ((w @ [c]) @ g1 @ s1 @ CHR 0x00 # t)"
        using put_shift by blast
      with Suc.IH [OF c(2,3), of "w @ [c]" g1] 4 r c(1) show ?thesis by (auto simp: Cons minifies_def)
    qed
  qed
qed simp


lemma cJSON_Minify_text:
  assumes "no_nul s"
  obtains z where "length (minified s) + length z = length s + length t"
    and "cJSON_Minify (Some (s @ CHR 0x00 # t)) = Inr (Some (minified s @ CHR 0x00 # z))"
  using minify_loop_minified [OF assms, of "length (s @ CHR 0x00 # t) + 1" "[]" "[]" t]
  by (auto simp: minifies_def cJSON_Minify_def)

text \<open>Characters that are kept as they are, outside strings.\<close>

definition kept :: "char \<Rightarrow> bool" where
  "kept c \<longleftrightarrow> c \<notin> {CHR '' '', CHR 0x09, CHR 0x0D, CHR 0x0A, CHR ''/'', CHR 0x22}"

lemma minified_subset: "set (minified s) \<subseteq> set s"
proof (induction s rule: measure_induct_rule [of length])
  case (less s)
  have part: "set (minified v) \<subseteq> set s" if "length v < length s" "set v \<subseteq> set s" for v
    using less [OF that(1)] that(2) by blast
  show ?case
  proof (cases s)
    case s: (Cons c s1)
    have rest: "set (minified s1) \<subseteq> set s" by (rule part) (auto simp: s)
    consider "c = CHR '' '' \<or> c = CHR 0x09 \<or> c = CHR 0x0D \<or> c = CHR 0x0A" | "c = CHR ''/''" | "c = CHR 0x22"
      | "kept c" unfolding kept_def by blast
    then show ?thesis
    proof cases
      case 2
      show ?thesis
      proof (cases s1)
        case d: (Cons d s2)
        have "set (after_line s2) \<subseteq> set s2" by (induction s2) auto
        then have "set (minified (after_line s2)) \<subseteq> set s"
          using after_line_length [of s2] by (intro part) (auto simp: s d)
        moreover have "set (after_comment s2) \<subseteq> set s2" by (induction s2 rule: after_comment.induct) auto
        then have "set (minified (after_comment s2)) \<subseteq> set s"
          using after_comment_length [of s2] by (intro part) (auto simp: s d)
        moreover have "minified s = (if d = CHR ''/'' then minified (after_line s2)
            else if d = CHR ''*'' then minified (after_comment s2) else minified s1)"
          using 2 by (simp add: s d)
        ultimately show ?thesis using rest by presburger
      qed (use 2 s in simp)
    next
      case 3
      have "set s1 = set (fst (split_string s1)) \<union> set (snd (split_string s1))"
        by (metis split_string_whole set_append)
      moreover from this have "set (minified (snd (split_string s1))) \<subseteq> set s"
        using split_string_length [of s1] by (intro part) (auto simp: s)
      ultimately show ?thesis using 3 by (auto simp: s)
    next
      case 4
      then show ?thesis using rest by (auto simp: s kept_def)
    qed (use rest s in auto)
  qed simp
qed

lemma no_nul_minified: "no_nul s \<Longrightarrow> no_nul (minified s)"
  using minified_subset [of s] by (auto simp: no_nul_def list_all_iff)

section \<open>What it means\<close>

text \<open>An escape is taken for one of a quotation mark whenever a quotation mark follows a backslash, so a
  string whose text ends in an escaped backslash is not seen to end.\<close>

fun backslash_free_ends :: "json \<Rightarrow> bool" where
  "backslash_free_ends (Jstring s) \<longleftrightarrow> s = [] \<or> last s \<noteq> CHR 0x5C"
| "backslash_free_ends (Jarray xs) \<longleftrightarrow> (\<forall>x \<in> set xs. backslash_free_ends x)"
| "backslash_free_ends (Jobject m) \<longleftrightarrow>
     (\<forall>kv \<in> set m. (fst kv = [] \<or> last (fst kv) \<noteq> CHR 0x5C) \<and> backslash_free_ends (snd kv))"
| "backslash_free_ends _ \<longleftrightarrow> True"

lemma minified_kept: "list_all kept u \<Longrightarrow> minified (u @ r) = u @ minified r"
  by (induction u) (auto simp: kept_def)

lemma minified_ws: "ws w \<Longrightarrow> minified (w @ r) = minified r"
  by (induction w) (auto simp: ws_def is_ws_def)

lemma kept_digits: "digits u \<Longrightarrow> list_all kept u"
  by (auto simp: digits_def list_all_iff is_digit_def kept_def)

lemma kept_number:
  assumes "int_text ip" "frac_text fr" "exp_text ex"
  shows "list_all kept (sign_text neg @ ip @ fr @ ex)"
proof -
  have "list_all kept ip" using assms(1) by (simp add: int_text_def kept_digits)
  moreover have "list_all kept fr"
    using assms(2) by (cases fr) (auto simp: frac_text_def kept_digits kept_def)
  moreover have "list_all kept ex"
    using assms(3) kept_digits [of "tl ex"] kept_digits [of "tl (tl ex)"]
    by (cases ex; cases "tl ex") (auto simp: exp_text_def kept_def)
  moreover have "list_all kept (sign_text neg)" by (simp add: sign_text_def kept_def)
  ultimately show ?thesis by simp
qed


text \<open>A string is read to the quotation mark that ends it.\<close>

lemma utf8_last: "scalar_value cp \<Longrightarrow> utf8 cp \<noteq> [] \<and> (last (utf8 cp) = CHR 0x5C \<longleftrightarrow> cp = 0x5C)"
proof (induction rule: utf8_cases)
  case one
  then show ?case by (simp add: char_eq_ic ic_byte)
next
  case (two a x)
  then show ?case by (simp add: utf8_two char_eq_ic ic_byte)
next
  case (three a x y)
  then have "utf8 cp = [byte (0xE0 + a), byte (0x80 + x), byte (0x80 + y)]" by (simp only: utf8_three)
  moreover have "cp \<noteq> 0x5C" using three by (cases "a = 0") auto
  ultimately show ?case using three by (simp add: char_eq_ic ic_byte)
next
  case (four a x y z)
  then have "utf8 cp = [byte (0xF0 + a), byte (0x80 + x), byte (0x80 + y), byte (0x80 + z)]" by (simp only: utf8_four)
  moreover have "cp \<noteq> 0x5C" using four by (cases "a = 0") auto
  ultimately show ?case using four by (simp add: char_eq_ic ic_byte)
qed


lemma utf8_high: "scalar_value cp \<Longrightarrow> 0x80 \<le> cp \<Longrightarrow> list_all (\<lambda>c. 128 \<le> ic c) (utf8 cp)"
proof (induction rule: utf8_cases)
  case (two a x)
  then show ?case by (simp add: utf8_two ic_byte)
next
  case (three a x y)
  then have "utf8 cp = [byte (0xE0 + a), byte (0x80 + x), byte (0x80 + y)]" by (simp only: utf8_three)
  with three show ?case by (simp add: ic_byte)
next
  case (four a x y z)
  then have "utf8 cp = [byte (0xF0 + a), byte (0x80 + x), byte (0x80 + y), byte (0x80 + z)]" by (simp only: utf8_four)
  with four show ?case by (simp add: ic_byte)
qed simp

definition ordinary :: "char \<Rightarrow> bool" where
  "ordinary c \<longleftrightarrow> c \<noteq> CHR 0x22 \<and> c \<noteq> CHR 0x5C"

lemma split_string_ordinary:
  "list_all ordinary u \<Longrightarrow> split_string (u @ r) = (u @ fst (split_string r), snd (split_string r))"
  by (induction u) (auto simp: ordinary_def map_prod_def split_beta)

lemma ordinary_utf8:
  "scalar_value cp \<Longrightarrow> cp \<noteq> 0x22 \<Longrightarrow> cp \<noteq> 0x5C \<Longrightarrow> list_all ordinary (utf8 cp)"
proof (cases "cp < 0x80")
  case True
  moreover assume "cp \<noteq> 0x22" "cp \<noteq> 0x5C"
  ultimately show ?thesis by (simp add: ordinary_def utf8_def char_eq_ic ic_byte)
next
  case False
  have "ordinary c" if "128 \<le> ic c" for c using that by (auto simp: ordinary_def)
  moreover assume "scalar_value cp"
  ultimately show ?thesis using utf8_high [of cp] False by (auto simp: list_all_iff)
qed

lemma ordinary_hex_quad: "hex_quad hs u \<Longrightarrow> list_all ordinary hs"
  by (cases "(hs, u)" rule: hex_quad.cases) (auto simp: hex_value_def ordinary_def split: option.splits if_splits)

lemma split_string_escape:
  "c \<noteq> CHR 0x22 \<Longrightarrow> list_all ordinary hs \<Longrightarrow> ordinary c \<Longrightarrow>
    split_string (CHR 0x5C # c # hs @ r) = (CHR 0x5C # c # hs @ fst (split_string r), snd (split_string r))"
  using split_string_ordinary [of "c # hs" r] by (simp add: ordinary_def map_prod_def split_beta)

lemma split_string_char:
  assumes "char_text cp u" "cp \<noteq> 0x5C \<or> r = [] \<or> hd r \<noteq> CHR 0x22"
  shows "split_string (u @ r) = (u @ fst (split_string r), snd (split_string r))"
  using assms(1)
proof cases
  case plain
  then show ?thesis using split_string_ordinary ordinary_utf8 by simp
next
  case (letter c)
  then consider "c = CHR 0x22" | "c = CHR 0x5C" "cp = 0x5C" | "ordinary c"
    by (auto simp: letter_escape_def ordinary_def split: if_splits)
  then show ?thesis
  proof cases
    case 3
    with letter split_string_escape [of c "[]" r] show ?thesis by (simp add: ordinary_def)
  qed (use letter assms(2) in \<open>auto simp: map_prod_def split_beta\<close>)
next
  case (unit hs)
  then show ?thesis using split_string_escape [of "CHR ''u''" hs r] ordinary_hex_quad by (simp add: ordinary_def)
next
  case (pair hs hi ls lo)
  then show ?thesis
    using split_string_escape [of "CHR ''u''" hs "CHR 0x5C # CHR ''u'' # ls @ r"] split_string_escape [of "CHR ''u''" ls r]
      ordinary_hex_quad
    by (simp add: ordinary_def map_prod_def split_beta)
qed

lemma char_text_starts: "char_text cp u \<Longrightarrow> u \<noteq> [] \<and> hd u \<noteq> CHR 0x22"
proof (induction rule: char_text.induct)
  case (plain cp)
  then show ?case using ordinary_utf8 [of cp] utf8_last [of cp] by (cases "utf8 cp") (auto simp: ordinary_def)
qed auto

lemma split_string_text:
  "string_text cps t \<Longrightarrow> cps = [] \<or> last cps \<noteq> 0x5C \<Longrightarrow> split_string (t @ CHR 0x22 # r) = (t @ [CHR 0x22], r)"
proof (induction cps arbitrary: t)
  case (Cons cp cps)
  then obtain u t' where u: "char_text cp u" "string_text cps t'" "t = u @ t'" by (auto simp: string_text_Cons)
  have "cp \<noteq> 0x5C \<or> hd (t' @ CHR 0x22 # r) \<noteq> CHR 0x22"
  proof (cases cps)
    case (Cons cp' cps')
    then obtain u' where "char_text cp' u'" "\<exists>t''. t' = u' @ t''" using u(2) by (auto simp: string_text_Cons)
    then show ?thesis using char_text_starts [of cp' u'] by auto
  qed (use Cons.prems(2) in simp)
  moreover have "split_string (t' @ CHR 0x22 # r) = (t' @ [CHR 0x22], r)"
    using Cons.IH [OF u(2)] Cons.prems(2) by (auto split: if_splits)
  ultimately show ?case using split_string_char [OF u(1)] by (simp add: u(3))
qed (simp add: string_text_Nil)

lemma utf8_text_last:
  assumes "string_text cps t" "utf8_text cps = [] \<or> last (utf8_text cps) \<noteq> CHR 0x5C"
  shows "cps = [] \<or> last cps \<noteq> 0x5C"
proof (cases cps rule: rev_cases)
  case (snoc cps' cp)
  from assms(1) have "scalar_value cp"
    using char_text_scalar by (auto simp: string_text_def snoc list_all2_append1 list_all2_Cons1)
  then show ?thesis using utf8_last [of cp] assms(2) by (simp add: snoc utf8_text_def)
qed simp

lemma minified_string:
  assumes "string_text cps t" "utf8_text cps = [] \<or> last (utf8_text cps) \<noteq> CHR 0x5C"
  shows "minified (CHR 0x22 # t @ CHR 0x22 # r) = CHR 0x22 # t @ CHR 0x22 # minified r"
  using split_string_text [OF assms(1) utf8_text_last [OF assms]] by simp


definition becomes :: "string \<Rightarrow> string \<Rightarrow> bool" where
  "becomes s s' \<longleftrightarrow> (\<forall>r. minified (s @ r) = s' @ minified r) \<and> (\<forall>r. minified (s' @ r) = s' @ minified r)"

lemma becomes_append: "becomes s s' \<Longrightarrow> becomes t t' \<Longrightarrow> becomes (s @ t) (s' @ t')"
  by (simp add: becomes_def)

lemma becomes_kept: "list_all kept u \<Longrightarrow> becomes u u"
  by (simp add: becomes_def minified_kept)

lemma becomes_Cons: "kept c \<Longrightarrow> becomes s s' \<Longrightarrow> becomes (c # s) (c # s')"
  using becomes_append [of "[c]" "[c]" s s'] becomes_kept [of "[c]"] by simp

lemma becomes_ws: "ws w \<Longrightarrow> becomes w []"
  by (simp add: becomes_def minified_ws)

lemma becomes_string:
  "string_text cps t \<Longrightarrow> utf8_text cps = [] \<or> last (utf8_text cps) \<noteq> CHR 0x5C \<Longrightarrow> becomes (CHR 0x22 # t @ [CHR 0x22]) (CHR 0x22 # t @ [CHR 0x22])"
  using minified_string by (simp add: becomes_def)

lemma becomes_string_Cons:
  "string_text cps t \<Longrightarrow> utf8_text cps = [] \<or> last (utf8_text cps) \<noteq> CHR 0x5C \<Longrightarrow> becomes s s' \<Longrightarrow>
    becomes (CHR 0x22 # t @ CHR 0x22 # s) (CHR 0x22 # t @ CHR 0x22 # s')"
  using becomes_append [OF becomes_string] by simp

lemmas becomes_intros = becomes_append [of w "[]", simplified, OF becomes_ws] becomes_append [of _ _ w "[]", simplified, OF _ becomes_ws] for w

lemma becomes_scalar:
  assumes "scalar_text dp v s" "backslash_free_ends v"
  shows "becomes s s"
  using assms(1)
proof cases
  case (string cps t)
  then show ?thesis using becomes_string assms(2) by simp
next
  case (number ip fr ex neg)
  then show ?thesis using becomes_kept kept_number by blast
qed (simp_all add: becomes_kept kept_def)

definition plain_text :: "(string \<Rightarrow> bool) \<Rightarrow> string \<Rightarrow> bool" where
  "plain_text P s \<longleftrightarrow> (\<exists>s'. P s' \<and> becomes s s')"

lemma minified_means:
  "json_text dp v s \<Longrightarrow> backslash_free_ends v \<Longrightarrow> plain_text (json_text dp v) s"
  "elements_text dp xs s \<Longrightarrow> backslash_free_ends (Jarray xs) \<Longrightarrow> plain_text (elements_text dp xs) s"
  "members_text dp m s \<Longrightarrow> backslash_free_ends (Jobject m) \<Longrightarrow> plain_text (members_text dp m) s"
proof (induction rule: json_text_elements_text_members_text.inducts)
  case (scalar v s)
  then show ?case
    unfolding plain_text_def using becomes_scalar json_text_elements_text_members_text.scalar by blast
next
  case (empty_array w)
  have "json_text dp (Jarray []) ''[]''"
    using json_text_elements_text_members_text.empty_array [of "[]"] by (simp add: ws_def)
  moreover have "becomes (CHR ''['' # w @ '']'') ''[]''"
    using empty_array by (intro becomes_Cons becomes_intros becomes_kept) (simp_all add: kept_def)
  ultimately show ?case unfolding plain_text_def by blast
next
  case (array xs s)
  then obtain s' where "elements_text dp xs s'" "becomes s s'" by (auto simp: plain_text_def)
  moreover from this(2) have "becomes (CHR ''['' # s @ '']'') (CHR ''['' # s' @ '']'')"
    by (intro becomes_Cons becomes_append becomes_kept) (simp_all add: kept_def)
  ultimately show ?case unfolding plain_text_def using json_text_elements_text_members_text.array by blast
next
  case (empty_object w)
  have "json_text dp (Jobject []) ''{}''"
    using json_text_elements_text_members_text.empty_object [of "[]"] by (simp add: ws_def)
  moreover have "becomes (CHR ''{'' # w @ ''}'') ''{}''"
    using empty_object by (intro becomes_Cons becomes_intros becomes_kept) (simp_all add: kept_def)
  ultimately show ?case unfolding plain_text_def by blast
next
  case (object m s)
  then obtain s' where "members_text dp m s'" "becomes s s'" by (auto simp: plain_text_def)
  moreover from this(2) have "becomes (CHR ''{'' # s @ ''}'') (CHR ''{'' # s' @ ''}'')"
    by (intro becomes_Cons becomes_append becomes_kept) (simp_all add: kept_def)
  ultimately show ?case unfolding plain_text_def using json_text_elements_text_members_text.object by blast
next
  case (last_element w1 v s w2)
  then obtain s' where s': "json_text dp v s'" "becomes s s'" by (auto simp: plain_text_def)
  have "elements_text dp [v] s'"
    using json_text_elements_text_members_text.last_element [OF _ s'(1), of "[]" "[]"] by (simp add: ws_def)
  moreover have "becomes (w1 @ s @ w2) s'" using last_element s'(2) by (intro becomes_intros)
  ultimately show ?case unfolding plain_text_def by blast
next
  case (element w1 v s w2 xs t)
  then obtain s' t' where s': "json_text dp v s'" "becomes s s'" and t': "elements_text dp xs t'" "becomes t t'"
    by (auto simp: plain_text_def)
  have "elements_text dp (v # xs) (s' @ CHR '','' # t')"
    using json_text_elements_text_members_text.element [OF _ s'(1) _ t'(1), of "[]" "[]"] by (simp add: ws_def)
  moreover have "becomes (w2 @ CHR '','' # t) (CHR '','' # t')"
    using element.hyps t'(2) by (intro becomes_intros(1) becomes_Cons) (auto simp: kept_def)
  then have "becomes (w1 @ s @ w2 @ CHR '','' # t) (s' @ CHR '','' # t')"
    using becomes_intros(1) [OF element(1)] becomes_append [OF s'(2)] by blast
  ultimately show ?case unfolding plain_text_def by blast
next
  case (last_member w1 cps k w2 w3 v s w4)
  then obtain s' where s': "json_text dp v s'" "becomes s s'" by (auto simp: plain_text_def)
  have "members_text dp [(utf8_text cps, v)] (CHR 0x22 # k @ CHR 0x22 # CHR '':'' # s')"
    using json_text_elements_text_members_text.last_member [OF _ last_member(2) _ _ s'(1), of "[]" "[]" "[]" "[]"]
    by (simp add: ws_def)
  moreover have "becomes (w1 @ CHR 0x22 # k @ CHR 0x22 # w2 @ CHR '':'' # w3 @ s @ w4) (CHR 0x22 # k @ CHR 0x22 # CHR '':'' # s')"
    using last_member s'(2)
    by (intro becomes_intros(1) becomes_string_Cons [OF last_member(2)] becomes_Cons becomes_intros(2)) (auto simp: kept_def)
  ultimately show ?case unfolding plain_text_def by blast
next
  case (member w1 cps k w2 w3 v s w4 m t)
  then obtain s' t' where s': "json_text dp v s'" "becomes s s'" and t': "members_text dp m t'" "becomes t t'"
    by (auto simp: plain_text_def)
  have "members_text dp ((utf8_text cps, v) # m) (CHR 0x22 # k @ CHR 0x22 # CHR '':'' # s' @ CHR '','' # t')"
    using json_text_elements_text_members_text.member [OF _ member(2) _ _ s'(1) _ t'(1), of "[]" "[]" "[]" "[]"]
    by (simp add: ws_def)
  moreover have "becomes (w4 @ CHR '','' # t) (CHR '','' # t')"
    using member.hyps t'(2) by (intro becomes_intros(1) becomes_Cons) (auto simp: kept_def)
  then have "becomes (w3 @ s @ w4 @ CHR '','' # t) (s' @ CHR '','' # t')"
    using becomes_intros(1) [OF member.hyps(4)] becomes_append [OF s'(2)] by blast
  then have "becomes (w1 @ CHR 0x22 # k @ CHR 0x22 # w2 @ CHR '':'' # w3 @ s @ w4 @ CHR '','' # t)
      (CHR 0x22 # k @ CHR 0x22 # CHR '':'' # s' @ CHR '','' # t')"
    using member.hyps member.prems
    by (intro becomes_intros(1) [OF member.hyps(1)] becomes_string_Cons [OF member.hyps(2)] becomes_intros(1) [OF member.hyps(3)]
        becomes_Cons) (auto simp: kept_def)
  ultimately show ?case unfolding plain_text_def by blast
qed

text \<open>C17. \<^verbatim>\<open>cJSON_Minify\<close> stays within the buffer it is given, and what it leaves there, followed by a
  null character, is a JSON text of the same value, without the white space between the tokens (minifying
  again changes nothing), unless a string or a key of the text ends in a backslash.\<close>

theorem cJSON_Minify_keeps_value:
  assumes "json_text dp v s" "backslash_free_ends v"
  shows "\<exists>s' z. cJSON_Minify (Some (s @ CHR 0x00 # t)) = Inr (Some (s' @ CHR 0x00 # z)) \<and>
    length s' + length z = length s + length t \<and> json_text dp v s' \<and> no_nul s' \<and> minified s' = s'"
proof -
  obtain s' where s': "json_text dp v s'" "becomes s s'"
    using minified_means(1) [OF assms] by (auto simp: plain_text_def)
  have "minified (s @ []) = s' @ minified []" "minified (s' @ []) = s' @ minified []"
    using s'(2) unfolding becomes_def by blast+
  then have m: "minified s = s'" "minified s' = s'" by simp_all
  obtain z where "length (minified s) + length z = length s + length t"
      "cJSON_Minify (Some (s @ CHR 0x00 # t)) = Inr (Some (minified s @ CHR 0x00 # z))"
    using cJSON_Minify_text no_nul_json_text(1) [OF assms(1)] by blast
  then show ?thesis using s'(1) no_nul_json_text(1) [OF s'(1)] m by (intro exI [of _ s'] exI [of _ z]) simp
qed


theorem cJSON_Minify_keeps_value_witness:
  "\<exists>s' z. cJSON_Minify (Some (''[ null ]'' @ CHR 0x00 # [])) = Inr (Some (s' @ CHR 0x00 # z)) \<and>
    length s' + length z = 8 \<and> json_text CHR ''.'' (Jarray [Jnull]) s' \<and> no_nul s' \<and> minified s' = s'"
proof -
  have "json_text CHR ''.'' Jnull ''null''"
    using json_text_elements_text_members_text.scalar scalar_text.null .
  from json_text_elements_text_members_text.array [OF json_text_elements_text_members_text.last_element [OF _ this, of "'' ''" "'' ''"]]
  have "json_text CHR ''.'' (Jarray [Jnull]) ''[ null ]''" by (simp add: ws_def is_ws_def)
  from cJSON_Minify_keeps_value [OF this, of "[]"] show ?thesis by (simp add: numeral_eq_Suc)
qed

text \<open>Where it does not: the space at the start of the second string is lost.\<close>

lemma minify_misreads_escape:
  "cJSON_Minify (Some ([CHR ''['', CHR 0x22, CHR 0x5C, CHR 0x5C, CHR 0x22, CHR '','', CHR 0x22, CHR '' '', CHR ''a'', CHR 0x22, CHR '']''] @ [CHR 0x00])) =
    Inr (Some ([CHR ''['', CHR 0x22, CHR 0x5C, CHR 0x5C, CHR 0x22, CHR '','', CHR 0x22, CHR ''a'', CHR 0x22, CHR '']''] @ [CHR 0x00, CHR 0x00]))"
  by code_simp

end
