(* ===== verification/Cjson_Compare.thy ===== *)
theory Cjson_Compare
  imports Cjson_Object
begin

text \<open>
  \<^verbatim>\<open>cJSON_Compare\<close> of \<^verbatim>\<open>src/gstreamer/cJSON.c\<close> on the store, and the relation between items it decides.
\<close>

section \<open>The program\<close>

fun compare_elements ::
    "(addr option \<Rightarrow> addr option \<Rightarrow> bool prog) \<Rightarrow> nat \<Rightarrow> addr option \<Rightarrow> addr option \<Rightarrow> bool prog" where
  "compare_elements cmp f (Some a_element) (Some b_element) =
     (case f of
        0 \<Rightarrow> (\<lambda>s. Inl Out_of_fuel)
      | Suc f' \<Rightarrow>
          bnd (cmp (Some a_element) (Some b_element)) (\<lambda>same.
            if \<not> same then ret False
            else bnd (next_of (Some a_element)) (\<lambda>a_next.
                 bnd (next_of (Some b_element)) (\<lambda>b_next. compare_elements cmp f' a_next b_next))))"
| "compare_elements cmp f a_element b_element = ret (a_element = b_element)"

text \<open>One of the two loops over the members of an object: \<open>cmp\<close> gets the member and its counterpart.\<close>

fun compare_members ::
    "(addr option \<Rightarrow> addr option \<Rightarrow> bool prog) \<Rightarrow> bool \<Rightarrow> addr option \<Rightarrow> nat \<Rightarrow> addr option \<Rightarrow> bool prog" where
  "compare_members cmp case_sensitive other f None = ret True"
| "compare_members cmp case_sensitive other 0 (Some a) = (\<lambda>s. Inl Out_of_fuel)"
| "compare_members cmp case_sensitive other (Suc f) (Some a) =
     bnd (load (Some a)) (\<lambda>c.
     bnd (get_object_item other (key (scalars c)) case_sensitive) (\<lambda>element.
       if element = None then ret False
       else bnd (cmp (Some a) element) (\<lambda>same.
         if \<not> same then ret False
         else bnd (next_of (Some a)) (compare_members cmp case_sensitive other f))))"

fun compare_items :: "nat \<Rightarrow> bool \<Rightarrow> addr option \<Rightarrow> addr option \<Rightarrow> bool prog" where
  "compare_items 0 case_sensitive a b = (\<lambda>s. Inl Out_of_fuel)"
| "compare_items (Suc f) case_sensitive a b =
     (if a = None \<or> b = None then ret False
      else bnd (scalars_of a) (\<lambda>n. bnd (scalars_of b) (\<lambda>m.
        if kind n \<noteq> kind m \<or> kind n = cJSON_Invalid then ret False
        else if kind n \<notin> {cJSON_False, cJSON_True, cJSON_NULL, cJSON_Number, cJSON_String, cJSON_Raw, cJSON_Array, cJSON_Object}
        then ret False
        else if a = b then ret True
        else if kind n \<in> {cJSON_False, cJSON_True, cJSON_NULL} then ret True
        else if kind n = cJSON_Number then ret (compare_double (valuedouble n) (valuedouble m))
        else if kind n \<in> {cJSON_String, cJSON_Raw} then
          ret (case (valuestring n, valuestring m) of (Some x, Some y) \<Rightarrow> c_str x = c_str y | _ \<Rightarrow> False)
        else if kind n = cJSON_Array then
          bnd (child_of a) (\<lambda>a_element. bnd (child_of b) (\<lambda>b_element s.
            compare_elements (compare_items f case_sensitive) (next_addr s) a_element b_element s))
        else
          bnd (child_of a) (\<lambda>a_element s.
          bnd (compare_members (compare_items f case_sensitive) case_sensitive b (next_addr s) a_element) (\<lambda>same.
            if \<not> same then ret False
            else bnd (child_of b) (\<lambda>b_element s.
              compare_members (compare_items f case_sensitive) case_sensitive a (next_addr s) b_element s)) s))))"

text \<open>No tree is deeper than the number of addresses handed out; one more for the call itself.\<close>

definition cJSON_Compare :: "addr option \<Rightarrow> addr option \<Rightarrow> bool \<Rightarrow> bool prog" where
  "cJSON_Compare a b case_sensitive s = compare_items (next_addr s + 1) case_sensitive a b s"

section \<open>What it decides\<close>

text \<open>The member of an object that stands for a key.\<close>

definition counterpart :: "bool \<Rightarrow> string option \<Rightarrow> cJSON list \<Rightarrow> cJSON option" where
  "counterpart case_sensitive k xs =
     (case k of
        None \<Rightarrow> None
      | Some name \<Rightarrow> find (\<lambda>x. matching name case_sensitive (key (node x)))
          (if case_sensitive then takeWhile (\<lambda>x. key (node x) \<noteq> None) xs else xs))"

lemma counterpart_mem: "counterpart case_sensitive k xs = Some y \<Longrightarrow> y \<in> set xs"
  by (auto simp: counterpart_def find_Some_iff dest: set_takeWhileD nth_mem split: option.splits if_splits)

lemma size_member: "x \<in> set xs \<Longrightarrow> size x < size_list size xs + k"
  by (induction xs) auto

function same_item :: "bool \<Rightarrow> cJSON \<Rightarrow> cJSON \<Rightarrow> bool" where
  "same_item case_sensitive (Item n xs) (Item m ys) \<longleftrightarrow>
     kind n = kind m \<and>
     (if kind n \<in> {cJSON_False, cJSON_True, cJSON_NULL} then True
      else if kind n = cJSON_Number then compare_double (valuedouble n) (valuedouble m)
      else if kind n \<in> {cJSON_String, cJSON_Raw} then
        valuestring n \<noteq> None \<and> valuestring m \<noteq> None \<and> c_str (the (valuestring n)) = c_str (the (valuestring m))
      else if kind n = cJSON_Array then
        length xs = length ys \<and> (\<forall>p \<in> set (zip xs ys). same_item case_sensitive (fst p) (snd p))
      else if kind n = cJSON_Object then
        (\<forall>x \<in> set xs. case counterpart case_sensitive (key (node x)) ys of
             None \<Rightarrow> False | Some y \<Rightarrow> same_item case_sensitive x y) \<and>
        (\<forall>y \<in> set ys. case counterpart case_sensitive (key (node y)) xs of
             None \<Rightarrow> False | Some x \<Rightarrow> same_item case_sensitive y x)
      else False)"
  by pat_completeness auto

termination
proof (relation "measure (\<lambda>(_, a, b). size a + size b)", goal_cases)
  case (2 cs n xs m ys p)
  then have "fst p \<in> set xs" "snd p \<in> set ys" by (cases p; auto dest: set_zip_leftD set_zip_rightD)+
  then show ?case using size_member [of "fst p" xs 1] size_member [of "snd p" ys 1] by (simp add: split_beta)
next
  case (3 cs n xs m ys x y)
  then show ?case using size_member [of x xs 1] size_member [of y ys 1] counterpart_mem by simp
next
  case (4 cs n xs m ys y x)
  then show ?case using size_member [of x xs 1] size_member [of y ys 1] counterpart_mem by simp
qed simp


section \<open>The program decides it\<close>

lemma if_apply: "(if b then m else n) s = (if b then m s else n s)"
  by simp

lemma decide:
  "(if k \<noteq> k' \<or> k = cJSON_Invalid then Inr (False, s)
    else if k \<notin> {cJSON_False, cJSON_True, cJSON_NULL, cJSON_Number, cJSON_String, cJSON_Raw, cJSON_Array, cJSON_Object}
    then Inr (False, s)
    else if k \<in> {cJSON_False, cJSON_True, cJSON_NULL} then Inr (True, s)
    else if k = cJSON_Number then Inr (A, s)
    else if k \<in> {cJSON_String, cJSON_Raw} then Inr (B, s)
    else if k = cJSON_Array then Inr (C, s) else Inr (D, s)) =
   Inr (k = k' \<and> (if k \<in> {cJSON_False, cJSON_True, cJSON_NULL} then True
      else if k = cJSON_Number then A else if k \<in> {cJSON_String, cJSON_Raw} then B
      else if k = cJSON_Array then C else if k = cJSON_Object then D else False), s)"
proof (cases "k = k'")
  case True
  have "cJSON_Invalid \<notin> {cJSON_False, cJSON_True, cJSON_NULL, cJSON_Number, cJSON_String, cJSON_Raw, cJSON_Array, cJSON_Object}"
    by (simp add: cJSON_types)
  with True show ?thesis by (cases "k = cJSON_Invalid") auto
qed simp

lemma find_map: "find P (map f xs) = map_option f (find (P \<circ> f) xs)"
  by (induction xs) auto

lemma counterpart_member_at:
  "counterpart case_sensitive (Some name) (map (tree_item m) ts) = map_option (tree_item m) (member_at m name case_sensitive ts)"
  by (simp add: counterpart_def member_at_def find_map takeWhile_map comp_def key_of_item)

lemma compare_elements_run:
  "seg m pv (map proot xs) None \<Longrightarrow> seg m pw (map proot ys) None \<Longrightarrow> cells s = m \<Longrightarrow> length xs \<le> f \<Longrightarrow>
    \<forall>x \<in> set xs. \<forall>y \<in> set ys. cmp (Some (proot x)) (Some (proot y)) s = Inr (P x y, s) \<Longrightarrow>
    compare_elements cmp f (hd_opt (map proot xs)) (hd_opt (map proot ys)) s =
      Inr (length xs = length ys \<and> (\<forall>p \<in> set (zip xs ys). P (fst p) (snd p)), s)"
proof (induction xs arbitrary: ys pv pw f)
  case Nil
  then show ?case by (cases ys) (simp_all add: ret_def)
next
  case (Cons x xs)
  obtain f' where f: "f = Suc f'" using Cons.prems(4) by (cases f) auto
  from Cons.prems(1) obtain c where c: "m (proot x) = Some c" "link_next c = hd_opt (map proot xs)" "seg m (Some (proot x)) (map proot xs) None"
    by (auto simp: hd_opt_def split: if_splits)
  show ?case
  proof (cases ys)
    case ys: (Cons y zs)
    from Cons.prems(2) obtain d where d: "m (proot y) = Some d" "link_next d = hd_opt (map proot zs)" "seg m (Some (proot y)) (map proot zs) None"
      by (auto simp: ys hd_opt_def split: if_splits)
    have "compare_elements cmp f' (hd_opt (map proot xs)) (hd_opt (map proot zs)) s =
        Inr (length xs = length zs \<and> (\<forall>p \<in> set (zip xs zs). P (fst p) (snd p)), s)"
      using Cons.IH [OF c(3) d(3) Cons.prems(3), of f'] Cons.prems(4,5) by (simp add: f ys)
    with c(1,2) d(1,2) Cons.prems(3,5) show ?thesis by (simp add: f ys heap_run)
  qed (simp add: ret_def)
qed

lemma compare_members_run:
  "seg m pv (map proot xs) None \<Longrightarrow> cells s = m \<Longrightarrow> length xs \<le> f \<Longrightarrow>
    \<forall>x \<in> set xs. get_object_item other (key_of m x) case_sensitive s = Inr (map_option proot (Q x), s) \<and>
      (\<forall>y. Q x = Some y \<longrightarrow> cmp (Some (proot x)) (Some (proot y)) s = Inr (P x y, s)) \<Longrightarrow>
    compare_members cmp case_sensitive other f (hd_opt (map proot xs)) s =
      Inr (\<forall>x \<in> set xs. case Q x of None \<Rightarrow> False | Some y \<Rightarrow> P x y, s)"
proof (induction xs arbitrary: pv f)
  case (Cons x xs)
  obtain f' where f: "f = Suc f'" using Cons.prems(3) by (cases f) auto
  from Cons.prems(1) obtain c where c: "m (proot x) = Some c" "link_next c = hd_opt (map proot xs)" "seg m (Some (proot x)) (map proot xs) None"
    by (auto simp: hd_opt_def split: if_splits)
  have "compare_members cmp case_sensitive other f' (hd_opt (map proot xs)) s =
      Inr (\<forall>x \<in> set xs. case Q x of None \<Rightarrow> False | Some y \<Rightarrow> P x y, s)"
    using Cons.IH [OF c(3) Cons.prems(2), of f'] Cons.prems(3,4) by (simp add: f)
  moreover have "get_object_item other (key (scalars c)) case_sensitive s = Inr (map_option proot (Q x), s)"
    using Cons.prems(4) c(1) by (simp add: key_of_def)
  ultimately show ?case
    using c(1,2) Cons.prems(2,4) by (cases "Q x") (simp_all add: f heap_run)
qed (simp add: ret_def)

lemma child_length:
  assumes "t \<in> set ts"
  shows "length (addrs t) < length (addrs (PNode a ts))"
  using assms by (induction ts) auto

lemma compare_items_run:
  "tree_of (cells s) ta \<Longrightarrow> tree_of (cells s) tb \<Longrightarrow> set (addrs ta) \<inter> set (addrs tb) = {} \<Longrightarrow> bounded s \<Longrightarrow>
    length (addrs ta) \<le> f \<Longrightarrow> length (addrs tb) \<le> f \<Longrightarrow>
    compare_items f case_sensitive (Some (proot ta)) (Some (proot tb)) s =
      Inr (same_item case_sensitive (tree_item (cells s) ta) (tree_item (cells s) tb), s)"
proof (induction f arbitrary: ta tb)
  case 0
  then show ?case by (cases ta) simp
next
  case (Suc f)
  obtain a ts where ta: "ta = PNode a ts" by (cases ta)
  obtain b us where tb: "tb = PNode b us" by (cases tb)
  obtain c where c: "cells s a = Some c" "array_of (cells s) a (map proot ts)" "\<forall>t \<in> set ts. tree_of (cells s) t"
    using Suc.prems(1) by (auto simp: ta)
  obtain d where d: "cells s b = Some d" "array_of (cells s) b (map proot us)" "\<forall>t \<in> set us. tree_of (cells s) t"
    using Suc.prems(2) by (auto simp: tb)
  have ab: "a \<noteq> b" using Suc.prems(3) by (auto simp: ta tb)
  let ?P = "\<lambda>x y. same_item case_sensitive (tree_item (cells s) x) (tree_item (cells s) y)"
  have sub: "compare_items f case_sensitive (Some (proot t)) (Some (proot u)) s = Inr (?P t u, s)"
      "compare_items f case_sensitive (Some (proot u)) (Some (proot t)) s = Inr (?P u t, s)" if "t \<in> set ts" "u \<in> set us" for t u
  proof -
    have "set (addrs t) \<inter> set (addrs u) = {}" using Suc.prems(3) that by (auto simp: ta tb)
    moreover have "length (addrs t) \<le> f" "length (addrs u) \<le> f"
      using child_length [OF that(1), of a] child_length [OF that(2), of b] Suc.prems(5,6) by (simp_all add: ta tb)
    ultimately show "compare_items f case_sensitive (Some (proot t)) (Some (proot u)) s = Inr (?P t u, s)"
        "compare_items f case_sensitive (Some (proot u)) (Some (proot t)) s = Inr (?P u t, s)"
      using Suc.IH [of t u] Suc.IH [of u t] c(3) d(3) that Suc.prems(4) by (simp_all add: Int_commute)
  qed
  have chain: "child_of (Some a) s = Inr (hd_opt (map proot ts), s)" "child_of (Some b) s = Inr (hd_opt (map proot us), s)"
      "seg (cells s) (last_opt (map proot ts)) (map proot ts) None" "seg (cells s) (last_opt (map proot us)) (map proot us) None"
      "length ts \<le> next_addr s" "length us \<le> next_addr s"
    using c(1,2) d(1,2) array_of_length [OF Suc.prems(4) c(2)] array_of_length [OF Suc.prems(4) d(2)]
    by (auto simp: array_of_def heap_run)
  have member: "get_object_item p (key_of (cells s) t) case_sensitive s =
      Inr (map_option proot (case key_of (cells s) t of None \<Rightarrow> None | Some name \<Rightarrow> member_at (cells s) name case_sensitive vs), s)"
    if "p = Some e" "tree_of (cells s) (PNode e vs)" for p e vs t
    using get_object_item_member [OF that(2) Suc.prems(4)] that(1)
    by (auto simp: get_object_item_def ret_def split: option.split)
  let ?Q = "\<lambda>vs t. case key_of (cells s) t of None \<Rightarrow> None | Some name \<Rightarrow> member_at (cells s) name case_sensitive vs"
  have value_of: "counterpart case_sensitive (key (node (tree_item (cells s) t))) (map (tree_item (cells s)) vs) =
      map_option (tree_item (cells s)) (?Q vs t)" for t vs
  proof (cases "key_of (cells s) t")
    case None
    then show ?thesis by (simp add: counterpart_def flip: key_of_item)
  next
    case (Some name)
    then show ?thesis using counterpart_member_at by (simp flip: key_of_item)
  qed
  have mem: "u \<in> set vs" if "?Q vs t = Some u" for t vs u
    using that by (auto simp: member_at_def find_Some_iff dest: set_takeWhileD nth_mem split: option.splits if_splits)
  have elements: "compare_elements (compare_items f case_sensitive) (next_addr s) (hd_opt (map proot ts)) (hd_opt (map proot us)) s =
      Inr (length ts = length us \<and> (\<forall>p \<in> set (zip ts us). ?P (fst p) (snd p)), s)"
    using sub(1) by (intro compare_elements_run [OF chain(3,4) refl chain(5)]) auto
  have members: "compare_members (compare_items f case_sensitive) case_sensitive (Some b) (next_addr s) (hd_opt (map proot ts)) s =
        Inr (\<forall>x \<in> set ts. case ?Q us x of None \<Rightarrow> False | Some y \<Rightarrow> ?P x y, s)"
      "compare_members (compare_items f case_sensitive) case_sensitive (Some a) (next_addr s) (hd_opt (map proot us)) s =
        Inr (\<forall>x \<in> set us. case ?Q ts x of None \<Rightarrow> False | Some y \<Rightarrow> ?P x y, s)"
    using sub member [of "Some b" b us] member [of "Some a" a ts] mem Suc.prems(1,2)
    by (intro compare_members_run [OF chain(3) refl chain(5)] compare_members_run [OF chain(4) refl chain(6)];
        auto simp: ta tb)+
  let ?T = "tree_item (cells s)" and ?n = "scalars c" and ?m = "scalars d"
  have items: "?T ta = Item ?n (map ?T ts)" "?T tb = Item ?m (map ?T us)" using c(1) d(1) by (simp_all add: ta tb)
  have E: "(\<forall>p \<in> set (zip (map ?T ts) (map ?T us)). same_item case_sensitive (fst p) (snd p)) \<longleftrightarrow>
      (\<forall>p \<in> set (zip ts us). ?P (fst p) (snd p))"
    by (auto simp: zip_map_map)
  have M: "(\<forall>x \<in> set (map ?T vs). case counterpart case_sensitive (key (node x)) (map ?T ws) of
        None \<Rightarrow> False | Some y \<Rightarrow> same_item case_sensitive x y) \<longleftrightarrow>
      (\<forall>x \<in> set vs. case ?Q ws x of None \<Rightarrow> False | Some y \<Rightarrow> ?P x y)" for vs ws
    by (simp add: value_of option.case_eq_if option.map_sel)
  have scalars: "scalars_of (Some a) s = Inr (?n, s)" "scalars_of (Some b) s = Inr (?m, s)"
    using c(1) d(1) by (simp_all add: heap_run)
  have string: "(case (valuestring ?n, valuestring ?m) of (Some x, Some y) \<Rightarrow> c_str x = c_str y | _ \<Rightarrow> False) \<longleftrightarrow>
      valuestring ?n \<noteq> None \<and> valuestring ?m \<noteq> None \<and> c_str (the (valuestring ?n)) = c_str (the (valuestring ?m))"
    by (simp split: option.split)
  define X where "X \<longleftrightarrow> length ts = length us \<and> (\<forall>p \<in> set (zip ts us). ?P (fst p) (snd p))"
  define Y where "Y \<longleftrightarrow> (\<forall>x \<in> set ts. case ?Q us x of None \<Rightarrow> False | Some y \<Rightarrow> ?P x y)"
  define Z where "Z \<longleftrightarrow> (\<forall>x \<in> set us. case ?Q ts x of None \<Rightarrow> False | Some y \<Rightarrow> ?P x y)"
  note elements' = elements [folded X_def] and members' = members [folded Y_def Z_def]
  have step: "bnd (scalars_of (Some a)) F s = F ?n s" "bnd (scalars_of (Some b)) F s = F ?m s"
      "bnd (child_of (Some a)) G s = G (hd_opt (map proot ts)) s" "bnd (child_of (Some b)) G s = G (hd_opt (map proot us)) s"
      "bnd (compare_members (compare_items f case_sensitive) case_sensitive (Some b) (next_addr s) (hd_opt (map proot ts))) H s = H Y s"
    for F :: "cnode \<Rightarrow> bool prog" and G :: "addr option \<Rightarrow> bool prog" and H :: "bool \<Rightarrow> bool prog"
    by (rule bnd_run, rule scalars chain members')+
  have start: "compare_items (Suc f) case_sensitive (Some a) (Some b) s =
      (if kind ?n \<noteq> kind ?m \<or> kind ?n = cJSON_Invalid then Inr (False, s)
       else if kind ?n \<notin> {cJSON_False, cJSON_True, cJSON_NULL, cJSON_Number, cJSON_String, cJSON_Raw, cJSON_Array, cJSON_Object}
       then Inr (False, s)
       else if kind ?n \<in> {cJSON_False, cJSON_True, cJSON_NULL} then Inr (True, s)
       else if kind ?n = cJSON_Number then Inr (compare_double (valuedouble ?n) (valuedouble ?m), s)
       else if kind ?n \<in> {cJSON_String, cJSON_Raw} then
         Inr (case (valuestring ?n, valuestring ?m) of (Some x, Some y) \<Rightarrow> c_str x = c_str y | _ \<Rightarrow> False, s)
       else if kind ?n = cJSON_Array then Inr (X, s) else Inr (Y \<and> Z, s))"
    using ab unfolding compare_items.simps(2)
    by (simp only: step ret_def elements' members' option.simps if_apply prod.case simp_thms if_False) (simp add: ret_def members')
  show ?case
    unfolding ta tb proot.simps start
    unfolding items [unfolded ta tb] same_item.simps E M string length_map X_def [symmetric] Y_def [symmetric] Z_def [symmetric] by (rule decide)
qed


text \<open>C18. \<^verbatim>\<open>cJSON_Compare\<close> of two items that share no cell returns, reads only cells of the two and changes
  nothing; the answer is that the items are the same: of the same kind, numbers up to the relative precision
  of a double, strings by their characters, arrays element by element, and of two objects each has, for every
  member, a member with the same key (the first one counts) that is the same.\<close>

theorem cJSON_Compare_decides:
  assumes "tree_of (cells s) ta" "tree_of (cells s) tb" "set (addrs ta) \<inter> set (addrs tb) = {}"
    and "distinct (addrs ta)" "distinct (addrs tb)" "bounded s"
  shows "cJSON_Compare (Some (proot ta)) (Some (proot tb)) case_sensitive s =
    Inr (same_item case_sensitive (tree_item (cells s) ta) (tree_item (cells s) tb), s)"
proof -
  have "length (addrs t) \<le> next_addr s" if "tree_of (cells s) t" "distinct (addrs t)" for t
    using bounded_length [OF assms(6) that(2)] owns_dom [OF owns_tree [OF that(1)]] by blast
  then have "length (addrs ta) \<le> next_addr s + 1" "length (addrs tb) \<le> next_addr s + 1"
    using assms by (simp_all add: le_SucI)
  then show ?thesis
    unfolding cJSON_Compare_def by (rule compare_items_run [OF assms(1-3,6)])
qed

theorem cJSON_Compare_decides_witness:
  "cJSON_Compare (Some 1) (Some 2) True small_store = Inr (False, small_store)"
proof -
  have "tree_of (cells small_store) (PNode 1 [])" "tree_of (cells small_store) (PNode 2 [])"
    using small_store_holds(1) by simp_all
  from cJSON_Compare_decides [OF this _ _ _ small_store_holds(2)]
  have "cJSON_Compare (Some 1) (Some 2) True small_store =
      Inr (same_item True (tree_item (cells small_store) (PNode 1 [])) (tree_item (cells small_store) (PNode 2 [])), small_store)"
    by simp
  moreover have "kind (scalars (the (cells small_store 1))) \<noteq> kind (scalars (the (cells small_store 2)))"
    by (simp add: small_store_def kind_def cJSON_types)
  ultimately show ?thesis by simp
qed

section \<open>Copies\<close>

text \<open>The key as it is compared.\<close>

definition folded :: "bool \<Rightarrow> string option \<Rightarrow> string" where
  "folded case_sensitive k = (if case_sensitive then c_str (the k) else map tolower (c_str (the k)))"

text \<open>Items that can be the same as another: numbers are finite, strings and keys are there, and no two
  members have the same key.\<close>

fun comparable :: "bool \<Rightarrow> cJSON \<Rightarrow> bool" where
  "comparable case_sensitive (Item n xs) \<longleftrightarrow>
     kind n \<in> {cJSON_False, cJSON_True, cJSON_NULL, cJSON_Number, cJSON_String, cJSON_Raw, cJSON_Array, cJSON_Object} \<and>
     (kind n = cJSON_Number \<longrightarrow> \<not> double_isnan (valuedouble n) \<and> \<not> double_isinf (valuedouble n)) \<and>
     (kind n \<in> {cJSON_String, cJSON_Raw} \<longrightarrow> valuestring n \<noteq> None) \<and>
     (kind n = cJSON_Object \<longrightarrow>
        (\<forall>x \<in> set xs. key (node x) \<noteq> None) \<and> distinct (map (\<lambda>x. folded case_sensitive (key (node x))) xs)) \<and>
     (\<forall>x \<in> set xs. comparable case_sensitive x)"

lemma matching_folded: "k \<noteq> None \<Longrightarrow> matching name case_sensitive k \<longleftrightarrow> folded case_sensitive (Some name) = folded case_sensitive k"
  by (auto simp: matching_def folded_def)

lemma find_unique: "P x \<Longrightarrow> x \<in> set xs \<Longrightarrow> \<forall>y \<in> set xs. P y \<longrightarrow> y = x \<Longrightarrow> find P xs = Some x"
proof (induction xs)
  case (Cons a xs)
  show ?case
  proof (cases "P a")
    case True
    then have "a = x" using Cons.prems(3) by simp
    with True show ?thesis by simp
  next
    case False
    then have "x \<in> set xs" using Cons.prems(1,2) by auto
    then have "find P xs = Some x"
      using Cons.IH [OF Cons.prems(1)] Cons.prems(3) by (meson list.set_intros(2))
    then show ?thesis using False by simp
  qed
qed simp

lemma counterpart_unique:
  assumes "x \<in> set xs" "\<forall>x \<in> set xs. key (node (g x)) \<noteq> None" "k \<noteq> None"
    and "distinct (map (\<lambda>x. folded case_sensitive (key (node (g x)))) xs)"
    and "folded case_sensitive k = folded case_sensitive (key (node (g x)))"
  shows "counterpart case_sensitive k (map g xs) = Some (g x)"
proof -
  obtain name where k: "k = Some name" using assms(3) by blast
  let ?P = "\<lambda>x. matching name case_sensitive (key (node (g x)))"
  have "?P y \<longleftrightarrow> folded case_sensitive (key (node (g y))) = folded case_sensitive (key (node (g x)))" if "y \<in> set xs" for y
    using that assms(2,5) by (auto simp: k matching_folded)
  then have "find ?P xs = Some x"
    using assms(1,4) by (intro find_unique) (auto simp: distinct_map inj_on_def)
  moreover have "takeWhile (\<lambda>x. key (node x) \<noteq> None) (map g xs) = map g xs"
    using assms(2) by (simp add: takeWhile_eq_all_conv)
  ultimately show ?thesis
    by (simp only: k counterpart_def option.case if_cancel find_map comp_def option.map)
qed

lemma kind_dup: "kind (dup_node n) = kind n"
  by (simp add: kind_def dup_node_def cJSON_IsReference_def and.assoc)

lemma c_str_idem: "c_str (c_str x) = c_str x"
  by (simp add: c_str_def takeWhile_takeWhile)

lemma decided:
  "k \<in> {cJSON_False, cJSON_True, cJSON_NULL, cJSON_Number, cJSON_String, cJSON_Raw, cJSON_Array, cJSON_Object} \<Longrightarrow>
    (k = cJSON_Number \<Longrightarrow> A) \<Longrightarrow> (k \<in> {cJSON_String, cJSON_Raw} \<Longrightarrow> B) \<Longrightarrow> (k = cJSON_Array \<Longrightarrow> C) \<Longrightarrow> (k = cJSON_Object \<Longrightarrow> D) \<Longrightarrow>
    (if k \<in> {cJSON_False, cJSON_True, cJSON_NULL} then True
      else if k = cJSON_Number then A else if k \<in> {cJSON_String, cJSON_Raw} then B
      else if k = cJSON_Array then C else if k = cJSON_Object then D else False)"
  by auto

lemma key_dup: "key (node (dup_item x)) = None \<longleftrightarrow> key (node x) = None"
    "key (node x) \<noteq> None \<Longrightarrow> folded case_sensitive (key (node (dup_item x))) = folded case_sensitive (key (node x))"
  by (cases x; auto simp: dup_node_def folded_def c_str_idem)+

lemma same_dup: "comparable case_sensitive x \<Longrightarrow> same_item case_sensitive x (dup_item x) \<and> same_item case_sensitive (dup_item x) x"
proof (induction x)
  case (Item n xs)
  have sub: "same_item case_sensitive x (dup_item x)" "same_item case_sensitive (dup_item x) x" if "x \<in> set xs" for x
    using Item that by auto
  have numbers: "kind n = cJSON_Number \<Longrightarrow> compare_double (valuedouble n) (valuedouble n)"
    using Item.prems by (intro compare_double_refl) auto
  have double: "valuedouble (dup_node n) = valuedouble n"
    "valuestring (dup_node n) = map_option c_str (valuestring n)" by (simp_all add: dup_node_def)
  have pairs: "\<forall>p \<in> set (zip xs (map dup_item xs)). same_item case_sensitive (fst p) (snd p)"
      "\<forall>p \<in> set (zip (map dup_item xs) xs). same_item case_sensitive (fst p) (snd p)"
    using sub by (auto simp: set_zip)
  have there: "counterpart case_sensitive (key (node x)) (map dup_item xs) = Some (dup_item x)"
      "counterpart case_sensitive (key (node (dup_item x))) xs = Some x" if "kind n = cJSON_Object" "x \<in> set xs" for x
  proof -
    have k: "\<forall>x \<in> set xs. key (node x) \<noteq> None" "distinct (map (\<lambda>x. folded case_sensitive (key (node x))) xs)"
      using Item.prems that(1) by simp_all
    then have same_keys: "map (\<lambda>x. folded case_sensitive (key (node (dup_item x)))) xs = map (\<lambda>x. folded case_sensitive (key (node x))) xs"
      by (simp add: key_dup(2))
    show "counterpart case_sensitive (key (node x)) (map dup_item xs) = Some (dup_item x)"
      using k that(2) by (intro counterpart_unique, unfold same_keys) (auto simp: key_dup)
    show "counterpart case_sensitive (key (node (dup_item x))) xs = Some x"
      using counterpart_unique [of x xs "\<lambda>x. x" "key (node (dup_item x))" case_sensitive] k that(2) key_dup(1) [of x] key_dup(2) [of x case_sensitive] by simp
  qed
  have kinds: "kind n \<in> {cJSON_False, cJSON_True, cJSON_NULL, cJSON_Number, cJSON_String, cJSON_Raw, cJSON_Array, cJSON_Object}"
    using Item.prems by simp
  have strings: "valuestring n \<noteq> None" "map_option c_str (valuestring n) \<noteq> None"
      "c_str (the (valuestring n)) = c_str (the (map_option c_str (valuestring n)))"
    if "kind n \<in> {cJSON_String, cJSON_Raw}"
  proof -
    have "valuestring n \<noteq> None" using Item.prems that by (simp only: comparable.simps simp_thms)
    then show "valuestring n \<noteq> None" "map_option c_str (valuestring n) \<noteq> None"
      "c_str (the (valuestring n)) = c_str (the (map_option c_str (valuestring n)))"
      by (simp_all add: c_str_idem option.map_sel)
  qed
  let ?same = "\<lambda>xs ys. \<forall>x \<in> set xs. case counterpart case_sensitive (key (node x)) ys of
      None \<Rightarrow> False | Some y \<Rightarrow> same_item case_sensitive x y"
  have objects: "?same xs (map dup_item xs)" "?same (map dup_item xs) xs" if "kind n = cJSON_Object"
    using there [OF that] sub by simp_all
  have "same_item case_sensitive (Item n xs) (Item (dup_node n) (map dup_item xs))"
    unfolding same_item.simps kind_dup double length_map
    by (intro conjI refl decided [OF kinds] numbers pairs strings objects)
  moreover have "same_item case_sensitive (Item (dup_node n) (map dup_item xs)) (Item n xs)"
    unfolding same_item.simps kind_dup double length_map
    by (intro conjI refl decided [OF kinds] numbers pairs strings strings(3) [symmetric] objects)
  ultimately show ?case by (simp only: dup_item.simps)
qed

text \<open>C19. A copy made by \<^verbatim>\<open>cJSON_Duplicate\<close> compares equal to its original, in both directions and with
  either comparison of keys, as long as its numbers are finite, its strings are there, and no object has a
  member without a key or two with the same.\<close>

theorem cJSON_Duplicate_equal:
  assumes "tree_of (cells s) t" "distinct (addrs t)" "bounded s"
    and "cJSON_Duplicate (Some (proot t)) True s = Inr (Some b, s')" "comparable case_sensitive (tree_item (cells s) t)"
  shows "cJSON_Compare (Some (proot t)) (Some b) case_sensitive s' = Inr (True, s') \<and>
    cJSON_Compare (Some b) (Some (proot t)) case_sensitive s' = Inr (True, s')"
proof -
  have "copies s (dup_item (tree_item (cells s) t)) (Some b) s'"
    using duplicate_makes [OF assms(1-3)] assms(4) by auto
  then obtain t' where t': "bounded s'" "proot t' = b" "tree_of (cells s') t'" "distinct (addrs t')"
      "set (addrs t') \<subseteq> {next_addr s ..< next_addr s'}" "tree_item (cells s') t' = dup_item (tree_item (cells s) t)"
      "\<forall>a. a \<notin> set (addrs t') \<longrightarrow> cells s' a = cells s a"
    by (auto simp: copies_def)
  have "a < next_addr s" if "a \<in> set (addrs t)" for a
    using owns_dom [OF owns_tree [OF assms(1)] that] assms(3) by (auto simp: bounded_def)
  then have apart: "set (addrs t) \<inter> set (addrs t') = {}" using t'(5) by force
  then have same: "\<forall>a \<in> set (addrs t). cells s' a = cells s a" using t'(7) by blast
  then have t: "tree_of (cells s') t" "tree_item (cells s') t = tree_item (cells s) t"
    using assms(1) tree_of_frame tree_item_frame by blast+
  note decides = cJSON_Compare_decides [OF _ _ _ _ _ t'(1)]
  show ?thesis
    using decides [OF t(1) t'(3) apart assms(2) t'(4), of case_sensitive]
      decides [OF t'(3) t(1) _ t'(4) assms(2), of case_sensitive] apart same_dup [OF assms(5)] t'(2,6) t(2)
    by (simp add: Int_commute)
qed

theorem cJSON_Duplicate_equal_witness:
  "\<exists>b s'. cJSON_Duplicate (Some 0) True small_store = Inr (Some b, s') \<and>
    cJSON_Compare (Some 0) (Some b) True s' = Inr (True, s')"
proof -
  let ?t = "PNode 0 [PNode 1 [], PNode 2 []]"
  have d: "distinct (addrs ?t)" by simp
  obtain r s' where r: "cJSON_Duplicate (Some (proot ?t)) True small_store = Inr (r, s')" "unfailing (shooks small_store) \<longrightarrow> r \<noteq> None"
    using duplicate_makes [OF small_store_holds(1) d small_store_holds(2)] by (auto simp: copies_def)
  then obtain b where b: "r = Some b" by (auto simp: small_store_def)
  have "comparable True (tree_item (cells small_store) ?t)"
    by (simp add: small_store_def kind_def cJSON_types zero_node_def double_isnan_def double_isinf_def double_exp_def double_frac_def)
  from cJSON_Duplicate_equal [OF small_store_holds(1) d small_store_holds(2) r(1) [unfolded b] this] r(1) b
  show ?thesis by auto
qed

text \<open>An infinite number, which \<^verbatim>\<open>1e999\<close> becomes, differs from itself and equals every finite number.\<close>

lemma compare_infinite:
  "\<not> compare_double double_inf double_inf" "\<not> double_isnan d \<Longrightarrow> \<not> double_isinf d \<Longrightarrow> compare_double double_inf d"
proof -
  have "double_isinf double_inf" "\<not> double_isnan double_inf" by code_simp+
  then show "\<not> compare_double double_inf double_inf" "\<not> double_isnan d \<Longrightarrow> \<not> double_isinf d \<Longrightarrow> compare_double double_inf d"
    by (auto simp: compare_double_def)
qed

end
