(* ===== verification/Json_Pointer.thy ===== *)
theory Json_Pointer
  imports Json_Sax Cstdlib
begin

text \<open>
  JSON pointers, class \<^verbatim>\<open>json_pointer\<close> of \<^verbatim>\<open>src/libwebrtc/json.hpp\<close>: parsing and printing, the functions that
  follow a pointer into a value, and \<^verbatim>\<open>flatten\<close> and \<^verbatim>\<open>unflatten\<close>. A pointer is the list of its reference tokens.
  A C++ reference into a value is a path of \<open>Json_Sax\<close>. What a call that throws leaves of the value is not
  modelled (the callers in the library throw their copy away), nor is running out of memory.
\<close>

section \<open>Exceptions\<close>

text \<open>The other exceptions of the library, and \<^verbatim>\<open>std::invalid_argument\<close>, which \<^verbatim>\<open>std::stoull\<close> throws.\<close>

datatype json_error =
    Thrown json_exception
  | Other_error nat string
  | Std_invalid_argument string

type_synonym json_pointer = "string list"

definition thrown :: "json_exception + 'a \<Rightarrow> json_error + 'a" where
  "thrown m = map_sum Thrown id m"

definition parse_error_create_byte :: "nat \<Rightarrow> nat \<Rightarrow> string \<Rightarrow> json_exception" where
  "parse_error_create_byte ident at_byte what_arg =
     Parse_error ident at_byte
       (c_str (exception_name ''parse_error'' ident @ ''parse error'' @
         (if at_byte \<noteq> 0 then '' at byte '' @ to_string at_byte else []) @ '': '' @ what_arg))"

definition quoted :: "string \<Rightarrow> string" where
  "quoted s = [CHR 0x27] @ s @ [CHR 0x27]"

section \<open>Strings\<close>

text \<open>\<^verbatim>\<open>s.find(f, pos)\<close> for a string \<open>f\<close> that is not empty.\<close>

definition find_from :: "string \<Rightarrow> string \<Rightarrow> nat \<Rightarrow> nat option" where
  "find_from s f pos = find (\<lambda>p. take (length f) (drop p s) = f) [pos ..< length s]"

lemma find_from_Some:
  assumes "find_from s f pos = Some p"
  shows "pos \<le> p \<and> p < length s \<and> take (length f) (drop p s) = f"
  using assms by (auto simp: find_from_def find_Some_iff)

text \<open>\<^verbatim>\<open>JSON_ASSERT(!f.empty())\<close> holds in every call.\<close>

function replace_loop :: "string \<Rightarrow> string \<Rightarrow> string \<Rightarrow> nat \<Rightarrow> string" where
  "replace_loop s f t pos =
     (if f = [] then s
      else case find_from s f pos of
             None \<Rightarrow> s
           | Some p \<Rightarrow> replace_loop (take p s @ t @ drop (p + length f) s) f t (p + length t))"
  by pat_completeness auto
termination
proof (relation "measure (\<lambda>(s, f, t, pos). length s - pos)", goal_cases)
  case (2 s f t pos p)
  then have "pos \<le> p" "p < length s" "f \<noteq> []" by (auto dest: find_from_Some)
  then show ?case by (cases f) auto
qed simp

declare replace_loop.simps [simp del]

definition replace_substring :: "string \<Rightarrow> string \<Rightarrow> string \<Rightarrow> string" where
  "replace_substring s f t = replace_loop s f t 0"

definition escape :: "string \<Rightarrow> string" where
  "escape s = replace_substring (replace_substring s ''~'' ''~0'') ''/'' ''~1''"

definition unescape_token :: "string \<Rightarrow> string" where
  "unescape_token s = replace_substring (replace_substring s ''~1'' ''/'') ''~0'' ''~''"

section \<open>Parsing and printing\<close>

function check_escapes :: "string \<Rightarrow> nat \<Rightarrow> bool" where
  "check_escapes reference_token from =
     (case find_from reference_token ''~'' from of
        None \<Rightarrow> True
      | Some pos \<Rightarrow>
          if pos = length reference_token - 1 \<or>
             (reference_token ! (pos + 1) \<noteq> CHR ''0'' \<and> reference_token ! (pos + 1) \<noteq> CHR ''1'')
          then False
          else check_escapes reference_token (pos + 1))"
  by pat_completeness auto
termination
proof (relation "measure (\<lambda>(s, pos). length s - pos)", goal_cases)
  case (2 s start p)
  then have "start \<le> p" "p < length s" by (auto dest: find_from_Some)
  then show ?case by simp
qed simp

declare check_escapes.simps [simp del]

function split_tokens :: "string \<Rightarrow> nat \<Rightarrow> json_error + json_pointer" where
  "split_tokens reference_string start =
     (let slash = find_from reference_string ''/'' start;
          reference_token =
            (case slash of None \<Rightarrow> drop start reference_string
             | Some p \<Rightarrow> take (p - start) (drop start reference_string))
      in if \<not> check_escapes reference_token 0 then
           Inl (Thrown (parse_error_create_byte 108 0
             (''escape character '' @ quoted ''~'' @ '' must be followed with '' @ quoted ''0'' @ '' or '' @ quoted ''1'')))
         else
           (case slash of
              None \<Rightarrow> Inr [unescape_token reference_token]
            | Some p \<Rightarrow> map_sum id ((#) (unescape_token reference_token)) (split_tokens reference_string (p + 1))))"
  by pat_completeness auto
termination
proof (relation "measure (\<lambda>(s, pos). length s - pos)", goal_cases)
  case (2 s start slash tok p)
  then have "find_from s ''/'' start = Some p" by simp
  from find_from_Some [OF this] show ?case by auto
qed simp

declare split_tokens.simps [simp del]

definition split_pointer :: "string \<Rightarrow> json_error + json_pointer" where
  "split_pointer reference_string =
     (if reference_string = [] then Inr []
      else if hd reference_string \<noteq> CHR ''/'' then
        Inl (Thrown (parse_error_create_byte 107 1
          (''JSON pointer must be empty or begin with '' @ quoted ''/'' @ '' - was: '' @ quoted reference_string)))
      else split_tokens reference_string 1)"

definition json_pointer_of :: "string \<Rightarrow> json_error + json_pointer" where
  "json_pointer_of s = split_pointer s"

definition pointer_to_string :: "json_pointer \<Rightarrow> string" where
  "pointer_to_string reference_tokens = foldl (\<lambda>a b. a @ ''/'' @ escape b) [] reference_tokens"

definition append_pointer :: "json_pointer \<Rightarrow> json_pointer \<Rightarrow> json_pointer" where
  "append_pointer p q = p @ q"

definition append_token :: "json_pointer \<Rightarrow> string \<Rightarrow> json_pointer" where
  "append_token p token = p @ [token]"

definition append_index :: "json_pointer \<Rightarrow> nat \<Rightarrow> json_pointer" where
  "append_index p array_idx = append_token p (to_string array_idx)"

definition no_parent :: json_error where
  "no_parent = Thrown (out_of_range_create 405 ''JSON pointer has no parent'')"

definition pointer_pop_back :: "json_pointer \<Rightarrow> json_error + json_pointer" where
  "pointer_pop_back p = (if p = [] then Inl no_parent else Inr (butlast p))"

definition pointer_back :: "json_pointer \<Rightarrow> json_error + string" where
  "pointer_back p = (if p = [] then Inl no_parent else Inr (last p))"

definition pointer_top :: "json_pointer \<Rightarrow> json_error + json_pointer" where
  "pointer_top p = (if p = [] then Inl no_parent else Inr [hd p])"

definition parent_pointer :: "json_pointer \<Rightarrow> json_pointer" where
  "parent_pointer p = (if p = [] then p else butlast p)"

section \<open>Following a pointer\<close>

text \<open>\<^verbatim>\<open>std::stoull\<close> throws \<^verbatim>\<open>std::invalid_argument\<close> when there is no number; only \<^verbatim>\<open>std::out_of_range\<close> is caught. It
  is only reached with a token of at most one character or one that starts with a digit, so its handling of white space
  and signs does not matter.\<close>

definition array_index :: "string \<Rightarrow> json_error + nat" where
  "array_index s =
     (if 1 < length s \<and> hd s = CHR ''0'' then
        Inl (Thrown (parse_error_create_byte 106 0 (''array index '' @ quoted s @ '' must not begin with '' @ quoted ''0'')))
      else if 1 < length s \<and> \<not> (CHR ''1'' \<le> hd s \<and> hd s \<le> CHR ''9'') then
        Inl (Thrown (parse_error_create_byte 109 0 (''array index '' @ quoted s @ '' is not a number'')))
      else
        (case strtoull s of
           (res, range_error, processed_chars) \<Rightarrow>
             if processed_chars = 0 then Inl (Std_invalid_argument ''stoull'')
             else if range_error \<or> processed_chars \<noteq> length s then
               Inl (Thrown (out_of_range_create 404 (''unresolved reference token '' @ quoted s)))
             else if unat res \<ge> 2 ^ 64 - 1 then
               Inl (Thrown (out_of_range_create 410 (''array index '' @ s @ '' exceeds size_type'')))
             else Inr (unat res)))"

definition unresolved :: "string \<Rightarrow> json_error" where
  "unresolved reference_token = Thrown (out_of_range_create 404 (''unresolved reference token '' @ quoted reference_token))"

definition dash_out_of_range :: "json list \<Rightarrow> json_error" where
  "dash_out_of_range xs =
     Thrown (out_of_range_create 402 (''array index '' @ quoted ''-'' @ '' ('' @ to_string (length xs) @ '') is out of range''))"

text \<open>\<^verbatim>\<open>get_checked\<close>, the path of the reference it returns.\<close>

fun get_checked :: "json_pointer \<Rightarrow> json \<Rightarrow> json_error + ptr" where
  "get_checked [] j = Inr []"
| "get_checked (reference_token # ts) j =
     (case j of
        Jobject m \<Rightarrow>
          try_bind (thrown (at_key reference_token j)) (\<lambda>v. map_sum id ((#) (Key reference_token)) (get_checked ts v))
      | Jarray xs \<Rightarrow>
          if reference_token = ''-'' then Inl (dash_out_of_range xs)
          else try_bind (array_index reference_token) (\<lambda>idx.
               try_bind (thrown (at_nat idx j)) (\<lambda>v. map_sum id ((#) (Idx idx)) (get_checked ts v)))
      | _ \<Rightarrow> Inl (unresolved reference_token))"

text \<open>\<^verbatim>\<open>get_unchecked\<close> on a value that may be changed: the path and the changed value.\<close>

definition all_digits :: "string \<Rightarrow> bool" where
  "all_digits s \<longleftrightarrow> list_all is_digit s"

fun get_unchecked :: "json_pointer \<Rightarrow> json \<Rightarrow> json_error + ptr \<times> json" where
  "get_unchecked [] j = Inr ([], j)"
| "get_unchecked (reference_token # ts) j0 =
     (let j = (if is_null j0
               then (if all_digits reference_token \<or> reference_token = ''-'' then Jarray [] else Jobject [])
               else j0)
      in case j of
           Jobject m \<Rightarrow>
             try_bind (thrown (index_key reference_token j)) (\<lambda>(v, j').
             try_bind (get_unchecked ts v) (\<lambda>(p, v').
               Inr (Key reference_token # p, json_set_child (Key reference_token) v' j')))
         | Jarray xs \<Rightarrow>
             try_bind (if reference_token = ''-'' then Inr (length xs) else array_index reference_token) (\<lambda>idx.
             try_bind (thrown (index_nat idx j)) (\<lambda>(v, j').
             try_bind (get_unchecked ts v) (\<lambda>(p, v').
               Inr (Idx idx # p, json_set_child (Idx idx) v' j'))))
         | _ \<Rightarrow> Inl (unresolved reference_token))"

text \<open>\<^verbatim>\<open>get_and_create\<close>, for \<^verbatim>\<open>unflatten\<close>.\<close>

fun get_and_create :: "json_pointer \<Rightarrow> json \<Rightarrow> json_error + ptr \<times> json" where
  "get_and_create [] j = Inr ([], j)"
| "get_and_create (reference_token # ts) j =
     (case j of
        Jnull \<Rightarrow>
          if reference_token = ''0'' then
            try_bind (thrown (index_nat 0 j)) (\<lambda>(v, j').
            try_bind (get_and_create ts v) (\<lambda>(p, v'). Inr (Idx 0 # p, json_set_child (Idx 0) v' j')))
          else
            try_bind (thrown (index_key reference_token j)) (\<lambda>(v, j').
            try_bind (get_and_create ts v) (\<lambda>(p, v').
              Inr (Key reference_token # p, json_set_child (Key reference_token) v' j')))
      | Jobject m \<Rightarrow>
          try_bind (thrown (index_key reference_token j)) (\<lambda>(v, j').
          try_bind (get_and_create ts v) (\<lambda>(p, v').
            Inr (Key reference_token # p, json_set_child (Key reference_token) v' j')))
      | Jarray xs \<Rightarrow>
          try_bind (array_index reference_token) (\<lambda>idx.
          try_bind (thrown (index_nat idx j)) (\<lambda>(v, j').
          try_bind (get_and_create ts v) (\<lambda>(p, v'). Inr (Idx idx # p, json_set_child (Idx idx) v' j'))))
      | _ \<Rightarrow> Inl (Thrown (type_error_create 313 ''invalid value to unflatten'')))"

fun pointer_contains :: "json_pointer \<Rightarrow> json \<Rightarrow> json_error + bool" where
  "pointer_contains [] j = Inr True"
| "pointer_contains (reference_token # ts) j =
     (case j of
        Jobject m \<Rightarrow>
          (case map_find m reference_token of
             None \<Rightarrow> Inr False
           | Some v \<Rightarrow> pointer_contains ts v)
      | Jarray xs \<Rightarrow>
          if reference_token = ''-'' then Inr False
          else if length reference_token = 1 \<and> \<not> (''0'' \<le> reference_token \<and> reference_token \<le> ''9'') then Inr False
          else if 1 < length reference_token \<and>
            (\<not> (CHR ''1'' \<le> hd reference_token \<and> hd reference_token \<le> CHR ''9'') \<or>
             \<not> list_all (\<lambda>c. CHR ''0'' \<le> c \<and> c \<le> CHR ''9'') (tl reference_token))
          then Inr False
          else try_bind (array_index reference_token) (\<lambda>idx.
            if length xs \<le> idx then Inr False else pointer_contains ts (xs ! idx))
      | _ \<Rightarrow> Inr False)"

text \<open>\<^verbatim>\<open>at(ptr)\<close>: the value behind the reference.\<close>

definition at_pointer :: "json_pointer \<Rightarrow> json \<Rightarrow> json_error + json" where
  "at_pointer p j = map_sum id (\<lambda>q. the (deref q j)) (get_checked p j)"

section \<open>Flattening\<close>

text \<open>\<^verbatim>\<open>result[reference_string] = v\<close> on the object \<open>result\<close>.\<close>

definition put_member :: "string \<Rightarrow> json \<Rightarrow> (string \<times> json) list \<Rightarrow> (string \<times> json) list" where
  "put_member k v m = map_assign k v (map_emplace k Jnull m)"

function (sequential) flatten_value :: "string \<Rightarrow> json \<Rightarrow> (string \<times> json) list \<Rightarrow> (string \<times> json) list"
  and flatten_elements :: "string \<Rightarrow> nat \<Rightarrow> json list \<Rightarrow> (string \<times> json) list \<Rightarrow> (string \<times> json) list"
  and flatten_members :: "string \<Rightarrow> (string \<times> json) list \<Rightarrow> (string \<times> json) list \<Rightarrow> (string \<times> json) list" where
  "flatten_value reference_string (Jarray xs) result =
     (if xs = [] then put_member reference_string Jnull result
      else flatten_elements reference_string 0 xs result)"
| "flatten_value reference_string (Jobject m) result =
     (if m = [] then put_member reference_string Jnull result
      else flatten_members reference_string m result)"
| "flatten_value reference_string v result = put_member reference_string v result"
| "flatten_elements reference_string i [] result = result"
| "flatten_elements reference_string i (x # xs) result =
     flatten_elements reference_string (i + 1) xs (flatten_value (reference_string @ ''/'' @ to_string i) x result)"
| "flatten_members reference_string [] result = result"
| "flatten_members reference_string ((k, v) # m) result =
     flatten_members reference_string m (flatten_value (reference_string @ ''/'' @ escape k) v result)"
  by pat_completeness auto
termination
  by (relation "measure (\<lambda>x. case x of Inl (_, v, _) \<Rightarrow> size v
      | Inr (Inl (_, _, xs, _)) \<Rightarrow> size_list size xs
      | Inr (Inr (_, m, _)) \<Rightarrow> size_list (size_prod (\<lambda>_. 0) size) m)") auto

definition flatten :: "json \<Rightarrow> json" where
  "flatten j = Jobject (flatten_value [] j [])"

definition is_primitive :: "json \<Rightarrow> bool" where
  "is_primitive j \<longleftrightarrow> m_type j \<notin> {vt_object, vt_array, vt_discarded}"

fun unflatten_members :: "(string \<times> json) list \<Rightarrow> json \<Rightarrow> json_error + json" where
  "unflatten_members [] result = Inr result"
| "unflatten_members ((k, v) # m) result =
     (if \<not> is_primitive v then Inl (Thrown (type_error_create 315 ''values in object must be primitive''))
      else try_bind (json_pointer_of k) (\<lambda>p.
           try_bind (get_and_create p result) (\<lambda>(q, result').
             unflatten_members m (assign_at q v result'))))"

definition unflatten :: "json \<Rightarrow> json_error + json" where
  "unflatten value =
     (case value of
        Jobject m \<Rightarrow> unflatten_members m Jnull
      | _ \<Rightarrow> Inl (Thrown (type_error_create 314 ''only objects can be unflattened'')))"


section \<open>Escaping\<close>

text \<open>Replacing from left to right.\<close>

function substitute :: "string \<Rightarrow> string \<Rightarrow> string \<Rightarrow> string" where
  "substitute f t [] = []"
| "substitute f t (c # s) =
     (if f \<noteq> [] \<and> take (length f) (c # s) = f then t @ substitute f t (drop (length f) (c # s))
      else c # substitute f t s)"
  by pat_completeness auto
termination
  by (relation "measure (\<lambda>(f, t, s). length s)") auto

lemma find_from_None: "find_from s f pos = None \<longleftrightarrow> (\<forall>p. pos \<le> p \<longrightarrow> p < length s \<longrightarrow> take (length f) (drop p s) \<noteq> f)"
  by (auto simp: find_from_def find_None_iff)

lemma find_from_step:
  "find_from (u @ c # s) f (length u) =
     (if take (length f) (c # s) = f then Some (length u) else find_from (u @ c # s) f (length u + 1))"
proof -
  have "[length u ..< length (u @ c # s)] = length u # [length u + 1 ..< length (u @ c # s)]" by (simp add: upt_rec)
  moreover have "drop (length u) (u @ c # s) = c # s" by simp
  ultimately show ?thesis by (simp only: find_from_def find.simps)
qed

lemma find_from_end [simp]: "length s \<le> pos \<Longrightarrow> find_from s f pos = None"
  by (simp add: find_from_def)

lemma replace_loop_cong: "find_from s f i = find_from s f j \<Longrightarrow> replace_loop s f t i = replace_loop s f t j"
  by (simp only: replace_loop.simps [of s f t i] replace_loop.simps [of s f t j])

lemma check_escapes_cong: "find_from s ''~'' i = find_from s ''~'' j \<Longrightarrow> check_escapes s i = check_escapes s j"
  by (simp only: check_escapes.simps [of s i] check_escapes.simps [of s j])

lemma replace_loop_substitute: "f \<noteq> [] \<Longrightarrow> replace_loop (u @ s) f t (length u) = u @ substitute f t s"
proof (induction s arbitrary: u rule: length_induct)
  case (1 s)
  show ?case
  proof (cases s)
    case Nil
    then show ?thesis using "1.prems" by (simp add: replace_loop.simps)
  next
    case (Cons c r)
    show ?thesis
    proof (cases "take (length f) s = f")
      case True
      have "length (drop (length f) s) < length s" using "1.prems" Cons by (cases f) auto
      then have "replace_loop ((u @ t) @ drop (length f) s) f t (length (u @ t)) = (u @ t) @ substitute f t (drop (length f) s)"
        using "1.IH" "1.prems" by blast
      moreover have "find_from (u @ s) f (length u) = Some (length u)" using True by (simp add: Cons find_from_step)
      moreover have "substitute f t s = t @ substitute f t (drop (length f) s)" using True "1.prems" by (simp add: Cons)
      ultimately show ?thesis using "1.prems" by (subst replace_loop.simps) simp
    next
      case False
      then have "find_from (u @ s) f (length u) = find_from (u @ s) f (length u + 1)"
        by (simp add: Cons find_from_step)
      then have "replace_loop (u @ s) f t (length u) = replace_loop (u @ s) f t (length u + 1)"
        by (rule replace_loop_cong)
      also have "\<dots> = replace_loop ((u @ [c]) @ r) f t (length (u @ [c]))" by (simp add: Cons)
      also have "\<dots> = (u @ [c]) @ substitute f t r"
      proof -
        have "length r < length s" by (simp add: Cons)
        then show ?thesis using "1.IH" "1.prems" by blast
      qed
      finally show ?thesis using False by (simp add: Cons)
    qed
  qed
qed

lemma replace_substring_substitute: "f \<noteq> [] \<Longrightarrow> replace_substring s f t = substitute f t s"
  using replace_loop_substitute [of f "[]" s t] by (simp add: replace_substring_def)

definition escape_char_of :: "char \<Rightarrow> string" where
  "escape_char_of c = (if c = CHR ''~'' then ''~0'' else if c = CHR ''/'' then ''~1'' else [c])"

lemma escape_char_of_simps [simp]: "escape_char_of CHR ''~'' = ''~0''" "escape_char_of CHR ''/'' = ''~1''"
  by (simp_all add: escape_char_of_def)

lemma substitute_char: "substitute [a] t s = concat (map (\<lambda>c. if c = a then t else [c]) s)"
  by (induction s) auto

lemma escape_chars: "escape s = concat (map escape_char_of s)"
proof -
  have "concat (map (\<lambda>c. if c = CHR ''/'' then ''~1'' else [c]) (concat (map (\<lambda>c. if c = CHR ''~'' then ''~0'' else [c]) s))) =
      concat (map escape_char_of s)"
    by (induction s) (auto simp: escape_char_of_def)
  then show ?thesis by (simp add: escape_def replace_substring_substitute substitute_char)
qed

lemma unescape_escape: "unescape_token (escape s) = s"
proof -
  have one: "substitute ''~1'' ''/'' (concat (map escape_char_of s)) = concat (map (\<lambda>c. if c = CHR ''~'' then ''~0'' else [c]) s)"
  proof (induction s)
    case (Cons c s)
    have "substitute ''~1'' ''/'' (CHR ''0'' # r) = CHR ''0'' # substitute ''~1'' ''/'' r" for r by simp
    with Cons show ?case by (auto simp: escape_char_of_def)
  qed simp
  have two: "substitute ''~0'' ''~'' (concat (map (\<lambda>c. if c = CHR ''~'' then ''~0'' else [c]) s)) = s"
    by (induction s) auto
  show ?thesis by (simp add: unescape_token_def escape_chars replace_substring_substitute one two)
qed

section \<open>Parsing what is printed\<close>

lemma find_from_skip:
  assumes "a \<notin> set w"
  shows "find_from (u @ w @ s) [a] (length u) = find_from (u @ w @ s) [a] (length (u @ w))"
  using assms
proof (induction w arbitrary: u)
  case (Cons c w)
  then have "find_from (u @ (c # w) @ s) [a] (length u) = find_from ((u @ [c]) @ w @ s) [a] (length (u @ [c]))"
    using find_from_step [of u c "w @ s" "[a]"] by auto
  also have "\<dots> = find_from ((u @ [c]) @ w @ s) [a] (length ((u @ [c]) @ w))" using Cons.IH [of "u @ [c]"] Cons.prems by simp
  finally show ?case by simp
qed simp

lemma escape_no_slash: "CHR ''/'' \<notin> set (escape s)"
  by (auto simp: escape_chars escape_char_of_def split: if_splits)

lemma check_escapes_chars:
  "check_escapes (u @ concat (map escape_char_of s)) (length u)"
proof (induction s arbitrary: u)
  case Nil
  then show ?case by (simp add: check_escapes.simps)
next
  case (Cons c s)
  let ?r = "concat (map escape_char_of s)"
  have tilde: "check_escapes (u @ CHR ''~'' # d # r) (length u)"
    if "d = CHR ''0'' \<or> d = CHR ''1''" "\<And>u. check_escapes (u @ r) (length u)" for d u r
  proof -
    have "find_from (u @ CHR ''~'' # d # r) ''~'' (length u) = Some (length u)"
      using find_from_step [of u "CHR ''~''" "d # r" "''~''"] by simp
    moreover have "find_from (u @ CHR ''~'' # d # r) ''~'' (length u + 1) = find_from (u @ CHR ''~'' # d # r) ''~'' (length (u @ [CHR ''~'', d]))"
      using find_from_step [of "u @ ''~''" d r "''~''"] that(1) by auto
    from check_escapes_cong [OF this] that(2) [of "u @ [CHR ''~'', d]"]
    have "check_escapes (u @ CHR ''~'' # d # r) (length u + 1)" by simp
    ultimately show ?thesis
      using that(1) by (simp add: check_escapes.simps [of "u @ CHR ''~'' # d # r" "length u"] nth_append)
  qed
  consider "c = CHR ''~''" | "c = CHR ''/''" | "escape_char_of c = [c]" "c \<noteq> CHR ''~''"
    by (cases "c = CHR ''/''"; cases "c = CHR ''~''") (auto simp: escape_char_of_def)
  then show ?case
  proof cases
    case 3
    then have "find_from (u @ c # ?r) ''~'' (length u) = find_from (u @ c # ?r) ''~'' (length (u @ [c]))"
      using find_from_step [of u c ?r "''~''"] by simp
    from check_escapes_cong [OF this] 3 Cons [of "u @ [c]"] show ?thesis by simp
  next
    case 1
    have "check_escapes (u @ CHR ''~'' # CHR ''0'' # ?r) (length u)"
      using Cons by (intro tilde) simp_all
    then show ?thesis using 1 by simp
  next
    case 2
    have "check_escapes (u @ CHR ''~'' # CHR ''1'' # ?r) (length u)"
      using Cons by (intro tilde) simp_all
    then show ?thesis using 2 by simp
  qed
qed

lemma check_escapes_escape: "check_escapes (escape s) 0"
  using check_escapes_chars [of "[]" s] by (simp add: escape_chars)

lemma split_tokens_printed:
  "split_tokens (u @ escape t @ concat (map (\<lambda>t. CHR ''/'' # escape t) ts)) (length u) = Inr (t # ts)"
proof (induction ts arbitrary: u t)
  case Nil
  have "find_from (u @ escape t) ''/'' (length u) = None"
    using find_from_skip [OF escape_no_slash, of u t "[]"] by simp
  then show ?case
    by (simp add: split_tokens.simps [of "u @ escape t"] check_escapes_escape unescape_escape)
next
  case (Cons t' ts)
  let ?r = "CHR ''/'' # escape t' @ concat (map (\<lambda>t. CHR ''/'' # escape t) ts)"
  have slash: "find_from (u @ escape t @ ?r) ''/'' (length u) = Some (length (u @ escape t))"
    using find_from_skip [OF escape_no_slash, of u t ?r] find_from_step [of "u @ escape t" "CHR ''/''"] by simp
  have "split_tokens (u @ escape t @ ?r) (length (u @ escape t) + 1) = Inr (t' # ts)"
    using Cons [of "u @ escape t @ ''/''" t'] by simp
  with slash show ?case
    by (simp add: split_tokens.simps [of "u @ escape t @ ?r" "length u"] check_escapes_escape unescape_escape)
qed

lemma pointer_to_string_tokens: "pointer_to_string p = concat (map (\<lambda>t. CHR ''/'' # escape t) p)"
proof -
  have "foldl (\<lambda>a b. a @ ''/'' @ escape b) a p = a @ concat (map (\<lambda>t. CHR ''/'' # escape t) p)" for a
    by (induction p arbitrary: a) auto
  then show ?thesis by (simp add: pointer_to_string_def)
qed

text \<open>Conversely, a token that passes the check is an escaped one.\<close>

lemma check_escapes_escaped:
  "check_escapes (u @ t) (length u) \<Longrightarrow> CHR ''/'' \<notin> set t \<Longrightarrow> \<exists>s. t = concat (map escape_char_of s)"
proof (induction t arbitrary: u rule: length_induct)
  case (1 t)
  show ?case
  proof (cases t)
    case (Cons c r)
    show ?thesis
    proof (cases "c = CHR ''~''")
      case False
      then have "find_from (u @ t) ''~'' (length u) = find_from (u @ t) ''~'' (length (u @ [c]))"
        using find_from_step [of u c r "''~''"] by (simp add: Cons)
      from check_escapes_cong [OF this] "1.prems"(1) have "check_escapes ((u @ [c]) @ r) (length (u @ [c]))" by (simp add: Cons)
      moreover have "length r < length t" "CHR ''/'' \<notin> set r" using "1.prems"(2) by (simp_all add: Cons)
      ultimately obtain s where "r = concat (map escape_char_of s)" using "1.IH" by blast
      moreover have "escape_char_of c = [c]" using False "1.prems"(2) by (auto simp: Cons escape_char_of_def)
      ultimately show ?thesis by (intro exI [of _ "c # s"]) (simp add: Cons)
    next
      case True
      have found: "find_from (u @ t) ''~'' (length u) = Some (length u)"
        using find_from_step [of u c r "''~''"] True by (simp add: Cons)
      with "1.prems"(1) have ok: "length u \<noteq> length (u @ t) - 1" "(u @ t) ! (length u + 1) = CHR ''0'' \<or> (u @ t) ! (length u + 1) = CHR ''1''"
          "check_escapes (u @ t) (length u + 1)"
        by (auto simp: check_escapes.simps [of "u @ t" "length u"] split: if_splits)
      from ok(1) obtain d v where r: "r = d # v" by (cases r) (auto simp: Cons)
      have d: "d = CHR ''0'' \<or> d = CHR ''1''" using ok(2) by (simp add: Cons r nth_append)
      have "find_from (u @ t) ''~'' (length u + 1) = find_from (u @ t) ''~'' (length (u @ [c, d]))"
        using find_from_step [of "u @ [c]" d v "''~''"] d by (auto simp: Cons r)
      from check_escapes_cong [OF this] ok(3) have "check_escapes ((u @ [c, d]) @ v) (length (u @ [c, d]))" by (simp add: Cons r)
      moreover have "length v < length t" "CHR ''/'' \<notin> set v" using "1.prems"(2) by (simp_all add: Cons r)
      ultimately obtain s where s: "v = concat (map escape_char_of s)" using "1.IH" by blast
      show ?thesis
        using d True s by (intro exI [of _ "(if d = CHR ''0'' then CHR ''~'' else CHR ''/'') # s"]) (auto simp: Cons r)
    qed
  qed (intro exI [of _ "[]"], simp)
qed

lemma find_from_char:
  "find_from (u @ v) [a] (length u) = (if a \<in> set v then Some (length u + length (takeWhile (\<lambda>c. c \<noteq> a) v)) else None)"
proof (induction v arbitrary: u)
  case (Cons c v)
  show ?case
    using find_from_step [of u c v "[a]"] Cons [of "u @ [c]"] by auto
qed simp

lemma split_tokens_inv:
  "split_tokens s start = Inr p \<Longrightarrow> start \<le> length s \<Longrightarrow>
    p \<noteq> [] \<and> drop start s = escape (hd p) @ concat (map (\<lambda>t. CHR ''/'' # escape t) (tl p))"
proof (induction s start arbitrary: p rule: split_tokens.induct)
  case (1 s start)
  define v where "v = drop start s"
  have slash: "find_from s ''/'' start =
      (if CHR ''/'' \<in> set v then Some (start + length (takeWhile (\<lambda>c. c \<noteq> CHR ''/'') v)) else None)"
    using find_from_char [of "take start s" v "CHR ''/''"] "1.prems"(2) by (simp add: v_def)
  show ?case
  proof (cases "CHR ''/'' \<in> set v")
    case False
    with slash "1.prems"(1) have p: "check_escapes v 0" "p = [unescape_token v]"
      by (auto simp: split_tokens.simps [of s start] v_def Let_def split: if_splits)
    obtain u where "v = concat (map escape_char_of u)" using check_escapes_escaped [of "[]" v] p(1) False by auto
    then have "v = escape u" by (simp add: escape_chars)
    then show ?thesis using p(2) by (simp add: unescape_escape flip: v_def)
  next
    case True
    then obtain w r where w: "v = w @ CHR ''/'' # r" "CHR ''/'' \<notin> set w" by (metis split_list_first)
    have "takeWhile (\<lambda>c. c \<noteq> CHR ''/'') v = w" unfolding w(1) by (subst takeWhile_append2) (use w(2) in auto)
    then have at: "find_from s ''/'' start = Some (start + length w)" using slash True by simp
    have tok: "take (length w) v = w" using w(1) by simp
    have bound: "start + length w + 1 \<le> length s" "drop (start + length w + 1) s = r"
      using arg_cong [OF w(1), of length] arg_cong [OF w(1), of "drop (length w + 1)"] "1.prems"(2)
      by (simp_all add: v_def add.commute)
    obtain q where q: "check_escapes w 0" "split_tokens s (start + length w + 1) = Inr q" "p = unescape_token w # q"
      using "1.prems"(1) at tok
      by (auto simp: split_tokens.simps [of s start] v_def [symmetric] Let_def map_sum_def split: if_splits sum.splits)
    have "q \<noteq> [] \<and> r = escape (hd q) @ concat (map (\<lambda>t. CHR ''/'' # escape t) (tl q))"
      using "1.IH" [OF refl refl _ at q(2)] q(1) tok bound at by (simp add: v_def)
    moreover obtain u where "w = concat (map escape_char_of u)" using check_escapes_escaped [of "[]" w] q(1) w(2) by auto
    then have "w = escape u" by (simp add: escape_chars)
    ultimately show ?thesis using w(1) q(3) by (cases q) (simp_all add: unescape_escape flip: v_def)
  qed
qed

lemma json_pointer_of_printed: "json_pointer_of (pointer_to_string p) = Inr p"
proof (cases p)
  case (Cons t ts)
  then show ?thesis
    using split_tokens_printed [of "''/''" t ts]
    by (simp add: json_pointer_of_def split_pointer_def pointer_to_string_tokens)
qed (simp add: json_pointer_of_def split_pointer_def pointer_to_string_tokens)

lemma json_pointer_of_inv: "json_pointer_of s = Inr q \<Longrightarrow> pointer_to_string q = s"
  using split_tokens_inv [of s 1 q]
  by (cases s; cases q) (auto simp: json_pointer_of_def split_pointer_def pointer_to_string_tokens split: if_splits)

text \<open>C22. Printing a JSON pointer and parsing the text gives the pointer back, whatever characters its
  reference tokens have; and every text that is accepted is the text of what it is parsed to.\<close>

theorem pointer_parse_print:
  "json_pointer_of (pointer_to_string p) = Inr p \<and> (json_pointer_of s = Inr q \<longrightarrow> pointer_to_string q = s)"
  using json_pointer_of_printed json_pointer_of_inv by blast

theorem pointer_parse_print_witness: "pointer_to_string [''a/b'', ''~''] = ''/a~1b/~0''"
proof -
  have "json_pointer_of ''/a~1b/~0'' = Inr [''a/b'', ''~'']" by code_simp
  with pointer_parse_print show ?thesis by blast
qed

lemma pointer_to_string_snoc: "pointer_to_string (p @ [t]) = pointer_to_string p @ ''/'' @ escape t"
  by (simp add: pointer_to_string_def)

lemma escape_plain: "CHR ''~'' \<notin> set s \<Longrightarrow> CHR ''/'' \<notin> set s \<Longrightarrow> escape s = s"
  by (induction s) (auto simp: escape_chars escape_char_of_def)

lemma escape_to_string: "escape (to_string n) = to_string n"
  by (rule escape_plain) (use to_string_digits [of n] in \<open>auto simp: list_all_iff is_digit_def\<close>)

section \<open>Following pointers\<close>

lemma char_le_ic: "c \<le> d \<longleftrightarrow> ic c \<le> ic d"
proof -
  have "ic a = int (of_char a)" for a by (simp add: of_char_def flip: of_nat_of_char)
  then show ?thesis by (simp add: less_eq_char_def)
qed

lemma strtoull_to_string:
  assumes "i < 2 ^ 64 - 1"
  shows "strtoull (to_string i) = (of_nat i, False, length (to_string i))"
proof -
  have tw: "takeWhile is_digit (to_string i) = to_string i"
    using to_string_digits [of i] by (simp add: takeWhile_eq_all_conv list_all_iff)
  show ?thesis using assms unfolding strtoull_def tw Let_def by (simp add: digits_value_to_string)
qed

lemma array_index_to_string:
  assumes "i < 2 ^ 64 - 1"
  shows "array_index (to_string i) = Inr i"
proof -
  have d: "list_all is_digit (to_string i)" "to_string i \<noteq> []" by (simp_all add: to_string_digits to_string_nonempty)
  then have first: "is_digit (hd (to_string i))" by (cases "to_string i") auto
  have "unat (of_nat i :: 64 word) = i" using assms by (simp add: unat_of_nat take_bit_nat_eq_self)
  moreover have "hd (to_string i) \<noteq> CHR ''0''" if "1 < length (to_string i)"
    using hd_to_string_eq_zero [of i] that to_string_zero by auto
  moreover have "CHR ''1'' \<le> hd (to_string i) \<and> hd (to_string i) \<le> CHR ''9''" if "1 < length (to_string i)"
  proof -
    have "ic (hd (to_string i)) \<noteq> ic (CHR ''0'')"
      using hd_to_string_eq_zero [of i] that to_string_zero by (simp only: ic_inject) auto
    with first show ?thesis by (simp add: is_digit_def char_le_ic)
  qed
  ultimately show ?thesis using assms d(2) strtoull_to_string [OF assms] by (simp add: array_index_def)
qed

lemma strtoull_count: "strtoull s = (r, e, n) \<Longrightarrow> n = length (takeWhile is_digit s)"
  by (auto simp: strtoull_def Let_def split: if_splits)

lemma is_digit_between: "is_digit c \<longleftrightarrow> CHR ''0'' \<le> c \<and> c \<le> CHR ''9''"
  by (simp add: is_digit_def char_le_ic)

text \<open>What \<^verbatim>\<open>contains\<close> checks by hand is what \<^verbatim>\<open>array_index\<close> accepts.\<close>

lemma array_index_accepts:
  assumes "array_index s = Inr i"
  shows "\<not> (length s = 1 \<and> \<not> (''0'' \<le> s \<and> s \<le> ''9''))"
    and "\<not> (1 < length s \<and> (\<not> (CHR ''1'' \<le> hd s \<and> hd s \<le> CHR ''9'') \<or>
      \<not> list_all (\<lambda>c. CHR ''0'' \<le> c \<and> c \<le> CHR ''9'') (tl s)))"
proof -
  obtain r e n where n: "strtoull s = (r, e, n)" by (cases "strtoull s")
  with assms have "n = length s" by (simp add: array_index_def split: if_splits)
  with strtoull_count [OF n] have "length (takeWhile is_digit s) = length s" by simp
  then have "takeWhile is_digit s = s" by (metis takeWhile_eq_take take_all_iff order_refl)
  then have d: "list_all is_digit s" by (simp add: takeWhile_eq_all_conv list_all_iff)
  then show "\<not> (length s = 1 \<and> \<not> (''0'' \<le> s \<and> s \<le> ''9''))"
    by (auto simp: length_Suc_conv is_digit_between)
  from assms have "1 < length s \<Longrightarrow> CHR ''1'' \<le> hd s \<and> hd s \<le> CHR ''9''"
    by (auto simp: array_index_def split: if_splits)
  with d show "\<not> (1 < length s \<and> (\<not> (CHR ''1'' \<le> hd s \<and> hd s \<le> CHR ''9'') \<or>
      \<not> list_all (\<lambda>c. CHR ''0'' \<le> c \<and> c \<le> CHR ''9'') (tl s)))"
    by (cases s) (auto simp: list_all_iff is_digit_between)
qed

text \<open>C23. \<^verbatim>\<open>contains\<close> answers true exactly for the pointers that \<^verbatim>\<open>at\<close> resolves, and throws only where \<^verbatim>\<open>at\<close>
  throws the same.\<close>

theorem contains_resolves:
  "(pointer_contains p j = Inr True \<longleftrightarrow> (\<exists>v. at_pointer p j = Inr v)) \<and>
   (\<forall>e. pointer_contains p j = Inl e \<longrightarrow> at_pointer p j = Inl e)"
proof (induction p j rule: pointer_contains.induct)
  case (2 t ts j)
  show ?case
  proof (cases j)
    case (Jobject m)
    show ?thesis
    proof (cases "map_find m t")
      case (Some v)
      with "2.IH"(1) [OF Jobject this] Jobject show ?thesis
        by (auto simp: at_pointer_def at_key_def thrown_def json_child_def map_sum_def split: sum.splits)
    qed (simp add: Jobject at_pointer_def at_key_def thrown_def)
  next
    case (Jarray xs)
    define bad where "bad \<longleftrightarrow> (length t = 1 \<and> \<not> (''0'' \<le> t \<and> t \<le> ''9'')) \<or>
      (1 < length t \<and> (\<not> (CHR ''1'' \<le> hd t \<and> hd t \<le> CHR ''9'') \<or>
        \<not> list_all (\<lambda>c. CHR ''0'' \<le> c \<and> c \<le> CHR ''9'') (tl t)))"
    have plain: "pointer_contains (t # ts) j =
        (if t = ''-'' then Inr False else if bad then Inr False
         else try_bind (array_index t) (\<lambda>idx. if length xs \<le> idx then Inr False else pointer_contains ts (xs ! idx)))"
      by (auto simp: Jarray bad_def)
    show ?thesis
    proof (cases "array_index t")
      case (Inl e)
      then show ?thesis unfolding plain by (auto simp: Jarray at_pointer_def split: if_splits)
    next
      case (Inr i)
      have "\<not> bad" using array_index_accepts [OF Inr] by (simp add: bad_def)
      show ?thesis
      proof (cases "t = ''-'' \<or> length xs \<le> i")
        case True
        then show ?thesis unfolding plain using Inr by (auto simp: Jarray at_pointer_def at_nat_def thrown_def split: if_splits)
      next
        case False
        have "(pointer_contains ts (xs ! i) = Inr True \<longleftrightarrow> (\<exists>v. at_pointer ts (xs ! i) = Inr v)) \<and>
            (\<forall>e. pointer_contains ts (xs ! i) = Inl e \<longrightarrow> at_pointer ts (xs ! i) = Inl e)"
          by (rule "2.IH"(2) [OF Jarray]) (use False \<open>\<not> bad\<close> Inr in \<open>auto simp: bad_def\<close>)
        with False \<open>\<not> bad\<close> Inr show ?thesis
          unfolding plain
          by (auto simp: Jarray at_pointer_def at_nat_def thrown_def json_child_def map_sum_def split: sum.splits)
      qed
    qed
  qed (simp_all add: at_pointer_def)
qed (simp add: at_pointer_def)

theorem contains_resolves_witness:
  "pointer_contains [''1'', ''a''] (Jarray [Jnull, Jobject [(''a'', Jnull)]]) = Inr True"
proof -
  have "at_pointer [''1'', ''a''] (Jarray [Jnull, Jobject [(''a'', Jnull)]]) = Inr Jnull" by code_simp
  with contains_resolves show ?thesis by blast
qed

text \<open>A token of one character that is no digit, and the empty token, get past the tests for error 109 to
  \<^verbatim>\<open>std::stoull\<close>, whose \<^verbatim>\<open>std::invalid_argument\<close> nobody catches; \<^verbatim>\<open>contains\<close> throws it too.\<close>

lemma index_not_a_number:
  "get_checked [''a''] (Jarray xs) = Inl (Std_invalid_argument ''stoull'')"
  "get_checked [''ab''] (Jarray xs) = Inl (Thrown (parse_error_create_byte 109 0 (''array index '' @ quoted ''ab'' @ '' is not a number'')))"
  "pointer_contains [[]] (Jarray xs) = Inl (Std_invalid_argument ''stoull'')"
  by (simp_all add: array_index_def strtoull_def is_digit_def char_le_ic)

text \<open>An object whose first member is \<open>0\<close> comes back from \<^verbatim>\<open>flatten\<close> and \<^verbatim>\<open>unflatten\<close> as an array.\<close>

lemma unflatten_flatten_array: "unflatten (flatten (Jobject [(''0'', Jboolean True)])) = Inr (Jarray [Jboolean True])"
  by code_simp

end
