(* ===== verification/Json_Compare.thy ===== *)
theory Json_Compare
  imports Json_Value Cstdlib
begin

text \<open>
  The comparison operators of \<^verbatim>\<open>src/libwebrtc/json.hpp\<close>: \<^verbatim>\<open>operator==\<close> and \<^verbatim>\<open>operator<\<close> on values. Doubles are
  compared as IEEE-754 asks, through their bit patterns; vectors and maps are compared element by element and
  in lexicographic order, as the standard library does.
\<close>

section \<open>Numbers\<close>

definition float_is_nan :: "64 word \<Rightarrow> bool" where
  "float_is_nan x \<longleftrightarrow> unat double_inf < unat (x AND 0x7FFFFFFFFFFFFFFF)"

text \<open>The sign and the magnitude as one integer; both zeros are 0.\<close>

definition float_key :: "64 word \<Rightarrow> int" where
  "float_key x =
     (if bit x 63 then - int (unat (x AND 0x7FFFFFFFFFFFFFFF)) else int (unat (x AND 0x7FFFFFFFFFFFFFFF)))"

definition float_equal :: "64 word \<Rightarrow> 64 word \<Rightarrow> bool" where
  "float_equal x y \<longleftrightarrow> \<not> float_is_nan x \<and> \<not> float_is_nan y \<and> float_key x = float_key y"

definition float_less :: "64 word \<Rightarrow> 64 word \<Rightarrow> bool" where
  "float_less x y \<longleftrightarrow> \<not> float_is_nan x \<and> \<not> float_is_nan y \<and> float_key x < float_key y"

text \<open>\<^verbatim>\<open>static_cast<double>\<close> of the two integer types.\<close>

definition integer_to_float :: "64 word \<Rightarrow> 64 word" where
  "integer_to_float x = sign_bit (sint x < 0) OR round_to_double (nat \<bar>sint x\<bar>) 1"

definition unsigned_to_float :: "64 word \<Rightarrow> 64 word" where
  "unsigned_to_float x = round_to_double (unat x) 1"

section \<open>The operators\<close>

text \<open>Numbers of different types. A conversion from unsigned to signed keeps the bits.\<close>

definition scalar_equal :: "json \<Rightarrow> json \<Rightarrow> bool" where
  "scalar_equal lhs rhs =
     (case (lhs, rhs) of
        (Jnull, Jnull) \<Rightarrow> True
      | (Jstring x, Jstring y) \<Rightarrow> x = y
      | (Jboolean x, Jboolean y) \<Rightarrow> x = y
      | (Jnumber_integer x, Jnumber_integer y) \<Rightarrow> x = y
      | (Jnumber_unsigned x, Jnumber_unsigned y) \<Rightarrow> x = y
      | (Jnumber_float x, Jnumber_float y) \<Rightarrow> float_equal x y
      | (Jbinary x t, Jbinary y u) \<Rightarrow> x = y \<and> t = u
      | (Jnumber_integer x, Jnumber_float y) \<Rightarrow> float_equal (integer_to_float x) y
      | (Jnumber_float x, Jnumber_integer y) \<Rightarrow> float_equal x (integer_to_float y)
      | (Jnumber_unsigned x, Jnumber_float y) \<Rightarrow> float_equal (unsigned_to_float x) y
      | (Jnumber_float x, Jnumber_unsigned y) \<Rightarrow> float_equal x (unsigned_to_float y)
      | (Jnumber_unsigned x, Jnumber_integer y) \<Rightarrow> x = y
      | (Jnumber_integer x, Jnumber_unsigned y) \<Rightarrow> x = y
      | _ \<Rightarrow> False)"

fun json_equal :: "json \<Rightarrow> json \<Rightarrow> bool"
  and elements_equal :: "json list \<Rightarrow> json list \<Rightarrow> bool"
  and members_equal :: "(string \<times> json) list \<Rightarrow> (string \<times> json) list \<Rightarrow> bool" where
  "json_equal (Jarray xs) rhs = (case rhs of Jarray ys \<Rightarrow> elements_equal xs ys | _ \<Rightarrow> False)"
| "json_equal (Jobject m) rhs = (case rhs of Jobject n \<Rightarrow> members_equal m n | _ \<Rightarrow> False)"
| "json_equal lhs rhs = scalar_equal lhs rhs"
| "elements_equal [] ys = (ys = [])"
| "elements_equal (x # xs) ys = (case ys of [] \<Rightarrow> False | y # ys' \<Rightarrow> json_equal x y \<and> elements_equal xs ys')"
| "members_equal [] n = (n = [])"
| "members_equal ((k, v) # m) n =
     (case n of [] \<Rightarrow> False | (l, w) # n' \<Rightarrow> k = l \<and> json_equal v w \<and> members_equal m n')"

fun bytes_less :: "8 word list \<Rightarrow> 8 word list \<Rightarrow> bool" where
  "bytes_less xs [] = False"
| "bytes_less [] (y # ys) = True"
| "bytes_less (x # xs) (y # ys) = (x < y \<or> (\<not> y < x \<and> bytes_less xs ys))"

definition scalar_less :: "json \<Rightarrow> json \<Rightarrow> bool" where
  "scalar_less lhs rhs =
     (case (lhs, rhs) of
        (Jstring x, Jstring y) \<Rightarrow> x < y
      | (Jboolean x, Jboolean y) \<Rightarrow> x < y
      | (Jnumber_integer x, Jnumber_integer y) \<Rightarrow> sint x < sint y
      | (Jnumber_unsigned x, Jnumber_unsigned y) \<Rightarrow> x < y
      | (Jnumber_float x, Jnumber_float y) \<Rightarrow> float_less x y
      | (Jbinary x t, Jbinary y u) \<Rightarrow> bytes_less x y
      | (Jnumber_integer x, Jnumber_float y) \<Rightarrow> float_less (integer_to_float x) y
      | (Jnumber_float x, Jnumber_integer y) \<Rightarrow> float_less x (integer_to_float y)
      | (Jnumber_unsigned x, Jnumber_float y) \<Rightarrow> float_less (unsigned_to_float x) y
      | (Jnumber_float x, Jnumber_unsigned y) \<Rightarrow> float_less x (unsigned_to_float y)
      | (Jnumber_integer x, Jnumber_unsigned y) \<Rightarrow> sint x < sint y
      | (Jnumber_unsigned x, Jnumber_integer y) \<Rightarrow> sint x < sint y
      | _ \<Rightarrow> value_t_less (m_type lhs) (m_type rhs))"

function (sequential) json_less :: "json \<Rightarrow> json \<Rightarrow> bool"
  and elements_less :: "json list \<Rightarrow> json list \<Rightarrow> bool"
  and members_less :: "(string \<times> json) list \<Rightarrow> (string \<times> json) list \<Rightarrow> bool" where
  "json_less lhs (Jarray ys) = (case lhs of Jarray xs \<Rightarrow> elements_less xs ys | _ \<Rightarrow> scalar_less lhs (Jarray ys))"
| "json_less lhs (Jobject n) = (case lhs of Jobject m \<Rightarrow> members_less m n | _ \<Rightarrow> scalar_less lhs (Jobject n))"
| "json_less lhs rhs = scalar_less lhs rhs"
| "elements_less xs [] = False"
| "elements_less xs (y # ys) =
     (case xs of [] \<Rightarrow> True | x # xs' \<Rightarrow> json_less x y \<or> (\<not> json_less y x \<and> elements_less xs' ys))"
| "members_less m [] = False"
| "members_less m ((l, w) # n) =
     (case m of [] \<Rightarrow> True
      | (k, v) # m' \<Rightarrow>
          (k < l \<or> (\<not> l < k \<and> json_less v w)) \<or>
          (\<not> (l < k \<or> (\<not> k < l \<and> json_less w v)) \<and> members_less m' n))"
  by pat_completeness auto
termination
  by (relation "measure (\<lambda>x. case x of Inl (v, w) \<Rightarrow> size v + size w
      | Inr (Inl (xs, ys)) \<Rightarrow> size_list size xs + size_list size ys
      | Inr (Inr (m, n)) \<Rightarrow> size_list (size_prod (\<lambda>_. 0) size) m + size_list (size_prod (\<lambda>_. 0) size) n)") auto

section \<open>Properties\<close>

lemma float_equal_sym: "float_equal x y = float_equal y x"
  by (auto simp: float_equal_def)

lemma scalar_equal_sym: "scalar_equal x y = scalar_equal y x"
  by (cases x; cases y) (auto simp: scalar_equal_def float_equal_sym)

lemma json_equal_types:
  "json_equal (Jarray xs) v \<longleftrightarrow> (\<exists>ys. v = Jarray ys \<and> elements_equal xs ys)"
  "json_equal (Jobject m) v \<longleftrightarrow> (\<exists>n. v = Jobject n \<and> members_equal m n)"
  by (cases v; simp)+

lemma elements_equal_list: "elements_equal xs ys \<longleftrightarrow> list_all2 json_equal xs ys"
  by (induction xs arbitrary: ys) (auto simp: list_all2_Cons1 split: list.splits)

lemma members_equal_list: "members_equal m n \<longleftrightarrow> list_all2 (\<lambda>a b. fst a = fst b \<and> json_equal (snd a) (snd b)) m n"
  by (induction m arbitrary: n) (auto simp: list_all2_Cons1 split: list.splits prod.splits)

text \<open>The order is asymmetric, for all values, NaN included.\<close>

lemma float_less_asym: "float_less x y \<Longrightarrow> \<not> float_less y x"
  by (auto simp: float_less_def)

lemma bytes_less_asym: "bytes_less xs ys \<Longrightarrow> \<not> bytes_less ys xs"
  by (induction xs ys rule: bytes_less.induct) (auto dest: less_not_sym)

lemma scalar_less_asym: "scalar_less x y \<Longrightarrow> \<not> scalar_less y x"
  by (cases x; cases y)
    (auto simp: scalar_less_def value_t_less_def value_t_order_def dest: float_less_asym bytes_less_asym less_not_sym)

lemma json_less_scalar: "\<not> (is_array x \<and> is_array y) \<Longrightarrow> \<not> (is_object x \<and> is_object y) \<Longrightarrow> json_less x y = scalar_less x y"
  by (cases y; cases x) (simp_all add: is_array_def is_object_def)

lemma json_less_asym:
  "json_less x y \<Longrightarrow> \<not> json_less y x" "elements_less xs ys \<Longrightarrow> \<not> elements_less ys xs"
  "members_less m n \<Longrightarrow> \<not> members_less n m"
proof (induction x y and xs ys and m n rule: json_less_elements_less_members_less.induct)
  case (1 x ys)
  show ?case
  proof (cases "is_array x")
    case True
    then show ?thesis using 1 by (cases x) (simp_all add: is_array_def)
  next
    case False
    then show ?thesis using 1(2) json_less_scalar [of x "Jarray ys"] json_less_scalar [of "Jarray ys" x] scalar_less_asym
      by (simp add: is_object_def)
  qed
next
  case (2 x n)
  show ?case
  proof (cases "is_object x")
    case True
    then show ?thesis using 2 by (cases x) (simp_all add: is_object_def)
  next
    case False
    then show ?thesis using 2(2) json_less_scalar [of x "Jobject n"] json_less_scalar [of "Jobject n" x] scalar_less_asym
      by (simp add: is_array_def)
  qed
next
  case (7 m l w n)
  show ?case
  proof (cases m)
    case (Cons kv m')
    obtain k v where kv: "kv = (k, v)" by (cases kv)
    have IH1: "json_less v w \<Longrightarrow> \<not> json_less w v"
      by (rule "7.IH"(1) [OF Cons kv [symmetric]])
    have IH3: "members_less m' n \<Longrightarrow> \<not> members_less n m'"
      by (rule "7.IH"(3) [OF Cons kv [symmetric]])
    show ?thesis using "7.prems" IH1 IH3 by (simp add: Cons kv) (meson less_not_sym)
  qed simp
qed (auto simp: json_less_scalar is_array_def is_object_def dest: scalar_less_asym split: list.splits prod.splits)

text \<open>An unsigned number above \<^verbatim>\<open>INT64_MAX\<close> equals a negative one, and is less than 0.\<close>

lemma unsigned_compared_as_signed:
  "json_equal (Jnumber_unsigned (- 1)) (Jnumber_integer (- 1))"
  "json_less (Jnumber_unsigned (- 1)) (Jnumber_integer 0)"
  by (simp_all add: scalar_equal_def scalar_less_def)

end
