(* ===== verification/Json_Patch.thy ===== *)
theory Json_Patch
  imports Json_Pointer Json_Compare Json_Serializer Json_Builder
begin

text \<open>
  JSON Patch and JSON Merge Patch of \<^verbatim>\<open>src/libwebrtc/json.hpp\<close>: \<^verbatim>\<open>patch\<close>, \<^verbatim>\<open>diff\<close> and \<^verbatim>\<open>merge_patch\<close>. A patch works on a copy,
  so an exception leaves nothing behind. A reference into the copy is a path, as in \<open>Json_Pointer\<close>. The value of
  \<^verbatim>\<open>replace\<close> is looked up before its location (the right operand of an assignment is evaluated first); the two operands
  of the comparison in \<^verbatim>\<open>test\<close>, whose order C++ leaves open, from left to right.

  The main result is the invariant the documentation of \<^verbatim>\<open>diff\<close> states: patching with a difference reaches the target.
\<close>

section \<open>Patches\<close>

datatype patch_operation = op_add | op_remove | op_replace | op_move | op_copy | op_test | op_invalid

definition get_op :: "string \<Rightarrow> patch_operation" where
  "get_op op =
     (if op = ''add'' then op_add else if op = ''remove'' then op_remove else if op = ''replace'' then op_replace
      else if op = ''move'' then op_move else if op = ''copy'' then op_copy else if op = ''test'' then op_test
      else op_invalid)"

definition operation_add :: "json_pointer \<Rightarrow> json \<Rightarrow> json \<Rightarrow> json_error + json" where
  "operation_add p val result =
     (if p = [] then Inr val
      else try_bind (pointer_top p) (\<lambda>top_pointer.
           try_bind (if top_pointer \<noteq> p then map_sum id (\<lambda>_. ()) (get_checked top_pointer result) else Inr ()) (\<lambda>_.
           try_bind (pointer_back p) (\<lambda>last_path.
           try_bind (get_unchecked (butlast p) result) (\<lambda>(parent_ref, result').
             let parent = the (deref parent_ref result')
             in try_bind
                  (case parent of
                     Jnull \<Rightarrow> thrown (set_key last_path val parent)
                   | Jobject m \<Rightarrow> thrown (set_key last_path val parent)
                   | Jarray xs \<Rightarrow>
                       if last_path = ''-'' then thrown (push_back val parent)
                       else try_bind (array_index last_path) (\<lambda>idx.
                         if length xs < idx
                         then Inl (Thrown (out_of_range_create 401 (''array index '' @ to_string idx @ '' is out of range'')))
                         else Inr (Jarray (take idx xs @ [val] @ drop idx xs)))
                   | _ \<Rightarrow> Inl (Thrown Assertion_failure))
                  (\<lambda>parent'. Inr (assign_at parent_ref parent' result')))))))"

text \<open>\<^verbatim>\<open>erase(idx)\<close> on an array.\<close>

definition erase_nat :: "nat \<Rightarrow> json \<Rightarrow> json_exception + json" where
  "erase_nat idx j =
     (case j of
        Jarray xs \<Rightarrow>
          if length xs \<le> idx then Inl (out_of_range_create 401 (''array index '' @ to_string idx @ '' is out of range''))
          else Inr (Jarray (take idx xs @ drop (idx + 1) xs))
      | _ \<Rightarrow> Inl (type_error_create 307 (''cannot use erase() with '' @ type_name j)))"

definition operation_remove :: "json_pointer \<Rightarrow> json \<Rightarrow> json_error + json" where
  "operation_remove p result =
     try_bind (pointer_back p) (\<lambda>last_path.
     try_bind (get_checked (butlast p) result) (\<lambda>parent_ref.
       let parent = the (deref parent_ref result)
       in try_bind
            (case parent of
               Jobject m \<Rightarrow>
                 if map_find m last_path \<noteq> None then Inr (Jobject (map_erase last_path m))
                 else Inl (Thrown (out_of_range_create 403 (''key '' @ quoted last_path @ '' not found'')))
             | Jarray xs \<Rightarrow> try_bind (array_index last_path) (\<lambda>idx. thrown (erase_nat idx parent))
             | _ \<Rightarrow> Inr parent)
            (\<lambda>parent'. Inr (assign_at parent_ref parent' result))))"

text \<open>\<^verbatim>\<open>get_value\<close>: a member of the operation \<open>val\<close>.\<close>

definition get_value :: "(string \<times> json) list \<Rightarrow> string \<Rightarrow> string \<Rightarrow> bool \<Rightarrow> json_error + json" where
  "get_value val op member string_type =
     (let error_msg = (if op = ''op'' then ''operation'' else ''operation '' @ quoted op)
      in case map_find val member of
           None \<Rightarrow> Inl (Thrown (parse_error_create_byte 105 0 (error_msg @ '' must have member '' @ quoted member)))
         | Some v \<Rightarrow>
             if string_type \<and> \<not> is_string v then
               Inl (Thrown (parse_error_create_byte 105 0 (error_msg @ '' must have string member '' @ quoted member)))
             else Inr v)"

definition get_string_value :: "(string \<times> json) list \<Rightarrow> string \<Rightarrow> string \<Rightarrow> json_error + string" where
  "get_string_value val op member = try_bind (get_value val op member True) (\<lambda>v. thrown (get_string v))"

definition is_out_of_range :: "json_error \<Rightarrow> bool" where
  "is_out_of_range e = (case e of Thrown (Out_of_range _ _) \<Rightarrow> True | _ \<Rightarrow> False)"

definition other_error_create :: "nat \<Rightarrow> string \<Rightarrow> json_error" where
  "other_error_create ident what_arg = Other_error ident (c_str (exception_name ''other_error'' ident @ what_arg))"

definition operation_test :: "json_pointer \<Rightarrow> (string \<times> json) list \<Rightarrow> json \<Rightarrow> json_error + unit" where
  "operation_test p val result =
     try_bind
       (case try_bind (at_pointer p result) (\<lambda>v. map_sum id (json_equal v) (get_value val ''test'' ''value'' False)) of
          Inr success \<Rightarrow> Inr success
        | Inl e \<Rightarrow> if is_out_of_range e then Inr False else Inl e)
       (\<lambda>success.
         if success then Inr ()
         else try_bind (thrown (json_dump (- 1) CHR '' '' False eh_strict (Jobject val)))
           (\<lambda>text'. Inl (other_error_create 501 (''unsuccessful: '' @ text'))))"

definition not_objects :: json_error where
  "not_objects = Thrown (parse_error_create_byte 104 0 ''JSON patch must be an array of objects'')"

definition patch_step :: "json \<Rightarrow> json \<Rightarrow> json_error + json" where
  "patch_step v result =
     (case v of
        Jobject val \<Rightarrow>
          try_bind (get_string_value val ''op'' ''op'') (\<lambda>op.
          try_bind (get_string_value val op ''path'') (\<lambda>op_path.
          try_bind (json_pointer_of op_path) (\<lambda>p.
            case get_op op of
              op_add \<Rightarrow> try_bind (get_value val ''add'' ''value'' False) (\<lambda>w. operation_add p w result)
            | op_remove \<Rightarrow> operation_remove p result
            | op_replace \<Rightarrow>
                try_bind (get_value val ''replace'' ''value'' False) (\<lambda>w.
                try_bind (get_checked p result) (\<lambda>ref. Inr (assign_at ref w result)))
            | op_move \<Rightarrow>
                try_bind (get_string_value val ''move'' ''from'') (\<lambda>from_path.
                try_bind (json_pointer_of from_path) (\<lambda>from_ptr.
                try_bind (at_pointer from_ptr result) (\<lambda>w.
                try_bind (operation_remove from_ptr result) (\<lambda>result'. operation_add p w result'))))
            | op_copy \<Rightarrow>
                try_bind (get_string_value val ''copy'' ''from'') (\<lambda>from_path.
                try_bind (json_pointer_of from_path) (\<lambda>from_ptr.
                try_bind (at_pointer from_ptr result) (\<lambda>w. operation_add p w result)))
            | op_test \<Rightarrow> try_bind (operation_test p val result) (\<lambda>_. Inr result)
            | op_invalid \<Rightarrow>
                Inl (Thrown (parse_error_create_byte 105 0 (''operation value '' @ quoted op @ '' is invalid''))))))
      | _ \<Rightarrow> Inl not_objects)"

fun patch_steps :: "json list \<Rightarrow> json \<Rightarrow> json_error + json" where
  "patch_steps [] result = Inr result"
| "patch_steps (v # vs) result = try_bind (patch_step v result) (patch_steps vs)"

definition patch :: "json \<Rightarrow> json \<Rightarrow> json_error + json" where
  "patch j json_patch =
     (case json_patch of Jarray vs \<Rightarrow> patch_steps vs j | _ \<Rightarrow> Inl not_objects)"

section \<open>Differences\<close>

definition replace_op :: "string \<Rightarrow> json \<Rightarrow> json" where
  "replace_op op_path v = Jobject [(''op'', Jstring ''replace''), (''path'', Jstring op_path), (''value'', v)]"

definition remove_op :: "string \<Rightarrow> json" where
  "remove_op op_path = Jobject [(''op'', Jstring ''remove''), (''path'', Jstring op_path)]"

definition add_op :: "string \<Rightarrow> json \<Rightarrow> json" where
  "add_op op_path v = Jobject [(''op'', Jstring ''add''), (''path'', Jstring op_path), (''value'', v)]"

text \<open>The \<^verbatim>\<open>remove\<close> operations are inserted at one place, so they end up from the last index to the first.\<close>

function (sequential) diff :: "json \<Rightarrow> json \<Rightarrow> string \<Rightarrow> json list"
  and diff_elements :: "json list \<Rightarrow> json list \<Rightarrow> string \<Rightarrow> nat \<Rightarrow> json list"
  and diff_members :: "(string \<times> json) list \<Rightarrow> (string \<times> json) list \<Rightarrow> string \<Rightarrow> json list" where
  "diff source target op_path =
     (if json_equal source target then []
      else if m_type source \<noteq> m_type target then [replace_op op_path target]
      else
        (case source of
           Jarray xs \<Rightarrow>
             (case target of
                Jarray ys \<Rightarrow>
                  diff_elements xs ys op_path 0 @
                  rev (map (\<lambda>i. remove_op (op_path @ ''/'' @ to_string i)) [length ys ..< length xs]) @
                  map (add_op (op_path @ ''/-'')) (drop (length xs) ys)
              | _ \<Rightarrow> [])
         | Jobject m \<Rightarrow>
             (case target of
                Jobject n \<Rightarrow>
                  diff_members m n op_path @
                  map (\<lambda>(k, v). add_op (op_path @ ''/'' @ escape k) v) (filter (\<lambda>(k, v). map_find m k = None) n)
              | _ \<Rightarrow> [])
         | _ \<Rightarrow> [replace_op op_path target]))"
| "diff_elements (x # xs) (y # ys) op_path i =
     diff x y (op_path @ ''/'' @ to_string i) @ diff_elements xs ys op_path (i + 1)"
| "diff_elements _ _ op_path i = []"
| "diff_members [] n op_path = []"
| "diff_members ((k, v) # m) n op_path =
     (case map_find n k of
        Some w \<Rightarrow> diff v w (op_path @ ''/'' @ escape k)
      | None \<Rightarrow> [remove_op (op_path @ ''/'' @ escape k)]) @
     diff_members m n op_path"
  by pat_completeness auto
termination
  by (relation "measure (\<lambda>x. case x of Inl (v, _) \<Rightarrow> size v
      | Inr (Inl (xs, _)) \<Rightarrow> size_list size xs
      | Inr (Inr (m, _)) \<Rightarrow> size_list (size_prod (\<lambda>_. 0) size) m)") auto

definition json_diff :: "json \<Rightarrow> json \<Rightarrow> json" where
  "json_diff source target = Jarray (diff source target [])"

section \<open>Merge patches\<close>

function merge_patch :: "json \<Rightarrow> json \<Rightarrow> json"
  and merge_members :: "(string \<times> json) list \<Rightarrow> (string \<times> json) list \<Rightarrow> (string \<times> json) list" where
  "merge_patch apply_patch j =
     (case apply_patch of
        Jobject p \<Rightarrow> Jobject (merge_members p (case j of Jobject m \<Rightarrow> m | _ \<Rightarrow> []))
      | _ \<Rightarrow> apply_patch)"
| "merge_members [] m = m"
| "merge_members ((k, v) # p) m =
     merge_members p
       (if is_null v then map_erase k m
        else (let m' = map_emplace k Jnull m in map_assign k (merge_patch v (the (map_find m' k))) m'))"
  by pat_completeness auto
termination
  by (relation "measure (\<lambda>x. case x of Inl (p, _) \<Rightarrow> size p
      | Inr (p, _) \<Rightarrow> size_list (size_prod (\<lambda>_. 0) size) p)") auto

declare diff.simps [simp del] merge_patch.simps [simp del]

section \<open>Pointers that resolve\<close>

text \<open>\<open>walks p q j v\<close>: the pointer \<open>p\<close> leads to \<open>v\<close> along the path \<open>q\<close>, through keys and indices that exist.\<close>

inductive walks :: "json_pointer \<Rightarrow> ptr \<Rightarrow> json \<Rightarrow> json \<Rightarrow> bool" where
  Here: "walks [] [] j j"
| Member: "map_inv m \<Longrightarrow> map_find m k = Some v \<Longrightarrow> walks p q v w \<Longrightarrow> walks (k # p) (Key k # q) (Jobject m) w"
| Element: "i < length xs \<Longrightarrow> i < 2 ^ 64 - 1 \<Longrightarrow> walks p q (xs ! i) w \<Longrightarrow>
    walks (to_string i # p) (Idx i # q) (Jarray xs) w"

inductive_cases walks_ConsE: "walks (t # p) q j w"

lemma map_emplace_present: "map_inv m \<Longrightarrow> map_find m k \<noteq> None \<Longrightarrow> map_emplace k v m = m"
proof (induction m)
  case (Cons a m)
  then show ?case using map_find_None [of "fst a" "snd a" m k] by (cases a) (auto simp: map_inv_Cons split: if_splits)
qed simp

lemma to_string_not_dash [simp]: "to_string i \<noteq> ''-''"
  using to_string_digits [of i] by (auto simp: is_digit_def)

lemma walks_deref: "walks p q j v \<Longrightarrow> deref q j = Some v"
  by (induction rule: walks.induct) (simp_all add: json_child_def)

lemma walks_checked: "walks p q j v \<Longrightarrow> get_checked p j = Inr q"
  by (induction rule: walks.induct) (simp_all add: at_key_def at_nat_def thrown_def array_index_to_string)

lemma walks_unchecked: "walks p q j v \<Longrightarrow> get_unchecked p j = Inr (q, j)"
  by (induction rule: walks.induct)
    (simp_all add: is_null_def index_key_def index_nat_def thrown_def array_index_to_string map_emplace_present
      json_set_child_def map_assign_same)

lemma walks_assign: "walks p q j v \<Longrightarrow> walks p q (assign_at q w j) w"
  by (induction rule: walks.induct)
    (auto simp: json_child_def json_set_child_def map_find_assign std_map.invar_assign intro!: walks.intros)

lemma walks_trans: "walks p q j v \<Longrightarrow> walks p' q' v w \<Longrightarrow> walks (p @ p') (q @ q') j w"
  by (induction rule: walks.induct) (auto intro: walks.intros)

lemma assign_at_assign: "walks p q j v \<Longrightarrow> assign_at q x (assign_at q w j) = assign_at q x j"
  by (induction rule: walks.induct) (simp_all add: json_child_def json_set_child_def map_find_assign)

lemma assign_at_same: "walks p q j v \<Longrightarrow> assign_at q v j = j"
  by (induction rule: walks.induct) (simp_all add: json_child_def json_set_child_def map_assign_same)

lemma walks_first: "walks p q j v \<Longrightarrow> p \<noteq> [] \<Longrightarrow> \<exists>r. get_checked [hd p] j = Inr r"
  by (cases rule: walks.cases) (auto dest: walks_checked simp: at_key_def at_nat_def thrown_def array_index_to_string)

section \<open>What operations do\<close>

text \<open>\<open>turns ops p v v'\<close>: wherever \<open>p\<close> leads to \<open>v\<close>, the operations replace it by \<open>v'\<close>.\<close>

definition turns :: "json list \<Rightarrow> json_pointer \<Rightarrow> json \<Rightarrow> json \<Rightarrow> bool" where
  "turns ops p v v' \<longleftrightarrow> (\<forall>q j. walks p q j v \<longrightarrow> patch_steps ops j = Inr (assign_at q v' j))"

lemma patch_steps_append: "patch_steps (a @ b) j = try_bind (patch_steps a j) (patch_steps b)"
  by (induction a arbitrary: j) (auto simp: try_bind_def split: sum.splits)

lemma turns_Nil: "turns [] p v v"
  by (simp add: turns_def assign_at_same)

lemma turns_append: "turns a p v v1 \<Longrightarrow> turns b p v1 v2 \<Longrightarrow> turns (a @ b) p v v2"
  using walks_assign assign_at_assign by (fastforce simp: turns_def patch_steps_append)

lemma turns_Cons: "turns [x] p v v1 \<Longrightarrow> turns xs p v1 v2 \<Longrightarrow> turns (x # xs) p v v2"
  using turns_append [of "[x]"] by simp

lemma turns_member:
  assumes "turns ops (p @ [k]) v w" "map_inv m" "map_find m k = Some v"
  shows "turns ops p (Jobject m) (Jobject (map_assign k w m))"
  unfolding turns_def
proof (intro allI impI)
  fix q j
  assume q: "walks p q j (Jobject m)"
  with assms(2,3) have "walks (p @ [k]) (q @ [Key k]) j v" by (auto intro: walks_trans walks.intros)
  with assms(1,3) q show "patch_steps ops j = Inr (assign_at q (Jobject (map_assign k w m)) j)"
    by (simp add: turns_def assign_at_append [OF walks_deref] json_child_def json_set_child_def)
qed

lemma turns_element:
  assumes "turns ops (p @ [to_string i]) (xs ! i) w" "i < length xs" "i < 2 ^ 64 - 1"
  shows "turns ops p (Jarray xs) (Jarray (xs[i := w]))"
  unfolding turns_def
proof (intro allI impI)
  fix q j
  assume q: "walks p q j (Jarray xs)"
  with assms(2,3) have "walks (p @ [to_string i]) (q @ [Idx i]) j (xs ! i)"
    by (auto intro!: walks_trans walks.intros)
  with assms(1,2) q show "patch_steps ops j = Inr (assign_at q (Jarray (xs[i := w])) j)"
    by (simp add: turns_def assign_at_append [OF walks_deref] json_child_def json_set_child_def)
qed

lemma turnsI:
  assumes "\<And>q j. walks p q j v \<Longrightarrow> patch_step x j = Inr (assign_at q v' j)"
  shows "turns [x] p v v'"
  using assms by (simp add: turns_def)

lemma turns_replace: "turns [replace_op (pointer_to_string p) w] p v w"
  by (rule turnsI)
    (simp add: replace_op_def patch_step_def get_string_value_def get_value_def is_string_def get_string_def thrown_def
      get_op_def json_pointer_of_printed walks_checked)

lemma patch_step_remove: "patch_step (remove_op (pointer_to_string p)) j = operation_remove p j"
  by (simp add: remove_op_def patch_step_def get_string_value_def get_value_def is_string_def get_string_def thrown_def
      get_op_def json_pointer_of_printed)

lemma patch_step_add: "patch_step (add_op (pointer_to_string p) w) j = operation_add p w j"
  by (simp add: add_op_def patch_step_def get_string_value_def get_value_def is_string_def get_string_def thrown_def
      get_op_def json_pointer_of_printed)

lemma turns_remove_member:
  assumes "map_find m k \<noteq> None"
  shows "turns [remove_op (pointer_to_string (p @ [k]))] p (Jobject m) (Jobject (map_erase k m))"
  using assms
  by (intro turnsI) (simp add: patch_step_remove operation_remove_def pointer_back_def walks_checked walks_deref)

lemma turns_remove_element:
  assumes "i < length xs" "i < 2 ^ 64 - 1"
  shows "turns [remove_op (pointer_to_string (p @ [to_string i]))] p (Jarray xs) (Jarray (take i xs @ drop (i + 1) xs))"
  using assms
  by (intro turnsI)
    (simp add: patch_step_remove operation_remove_def pointer_back_def walks_checked walks_deref array_index_to_string
      erase_nat_def thrown_def)

lemma operation_add_walks:
  assumes "walks p q j v"
  shows "operation_add (p @ [t]) w j =
    try_bind
      (case v of
         Jnull \<Rightarrow> thrown (set_key t w v)
       | Jobject m \<Rightarrow> thrown (set_key t w v)
       | Jarray xs \<Rightarrow>
           if t = ''-'' then thrown (push_back w v)
           else try_bind (array_index t) (\<lambda>idx.
             if length xs < idx
             then Inl (Thrown (out_of_range_create 401 (''array index '' @ to_string idx @ '' is out of range'')))
             else Inr (Jarray (take idx xs @ [w] @ drop idx xs)))
       | _ \<Rightarrow> Inl (Thrown Assertion_failure))
      (\<lambda>v'. Inr (assign_at q v' j))"
proof (cases p)
  case Nil
  with walks_unchecked [OF assms] walks_deref [OF assms] show ?thesis
    by (simp add: operation_add_def pointer_top_def pointer_back_def)
next
  case (Cons a p')
  then obtain r where "get_checked [a] j = Inr r" using walks_first [OF assms] by auto
  with Cons walks_unchecked [OF assms] walks_deref [OF assms] show ?thesis
    by (simp add: operation_add_def pointer_top_def pointer_back_def del: get_checked.simps get_unchecked.simps)
qed

lemma turns_add_member:
  "turns [add_op (pointer_to_string (p @ [k])) w] p (Jobject m) (Jobject (map_assign k w (map_emplace k Jnull m)))"
  by (rule turnsI) (simp add: patch_step_add operation_add_walks set_key_def index_key_def is_null_def thrown_def Let_def)

lemma turns_add_element:
  "turns [add_op (pointer_to_string (p @ [''-''])) w] p (Jarray xs) (Jarray (xs @ [w]))"
  by (rule turnsI) (simp add: patch_step_add operation_add_walks push_back_def is_null_def is_array_def thrown_def)

section \<open>Patching with a difference\<close>

text \<open>Every index of every array is an array index.\<close>

fun addressable :: "json \<Rightarrow> bool" where
  "addressable (Jobject m) \<longleftrightarrow> (\<forall>kv \<in> set m. addressable (snd kv))"
| "addressable (Jarray xs) \<longleftrightarrow> length xs < 2 ^ 64 \<and> (\<forall>x \<in> set xs. addressable x)"
| "addressable _ \<longleftrightarrow> True"

lemma pointer_to_string_index: "pointer_to_string p @ CHR ''/'' # to_string i = pointer_to_string (p @ [to_string i])"
  by (simp add: pointer_to_string_snoc escape_to_string)

lemma pointer_to_string_key: "pointer_to_string p @ CHR ''/'' # escape k = pointer_to_string (p @ [k])"
  by (simp add: pointer_to_string_snoc)

lemma pointer_to_string_dash: "pointer_to_string p @ ''/-'' = pointer_to_string (p @ [''-''])"
  by (simp add: pointer_to_string_snoc escape_plain)

lemma turns_remove_elements:
  assumes "length xs + length ys < 2 ^ 64"
  shows "turns (rev (map (\<lambda>i. remove_op (pointer_to_string p @ ''/'' @ to_string i)) [length xs ..< length xs + length ys]))
    p (Jarray (xs @ ys)) (Jarray xs)"
  using assms
proof (induction ys rule: rev_induct)
  case (snoc y ys)
  have "turns [remove_op (pointer_to_string (p @ [to_string (length xs + length ys)]))] p (Jarray (xs @ ys @ [y])) (Jarray (xs @ ys))"
    using turns_remove_element [of "length xs + length ys" "xs @ ys @ [y]" p] snoc.prems by simp
  from turns_Cons [OF this snoc.IH] snoc.prems show ?case by (simp add: pointer_to_string_index)
qed (simp add: turns_Nil)

lemma turns_add_elements:
  "turns (map (add_op (pointer_to_string p @ ''/-'')) ys) p (Jarray xs) (Jarray (xs @ ys))"
proof (induction ys arbitrary: xs)
  case (Cons y ys)
  show ?case
    using turns_Cons [OF turns_add_element [of p y xs] Cons.IH] by (simp add: pointer_to_string_dash)
qed (simp add: turns_Nil)

text \<open>The additions of the members that are missing.\<close>

lemma turns_add_members:
  assumes "map_inv m"
  shows "turns (map (\<lambda>(k, v). add_op (pointer_to_string p @ ''/'' @ escape k) v) ms) p
      (Jobject m) (Jobject (fold (\<lambda>(k, v) m. map_assign k v (map_emplace k Jnull m)) ms m))"
  using assms
proof (induction ms arbitrary: m)
  case (Cons kv ms)
  obtain k v where kv: "kv = (k, v)" by (cases kv)
  show ?case
    using turns_Cons [OF turns_add_member [of p k v m] Cons.IH [OF std_map.invar_store [OF Cons.prems]]]
    by (simp add: kv pointer_to_string_key)
qed (simp add: turns_Nil)

lemma same_members:
  assumes "map_inv m" "map_inv n" "\<And>k. rel_option R (map_find m k) (map_find n k)"
  shows "list_all2 (\<lambda>a b. fst a = fst b \<and> R (snd a) (snd b)) m n"
  using assms
proof (induction m arbitrary: n)
  case Nil
  then show ?case by (cases n) (force, metis map_find.simps option.rel_distinct(1) surj_pair)
next
  case (Cons a m)
  obtain k v where a: "a = (k, v)" by (cases a)
  from Cons.prems(3) [of k] obtain b n' where n: "n = b # n'" by (cases n) (auto simp: a)
  obtain l w where b: "b = (l, w)" by (cases b)
  have "k = l"
  proof (rule ccontr)
    assume "k \<noteq> l"
    then consider "k < l" | "l < k" by (meson linorder_neqE)
    then show False
    proof cases
      case 1
      then have "map_find n k = None" using Cons.prems(2) map_find_None by (auto simp: n b)
      then show False using Cons.prems(3) [of k] by (simp add: a)
    next
      case 2
      then have "map_find (a # m) l = None" using Cons.prems(1) map_find_None by (auto simp: a)
      then show False using Cons.prems(3) [of l] by (simp add: n b)
    qed
  qed
  have none: "map_find m k = None" "map_find n' k = None"
    using Cons.prems(1,2) \<open>k = l\<close> std_map.find_erase [of "a # m" k k] std_map.find_erase [of n k k] by (simp_all add: a n b)
  have "rel_option R (map_find m x) (map_find n' x)" for x
    using Cons.prems(3) [of x] none \<open>k = l\<close> by (cases "x = k") (simp_all add: a n b)
  then have "list_all2 (\<lambda>a b. fst a = fst b \<and> R (snd a) (snd b)) m n'"
    using Cons.prems(1,2) by (intro Cons.IH) (simp_all add: a b n map_inv_Cons)
  with Cons.prems(3) [of k] \<open>k = l\<close> show ?case by (simp add: a n b)
qed

lemma json_equal_refl_array: "json_equal (Jarray xs) (Jarray xs) \<longleftrightarrow> (\<forall>x \<in> set xs. json_equal x x)"
  by (simp add: elements_equal_list list.rel_refl_strong list_all2_same)

lemma json_equal_refl_object: "json_equal (Jobject m) (Jobject m) \<longleftrightarrow> (\<forall>kv \<in> set m. json_equal (snd kv) (snd kv))"
  by (simp add: members_equal_list list_all2_same)

lemma map_find_set: "map_find m k = Some v \<Longrightarrow> (k, v) \<in> set m"
  by (induction m) (auto split: if_splits)

lemma map_find_in: "map_inv m \<Longrightarrow> (k, v) \<in> set m \<Longrightarrow> map_find m k = Some v"
  by (induction m) (force simp: map_inv_Cons)+

text \<open>The second pass over arrays and objects.\<close>

lemma diff_arrays:
  assumes "turns ops p (Jarray xs) (Jarray (zs @ drop (length ys) xs))" "list_all2 json_equal zs (take (length xs) ys)"
    and "length xs < 2 ^ 64" "\<forall>y \<in> set ys. json_equal y y"
  shows "\<exists>r. turns (ops @ rev (map (\<lambda>i. remove_op (pointer_to_string p @ ''/'' @ to_string i)) [length ys ..< length xs]) @
      map (add_op (pointer_to_string p @ ''/-'')) (drop (length xs) ys)) p (Jarray xs) r \<and> json_equal r (Jarray ys)"
proof -
  have len: "length zs = min (length xs) (length ys)" using list_all2_lengthD [OF assms(2)] by simp
  have "turns (rev (map (\<lambda>i. remove_op (pointer_to_string p @ ''/'' @ to_string i)) [length ys ..< length xs])) p
      (Jarray (zs @ drop (length ys) xs)) (Jarray zs)"
  proof (cases "length xs \<le> length ys")
    case False
    with len have n: "length zs = length ys" by simp
    with False have "length zs + length (drop (length ys) xs) = length xs" by simp
    with turns_remove_elements [of zs "drop (length ys) xs" p] assms(3) n show ?thesis by simp
  qed (simp add: turns_Nil)
  then have "turns (ops @ rev (map (\<lambda>i. remove_op (pointer_to_string p @ ''/'' @ to_string i)) [length ys ..< length xs]) @
      map (add_op (pointer_to_string p @ ''/-'')) (drop (length xs) ys)) p (Jarray xs) (Jarray (zs @ drop (length xs) ys))"
    by (rule turns_append [OF assms(1) turns_append [OF _ turns_add_elements]])
  moreover have "list_all2 json_equal (zs @ drop (length xs) ys) (take (length xs) ys @ drop (length xs) ys)"
    using assms(2,4) by (intro list_all2_appendI) (auto simp: list_all2_same dest: in_set_dropD)
  ultimately show ?thesis by (intro exI [of _ "Jarray (zs @ drop (length xs) ys)"]) (simp add: elements_equal_list)
qed

lemma diff_objects:
  assumes "turns ops p (Jobject m) (Jobject M)" "map_inv M" "map_inv n"
    and "\<And>k. if map_find m k = None then map_find M k = None else rel_option json_equal (map_find M k) (map_find n k)"
    and "\<forall>kv \<in> set n. json_equal (snd kv) (snd kv)"
  shows "\<exists>r. turns (ops @ map (\<lambda>(k, v). add_op (pointer_to_string p @ ''/'' @ escape k) v)
      (filter (\<lambda>(k, v). map_find m k = None) n)) p (Jobject m) r \<and> json_equal r (Jobject n)"
proof -
  define added where "added = filter (\<lambda>(k, v). map_find m k = None) n"
  define R where "R = fold (\<lambda>(k, v) m. map_assign k v (map_emplace k Jnull m)) added M"
  have "map_inv added" using assms(3) by (simp add: map_inv_def added_def sorted_wrt_filter sorted_wrt_map)
  have turn: "turns (ops @ map (\<lambda>(k, v). add_op (pointer_to_string p @ ''/'' @ escape k) v) added) p (Jobject m) (Jobject R)"
    unfolding R_def by (rule turns_append [OF assms(1) turns_add_members [OF assms(2)]])
  have "map_find R k = (if map_find m k = None then map_find n k else map_find M k)" for k
  proof -
    have "distinct (map fst added)" using \<open>map_inv added\<close> by (simp add: map_inv_def strict_sorted_iff)
    then have "map_of (rev added) = map_of added" by (simp add: map_of_inject_set rev_map [symmetric])
    moreover have "map_of added k = (if map_find m k = None then map_find n k else None)"
      unfolding added_def by (induction n) auto
    ultimately show ?thesis
      using std_map.find_stores [OF assms(2), of Jnull added k] assms(4) [of k]
      by (auto simp: R_def split: option.splits)
  qed
  moreover have "rel_option json_equal (map_find n k) (map_find n k)" for k
    using assms(5) map_find_set [of n k] by (cases "map_find n k") force+
  ultimately have "rel_option json_equal (map_find R k) (map_find n k)" for k
    using assms(4) [of k] by auto
  moreover have "map_inv R" unfolding R_def by (rule std_map.invar_stores [OF assms(2)])
  ultimately have "members_equal R n" using same_members [of R n json_equal] assms(3) by (simp add: members_equal_list)
  with turn show ?thesis unfolding added_def by (intro exI [of _ "Jobject R"]) simp
qed

lemma patches_difference:
  "op_path = pointer_to_string p \<Longrightarrow> json_wf s \<Longrightarrow> json_wf t \<Longrightarrow> addressable s \<Longrightarrow> json_equal t t \<Longrightarrow>
    \<exists>r. turns (diff s t op_path) p s r \<and> json_equal r t"
  "op_path' = pointer_to_string p \<Longrightarrow> length pre = i \<Longrightarrow> i + length xs < 2 ^ 64 \<Longrightarrow>
    \<forall>x \<in> set xs. json_wf x \<and> addressable x \<Longrightarrow> \<forall>y \<in> set ys. json_wf y \<and> json_equal y y \<Longrightarrow>
    \<exists>zs. turns (diff_elements xs ys op_path' i) p (Jarray (pre @ xs)) (Jarray (pre @ zs @ drop (length ys) xs)) \<and>
      list_all2 json_equal zs (take (length xs) ys)"
  "op_path'' = pointer_to_string p \<Longrightarrow> map_inv m \<Longrightarrow> map_inv M \<Longrightarrow>
    \<forall>kv \<in> set m. map_find M (fst kv) = Some (snd kv) \<and> json_wf (snd kv) \<and> addressable (snd kv) \<Longrightarrow>
    \<forall>kv \<in> set n. json_wf (snd kv) \<and> json_equal (snd kv) (snd kv) \<Longrightarrow>
    \<exists>M'. turns (diff_members m n op_path'') p (Jobject M) (Jobject M') \<and> map_inv M' \<and>
      (\<forall>k. if map_find m k = None then map_find M' k = map_find M k
           else rel_option json_equal (map_find M' k) (map_find n k))"
proof (induction s t op_path and xs ys op_path' i and m n op_path''
    arbitrary: p and p pre and p M rule: diff_diff_elements_diff_members.induct)
  case (1 s t op_path)
  consider "json_equal s t" | "\<not> json_equal s t" "m_type s \<noteq> m_type t"
    | xs ys where "\<not> json_equal s t" "s = Jarray xs" "t = Jarray ys"
    | m n where "\<not> json_equal s t" "s = Jobject m" "t = Jobject n"
    | "\<not> json_equal s t" "m_type s = m_type t" "\<not> is_array s" "\<not> is_object s"
    by (cases s; cases t) (auto simp: is_array_def is_object_def)
  then show ?case
  proof cases
    case 1
    then show ?thesis by (auto simp: diff.simps intro: turns_Nil)
  next
    case 2
    then show ?thesis using "1.prems" by (auto simp: diff.simps intro: turns_replace)
  next
    case (3 xs ys)
    have "\<exists>zs. turns (diff_elements xs ys op_path 0) p (Jarray ([] @ xs)) (Jarray ([] @ zs @ drop (length ys) xs)) \<and>
        list_all2 json_equal zs (take (length xs) ys)"
      using "1.prems" 3 json_equal_refl_array [of ys] by (intro "1.IH"(2)) (auto simp del: json_equal.simps)
    then show ?thesis
      using diff_arrays [of "diff_elements xs ys op_path 0" p xs _ ys] "1.prems" 3 json_equal_refl_array [of ys]
      by (fastforce simp: diff.simps simp del: json_equal.simps)
  next
    case (4 m n)
    have "\<exists>M'. turns (diff_members m n op_path) p (Jobject m) (Jobject M') \<and> map_inv M' \<and>
        (\<forall>k. if map_find m k = None then map_find M' k = map_find m k
             else rel_option json_equal (map_find M' k) (map_find n k))"
      using "1.prems" 4 json_equal_refl_object [of n] map_find_in [of m]
      by (intro "1.IH"(1)) (auto simp del: json_equal.simps)
    then obtain M' where M: "turns (diff_members m n op_path) p (Jobject m) (Jobject M')" "map_inv M'"
        "\<And>k. if map_find m k = None then map_find M' k = None else rel_option json_equal (map_find M' k) (map_find n k)"
      by (metis (full_types))
    show ?thesis
      using diff_objects [OF M(1,2) _ M(3)] "1.prems" 4 json_equal_refl_object [of n]
      by (simp add: diff.simps del: json_equal.simps)
  next
    case 5
    then have "diff s t op_path = [replace_op op_path t]" by (cases s) (simp_all add: diff.simps is_array_def is_object_def)
    then show ?thesis using "1.prems" by (auto intro: turns_replace)
  qed
next
  case (2 x xs y ys op_path i)
  have at: "op_path @ ''/'' @ to_string i = pointer_to_string (p @ [to_string i])"
    using "2.prems"(1) by (simp add: pointer_to_string_index)
  obtain r where r: "turns (diff x y (op_path @ ''/'' @ to_string i)) (p @ [to_string i]) x r" "json_equal r y"
    using "2.IH"(1) [OF at] "2.prems" by auto
  then have first: "turns (diff x y (op_path @ ''/'' @ to_string i)) p (Jarray (pre @ x # xs)) (Jarray (pre @ r # xs))"
    using turns_element [of _ p i "pre @ x # xs" r] "2.prems"(2,3) by (simp add: nth_append list_update_append)
  obtain zs where zs: "turns (diff_elements xs ys op_path (i + 1)) p (Jarray ((pre @ [r]) @ xs)) (Jarray ((pre @ [r]) @ zs @ drop (length ys) xs))"
      "list_all2 json_equal zs (take (length xs) ys)"
    using "2.IH"(2) [OF "2.prems"(1), of "pre @ [r]"] "2.prems" by auto
  with turns_append [OF first, of "diff_elements xs ys op_path (i + 1)"] r(2) show ?case
    by (intro exI [of _ "r # zs"]) simp
next
  case (5 k v m n op_path)
  have at: "op_path @ ''/'' @ escape k = pointer_to_string (p @ [k])"
    using "5.prems"(1) by (simp add: pointer_to_string_key)
  have M: "map_find M k = Some v" "map_inv m" "map_find m k = None"
    using "5.prems"(2,4) std_map.find_erase [of "(k, v) # m" k k] by (simp_all add: map_inv_Cons)
  show ?case
  proof (cases "map_find n k")
    case None
    have first: "turns [remove_op (op_path @ ''/'' @ escape k)] p (Jobject M) (Jobject (map_erase k M))"
      unfolding at using M(1) by (intro turns_remove_member) simp
    have M': "map_inv (map_erase k M)" "map_find (map_erase k M) l = (if l = k then None else map_find M l)" for l
      using "5.prems"(3) by (simp_all add: std_map.invar_erase std_map.find_erase)
    have "\<forall>kv \<in> set m. map_find (map_erase k M) (fst kv) = Some (snd kv) \<and> json_wf (snd kv) \<and> addressable (snd kv)"
      using "5.prems"(2,4) M(3) map_find_in [OF M(2)] by (force simp: M')
    from "5.IH"(2) [OF "5.prems"(1) M(2) M'(1) this "5.prems"(5)]
    obtain N where N: "turns (diff_members m n op_path) p (Jobject (map_erase k M)) (Jobject N)" "map_inv N"
      "\<And>l. if map_find m l = None then map_find N l = map_find (map_erase k M) l
           else rel_option json_equal (map_find N l) (map_find n l)"
      by blast
    show ?thesis
    proof (intro exI [of _ N] conjI allI)
      show "turns (diff_members ((k, v) # m) n op_path) p (Jobject M) (Jobject N)"
        using turns_append [OF first N(1)] None by simp
      show "if map_find ((k, v) # m) l = None then map_find N l = map_find M l
          else rel_option json_equal (map_find N l) (map_find n l)" for l
        using N(3) [of l] M(3) None by (cases "l = k") (simp_all add: M')
    qed (rule N(2))
  next
    case (Some w)
    have w: "json_wf w" "json_equal w w" using map_find_set [OF Some] "5.prems"(5) by force+
    obtain r where r: "turns (diff v w (op_path @ ''/'' @ escape k)) (p @ [k]) v r" "json_equal r w"
      using "5.IH"(1) [OF Some at] "5.prems"(4) w by auto
    have first: "turns (diff v w (op_path @ ''/'' @ escape k)) p (Jobject M) (Jobject (map_assign k r M))"
      by (rule turns_member [OF r(1) "5.prems"(3) M(1)])
    have M': "map_inv (map_assign k r M)" "map_find (map_assign k r M) l = (if l = k then Some r else map_find M l)" for l
      using "5.prems"(3) M(1) by (simp_all add: std_map.invar_assign std_map.find_assign)
    have "\<forall>kv \<in> set m. map_find (map_assign k r M) (fst kv) = Some (snd kv) \<and> json_wf (snd kv) \<and> addressable (snd kv)"
      using "5.prems"(2,4) M(3) map_find_in [OF M(2)] by (force simp: M')
    from "5.IH"(2) [OF "5.prems"(1) M(2) M'(1) this "5.prems"(5)]
    obtain N where N: "turns (diff_members m n op_path) p (Jobject (map_assign k r M)) (Jobject N)" "map_inv N"
      "\<And>l. if map_find m l = None then map_find N l = map_find (map_assign k r M) l
           else rel_option json_equal (map_find N l) (map_find n l)"
      by blast
    show ?thesis
    proof (intro exI [of _ N] conjI allI)
      show "turns (diff_members ((k, v) # m) n op_path) p (Jobject M) (Jobject N)"
        using turns_append [OF first N(1)] Some by simp
      show "if map_find ((k, v) # m) l = None then map_find N l = map_find M l
          else rel_option json_equal (map_find N l) (map_find n l)" for l
        using N(3) [of l] M(3) Some r(2) by (cases "l = k") (simp_all add: M')
    qed (rule N(2))
  qed
qed (auto intro: turns_Nil)

text \<open>C21. Patching a value with its difference to another gives that other value, up to \<^verbatim>\<open>==\<close>, for every two
  values the second of which equals itself (so has no NaN).\<close>

theorem patch_of_difference:
  assumes "json_wf s" "json_wf t" "addressable s" "json_equal t t"
  shows "\<exists>r. patch s (json_diff s t) = Inr r \<and> json_equal r t"
proof -
  obtain r where r: "turns (diff s t []) [] s r" "json_equal r t"
    using patches_difference(1) [of "[]" "[]" s t] assms by (auto simp: pointer_to_string_def)
  from r(1) walks.Here [of s] have "patch_steps (diff s t []) s = Inr (assign_at [] r s)"
    unfolding turns_def by blast
  with r(2) show ?thesis by (simp add: patch_def json_diff_def)
qed

theorem patch_of_difference_witness:
  "\<exists>r. patch (Jarray [Jnull, Jobject [(''a'', Jboolean True)]])
      (json_diff (Jarray [Jnull, Jobject [(''a'', Jboolean True)]]) (Jarray [Jnull, Jobject [(''/'', Jnull)], Jnull])) = Inr r \<and>
    json_equal r (Jarray [Jnull, Jobject [(''/'', Jnull)], Jnull])"
  by (rule patch_of_difference) (simp_all add: map_inv_def scalar_equal_def)

text \<open>A NaN in the target is what the documentation forgets, and a patch can reach the assertion in \<^verbatim>\<open>add\<close>
  that says a parent is never primitive; \<^verbatim>\<open>remove\<close> accepts such a pointer and does nothing.\<close>

lemma nan_difference:
  "patch Jnull (json_diff Jnull (Jnumber_float 0x7FF8000000000000)) = Inr (Jnumber_float 0x7FF8000000000000)"
  "\<not> json_equal (Jnumber_float 0x7FF8000000000000) (Jnumber_float 0x7FF8000000000000)"
proof -
  have "turns [replace_op [] (Jnumber_float 0x7FF8000000000000)] [] Jnull (Jnumber_float 0x7FF8000000000000)"
    using turns_replace [of "[]"] by (simp add: pointer_to_string_def)
  then show "patch Jnull (json_diff Jnull (Jnumber_float 0x7FF8000000000000)) = Inr (Jnumber_float 0x7FF8000000000000)"
    using walks.Here [of Jnull] unfolding turns_def
    by (fastforce simp: patch_def json_diff_def diff.simps scalar_equal_def)
qed (simp add: scalar_equal_def float_equal_def float_is_nan_def double_inf_def)

lemma operations_on_primitive:
  "patch (Jboolean b) (Jarray [add_op ''/a'' v]) = Inl (Thrown Assertion_failure)"
  "patch (Jboolean b) (Jarray [remove_op ''/a'']) = Inr (Jboolean b)"
proof -
  have p: "''/a'' = pointer_to_string [''a'']" by (simp add: pointer_to_string_def escape_plain)
  show "patch (Jboolean b) (Jarray [add_op ''/a'' v]) = Inl (Thrown Assertion_failure)"
    using operation_add_walks [OF walks.Here [of "Jboolean b"], of "''a''" v]
    by (simp add: patch_def p patch_step_add)
  show "patch (Jboolean b) (Jarray [remove_op ''/a'']) = Inr (Jboolean b)"
    by (simp add: patch_def p patch_step_remove operation_remove_def pointer_back_def)
qed

section \<open>Merging\<close>

lemma merge_members_step:
  assumes "map_inv m"
  shows "map_find (if is_null v then map_erase k m
      else (let m' = map_emplace k Jnull m in map_assign k (merge_patch v (the (map_find m' k))) m')) l =
    (if l = k then (if is_null v then None else Some (merge_patch v (case map_find m k of None \<Rightarrow> Jnull | Some w \<Rightarrow> w)))
     else map_find m l)"
  and "map_inv (if is_null v then map_erase k m
      else (let m' = map_emplace k Jnull m in map_assign k (merge_patch v (the (map_find m' k))) m'))"
  using assms
  by (auto simp: Let_def std_map.find_erase std_map.find_store std_map.find_emplace std_map.invar_store std_map.invar_erase
      split: option.splits)

lemma merge_members_finds:
  "map_inv p \<Longrightarrow> map_inv m \<Longrightarrow>
    map_inv (merge_members p m) \<and>
    map_find (merge_members p m) k =
      (case map_find p k of
         None \<Rightarrow> map_find m k
       | Some v \<Rightarrow> if is_null v then None else Some (merge_patch v (case map_find m k of None \<Rightarrow> Jnull | Some w \<Rightarrow> w)))"
proof (induction p arbitrary: m)
  case (Cons kv p)
  obtain l v where kv: "kv = (l, v)" by (cases kv)
  have none: "map_find p l = None" using Cons.prems(1) std_map.find_erase [of "(l, v) # p" l l] by (simp add: kv)
  have "map_inv p" using Cons.prems(1) by (simp add: kv map_inv_Cons)
  define m1 where "m1 = (if is_null v then map_erase l m
      else (let m' = map_emplace l Jnull m in map_assign l (merge_patch v (the (map_find m' l))) m'))"
  have m1: "map_inv m1"
    "map_find m1 k = (if k = l then (if is_null v then None else Some (merge_patch v (case map_find m l of None \<Rightarrow> Jnull | Some w \<Rightarrow> w)))
       else map_find m k)"
    unfolding m1_def using merge_members_step [OF Cons.prems(2)] by blast+
  have "merge_members (kv # p) m = merge_members p m1" by (simp add: kv m1_def)
  with Cons.IH [OF \<open>map_inv p\<close> m1(1)] m1(2) none show ?case by (cases "k = l"; cases "map_find p k") (simp_all add: kv)
qed simp

text \<open>C24. The result of a merge patch that is an object (RFC 7396): a member the patch does not mention stays, one it
  sets to null is gone, and any other is what merging its patch into the old value, or into null, gives.\<close>

theorem merge_patch_members:
  assumes "json_wf (Jobject p)" "json_wf j"
  shows "\<exists>m. merge_patch (Jobject p) j = Jobject m \<and> map_inv m \<and>
    (\<forall>k. map_find m k =
       (case map_find p k of
          None \<Rightarrow> (case j of Jobject n \<Rightarrow> map_find n k | _ \<Rightarrow> None)
        | Some Jnull \<Rightarrow> None
        | Some v \<Rightarrow> Some (merge_patch v (case j of Jobject n \<Rightarrow> (case map_find n k of None \<Rightarrow> Jnull | Some w \<Rightarrow> w) | _ \<Rightarrow> Jnull))))"
proof -
  define n where "n = (case j of Jobject m \<Rightarrow> m | _ \<Rightarrow> [])"
  have n: "map_inv n" "map_inv p" using assms by (auto simp: n_def map_inv_def split: json.split)
  have old: "(case j of Jobject n \<Rightarrow> map_find n k | _ \<Rightarrow> None) = map_find n k"
    "(case j of Jobject n \<Rightarrow> (case map_find n k of None \<Rightarrow> Jnull | Some w \<Rightarrow> w) | _ \<Rightarrow> Jnull) =
     (case map_find n k of None \<Rightarrow> Jnull | Some w \<Rightarrow> w)" for k
    by (simp_all add: n_def split: json.split)
  have "merge_patch (Jobject p) j = Jobject (merge_members p n)" by (simp add: merge_patch.simps n_def)
  moreover have "map_find (merge_members p n) k =
      (case map_find p k of None \<Rightarrow> map_find n k | Some Jnull \<Rightarrow> None
       | Some v \<Rightarrow> Some (merge_patch v (case map_find n k of None \<Rightarrow> Jnull | Some w \<Rightarrow> w)))" for k
    using merge_members_finds [OF n(2,1), of k] by (simp add: is_null_def split: option.split json.split)
  ultimately show ?thesis using merge_members_finds [OF n(2,1)] unfolding old by blast
qed

theorem merge_patch_members_witness:
  "\<exists>m. merge_patch (Jobject [(''a'', Jnull), (''c'', Jboolean True)]) (Jobject [(''a'', Jboolean True), (''b'', Jstring ''x'')]) = Jobject m \<and>
    map_find m ''a'' = None \<and> map_find m ''b'' = Some (Jstring ''x'') \<and> map_find m ''c'' = Some (Jboolean True)"
  using merge_patch_members [of "[(''a'', Jnull), (''c'', Jboolean True)]" "Jobject [(''a'', Jboolean True), (''b'', Jstring ''x'')]"]
  by (auto simp: map_inv_def merge_patch.simps)

lemma maps_equal:
  assumes "map_inv m" "map_inv n" "\<And>k. map_find m k = map_find n k"
  shows "m = n"
proof -
  have "list_all2 (\<lambda>a b. fst a = fst b \<and> snd a = snd b) m n"
    by (rule same_members) (simp_all add: assms option.rel_eq)
  then have "list_all2 (=) m n" by (rule list_all2_mono) (auto intro: prod_eqI)
  then show ?thesis by (simp add: list.rel_eq)
qed

text \<open>Merging the same patch again changes nothing.\<close>

lemma merge_patch_idempotent:
  "json_wf p \<Longrightarrow> json_wf j \<Longrightarrow> merge_patch p (merge_patch p j) = merge_patch p j"
proof (induction p arbitrary: j rule: json_wf.induct)
  case (1 p)
  obtain n where n: "merge_patch (Jobject p) j = Jobject (merge_members p n)" "map_inv n" "json_wf (Jobject n)"
  proof (cases j)
    case (Jobject n)
    with "1.prems"(2) that [of n] show ?thesis by (simp add: merge_patch.simps)
  qed (use that [of "[]"] in \<open>simp_all add: merge_patch.simps map_inv_def\<close>)
  have p: "map_inv p" using "1.prems"(1) by simp
  note finds = merge_members_finds [OF p n(2)]
  have "merge_members p (merge_members p n) = merge_members p n"
  proof (rule maps_equal)
    fix k
    have old: "json_wf (case map_find n k of None \<Rightarrow> Jnull | Some w \<Rightarrow> w)"
      using n(3) map_find_set [of n k] by (force split: option.split)
    show "map_find (merge_members p (merge_members p n)) k = map_find (merge_members p n) k"
    proof (cases "map_find p k")
      case (Some v)
      from map_find_set [OF this] "1.prems"(1) have "json_wf v" by force
      with "1.IH" [OF map_find_set [OF Some]] old
      show ?thesis using merge_members_finds [OF p conjunct1 [OF finds], of k] finds [of k] Some by simp
    qed (use merge_members_finds [OF p conjunct1 [OF finds], of k] in simp)
  qed (use finds merge_members_finds [OF p conjunct1 [OF finds]] in blast)+
  moreover have "merge_patch (Jobject p) (Jobject (merge_members p n)) = Jobject (merge_members p (merge_members p n))"
    by (simp add: merge_patch.simps)
  ultimately show ?case using n(1) by simp
qed (simp_all add: merge_patch.simps)

lemma merge_patch_idempotent_witness:
  "merge_patch (Jobject [(''a'', Jnull)]) (merge_patch (Jobject [(''a'', Jnull)]) (Jobject [(''a'', Jboolean True)])) =
   merge_patch (Jobject [(''a'', Jnull)]) (Jobject [(''a'', Jboolean True)])"
  by (rule merge_patch_idempotent) (simp_all add: map_inv_def)

end
