(* ===== verification/Spec2Isabelle.thy ===== *)
theory Spec2Isabelle
  imports Json_Textual Gst_Interop Fake_Audio Http_Server Ldc_Server Cjson_Minify Cjson_Compare Json_Patch
begin

text \<open>
  The C and C++ programs of webrtc-echoes, verified: three echo servers and a client for the WebRTC echo tests
  of \<^verbatim>\<open>src/doc\<close>, and the two JSON libraries with which they exchange session descriptions.

  \<^bold>\<open>The programs.\<close> A client posts an SDP offer, in a JSON message, to a server and gets an SDP answer in
  the same form; the peers connect, and in the data channel test the server sends back what the client
  sends. \<^verbatim>\<open>src/libwebrtc\<close> is a server on Google's WebRTC library and libevent; \<^verbatim>\<open>src/libdatachannel\<close> has a
  server and a client on libdatachannel and cpp-httplib; \<^verbatim>\<open>src/gstreamer\<close> is a server on GStreamer's webrtcbin
  and libevent. The messages are read and written by \<^verbatim>\<open>src/libwebrtc/json.hpp\<close>, a copy of nlohmann/json 3.9,
  and in the C server by \<^verbatim>\<open>src/gstreamer/cJSON.c\<close>, a copy of cJSON 1.7.14.

  \<^bold>\<open>The theories\<close>, in the order of their imports:
  \<^item> \<^verbatim>\<open>Prelude\<close>: shared lemmas, characters as numbers, exceptions as the left side of a sum (\<open>try_bind\<close>),
    decimal and hexadecimal printing. \<^verbatim>\<open>Cstdlib\<close>: what the code uses of the C library (\<^verbatim>\<open>strtoull\<close>, \<^verbatim>\<open>strtoll\<close>,
    \<^verbatim>\<open>strtod\<close> with round-to-nearest on exact rationals, \<^verbatim>\<open>atoi\<close>).
  \<^item> JSON, \<^verbatim>\<open>json.hpp\<close>. \<^verbatim>\<open>Json_Lexer\<close> (class \<^verbatim>\<open>lexer\<close>), \<^verbatim>\<open>Json_Value\<close> (exceptions, \<^verbatim>\<open>basic_json\<close>,
    \<^verbatim>\<open>ordered_map\<close>), \<^verbatim>\<open>Json_Sax\<close> (the SAX interface, \<^verbatim>\<open>json_sax_dom_parser\<close> with its stack of pointers as
    paths into the tree, \<^verbatim>\<open>json_sax_acceptor\<close>), \<^verbatim>\<open>Json_Parser\<close> (class \<^verbatim>\<open>parser\<close>, \<^verbatim>\<open>parse\<close>, \<^verbatim>\<open>accept\<close>),
    \<^verbatim>\<open>Json_Utf8\<close> (the decoder table of the serializer), \<^verbatim>\<open>Json_Dtoa\<close> (Grisu2 on 64-bit words) and
    \<^verbatim>\<open>Json_Serializer\<close> (class \<^verbatim>\<open>serializer\<close>, \<^verbatim>\<open>dump\<close>) are translations of the code; a function of the
    model has the name of the function of the code, and the state of a class is a record.
  \<^item> Proofs about them. \<^verbatim>\<open>Json_Events\<close> and \<^verbatim>\<open>Json_Dom\<close>: the parser tells every handler the same events,
    which follow a protocol (locale \<open>sax_consumer\<close>, interpreted for both handlers). \<^verbatim>\<open>Json_Builder\<close>: the tree
    built through pointers is the one a functional builder makes. \<^verbatim>\<open>Json_Lexer_View\<close>, \<^verbatim>\<open>Json_Grammar\<close>,
    \<^verbatim>\<open>Json_Parse_Text\<close>, \<^verbatim>\<open>Json_Parse\<close>: the grammar of RFC 8259 as inductive predicates, and the parser on its
    texts. \<^verbatim>\<open>Json_Asserts\<close>: no assertion of the lexer fails. \<^verbatim>\<open>Json_Token_Sound\<close>, \<^verbatim>\<open>Json_Sound\<close>: nothing else is
    accepted; \<^verbatim>\<open>Json_Textual\<close>: what is accepted can be written again. \<^verbatim>\<open>Json_Escape\<close>, \<^verbatim>\<open>Json_Integer\<close>, \<^verbatim>\<open>Json_Grisu\<close>, \<^verbatim>\<open>Json_Dump\<close>, \<^verbatim>\<open>Json_Dump_Bounds\<close>: what the serializer
    writes for strings, integers, floats and values, that it is a text of the grammar, and that
    no buffer overflows. The locale \<open>object_container\<close> of \<^verbatim>\<open>Json_Value\<close> is the contract of an object's
    container, interpreted for \<^verbatim>\<open>std::map\<close> and \<^verbatim>\<open>ordered_map\<close>.
  \<^item> \<^verbatim>\<open>Json_Compare\<close> (\<^verbatim>\<open>operator==\<close>, \<^verbatim>\<open>operator<\<close>), \<^verbatim>\<open>Json_Pointer\<close> (class \<^verbatim>\<open>json_pointer\<close>: a pointer is read back as it
    was printed, \<^verbatim>\<open>contains\<close> decides what \<^verbatim>\<open>at\<close> finds) and \<^verbatim>\<open>Json_Patch\<close> (\<^verbatim>\<open>patch\<close>, \<^verbatim>\<open>diff\<close>, \<^verbatim>\<open>merge_patch\<close>: a patch
    made by \<^verbatim>\<open>diff\<close> leads to the target, and merging follows RFC 7396).
  \<^item> cJSON on values. \<^verbatim>\<open>Cjson_Item\<close> (items as trees, the allocator that may refuse any request), \<^verbatim>\<open>Cjson_Parser\<close>
    (the parser, with every access outside its buffers as a fault), \<^verbatim>\<open>Cjson_Number\<close> (\<^verbatim>\<open>sprintf\<close> with \<^verbatim>\<open>%g\<close> and
    \<^verbatim>\<open>compare_double\<close>), \<^verbatim>\<open>Cjson_Printer\<close> (the print buffer and its growth) and \<^verbatim>\<open>Cjson_Minify\<close>. \<^verbatim>\<open>Cjson_Safe\<close>: the
    parser never faults on a C string. \<^verbatim>\<open>Cjson_Strings\<close>, \<^verbatim>\<open>Cjson_Text\<close>: it reads the grammar of \<^verbatim>\<open>Json_Grammar\<close> as
    \<^verbatim>\<open>json.hpp\<close> does. \<^verbatim>\<open>Cjson_Print\<close>: what the printer writes, that it stays in its buffer, and when it fails.
    \<^verbatim>\<open>Cjson_Roundtrip\<close>: what is printed is read back, by both libraries. \<^verbatim>\<open>Cjson_Minify\<close>: what is left is a text
    of the same value, one exception apart.
  \<^item> cJSON on pointers. \<^verbatim>\<open>Cjson_Heap\<close> holds the functions that create, look up, add, detach, insert, replace,
    duplicate and delete items, on a store of cells with \<^verbatim>\<open>next\<close>, \<^verbatim>\<open>prev\<close> and \<^verbatim>\<open>child\<close>. \<^verbatim>\<open>Cjson_Chain\<close>: the chain of
    the children as a list. \<^verbatim>\<open>Cjson_Array\<close>: arrays are lists (locale \<open>child_list\<close>). \<^verbatim>\<open>Cjson_Tree\<close>: an item as a
    tree of cells, what \<^verbatim>\<open>cJSON_Delete\<close> frees and \<^verbatim>\<open>cJSON_Duplicate\<close> copies. \<^verbatim>\<open>Cjson_Make\<close>, \<^verbatim>\<open>Cjson_Edit\<close>,
    \<^verbatim>\<open>Cjson_Object\<close>: what the creating, editing and object functions do to the trees, also when memory runs out.
    \<^verbatim>\<open>Cjson_Compare\<close>: \<^verbatim>\<open>cJSON_Compare\<close> and the relation it decides.
  \<^item> The GStreamer server. \<^verbatim>\<open>Gst_Echo\<close> (\<^verbatim>\<open>gstreamer-webrtc-echo.c\<close>: the handler, which works on cJSON's store, the
    callbacks and \<^verbatim>\<open>main\<close>) and \<^verbatim>\<open>Gst_Interop\<close>: it answers what the libdatachannel client sends.
  \<^item> The libwebrtc server. \<^verbatim>\<open>Fake_Audio\<close> (\<^verbatim>\<open>fake_audio_capture_module.cc\<close>), \<^verbatim>\<open>Pc_Factory\<close> (\<^verbatim>\<open>PcFactory.cpp\<close> and the
    observer of \<^verbatim>\<open>PcObserver.h\<close>; its two threads are a step relation) and \<^verbatim>\<open>Http_Server\<close>
    (\<^verbatim>\<open>HttpSimpleServer.cpp\<close>, \<^verbatim>\<open>libwebrtc-webrtc-echo.cpp\<close>).
  \<^item> The libdatachannel programs. \<^verbatim>\<open>Ldc_Signalling\<close> (the messages; locale \<open>description_codec\<close> is what they expect
    of a JSON library, interpreted for the vendored one), \<^verbatim>\<open>Ldc_Client\<close> (\<^verbatim>\<open>client.cpp\<close>), \<^verbatim>\<open>Ldc_Server\<close>
    (\<^verbatim>\<open>server.cpp\<close>).
  \<^item> This theory: the round trip of a JSON value, and client and servers put together.

  \<^bold>\<open>Conventions.\<close> An exception is a value \<open>Inl\<close> of a sum; \<open>Assertion_failure\<close> is a failing \<^verbatim>\<open>JSON_ASSERT\<close> or an
  access outside a buffer, which the theorems exclude or exhibit. The lexer, whose functions return no sum,
  has the field \<open>asserts_hold\<close> instead, at which \<open>get_token\<close> looks. In the C code a fault (an access outside
  a buffer, through a null pointer or to a freed cell) is an \<open>Inl\<close>, and refused memory is an ordinary result.
  Strings are lists of bytes. Numbers keep
  their width (\<open>64 word\<close>, \<open>32 word\<close>, \<open>16 word\<close>), a double is its bit pattern. The WebRTC library,
  libdatachannel, cpp-httplib, GStreamer and libevent are records of functions, arguments of the definitions
  that call them; what arrives from outside is a list of events or requests, over which the theorems
  quantify. The decimal point of the locale and the maximal size of a container are arguments too. The
  decimal point is one byte: of a longer one the lexer keeps the first byte only, and its assertion behind
  \<^verbatim>\<open>strtod\<close> can then fail.

  \<^bold>\<open>Bounds and fuel.\<close> The parser and the escaping loop are total functions by well-founded recursion. Three
  loops take fuel: \<open>count_digits\<close> 5 rounds (\<open>count_digits_correct\<close>), \<open>diyfp_normalize\<close> 65 and \<open>fraction_digits\<close>
  20 (\<open>to_chars_ends\<close> of \<^verbatim>\<open>Json_Grisu\<close>: they never run out). The loops of cJSON take the length of the buffer
  (\<open>cJSON_Parse_safe\<close>, \<open>cJSON_Minify_keeps_value\<close>) or, on the store, the number of addresses handed out so far,
  which no chain and no depth of a tree exceeds (\<open>bounded_length\<close>; twice that number where a loop and a
  recursion share the fuel). The round trip excludes finite floats, because that
  Grisu2's digits read back as the same double is not proved here, and indentations above 512.

  \<^bold>\<open>Not modelled.\<close> The assertions inside Grisu2 and the one on the number of digits in \<^verbatim>\<open>dump_integer\<close> (the
  results of both are proved instead). The binary formats, iterators, conversions other than to strings, the unchecked const access
  through a JSON pointer and the parser with a callback of \<^verbatim>\<open>json.hpp\<close>; the memory of the strings on cJSON's
  store, which are values there; observers that only log; the programs in other languages; what is printed
  to the console, apart from the exit messages of the libdatachannel programs.
\<close>

section \<open>Reading and writing JSON\<close>

text \<open>C1. A value that is serialized and parsed again comes back: for every well-formed value whose
  strings are valid UTF-8 and which holds no finite float, no binary and no discarded value,
  \<^verbatim>\<open>dump\<close> succeeds with every error handler, compact or with an indentation of up to 512
  white space characters, escaping or not escaping non-ASCII characters, and \<^verbatim>\<open>parse\<close> of the text
  gives the value (\<open>dump_image\<close>: a non-negative number becomes unsigned, NaN and infinity null).\<close>

theorem parse_dump_roundtrip:
  assumes "json_wf j" "dumpable j" "indent \<le> 512" "is_ws indent_char"
  shows "\<exists>s. json_dump indent indent_char ascii eh j = Inr s \<and>
    json_parse max_size dp allow ignore s = Inr (dump_image j)"
  using assms by (intro json_parse_dump)

theorem parse_dump_roundtrip_witness:
  "\<exists>s. json_dump 2 CHR '' '' False eh_strict
      (Jobject [(''sdp'', Jstring ''v=0''), (''type'', Jarray [Jnumber_integer (- 5), Jnull])]) = Inr s \<and>
    json_parse (\<lambda>_. 1000) CHR ''.'' True False s =
      Inr (Jobject [(''sdp'', Jstring ''v=0''), (''type'', Jarray [Jnumber_integer (- 5), Jnull])])"
proof -
  have utf8: "valid_utf8 ''sdp''" "valid_utf8 ''v=0''" "valid_utf8 ''type''"
    by (simp_all add: valid_utf8_ascii)
  have wf: "json_wf (Jobject [(''sdp'', Jstring ''v=0''), (''type'', Jarray [Jnumber_integer (- 5), Jnull])])"
    by (simp add: map_inv_def)
  show ?thesis
    using parse_dump_roundtrip [OF wf, of 2 "CHR '' ''" False eh_strict "\<lambda>_. 1000" "CHR ''.''" True False]
    by (simp add: utf8 is_ws_def)
qed

section \<open>Signalling between client and server\<close>

text \<open>The two ends of the HTTP exchange with nothing in between: a request is answered by the handler of the
  libdatachannel server; a handler that never returns makes the request fail.\<close>

definition wired :: "'j json_library \<Rightarrow> server_peer \<Rightarrow> peer \<Rightarrow> bool" where
  "wired lib sp p \<longleftrightarrow>
     (\<forall>server url_path req_body content_type.
        http_post p server url_path req_body content_type =
          (case post_offer lib sp req_body of
             None \<Rightarrow> Inl 4 | Some r \<Rightarrow> Inr (res_status r, res_body r)))"

text \<open>The server accepts the offer and has the answer when its candidates are gathered.\<close>

definition answers :: "server_peer \<Rightarrow> string \<times> string \<Rightarrow> string \<times> string \<Rightarrow> bool" where
  "answers sp offer answer \<longleftrightarrow>
     (case offer of (sdp, ty) \<Rightarrow>
        description_error sp sdp ty = None \<and> make_error sp = None \<and> set_remote_error sp sdp ty = None \<and>
        (\<exists>pre post. gathering sp sdp ty = pre @ (Gathering_complete, Some answer) # post \<and>
           Gathering_complete \<notin> fst ` set pre))"

lemma exchange_answered:
  assumes "local_desc p = Some (sdp, ty)" "valid_utf8 sdp" "valid_utf8 ty"
    and "answers sp (sdp, ty) (sdp', ty')" "valid_utf8 sdp'" "valid_utf8 ty'"
    and "wired (vendored_json ms dp) sp p" "remote_error p sdp' ty' = None"
  shows "exchange (vendored_json ms dp) p server url url_path = Inr (sdp', ty')"
proof -
  let ?lib = "vendored_json ms dp"
  obtain req where req: "dump_description ?lib (sdp, ty) = Inr req"
    "parse_description ?lib req = Inr (sdp, ty)" "c_str req = req"
    by (rule vendored.message_obtains [OF assms(2,3)])
  obtain msg where msg: "dump_description ?lib (sdp', ty') = Inr msg"
    "parse_description ?lib msg = Inr (sdp', ty')"
    by (rule vendored.message_obtains [OF assms(5,6)])
  obtain pre post where acc: "description_error sp sdp ty = None" "make_error sp = None"
    "set_remote_error sp sdp ty = None" "Gathering_complete \<notin> fst ` set pre"
    "gathering sp sdp ty = pre @ (Gathering_complete, Some (sdp', ty')) # post"
    using assms(4) by (auto simp: answers_def)
  have "post_offer ?lib sp req = Some \<lparr>res_status = 200, res_body = msg, res_type = ''application/json''\<rparr>"
    using offer_accepted [OF req(2) acc(1-3)]
      fold_server_gathering_complete [OF acc(4), of ?lib "Some (sdp', ty')" post "[]"] acc(5) msg(1)
    by simp
  with assms(1,7,8) req msg(2) show ?thesis
    by (auto simp: exchange_def wired_def parse_description_def try_bind_eq_Inr)
qed

text \<open>C25. The offer of the libdatachannel client reaches the server unchanged, and the client is left with
  the description the server's connection had when its candidates were first gathered.\<close>

theorem signalling_end_to_end:
  assumes "local_desc p = Some (sdp, ty)" "valid_utf8 sdp" "valid_utf8 ty"
    and "answers sp (sdp, ty) (sdp', ty')" "valid_utf8 sdp'" "valid_utf8 ty'"
    and "wired (vendored_json ms dp) sp p" "remote_error p sdp' ty' = None"
  shows "onGatheringStateChange (vendored_json ms dp) p server url url_path Gathering_complete c =
    c\<lparr>remote := Some (sdp', ty')\<rparr>"
  using exchange_answered [OF assms] by (simp add: onGatheringStateChange_def)

text \<open>A client peer wired to the server peer \<open>ready_peer\<close>.\<close>

definition ready_client :: peer where
  "ready_client = \<lparr>connection_error = None, local_desc = Some (''v=0'', ''offer''),
     http_post = (\<lambda>_ _ req_body _.
       case post_offer (vendored_json (\<lambda>_. 0) CHR ''.'') ready_peer req_body of
         None \<Rightarrow> Inl 4 | Some r \<Rightarrow> Inr (res_status r, res_body r)),
     remote_error = (\<lambda>_ _. None), catches_exceptions = True\<rparr>"

lemma ready_client_wired:
  "local_desc ready_client = Some (''v=0'', ''offer'')"
  "wired (vendored_json (\<lambda>_. 0) CHR ''.'') ready_peer ready_client"
  "answers ready_peer (''v=0'', ''offer'') (''v=0'', ''answer'')"
  "valid_utf8 ''v=0''" "valid_utf8 ''offer''" "valid_utf8 ''answer''"
  "remote_error ready_client ''v=0'' ''answer'' = None" "connection_error ready_client = None"
  unfolding ready_client_def wired_def answers_def ready_peer_def
  by (auto simp: valid_utf8_ascii intro: exI [of _ "[(Gathering_in_progress, None)]"])

theorem signalling_end_to_end_witness:
  "remote (onGatheringStateChange (vendored_json (\<lambda>_. 0) CHR ''.'') ready_client ''http://localhost:8080''
     ''http://localhost:8080/offer'' ''/offer'' Gathering_complete client_init) = Some (''v=0'', ''answer'')"
  using signalling_end_to_end [OF ready_client_wired(1,4,5,3,4,6,2,7)] by simp

text \<open>What happens in the data channel test: the candidates are gathered, the channel opens, the client
  sends what it sends on the open channel, and receives what the server sends back for it.\<close>

definition echo_session :: "(nat \<Rightarrow> nat) \<Rightarrow> client_event list" where
  "echo_session draw =
     (let client = onChannelOpen (randomString draw 5) client_init;
          server = fold server_event_step (map (\<lambda>m. Server_channel_message (Text m)) (sent client))
                     server_connection_init
      in [Gathering Gathering_complete, Channel_open] @ map Channel_message (channel_sent server))"

lemma echo_arguments:
  "parse_arguments [program, ''-t'', ''1''] 1 0 url = Inr (Arguments 1 url)"
proof -
  have "atoi ''1'' = 1" by code_simp
  then show ?thesis
    using parse_arguments_options [of "[program]" "[Test_number ''1'']" "[]" 0 url]
      parse_arguments_end [of "[program, ''-t'', ''1'']"] by simp
qed

lemma default_url_split:
  "split_url 1 ''http://localhost:8080/offer'' = Inr (''http://localhost:8080'', ''/offer'')"
proof -
  have "find_last_of CHR ''/'' ''http://localhost:8080/offer'' = Some 21" by code_simp
  then show ?thesis by (simp add: split_url_def)
qed

lemma echo_session_events:
  "echo_session draw =
     [Gathering Gathering_complete, Channel_open, Channel_message (Text (randomString draw 5))]"
  by (simp add: echo_session_def onChannelOpen_def client_init_def server_connection_init_def
      server_event_step_def Let_def)

text \<open>C26. The data channel test of the client against the server: once the offer is answered and the
  channel opens, what the server sends back makes the client exit with 0, whatever the random string.\<close>

theorem echo_test_succeeds:
  assumes "local_desc p = Some (sdp, ty)" "valid_utf8 sdp" "valid_utf8 ty"
    and "answers sp (sdp, ty) (sdp', ty')" "valid_utf8 sdp'" "valid_utf8 ty'"
    and "wired (vendored_json ms dp) sp p" "remote_error p sdp' ty' = None" "connection_error p = None"
  shows "client_main (vendored_json ms dp) p draw (echo_session draw) [program, ''-t'', ''1''] = succeed []"
  using exchange_answered [OF assms(1-8)] assms(9)
  by (simp add: client_main_def echo_arguments [unfolded One_nat_def] default_url_split echo_session_events client_handlers
      client_init_def wait_result_def end_of_client_def Let_def)

theorem echo_test_succeeds_witness:
  "client_main (vendored_json (\<lambda>_. 0) CHR ''.'') ready_client (\<lambda>i. i) (echo_session (\<lambda>i. i))
     [''client'', ''-t'', ''1''] = succeed []"
  by (rule echo_test_succeeds [OF ready_client_wired(1,4,5,3,4,6,2,7,8)])

section \<open>A libdatachannel client and the libwebrtc server\<close>

lemma answer_message_json:
  "answer_message sdp = json_dump (- 1) CHR '' '' False eh_strict (description_json sdp ''answer'')"
  by (simp add: answer_message_def set_key_def index_key_def is_null_def description_json_def)

lemma string_of_message:
  assumes "length msg < 2 ^ 31"
  shows "string_of_buffer msg (of_nat (length msg)) = Inr msg"
proof -
  have "sint (of_nat (length msg) :: 32 word) = int (length msg)"
    using assms by (simp add: signed_of_nat signed_take_bit_int_eq_self)
  moreover have "unat (of_nat (length msg) :: 32 word) = length msg"
    using assms by (simp add: unat_of_nat take_bit_nat_eq_self)
  ultimately show ?thesis by (simp add: string_of_buffer_def)
qed

text \<open>C33. The messages of the two programs fit together: the libwebrtc server reads from the message of
  the libdatachannel client the SDP the client put in, and the client reads from the server's message the
  SDP of the connection's local description, with the type \<^verbatim>\<open>answer\<close>.\<close>

theorem factory_answers_client:
  assumes "dump_description (vendored_json ms dp) (sdp, ty) = Inr msg" "length msg < 2 ^ 31"
    and "valid_utf8 sdp" "valid_utf8 ty" "valid_utf8 answer"
    and "create_pc rtc = Inr pc" "create_track rtc" "add_track rtc pc"
    and "parse_sdp rtc sdp = Inr offer" "answer_in_time rtc pc offer"
    and "local_description rtc pc offer = Some answer"
  shows "\<exists>body f'. CreatePeerConnection ms' dp' rtc msg (of_nat (length msg)) f = (Inr body, f') \<and>
    parse_description (vendored_json ms dp) body = Inr (answer, ''answer'')"
proof -
  have utf8: "valid_utf8 ''answer''" by (simp add: valid_utf8_ascii)
  obtain body where body: "dump_description (vendored_json ms dp) (answer, ''answer'') = Inr body"
    "parse_description (vendored_json ms dp) body = Inr (answer, ''answer'')"
    by (rule vendored.message_obtains [OF assms(5) utf8])
  then have "answer_message answer = Inr body"
    by (cases "json_dump (- 1) CHR '' '' False eh_strict (description_json answer ''answer'')")
       (simp_all add: vendored_dump_description answer_message_json)
  moreover note d = description_json_ok [OF assms(3,4)]
  have "json_parse ms' dp' True False msg = Inr (description_json sdp ty)"
    using json_parse_dump [OF d(1,2), of "- 1" "CHR '' ''" False eh_strict ms' dp' True False] d(3) assms(1)
    by (auto simp: vendored_dump_description is_ws_def)
  moreover have "offer_sdp (description_json sdp ty) = Inr sdp"
    by (simp add: offer_sdp_def index_key_def is_null_def description_json_def get_string_def)
  ultimately show ?thesis
    using body(2) string_of_message [OF assms(2)] assms(6-)
    by (simp add: CreatePeerConnection_def negotiate_def json_call_def Let_def)
qed

text \<open>A library that answers every offer.\<close>

definition answering_library :: "(nat, unit) webrtc" where
  "answering_library = \<lparr>create_pc = Inr 7, create_track = True, add_track = (\<lambda>_. True),
     parse_sdp = (\<lambda>_. Inr ()), answer_in_time = (\<lambda>_ _. True), local_description = (\<lambda>_ _. Some ''v=0'')\<rparr>"

theorem factory_answers_client_witness:
  "\<exists>msg body f'. dump_description (vendored_json (\<lambda>_. 0) CHR ''.'') (''v=0'', ''offer'') = Inr msg \<and>
     CreatePeerConnection (\<lambda>_. 0) CHR ''.'' answering_library msg (of_nat (length msg)) PcFactory = (Inr body, f') \<and>
     parse_description (vendored_json (\<lambda>_. 0) CHR ''.'') body = Inr (''v=0'', ''answer'')"
proof -
  let ?lib = "vendored_json (\<lambda>_. 0) CHR ''.''"
  obtain msg where msg: "dump_description ?lib (''v=0'', ''offer'') = Inr msg" "length msg < 2 ^ 31"
    by (simp add: vendored_dump_description description_json_def json_dump_def write_string_def
        dump_escaped_plain plain_char_def serializer_init_def write_characters_def)
  show ?thesis
    using factory_answers_client [OF msg, of "''v=0''" answering_library 7 "()" "\<lambda>_. 0" "CHR ''.''" PcFactory] msg(1)
    by (auto simp: answering_library_def valid_utf8_ascii)
qed

end
